(* ===== verification/Prelude.thy ===== *)
theory Prelude
  imports Main "HOL-Library.Word" "HOL-Library.Monad_Syntax"
begin

text \<open>
  Shared vocabulary of the development: the machine integers of the C sources on the primary
  platform (x86_64, \<open>LONG_BIT = 64\<close>), the value of a double word, and the generic facts about
  words, integers, lists and options that the component theories use.

  A C \<open>unsigned long\<close> is a \<^typ>\<open>64 word\<close> (\<open>ul\<close>); \<open>unsigned int\<close> is a \<^typ>\<open>32 word\<close>.
  Facts about words are stated over \<^const>\<open>uint\<close>, so that linear integer arithmetic decides the
  carry and borrow conditions.  A failed \<open>ASSERT\<close>, a hardware trap or undefined behaviour is
  \<^const>\<open>None\<close>.
\<close>

unbundle bit_operations_syntax

section \<open>Machine integers\<close>

type_synonym ul = "64 word"
type_synonym u32 = "32 word"

abbreviation B64 :: int where
  "B64 \<equiv> 18446744073709551616"

definition LONG_BIT :: nat where
  "LONG_BIT = 64"

text \<open>The value of the double word \<open>hi:lo\<close>.\<close>

definition val2 :: "ul \<Rightarrow> ul \<Rightarrow> int" where
  "val2 lo hi = uint lo + B64 * uint hi"

text \<open>The bounds of a word as facts that survive simplification when they are inserted.\<close>

lemma uint_gt_m1: "- 1 < uint (x :: ul)"
  using uint_ge_0 [of x] by linarith

lemma uint_ltB64: "uint (x :: ul) < B64"
  using uint_lt2p [of x] by simp

lemma uint_m1 [simp]: "uint (- 1 :: ul) = 18446744073709551615"
  by (simp add: unsigned_minus_1_eq_mask mask_eq_exp_minus_1)

lemma uint_add_ul:
  "uint (x + y :: ul) = (if uint x + uint y < B64 then uint x + uint y else uint x + uint y - B64)"
  by (simp add: uint_plus_if')

lemma uint_sub_ul:
  "uint (x - y :: ul) = (if uint y \<le> uint x then uint x - uint y else uint x - uint y + B64)"
  by (simp add: uint_sub_if')

lemma uint_mul_ul: "uint (x * y :: ul) = (uint x * uint y) mod B64"
  by (simp add: uint_word_ariths)

lemma uint_div_ul: "uint (x div y :: ul) = uint x div uint y"
  by (rule uint_div_distrib)

lemma uint_mod_ul: "uint (x mod y :: ul) = uint x mod uint y"
  by (rule uint_mod_distrib)

lemma uint_of_int_ul: "0 \<le> z \<Longrightarrow> z < B64 \<Longrightarrow> uint (word_of_int z :: ul) = z"
  by (simp add: uint_word_of_int_eq take_bit_int_eq_self)

lemma uint_word_of_int_dvd: "2 ^ 64 dvd uint (word_of_int z :: ul) - z"
  by (simp add: uint_word_of_int_eq take_bit_eq_mod mod_eq_dvd_iff [symmetric])

lemma even_uint: "even (uint n) \<longleftrightarrow> even (n :: ul)"
  using bit_uint_iff [of n 0] by (simp add: bit_0)

lemma uint_and_mask: "uint (a AND mask n :: ul) = uint a mod 2 ^ n"
  by (simp only: take_bit_eq_mask [symmetric] unsigned_take_bit_eq) (simp only: take_bit_eq_mod)

lemma uint_drop_bit: "uint (drop_bit n a :: ul) = uint a div 2 ^ n"
  by (simp only: unsigned_drop_bit_eq)
    (simp add: drop_bit_eq_div take_bit_int_eq_self uint_ltB64)

lemma uint_push_bit: "uint (push_bit n a :: ul) = (uint a * 2 ^ n) mod B64"
  by (simp only: unsigned_push_bit_eq) (simp add: push_bit_eq_mult take_bit_eq_mod)

lemma uint_mul_mod_small:
  "2 ^ k dvd B64 \<Longrightarrow> uint (x * y :: ul) mod 2 ^ k = (uint x * uint y) mod 2 ^ k"
  by (simp add: uint_mul_ul mod_mod_cancel)

section \<open>Carry and borrow\<close>

lemma add_carry_iff: "x + y < (y :: ul) \<longleftrightarrow> B64 \<le> uint x + uint y"
  using uint_ltB64 [of x] uint_ltB64 [of y]
  by (simp add: word_less_def uint_add_ul)

lemma sub_borrow_iff: "x < (x - y :: ul) \<longleftrightarrow> uint x < uint y"
  using uint_ltB64 [of x] uint_ltB64 [of y]
  by (simp add: word_less_def uint_sub_ul)

lemma uint_add_cf:
  "uint (x + y + of_bool c :: ul) =
     (if uint x + uint y + of_bool c < B64 then uint x + uint y + of_bool c
      else uint x + uint y + of_bool c - B64)"
  using uint_ltB64 [of x] uint_ltB64 [of y]
  by (cases c) (auto simp: uint_add_ul)

lemma add_cf_less_iff:
  "r + a + of_bool c < (r :: ul) \<longleftrightarrow> B64 \<le> uint r + uint a + of_bool c \<and> \<not> (c \<and> a = - 1)"
  using uint_ltB64 [of r] uint_ltB64 [of a] uint_gt_m1 [of r] uint_gt_m1 [of a]
  by (cases c) (auto simp: word_less_def uint_add_cf [of r a c] uint_add_ul word_uint_eq_iff)

lemma sub_cf_less_iff:
  "(r :: ul) < r - a - of_bool c \<longleftrightarrow> uint r < uint a + of_bool c \<and> \<not> (c \<and> a = - 1)"
  using uint_ltB64 [of r] uint_ltB64 [of a] uint_gt_m1 [of r] uint_gt_m1 [of a]
  by (cases c) (auto simp: word_less_def uint_sub_ul word_uint_eq_iff)

lemma sub_cf_le_iff:
  "r - a - of_bool c \<le> (r :: ul) \<longleftrightarrow> uint a + of_bool c \<le> uint r \<or> c \<and> a = - 1"
  using sub_cf_less_iff [of r a c] by (auto simp: not_less [symmetric])

section \<open>Double words\<close>

lemma val2_inject: "val2 a b = val2 c d \<longleftrightarrow> a = c \<and> b = d"
proof
  assume eq: "val2 a b = val2 c d"
  have "uint b = val2 a b div B64" "uint d = val2 c d div B64"
    using uint_ltB64 [of a] uint_ltB64 [of c] unfolding val2_def by simp_all
  with eq have "uint b = uint d" by simp
  with eq show "a = c \<and> b = d" by (simp add: val2_def word_uint_eq_iff)
qed simp

lemma val2_range: "0 \<le> val2 a b" "val2 a b < B64 * B64"
  using uint_ltB64 [of a] uint_ltB64 [of b] uint_gt_m1 [of a] uint_gt_m1 [of b]
  by (simp_all add: val2_def)

lemma bit_val2: "bit (val2 lo hi) k \<longleftrightarrow> (if k < 64 then bit lo k else bit hi (k - 64))"
proof -
  have "uint lo AND push_bit 64 (uint hi) = 0"
    by (auto simp: bit_eq_iff bit_simps simp del: push_bit_numeral dest: bit_imp_le_length)
  then have "uint lo OR push_bit 64 (uint hi) = uint lo + push_bit 64 (uint hi)"
    by (rule disjunctive_add_eq_or [symmetric])
  also have "\<dots> = val2 lo hi"
    by (simp add: val2_def push_bit_eq_mult)
  finally have "val2 lo hi = uint lo OR push_bit 64 (uint hi)" by simp
  then show ?thesis by (auto simp: bit_simps not_less dest: bit_imp_le_length)
qed

section \<open>Integers and lists\<close>

lemma int_div_less:
  fixes x b c :: int
  assumes "0 < b" "x < c * b"
  shows "x div b < c"
proof (rule ccontr)
  assume "\<not> x div b < c"
  then have "c * b \<le> x div b * b" using assms(1) by (intro mult_right_mono) auto
  moreover have "x div b * b \<le> x"
    using assms(1) pos_mod_sign [of b x] div_mult_mod_eq [of x b] by linarith
  ultimately show False using assms(2) by linarith
qed

lemma half_prod:
  fixes x y :: int
  assumes "0 \<le> x" "x < 4294967296" "0 \<le> y" "y < 4294967296"
  shows "x * y < B64"
  using mult_strict_mono [of x 4294967296 y 4294967296] assms by simp

lemma takeWhile_upt_first:
  assumes "P i" "i < n" "\<And>j. j < i \<Longrightarrow> \<not> P j"
  shows "takeWhile (\<lambda>j. \<not> P j) [0..<n] = [0..<i]"
proof -
  have "[0..<n] = [0..<i] @ i # [Suc i..<n]"
    using assms(2) upt_add_eq_append [of 0 i "n - i"] by (simp add: upt_conv_Cons)
  moreover have "takeWhile (\<lambda>j. \<not> P j) ([0..<i] @ i # [Suc i..<n]) = [0..<i]"
    by (subst takeWhile_append2) (use assms in auto)
  ultimately show ?thesis by simp
qed

lemma B64_pow: "2 ^ 64 = B64"
  by simp

lemma coprime_pow2: "odd m \<Longrightarrow> coprime m (2 ^ k)" for m :: int
  by (intro coprime_power_right_iff [THEN iffD2] disjI1) (simp add: coprime_right_2_iff_odd)

lemma coprime_B64: "odd m \<Longrightarrow> coprime m B64" for m :: int
  by (drule coprime_pow2 [of m 64]) (simp only: B64_pow)

lemma cong_B64_cancel:
  fixes x y m :: int
  assumes "odd m" "(x * B64) mod m = (y * B64) mod m"
  shows "x mod m = y mod m"
proof -
  have "coprime m B64" by (rule coprime_B64 [OF assms(1)])
  moreover have "m dvd (x - y) * B64"
    using assms(2) by (simp add: mod_eq_dvd_iff left_diff_distrib)
  ultimately have "m dvd x - y" by (rule coprime_dvd_mult_left_iff [THEN iffD1])
  then show ?thesis by (simp add: mod_eq_dvd_iff)
qed

end
