(* ===== verification/Ularith.thy ===== *)
theory Ularith
  imports Prelude
begin

text \<open>
  Model of \<open>src/utils/ularith.h\<close>, the multi-word helpers on \<open>unsigned long\<close>.

  The plain name of each function is the x86_64 path, written over the instructions of its
  inline assembly with an explicit carry flag; the suffix \<open>_c\<close> is the C fallback of the same
  function.  An in/out parameter is an argument and a component of the result.  A trap of
  \<open>divq\<close>, a failed \<open>ASSERT\<close> and \<open>__builtin_ctzl(0)\<close> give \<^const>\<open>None\<close>.
\<close>

section \<open>The instructions of the inline assembly\<close>

definition x86_add :: "ul \<Rightarrow> ul \<Rightarrow> ul \<times> bool" where
  "x86_add d s = (d + s, B64 \<le> uint d + uint s)"

definition x86_adc :: "ul \<Rightarrow> ul \<Rightarrow> bool \<Rightarrow> ul \<times> bool" where
  "x86_adc d s cf = (d + s + of_bool cf, B64 \<le> uint d + uint s + of_bool cf)"

definition x86_sub :: "ul \<Rightarrow> ul \<Rightarrow> ul \<times> bool" where
  "x86_sub d s = (d - s, uint d < uint s)"

definition x86_sbb :: "ul \<Rightarrow> ul \<Rightarrow> bool \<Rightarrow> ul \<times> bool" where
  "x86_sbb d s cf = (d - s - of_bool cf, uint d < uint s + of_bool cf)"

definition x86_mul :: "ul \<Rightarrow> ul \<Rightarrow> ul \<times> ul" where
  "x86_mul a b = (a * b, word_of_int ((uint a * uint b) div B64))"

definition x86_div :: "ul \<Rightarrow> ul \<Rightarrow> ul \<Rightarrow> (ul \<times> ul) option" where
  "x86_div a1 a2 b =
     (if b = 0 \<or> B64 \<le> val2 a1 a2 div uint b then None
      else Some (word_of_int (val2 a1 a2 div uint b), word_of_int (val2 a1 a2 mod uint b)))"

definition x86_rcr1 :: "ul \<Rightarrow> bool \<Rightarrow> ul \<times> bool" where
  "x86_rcr1 d cf = (drop_bit 1 d OR (if cf then push_bit 63 1 else 0), bit d 0)"

definition x86_shr1 :: "ul \<Rightarrow> ul \<times> bool" where
  "x86_shr1 d = (drop_bit 1 d, bit d 0)"

section \<open>Addition, subtraction, multiplication, division\<close>

definition ularith_inc_nz :: "ul \<Rightarrow> ul \<Rightarrow> ul" where
  "ularith_inc_nz r a =
     (let (_, cf) = x86_sub a 1; (r', _) = x86_sbb r (-1) cf in r')"

text \<open>
  The fallback advances the local pointer (\<open>r += 1\<close>) and never writes the word it points to.
\<close>

definition ularith_inc_nz_c :: "ul \<Rightarrow> ul \<Rightarrow> ul" where
  "ularith_inc_nz_c r a = r"

definition ularith_add_ul_2ul :: "ul \<Rightarrow> ul \<Rightarrow> ul \<Rightarrow> ul \<times> ul" where
  "ularith_add_ul_2ul r1 r2 a =
     (let (r1', cf) = x86_add r1 a; (r2', _) = x86_adc r2 0 cf in (r1', r2'))"

definition ularith_add_ul_2ul_c :: "ul \<Rightarrow> ul \<Rightarrow> ul \<Rightarrow> ul \<times> ul" where
  "ularith_add_ul_2ul_c r1 r2 a =
     (let r1' = r1 + a in (r1', if r1' < a then r2 + 1 else r2))"

definition ularith_add_2ul_2ul :: "ul \<Rightarrow> ul \<Rightarrow> ul \<Rightarrow> ul \<Rightarrow> ul \<times> ul" where
  "ularith_add_2ul_2ul r1 r2 a1 a2 =
     (let (r1', cf) = x86_add r1 a1; (r2', _) = x86_adc r2 a2 cf in (r1', r2'))"

definition ularith_add_2ul_2ul_c :: "ul \<Rightarrow> ul \<Rightarrow> ul \<Rightarrow> ul \<Rightarrow> ul \<times> ul" where
  "ularith_add_2ul_2ul_c r1 r2 a1 a2 =
     (let r1' = r1 + a1; r2' = r2 + (a2 + of_bool (r1' < a1)) in (r1', r2'))"

definition ularith_add_2ul_2ul_cy :: "ul \<Rightarrow> ul \<Rightarrow> ul \<Rightarrow> ul \<Rightarrow> ul \<times> ul \<times> bool" where
  "ularith_add_2ul_2ul_cy r1 r2 a1 a2 =
     (let (r1', cf) = x86_add r1 a1; (r2', cy) = x86_adc r2 a2 cf in (r1', r2', cy))"

definition ularith_add_2ul_2ul_cy_c :: "ul \<Rightarrow> ul \<Rightarrow> ul \<Rightarrow> ul \<Rightarrow> ul \<times> ul \<times> bool" where
  "ularith_add_2ul_2ul_cy_c r1 r2 a1 a2 =
     (let u1 = r1 + a1; u2 = r2 + a2;
          u2' = (if u1 < r1 then u2 + 1 else u2)
      in (u1, u2', u2' < r2))"

definition ularith_sub_ul_2ul :: "ul \<Rightarrow> ul \<Rightarrow> ul \<Rightarrow> ul \<times> ul" where
  "ularith_sub_ul_2ul r1 r2 a =
     (let (r1', cf) = x86_sub r1 a; (r2', _) = x86_sbb r2 0 cf in (r1', r2'))"

definition ularith_sub_ul_2ul_c :: "ul \<Rightarrow> ul \<Rightarrow> ul \<Rightarrow> ul \<times> ul" where
  "ularith_sub_ul_2ul_c r1 r2 a =
     (let u = r1; r1' = r1 - a in (r1', if r1' > u then r2 - 1 else r2))"

definition ularith_sub_2ul_2ul :: "ul \<Rightarrow> ul \<Rightarrow> ul \<Rightarrow> ul \<Rightarrow> ul \<times> ul" where
  "ularith_sub_2ul_2ul r1 r2 a1 a2 =
     (let (r1', cf) = x86_sub r1 a1; (r2', _) = x86_sbb r2 a2 cf in (r1', r2'))"

definition ularith_sub_2ul_2ul_c :: "ul \<Rightarrow> ul \<Rightarrow> ul \<Rightarrow> ul \<Rightarrow> ul \<times> ul" where
  "ularith_sub_2ul_2ul_c r1 r2 a1 a2 =
     (let u = r1; r1' = r1 - a1; r2' = r2 - a2
      in (r1', if r1' > u then r2' - 1 else r2'))"

definition ularith_sub_2ul_2ul_cy :: "ul \<Rightarrow> ul \<Rightarrow> ul \<Rightarrow> ul \<Rightarrow> ul \<times> ul \<times> bool" where
  "ularith_sub_2ul_2ul_cy r1 r2 a1 a2 =
     (let (r1', cf) = x86_sub r1 a1; (r2', cy) = x86_sbb r2 a2 cf in (r1', r2', cy))"

definition ularith_sub_2ul_2ul_cy_c :: "ul \<Rightarrow> ul \<Rightarrow> ul \<Rightarrow> ul \<Rightarrow> ul \<times> ul \<times> bool" where
  "ularith_sub_2ul_2ul_cy_c r1 r2 a1 a2 =
     (let u1 = r1 - a1; u2 = r2 - a2;
          u2' = (if u1 > r1 then u2 - 1 else u2)
      in (u1, u2', u2' > r2))"

definition ularith_sub_2ul_2ul_ge :: "ul \<Rightarrow> ul \<Rightarrow> ul \<Rightarrow> ul \<Rightarrow> ul \<times> ul" where
  "ularith_sub_2ul_2ul_ge r1 r2 a1 a2 =
     (let t1 = r1; t2 = r2;
          (r1', cf) = x86_sub r1 a1;
          (r2', cf') = x86_sbb r2 a2 cf
      in (if cf' then t1 else r1', if cf' then t2 else r2'))"

definition ularith_sub_2ul_2ul_ge_c :: "ul \<Rightarrow> ul \<Rightarrow> ul \<Rightarrow> ul \<Rightarrow> ul \<times> ul" where
  "ularith_sub_2ul_2ul_ge_c r1 r2 a1 a2 =
     (let t1 = r1 - a1; t2 = r2 - (a2 + of_bool (t1 > r1))
      in if t2 \<le> r2 then (t1, t2) else (r1, r2))"

definition ularith_mul_ul_ul_2ul :: "ul \<Rightarrow> ul \<Rightarrow> ul \<times> ul" where
  "ularith_mul_ul_ul_2ul a b = x86_mul a b"

definition ularith_mul_ul_ul_2ul_c :: "ul \<Rightarrow> ul \<Rightarrow> ul \<times> ul" where
  "ularith_mul_ul_ul_2ul_c a b =
     (let half = 32;
          msk = push_bit half 1 - 1;
          t1 = (a AND msk) * (b AND msk);
          t2 = 0;
          p1 = drop_bit half a * (b AND msk);
          p2 = drop_bit half p1;
          p1 = push_bit half (p1 AND msk);
          (t1, t2) = ularith_add_2ul_2ul_c t1 t2 p1 p2;
          p1 = (a AND msk) * drop_bit half b;
          p2 = drop_bit half p1;
          p1 = push_bit half (p1 AND msk);
          (t1, t2) = ularith_add_2ul_2ul_c t1 t2 p1 p2;
          t2 = t2 + drop_bit half a * drop_bit half b
      in (t1, t2))"

definition ularith_sqr_ul_2ul :: "ul \<Rightarrow> ul \<times> ul" where
  "ularith_sqr_ul_2ul a = x86_mul a a"

definition ularith_sqr_ul_2ul_c :: "ul \<Rightarrow> ul \<times> ul" where
  "ularith_sqr_ul_2ul_c a =
     (let half = 32;
          msk = push_bit half 1 - 1;
          t1 = (a AND msk) * (a AND msk);
          t2 = 0;
          p1 = drop_bit half a * (a AND msk);
          p2 = drop_bit half p1;
          p1 = push_bit half (p1 AND msk);
          (t1, t2) = ularith_add_2ul_2ul_c t1 t2 p1 p2;
          (t1, t2) = ularith_add_2ul_2ul_c t1 t2 p1 p2;
          t2 = t2 + drop_bit half a * drop_bit half a
      in (t1, t2))"

definition ularith_div_2ul_ul_ul :: "ul \<Rightarrow> ul \<Rightarrow> ul \<Rightarrow> (ul \<times> ul) option" where
  "ularith_div_2ul_ul_ul a1 a2 b = (if a2 < b then x86_div a1 a2 b else None)"

definition ularith_div_2ul_ul_ul_r :: "ul \<Rightarrow> ul \<Rightarrow> ul \<Rightarrow> ul option" where
  "ularith_div_2ul_ul_ul_r a1 a2 b =
     (if a2 < b then map_option snd (x86_div a1 a2 b) else None)"

section \<open>Shifts and bit counts\<close>

definition ularith_shrd :: "ul \<Rightarrow> ul \<Rightarrow> nat \<Rightarrow> ul" where
  "ularith_shrd r a i =
     (let c = i mod 64 in if c = 0 then r else drop_bit c r OR push_bit (64 - c) a)"

definition ularith_shrd_c :: "ul \<Rightarrow> ul \<Rightarrow> nat \<Rightarrow> ul" where
  "ularith_shrd_c r a i = (if i > 0 then drop_bit i r OR push_bit (64 - i) a else r)"

definition ularith_shld :: "ul \<Rightarrow> ul \<Rightarrow> nat \<Rightarrow> ul" where
  "ularith_shld r a i =
     (let c = i mod 64 in if c = 0 then r else push_bit c r OR drop_bit (64 - c) a)"

definition ularith_shld_c :: "ul \<Rightarrow> ul \<Rightarrow> nat \<Rightarrow> ul" where
  "ularith_shld_c r a i = (if i > 0 then push_bit i r OR drop_bit (64 - i) a else r)"

text \<open>
  \<open>ularith_ctz\<close> and \<open>ularith_clz\<close> are the compiler's builtins under GCC and a loop elsewhere.
  Both are undefined on zero, where the loop does not end.
\<close>

definition builtin_ctzl :: "ul \<Rightarrow> nat option" where
  "builtin_ctzl a =
     (if a = 0 then None else Some (length (takeWhile (\<lambda>i. \<not> bit a i) [0..<LONG_BIT])))"

definition builtin_clzl :: "ul \<Rightarrow> nat option" where
  "builtin_clzl a =
     (if a = 0 then None else Some (length (takeWhile (\<lambda>i. \<not> bit a (63 - i)) [0..<LONG_BIT])))"

partial_function (option) ctz_loop :: "ul \<Rightarrow> nat \<Rightarrow> nat option" where
  "ctz_loop t i = (if t AND 1 = 0 then ctz_loop (drop_bit 1 t) (Suc i) else Some i)"

partial_function (option) clz_loop :: "ul \<Rightarrow> ul \<Rightarrow> nat \<Rightarrow> nat option" where
  "clz_loop a t i = (if a AND t = 0 then clz_loop a (drop_bit 1 t) (Suc i) else Some i)"

definition ularith_ctz :: "ul \<Rightarrow> nat option" where
  "ularith_ctz a = builtin_ctzl a"

definition ularith_ctz_c :: "ul \<Rightarrow> nat option" where
  "ularith_ctz_c a = ctz_loop a 0"

definition ularith_clz :: "ul \<Rightarrow> nat option" where
  "ularith_clz a = builtin_clzl a"

definition ularith_clz_c :: "ul \<Rightarrow> nat option" where
  "ularith_clz_c a = clz_loop a (push_bit (LONG_BIT - 1) 1) 0"

section \<open>Inverse modulo the word size\<close>

text \<open>
  The first three Newton steps multiply \<open>(unsigned int)\<close> values, so their product wraps modulo
  \<open>2 ^ 32\<close> before it is subtracted from the 64-bit \<open>2UL * r\<close>.
\<close>

definition newton32 :: "ul \<Rightarrow> ul \<Rightarrow> ul" where
  "newton32 n r = 2 * r - ucast ((ucast r :: u32) * (ucast r :: u32) * (ucast n :: u32))"

definition newton64 :: "ul \<Rightarrow> ul \<Rightarrow> ul" where
  "newton64 n r = 2 * r - r * r * n"

definition ularith_invmod :: "ul \<Rightarrow> ul option" where
  "ularith_invmod n =
     (if n mod 2 \<noteq> 0 then
        let r = (3 * n) XOR 2;
            r = newton32 n r;
            r = newton32 n r;
            r = newton32 n r;
            r = newton64 n r
        in Some r
      else None)"

section \<open>Facts about the helpers\<close>

lemmas x86_defs = x86_add_def x86_adc_def x86_sub_def x86_sbb_def

lemma add_2ul_2ul_cy_val:
  assumes "ularith_add_2ul_2ul_cy r1 r2 a1 a2 = (s1, s2, cy)"
  shows "val2 s1 s2 + (if cy then B64 * B64 else 0) = val2 r1 r2 + val2 a1 a2"
  using assms uint_ltB64 [of r2] uint_ltB64 [of a2]
  by (cases "B64 \<le> uint r1 + uint a1")
    (auto simp: ularith_add_2ul_2ul_cy_def x86_defs val2_def uint_add_ul)

lemma sub_2ul_2ul_cy_val:
  assumes "ularith_sub_2ul_2ul_cy r1 r2 a1 a2 = (s1, s2, cy)"
  shows "val2 s1 s2 - (if cy then B64 * B64 else 0) = val2 r1 r2 - val2 a1 a2"
  using assms uint_ltB64 [of a2] uint_gt_m1 [of r2]
  by (cases "uint r1 < uint a1")
    (auto simp: ularith_sub_2ul_2ul_cy_def x86_defs val2_def uint_sub_ul)

lemma ularith_add_2ul_2ul_c_eq: "ularith_add_2ul_2ul_c r1 r2 a1 a2 = ularith_add_2ul_2ul r1 r2 a1 a2"
  by (simp add: ularith_add_2ul_2ul_c_def ularith_add_2ul_2ul_def x86_add_def x86_adc_def
        Let_def add_carry_iff)

lemma ularith_add_ul_2ul_c_eq: "ularith_add_ul_2ul_c r1 r2 a = ularith_add_ul_2ul r1 r2 a"
  by (simp add: ularith_add_ul_2ul_c_def ularith_add_ul_2ul_def x86_add_def x86_adc_def
        Let_def add_carry_iff)

lemma ularith_sub_2ul_2ul_c_eq: "ularith_sub_2ul_2ul_c r1 r2 a1 a2 = ularith_sub_2ul_2ul r1 r2 a1 a2"
  by (simp add: ularith_sub_2ul_2ul_c_def ularith_sub_2ul_2ul_def x86_defs
        Let_def sub_borrow_iff)

lemma ularith_sub_ul_2ul_c_eq: "ularith_sub_ul_2ul_c r1 r2 a = ularith_sub_ul_2ul r1 r2 a"
  by (simp add: ularith_sub_ul_2ul_c_def ularith_sub_ul_2ul_def x86_defs
        Let_def sub_borrow_iff)

lemma ularith_inc_nz_eq: "ularith_inc_nz r a = (if a = 0 then r else r + 1)"
  using uint_gt_m1 [of a]
  by (auto simp: ularith_inc_nz_def x86_defs word_uint_eq_iff)

lemma add_cy_c_eq:
  "ularith_add_2ul_2ul_cy_c r1 r2 a1 a2 =
     (let (s1, s2, cy) = ularith_add_2ul_2ul_cy r1 r2 a1 a2
      in (s1, s2, cy \<and> \<not> (B64 \<le> uint r1 + uint a1 \<and> a2 = - 1)))"
  using add_cf_less_iff [of r2 a2 "B64 \<le> uint r1 + uint a1"]
  by (cases "B64 \<le> uint r1 + uint a1") (simp_all add: ularith_add_2ul_2ul_cy_c_def ularith_add_2ul_2ul_cy_def x86_defs Let_def
        add_carry_iff [of a1 r1, unfolded add.commute [of a1]] add.commute [of "uint a1"]
        split: if_splits)

lemma sub_cy_c_eq:
  "ularith_sub_2ul_2ul_cy_c r1 r2 a1 a2 =
     (let (s1, s2, cy) = ularith_sub_2ul_2ul_cy r1 r2 a1 a2
      in (s1, s2, cy \<and> \<not> (uint r1 < uint a1 \<and> a2 = - 1)))"
  using sub_cf_less_iff [of r2 a2 "uint r1 < uint a1"]
  by (cases "uint r1 < uint a1") (simp_all add: ularith_sub_2ul_2ul_cy_c_def ularith_sub_2ul_2ul_cy_def x86_defs Let_def
        sub_borrow_iff)

lemma sub_ge_val: "ularith_sub_2ul_2ul_ge r1 r2 a1 a2 = (s1, s2) \<Longrightarrow>
   val2 s1 s2 = (if val2 a1 a2 \<le> val2 r1 r2 then val2 r1 r2 - val2 a1 a2 else val2 r1 r2)"
  using uint_ltB64 [of r1] uint_ltB64 [of r2] uint_ltB64 [of a1] uint_ltB64 [of a2]
    uint_gt_m1 [of r1] uint_gt_m1 [of a1]
  by (cases "uint r1 < uint a1")
    (auto simp: ularith_sub_2ul_2ul_ge_def x86_defs val2_def uint_sub_ul split: if_splits)

lemma sub_ge_c_eq: "ularith_sub_2ul_2ul_ge_c r1 r2 a1 a2 =
   (if uint r1 < uint a1 \<and> a2 = - 1 then (r1 - a1, r2) else ularith_sub_2ul_2ul_ge r1 r2 a1 a2)"
proof (cases "uint r1 < uint a1")
  case True
  then show ?thesis using sub_cf_le_iff [of r2 a2 True]
    by (auto simp: ularith_sub_2ul_2ul_ge_c_def ularith_sub_2ul_2ul_ge_def x86_defs Let_def
          sub_borrow_iff diff_diff_eq)
next
  case False
  then show ?thesis using sub_cf_le_iff [of r2 a2 False]
    by (auto simp: ularith_sub_2ul_2ul_ge_c_def ularith_sub_2ul_2ul_ge_def x86_defs Let_def
          sub_borrow_iff)
qed

lemma x86_mul_val: "x86_mul a b = (lo, hi) \<Longrightarrow> val2 lo hi = uint a * uint b"
proof -
  assume "x86_mul a b = (lo, hi)"
  then have lo: "lo = a * b" and hi: "hi = word_of_int ((uint a * uint b) div B64)"
    by (auto simp: x86_mul_def)
  have "uint a * uint b < B64 * B64"
    using uint_ltB64 [of a] uint_ltB64 [of b] by (intro mult_strict_mono) auto
  then have "uint a * uint b div B64 < B64" by (simp add: div_less_iff_less_mult)
  then have "uint hi = uint a * uint b div B64"
    by (simp add: hi uint_word_of_int_eq take_bit_eq_mod pos_imp_zdiv_nonneg_iff)
  then show ?thesis by (simp add: val2_def lo uint_mul_ul)
qed

lemma ularith_add_2ul_2ul_val:
  assumes "ularith_add_2ul_2ul r1 r2 a1 a2 = (s1, s2)"
  shows "val2 s1 s2 = (val2 r1 r2 + val2 a1 a2) mod (B64 * B64)"
proof -
  obtain cy where cy: "ularith_add_2ul_2ul_cy r1 r2 a1 a2 = (s1, s2, cy)"
    using assms by (auto simp: ularith_add_2ul_2ul_def ularith_add_2ul_2ul_cy_def split: prod.splits)
  have "(val2 s1 s2 + (if cy then B64 * B64 else 0)) mod (B64 * B64) = val2 s1 s2"
    using val2_range [of s1 s2] by simp
  then show ?thesis using add_2ul_2ul_cy_val [OF cy] by simp
qed

lemma val2_add_high: "val2 t1 (t2 + h) = (val2 t1 t2 + B64 * uint h) mod (B64 * B64)"
proof -
  have "ularith_add_2ul_2ul t1 t2 0 h = (t1, t2 + h)"
    using uint_ltB64 [of t1] by (simp add: ularith_add_2ul_2ul_def x86_defs)
  from ularith_add_2ul_2ul_val [OF this] show ?thesis by (simp add: val2_def algebra_simps)
qed

lemma half_mask: "(push_bit 32 1 - 1 :: ul) = mask 32"
  by (simp add: mask_eq_exp_minus_1)

lemma uint_low_half: "uint (a AND (push_bit 32 1 - 1) :: ul) = uint a mod 4294967296"
  using uint_and_mask [of a 32] unfolding half_mask by simp

lemma uint_high_half: "uint (drop_bit 32 a :: ul) = uint a div 4294967296"
  using uint_drop_bit [of 32 a] by simp

lemma uint_shift_half: "uint (push_bit 32 (a AND (push_bit 32 1 - 1)) :: ul) = (uint a mod 4294967296) * 4294967296"
proof -
  have "uint a mod 4294967296 * 4294967296 < B64"
    using pos_mod_bound [of 4294967296 "uint a"] by linarith
  then show ?thesis
    using uint_push_bit [of 32 "a AND (push_bit 32 1 - 1)"] uint_low_half [of a] by simp
qed

lemma half_ranges:
  "0 \<le> uint (a :: ul) mod 4294967296" "uint a mod 4294967296 < 4294967296"
  "0 \<le> uint a div 4294967296" "uint a div 4294967296 < 4294967296"
  using uint_ltB64 [of a] uint_gt_m1 [of a] by (auto simp: pos_imp_zdiv_nonneg_iff div_less_iff_less_mult)

text \<open>The cross product p contributes p * 2 ^ 32 to the double word.\<close>

lemma cross_val:
  "val2 (push_bit 32 (p AND (push_bit 32 1 - 1))) (drop_bit 32 p) = 4294967296 * uint p"
  unfolding val2_def uint_shift_half uint_high_half
  by (simp add: algebra_simps) (simp add: minus_div_mult_eq_mod [symmetric])

lemma ularith_mul_c_val:
  assumes "ularith_mul_ul_ul_2ul_c a b = (lo, hi)"
  shows "val2 lo hi = uint a * uint b"
proof -
  define al ah bl bh where "al = a AND (push_bit 32 1 - 1)" and "ah = drop_bit 32 a"
    and "bl = b AND (push_bit 32 1 - 1)" and "bh = drop_bit 32 b"
  note abs = al_def ah_def bl_def bh_def
  have ranges: "0 \<le> uint al" "uint al < 4294967296" "0 \<le> uint ah" "uint ah < 4294967296"
     "0 \<le> uint bl" "uint bl < 4294967296" "0 \<le> uint bh" "uint bh < 4294967296"
    unfolding abs uint_low_half uint_high_half by (rule half_ranges)+
  have prods: "uint (x * y) = uint x * uint y" if "x \<in> {al, ah}" "y \<in> {bl, bh}" for x y
    using that half_prod [of "uint x" "uint y"] ranges by (auto simp: uint_mul_ul)
  obtain s1 s2 where s: "ularith_add_2ul_2ul (al * bl) 0 (push_bit 32 (ah * bl AND (push_bit 32 1 - 1))) (drop_bit 32 (ah * bl)) = (s1, s2)"
    by fastforce
  obtain u1 u2 where u: "ularith_add_2ul_2ul s1 s2 (push_bit 32 (al * bh AND (push_bit 32 1 - 1))) (drop_bit 32 (al * bh)) = (u1, u2)"
    by fastforce
  have "lo = u1" "hi = u2 + ah * bh"
    using assms s u unfolding ularith_mul_ul_ul_2ul_c_def Let_def ularith_add_2ul_2ul_c_eq abs [symmetric]
    by auto
  then have "val2 lo hi = (uint al * uint bl + 4294967296 * (uint ah * uint bl) + 4294967296 * (uint al * uint bh)
      + B64 * (uint ah * uint bh)) mod (B64 * B64)"
    using ularith_add_2ul_2ul_val [OF s] ularith_add_2ul_2ul_val [OF u]
    unfolding cross_val by (simp add: val2_add_high prods mod_simps) (simp add: val2_def prods)
  also have "\<dots> = (uint a * uint b) mod (B64 * B64)"
  proof -
    have "uint a = uint al + 4294967296 * uint ah" "uint b = uint bl + 4294967296 * uint bh"
      unfolding abs uint_low_half uint_high_half by simp_all
    then show ?thesis by (simp add: algebra_simps)
  qed
  also have "\<dots> = uint a * uint b"
    using mult_strict_mono [of "uint a" B64 "uint b" B64] uint_ltB64 [of a] uint_ltB64 [of b] by simp
  finally show ?thesis .
qed

lemma ularith_mul_c_eq: "ularith_mul_ul_ul_2ul_c a b = ularith_mul_ul_ul_2ul a b"
  using ularith_mul_c_val [of a b] x86_mul_val [of a b] val2_inject
  unfolding ularith_mul_ul_ul_2ul_def by (metis surj_pair)

lemma ularith_sqr_c_eq: "ularith_sqr_ul_2ul_c a = ularith_sqr_ul_2ul a"
proof -
  have "ularith_sqr_ul_2ul_c a = ularith_mul_ul_ul_2ul_c a a"
    by (simp add: ularith_sqr_ul_2ul_c_def ularith_mul_ul_ul_2ul_c_def Let_def mult.commute)
  then show ?thesis by (simp add: ularith_mul_c_eq ularith_sqr_ul_2ul_def ularith_mul_ul_ul_2ul_def)
qed

lemma x86_div_val:
  assumes "a2 < b"
  obtains q r where "x86_div a1 a2 b = Some (q, r)"
    "uint q = val2 a1 a2 div uint b" "uint r = val2 a1 a2 mod uint b"
proof -
  have b: "uint a2 + 1 \<le> uint b" "0 < uint b"
    using assms uint_gt_m1 [of a2] by (simp_all add: word_less_def)
  then have "B64 * (uint a2 + 1) \<le> B64 * uint b" by (intro mult_left_mono) auto
  then have "val2 a1 a2 < B64 * uint b"
    using uint_ltB64 [of a1] by (simp add: val2_def)
  then have q: "val2 a1 a2 div uint b < B64" "0 \<le> val2 a1 a2 div uint b"
    using int_div_less [OF b(2), of "val2 a1 a2" B64]
      pos_imp_zdiv_nonneg_iff [OF b(2), of "val2 a1 a2"] val2_range(1) [of a1 a2]
    by simp_all
  have r: "0 \<le> val2 a1 a2 mod uint b" "val2 a1 a2 mod uint b < B64"
    using b(2) uint_ltB64 [of b] pos_mod_bound [OF b(2), of "val2 a1 a2"] by (simp, linarith)
  have "b \<noteq> 0" using b by auto
  with q r show thesis
    by (intro that [of "word_of_int (val2 a1 a2 div uint b)" "word_of_int (val2 a1 a2 mod uint b)"])
      (simp_all add: x86_div_def uint_word_of_int_eq take_bit_int_eq_self)
qed

lemma ularith_div_2ul_ul_ul_r_val:
  assumes "a2 < b"
  obtains r where "ularith_div_2ul_ul_ul_r a1 a2 b = Some r" "uint r = val2 a1 a2 mod uint b"
proof -
  obtain q r where "x86_div a1 a2 b = Some (q, r)" "uint r = val2 a1 a2 mod uint b"
    by (rule x86_div_val [OF assms])
  with assms show thesis by (intro that [of r]) (simp_all add: ularith_div_2ul_ul_ul_r_def)
qed

lemma ularith_shrd_val:
  "i < 64 \<Longrightarrow> ularith_shrd r a i = word_of_int (val2 r a div 2 ^ i)"
  unfolding drop_bit_eq_div [symmetric]
  by (rule bit_word_eqI)
    (auto simp: ularith_shrd_def bit_simps bit_val2 add.commute dest: bit_imp_le_length)

lemma builtin_ctzl_Some:
  assumes "a \<noteq> 0"
  obtains i where "builtin_ctzl a = Some i" "i < LONG_BIT" "bit a i" "\<And>j. j < i \<Longrightarrow> \<not> bit a j"
proof -
  obtain k where "bit a k" using assms by (auto simp: bit_eq_iff)
  define i where "i = (LEAST k. bit a k)"
  have i: "bit a i" "\<And>j. j < i \<Longrightarrow> \<not> bit a j"
    unfolding i_def by (rule LeastI [of "bit a", OF \<open>bit a k\<close>], rule not_less_Least)
  then have "i < LONG_BIT" using bit_imp_le_length [of a i] by (simp add: LONG_BIT_def)
  then have "takeWhile (\<lambda>j. \<not> bit a j) [0..<LONG_BIT] = [0..<i]"
    by (intro takeWhile_upt_first) (use i in auto)
  then have "builtin_ctzl a = Some i" using assms by (simp add: builtin_ctzl_def)
  with \<open>i < LONG_BIT\<close> i show thesis by (intro that)
qed

lemma ctz_loop_step:
  assumes "bit a i" "\<And>j. j < i \<Longrightarrow> \<not> bit a j" "k \<le> i"
  shows "ctz_loop (drop_bit k a) k = Some i"
  using assms(3)
proof (induction "i - k" arbitrary: k)
  case 0
  then have "k = i" by simp
  have "drop_bit i a AND 1 \<noteq> 0"
    using assms(1) by (simp add: and_one_eq bit_iff_odd_drop_bit odd_iff_mod_2_eq_one)
  then show ?case by (simp add: \<open>k = i\<close> ctz_loop.simps)
next
  case (Suc d)
  then have "k < i" by simp
  then have "drop_bit k a AND 1 = 0"
    using assms(2) [of k] by (simp add: and_one_eq bit_iff_odd_drop_bit even_iff_mod_2_eq_zero)
  moreover have "ctz_loop (drop_bit (Suc k) a) (Suc k) = Some i"
    using Suc \<open>k < i\<close> by simp
  ultimately show ?case
    by (subst ctz_loop.simps) (simp add: drop_bit_drop_bit)
qed

lemma builtin_clzl_Some:
  assumes "a \<noteq> 0"
  obtains i where "builtin_clzl a = Some i" "i < LONG_BIT" "bit a (63 - i)"
    "\<And>j. j < i \<Longrightarrow> \<not> bit a (63 - j)"
proof -
  obtain k where k: "bit a k" using assms by (auto simp: bit_eq_iff)
  then have "k < 64" using bit_imp_le_length [of a k] by simp
  then have k': "bit a (63 - (63 - k))" using k by simp
  define i where "i = (LEAST k. bit a (63 - k))"
  have i: "bit a (63 - i)" "\<And>j. j < i \<Longrightarrow> \<not> bit a (63 - j)"
    unfolding i_def by (rule LeastI [of "\<lambda>k. bit a (63 - k)", OF k'], rule not_less_Least)
  have "i \<le> 63 - k" unfolding i_def by (rule Least_le [of "\<lambda>k. bit a (63 - k)", OF k'])
  then have "i < LONG_BIT" by (simp add: LONG_BIT_def)
  then have "takeWhile (\<lambda>j. \<not> bit a (63 - j)) [0..<LONG_BIT] = [0..<i]"
    by (intro takeWhile_upt_first [where P = "\<lambda>j. bit a (63 - j)"]) (use i in auto)
  then have "builtin_clzl a = Some i" using assms by (simp add: builtin_clzl_def)
  with \<open>i < LONG_BIT\<close> i show thesis by (intro that)
qed

lemma and_pow2_eq_0: "a AND push_bit k 1 = (0::ul) \<longleftrightarrow> \<not> bit a k"
  by (simp add: push_bit_of_1 and_exp_eq_0_iff_not_bit)

lemma clz_loop_step:
  assumes "bit a (63 - i)" "\<And>j. j < i \<Longrightarrow> \<not> bit a (63 - j)" "i < 64" "k \<le> i"
  shows "clz_loop a (push_bit (63 - k) 1) k = Some i"
  using assms(4)
proof (induction "i - k" arbitrary: k)
  case 0
  then have "k = i" by simp
  then show ?case using assms(1)
    by (subst clz_loop.simps) (simp add: and_exp_eq_0_iff_not_bit push_bit_of_1)
next
  case (Suc d)
  then have "k < i" by simp
  then have "a AND push_bit (63 - k) 1 = 0"
    using assms(2) [of k] by (simp only: and_pow2_eq_0 simp_thms)
  moreover have "clz_loop a (push_bit (63 - Suc k) 1) (Suc k) = Some i"
    by (rule Suc.hyps(1)) (use Suc.hyps(2) \<open>k < i\<close> in simp_all)
  moreover have "drop_bit 1 (push_bit (63 - k) (1::ul)) = push_bit (63 - Suc k) 1"
    using \<open>k < i\<close> \<open>i < 64\<close> by (intro bit_word_eqI) (auto simp: bit_simps)
  ultimately show ?case
    by (subst clz_loop.simps) (simp only: simp_thms if_True)
qed

lemma newton_dvd:
  fixes n r r' :: int
  assumes "2 ^ k dvd n * r - 1" "2 ^ m dvd r' - (2 * r - r * r * n)" "m \<le> 2 * k"
  shows "2 ^ m dvd n * r' - 1"
proof -
  have "(2 ^ k) * (2 ^ k) dvd (n * r - 1) * (n * r - 1)"
    using assms(1) by (rule mult_dvd_mono) (rule assms(1))
  then have "2 ^ (2 * k) dvd (n * r - 1) * (n * r - 1)"
    by (simp add: power_add [symmetric] mult_2)
  then have "2 ^ m dvd (n * r - 1) * (n * r - 1)"
    using le_imp_power_dvd [OF assms(3), of "2::int"] dvd_trans by blast
  moreover have "2 ^ m dvd n * (r' - (2 * r - r * r * n))"
    using assms(2) by (rule dvd_mult)
  moreover have "n * r' - 1 = n * (r' - (2 * r - r * r * n)) - (n * r - 1) * (n * r - 1)"
    by (simp add: algebra_simps)
  ultimately show ?thesis by (metis dvd_diff)
qed

lemma newton64_dvd: "2 ^ 64 dvd uint (newton64 n r) - (2 * uint r - uint r * uint r * uint n)"
proof -
  have "newton64 n r = word_of_int (2 * uint r - uint r * uint r * uint n)"
    by (simp add: newton64_def)
  then show ?thesis by (simp only: uint_word_of_int_dvd)
qed

lemma newton32_eq:
  "newton32 n r = word_of_int (2 * uint r - (uint r * uint r * uint n) mod 2 ^ 32)"
proof -
  have "(ucast r :: u32) * (ucast r :: u32) * (ucast n :: u32) = word_of_int (uint r * uint r * uint n)"
    by (simp only: ucast_eq wi_hom_mult)
  moreover have "(ucast (word_of_int z :: u32) :: ul) = word_of_int (z mod 2 ^ 32)" for z
    by (simp only: ucast_eq uint_word_of_int) simp
  ultimately have "newton32 n r = 2 * r - word_of_int ((uint r * uint r * uint n) mod 2 ^ 32)"
    by (simp only: newton32_def)
  also have "2 * r = word_of_int (2 * uint r)" by simp
  finally show ?thesis by (simp only: wi_hom_sub)
qed

lemma newton32_dvd: "2 ^ 32 dvd uint (newton32 n r) - (2 * uint r - uint r * uint r * uint n)"
proof -
  define p where "p = uint r * uint r * uint n"
  have "2 ^ 64 dvd uint (newton32 n r) - (2 * uint r - p mod 2 ^ 32)"
    unfolding newton32_eq p_def by (rule uint_word_of_int_dvd)
  then have "2 ^ 32 dvd uint (newton32 n r) - (2 * uint r - p mod 2 ^ 32)"
    by (rule dvd_trans [rotated]) (rule le_imp_power_dvd, simp)
  moreover have "2 ^ 32 dvd p mod 2 ^ 32 - p"
    by (simp add: mod_eq_dvd_iff [symmetric])
  ultimately have "2 ^ 32 dvd (uint (newton32 n r) - (2 * uint r - p mod 2 ^ 32)) - (p mod 2 ^ 32 - p)"
    by (rule dvd_diff)
  moreover have "(x - (y - q)) - (q - p) = x - (y - p)" for x y q :: int by simp
  ultimately show ?thesis unfolding p_def [symmetric] by (simp only:)
qed

lemma invmod_seed:
  assumes "odd (n::ul)"
  shows "2 ^ 5 dvd uint n * uint ((3 * n) XOR 2) - 1"
proof -
  define k where "k = uint n mod 32"
  have "k \<in> {0..<32}" by (simp add: k_def)
  moreover have "odd k" using assms by (simp add: k_def even_uint dvd_mod_iff)
  moreover have "\<forall>k \<in> set [0..31]. odd k \<longrightarrow> (k * ((3 * k) mod 32 XOR 2)) mod 32 = (1::int)"
    by code_simp
  ultimately have k: "(k * ((3 * k) mod 32 XOR 2)) mod 32 = 1" by simp
  have "uint (3 * n) mod 32 = (3 * k) mod 32"
    using uint_mul_mod_small [of 5 3 n] by (simp add: k_def mod_simps)
  moreover have "take_bit 5 (uint ((3 * n) XOR 2)) = take_bit 5 (uint (3 * n)) XOR 2"
    by (simp add: unsigned_xor_eq)
  ultimately have "uint ((3 * n) XOR 2) mod 32 = (3 * k) mod 32 XOR 2"
    by (simp add: take_bit_eq_mod)
  then have "(uint n * uint ((3 * n) XOR 2)) mod 32 = 1"
    using k by (metis k_def mod_mult_eq mod_mod_trivial)
  then have "(uint n * uint ((3 * n) XOR 2)) mod 32 = 1 mod 32" by simp
  then show ?thesis by (simp only: mod_eq_dvd_iff) simp
qed

lemma ularith_invmod_dvd:
  assumes "odd n"
  obtains r where "ularith_invmod n = Some r" "2 ^ 64 dvd uint n * uint r - 1"
proof -
  define r0 where "r0 = (3 * n) XOR 2"
  define r1 r2 r3 r4 where "r1 = newton32 n r0" and "r2 = newton32 n r1" and "r3 = newton32 n r2"
    and "r4 = newton64 n r3"
  have d0: "2 ^ 5 dvd uint n * uint r0 - 1" unfolding r0_def by (rule invmod_seed [OF assms])
  have d1: "2 ^ 10 dvd uint n * uint r1 - 1"
    by (rule newton_dvd [OF d0]) (use newton32_dvd [of n r0] dvd_trans [OF le_imp_power_dvd] in \<open>force simp: r1_def\<close>, simp)
  have d2: "2 ^ 20 dvd uint n * uint r2 - 1"
    by (rule newton_dvd [OF d1]) (use newton32_dvd [of n r1] dvd_trans [OF le_imp_power_dvd] in \<open>force simp: r2_def\<close>, simp)
  have d3: "2 ^ 32 dvd uint n * uint r3 - 1"
    by (rule newton_dvd [OF d2]) (use newton32_dvd [of n r2] in \<open>simp_all add: r3_def\<close>)
  have d4: "2 ^ 64 dvd uint n * uint r4 - 1"
    by (rule newton_dvd [OF d3]) (use newton64_dvd [of n r3] in \<open>simp_all add: r4_def\<close>)
  have "n mod 2 \<noteq> 0" using assms by (simp add: odd_iff_mod_2_eq_one)
  then have "ularith_invmod n = Some r4"
    by (simp add: ularith_invmod_def Let_def r4_def r3_def r2_def r1_def r0_def)
  then show thesis using d4 by (rule that)
qed

lemma ularith_shrd_c_eq: "i < 64 \<Longrightarrow> ularith_shrd_c r a i = ularith_shrd r a i"
  by (auto simp: ularith_shrd_def ularith_shrd_c_def)

lemma ularith_shld_c_eq: "i < 64 \<Longrightarrow> ularith_shld_c r a i = ularith_shld r a i"
  by (auto simp: ularith_shld_def ularith_shld_c_def)

lemma ularith_shld_val:
  "i < 64 \<Longrightarrow> ularith_shld r a i = word_of_int (val2 a r * 2 ^ i div B64)"
proof -
  assume i: "i < 64"
  have "val2 a r * 2 ^ i div B64 = drop_bit 64 (push_bit i (val2 a r))"
    by (simp add: drop_bit_eq_div push_bit_eq_mult)
  moreover have "ularith_shld r a i = word_of_int (drop_bit 64 (push_bit i (val2 a r)))"
    by (rule bit_word_eqI)
      (use i in \<open>auto simp: ularith_shld_def bit_simps bit_val2 not_less add.commute
         simp del: push_bit_numeral dest: bit_imp_le_length\<close>)
  ultimately show ?thesis by (simp only:)
qed

lemma ctz_val:
  assumes "ularith_ctz a = Some i"
  shows "i < LONG_BIT" "odd (drop_bit i a)" "uint a = uint (drop_bit i a) * 2 ^ i"
proof -
  have "a \<noteq> 0" using assms by (auto simp: ularith_ctz_def builtin_ctzl_def)
  then obtain j where j: "builtin_ctzl a = Some j" "j < LONG_BIT" "bit a j"
    "\<And>k. k < j \<Longrightarrow> \<not> bit a k" by (rule builtin_ctzl_Some) auto
  then have [simp]: "j = i" using assms by (simp add: ularith_ctz_def)
  show "i < LONG_BIT" using j by simp
  show "odd (drop_bit i a)" using j(3) by (simp add: bit_iff_odd_drop_bit)
  have "take_bit i (uint a) = 0"
    by (rule bit_eqI) (use j(4) in \<open>auto simp: bit_simps\<close>)
  then have "uint a mod 2 ^ i = 0" by (simp add: take_bit_eq_mod)
  then show "uint a = uint (drop_bit i a) * 2 ^ i"
    using div_mult_mod_eq [of "uint a" "2 ^ i"] by (simp add: uint_drop_bit)
qed

lemma clz_val:
  assumes "bit a (63 - i)" "\<And>j. j < i \<Longrightarrow> \<not> bit a (63 - j)" "i < 64"
  shows "2 ^ (63 - i) \<le> uint (a :: ul)" "uint a < 2 ^ (64 - i)"
proof -
  have "odd (uint a div 2 ^ (63 - i))"
    using assms(1) by (simp only: uint_drop_bit [symmetric] even_uint bit_iff_odd_drop_bit simp_thms)
  then have "uint a div 2 ^ (63 - i) \<noteq> 0" by (metis even_zero)
  then show "2 ^ (63 - i) \<le> uint a"
    using div_pos_pos_trivial [of "uint a" "2 ^ (63 - i)"] uint_ge_0 [of a] by linarith
  have "\<not> bit a n" if "64 - i \<le> n" for n
  proof
    assume "bit a n"
    then have "n < 64" using bit_imp_le_length [of a n] by simp
    then have "63 - n < i" "63 - (63 - n) = n" using that by auto
    then show False using assms(2) [of "63 - n"] \<open>bit a n\<close> by simp
  qed
  then have "drop_bit (64 - i) a = 0"
    by (intro bit_word_eqI) (auto simp: bit_simps)
  then have "uint a div 2 ^ (64 - i) = 0" using uint_drop_bit [of "64 - i" a] by simp
  then have "uint a = uint a mod 2 ^ (64 - i)"
    using div_mult_mod_eq [of "uint a" "2 ^ (64 - i)"] by simp
  then show "uint a < 2 ^ (64 - i)"
    using pos_mod_bound [of "2 ^ (64 - i)" "uint a"] by simp
qed

section \<open>Properties\<close>

text \<open>the product of two words is exact. The double word that
  \<open>ularith_mul_ul_ul_2ul\<close> returns is \<open>a * b\<close> with nothing lost, and the C fallback, which
  assembles it from four half-word products, returns the same two words.\<close>

theorem ularith_mul_exact:
  "(case ularith_mul_ul_ul_2ul a b of (lo, hi) \<Rightarrow> val2 lo hi = uint a * uint b)
   \<and> ularith_mul_ul_ul_2ul_c a b = ularith_mul_ul_ul_2ul a b
   \<and> ularith_sqr_ul_2ul_c a = ularith_mul_ul_ul_2ul a a"
  using x86_mul_val [of a b]
  by (auto simp: ularith_mul_ul_ul_2ul_def ularith_mul_c_eq ularith_sqr_c_eq ularith_sqr_ul_2ul_def
      split: prod.splits)

text \<open>C31: double-word addition and subtraction report their carry exactly: the two result words
  and the carry (borrow) out of the high word represent the true sum (difference), and the
  variants without a carry return the same words.\<close>

theorem ularith_carry_exact:
  "(case ularith_add_2ul_2ul_cy r1 r2 a1 a2 of (s1, s2, cy) \<Rightarrow>
      val2 s1 s2 + (if cy then 2 ^ 128 else 0) = val2 r1 r2 + val2 a1 a2
      \<and> ularith_add_2ul_2ul r1 r2 a1 a2 = (s1, s2))
   \<and> (case ularith_sub_2ul_2ul_cy r1 r2 a1 a2 of (s1, s2, cy) \<Rightarrow>
      val2 s1 s2 - (if cy then 2 ^ 128 else 0) = val2 r1 r2 - val2 a1 a2
      \<and> ularith_sub_2ul_2ul r1 r2 a1 a2 = (s1, s2))"
proof -
  obtain s1 s2 cy t1 t2 cy' where e: "ularith_add_2ul_2ul_cy r1 r2 a1 a2 = (s1, s2, cy)"
    "ularith_sub_2ul_2ul_cy r1 r2 a1 a2 = (t1, t2, cy')"
    by (metis prod_cases3)
  have "ularith_add_2ul_2ul r1 r2 a1 a2 = (s1, s2)" "ularith_sub_2ul_2ul r1 r2 a1 a2 = (t1, t2)"
    using e by (auto simp: ularith_add_2ul_2ul_def ularith_add_2ul_2ul_cy_def
        ularith_sub_2ul_2ul_def ularith_sub_2ul_2ul_cy_def split: prod.splits)
  then show ?thesis using add_2ul_2ul_cy_val [OF e(1)] sub_2ul_2ul_cy_val [OF e(2)] e
    by (simp split: if_splits)
qed

text \<open>C32: where the C fallbacks of the carry-reporting helpers go wrong. They agree with the
  assembly except when the low words carry (borrow) and the high operand is \<open>ULONG_MAX\<close>: there the
  carry out is lost, and \<open>ularith_sub_2ul_2ul_ge_c\<close> stores a difference although the result is
  negative.\<close>

theorem ularith_fallback_carry_lost:
  "(ularith_add_2ul_2ul_cy_c r1 r2 a1 a2 = ularith_add_2ul_2ul_cy r1 r2 a1 a2
      \<longleftrightarrow> \<not> (B64 \<le> uint r1 + uint a1 \<and> a2 = - 1))
   \<and> (ularith_sub_2ul_2ul_cy_c r1 r2 a1 a2 = ularith_sub_2ul_2ul_cy r1 r2 a1 a2
      \<longleftrightarrow> \<not> (uint r1 < uint a1 \<and> a2 = - 1))
   \<and> (ularith_sub_2ul_2ul_ge_c r1 r2 a1 a2 = ularith_sub_2ul_2ul_ge r1 r2 a1 a2
      \<longleftrightarrow> \<not> (uint r1 < uint a1 \<and> a2 = - 1))"
proof (intro conjI)
  show "ularith_add_2ul_2ul_cy_c r1 r2 a1 a2 = ularith_add_2ul_2ul_cy r1 r2 a1 a2
      \<longleftrightarrow> \<not> (B64 \<le> uint r1 + uint a1 \<and> a2 = - 1)"
    using uint_gt_m1 [of r2]
    by (auto simp: add_cy_c_eq ularith_add_2ul_2ul_cy_def x86_defs)
  show "ularith_sub_2ul_2ul_cy_c r1 r2 a1 a2 = ularith_sub_2ul_2ul_cy r1 r2 a1 a2
      \<longleftrightarrow> \<not> (uint r1 < uint a1 \<and> a2 = - 1)"
    using uint_ltB64 [of r2]
    by (auto simp: sub_cy_c_eq ularith_sub_2ul_2ul_cy_def x86_defs)
  show "ularith_sub_2ul_2ul_ge_c r1 r2 a1 a2 = ularith_sub_2ul_2ul_ge r1 r2 a1 a2
      \<longleftrightarrow> \<not> (uint r1 < uint a1 \<and> a2 = - 1)"
    using uint_ltB64 [of r2]
    by (auto simp: sub_ge_c_eq ularith_sub_2ul_2ul_ge_def x86_defs)
qed

text \<open>\<open>ularith_invmod\<close> returns the inverse modulo \<open>2 ^ 64\<close> of every odd word and fails its
  assertion on every even one; the three 32-bit Newton steps and the 64-bit one are enough.\<close>

theorem ularith_invmod_correct:
  "(odd n \<longrightarrow> (\<exists>r. ularith_invmod n = Some r \<and> n * r = 1)) \<and> (even n \<longrightarrow> ularith_invmod n = None)"
proof (intro conjI impI)
  assume "odd n"
  then obtain r where r: "ularith_invmod n = Some r" "2 ^ 64 dvd uint n * uint r - 1"
    by (rule ularith_invmod_dvd)
  have "(uint n * uint r) mod 2 ^ 64 = 1 mod 2 ^ 64" using r(2) by (simp only: mod_eq_dvd_iff)
  then have "uint (n * r) = uint (1 :: ul)" by (simp add: uint_mul_ul)
  then have "n * r = 1" by (simp only: word_uint_eq_iff)
  with r(1) show "\<exists>r. ularith_invmod n = Some r \<and> n * r = 1" by blast
next
  assume "even n"
  then show "ularith_invmod n = None" by (simp add: ularith_invmod_def even_iff_mod_2_eq_zero)
qed

theorem ularith_invmod_correct_witness:
  "odd (15 :: ul) \<and> (\<exists>r. ularith_invmod 15 = Some r \<and> 15 * r = 1)"
  using ularith_invmod_correct [of 15] by simp

text \<open>on every nonzero word the bit-counting loops end and agree with the builtins: the
  trailing-zero count \<open>i\<close> makes \<open>a = odd * 2 ^ i\<close>, the leading-zero count puts the highest set
  bit at \<open>63 - i\<close>; the funnel shifts select the right window of the double word.\<close>

theorem ularith_bit_counts_correct:
  assumes "a \<noteq> 0"
  shows "(\<exists>i. ularith_ctz a = Some i \<and> ularith_ctz_c a = Some i
            \<and> uint a = uint (drop_bit i a) * 2 ^ i \<and> odd (drop_bit i a))
       \<and> (\<exists>i. ularith_clz a = Some i \<and> ularith_clz_c a = Some i \<and> i < 64
            \<and> 2 ^ (63 - i) \<le> uint a \<and> uint a < 2 ^ (64 - i))"
proof
  obtain i where i: "builtin_ctzl a = Some i" "i < LONG_BIT" "bit a i"
    "\<And>j. j < i \<Longrightarrow> \<not> bit a j" using assms by (rule builtin_ctzl_Some) auto
  then have "ularith_ctz_c a = Some i" using ctz_loop_step [of a i 0] by (simp add: ularith_ctz_c_def)
  then show "\<exists>i. ularith_ctz a = Some i \<and> ularith_ctz_c a = Some i
      \<and> uint a = uint (drop_bit i a) * 2 ^ i \<and> odd (drop_bit i a)"
    using i(1) ctz_val [of a i] by (auto simp: ularith_ctz_def)
next
  obtain i where i: "builtin_clzl a = Some i" "i < LONG_BIT" "bit a (63 - i)"
    "\<And>j. j < i \<Longrightarrow> \<not> bit a (63 - j)" using assms by (rule builtin_clzl_Some) auto
  show "\<exists>i. ularith_clz a = Some i \<and> ularith_clz_c a = Some i \<and> i < 64
      \<and> 2 ^ (63 - i) \<le> uint a \<and> uint a < 2 ^ (64 - i)"
  proof (intro exI conjI)
    show "ularith_clz_c a = Some i"
      using clz_loop_step [of a i 0] i by (simp add: ularith_clz_c_def LONG_BIT_def)
  qed (use i clz_val [of a i] in \<open>simp_all add: ularith_clz_def LONG_BIT_def\<close>)
qed

theorem ularith_bit_counts_correct_witness:
  "(12 :: ul) \<noteq> 0 \<and> (\<exists>i. ularith_ctz 12 = Some i \<and> ularith_ctz_c 12 = Some i
      \<and> uint (12 :: ul) = uint (drop_bit i (12 :: ul)) * 2 ^ i \<and> odd (drop_bit i (12 :: ul)))"
  using ularith_bit_counts_correct [of 12] by simp

text \<open>The funnel shifts. For a count below the word size, \<open>ularith_shrd\<close> is the low word of
  the double word \<open>a:r\<close> shifted right, \<open>ularith_shld\<close> the high word of \<open>r:a\<close> shifted left, and
  the C expressions agree with the instructions, the count 0 included.\<close>

theorem ularith_funnel_shifts_correct:
  assumes "i < LONG_BIT"
  shows "ularith_shrd r a i = word_of_int (val2 r a div 2 ^ i)
       \<and> ularith_shld r a i = word_of_int (val2 a r * 2 ^ i div B64)
       \<and> ularith_shrd_c r a i = ularith_shrd r a i \<and> ularith_shld_c r a i = ularith_shld r a i"
  using assms ularith_shrd_val [of i r a] ularith_shld_val [of i r a]
    ularith_shrd_c_eq [of i r a] ularith_shld_c_eq [of i r a]
  by (simp add: LONG_BIT_def)

theorem ularith_funnel_shifts_correct_witness:
  "4 < LONG_BIT \<and> ularith_shrd 18 3 4 = word_of_int (val2 18 3 div 2 ^ 4)"
  using ularith_funnel_shifts_correct [of 4 18 3] by (simp add: LONG_BIT_def)

end
