(* ===== verification/Mod_ul.thy ===== *)
theory Mod_ul
  imports Ularith
begin

text \<open>
  Model of \<open>src/utils/mod_ul.h\<close>: residues and moduli held in one \<open>unsigned long\<close>, in plain
  representation, together with the REDC helpers that take the modulus and its negated inverse.
  As in \<^theory_text>\<open>Ularith\<close>, the plain name is the x86_64 path and \<open>_c\<close> the C fallback.  A C
  division or remainder by zero is \<^const>\<open>None\<close>, and so is a failed \<open>ASSERT\<close>.
\<close>

section \<open>Integers of the width of the modulus\<close>

definition ul_div :: "ul \<Rightarrow> ul \<Rightarrow> ul option" where
  "ul_div n d = (if d = 0 then None else Some (n div d))"

definition ul_mod :: "ul \<Rightarrow> ul \<Rightarrow> ul option" where
  "ul_mod n d = (if d = 0 then None else Some (n mod d))"

definition modul_intset :: "ul \<Rightarrow> ul" where
  "modul_intset s = s"

definition modul_intset_ul :: "ul \<Rightarrow> ul" where
  "modul_intset_ul s = s"

definition modul_intequal :: "ul \<Rightarrow> ul \<Rightarrow> bool" where
  "modul_intequal a b = (a = b)"

definition modul_intequal_ul :: "ul \<Rightarrow> ul \<Rightarrow> bool" where
  "modul_intequal_ul a b = (a = b)"

definition modul_intcmp :: "ul \<Rightarrow> ul \<Rightarrow> int" where
  "modul_intcmp a b = (if a < b then - 1 else if a = b then 0 else 1)"

definition modul_intcmp_ul :: "ul \<Rightarrow> ul \<Rightarrow> int" where
  "modul_intcmp_ul a b = (if a < b then - 1 else if a = b then 0 else 1)"

definition modul_intfits_ul :: "ul \<Rightarrow> bool" where
  "modul_intfits_ul a = True"

definition modul_intadd :: "ul \<Rightarrow> ul \<Rightarrow> ul" where
  "modul_intadd a b = a + b"

definition modul_intsub :: "ul \<Rightarrow> ul \<Rightarrow> ul" where
  "modul_intsub a b = a - b"

text \<open>The bit count loops while the word is nonzero.\<close>

function modul_intbits_loop :: "ul \<Rightarrow> nat \<Rightarrow> nat" where
  "modul_intbits_loop n bits =
     (if n > 0 then modul_intbits_loop (drop_bit 1 n) (Suc bits) else bits)"
  by pat_completeness auto
termination
proof (relation "measure (\<lambda>(n, bits). unat n)")
  fix n :: ul and bits :: nat
  assume "n > 0"
  then have "unat n > 0" by (simp add: unat_gt_0 word_gt_0)
  then have "unat n div 2 < unat n" by simp
  then show "((drop_bit 1 n, Suc bits), n, bits) \<in> measure (\<lambda>(n, bits). unat n)"
    by (simp add: drop_bit_Suc unat_div_distrib)
qed simp

declare modul_intbits_loop.simps [simp del]

definition modul_intbits :: "ul \<Rightarrow> nat" where
  "modul_intbits a = modul_intbits_loop a 0"

definition modul_intdivexact :: "ul \<Rightarrow> ul \<Rightarrow> ul option" where
  "modul_intdivexact n d = ul_div n d"

definition modul_intmod :: "ul \<Rightarrow> ul \<Rightarrow> ul option" where
  "modul_intmod n d = ul_mod n d"

section \<open>The modulus\<close>

definition modul_initmod_ul :: "ul \<Rightarrow> ul" where
  "modul_initmod_ul s = s"

definition modul_initmod_uls :: "ul \<Rightarrow> ul" where
  "modul_initmod_uls s = s"

definition modul_getmod_ul :: "ul \<Rightarrow> ul" where
  "modul_getmod_ul m = m"

definition modul_getmod_uls :: "ul \<Rightarrow> ul" where
  "modul_getmod_uls m = m"

section \<open>Setting, reading and comparing residues\<close>

definition modul_init :: "ul \<Rightarrow> ul" where
  "modul_init m = 0"

definition modul_set :: "ul \<Rightarrow> ul \<Rightarrow> ul" where
  "modul_set s m = s"

definition modul_set_ul :: "ul \<Rightarrow> ul \<Rightarrow> ul option" where
  "modul_set_ul s m = ul_mod s m"

definition modul_set_ul_reduced :: "ul \<Rightarrow> ul \<Rightarrow> ul option" where
  "modul_set_ul_reduced s m = (if s < m then Some s else None)"

definition modul_set_uls :: "ul \<Rightarrow> ul \<Rightarrow> ul option" where
  "modul_set_uls s m = ul_mod s m"

definition modul_set_uls_reduced :: "ul \<Rightarrow> ul \<Rightarrow> ul option" where
  "modul_set_uls_reduced s m = (if s < m then Some s else None)"

definition modul_set0 :: "ul \<Rightarrow> ul" where
  "modul_set0 m = 0"

definition modul_set1 :: "ul \<Rightarrow> ul" where
  "modul_set1 m = (if m = 1 then 0 else 1)"

definition modul_swap :: "ul \<Rightarrow> ul \<Rightarrow> ul \<Rightarrow> ul \<times> ul" where
  "modul_swap a b m = (let t = a; a = b; b = t in (a, b))"

definition modul_get_ul :: "ul \<Rightarrow> ul \<Rightarrow> ul" where
  "modul_get_ul s m = s"

definition modul_get_uls :: "ul \<Rightarrow> ul \<Rightarrow> ul" where
  "modul_get_uls s m = s"

definition modul_equal :: "ul \<Rightarrow> ul \<Rightarrow> ul \<Rightarrow> bool" where
  "modul_equal a b m = (a = b)"

definition modul_is0 :: "ul \<Rightarrow> ul \<Rightarrow> bool" where
  "modul_is0 a m = (a = 0)"

definition modul_is1 :: "ul \<Rightarrow> ul \<Rightarrow> bool" where
  "modul_is1 a m = (a = 1)"

section \<open>Ring operations\<close>

definition modul_add :: "ul \<Rightarrow> ul \<Rightarrow> ul \<Rightarrow> ul" where
  "modul_add a b m =
     (let t = a - m; tr = a + b; (t, cf) = x86_add t b in if cf then t else tr)"

definition modul_add_c :: "ul \<Rightarrow> ul \<Rightarrow> ul \<Rightarrow> ul" where
  "modul_add_c a b m = (if a \<ge> m - b then a - (m - b) else a + b)"

definition modul_add_ul :: "ul \<Rightarrow> ul \<Rightarrow> ul \<Rightarrow> ul option" where
  "modul_add_ul a b m =
     do { b2 \<leftarrow> ul_mod b m; Some (if a \<ge> m - b2 then a - (m - b2) else a + b2) }"

definition modul_sub :: "ul \<Rightarrow> ul \<Rightarrow> ul \<Rightarrow> ul" where
  "modul_sub a b m =
     (let (t, cf) = x86_sub a b; tr = t + m in if \<not> cf then t else tr)"

definition modul_sub_c :: "ul \<Rightarrow> ul \<Rightarrow> ul \<Rightarrow> ul" where
  "modul_sub_c a b m = (let tr = a - b; t = (if tr > a then m else 0) in tr + t)"

definition modul_sub_ul :: "ul \<Rightarrow> ul \<Rightarrow> ul \<Rightarrow> ul option" where
  "modul_sub_ul a b m =
     do { b2 \<leftarrow> ul_mod b m; Some (if a \<ge> b2 then a - b2 else a + (m - b2)) }"

definition modul_neg :: "ul \<Rightarrow> ul \<Rightarrow> ul" where
  "modul_neg a m = (if a = 0 then a else m - a)"

definition modul_mul :: "ul \<Rightarrow> ul \<Rightarrow> ul \<Rightarrow> ul option" where
  "modul_mul a b m =
     (let (t1, t2) = ularith_mul_ul_ul_2ul a b in ularith_div_2ul_ul_ul_r t1 t2 m)"

definition modul_sqr :: "ul \<Rightarrow> ul \<Rightarrow> ul option" where
  "modul_sqr a m =
     (let (t1, t2) = ularith_mul_ul_ul_2ul a a in ularith_div_2ul_ul_ul_r t1 t2 m)"

definition modul_div2 :: "ul \<Rightarrow> ul \<Rightarrow> ul" where
  "modul_div2 a m =
     (let s = a; t = m;
          (t, cf) = x86_add t s;
          (t, _) = x86_rcr1 t cf;
          (s, cf) = x86_shr1 s
      in if \<not> cf then s else t)"

definition modul_div2_c :: "ul \<Rightarrow> ul \<Rightarrow> ul" where
  "modul_div2_c a m =
     (if a mod 2 = 0 then a div 2 else a div 2 + m div 2 + 1)"

definition modul_next :: "ul \<Rightarrow> ul \<Rightarrow> ul \<times> bool" where
  "modul_next r m = (let r = r + 1 in (r, r = m))"

definition modul_finished :: "ul \<Rightarrow> ul \<Rightarrow> bool" where
  "modul_finished r m = (r = m)"

section \<open>REDC with an explicit negated inverse\<close>

definition modul_tomontgomery :: "ul \<Rightarrow> ul \<Rightarrow> ul option" where
  "modul_tomontgomery a m = ularith_div_2ul_ul_ul_r 0 a m"

definition modul_frommontgomery :: "ul \<Rightarrow> ul \<Rightarrow> ul \<Rightarrow> ul" where
  "modul_frommontgomery a invm m =
     (let (tlow, thigh) = ularith_mul_ul_ul_2ul a invm;
          (tlow, thigh) = ularith_mul_ul_ul_2ul tlow m
      in thigh + (if a \<noteq> 0 then 1 else 0))"

definition modul_redcsemi_ul_not0 :: "ul \<Rightarrow> ul \<Rightarrow> ul \<Rightarrow> ul option" where
  "modul_redcsemi_ul_not0 a invm m =
     (if a \<noteq> 0 then
        let tlow = a * invm;
            (tlow, thigh) = ularith_mul_ul_ul_2ul tlow m
        in Some (thigh + 1)
      else None)"

definition modul_addredc_ul :: "ul \<Rightarrow> ul \<Rightarrow> ul \<Rightarrow> ul \<Rightarrow> ul" where
  "modul_addredc_ul a b invm m =
     (let slow = b; shigh = 0;
          (slow, shigh) = ularith_add_ul_2ul slow shigh a;
          tlow = slow * invm;
          (tlow, thigh) = ularith_mul_ul_ul_2ul tlow m;
          r = thigh + shigh + (if slow \<noteq> 0 then 1 else 0)
      in if r = m then 0 else r)"

definition modul_addredcsemi_ul :: "ul \<Rightarrow> ul \<Rightarrow> ul \<Rightarrow> ul \<Rightarrow> ul" where
  "modul_addredcsemi_ul a b invm m =
     (let (slow, cf) = x86_add b a;
          shigh = of_bool (slow \<noteq> 0) + of_bool cf;
          tlow = slow * invm;
          (tlow, r) = ularith_mul_ul_ul_2ul tlow m
      in r + shigh)"

definition modul_addredcsemi_ul_c :: "ul \<Rightarrow> ul \<Rightarrow> ul \<Rightarrow> ul \<Rightarrow> ul" where
  "modul_addredcsemi_ul_c a b invm m =
     (let slow = b; shigh = 0;
          (slow, shigh) = ularith_add_ul_2ul slow shigh a;
          shigh = shigh + (if slow \<noteq> 0 then 1 else 0);
          tlow = slow * invm;
          (tlow, r) = ularith_mul_ul_ul_2ul tlow m
      in r + shigh)"

definition modul_mulredc :: "ul \<Rightarrow> ul \<Rightarrow> ul \<Rightarrow> ul \<Rightarrow> ul" where
  "modul_mulredc a b invm m =
     (let (plow, phigh) = ularith_mul_ul_ul_2ul a b;
          tlow = plow * invm;
          (tlow, thigh) = ularith_mul_ul_ul_2ul tlow m;
          phigh = phigh + (if plow \<noteq> 0 then 1 else 0)
      in modul_add phigh thigh m)"

definition modul_mulredc_ul :: "ul \<Rightarrow> ul \<Rightarrow> ul \<Rightarrow> ul \<Rightarrow> ul" where
  "modul_mulredc_ul a b invm m =
     (let (plow, phigh) = ularith_mul_ul_ul_2ul a b;
          tlow = plow * invm;
          (tlow, thigh) = ularith_mul_ul_ul_2ul tlow m;
          phigh = phigh + (if plow \<noteq> 0 then 1 else 0)
      in if phigh \<ge> m - thigh then phigh - (m - thigh) else phigh + thigh)"

definition modul_muladdredc_ul :: "ul \<Rightarrow> ul \<Rightarrow> ul \<Rightarrow> ul \<Rightarrow> ul \<Rightarrow> ul" where
  "modul_muladdredc_ul a b c invm m =
     (let (plow, phigh) = ularith_mul_ul_ul_2ul a b;
          (plow, phigh) = ularith_add_ul_2ul plow phigh c;
          tlow = plow * invm;
          (tlow, thigh) = ularith_mul_ul_ul_2ul tlow m;
          phigh = phigh + (if plow \<noteq> 0 then 1 else 0)
      in if phigh \<ge> m - thigh then phigh - (m - thigh) else phigh + thigh)"

text \<open>\<open>modul_invmodlong\<close> of \<open>mod_ul.c\<close>: a seed right to four bits and four 64-bit Newton steps.\<close>

definition modul_invmodlong :: "ul \<Rightarrow> ul option" where
  "modul_invmodlong n =
     (if n mod 2 \<noteq> 0 then
        let r = n XOR (push_bit 1 (n AND 4)) XOR (push_bit 2 (n AND 2));
            r = newton64 n r;
            r = newton64 n r;
            r = newton64 n r;
            r = newton64 n r
        in Some r
      else None)"

section \<open>The Montgomery reduction step\<close>

lemma redc_core:
  assumes inv: "m * invm = (- 1 :: ul)" and mul: "x86_mul (plow * invm) m = (tlow, thigh)"
  shows "val2 plow phigh + uint (plow * invm) * uint m
           = B64 * (uint phigh + uint thigh + of_bool (plow \<noteq> 0))"
    and "uint thigh < uint m"
proof -
  have "tlow = plow * (invm * m)" using mul by (simp add: x86_mul_def mult.assoc)
  also have "invm * m = - 1" using inv by (simp add: mult.commute)
  finally have t: "tlow = - plow" by simp
  have low: "uint plow + uint tlow = B64 * of_bool (plow \<noteq> 0)"
  proof (cases "plow = 0")
    case False
    then have "uint plow \<noteq> 0" by (simp add: word_uint_eq_iff)
    then have "uint (0 - plow) = B64 - uint plow"
      using uint_gt_m1 [of plow] by (simp add: uint_sub_ul del: diff_0)
    then show ?thesis using t False by simp
  qed (simp add: t)
  show "val2 plow phigh + uint (plow * invm) * uint m
           = B64 * (uint phigh + uint thigh + of_bool (plow \<noteq> 0))"
    using x86_mul_val [OF mul] low by (simp add: val2_def algebra_simps)
  have "m \<noteq> 0" using inv by auto
  then have "0 < uint m" using uint_gt_m1 [of m] by (simp add: word_uint_eq_iff)
  then have "uint (plow * invm) * uint m < B64 * uint m"
    using uint_ltB64 [of "plow * invm"] by (intro mult_strict_right_mono)
  then have "B64 * uint thigh < B64 * uint m"
    using x86_mul_val [OF mul] uint_gt_m1 [of tlow] by (simp add: val2_def)
  then show "uint thigh < uint m" by simp
qed

lemma redc_quotient_cong:
  fixes m p t q :: int
  assumes "p + t * m = B64 * q"
  shows "(q * B64) mod m = p mod m"
  using assms by (metis mod_mult_self1 mult.commute)

lemma redc_quotient_bound:
  fixes m p t q c :: int
  assumes "p + t * m = B64 * q" "p < B64 * c" "t < B64" "0 < m"
  shows "q < c + m"
proof -
  have "t * m < B64 * m" using assms(3,4) by (rule mult_strict_right_mono)
  then have "B64 * q < B64 * (c + m)" using assms(1,2) by (simp add: algebra_simps)
  then show ?thesis by simp
qed

section \<open>Facts about the operations\<close>

lemma modul_add_val:
  assumes "uint a < uint m" "uint b \<le> uint m"
  shows "uint (modul_add a b m) = (if uint a + uint b < uint m then uint a + uint b else uint a + uint b - uint m)"
    "modul_add_c a b m = modul_add a b m"
  using assms uint_ltB64 [of a] uint_ltB64 [of m] uint_ltB64 [of b] uint_gt_m1 [of a] uint_gt_m1 [of b]
  by (auto simp: modul_add_def modul_add_c_def x86_add_def uint_add_ul uint_sub_ul word_le_def word_uint_eq_iff Let_def)

lemma modul_sub_val:
  assumes "uint a < uint m" "uint b < uint m"
  shows "uint (modul_sub a b m) = (if uint b \<le> uint a then uint a - uint b else uint a - uint b + uint m)"
    "modul_sub_c a b m = modul_sub a b m"
  using assms uint_ltB64 [of a] uint_ltB64 [of m] uint_ltB64 [of b] uint_gt_m1 [of a] uint_gt_m1 [of b]
  by (auto simp: modul_sub_def modul_sub_c_def x86_sub_def uint_add_ul uint_sub_ul word_less_def word_uint_eq_iff Let_def)

lemma modul_mul_val:
  assumes "uint a < uint m" "uint b < uint m"
  obtains r where "modul_mul a b m = Some r" "uint r = (uint a * uint b) mod uint m"
proof -
  obtain t1 t2 where t: "ularith_mul_ul_ul_2ul a b = (t1, t2)" by fastforce
  then have v: "val2 t1 t2 = uint a * uint b" by (intro x86_mul_val) (simp add: ularith_mul_ul_ul_2ul_def)
  have "uint a * uint b < uint m * B64"
    using assms uint_ltB64 [of b] uint_gt_m1 [of a] uint_gt_m1 [of b] by (intro mult_strict_mono) auto
  then have "B64 * uint t2 < B64 * uint m"
    using v uint_gt_m1 [of t1] by (simp add: val2_def mult.commute)
  then have "t2 < m" by (simp add: word_less_def)
  then obtain r where "ularith_div_2ul_ul_ul_r t1 t2 m = Some r" "uint r = val2 t1 t2 mod uint m"
    by (rule ularith_div_2ul_ul_ul_r_val)
  then show thesis using v t by (intro that [of r]) (simp_all add: modul_mul_def)
qed

lemma x86_rcr1_val: "uint (fst (x86_rcr1 d cf)) = (uint d + (if cf then B64 else 0)) div 2"
proof (cases cf)
  case True
  have "drop_bit 1 d OR push_bit 63 1 = ularith_shrd d 1 1"
    by (simp add: ularith_shrd_def)
  also have "\<dots> = word_of_int (val2 d 1 div 2)" using ularith_shrd_val [of 1 d 1] by simp
  finally have "fst (x86_rcr1 d cf) = word_of_int ((uint d + B64) div 2)"
    using True by (simp add: x86_rcr1_def val2_def)
  moreover have "0 \<le> (uint d + B64) div 2" "(uint d + B64) div 2 < B64"
    using uint_ltB64 [of d] uint_gt_m1 [of d] by linarith+
  ultimately show ?thesis using True by (simp add: uint_of_int_ul)
next
  case False
  then show ?thesis using uint_drop_bit [of 1 d] by (simp add: x86_rcr1_def)
qed

lemma modul_div2_val:
  assumes "odd m" "uint a < uint m"
  shows "uint (modul_div2 a m) = (if even a then uint a else uint a + uint m) div 2"
    "modul_div2_c a m = modul_div2 a m"
proof -
  have eq: "modul_div2 a m = (if even a then drop_bit 1 a else fst (x86_rcr1 (m + a) (B64 \<le> uint m + uint a)))"
    by (simp add: modul_div2_def x86_add_def x86_shr1_def Let_def bit_0 case_prod_beta)
  have "uint (m + a) + (if B64 \<le> uint m + uint a then B64 else 0) = uint a + uint m"
    by (simp add: uint_add_ul)
  then show v: "uint (modul_div2 a m) = (if even a then uint a else uint a + uint m) div 2"
    using x86_rcr1_val [of "m + a" "B64 \<le> uint m + uint a"] uint_drop_bit [of 1 a]
    unfolding eq by simp
  have "uint (modul_div2_c a m) = (if even a then uint a else uint a + uint m) div 2"
  proof (cases "even a")
    case True
    then show ?thesis by (simp add: modul_div2_c_def even_iff_mod_2_eq_zero uint_div_ul)
  next
    case False
    then obtain k where k: "uint a = 2 * k + 1" using even_uint [of a] by (metis oddE)
    obtain l where l: "uint m = 2 * l + 1" using even_uint [of m] assms(1) by (metis oddE)
    have "uint (a div 2) = k" "uint (m div 2) = l" by (simp_all add: uint_div_ul k l)
    moreover have "k + l + 1 < B64" using k l assms(2) uint_ltB64 [of m] by linarith
    ultimately have "uint (a div 2 + m div 2 + 1) = k + l + 1" by (simp add: uint_add_ul)
    then show ?thesis using False by (simp add: modul_div2_c_def even_iff_mod_2_eq_zero k l)
  qed
  with v show "modul_div2_c a m = modul_div2 a m" by (simp only: word_uint_eq_iff)
qed

lemma ularith_mul_x86: "ularith_mul_ul_ul_2ul a b = (lo, hi) \<Longrightarrow> x86_mul a b = (lo, hi)"
  by (simp add: ularith_mul_ul_ul_2ul_def)

lemma modul_frommontgomery_val:
  assumes inv: "m * invm = - 1" and a: "uint a < uint m"
  shows "uint (modul_frommontgomery a invm m) < uint m"
    "(uint (modul_frommontgomery a invm m) * B64) mod uint m = uint a mod uint m"
proof -
  obtain lo hi where t: "x86_mul (a * invm) m = (lo, hi)" by fastforce
  define q where "q = uint hi + of_bool (a \<noteq> 0)"
  have q: "uint a + uint (a * invm) * uint m = B64 * q"
    using redc_core(1) [OF inv t, of 0] by (simp add: val2_def q_def)
  have "B64 * q < B64 * uint m"
  proof -
    have "uint (a * invm) * uint m \<le> 18446744073709551615 * uint m"
      using uint_ltB64 [of "a * invm"] uint_gt_m1 [of m] by (intro mult_right_mono) auto
    then show ?thesis using q a by linarith
  qed
  then have lt: "q < uint m" by simp
  have "modul_frommontgomery a invm m = hi + of_bool (a \<noteq> 0)"
    using t by (auto simp: modul_frommontgomery_def ularith_mul_ul_ul_2ul_def x86_mul_def Let_def)
  then have "uint (modul_frommontgomery a invm m) = q"
    using lt uint_ltB64 [of m] by (auto simp: q_def uint_add_ul)
  then show "uint (modul_frommontgomery a invm m) < uint m"
    "(uint (modul_frommontgomery a invm m) * B64) mod uint m = uint a mod uint m"
    using lt redc_quotient_cong [OF q] by (simp_all add: mult.commute)
qed

lemma modul_redcsemi_val:
  assumes inv: "m * invm = - 1" and a: "a \<noteq> 0"
  obtains r where "modul_redcsemi_ul_not0 a invm m = Some r" "uint r \<le> uint m"
    "(uint r * B64) mod uint m = uint a mod uint m"
proof -
  obtain lo hi where t: "x86_mul (a * invm) m = (lo, hi)" by fastforce
  have q: "uint a + uint (a * invm) * uint m = B64 * (uint hi + 1)"
    using redc_core(1) [OF inv t, of 0] a by (simp add: val2_def)
  have hi: "uint hi < uint m" by (rule redc_core(2) [OF inv t])
  then have "uint (hi + 1) = uint hi + 1" using uint_ltB64 [of m] by (simp add: uint_add_ul)
  moreover have "modul_redcsemi_ul_not0 a invm m = Some (hi + 1)"
    using t a by (simp add: modul_redcsemi_ul_not0_def ularith_mul_ul_ul_2ul_def)
  ultimately show thesis using hi redc_quotient_cong [OF q]
    by (intro that [of "hi + 1"]) (simp_all add: mult.commute)
qed

lemma modul_addredcsemi_val:
  assumes inv: "m * invm = - 1" and a: "uint a \<le> uint m"
  shows "uint (modul_addredcsemi_ul a b invm m) \<le> uint m"
    "(uint (modul_addredcsemi_ul a b invm m) * B64) mod uint m = (uint a + uint b) mod uint m"
    "modul_addredcsemi_ul_c a b invm m = modul_addredcsemi_ul a b invm m"
    "modul_addredc_ul a b invm m =
       (if modul_addredcsemi_ul a b invm m = m then 0 else modul_addredcsemi_ul a b invm m)"
proof -
  define cf where "cf \<longleftrightarrow> B64 \<le> uint b + uint a"
  define slow where "slow = b + a"
  obtain lo hi where t: "x86_mul (slow * invm) m = (lo, hi)" by fastforce
  define q where "q = of_bool cf + uint hi + of_bool (slow \<noteq> 0)"
  have s: "val2 slow (of_bool cf) = uint a + uint b"
    by (auto simp: slow_def cf_def val2_def uint_add_ul)
  have q: "(uint a + uint b) + uint (slow * invm) * uint m = B64 * q"
    using redc_core(1) [OF inv t, of "of_bool cf"] s by (cases cf) (simp_all add: q_def)
  have "q < uint m + 1"
  proof -
    have "uint (slow * invm) * uint m \<le> 18446744073709551615 * uint m"
      using uint_ltB64 [of "slow * invm"] uint_gt_m1 [of m] by (intro mult_right_mono) auto
    then have "B64 * q < B64 * (uint m + 1)" using q a uint_ltB64 [of b] by (simp add: algebra_simps)
    then show ?thesis by simp
  qed
  then have lt: "q \<le> uint m" by simp
  have r: "modul_addredcsemi_ul a b invm m = hi + (of_bool (slow \<noteq> 0) + of_bool cf)"
    using t by (simp add: modul_addredcsemi_ul_def ularith_mul_ul_ul_2ul_def x86_add_def slow_def [symmetric] cf_def [symmetric] Let_def)
  have "uint (hi + (of_bool (slow \<noteq> 0) + of_bool cf)) = q"
    using lt uint_ltB64 [of m] uint_ltB64 [of hi] by (cases cf; cases "slow = 0") (simp_all add: q_def uint_add_ul)
  then have qr: "uint (modul_addredcsemi_ul a b invm m) = q" using r by simp
  then show "uint (modul_addredcsemi_ul a b invm m) \<le> uint m"
    "(uint (modul_addredcsemi_ul a b invm m) * B64) mod uint m = (uint a + uint b) mod uint m"
    using lt redc_quotient_cong [OF q] by (simp_all add: mult.commute)
  have add: "ularith_add_ul_2ul b 0 a = (slow, of_bool cf)"
    by (simp add: ularith_add_ul_2ul_def x86_add_def x86_adc_def slow_def cf_def)
  show "modul_addredcsemi_ul_c a b invm m = modul_addredcsemi_ul a b invm m"
    unfolding r using t add
    by (auto simp: modul_addredcsemi_ul_c_def ularith_mul_ul_ul_2ul_def Let_def)
  show "modul_addredc_ul a b invm m =
       (if modul_addredcsemi_ul a b invm m = m then 0 else modul_addredcsemi_ul a b invm m)"
    unfolding r using t add
    by (auto simp: modul_addredc_ul_def ularith_mul_ul_ul_2ul_def Let_def algebra_simps)
qed

text \<open>The final correction of a REDC whose quotient is below twice the modulus.\<close>

lemma redc_correct_val:
  fixes p m t :: ul
  assumes "uint p \<le> uint m" "uint t < uint m"
  shows "uint (if p \<ge> m - t then p - (m - t) else p + t)
     = (if uint p + uint t < uint m then uint p + uint t else uint p + uint t - uint m)"
  using assms uint_ltB64 [of m] uint_gt_m1 [of p] uint_gt_m1 [of t]
  by (auto simp: uint_add_ul uint_sub_ul word_le_def)

lemma redc_final:
  fixes m p q t :: int
  assumes "p + t * m = B64 * q" "q < 2 * m" "0 \<le> q"
  shows "((if q < m then q else q - m) * B64) mod m = p mod m" "(if q < m then q else q - m) < m"
proof -
  have "((q - m) * B64) mod m = (q * B64) mod m"
    by (metis minus_mod_self2 mod_mult_left_eq)
  then show "((if q < m then q else q - m) * B64) mod m = p mod m"
    using redc_quotient_cong [OF assms(1)] by simp
  show "(if q < m then q else q - m) < m" using assms(2) by simp
qed

lemma prod_high_bound:
  assumes "x86_mul a b = (lo, hi)" "uint a < uint (m :: ul)"
  shows "uint hi + 1 \<le> uint m" "1 < uint m \<Longrightarrow> uint hi + 1 < uint m" "uint m = 1 \<Longrightarrow> lo = 0"
proof -
  have v: "val2 lo hi = uint a * uint b" by (rule x86_mul_val [OF assms(1)])
  have "uint a * uint b \<le> (uint m - 1) * 18446744073709551615"
    using assms(2) uint_ltB64 [of b] uint_gt_m1 [of a] uint_gt_m1 [of b] by (intro mult_mono) auto
  then have le: "B64 * uint hi \<le> (uint m - 1) * 18446744073709551615"
    using v uint_gt_m1 [of lo] by (simp add: val2_def)
  moreover have "0 \<le> uint m - 1" using uint_gt_m1 [of a] assms(2) by linarith
  ultimately show "uint hi + 1 \<le> uint m" by (simp add: algebra_simps)
  show "1 < uint m \<Longrightarrow> uint hi + 1 < uint m" using le by (simp add: algebra_simps)
  assume "uint m = 1"
  then have "uint a = 0" using assms(2) uint_gt_m1 [of a] by linarith
  then show "lo = 0" using assms(1) by (simp add: x86_mul_def uint_0_iff)
qed

lemma modul_mulredc_ul_val:
  assumes inv: "m * invm = - 1" and a: "uint a < uint m"
  shows "uint (modul_mulredc_ul a b invm m) < uint m"
    "(uint (modul_mulredc_ul a b invm m) * B64) mod uint m = (uint a * uint b) mod uint m"
    "modul_mulredc a b invm m = modul_mulredc_ul a b invm m"
proof -
  obtain plow phigh where p: "x86_mul a b = (plow, phigh)" by fastforce
  obtain lo hi where t: "x86_mul (plow * invm) m = (lo, hi)" by fastforce
  define ph where "ph = phigh + (if plow \<noteq> 0 then 1 else 0)"
  have b: "uint phigh + 1 \<le> uint m" "1 < uint m \<Longrightarrow> uint phigh + 1 < uint m" "uint m = 1 \<Longrightarrow> plow = 0"
    using prod_high_bound [OF p a] by auto
  have ph: "uint ph = uint phigh + of_bool (plow \<noteq> 0)"
    using b(1) uint_ltB64 [of m] by (auto simp: ph_def uint_add_ul)
  have phm: "uint ph < uint m" 
  proof (cases "uint m = 1")
    case True
    then show ?thesis using ph b by simp
  next
    case False
    then have "1 < uint m" using b(1) uint_gt_m1 [of phigh] by linarith
    then have "uint phigh + 1 < uint m" by (rule b(2))
    then show ?thesis using ph by simp
  qed
  have him: "uint hi < uint m" by (rule redc_core(2) [OF inv t])
  define q where "q = uint ph + uint hi"
  have q: "uint a * uint b + uint (plow * invm) * uint m = B64 * q"
    using redc_core(1) [OF inv t, of phigh] x86_mul_val [OF p] by (simp add: q_def ph)
  have r: "modul_mulredc_ul a b invm m = (if ph \<ge> m - hi then ph - (m - hi) else ph + hi)"
    "modul_mulredc a b invm m = modul_add ph hi m"
    using p t by (simp_all add: modul_mulredc_ul_def modul_mulredc_def ularith_mul_ul_ul_2ul_def ph_def)
  have v: "uint (modul_mulredc_ul a b invm m) = (if q < uint m then q else q - uint m)"
    unfolding r q_def using phm him by (intro redc_correct_val) auto
  have "q < 2 * uint m" "0 \<le> q" using phm him uint_gt_m1 [of ph] uint_gt_m1 [of hi] by (simp_all add: q_def)
  from redc_final [OF q this] show "uint (modul_mulredc_ul a b invm m) < uint m"
    "(uint (modul_mulredc_ul a b invm m) * B64) mod uint m = (uint a * uint b) mod uint m"
    by (simp_all only: v)
  show "modul_mulredc a b invm m = modul_mulredc_ul a b invm m"
    using modul_add_val(1) [OF phm, of hi] him v by (simp add: r q_def word_uint_eq_iff)
qed

lemma modul_muladdredc_ul_val:
  assumes inv: "m * invm = - 1" and abc: "uint a * uint b + uint c < B64 * uint m"
  shows "uint (modul_muladdredc_ul a b c invm m) < uint m"
    "(uint (modul_muladdredc_ul a b c invm m) * B64) mod uint m = (uint a * uint b + uint c) mod uint m"
proof -
  obtain p1 p2 where p: "x86_mul a b = (p1, p2)" by fastforce
  obtain plow phigh where s: "ularith_add_2ul_2ul p1 p2 c 0 = (plow, phigh)" by fastforce
  have s': "ularith_add_ul_2ul p1 p2 c = (plow, phigh)"
    using s by (simp add: ularith_add_2ul_2ul_def ularith_add_ul_2ul_def)
  have v: "val2 plow phigh = uint a * uint b + uint c"
  proof -
    have "B64 * uint m < B64 * B64" using uint_ltB64 [of m] by simp
    then have "0 \<le> uint a * uint b + uint c" "uint a * uint b + uint c < B64 * B64" using abc by auto
    then show ?thesis
      using ularith_add_2ul_2ul_val [OF s] x86_mul_val [OF p] by (simp add: val2_def)
  qed
  obtain lo hi where t: "x86_mul (plow * invm) m = (lo, hi)" by fastforce
  define ph where "ph = phigh + (if plow \<noteq> 0 then 1 else 0)"
  have "B64 * uint phigh < B64 * uint m" using v abc uint_gt_m1 [of plow] by (simp add: val2_def)
  then have ph: "uint ph = uint phigh + of_bool (plow \<noteq> 0)" "uint ph \<le> uint m"
    using uint_ltB64 [of m] by (auto simp: ph_def uint_add_ul)
  have him: "uint hi < uint m" by (rule redc_core(2) [OF inv t])
  define q where "q = uint ph + uint hi"
  have q: "uint a * uint b + uint c + uint (plow * invm) * uint m = B64 * q"
    using redc_core(1) [OF inv t, of phigh] v by (simp add: q_def ph)
  have "modul_muladdredc_ul a b c invm m = (if ph \<ge> m - hi then ph - (m - hi) else ph + hi)"
    using p t s' by (simp add: modul_muladdredc_ul_def ularith_mul_ul_ul_2ul_def ph_def)
  then have v: "uint (modul_muladdredc_ul a b c invm m) = (if q < uint m then q else q - uint m)"
    unfolding q_def using redc_correct_val [OF ph(2) him] by (simp only:)
  have "q < 2 * uint m" "0 \<le> q" using ph(2) him uint_gt_m1 [of ph] uint_gt_m1 [of hi] by (simp_all add: q_def)
  from redc_final [OF q this] show "uint (modul_muladdredc_ul a b c invm m) < uint m"
    "(uint (modul_muladdredc_ul a b c invm m) * B64) mod uint m = (uint a * uint b + uint c) mod uint m"
    by (simp_all only: v)
qed

lemma take_bit_xor_shift:
  fixes n a b :: ul
  shows "take_bit 4 (uint (n XOR push_bit i (n AND a) XOR push_bit j (n AND b))) =
    take_bit 4 (take_bit 4 (uint n) XOR push_bit i (take_bit 4 (uint n) AND uint a)
      XOR push_bit j (take_bit 4 (uint n) AND uint b))"
  by (rule bit_eqI) (auto simp: bit_simps)

lemma invmodlong_seed:
  assumes "odd (n::ul)"
  shows "2 ^ 4 dvd uint n * uint (n XOR (push_bit 1 (n AND 4)) XOR (push_bit 2 (n AND 2))) - 1"
proof -
  define k where "k = uint n mod 16"
  define f where "f = (\<lambda>x::int. x XOR (push_bit 1 (x AND 4)) XOR (push_bit 2 (x AND 2)))"
  have "k \<in> {0..<16}" by (simp add: k_def)
  moreover have "odd k" using assms by (simp add: k_def even_uint dvd_mod_iff)
  moreover have "\<forall>k \<in> set [0..15]. odd k \<longrightarrow> (k * f k) mod 16 = (1::int)"
    unfolding f_def by code_simp
  ultimately have k: "(k * f k) mod 16 = 1" by simp
  have u: "uint (n XOR (push_bit 1 (n AND 4)) XOR (push_bit 2 (n AND 2))) mod 16 = f k mod 16"
    using take_bit_xor_shift [of n 1 4 2 2] by (simp add: f_def k_def take_bit_eq_mod)
  then have "(uint n * uint (n XOR (push_bit 1 (n AND 4)) XOR (push_bit 2 (n AND 2)))) mod 16 = 1"
    using k by (metis k_def mod_mult_eq mod_mod_trivial)
  then have "(uint n * uint (n XOR (push_bit 1 (n AND 4)) XOR (push_bit 2 (n AND 2)))) mod 16 = 1 mod 16" by simp
  then show ?thesis by (simp only: mod_eq_dvd_iff) simp
qed

lemma newton64_lift:
  assumes "2 ^ k dvd uint n * uint r - 1" "m \<le> 2 * k" "m \<le> 64"
  shows "2 ^ m dvd uint n * uint (newton64 n r) - 1"
  by (rule newton_dvd [OF assms(1) _ assms(2)])
    (use newton64_dvd [of n r] dvd_trans [OF le_imp_power_dvd [OF assms(3)]] in blast)

lemma modul_invmodlong_dvd:
  assumes "odd n"
  obtains r where "modul_invmodlong n = Some r" "2 ^ 64 dvd uint n * uint r - 1"
proof -
  define r0 where "r0 = n XOR (push_bit 1 (n AND 4)) XOR (push_bit 2 (n AND 2))"
  have d0: "2 ^ 4 dvd uint n * uint r0 - 1" unfolding r0_def by (rule invmodlong_seed [OF assms])
  have d1: "2 ^ 8 dvd uint n * uint (newton64 n r0) - 1" (is "_ dvd _ * uint ?r1 - 1")
    by (rule newton64_lift [OF d0]) simp_all
  have d2: "2 ^ 16 dvd uint n * uint (newton64 n ?r1) - 1" (is "_ dvd _ * uint ?r2 - 1")
    by (rule newton64_lift [OF d1]) simp_all
  have d3: "2 ^ 32 dvd uint n * uint (newton64 n ?r2) - 1" (is "_ dvd _ * uint ?r3 - 1")
    by (rule newton64_lift [OF d2]) simp_all
  have d4: "2 ^ 64 dvd uint n * uint (newton64 n ?r3) - 1"
    by (rule newton64_lift [OF d3]) simp_all
  have "n mod 2 \<noteq> 0" using assms by (simp add: odd_iff_mod_2_eq_one)
  then have "modul_invmodlong n = Some (newton64 n ?r3)"
    by (simp add: modul_invmodlong_def Let_def r0_def)
  then show thesis using d4 by (rule that)
qed

lemma modul_intbits_loop_val:
  "k \<le> modul_intbits_loop n k \<and> uint n < 2 ^ (modul_intbits_loop n k - k)
   \<and> (n \<noteq> 0 \<longrightarrow> 2 ^ (modul_intbits_loop n k - k) \<le> 2 * uint n)"
proof (induction n k rule: modul_intbits_loop.induct)
  case (1 n k)
  show ?case
  proof (cases "n > 0")
    case True
    define b where "b = modul_intbits_loop (drop_bit 1 n) (Suc k)"
    have eq: "modul_intbits_loop n k = b" using True by (subst modul_intbits_loop.simps) (simp add: b_def)
    have h: "uint (drop_bit 1 n) = uint n div 2" using uint_drop_bit [of 1 n] by simp
    have IH: "Suc k \<le> b" "uint n div 2 < 2 ^ (b - Suc k)"
      "drop_bit 1 n \<noteq> 0 \<longrightarrow> 2 ^ (b - Suc k) \<le> 2 * (uint n div 2)"
      using "1.IH" [OF True] unfolding b_def [symmetric] h by auto
    have p: "2 ^ (b - k) = 2 * (2 :: int) ^ (b - Suc k)" using IH(1)
      by (metis Suc_diff_le diff_Suc_Suc power_Suc)
    have "0 < uint n" using True by (simp add: word_less_def)
    have "2 ^ (b - k) \<le> 2 * uint n"
    proof (cases "drop_bit 1 n = 0")
      case True
      then have "b = Suc k" unfolding b_def by (simp add: modul_intbits_loop.simps)
      then show ?thesis using \<open>0 < uint n\<close> by simp
    next
      case False
      then show ?thesis using IH(3) p by linarith
    qed
    then show ?thesis using IH p unfolding eq by auto
  next
    case False
    then have "n = 0" by (simp add: word_gt_0)
    then show ?thesis by (simp add: modul_intbits_loop.simps)
  qed
qed

lemma modul_neg_val:
  assumes "uint a < uint m"
  shows "uint (modul_neg a m) = (- uint a) mod uint m"
proof (cases "a = 0")
  case False
  then have "0 < uint a" using uint_gt_m1 [of a] by (simp add: word_uint_eq_iff)
  then have "(- uint a) mod uint m = uint m - uint a"
    using assms by (simp add: zmod_zminus1_eq_if)
  then show ?thesis using False assms by (simp add: modul_neg_def uint_sub_ul)
qed (simp add: modul_neg_def)

lemma modul_add_mod:
  assumes "uint a < uint m" "uint b < uint m"
  shows "uint (modul_add a b m) = (uint a + uint b) mod uint m"
proof -
  have "(uint a + uint b - uint m) mod uint m = uint a + uint b - uint m"
    if "\<not> uint a + uint b < uint m" using assms that by (intro mod_pos_pos_trivial) auto
  then show ?thesis
    using modul_add_val(1) [of a m b] assms uint_gt_m1 [of a] uint_gt_m1 [of b] by simp
qed

lemma modul_sub_mod:
  assumes "uint a < uint m" "uint b < uint m"
  shows "uint (modul_sub a b m) = (uint a - uint b) mod uint m"
proof -
  have "(uint a - uint b) mod uint m = uint a - uint b + uint m" if "\<not> uint b \<le> uint a"
    using that assms uint_gt_m1 [of a] mod_pos_pos_trivial [of "uint a - uint b + uint m" "uint m"]
    by simp
  then show ?thesis
    using modul_sub_val(1) [OF assms] assms uint_gt_m1 [of b] by simp
qed

section \<open>Properties\<close>

text \<open>C30: on reduced residues the plain operations are the ring operations modulo \<open>m\<close>, for every
  modulus up to the full word: addition and subtraction do not lose the carry, multiplication
  passes the assertion of its division and does not trap, and the C expressions agree with the
  assembly.\<close>

theorem modul_ring_correct:
  assumes "uint a < uint m" and "uint b < uint m"
  shows "uint (modul_add a b m) = (uint a + uint b) mod uint m
       \<and> uint (modul_sub a b m) = (uint a - uint b) mod uint m
       \<and> uint (modul_neg a m) = (- uint a) mod uint m
       \<and> (\<exists>r. modul_mul a b m = Some r \<and> uint r = (uint a * uint b) mod uint m)
       \<and> modul_add_c a b m = modul_add a b m \<and> modul_sub_c a b m = modul_sub a b m"
  using modul_add_mod [OF assms] modul_sub_mod [OF assms] modul_neg_val [OF assms(1)]
    modul_add_val(2) [of a m b] modul_sub_val(2) [OF assms] modul_mul_val [OF assms] assms
  by (metis less_imp_le)

theorem modul_ring_correct_witness:
  "uint (18446744073709551614 :: ul) < uint (18446744073709551615 :: ul)
   \<and> uint (modul_add 18446744073709551614 18446744073709551614 18446744073709551615)
      = (uint (18446744073709551614 :: ul) + uint (18446744073709551614 :: ul))
          mod uint (18446744073709551615 :: ul)"
  using modul_ring_correct [of 18446744073709551614 18446744073709551615 18446744073709551614]
  by simp

text \<open>the REDC helpers divide by \<open>2 ^ 64\<close> modulo \<open>m\<close>. With \<open>invm\<close> the negated inverse of the
  modulus, \<open>modul_frommontgomery\<close>, \<open>modul_mulredc_ul\<close> and \<open>modul_muladdredc_ul\<close> return a reduced
  residue \<open>r\<close> with \<open>r * 2 ^ 64\<close> congruent to their input; \<open>modul_mulredc_ul\<close> needs only the first
  factor to be reduced, so the overflow its FIXME asks about cannot happen.\<close>

theorem modul_redc_correct:
  assumes "m * invm = - 1" and "uint a < uint m" and "uint a * uint b + uint c < B64 * uint m"
  shows "(let r = modul_frommontgomery a invm m
          in uint r < uint m \<and> (uint r * B64) mod uint m = uint a)
       \<and> (let r = modul_mulredc_ul a b invm m
          in uint r < uint m \<and> (uint r * B64) mod uint m = (uint a * uint b) mod uint m
             \<and> modul_mulredc a b invm m = r)
       \<and> (let r = modul_muladdredc_ul a b c invm m
          in uint r < uint m \<and> (uint r * B64) mod uint m = (uint a * uint b + uint c) mod uint m)"
  using modul_frommontgomery_val [OF assms(1,2)] modul_mulredc_ul_val [OF assms(1,2), of b]
    modul_muladdredc_ul_val [OF assms(1,3)] assms(2) uint_gt_m1 [of a]
  by (simp add: Let_def)

theorem modul_redc_correct_witness:
  "(15 :: ul) * 1229782938247303441 = - 1
   \<and> uint (modul_mulredc_ul 7 200 1229782938247303441 15) < uint (15 :: ul)"
  using modul_redc_correct [of 15 1229782938247303441 7 200 3] by (simp add: Let_def)

text \<open>adding before reducing. For \<open>a \<le> m\<close> and any word \<open>b\<close>, \<open>modul_addredc_ul\<close> returns the
  reduced \<open>(a + b) / 2 ^ 64\<close> modulo \<open>m\<close>, and \<open>modul_addredcsemi_ul\<close> the same class in \<open>[0, m]\<close>,
  in assembly and in C; the carry out of \<open>a + b\<close> is not lost.\<close>

theorem modul_addredc_correct:
  assumes "m * invm = - 1" and "uint a \<le> uint m"
  shows "(let r = modul_addredc_ul a b invm m
          in uint r < uint m \<and> (uint r * B64) mod uint m = (uint a + uint b) mod uint m)
       \<and> (let r = modul_addredcsemi_ul a b invm m
          in uint r \<le> uint m \<and> (uint r * B64) mod uint m = (uint a + uint b) mod uint m
             \<and> modul_addredcsemi_ul_c a b invm m = r)"
proof -
  note v = modul_addredcsemi_val [OF assms, of b]
  have "m \<noteq> 0" using assms(1) by auto
  then have "0 < uint m" using uint_gt_m1 [of m] by (simp add: word_uint_eq_iff)
  moreover have "(uint m * B64) mod uint m = 0" by simp
  ultimately show ?thesis
    using v by (auto simp: Let_def word_uint_eq_iff less_le)
qed

theorem modul_addredc_correct_witness:
  "(15 :: ul) * 1229782938247303441 = - 1
   \<and> uint (modul_addredc_ul 15 (- 1) 1229782938247303441 15) < uint (15 :: ul)"
  using modul_addredc_correct [of 15 1229782938247303441 15 "- 1"] by (simp add: Let_def)

text \<open>halving. For an odd modulus and a reduced \<open>a\<close>, \<open>modul_div2\<close> returns the reduced residue
  whose double is \<open>a\<close>; the rotate through carry keeps the bit that \<open>a + m\<close> may push out of the
  word.\<close>

theorem modul_div2_correct:
  assumes "odd m" and "uint a < uint m"
  shows "uint (modul_div2 a m) < uint m \<and> (2 * uint (modul_div2 a m)) mod uint m = uint a
       \<and> modul_div2_c a m = modul_div2 a m"
proof -
  note v = modul_div2_val [OF assms]
  obtain l where l: "uint m = 2 * l + 1" using even_uint [of m] assms(1) by (metis oddE)
  show ?thesis
  proof (cases "even a")
    case True
    then obtain k where "uint a = 2 * k" using even_uint [of a] by (metis evenE)
    then show ?thesis using v True assms(2) uint_gt_m1 [of a] by simp
  next
    case False
    then obtain k where k: "uint a = 2 * k + 1" using even_uint [of a] by (metis oddE)
    then have "uint (modul_div2 a m) = k + l + 1" using v(1) False l by simp
    moreover have "2 * (k + l + 1) = uint a + uint m" by (simp add: k l)
    moreover have "(uint a + uint m) mod uint m = uint a" using assms(2) by simp
    moreover have "k + l + 1 < uint m" using k l assms(2) by linarith
    ultimately show ?thesis using v(2) by simp
  qed
qed

theorem modul_div2_correct_witness:
  "odd (18446744073709551615 :: ul)
   \<and> (2 * uint (modul_div2 18446744073709551613 18446744073709551615))
        mod uint (18446744073709551615 :: ul) = uint (18446744073709551613 :: ul)"
  using modul_div2_correct [of 18446744073709551615 18446744073709551613] by simp

text \<open>\<open>modul_invmodlong\<close> inverts every odd word modulo \<open>2 ^ 64\<close>, and \<open>modul_intbits\<close> returns
  the number of bits of every word, 0 for 0.\<close>

theorem modul_invmodlong_intbits_correct:
  assumes "odd n"
  shows "(\<exists>r. modul_invmodlong n = Some r \<and> n * r = 1)
       \<and> uint n < 2 ^ modul_intbits n \<and> 2 ^ modul_intbits n \<le> 2 * uint n \<and> modul_intbits 0 = 0"
proof -
  obtain r where r: "modul_invmodlong n = Some r" "2 ^ 64 dvd uint n * uint r - 1"
    using assms by (rule modul_invmodlong_dvd)
  have "(uint n * uint r) mod 2 ^ 64 = 1 mod 2 ^ 64" using r(2) by (simp only: mod_eq_dvd_iff)
  then have "uint (n * r) = uint (1 :: ul)" by (simp add: uint_mul_ul)
  then have "n * r = 1" by (simp only: word_uint_eq_iff)
  moreover have "n \<noteq> 0" using assms by auto
  ultimately show ?thesis using r(1) modul_intbits_loop_val [of 0 n]
    by (simp add: modul_intbits_def) (simp add: modul_intbits_loop.simps)
qed

theorem modul_invmodlong_intbits_correct_witness:
  "odd (9 :: ul) \<and> (\<exists>r. modul_invmodlong 9 = Some r \<and> 9 * r = 1)"
  using modul_invmodlong_intbits_correct [of 9] by simp

end
