(* ===== verification/Modredc_ul.thy ===== *)
theory Modredc_ul
  imports Mod_ul
begin

text \<open>
  Model of \<open>src/utils/modredc_ul.h\<close>: residues in Montgomery form, reduced with REDC after every
  product.  \<open>modulusredcul_t\<close> is the record below.  As before the plain name is the x86_64 path,
  \<open>_c\<close> the C fallback, and \<^const>\<open>None\<close> a failed assertion or a trap.

  A residue \<open>r\<close> stands for the class \<open>x\<close> with \<open>r = x * 2 ^ 64 mod m\<close>: \<open>redc_enc\<close> below is this
  encoding, and the lemmas show that every operation commutes with it.
\<close>

section \<open>The modulus and the integers of its width\<close>

record modulusredcul =
  mr_m :: ul
  mr_invm :: ul
  mr_one :: ul

definition modredcul_intset :: "ul \<Rightarrow> ul" where
  "modredcul_intset s = s"

definition modredcul_intset_ul :: "ul \<Rightarrow> ul" where
  "modredcul_intset_ul s = s"

definition modredcul_intequal :: "ul \<Rightarrow> ul \<Rightarrow> bool" where
  "modredcul_intequal a b = (a = b)"

definition modredcul_intequal_ul :: "ul \<Rightarrow> ul \<Rightarrow> bool" where
  "modredcul_intequal_ul a b = (a = b)"

definition modredcul_intcmp :: "ul \<Rightarrow> ul \<Rightarrow> int" where
  "modredcul_intcmp a b = (if a < b then - 1 else if a = b then 0 else 1)"

definition modredcul_intcmp_ul :: "ul \<Rightarrow> ul \<Rightarrow> int" where
  "modredcul_intcmp_ul a b = (if a < b then - 1 else if a = b then 0 else 1)"

definition modredcul_intfits_ul :: "ul \<Rightarrow> bool" where
  "modredcul_intfits_ul a = True"

definition modredcul_intadd :: "ul \<Rightarrow> ul \<Rightarrow> ul" where
  "modredcul_intadd a b = a + b"

definition modredcul_intsub :: "ul \<Rightarrow> ul \<Rightarrow> ul" where
  "modredcul_intsub a b = a - b"

definition modredcul_intbits :: "ul \<Rightarrow> nat option" where
  "modredcul_intbits a =
     (if a = 0 then Some 0 else do { c \<leftarrow> ularith_clz a; Some (LONG_BIT - c) })"

definition modredcul_intshr :: "ul \<Rightarrow> nat \<Rightarrow> ul" where
  "modredcul_intshr s i = drop_bit i s"

definition modredcul_intshl :: "ul \<Rightarrow> nat \<Rightarrow> ul" where
  "modredcul_intshl s i = push_bit i s"

definition modredcul_intdivexact :: "ul \<Rightarrow> ul \<Rightarrow> ul option" where
  "modredcul_intdivexact n d = do { i \<leftarrow> ularith_invmod d; Some (n * i) }"

definition modredcul_intmod :: "ul \<Rightarrow> ul \<Rightarrow> ul option" where
  "modredcul_intmod n d = ul_mod n d"

section \<open>Reduction\<close>

definition modredcul_tomontgomery :: "ul \<Rightarrow> modulusredcul \<Rightarrow> ul option" where
  "modredcul_tomontgomery a M = ularith_div_2ul_ul_ul_r 0 a (mr_m M)"

definition modredcul_frommontgomery :: "ul \<Rightarrow> modulusredcul \<Rightarrow> ul" where
  "modredcul_frommontgomery a M =
     (let tlow = a * mr_invm M;
          (tlow, thigh) = ularith_mul_ul_ul_2ul tlow (mr_m M)
      in thigh + (if a \<noteq> 0 then 1 else 0))"

definition modredcul_add :: "ul \<Rightarrow> ul \<Rightarrow> modulusredcul \<Rightarrow> ul" where
  "modredcul_add a b M =
     (let t = a + b; tr = a - mr_m M; (tr, cf) = x86_add tr b in if \<not> cf then t else tr)"

definition modredcul_add_c :: "ul \<Rightarrow> ul \<Rightarrow> modulusredcul \<Rightarrow> ul" where
  "modredcul_add_c a b M =
     (if b \<ge> mr_m M - a then b - (mr_m M - a) else a + b)"

definition modredcul_redc :: "ul \<Rightarrow> ul \<Rightarrow> modulusredcul \<Rightarrow> ul" where
  "modredcul_redc plow phigh M =
     (let t = phigh;
          tlow = plow * mr_invm M;
          (tlow, thigh) = ularith_mul_ul_ul_2ul tlow (mr_m M);
          t = t + (if plow \<noteq> 0 then 1 else 0)
      in modredcul_add t thigh M)"

definition modredcul_add_semi :: "ul \<Rightarrow> ul \<Rightarrow> modulusredcul \<Rightarrow> ul" where
  "modredcul_add_semi a b M =
     (let t = a - mr_m M; tr = a + b; (t, cf) = x86_add t b in if cf then t else tr)"

definition modredcul_add_semi_c :: "ul \<Rightarrow> ul \<Rightarrow> modulusredcul \<Rightarrow> ul" where
  "modredcul_add_semi_c a b M =
     (if b \<ge> mr_m M - a then b - (mr_m M - a) else a + b)"

definition modredcul_redc_semi :: "ul \<Rightarrow> ul \<Rightarrow> modulusredcul \<Rightarrow> ul" where
  "modredcul_redc_semi plow phigh M =
     (let t = phigh;
          tlow = plow * mr_invm M;
          (tlow, thigh) = ularith_mul_ul_ul_2ul tlow (mr_m M);
          t = t + (if plow \<noteq> 0 then 1 else 0)
      in modredcul_add_semi thigh t M)"

section \<open>Initialising the modulus\<close>

definition modredcul_initmod_ul :: "ul \<Rightarrow> modulusredcul option" where
  "modredcul_initmod_ul s =
     do { i \<leftarrow> ularith_invmod s;
          let M = \<lparr>mr_m = s, mr_invm = - i, mr_one = 1\<rparr>;
          if mr_m M = 1 then Some (M\<lparr>mr_one := 0\<rparr>)
          else do { one \<leftarrow> modredcul_tomontgomery 1 M; Some (M\<lparr>mr_one := one\<rparr>) } }"

definition modredcul_initmod_uls :: "ul \<Rightarrow> modulusredcul option" where
  "modredcul_initmod_uls s =
     do { i \<leftarrow> ularith_invmod s;
          let M = \<lparr>mr_m = s, mr_invm = - i, mr_one = 1\<rparr>;
          if mr_m M = 1 then Some (M\<lparr>mr_one := 0\<rparr>)
          else do { one \<leftarrow> modredcul_tomontgomery 1 M; Some (M\<lparr>mr_one := one\<rparr>) } }"

definition modredcul_getmod_ul :: "modulusredcul \<Rightarrow> ul" where
  "modredcul_getmod_ul M = mr_m M"

definition modredcul_getmod_uls :: "modulusredcul \<Rightarrow> ul" where
  "modredcul_getmod_uls M = mr_m M"

section \<open>Setting, reading and comparing residues\<close>

definition modredcul_init :: "modulusredcul \<Rightarrow> ul" where
  "modredcul_init M = 0"

definition modredcul_set :: "ul \<Rightarrow> modulusredcul \<Rightarrow> ul" where
  "modredcul_set s M = s"

definition modredcul_set_ul :: "ul \<Rightarrow> modulusredcul \<Rightarrow> ul option" where
  "modredcul_set_ul s M =
     (let (plow, phigh) = ularith_mul_ul_ul_2ul s (mr_one M);
          r = modredcul_redc plow phigh M
      in modredcul_tomontgomery r M)"

definition modredcul_set_ul_reduced :: "ul \<Rightarrow> modulusredcul \<Rightarrow> ul option" where
  "modredcul_set_ul_reduced s M =
     (if s < mr_m M then modredcul_tomontgomery s M else None)"

definition modredcul_set_uls :: "ul \<Rightarrow> modulusredcul \<Rightarrow> ul option" where
  "modredcul_set_uls s M = do { r \<leftarrow> ul_mod s (mr_m M); modredcul_tomontgomery r M }"

definition modredcul_set_uls_reduced :: "ul \<Rightarrow> modulusredcul \<Rightarrow> ul option" where
  "modredcul_set_uls_reduced s M =
     (if s < mr_m M then modredcul_tomontgomery s M else None)"

definition modredcul_set0 :: "modulusredcul \<Rightarrow> ul" where
  "modredcul_set0 M = 0"

definition modredcul_set1 :: "modulusredcul \<Rightarrow> ul" where
  "modredcul_set1 M = mr_one M"

definition modredcul_swap :: "ul \<Rightarrow> ul \<Rightarrow> modulusredcul \<Rightarrow> ul \<times> ul" where
  "modredcul_swap a b M = (let t = a; a = b; b = t in (a, b))"

definition modredcul_get_ul :: "ul \<Rightarrow> modulusredcul \<Rightarrow> ul" where
  "modredcul_get_ul s M = modredcul_frommontgomery s M"

definition modredcul_get_uls :: "ul \<Rightarrow> modulusredcul \<Rightarrow> ul" where
  "modredcul_get_uls s M = modredcul_frommontgomery s M"

definition modredcul_equal :: "ul \<Rightarrow> ul \<Rightarrow> modulusredcul \<Rightarrow> bool" where
  "modredcul_equal a b M = (a = b)"

definition modredcul_is0 :: "ul \<Rightarrow> modulusredcul \<Rightarrow> bool" where
  "modredcul_is0 a M = (a = 0)"

definition modredcul_is1 :: "ul \<Rightarrow> modulusredcul \<Rightarrow> bool" where
  "modredcul_is1 a M = (a = mr_one M)"

section \<open>Ring operations\<close>

definition modredcul_add_ul :: "ul \<Rightarrow> ul \<Rightarrow> modulusredcul \<Rightarrow> ul option" where
  "modredcul_add_ul a b M = do { t \<leftarrow> modredcul_set_ul b M; Some (modredcul_add a t M) }"

definition modredcul_sub :: "ul \<Rightarrow> ul \<Rightarrow> modulusredcul \<Rightarrow> ul" where
  "modredcul_sub a b M =
     (let (t, cf) = x86_sub a b; tr = t + mr_m M in if \<not> cf then t else tr)"

definition modredcul_sub_c :: "ul \<Rightarrow> ul \<Rightarrow> modulusredcul \<Rightarrow> ul" where
  "modredcul_sub_c a b M = (let tr = a - b; t = (if tr > a then mr_m M else 0) in tr + t)"

definition modredcul_sub_ul :: "ul \<Rightarrow> ul \<Rightarrow> modulusredcul \<Rightarrow> ul option" where
  "modredcul_sub_ul a b M = do { t \<leftarrow> modredcul_set_ul b M; Some (modredcul_sub a t M) }"

definition modredcul_neg :: "ul \<Rightarrow> modulusredcul \<Rightarrow> ul" where
  "modredcul_neg a M = (if a = 0 then a else mr_m M - a)"

text \<open>
  The x86_64 path of the product inlines REDC.  It tests the low word after the multiplication
  by \<open>invm\<close> (\<open>imulq\<close>, \<open>cmpq\<close>, \<open>sbbq\<close>) and corrects by the carry of \<open>(phigh - m) + thigh\<close>.
\<close>

definition modredcul_redc_asm :: "ul \<Rightarrow> ul \<Rightarrow> modulusredcul \<Rightarrow> ul" where
  "modredcul_redc_asm plow phigh M =
     (let rax = plow * mr_invm M;
          (_, cf) = x86_sub rax 1;
          (phigh, _) = x86_sbb phigh (- 1) cf;
          (rax, rdx) = x86_mul rax (mr_m M);
          r = phigh + rdx;
          (phigh, _) = x86_sub phigh (mr_m M);
          (phigh, cf) = x86_add phigh rdx
      in if cf then phigh else r)"

definition modredcul_mul :: "ul \<Rightarrow> ul \<Rightarrow> modulusredcul \<Rightarrow> ul" where
  "modredcul_mul a b M =
     (let (plow, phigh) = ularith_mul_ul_ul_2ul a b in modredcul_redc_asm plow phigh M)"

definition modredcul_mul_c :: "ul \<Rightarrow> ul \<Rightarrow> modulusredcul \<Rightarrow> ul" where
  "modredcul_mul_c a b M =
     (let (plow, phigh) = ularith_mul_ul_ul_2ul a b in modredcul_redc plow phigh M)"

definition modredcul_sqr :: "ul \<Rightarrow> modulusredcul \<Rightarrow> ul" where
  "modredcul_sqr a M =
     (let (plow, phigh) = ularith_sqr_ul_2ul a in modredcul_redc_asm plow phigh M)"

definition modredcul_sqr_c :: "ul \<Rightarrow> modulusredcul \<Rightarrow> ul" where
  "modredcul_sqr_c a M =
     (let (plow, phigh) = ularith_sqr_ul_2ul a in modredcul_redc plow phigh M)"

definition modredcul_div2 :: "ul \<Rightarrow> modulusredcul \<Rightarrow> ul" where
  "modredcul_div2 a M =
     (let s = a; t = mr_m M;
          (t, cf) = x86_add t s;
          (t, _) = x86_rcr1 t cf;
          (s, cf) = x86_shr1 s
      in if \<not> cf then s else t)"

definition modredcul_div2_c :: "ul \<Rightarrow> modulusredcul \<Rightarrow> ul" where
  "modredcul_div2_c a M =
     (if a mod 2 = 0 then a div 2 else a div 2 + mr_m M div 2 + 1)"

definition modredcul_next :: "ul \<Rightarrow> modulusredcul \<Rightarrow> ul \<times> bool" where
  "modredcul_next r M = (let r = r + 1 in (r, r = mr_m M))"

definition modredcul_finished :: "ul \<Rightarrow> modulusredcul \<Rightarrow> bool" where
  "modredcul_finished r M = (r = mr_m M)"

section \<open>Well-formed moduli and the Montgomery encoding\<close>

definition redc_ok :: "modulusredcul \<Rightarrow> bool" where
  "redc_ok M \<longleftrightarrow> mr_m M * mr_invm M = - 1 \<and> uint (mr_one M) = B64 mod uint (mr_m M)"

definition redc_enc :: "modulusredcul \<Rightarrow> int \<Rightarrow> ul" where
  "redc_enc M x = word_of_int ((x * B64) mod uint (mr_m M))"

section \<open>The operations commute with the encoding\<close>

lemma redc_ok_m_pos: "redc_ok M \<Longrightarrow> 0 < uint (mr_m M)"
  using uint_gt_m1 [of "mr_m M"] by (cases "mr_m M = 0") (auto simp: redc_ok_def word_uint_eq_iff)

lemma redc_ok_odd: "redc_ok M \<Longrightarrow> odd (uint (mr_m M))"
proof
  assume "redc_ok M" "even (uint (mr_m M))"
  then have "even (uint (mr_m M) * uint (mr_invm M))" by simp
  then have "even (uint (mr_m M * mr_invm M))"
    unfolding uint_mul_ul by (simp add: dvd_mod_iff)
  then show False using \<open>redc_ok M\<close> by (simp add: redc_ok_def)
qed

lemma uint_redc_enc:
  assumes "redc_ok M"
  shows "uint (redc_enc M x) = (x * B64) mod uint (mr_m M)"
  unfolding redc_enc_def
  using redc_ok_m_pos [OF assms] uint_ltB64 [of "mr_m M"] pos_mod_bound [of "uint (mr_m M)" "x * B64"]
  by (intro uint_of_int_ul) (simp, linarith)

lemma redc_enc_less: "redc_ok M \<Longrightarrow> uint (redc_enc M x) < uint (mr_m M)"
  using redc_ok_m_pos [of M] by (simp add: uint_redc_enc)

lemma redc_encI:
  assumes "redc_ok M" "uint r < uint (mr_m M)" "uint r mod uint (mr_m M) = (x * B64) mod uint (mr_m M)"
  shows "r = redc_enc M x"
proof -
  have "uint r mod uint (mr_m M) = uint r" using assms(2) by simp
  then show ?thesis using assms by (simp add: word_uint_eq_iff uint_redc_enc)
qed

lemma redc_enc_eq_iff:
  assumes "redc_ok M"
  shows "redc_enc M x = redc_enc M y \<longleftrightarrow> x mod uint (mr_m M) = y mod uint (mr_m M)"
  using cong_B64_cancel [OF redc_ok_odd [OF assms], of x y]
  by (auto simp: word_uint_eq_iff uint_redc_enc [OF assms]) (metis mod_mult_left_eq)

lemma redc_inverse_exists:
  assumes "redc_ok M"
  obtains R where "(R * B64) mod uint (mr_m M) = 1 mod uint (mr_m M)"
proof -
  have inv: "mr_m M * mr_invm M = - 1" using assms by (simp add: redc_ok_def)
  have "(uint (mr_m M) * uint (mr_invm M)) mod B64 = B64 - 1"
    using arg_cong [OF inv, of uint] by (simp add: uint_mul_ul)
  then have "(uint (mr_m M) * uint (mr_invm M) + 1) mod B64 = (B64 - 1 + 1) mod B64"
    by (metis mod_add_left_eq)
  then have "(uint (mr_m M) * uint (mr_invm M) + 1) mod B64 = 0" by simp
  then have "B64 dvd uint (mr_m M) * uint (mr_invm M) + 1" by (simp only: mod_eq_0_iff_dvd)
  then obtain R where "uint (mr_m M) * uint (mr_invm M) + 1 = B64 * R" by (rule dvdE)
  then have "(R * B64) mod uint (mr_m M) = (1 + uint (mr_m M) * uint (mr_invm M)) mod uint (mr_m M)"
    by (simp add: algebra_simps)
  also have "\<dots> = 1 mod uint (mr_m M)" by simp
  finally show thesis by (rule that)
qed

lemma redc_enc_surj:
  assumes "redc_ok M" "uint r < uint (mr_m M)"
  obtains x where "r = redc_enc M x"
proof -
  obtain R where R: "(R * B64) mod uint (mr_m M) = 1 mod uint (mr_m M)"
    by (rule redc_inverse_exists [OF assms(1)])
  have "(uint r * R * B64) mod uint (mr_m M) = (uint r * ((R * B64) mod uint (mr_m M))) mod uint (mr_m M)"
    by (simp add: mod_mult_right_eq mult.assoc)
  also have "\<dots> = uint r mod uint (mr_m M)" unfolding R by (simp add: mod_mult_right_eq)
  finally show thesis using redc_encI [OF assms] by (intro that [of "uint r * R"]) simp
qed

lemma modredcul_add_eq: "modredcul_add a b M = modul_add a b (mr_m M)"
  by (simp add: modredcul_add_def modul_add_def x86_add_def Let_def)

lemma modredcul_sub_eq: "modredcul_sub a b M = modul_sub a b (mr_m M)"
  by (simp add: modredcul_sub_def modul_sub_def)

lemma modredcul_neg_eq: "modredcul_neg a M = modul_neg a (mr_m M)"
  by (simp add: modredcul_neg_def modul_neg_def)

lemma modredcul_div2_eq: "modredcul_div2 a M = modul_div2 a (mr_m M)"
  by (simp add: modredcul_div2_def modul_div2_def)

lemma modredcul_frommontgomery_eq: "modredcul_frommontgomery a M = modul_frommontgomery a (mr_invm M) (mr_m M)"
  by (simp add: modredcul_frommontgomery_def modul_frommontgomery_def ularith_mul_ul_ul_2ul_def x86_mul_def Let_def)

lemma enc_add:
  assumes "redc_ok M"
  shows "modredcul_add (redc_enc M x) (redc_enc M y) M = redc_enc M (x + y)"
  by (rule redc_encI [OF assms])
    (simp_all add: modredcul_add_eq modul_add_mod redc_enc_less assms uint_redc_enc redc_ok_m_pos
      mod_add_eq distrib_right)

lemma enc_sub:
  assumes "redc_ok M"
  shows "modredcul_sub (redc_enc M x) (redc_enc M y) M = redc_enc M (x - y)"
  by (rule redc_encI [OF assms])
    (simp_all add: modredcul_sub_eq modul_sub_mod redc_enc_less assms uint_redc_enc redc_ok_m_pos
      mod_diff_eq left_diff_distrib)

lemma enc_neg:
  assumes "redc_ok M"
  shows "modredcul_neg (redc_enc M x) M = redc_enc M (- x)"
  by (rule redc_encI [OF assms])
    (simp_all add: modredcul_neg_eq modul_neg_val redc_enc_less assms uint_redc_enc redc_ok_m_pos
      mod_minus_eq)

lemma modredcul_redc_val:
  assumes ok: "redc_ok M" and ph: "uint phigh + of_bool (plow \<noteq> 0) < uint (mr_m M)"
  shows "uint (modredcul_redc plow phigh M) < uint (mr_m M)"
    "(uint (modredcul_redc plow phigh M) * B64) mod uint (mr_m M) = val2 plow phigh mod uint (mr_m M)"
    "modredcul_redc_asm plow phigh M = modredcul_redc plow phigh M"
proof -
  have inv: "mr_m M * mr_invm M = - 1" using ok by (simp add: redc_ok_def)
  obtain lo hi where t: "x86_mul (plow * mr_invm M) (mr_m M) = (lo, hi)" by fastforce
  define p where "p = phigh + (if plow \<noteq> 0 then 1 else 0)"
  have p: "uint p = uint phigh + of_bool (plow \<noteq> 0)"
    using ph uint_ltB64 [of "mr_m M"] by (auto simp: p_def uint_add_ul)
  have him: "uint hi < uint (mr_m M)" by (rule redc_core(2) [OF inv t])
  define q where "q = uint p + uint hi"
  have q: "val2 plow phigh + uint (plow * mr_invm M) * uint (mr_m M) = B64 * q"
    using redc_core(1) [OF inv t, of phigh] by (simp add: q_def p)
  have r: "modredcul_redc plow phigh M = modul_add p hi (mr_m M)"
    using t by (simp add: modredcul_redc_def ularith_mul_ul_ul_2ul_def p_def modredcul_add_eq)
  have v: "uint (modredcul_redc plow phigh M) = (if q < uint (mr_m M) then q else q - uint (mr_m M))"
    unfolding r q_def using ph him p by (intro modul_add_val(1)) auto
  have "q < 2 * uint (mr_m M)" "0 \<le> q"
    using ph p him uint_gt_m1 [of p] uint_gt_m1 [of hi] by (simp_all add: q_def)
  from redc_final [OF q this] show "uint (modredcul_redc plow phigh M) < uint (mr_m M)"
    "(uint (modredcul_redc plow phigh M) * B64) mod uint (mr_m M) = val2 plow phigh mod uint (mr_m M)"
    by (simp_all only: v)
  have "plow * mr_invm M * mr_m M = - plow"
    unfolding mult.assoc using inv by (simp add: mult.commute)
  then have "plow = 0 \<longleftrightarrow> plow * mr_invm M = 0" by (cases "plow = 0") auto
  then have "uint (plow * mr_invm M) < 1 \<longleftrightarrow> plow = 0"
    using uint_gt_m1 [of "plow * mr_invm M"] by (auto simp: word_uint_eq_iff)
  then have "x86_sub (plow * mr_invm M) 1 = (plow * mr_invm M - 1, plow = 0)"
    by (simp add: x86_sub_def word_less_def)
  moreover have "fst (x86_sbb phigh (- 1) (plow = 0)) = p"
    by (simp add: x86_sbb_def p_def)
  ultimately show "modredcul_redc_asm plow phigh M = modredcul_redc plow phigh M"
    unfolding r modredcul_redc_asm_def
    by (simp add: t x86_sub_def x86_sbb_def x86_add_def modul_add_def Let_def split_beta)
qed

lemma enc_mul:
  assumes ok: "redc_ok M"
  shows "modredcul_mul (redc_enc M x) (redc_enc M y) M = redc_enc M (x * y)"
    "modredcul_mul_c (redc_enc M x) (redc_enc M y) M = redc_enc M (x * y)"
proof -
  let ?m = "uint (mr_m M)"
  obtain plow phigh where p: "x86_mul (redc_enc M x) (redc_enc M y) = (plow, phigh)" by fastforce
  note b = prod_high_bound [OF p redc_enc_less [OF ok]]
  have "uint phigh + of_bool (plow \<noteq> 0) < ?m"
  proof (cases "?m = 1")
    case True
    then show ?thesis using b by simp
  next
    case False
    then have "1 < ?m" using redc_ok_m_pos [OF ok] by simp
    then show ?thesis using b(2) by simp
  qed
  note r = modredcul_redc_val [OF ok this]
  have "(uint (modredcul_redc plow phigh M) * B64) mod ?m = (uint (redc_enc M x) * uint (redc_enc M y)) mod ?m"
    using r(2) x86_mul_val [OF p] by simp
  also have "\<dots> = ((x * B64) * (y * B64)) mod ?m"
    by (simp add: uint_redc_enc [OF ok] mod_mult_eq)
  also have "\<dots> = (x * y * B64 * B64) mod ?m" by (simp add: algebra_simps)
  finally have "uint (modredcul_redc plow phigh M) mod ?m = (x * y * B64) mod ?m"
    by (rule cong_B64_cancel [OF redc_ok_odd [OF ok]])
  then have "modredcul_redc plow phigh M = redc_enc M (x * y)"
    using redc_encI [OF ok r(1)] by simp
  then show "modredcul_mul (redc_enc M x) (redc_enc M y) M = redc_enc M (x * y)"
    "modredcul_mul_c (redc_enc M x) (redc_enc M y) M = redc_enc M (x * y)"
    using p r(3) by (simp_all add: modredcul_mul_def modredcul_mul_c_def ularith_mul_ul_ul_2ul_def)
qed

lemma modredcul_sqr_eq: "modredcul_sqr a M = modredcul_mul a a M" "modredcul_sqr_c a M = modredcul_mul_c a a M"
  by (simp_all add: modredcul_sqr_def modredcul_mul_def modredcul_sqr_c_def modredcul_mul_c_def
     ularith_sqr_ul_2ul_def ularith_mul_ul_ul_2ul_def)

lemma tomontgomery_enc:
  assumes ok: "redc_ok M" and a: "uint a < uint (mr_m M)"
  shows "modredcul_tomontgomery a M = Some (redc_enc M (uint a))"
proof -
  obtain r where r: "ularith_div_2ul_ul_ul_r 0 a (mr_m M) = Some r" "uint r = val2 0 a mod uint (mr_m M)"
    by (rule ularith_div_2ul_ul_ul_r_val) (use a in \<open>simp add: word_less_def\<close>)
  then have "r = redc_enc M (uint a)"
    by (simp add: word_uint_eq_iff uint_redc_enc [OF ok] val2_def mult.commute)
  with r(1) show ?thesis by (simp add: modredcul_tomontgomery_def)
qed

lemma frommontgomery_enc:
  assumes ok: "redc_ok M"
  shows "uint (modredcul_frommontgomery (redc_enc M x) M) = x mod uint (mr_m M)"
proof -
  let ?r = "modredcul_frommontgomery (redc_enc M x) M"
  have inv: "mr_m M * mr_invm M = - 1" using ok by (simp add: redc_ok_def)
  note f = modul_frommontgomery_val [OF inv redc_enc_less [OF ok], folded modredcul_frommontgomery_eq, of x]
  from f(2) have "(uint ?r * B64) mod uint (mr_m M) = (x * B64) mod uint (mr_m M)"
    by (simp add: uint_redc_enc [OF ok])
  from cong_B64_cancel [OF redc_ok_odd [OF ok] this] f(1) show ?thesis by simp
qed

lemma mr_one_enc: "redc_ok M \<Longrightarrow> mr_one M = redc_enc M 1"
  by (simp add: word_uint_eq_iff uint_redc_enc) (simp add: redc_ok_def)

lemma x86_mul_commute: "x86_mul a b = x86_mul b a"
  by (simp add: x86_mul_def mult.commute)

lemma set_ul_enc:
  assumes ok: "redc_ok M"
  shows "modredcul_set_ul s M = Some (redc_enc M (uint s))"
proof -
  let ?m = "uint (mr_m M)"
  obtain plow phigh where p: "x86_mul (mr_one M) s = (plow, phigh)" by fastforce
  have "uint (mr_one M) < ?m" by (simp add: mr_one_enc [OF ok] redc_enc_less [OF ok])
  note b = prod_high_bound [OF p this]
  have "uint phigh + of_bool (plow \<noteq> 0) < ?m"
    using b redc_ok_m_pos [OF ok] by (cases "?m = 1") simp_all
  note r = modredcul_redc_val [OF ok this]
  have "(uint (modredcul_redc plow phigh M) * B64) mod ?m = (uint (mr_one M) * uint s) mod ?m"
    using r(2) x86_mul_val [OF p] by simp
  also have "\<dots> = (uint s * B64) mod ?m"
    by (simp add: mr_one_enc [OF ok] uint_redc_enc [OF ok] mod_mult_left_eq mod_mult_right_eq mult.commute [of _ "uint s"])
  finally have "uint (modredcul_redc plow phigh M) mod ?m = uint s mod ?m"
    by (rule cong_B64_cancel [OF redc_ok_odd [OF ok]])
  then have "redc_enc M (uint (modredcul_redc plow phigh M)) = redc_enc M (uint s)"
    by (simp add: redc_enc_eq_iff [OF ok])
  with tomontgomery_enc [OF ok r(1)] p show ?thesis
    by (simp add: modredcul_set_ul_def ularith_mul_ul_ul_2ul_def x86_mul_commute [of s])
qed

lemma set_uls_enc: "redc_ok M \<Longrightarrow> modredcul_set_uls s M = Some (redc_enc M (uint s))"
proof -
  assume ok: "redc_ok M"
  have "uint (s mod mr_m M) < uint (mr_m M)" using redc_ok_m_pos [OF ok] by (simp add: uint_mod_ul)
  from tomontgomery_enc [OF ok this] redc_ok_m_pos [OF ok] show ?thesis
    by (auto simp: modredcul_set_uls_def ul_mod_def uint_mod_ul redc_enc_eq_iff [OF ok] redc_ok_def)
qed

lemma invmod_one:
  assumes "odd s"
  obtains i where "ularith_invmod s = Some i" "s * i = 1"
proof -
  obtain i where i0: "ularith_invmod s = Some i" "2 ^ 64 dvd uint s * uint i - 1"
    by (rule ularith_invmod_dvd [OF assms])
  from i0(2) have "(uint s * uint i) mod 2 ^ 64 = 1 mod 2 ^ 64" by (simp only: mod_eq_dvd_iff)
  then have "uint (s * i) = 1" by (simp add: uint_mul_ul)
  with i0 show thesis by (intro that) (simp_all add: word_uint_eq_iff)
qed

lemma initmod_ok:
  assumes "odd s"
  obtains M where "modredcul_initmod_ul s = Some M" "redc_ok M" "mr_m M = s"
proof -
  obtain i where i: "ularith_invmod s = Some i" and si: "s * i = 1"
    by (rule invmod_one [OF assms])
  define M0 where "M0 = \<lparr>mr_m = s, mr_invm = - i, mr_one = 1\<rparr>"
  show thesis
  proof (cases "s = 1")
    case True
    then show thesis
      using i si by (intro that [of "M0\<lparr>mr_one := 0\<rparr>"])
        (simp_all add: modredcul_initmod_ul_def M0_def redc_ok_def)
  next
    case False
    have "0 < uint s" using assms uint_gt_m1 [of s] by (cases "uint s = 0") (auto simp: even_uint [symmetric])
    with False have s1: "1 < uint s" by (auto simp: word_uint_eq_iff)
    obtain r where r: "ularith_div_2ul_ul_ul_r 0 1 s = Some r" "uint r = val2 0 1 mod uint s"
      by (rule ularith_div_2ul_ul_ul_r_val [of 1 s 0]) (use s1 in \<open>simp_all add: word_less_def\<close>)
    show thesis
      using i si r False by (intro that [of "M0\<lparr>mr_one := r\<rparr>"])
        (simp_all add: modredcul_initmod_ul_def M0_def redc_ok_def modredcul_tomontgomery_def val2_def)
  qed
qed

lemma initmod_even: "even s \<Longrightarrow> modredcul_initmod_ul s = None"
  by (simp add: modredcul_initmod_ul_def ularith_invmod_def even_iff_mod_2_eq_zero)

lemma initmod_uls_eq: "modredcul_initmod_uls s = modredcul_initmod_ul s"
  by (simp add: modredcul_initmod_uls_def modredcul_initmod_ul_def)

lemma intdivexact_val:
  assumes "odd d" "uint d dvd uint n"
  shows "modredcul_intdivexact n d = Some (n div d)"
proof -
  obtain i where i: "ularith_invmod d = Some i" and di: "d * i = 1"
    by (rule invmod_one [OF assms(1)])
  have "uint (n div d) * uint d = uint n" using assms(2) by (simp add: uint_div_ul)
  then have "n div d * d = n" by (metis word_of_int_uint wi_hom_mult)
  then have "n * i = n div d * (d * i)" by (metis mult.assoc)
  then have "n * i = n div d" by (simp only: di mult_1_right)
  with i show ?thesis by (simp add: modredcul_intdivexact_def)
qed

lemma redc_semi_val:
  assumes ok: "redc_ok M" and ph: "phigh \<noteq> - 1"
  shows "(uint (modredcul_redc_semi plow phigh M) * B64) mod uint (mr_m M) = val2 plow phigh mod uint (mr_m M)"
    and "phigh < mr_m M \<Longrightarrow> modredcul_redc_semi plow phigh M < mr_m M"
    and "mr_m M \<le> phigh \<Longrightarrow> modredcul_redc_semi plow phigh M \<le> phigh"
proof -
  have inv: "mr_m M * mr_invm M = - 1" using ok by (simp add: redc_ok_def)
  obtain lo hi where t: "x86_mul (plow * mr_invm M) (mr_m M) = (lo, hi)" by fastforce
  define p where "p = phigh + (if plow \<noteq> 0 then 1 else 0)"
  have "uint phigh \<noteq> 18446744073709551615" using ph by (auto simp: word_uint_eq_iff)
  then have p: "uint p = uint phigh + of_bool (plow \<noteq> 0)"
    using uint_ltB64 [of phigh] by (auto simp: p_def uint_add_ul)
  have him: "uint hi < uint (mr_m M)" by (rule redc_core(2) [OF inv t])
  define q where "q = uint p + uint hi"
  have q: "val2 plow phigh + uint (plow * mr_invm M) * uint (mr_m M) = B64 * q"
    using redc_core(1) [OF inv t, of phigh] by (simp add: q_def p)
  define r where "r = modredcul_redc_semi plow phigh M"
  have r: "r = modredcul_add_semi hi p M"
    using t by (simp add: r_def modredcul_redc_semi_def ularith_mul_ul_ul_2ul_def p_def)
  have v: "uint r = (if q < uint (mr_m M) then q else q - uint (mr_m M))"
    unfolding r q_def
    using him uint_ltB64 [of hi] uint_ltB64 [of "mr_m M"] uint_ltB64 [of p] uint_gt_m1 [of hi] uint_gt_m1 [of p]
    by (auto simp: modredcul_add_semi_def x86_add_def uint_add_ul uint_sub_ul Let_def)
  have "(uint r * B64) mod uint (mr_m M) = (B64 * q) mod uint (mr_m M)"
  proof (cases "q < uint (mr_m M)")
    case False
    then have "uint r * B64 = B64 * q + uint (mr_m M) * - B64" by (simp add: v algebra_simps)
    then show ?thesis by (simp only: mod_mult_self2)
  qed (simp add: v mult.commute)
  also have "\<dots> = val2 plow phigh mod uint (mr_m M)" unfolding q [symmetric] by simp
  finally show "(uint (modredcul_redc_semi plow phigh M) * B64) mod uint (mr_m M) = val2 plow phigh mod uint (mr_m M)"
    by (simp add: r_def)
  show "modredcul_redc_semi plow phigh M \<le> phigh" if "mr_m M \<le> phigh"
    using that him v p uint_gt_m1 [of r] unfolding r_def [symmetric] q_def by (auto simp: word_le_def of_bool_def split: if_splits)
  show "modredcul_redc_semi plow phigh M < mr_m M" if "phigh < mr_m M"
    using that him v p uint_gt_m1 [of r] unfolding r_def [symmetric] q_def by (auto simp: word_less_def of_bool_def split: if_splits)
qed

lemma enc_div2:
  assumes ok: "redc_ok M"
  shows "modredcul_div2 (redc_enc M (2 * x)) M = redc_enc M x"
    "modredcul_div2_c (redc_enc M (2 * x)) M = redc_enc M x"
proof -
  let ?a = "redc_enc M (2 * x)" and ?m = "uint (mr_m M)"
  let ?h = "modul_div2 ?a (mr_m M)"
  have om: "odd (mr_m M)" using redc_ok_odd [OF ok] by (simp add: even_uint)
  note v = modul_div2_val [OF om redc_enc_less [OF ok, of "2 * x"]]
  have "2 * uint ?h = (if even ?a then uint ?a else uint ?a + ?m)"
    unfolding v(1) using redc_ok_odd [OF ok] by (simp add: even_uint [of ?a, symmetric])
  then have "(2 * uint ?h) mod ?m = (2 * (x * B64)) mod ?m"
    by (simp add: uint_redc_enc [OF ok] mult.assoc)
  moreover have "coprime ?m 2" using redc_ok_odd [OF ok] by (simp add: coprime_right_2_iff_odd)
  ultimately have "uint ?h mod ?m = (x * B64) mod ?m"
    by (simp only: mod_eq_dvd_iff right_diff_distrib [symmetric] coprime_dvd_mult_right_iff)
  moreover have "uint ?h < ?m"
    using \<open>2 * uint ?h = _\<close> redc_enc_less [OF ok, of "2 * x"] uint_gt_m1 [of ?h] by (auto split: if_splits)
  ultimately have "?h = redc_enc M x" by (intro redc_encI [OF ok])
  then show "modredcul_div2 ?a M = redc_enc M x" "modredcul_div2_c ?a M = redc_enc M x"
    using v(2) by (simp_all add: modredcul_div2_eq modredcul_div2_c_def modul_div2_c_def)
qed

lemma modredcul_add_c_eq:
  "uint a < uint (mr_m M) \<Longrightarrow> uint b < uint (mr_m M) \<Longrightarrow> modredcul_add_c a b M = modredcul_add a b M"
  using uint_ltB64 [of a] uint_ltB64 [of "mr_m M"] uint_ltB64 [of b] uint_gt_m1 [of a] uint_gt_m1 [of b]
  by (auto simp: modredcul_add_c_def modredcul_add_def x86_add_def uint_add_ul uint_sub_ul
      word_le_def word_uint_eq_iff Let_def)

lemma modredcul_sub_c_eq:
  "uint a < uint (mr_m M) \<Longrightarrow> uint b < uint (mr_m M) \<Longrightarrow> modredcul_sub_c a b M = modredcul_sub a b M"
  using modul_sub_val(2) [of a "mr_m M" b]
  by (simp add: modredcul_sub_eq modredcul_sub_c_def modul_sub_c_def)

section \<open>Properties\<close>

text \<open>C19: Montgomery arithmetic. For every modulus record that \<open>modredcul_initmod_ul\<close> can build, each
  ring operation of \<open>modredc_ul.h\<close> maps the encodings of \<open>x\<close> and \<open>y\<close> to the encoding of the result,
  in assembly and in C, up to the largest odd 64-bit modulus.\<close>

theorem modredcul_ring_correct:
  assumes "redc_ok M"
  shows "modredcul_add (redc_enc M x) (redc_enc M y) M = redc_enc M (x + y)
       \<and> modredcul_sub (redc_enc M x) (redc_enc M y) M = redc_enc M (x - y)
       \<and> modredcul_neg (redc_enc M x) M = redc_enc M (- x)
       \<and> modredcul_mul (redc_enc M x) (redc_enc M y) M = redc_enc M (x * y)
       \<and> modredcul_sqr (redc_enc M x) M = redc_enc M (x * x)
       \<and> modredcul_div2 (redc_enc M (2 * x)) M = redc_enc M x
       \<and> modredcul_add_c (redc_enc M x) (redc_enc M y) M = redc_enc M (x + y)
       \<and> modredcul_sub_c (redc_enc M x) (redc_enc M y) M = redc_enc M (x - y)
       \<and> modredcul_mul_c (redc_enc M x) (redc_enc M y) M = redc_enc M (x * y)
       \<and> modredcul_sqr_c (redc_enc M x) M = redc_enc M (x * x)
       \<and> modredcul_div2_c (redc_enc M (2 * x)) M = redc_enc M x"
  using assms
  by (simp add: enc_add enc_sub enc_neg enc_mul enc_div2 modredcul_sqr_eq modredcul_add_c_eq
      modredcul_sub_c_eq redc_enc_less)

theorem modredcul_ring_correct_witness:
  "modredcul_mul (redc_enc \<lparr>mr_m = 15, mr_invm = 1229782938247303441, mr_one = 1\<rparr> 7)
     (redc_enc \<lparr>mr_m = 15, mr_invm = 1229782938247303441, mr_one = 1\<rparr> 11)
     \<lparr>mr_m = 15, mr_invm = 1229782938247303441, mr_one = 1\<rparr>
   = redc_enc \<lparr>mr_m = 15, mr_invm = 1229782938247303441, mr_one = 1\<rparr> 77"
  using modredcul_ring_correct [of "\<lparr>mr_m = 15, mr_invm = 1229782938247303441, mr_one = 1\<rparr>" 7 11]
  by (simp add: redc_ok_def)

text \<open>C20: initialisation and conversion. \<open>modredcul_initmod_ul\<close> accepts exactly the odd moduli and
  builds a well-formed record; then \<open>modredcul_set_ul\<close> of any word, reduced or not, does not trap,
  and \<open>modredcul_get_ul\<close> of its result is the word modulo \<open>s\<close>; the residue set from \<open>a\<close> is 0 or 1
  for the library exactly when \<open>a\<close> is congruent to 0 or 1.\<close>

theorem modredcul_set_get_roundtrip:
  "(case modredcul_initmod_ul s of
      None \<Rightarrow> even s
    | Some M \<Rightarrow> odd s \<and> redc_ok M \<and> modredcul_getmod_ul M = s
        \<and> (\<exists>r. modredcul_set_ul a M = Some r \<and> modredcul_set_uls a M = Some r
             \<and> modredcul_get_ul r M = a mod s
             \<and> (modredcul_is0 r M \<longleftrightarrow> a mod s = 0)
             \<and> (modredcul_is1 r M \<longleftrightarrow> a mod s = 1 mod s)))"
proof (cases "even s")
  case True
  then show ?thesis by (simp add: initmod_even)
next
  case False
  then obtain M where M: "modredcul_initmod_ul s = Some M" "redc_ok M" "mr_m M = s"
    by (rule initmod_ok)
  define r where "r = redc_enc M (uint a)"
  have z: "redc_enc M 0 = 0" by (simp add: redc_enc_def)
  have "modredcul_get_ul r M = a mod s"
    using frommontgomery_enc [OF M(2), of "uint a"]
    by (simp add: r_def M(3) modredcul_get_ul_def word_uint_eq_iff uint_mod_ul)
  moreover have "r = 0 \<longleftrightarrow> a mod s = 0"
    using redc_enc_eq_iff [OF M(2), of "uint a" 0] M(3)
    by (simp add: z r_def word_uint_eq_iff uint_mod_ul)
  moreover have "r = mr_one M \<longleftrightarrow> a mod s = 1 mod s"
    using redc_enc_eq_iff [OF M(2), of "uint a" 1] M(3)
    by (simp only: mr_one_enc [OF M(2)] r_def word_uint_eq_iff uint_mod_ul unsigned_1)
  ultimately show ?thesis
    using False M set_ul_enc [OF M(2), of a] set_uls_enc [OF M(2), of a]
    by (auto simp: r_def modredcul_getmod_ul_def modredcul_is0_def modredcul_is1_def)
qed

text \<open>C21: the reduction step. \<open>modredcul_redc\<close> returns the reduced \<open>(phigh:plow) / 2 ^ 64\<close> when
  \<open>phigh\<close>, plus one if \<open>plow\<close> is not 0, is below the modulus. \<open>modredcul_redc_semi\<close> is right for every
  \<open>phigh\<close> but \<open>ULONG_MAX\<close>: below the modulus its result is reduced, otherwise at most \<open>phigh\<close>.\<close>

theorem modredcul_redc_correct:
  assumes "redc_ok M"
  shows "(uint phigh + of_bool (plow \<noteq> 0) < uint (mr_m M) \<longrightarrow>
            uint (modredcul_redc plow phigh M) < uint (mr_m M)
            \<and> (uint (modredcul_redc plow phigh M) * B64) mod uint (mr_m M) = val2 plow phigh mod uint (mr_m M)
            \<and> modredcul_redc_asm plow phigh M = modredcul_redc plow phigh M)
       \<and> (phigh \<noteq> - 1 \<longrightarrow>
            (uint (modredcul_redc_semi plow phigh M) * B64) mod uint (mr_m M) = val2 plow phigh mod uint (mr_m M)
            \<and> (if phigh < mr_m M then modredcul_redc_semi plow phigh M < mr_m M
               else modredcul_redc_semi plow phigh M \<le> phigh))"
  using modredcul_redc_val [OF assms, of phigh plow] redc_semi_val [OF assms, of phigh plow]
  by simp

theorem modredcul_redc_correct_witness:
  "uint (modredcul_redc 1 13 \<lparr>mr_m = 15, mr_invm = 1229782938247303441, mr_one = 1\<rparr>) < uint (15 :: ul)
   \<and> modredcul_redc_semi 5 200 \<lparr>mr_m = 15, mr_invm = 1229782938247303441, mr_one = 1\<rparr> \<le> 200"
  using modredcul_redc_correct [of "\<lparr>mr_m = 15, mr_invm = 1229782938247303441, mr_one = 1\<rparr>" 13 1]
    modredcul_redc_correct [of "\<lparr>mr_m = 15, mr_invm = 1229782938247303441, mr_one = 1\<rparr>" 200 5]
  by (simp add: redc_ok_def)

text \<open>the documented precondition \<open>phigh < m\<close> of \<open>modredcul_redc\<close> is not enough. For the modulus
  \<open>2 ^ 64 - 1\<close>, \<open>phigh = m - 1\<close> and \<open>plow = 2\<close>, the sum \<open>phigh + 1 = m\<close> is the first operand of the
  assembly addition, which needs it below \<open>m\<close>, and the result 0 is in the wrong class; the C
  expression of the addition gives the right class.\<close>

theorem modredcul_redc_precondition_too_weak:
  "\<exists>M plow phigh. redc_ok M \<and> phigh < mr_m M
     \<and> (uint (modredcul_redc plow phigh M) * B64) mod uint (mr_m M) \<noteq> val2 plow phigh mod uint (mr_m M)
     \<and> modredcul_add_c (phigh + 1) (snd (x86_mul (plow * mr_invm M) (mr_m M))) M = 1"
  by (rule exI [of _ "\<lparr>mr_m = - 1, mr_invm = 1, mr_one = 1\<rparr>"], rule exI [of _ 2], rule exI [of _ "- 2"])
    (simp add: redc_ok_def modredcul_redc_def modredcul_add_def modredcul_add_c_def
      ularith_mul_ul_ul_2ul_def x86_mul_def x86_add_def val2_def Let_def)

text \<open>Exact division. For an odd divisor of \<open>n\<close>, \<open>modredcul_intdivexact\<close> (one multiplication by
  the inverse modulo \<open>2 ^ 64\<close>) returns the quotient; an even divisor fails its assertion.\<close>

theorem modredcul_intdivexact_correct:
  assumes "uint d dvd uint n"
  shows "modredcul_intdivexact n d = (if odd d then Some (n div d) else None)"
  using intdivexact_val [OF _ assms]
  by (auto simp: modredcul_intdivexact_def ularith_invmod_def even_iff_mod_2_eq_zero)

theorem modredcul_intdivexact_correct_witness:
  "modredcul_intdivexact 18446744073709551615 3 = Some 6148914691236517205"
  using modredcul_intdivexact_correct [of 3 18446744073709551615] by simp

end
