(* ===== verification/Number_facts.thy ===== *)
theory Number_facts imports Main begin

text \<open>
  The number theory behind the primality test: Fermat's little theorem, the square roots of 1
  modulo a prime and the quadratic character of 2, each from the elementary product argument.
\<close>

definition prime_int :: "int \<Rightarrow> bool" where
  "prime_int p \<longleftrightarrow> 1 < p \<and> (\<forall>d > 0. d dvd p \<longrightarrow> d = 1 \<or> d = p)"

lemma prime_coprime:
  assumes "prime_int p" "\<not> p dvd a"
  shows "coprime p a"
proof -
  have "gcd p a dvd p" "0 < gcd p a" using assms(1) by (auto simp: prime_int_def)
  then have "gcd p a = 1 \<or> gcd p a = p" using assms(1) by (auto simp: prime_int_def)
  then show ?thesis using assms(2) by (metis coprime_iff_gcd_eq_1 gcd_dvd2)
qed

lemma prime_dvd_mult:
  assumes "prime_int p" "p dvd a * b"
  shows "p dvd a \<or> p dvd b"
  using prime_coprime [OF assms(1), of a] assms(2) coprime_dvd_mult_right_iff [of p a b] by blast

lemma prime_not_dvd_prod:
  assumes p: "prime_int p" and "finite S" "\<And>i. i \<in> S \<Longrightarrow> \<not> p dvd f i"
  shows "\<not> p dvd (\<Prod>i\<in>S. f i)"
  using assms(2,3)
proof (induction S rule: finite_induct)
  case empty
  then show ?case using p by (auto simp: prime_int_def zdvd1_eq)
next
  case (insert x S)
  then show ?case using prime_dvd_mult [OF p] by auto
qed

lemma prime_cancel_mod:
  assumes "prime_int p" "\<not> p dvd c" "(a * c) mod p = (b * c) mod p"
  shows "a mod p = b mod p"
proof -
  have "p dvd (a - b) * c" using assms(3) by (simp add: mod_eq_dvd_iff left_diff_distrib)
  with prime_dvd_mult [OF assms(1) this] assms(2) show ?thesis by (simp add: mod_eq_dvd_iff)
qed

lemma small_not_dvd: "0 < i \<Longrightarrow> i < p \<Longrightarrow> \<not> p dvd (i :: int)"
  by (simp add: zdvd_not_zless)

lemma prod_cong_mod:
  "finite S \<Longrightarrow> (\<And>i. i \<in> S \<Longrightarrow> f i mod p = g i mod (p :: int)) \<Longrightarrow> prod f S mod p = prod g S mod p"
  by (induction S rule: finite_induct) (auto intro: mod_mult_cong)

lemma fermat_little:
  assumes p: "prime_int p" and a: "\<not> p dvd a"
  shows "a ^ nat (p - 1) mod p = 1"
proof -
  have p1: "1 < p" using p by (simp add: prime_int_def)
  let ?S = "{1..<p}" and ?f = "\<lambda>i. (a * i) mod p"
  have inj: "inj_on ?f ?S"
  proof (rule inj_onI)
    fix i j assume ij: "i \<in> ?S" "j \<in> ?S" "?f i = ?f j"
    then have "i mod p = j mod p" using prime_cancel_mod [OF p a, of i j] by (simp add: mult.commute)
    then show "i = j" using ij by simp
  qed
  have sub: "?f ` ?S \<subseteq> ?S"
  proof clarify
    fix i assume i: "i \<in> ?S"
    then have "\<not> p dvd a * i" using prime_dvd_mult [OF p] a small_not_dvd [of i p] by auto
    then have "?f i \<noteq> 0" by (simp add: mod_eq_0_iff_dvd)
    moreover have "0 \<le> ?f i" "?f i < p" using p1 by simp_all
    ultimately show "?f i \<in> ?S" by auto
  qed
  have "?f ` ?S = ?S" by (rule card_subset_eq [OF _ sub]) (simp_all add: card_image [OF inj])
  then have "(\<Prod>i\<in>?S. i) = (\<Prod>i\<in>?S. ?f i)"
    using prod.reindex [OF inj, of "\<lambda>i. i"] by simp
  also have "\<dots> mod p = (\<Prod>i\<in>?S. a * i) mod p" by (rule prod_cong_mod) simp_all
  also have "(\<Prod>i\<in>?S. a * i) = a ^ nat (p - 1) * (\<Prod>i\<in>?S. i)" by (simp add: prod.distrib)
  finally have "(1 * (\<Prod>i\<in>?S. i)) mod p = (a ^ nat (p - 1) * (\<Prod>i\<in>?S. i)) mod p" by simp
  moreover have "\<not> p dvd (\<Prod>i\<in>?S. i)"
    by (rule prime_not_dvd_prod [OF p]) (auto simp: small_not_dvd)
  ultimately show ?thesis using prime_cancel_mod [OF p] p1 by (metis mod_pos_pos_trivial zero_le_one)
qed

lemma prime_sqrt_one:
  assumes "prime_int p" "(x * x) mod p = 1 mod p"
  shows "x mod p = 1 mod p \<or> x mod p = (- 1) mod p"
proof -
  have "p dvd (x - 1) * (x + 1)" using assms(2) by (simp add: mod_eq_dvd_iff algebra_simps)
  with prime_dvd_mult [OF assms(1) this] show ?thesis by (auto simp: mod_eq_dvd_iff)
qed

text \<open>If \<open>x\<close> has order dividing \<open>2 ^ s\<close> modulo a prime, the sequence of its repeated squares
  starts with 1 or meets -1 before step \<open>s\<close>.\<close>

lemma prime_strong:
  assumes p: "prime_int p" and "x ^ (2 ^ s) mod p = 1 mod p"
  shows "x mod p = 1 mod p \<or> (\<exists>i < s. x ^ (2 ^ i) mod p = (- 1) mod p)"
  using assms(2)
proof (induction s)
  case (Suc s)
  then have "(x ^ (2 ^ s) * x ^ (2 ^ s)) mod p = 1 mod p" by (simp add: power_add [symmetric] mult_2)
  from prime_sqrt_one [OF p this] Suc.IH show ?case using less_Suc_eq by auto
qed simp

text \<open>The quadratic character of 2 (second supplementary law), for the classes the code uses.\<close>

lemma two_pow_half:
  assumes p: "prime_int p" and h: "p = 2 * h + 1"
  shows "2 ^ nat h mod p = (- 1) ^ nat (h - h div 2) mod p"
proof -
  have p1: "1 < p" "0 < h" using p h by (auto simp: prime_int_def)
  let ?S = "{1..h}" and ?f = "\<lambda>i. if 2 * i \<le> h then 2 * i else p - 2 * i"
  let ?s = "\<lambda>i. if 2 * i \<le> h then 1 else (- 1 :: int)"
  have inj: "inj_on ?f ?S"
  proof (rule inj_onI)
    fix i j assume "i \<in> ?S" "j \<in> ?S" "?f i = ?f j"
    then show "i = j" using h by (auto split: if_splits) presburger+
  qed
  have sub: "?f ` ?S \<subseteq> ?S" using h by auto
  have "?f ` ?S = ?S" by (rule card_subset_eq [OF _ sub card_image [OF inj]]) simp
  then have f: "(\<Prod>i\<in>?S. i) = (\<Prod>i\<in>?S. ?f i)" using prod.reindex [OF inj, of "\<lambda>i. i"] by simp
  have sgn: "(\<Prod>i\<in>?S. ?s i) = (- 1) ^ nat (h - h div 2)"
  proof -
    have "?S = {1..h div 2} \<union> {h div 2 + 1..h}" "{1..h div 2} \<inter> {h div 2 + 1..h} = {}" using p1 by auto
    then have "(\<Prod>i\<in>?S. ?s i) = (\<Prod>i\<in>{1..h div 2}. ?s i) * (\<Prod>i\<in>{h div 2 + 1..h}. ?s i)"
      by (simp add: prod.union_disjoint)
    also have "(\<Prod>i\<in>{1..h div 2}. ?s i) = 1" by (intro prod.neutral) auto
    also have "(\<Prod>i\<in>{h div 2 + 1..h}. ?s i) = (\<Prod>i\<in>{h div 2 + 1..h}. - 1)" by (intro prod.cong) auto
    finally show ?thesis by simp
  qed
  have "(\<Prod>i\<in>?S. 2 * i) mod p = (\<Prod>i\<in>?S. ?s i * ?f i) mod p"
    by (rule prod_cong_mod) (auto simp: mod_eq_dvd_iff)
  then have "(2 ^ nat h * (\<Prod>i\<in>?S. i)) mod p = ((\<Prod>i\<in>?S. ?s i) * (\<Prod>i\<in>?S. i)) mod p"
    using f by (simp add: prod.distrib)
  moreover have "\<not> p dvd (\<Prod>i\<in>?S. i)"
    by (rule prime_not_dvd_prod [OF p]) (use h in \<open>auto simp: small_not_dvd\<close>)
  ultimately show ?thesis using prime_cancel_mod [OF p] sgn by metis
qed

lemma two_residue:
  assumes p: "prime_int p" and "p mod 8 = 1 \<or> p mod 8 = 7"
  shows "2 ^ nat ((p - 1) div 2) mod p = 1 mod p"
proof -
  define h where "h = (p - 1) div 2"
  have h: "p = 2 * h + 1" using assms(2) unfolding h_def by presburger
  have "0 \<le> h" using p h by (auto simp: prime_int_def)
  moreover have "even (h - h div 2)" using h assms(2) by presburger
  ultimately have "even (nat (h - h div 2))" by (simp add: even_nat_iff)
  then show ?thesis using two_pow_half [OF p h] by (simp add: h_def)
qed

end
