(* ===== verification/Mod_common.thy ===== *)
theory Mod_common
  imports Modredc_ul Number_facts
begin

text \<open>
  Model of \<open>src/utils/mod_ul_common.c\<close>, the functions that \<open>mod_ul.c\<close> and \<open>modredc_ul.c\<close> both
  include: small exact divisions, gcd, exponentiation (word and multi-word exponents), Chebyshev
  (Lucas) sequences, strong probable-prime tests, the primality test and the Jacobi symbol.

  The C file calls \<open>mod_add\<close>, \<open>mod_mul\<close> and so on, which the \<open>*_default.h\<close> headers rename to the
  operations of one representation.  The record \<open>mod_ops\<close> below is that renaming: each definition
  takes it as its first argument.  A C function that writes a result and returns a flag is a
  function of the old result that returns the flag and the new one.  A while loop over a mask is a
  terminating recursion; a loop that ends only for some inputs is a \<open>partial_function\<close>, and
  \<^const>\<open>None\<close> is a failed assertion, a trap or a loop that does not end.

  The locale \<open>residue_ops\<close> states what the common code relies on: the stored word of a class \<open>x\<close> is
  \<open>scale * x mod n\<close> for a unit \<open>scale\<close>, and the operations are the ring operations on classes.  Both
  representations are interpretations of it, so every lemma is proved once.
\<close>

section \<open>The operations the common code is compiled against\<close>

record 'm mod_ops =
  op_getmod_ul :: "'m \<Rightarrow> ul"
  op_set1 :: "'m \<Rightarrow> ul"
  op_add :: "ul \<Rightarrow> ul \<Rightarrow> 'm \<Rightarrow> ul"
  op_sub :: "ul \<Rightarrow> ul \<Rightarrow> 'm \<Rightarrow> ul"
  op_neg :: "ul \<Rightarrow> 'm \<Rightarrow> ul"
  op_mul :: "ul \<Rightarrow> ul \<Rightarrow> 'm \<Rightarrow> ul option"
  op_sqr :: "ul \<Rightarrow> 'm \<Rightarrow> ul option"
  op_is1 :: "ul \<Rightarrow> 'm \<Rightarrow> bool"
  op_equal :: "ul \<Rightarrow> ul \<Rightarrow> 'm \<Rightarrow> bool"
  op_get_ul :: "ul \<Rightarrow> 'm \<Rightarrow> ul"
  op_set_ul :: "ul \<Rightarrow> 'm \<Rightarrow> ul option"

definition modul_ops :: "ul mod_ops" where
  "modul_ops =
     \<lparr>op_getmod_ul = modul_getmod_ul, op_set1 = modul_set1, op_add = modul_add,
      op_sub = modul_sub, op_neg = modul_neg, op_mul = modul_mul, op_sqr = modul_sqr,
      op_is1 = modul_is1, op_equal = modul_equal, op_get_ul = modul_get_ul,
      op_set_ul = modul_set_ul\<rparr>"

definition modredcul_ops :: "modulusredcul mod_ops" where
  "modredcul_ops =
     \<lparr>op_getmod_ul = modredcul_getmod_ul, op_set1 = modredcul_set1, op_add = modredcul_add,
      op_sub = modredcul_sub, op_neg = modredcul_neg,
      op_mul = (\<lambda>a b m. Some (modredcul_mul a b m)), op_sqr = (\<lambda>a m. Some (modredcul_sqr a m)),
      op_is1 = modredcul_is1, op_equal = modredcul_equal, op_get_ul = modredcul_get_ul,
      op_set_ul = modredcul_set_ul\<rparr>"

section \<open>Exact division by small primes\<close>

definition mod_div3 :: "'m mod_ops \<Rightarrow> ul \<Rightarrow> ul \<Rightarrow> 'm \<Rightarrow> bool \<times> ul" where
  "mod_div3 ops r a m =
     (let a3 = a mod 3; ml = op_getmod_ul ops m; m3 = ml mod 3 in
      if m3 = 0 then (False, r)
      else
        let t = a;
            t = (if a3 \<noteq> 0 then (if a3 + m3 = 3 then t + ml else t + 2 * ml) else t);
            t = t * 0xaaaaaaaaaaaaaaab
        in (True, t))"

definition mod_div5 :: "'m mod_ops \<Rightarrow> ul \<Rightarrow> ul \<Rightarrow> 'm \<Rightarrow> bool \<times> ul" where
  "mod_div5 ops r a m =
     (let a5 = a mod 5; inv5 = [0, 4, 2, 3, 1]; ml = op_getmod_ul ops m; m5 = ml mod 5 in
      if m5 = 0 then (False, r)
      else
        let t = a;
            t = (if a5 \<noteq> 0 then let k = (a5 * inv5 ! unat m5) mod 5 in a + k * ml else t);
            t = t * 0xcccccccccccccccd
        in (True, t))"

definition mod_div7 :: "'m mod_ops \<Rightarrow> ul \<Rightarrow> ul \<Rightarrow> 'm \<Rightarrow> bool \<times> ul" where
  "mod_div7 ops r a m =
     (let a7 = a mod 7; inv7 = [0, 6, 3, 2, 5, 4, 1]; ml = op_getmod_ul ops m; m7 = ml mod 7 in
      if m7 = 0 then (False, r)
      else
        let t = a;
            t = (if a7 \<noteq> 0 then let k = (a7 * inv7 ! unat m7) mod 7 in a + k * ml else t);
            t = t * 0x6db6db6db6db6db7
        in (True, t))"

definition mod_div11 :: "'m mod_ops \<Rightarrow> ul \<Rightarrow> ul \<Rightarrow> 'm \<Rightarrow> bool \<times> ul" where
  "mod_div11 ops r a m =
     (let a11 = a mod 11; inv11 = [0, 10, 5, 7, 8, 2, 9, 3, 4, 6, 1];
          ml = op_getmod_ul ops m; m11 = ml mod 11 in
      if m11 = 0 then (False, r)
      else
        let t = a;
            t = (if a11 \<noteq> 0 then let k = (a11 * inv11 ! unat m11) mod 11 in a + k * ml else t);
            t = t * 0x2e8ba2e8ba2e8ba3
        in (True, t))"

definition mod_div13 :: "'m mod_ops \<Rightarrow> ul \<Rightarrow> ul \<Rightarrow> 'm \<Rightarrow> bool \<times> ul" where
  "mod_div13 ops r a m =
     (let a13 = a mod 13; inv13 = [0, 12, 6, 4, 3, 5, 2, 11, 8, 10, 9, 7, 1];
          ml = op_getmod_ul ops m; m13 = ml mod 13 in
      if m13 = 0 then (False, r)
      else
        let t = a;
            t = (if a13 \<noteq> 0 then let k = (a13 * inv13 ! unat m13) mod 13 in a + k * ml else t);
            t = t * 0x4ec4ec4ec4ec4ec5
        in (True, t))"

section \<open>Greatest common divisor\<close>

function mod_gcd_loop :: "ul \<Rightarrow> ul \<Rightarrow> ul" where
  "mod_gcd_loop a b = (if a > 0 then let t = b mod a; b = a; a = t in mod_gcd_loop a b else b)"
  by auto
termination
  by (relation "measure (\<lambda>(a, b). unat a)")
    (auto simp: word_gt_0 unat_mod_distrib unat_gt_0)

declare mod_gcd_loop.simps [simp del]

definition mod_gcd :: "'m mod_ops \<Rightarrow> ul \<Rightarrow> 'm \<Rightarrow> ul option" where
  "mod_gcd ops r m =
     (let a = r; b = op_getmod_ul ops m in
      if b > 0 then
        let a = (if a \<ge> b then a mod b else a) in Some (mod_gcd_loop a b)
      else None)"

section \<open>Exponentiation\<close>

text \<open>The highest set bit of \<open>e\<close>: \<open>(1UL << (LONG_BIT - 1)) >> ularith_clz (e)\<close>.\<close>

definition top_mask :: "ul \<Rightarrow> ul option" where
  "top_mask e = do { c \<leftarrow> ularith_clz e; Some (drop_bit c (push_bit (LONG_BIT - 1) 1)) }"

function mod_pow_ul_loop :: "'m mod_ops \<Rightarrow> ul \<Rightarrow> ul \<Rightarrow> 'm \<Rightarrow> ul \<Rightarrow> ul \<Rightarrow> ul \<Rightarrow> ul option" where
  "mod_pow_ul_loop ops b e m t e1 msk =
     (if msk > 1 then
        do { t \<leftarrow> op_sqr ops t m;
             let msk = drop_bit 1 msk;
             if e AND msk \<noteq> 0
             then do { t \<leftarrow> op_mul ops t b m; mod_pow_ul_loop ops b e m t (e1 - msk) msk }
             else mod_pow_ul_loop ops b e m t e1 msk }
      else if e1 = 0 \<and> msk = 1 then Some t else None)"
  by auto
termination
  by (relation "measure (\<lambda>(ops, b, e, m, t, e1, msk). unat msk)")
    (auto simp: drop_bit_Suc unat_div_distrib word_less_nat_alt)

declare mod_pow_ul_loop.simps [simp del]

definition mod_pow_ul :: "'m mod_ops \<Rightarrow> ul \<Rightarrow> ul \<Rightarrow> 'm \<Rightarrow> ul option" where
  "mod_pow_ul ops b e m =
     (if e = 0 then Some (op_set1 ops m)
      else do { msk \<leftarrow> top_mask e; mod_pow_ul_loop ops b e m b (e - msk) msk })"

function mod_2pow_ul_loop :: "'m mod_ops \<Rightarrow> ul \<Rightarrow> 'm \<Rightarrow> ul \<Rightarrow> ul \<Rightarrow> ul option" where
  "mod_2pow_ul_loop ops e m t msk =
     (if msk > 0 then
        do { t \<leftarrow> op_sqr ops t m;
             let u = op_add ops t t m;
             let t = (if e AND msk \<noteq> 0 then u else t);
             mod_2pow_ul_loop ops e m t (drop_bit 1 msk) }
      else Some t)"
  by auto
termination
  by (relation "measure (\<lambda>(ops, e, m, t, msk). unat msk)")
    (auto simp: drop_bit_Suc unat_div_distrib word_less_nat_alt)

declare mod_2pow_ul_loop.simps [simp del]

definition mod_2pow_ul :: "'m mod_ops \<Rightarrow> ul \<Rightarrow> 'm \<Rightarrow> ul option" where
  "mod_2pow_ul ops e m =
     (if e = 0 then Some (op_set1 ops m)
      else
        do { msk \<leftarrow> top_mask e;
             let t = op_set1 ops m;
             let t = op_add ops t t m;
             mod_2pow_ul_loop ops e m t (drop_bit 1 msk) })"

function mod_3pow_ul_loop :: "'m mod_ops \<Rightarrow> ul \<Rightarrow> 'm \<Rightarrow> ul \<Rightarrow> ul \<Rightarrow> ul option" where
  "mod_3pow_ul_loop ops e m t msk =
     (if msk > 0 then
        do { t \<leftarrow> op_sqr ops t m;
             let u = op_add ops t t m;
             let u = op_add ops u t m;
             let t = (if e AND msk \<noteq> 0 then u else t);
             mod_3pow_ul_loop ops e m t (drop_bit 1 msk) }
      else Some t)"
  by auto
termination
  by (relation "measure (\<lambda>(ops, e, m, t, msk). unat msk)")
    (auto simp: drop_bit_Suc unat_div_distrib word_less_nat_alt)

declare mod_3pow_ul_loop.simps [simp del]

definition mod_3pow_ul :: "'m mod_ops \<Rightarrow> ul \<Rightarrow> 'm \<Rightarrow> ul option" where
  "mod_3pow_ul ops e m =
     (if e = 0 then Some (op_set1 ops m)
      else
        do { msk \<leftarrow> top_mask e;
             let u = op_set1 ops m;
             let t = op_add ops u u m;
             let t = op_add ops t u m;
             mod_3pow_ul_loop ops e m t (drop_bit 1 msk) })"

text \<open>
  Multi-word exponents: \<open>e\<close> is the list of words \<open>e[0], \<dots>, e[e_nrwords - 1]\<close>.  The inner while
  loop runs over the bits of one word, the for loop over the words from the top; its counter \<open>Suc i\<close>
  is the number of words left.
\<close>

function mod_pow_mp_loop :: "'m mod_ops \<Rightarrow> ul \<Rightarrow> ul \<Rightarrow> 'm \<Rightarrow> ul \<Rightarrow> ul \<Rightarrow> ul option" where
  "mod_pow_mp_loop ops b ei m t msk =
     (if msk > 0 then
        do { t \<leftarrow> op_sqr ops t m;
             t \<leftarrow> (if ei AND msk \<noteq> 0 then op_mul ops t b m else Some t);
             mod_pow_mp_loop ops b ei m t (drop_bit 1 msk) }
      else Some t)"
  by auto
termination
  by (relation "measure (\<lambda>(ops, b, e, m, t, msk). unat msk)")
    (auto simp: drop_bit_Suc unat_div_distrib word_less_nat_alt)

declare mod_pow_mp_loop.simps [simp del]

definition high_mask :: ul where
  "high_mask = NOT 0 - drop_bit 1 (NOT 0)"

fun mod_pow_mp_for :: "'m mod_ops \<Rightarrow> ul \<Rightarrow> ul list \<Rightarrow> 'm \<Rightarrow> nat \<Rightarrow> ul \<Rightarrow> ul \<Rightarrow> ul option" where
  "mod_pow_mp_for ops b e m 0 msk t = Some t"
| "mod_pow_mp_for ops b e m (Suc i) msk t =
     do { t \<leftarrow> mod_pow_mp_loop ops b (e ! i) m t msk;
          mod_pow_mp_for ops b e m i high_mask t }"

definition mod_pow_mp :: "'m mod_ops \<Rightarrow> ul \<Rightarrow> ul list \<Rightarrow> 'm \<Rightarrow> ul option" where
  "mod_pow_mp ops b e m =
     (let i = length e - 1 in
      if length e = 0 \<or> e ! i = 0 then Some (op_set1 ops m)
      else
        do { msk \<leftarrow> top_mask (e ! i);
             mod_pow_mp_for ops b e m (Suc i) (drop_bit 1 msk) b })"

fun mod_2pow_mp_for :: "'m mod_ops \<Rightarrow> ul list \<Rightarrow> 'm \<Rightarrow> nat \<Rightarrow> ul \<Rightarrow> ul \<Rightarrow> ul option" where
  "mod_2pow_mp_for ops e m 0 msk t = Some t"
| "mod_2pow_mp_for ops e m (Suc i) msk t =
     do { t \<leftarrow> mod_2pow_ul_loop ops (e ! i) m t msk;
          mod_2pow_mp_for ops e m i high_mask t }"

definition mod_2pow_mp :: "'m mod_ops \<Rightarrow> ul list \<Rightarrow> 'm \<Rightarrow> ul option" where
  "mod_2pow_mp ops e m =
     (let i = length e - 1 in
      if length e \<noteq> 0 \<and> e ! i \<noteq> 0 then
        do { msk \<leftarrow> top_mask (e ! i);
             let t = op_set1 ops m;
             let t = op_add ops t t m;
             mod_2pow_mp_for ops e m (Suc i) (drop_bit 1 msk) t }
      else None)"

section \<open>Chebyshev polynomials\<close>

function mod_V_loop :: "'m mod_ops \<Rightarrow> ul \<Rightarrow> ul \<Rightarrow> ul \<Rightarrow> 'm \<Rightarrow> ul \<Rightarrow> ul \<Rightarrow> ul \<Rightarrow> (ul \<times> ul) option" where
  "mod_V_loop ops b two ei m t t1 msk =
     (if msk > 0 then
        (if ei AND msk \<noteq> 0 then
           do { t \<leftarrow> op_mul ops t t1 m;
                let t = op_sub ops t b m;
                t1 \<leftarrow> op_sqr ops t1 m;
                let t1 = op_sub ops t1 two m;
                mod_V_loop ops b two ei m t t1 (drop_bit 1 msk) }
         else
           do { t1 \<leftarrow> op_mul ops t1 t m;
                let t1 = op_sub ops t1 b m;
                t \<leftarrow> op_sqr ops t m;
                let t = op_sub ops t two m;
                mod_V_loop ops b two ei m t t1 (drop_bit 1 msk) })
      else Some (t, t1))"
  by auto
termination
  by (relation "measure (\<lambda>(ops, b, two, e, m, t, t1, msk). unat msk)")
    (auto simp: drop_bit_Suc unat_div_distrib word_less_nat_alt)

declare mod_V_loop.simps [simp del]

definition mod_V_ul :: "'m mod_ops \<Rightarrow> ul \<Rightarrow> ul \<Rightarrow> 'm \<Rightarrow> ul option" where
  "mod_V_ul ops b e m =
     (if e = 0 then
        let r = op_set1 ops m in Some (op_add ops r r m)
      else
        do { msk \<leftarrow> top_mask e;
             let two = op_set1 ops m;
             let two = op_add ops two two m;
             t1 \<leftarrow> op_sqr ops b m;
             let t1 = op_sub ops t1 two m;
             (t, t1) \<leftarrow> mod_V_loop ops b two e m b t1 (drop_bit 1 msk);
             Some t })"

fun mod_V_mp_for ::
  "'m mod_ops \<Rightarrow> ul \<Rightarrow> ul \<Rightarrow> ul list \<Rightarrow> 'm \<Rightarrow> nat \<Rightarrow> ul \<Rightarrow> ul \<Rightarrow> ul \<Rightarrow> (ul \<times> ul) option" where
  "mod_V_mp_for ops b two e m 0 msk t t1 = Some (t, t1)"
| "mod_V_mp_for ops b two e m (Suc i) msk t t1 =
     do { (t, t1) \<leftarrow> mod_V_loop ops b two (e ! i) m t t1 msk;
          mod_V_mp_for ops b two e m i high_mask t t1 }"

definition mod_V_mp :: "'m mod_ops \<Rightarrow> ul \<Rightarrow> ul list \<Rightarrow> 'm \<Rightarrow> ul option" where
  "mod_V_mp ops b e m =
     (let i = length e - 1 in
      if length e = 0 \<or> e ! i = 0 then
        let r = op_set1 ops m in Some (op_add ops r r m)
      else
        do { msk \<leftarrow> top_mask (e ! i);
             let two = op_set1 ops m;
             let two = op_add ops two two m;
             t1 \<leftarrow> op_sqr ops b m;
             let t1 = op_sub ops t1 two m;
             (t, t1) \<leftarrow> mod_V_mp_for ops b two e m (Suc i) (drop_bit 1 msk) b t1;
             Some t })"

section \<open>Strong probable primes\<close>

function find_minus1_loop :: "'m mod_ops \<Rightarrow> ul \<Rightarrow> ul \<Rightarrow> nat \<Rightarrow> nat \<Rightarrow> 'm \<Rightarrow> nat option" where
  "find_minus1_loop ops r1 minusone i po2 m =
     (if i < po2 then
        do { r1 \<leftarrow> op_sqr ops r1 m;
             if op_equal ops r1 minusone m then Some i
             else find_minus1_loop ops r1 minusone (i + 1) po2 m }
      else Some i)"
  by auto
termination
  by (relation "measure (\<lambda>(ops, r1, minusone, i, po2, m). po2 - i)") auto

declare find_minus1_loop.simps [simp del]

definition find_minus1 :: "'m mod_ops \<Rightarrow> ul \<Rightarrow> ul \<Rightarrow> nat \<Rightarrow> 'm \<Rightarrow> bool option" where
  "find_minus1 ops r1 minusone po2 m =
     (if op_is1 ops r1 m \<or> op_equal ops r1 minusone m then Some True
      else do { i \<leftarrow> find_minus1_loop ops r1 minusone 1 po2 m; Some (i < po2) })"

partial_function (option) sprp_twos :: "ul \<Rightarrow> nat \<Rightarrow> (ul \<times> nat) option" where
  "sprp_twos mm1 po2 =
     (if mm1 mod 2 = 0 then sprp_twos (drop_bit 1 mm1) (po2 + 1) else Some (mm1, po2))"

definition mod_sprp :: "'m mod_ops \<Rightarrow> ul \<Rightarrow> 'm \<Rightarrow> bool option" where
  "mod_sprp ops b m =
     (let mm1 = op_getmod_ul ops m in
      if mm1 \<le> 3 then Some (mm1 \<ge> 2)
      else if mm1 mod 2 = 0 then Some False
      else
        do { (mm1, po2) \<leftarrow> sprp_twos (drop_bit 1 (mm1 - 1)) 1;
             let minusone = op_neg ops (op_set1 ops m) m;
             r1 \<leftarrow> mod_pow_ul ops b mm1 m;
             find_minus1 ops r1 minusone po2 m })"

definition mod_sprp2 :: "'m mod_ops \<Rightarrow> 'm \<Rightarrow> bool option" where
  "mod_sprp2 ops m =
     (let mm1 = op_getmod_ul ops m in
      if mm1 \<le> 3 then Some (mm1 \<ge> 2)
      else if mm1 mod 2 = 0 then Some False
      else
        do { let po2 = (if mm1 mod 8 = 1 \<or> mm1 mod 8 = 7 then 0 else 1);
             (mm1, po2) \<leftarrow> sprp_twos (drop_bit 1 (mm1 - 1)) po2;
             let minusone = op_neg ops (op_set1 ops m) m;
             r \<leftarrow> mod_2pow_ul ops mm1 m;
             find_minus1 ops r minusone po2 m })"

text \<open>
  \<open>mod_isprime\<close>: each \<open>goto end\<close> is a return of the current \<open>r\<close>.  The two halves of the function after
  the base 2 test are the branch for \<open>n % 3 == 1\<close> (bases 7, 61, 5) and the other one (bases 3, 5),
  with the lists of pseudoprimes they exclude.
\<close>

definition isprime_base :: "'m mod_ops \<Rightarrow> ul \<Rightarrow> ul \<Rightarrow> nat \<Rightarrow> ul \<Rightarrow> 'm \<Rightarrow> bool option" where
  "isprime_base ops b mm1 po2 minusone m =
     do { r1 \<leftarrow> mod_pow_ul ops b mm1 m; find_minus1 ops r1 minusone po2 m }"

definition mod_isprime_1mod3 :: "'m mod_ops \<Rightarrow> ul \<Rightarrow> ul \<Rightarrow> nat \<Rightarrow> ul \<Rightarrow> 'm \<Rightarrow> bool option" where
  "mod_isprime_1mod3 ops n mm1 po2 minusone m =
     do { let b = op_set1 ops m;
          let b = op_add ops b b m;
          let b = op_add ops b b m;
          let b = op_add ops b b m;
          let b = op_add ops b minusone m;
          f \<leftarrow> isprime_base ops b mm1 po2 minusone m;
          if \<not> f then Some False
          else if n < 2269093 then Some (n \<noteq> 314821)
          else
            do { let b = op_add ops b b m;
                 let b = op_sub ops b minusone m;
                 let b = op_add ops b b m;
                 let b = op_add ops b b m;
                 let b = op_sub ops b minusone m;
                 f \<leftarrow> isprime_base ops b mm1 po2 minusone m;
                 if \<not> f then Some False
                 else if n \<noteq> 4759123141 \<and> n \<noteq> 8411807377 \<and> n < 11207066041 then Some True
                 else
                   do { let b = op_set1 ops m;
                        let b = op_add ops b b m;
                        let b = op_add ops b b m;
                        let b = op_sub ops b minusone m;
                        f \<leftarrow> isprime_base ops b mm1 po2 minusone m;
                        if \<not> f then Some False
                        else Some (n \<noteq> 30926647201 \<and> n \<noteq> 45821738881 \<and>
                                   n \<noteq> 74359744201 \<and> n \<noteq> 90528271681 \<and>
                                   n \<noteq> 110330267041 \<and> n \<noteq> 373303331521 \<and>
                                   n \<noteq> 440478111067 \<and> n \<noteq> 1436309367751 \<and>
                                   n \<noteq> 1437328758421 \<and> n \<noteq> 1858903385041 \<and>
                                   n \<noteq> 4897239482521 \<and> n \<noteq> 5026103290981 \<and>
                                   n \<noteq> 5219055617887 \<and> n \<noteq> 5660137043641 \<and>
                                   n \<noteq> 6385803726241) } } }"

definition mod_isprime_02mod3 :: "'m mod_ops \<Rightarrow> ul \<Rightarrow> ul \<Rightarrow> nat \<Rightarrow> ul \<Rightarrow> 'm \<Rightarrow> bool option" where
  "mod_isprime_02mod3 ops n mm1 po2 minusone m =
     do { r1 \<leftarrow> mod_3pow_ul ops mm1 m;
          f \<leftarrow> find_minus1 ops r1 minusone po2 m;
          if \<not> f then Some False
          else if n < 102690677 \<and> n \<noteq> 5173601 \<and> n \<noteq> 16070429 \<and> n \<noteq> 54029741 then Some True
          else
            do { let b = op_set1 ops m;
                 let b = op_add ops b b m;
                 let b = op_add ops b b m;
                 let b = op_sub ops b minusone m;
                 f \<leftarrow> isprime_base ops b mm1 po2 minusone m;
                 if \<not> f then Some False
                 else Some (n \<noteq> 244970876021 \<and> n \<noteq> 405439595861 \<and>
                            n \<noteq> 1566655993781 \<and> n \<noteq> 3857382025841 \<and>
                            n \<noteq> 4074652846961 \<and> n \<noteq> 5783688565841) } }"

definition mod_isprime :: "'m mod_ops \<Rightarrow> 'm \<Rightarrow> bool option" where
  "mod_isprime ops m =
     (let n = op_getmod_ul ops m in
      if n = 1 then Some False
      else if n mod 2 = 0 then Some (n = 2)
      else
        do { let mm1 = n - 1;
             po2 \<leftarrow> ularith_ctz mm1;
             let mm1 = drop_bit po2 mm1;
             let minusone = op_neg ops (op_set1 ops m) m;
             r1 \<leftarrow> mod_2pow_ul ops mm1 m;
             f \<leftarrow> (if n mod 8 = 7 then Some (op_is1 ops r1 m)
                  else find_minus1 ops r1 minusone (po2 - (if n mod 8 = 1 then 1 else 0)) m);
             if \<not> f then Some False
             else if n < 2047 then Some True
             else if n mod 3 = 1 then mod_isprime_1mod3 ops n mm1 po2 minusone m
             else mod_isprime_02mod3 ops n mm1 po2 minusone m })"

section \<open>Jacobi symbol\<close>

partial_function (option) jacobi_twos :: "ul \<Rightarrow> ul \<Rightarrow> int \<Rightarrow> (ul \<times> int) option" where
  "jacobi_twos a m t =
     (if a mod 2 = 0
      then jacobi_twos (a div 2) m (if m mod 8 = 3 \<or> m mod 8 = 5 then - t else t)
      else Some (a, t))"

partial_function (option) jacobi_loop :: "ul \<Rightarrow> ul \<Rightarrow> int \<Rightarrow> (ul \<times> int) option" where
  "jacobi_loop a m t =
     (if a \<noteq> 0 then
        Option.bind (jacobi_twos a m t) (\<lambda>(a, t).
          let s = a; a = m; m = s;
              t = (if a mod 4 = 3 \<and> m mod 4 = 3 then - t else t);
              a = a mod m
          in jacobi_loop a m t)
      else Some (m, t))"

definition mod_jacobi :: "'m mod_ops \<Rightarrow> ul \<Rightarrow> 'm \<Rightarrow> int option" where
  "mod_jacobi ops a_par m_par =
     (let a = op_get_ul ops a_par m_par; m = op_getmod_ul ops m_par in
      if a < m then
        do { (m, t) \<leftarrow> jacobi_loop a m 1; Some (if m \<noteq> 1 then 0 else t) }
      else None)"

section \<open>The interface of the two representations\<close>

definition unit_enc :: "int \<Rightarrow> ul \<Rightarrow> int \<Rightarrow> ul" where
  "unit_enc c n x = word_of_int ((c * x) mod uint n)"

lemma uint_unit_enc: "0 < uint n \<Longrightarrow> uint (unit_enc c n x) = (c * x) mod uint n"
  unfolding unit_enc_def
  using uint_ltB64 [of n] pos_mod_bound [of "uint n" "c * x"]
  by (intro uint_of_int_ul) (simp, linarith)

lemma unit_enc_eq_iff:
  assumes "0 < uint n" "coprime c (uint n)"
  shows "unit_enc c n x = unit_enc c n y \<longleftrightarrow> x mod uint n = y mod uint n"
proof -
  have "unit_enc c n x = unit_enc c n y \<longleftrightarrow> uint n dvd c * (x - y)"
    using assms(1) by (simp add: word_uint_eq_iff uint_unit_enc mod_eq_dvd_iff right_diff_distrib)
  also have "\<dots> \<longleftrightarrow> uint n dvd x - y"
    using assms(2) by (simp add: coprime_dvd_mult_right_iff coprime_commute)
  finally show ?thesis by (simp add: mod_eq_dvd_iff)
qed

lemma unit_enc_surj:
  assumes "coprime c (uint n)" "uint r < uint n"
  obtains x where "r = unit_enc c n x"
proof -
  have n: "0 < uint n" using assms(2) uint_gt_m1 [of r] by linarith
  obtain u v where uv: "u * c + v * uint n = 1"
    using assms(1) bezout_int [of c "uint n"] by (auto simp: coprime_iff_gcd_eq_1)
  have "(c * (u * uint r)) mod uint n = (c * (u * uint r) + uint n * (v * uint r)) mod uint n"
    by simp
  also have "c * (u * uint r) + uint n * (v * uint r) = (u * c + v * uint n) * uint r"
    by (simp add: algebra_simps)
  also have "\<dots> mod uint n = uint r" using assms(2) by (simp add: uv)
  finally show thesis by (intro that [of "u * uint r"]) (simp add: word_uint_eq_iff uint_unit_enc [OF n])
qed

locale residue_ops =
  fixes ops :: "'m mod_ops" and ok :: "'m \<Rightarrow> bool" and c :: int
  assumes mod_pos: "ok m \<Longrightarrow> 0 < uint (op_getmod_ul ops m)"
    and unit: "ok m \<Longrightarrow> coprime c (uint (op_getmod_ul ops m))"
    and set1: "ok m \<Longrightarrow> op_set1 ops m = unit_enc c (op_getmod_ul ops m) 1"
    and add: "ok m \<Longrightarrow> op_add ops (unit_enc c (op_getmod_ul ops m) x) (unit_enc c (op_getmod_ul ops m) y) m
        = unit_enc c (op_getmod_ul ops m) (x + y)"
    and sub: "ok m \<Longrightarrow> op_sub ops (unit_enc c (op_getmod_ul ops m) x) (unit_enc c (op_getmod_ul ops m) y) m
        = unit_enc c (op_getmod_ul ops m) (x - y)"
    and neg: "ok m \<Longrightarrow> op_neg ops (unit_enc c (op_getmod_ul ops m) x) m = unit_enc c (op_getmod_ul ops m) (- x)"
    and mul: "ok m \<Longrightarrow> op_mul ops (unit_enc c (op_getmod_ul ops m) x) (unit_enc c (op_getmod_ul ops m) y) m
        = Some (unit_enc c (op_getmod_ul ops m) (x * y))"
    and sqr: "ok m \<Longrightarrow> op_sqr ops (unit_enc c (op_getmod_ul ops m) x) m
        = Some (unit_enc c (op_getmod_ul ops m) (x * x))"
    and is1: "ok m \<Longrightarrow> op_is1 ops r m \<longleftrightarrow> r = unit_enc c (op_getmod_ul ops m) 1"
    and equal: "op_equal ops r s m \<longleftrightarrow> r = s"
    and get_ul: "ok m \<Longrightarrow> uint (op_get_ul ops (unit_enc c (op_getmod_ul ops m) x) m)
        = x mod uint (op_getmod_ul ops m)"
    and set_ul: "ok m \<Longrightarrow> op_set_ul ops a m = Some (unit_enc c (op_getmod_ul ops m) (uint a))"
begin

abbreviation enc :: "'m \<Rightarrow> int \<Rightarrow> ul" where
  "enc m \<equiv> unit_enc c (op_getmod_ul ops m)"

abbreviation md :: "'m \<Rightarrow> int" where
  "md m \<equiv> uint (op_getmod_ul ops m)"

lemmas arith = set1 add sub neg mul sqr

lemma enc_eq_iff: "ok m \<Longrightarrow> enc m x = enc m y \<longleftrightarrow> x mod md m = y mod md m"
  by (simp add: unit_enc_eq_iff mod_pos unit)

lemma enc_less: "ok m \<Longrightarrow> uint (enc m x) < md m"
  by (simp add: uint_unit_enc mod_pos)

end

lemma redc_enc_unit: "redc_enc M = unit_enc B64 (modredcul_getmod_ul M)"
  by (rule ext) (simp add: redc_enc_def unit_enc_def modredcul_getmod_ul_def mult.commute)

interpretation rr: residue_ops modredcul_ops redc_ok B64
proof
  fix M x y r s a assume ok: "redc_ok M"
  note e = redc_enc_unit [symmetric] modredcul_ops_def
  show "0 < uint (op_getmod_ul modredcul_ops M)"
    using redc_ok_m_pos [OF ok] by (simp add: modredcul_ops_def modredcul_getmod_ul_def)
  show "coprime B64 (uint (op_getmod_ul modredcul_ops M))"
    using coprime_B64 [OF redc_ok_odd [OF ok]]
    by (simp only: modredcul_ops_def modredcul_getmod_ul_def mod_ops.simps coprime_commute)
qed (simp_all add: modredcul_ops_def redc_enc_unit [symmetric] modredcul_set1_def mr_one_enc enc_add enc_sub
     enc_neg enc_mul modredcul_sqr_eq modredcul_is1_def modredcul_equal_def modredcul_get_ul_def
     frommontgomery_enc set_ul_enc, simp add: modredcul_getmod_ul_def)

lemma modul_enc_val: "0 < uint m \<Longrightarrow> uint (unit_enc 1 m x) = x mod uint m"
  by (simp add: uint_unit_enc)

interpretation pl: residue_ops modul_ops "\<lambda>m. 1 < uint m" 1
proof
  fix m :: ul and x y r s a assume ok: "1 < uint m"
  note v = uint_unit_enc [of m 1] pos_mod_bound [of "uint m"]
  show "op_set1 modul_ops m = unit_enc 1 (op_getmod_ul modul_ops m) 1"
    using ok by (auto simp: modul_ops_def modul_getmod_ul_def modul_set1_def word_uint_eq_iff modul_enc_val)
  show "op_add modul_ops (unit_enc 1 (op_getmod_ul modul_ops m) x) (unit_enc 1 (op_getmod_ul modul_ops m) y) m
     = unit_enc 1 (op_getmod_ul modul_ops m) (x + y)"
    using ok by (simp add: modul_ops_def modul_getmod_ul_def word_uint_eq_iff modul_add_mod modul_enc_val mod_add_eq)
  show "op_sub modul_ops (unit_enc 1 (op_getmod_ul modul_ops m) x) (unit_enc 1 (op_getmod_ul modul_ops m) y) m
     = unit_enc 1 (op_getmod_ul modul_ops m) (x - y)"
    using ok by (simp add: modul_ops_def modul_getmod_ul_def word_uint_eq_iff modul_sub_mod modul_enc_val mod_diff_eq)
  show "op_neg modul_ops (unit_enc 1 (op_getmod_ul modul_ops m) x) m
     = unit_enc 1 (op_getmod_ul modul_ops m) (- x)"
    using ok by (simp add: modul_ops_def modul_getmod_ul_def word_uint_eq_iff modul_neg_val modul_enc_val mod_minus_eq)
  have mul: "modul_mul (unit_enc 1 m x) (unit_enc 1 m y) m = Some (unit_enc 1 m (x * y))" for x y
  proof -
    obtain r where "modul_mul (unit_enc 1 m x) (unit_enc 1 m y) m = Some r"
      "uint r = (uint (unit_enc 1 m x) * uint (unit_enc 1 m y)) mod uint m"
      by (rule modul_mul_val [of "unit_enc 1 m x" m "unit_enc 1 m y"]) (use ok in \<open>simp_all add: modul_enc_val\<close>)
    then show ?thesis using ok by (simp add: word_uint_eq_iff modul_enc_val mod_mult_eq)
  qed
  then show "op_mul modul_ops (unit_enc 1 (op_getmod_ul modul_ops m) x) (unit_enc 1 (op_getmod_ul modul_ops m) y) m
     = Some (unit_enc 1 (op_getmod_ul modul_ops m) (x * y))"
    by (simp add: modul_ops_def modul_getmod_ul_def)
  have "modul_sqr r m = modul_mul r r m" for r by (simp add: modul_sqr_def modul_mul_def)
  then show "op_sqr modul_ops (unit_enc 1 (op_getmod_ul modul_ops m) x) m
     = Some (unit_enc 1 (op_getmod_ul modul_ops m) (x * x))"
    by (simp add: modul_ops_def modul_getmod_ul_def mul)
  show "op_is1 modul_ops r m \<longleftrightarrow> r = unit_enc 1 (op_getmod_ul modul_ops m) 1"
    using ok by (simp add: modul_ops_def modul_getmod_ul_def word_uint_eq_iff modul_enc_val modul_is1_def)
  show "op_set_ul modul_ops a m = Some (unit_enc 1 (op_getmod_ul modul_ops m) (uint a))"
    using ok by (auto simp: modul_ops_def modul_getmod_ul_def word_uint_eq_iff modul_enc_val modul_set_ul_def ul_mod_def uint_mod_ul)
qed (simp_all add: modul_ops_def modul_getmod_ul_def modul_equal_def modul_get_ul_def modul_enc_val)

section \<open>Masks\<close>

text \<open>The mask that has bits \<open>k - 1, \<dots>, 0\<close> of the exponent still to come: 0 at the end of the loop.\<close>

definition bit_mask :: "nat \<Rightarrow> ul" where
  "bit_mask k = (if k = 0 then 0 else push_bit (k - 1) 1)"

lemma bit_bit_mask: "bit (bit_mask k) i \<longleftrightarrow> 0 < k \<and> i = k - 1 \<and> i < 64"
  using bit_imp_le_length [of "bit_mask k" i]
  by (auto simp: bit_mask_def bit_simps simp del: push_bit_of_1)

lemma bit_mask_0 [simp]: "bit_mask 0 = 0"
  by (simp add: bit_mask_def)

lemma bit_mask_drop: "k < 64 \<Longrightarrow> drop_bit (Suc 0) (bit_mask (Suc k)) = bit_mask k"
  by (rule bit_word_eqI) (auto simp: bit_bit_mask bit_drop_bit_eq)

lemma bit_mask_pos: "k < 64 \<Longrightarrow> 0 < bit_mask (Suc k)"
  unfolding word_gt_0 using bit_bit_mask [of "Suc k" k] by auto

lemma and_bit_mask: "k < 64 \<Longrightarrow> e AND bit_mask (Suc k) \<noteq> 0 \<longleftrightarrow> bit e k"
proof -
  assume k: "k < 64"
  have "e AND bit_mask (Suc k) = (if bit e k then bit_mask (Suc k) else 0)"
    by (rule bit_word_eqI) (auto simp: bit_and_iff bit_bit_mask)
  then show ?thesis using bit_mask_pos [OF k] by auto
qed

lemma unat_bit_mask: "k < 64 \<Longrightarrow> unat (bit_mask (Suc k)) = 2 ^ k"
proof -
  assume k: "k < 64"
  have "unat (push_bit k 1 :: ul) = 2 ^ k mod 2 ^ 64"
    by (simp only: unsigned_push_bit_eq) (simp add: push_bit_eq_mult take_bit_eq_mod)
  also have "\<dots> = 2 ^ k" using k power_strict_increasing [of k 64 "2::nat"] by simp
  finally show ?thesis by (simp add: bit_mask_def)
qed

lemma unat_div_odd: "odd (unat (e :: ul) div 2 ^ k) \<longleftrightarrow> bit e k"
  by (simp add: bit_iff_odd [symmetric] bit_unsigned_iff)

lemma unat_mod_Suc: "unat (e :: ul) mod 2 ^ Suc k = of_bool (bit e k) * 2 ^ k + unat e mod 2 ^ k"
proof -
  have "unat e mod (2 ^ k * 2) = 2 ^ k * (unat e div 2 ^ k mod 2) + unat e mod 2 ^ k"
    by (rule mod_mult2_eq)
  also have "unat e div 2 ^ k mod 2 = of_bool (bit e k)"
    by (simp add: mod_2_eq_odd unat_div_odd)
  finally show ?thesis by (simp add: mult.commute)
qed

lemma unat_mod_64 [simp]: "unat (e :: ul) mod 2 ^ 64 = unat e"
  by (simp add: unsigned_less [of e, simplified])

lemma ul_of_nat_unat: "word_of_nat (unat w) = (w :: ul)"
  by simp

lemma high_mask_eq: "high_mask = bit_mask 64"
  by (simp add: high_mask_def bit_mask_def mask_eq_exp_minus_1)

lemma top_mask_val:
  assumes "e \<noteq> 0"
  obtains k where "k < 64" "top_mask e = Some (bit_mask (Suc k))" "unat e = 2 ^ k + unat e mod 2 ^ k"
    "bit e k"
proof -
  obtain i where i: "builtin_clzl e = Some i" "i < LONG_BIT" "bit e (63 - i)"
    "\<And>j. j < i \<Longrightarrow> \<not> bit e (63 - j)" using assms by (rule builtin_clzl_Some) auto
  define k where "k = 63 - i"
  have k: "k < 64" by (simp add: k_def)
  have hi: "\<not> bit e j" if "k < j" for j
    using i(4) [of "63 - j"] that bit_imp_le_length [of e j] i(2)
    by (cases "j < 64") (auto simp: k_def LONG_BIT_def)
  have k63: "push_bit 63 1 = bit_mask 64" by (simp add: bit_mask_def)
  have "drop_bit i (push_bit 63 1) = bit_mask (Suc k)"
    unfolding k63 using i(2) bit_bit_mask [of 64]
    by (intro bit_word_eqI) (auto simp: bit_bit_mask bit_drop_bit_eq k_def LONG_BIT_def)
  then have t: "top_mask e = Some (bit_mask (Suc k))"
    using i(1) by (simp add: top_mask_def ularith_clz_def LONG_BIT_def)
  have "unat e mod 2 ^ Suc k = unat e"
  proof (rule bit_eqI)
    fix j
    show "bit (unat e mod 2 ^ Suc k) j \<longleftrightarrow> bit (unat e) j"
      unfolding take_bit_eq_mod [symmetric] bit_take_bit_iff bit_unsigned_iff
      using hi [of j] by (auto simp: less_Suc_eq_le not_less [symmetric])
  qed
  then have "unat e = 2 ^ k + unat e mod 2 ^ k"
    using unat_mod_Suc [of e k] i(3) by (simp add: k_def)
  with k t i(3) show thesis by (intro that [of k]) (simp_all add: k_def)
qed

section \<open>Exponentiation\<close>

lemma exp_bits:
  "(j * 2 + of_bool (bit e k)) * 2 ^ k + unat e mod 2 ^ k = j * 2 ^ Suc k + unat (e :: ul) mod 2 ^ Suc k"
  by (simp only: unat_mod_Suc) (simp add: algebra_simps)

lemma pow_double: "(x :: int) ^ j * x ^ j = x ^ (j * 2)" "x ^ (j * 2 + 1) = x ^ (j * 2) * x"
  by (simp_all add: power_mult power2_eq_square power_mult_distrib)

lemmas mask_step = bit_mask_pos bit_mask_drop and_bit_mask

context residue_ops
begin

lemma mod_2pow_ul_loop_val:
  "ok m \<Longrightarrow> k \<le> 64 \<Longrightarrow>
   mod_2pow_ul_loop ops e m (enc m (2 ^ j)) (bit_mask k) = Some (enc m (2 ^ (j * 2 ^ k + unat e mod 2 ^ k)))"
proof (induction k arbitrary: j)
  case 0
  then show ?case by (simp add: mod_2pow_ul_loop.simps [of _ _ _ _ 0])
next
  case (Suc k)
  have "mod_2pow_ul_loop ops e m (enc m (2 ^ j)) (bit_mask (Suc k))
      = mod_2pow_ul_loop ops e m (enc m (2 ^ (j * 2 + of_bool (bit e k)))) (bit_mask k)"
    using Suc.prems
    by (subst mod_2pow_ul_loop.simps) (simp add: arith mask_step pow_double [unfolded One_nat_def] Let_def)
  then show ?case using Suc by (simp only: exp_bits)
qed

lemma mod_3pow_ul_loop_val:
  "ok m \<Longrightarrow> k \<le> 64 \<Longrightarrow>
   mod_3pow_ul_loop ops e m (enc m (3 ^ j)) (bit_mask k) = Some (enc m (3 ^ (j * 2 ^ k + unat e mod 2 ^ k)))"
proof (induction k arbitrary: j)
  case 0
  then show ?case by (simp add: mod_3pow_ul_loop.simps [of _ _ _ _ 0])
next
  case (Suc k)
  have "mod_3pow_ul_loop ops e m (enc m (3 ^ j)) (bit_mask (Suc k))
      = mod_3pow_ul_loop ops e m (enc m (3 ^ (j * 2 + of_bool (bit e k)))) (bit_mask k)"
    using Suc.prems
    by (subst mod_3pow_ul_loop.simps) (simp add: arith mask_step pow_double [unfolded One_nat_def] Let_def)
  then show ?case using Suc by (simp only: exp_bits)
qed

lemma mod_pow_mp_loop_val:
  "ok m \<Longrightarrow> k \<le> 64 \<Longrightarrow>
   mod_pow_mp_loop ops (enc m x) e m (enc m (x ^ j)) (bit_mask k)
     = Some (enc m (x ^ (j * 2 ^ k + unat e mod 2 ^ k)))"
proof (induction k arbitrary: j)
  case 0
  then show ?case by (simp add: mod_pow_mp_loop.simps [of _ _ _ _ _ 0])
next
  case (Suc k)
  have "mod_pow_mp_loop ops (enc m x) e m (enc m (x ^ j)) (bit_mask (Suc k))
      = mod_pow_mp_loop ops (enc m x) e m (enc m (x ^ (j * 2 + of_bool (bit e k)))) (bit_mask k)"
    using Suc.prems
    by (subst mod_pow_mp_loop.simps) (simp add: arith mult.commute [of x] mask_step pow_double [unfolded One_nat_def] Let_def)
  then show ?case using Suc by (simp only: exp_bits)
qed

lemma mod_2pow_ul_val:
  assumes "ok m"
  shows "mod_2pow_ul ops e m = Some (enc m (2 ^ unat e))"
proof (cases "e = 0")
  case False
  then obtain k where k: "k < 64" "top_mask e = Some (bit_mask (Suc k))" "unat e = 2 ^ k + unat e mod 2 ^ k"
    "bit e k" by (rule top_mask_val)
  show ?thesis
    using False k(1,2) mod_2pow_ul_loop_val [OF assms, of k e 1] k(3) assms
    by (simp add: mod_2pow_ul_def arith bit_mask_drop)
qed (simp add: mod_2pow_ul_def set1 assms)

lemma mod_3pow_ul_val:
  assumes "ok m"
  shows "mod_3pow_ul ops e m = Some (enc m (3 ^ unat e))"
proof (cases "e = 0")
  case False
  then obtain k where k: "k < 64" "top_mask e = Some (bit_mask (Suc k))" "unat e = 2 ^ k + unat e mod 2 ^ k"
    "bit e k" by (rule top_mask_val)
  show ?thesis
    using False k(1,2) mod_3pow_ul_loop_val [OF assms, of k e 1] k(3) assms
    by (simp add: mod_3pow_ul_def arith bit_mask_drop)
qed (simp add: mod_3pow_ul_def set1 assms)


lemma mod_pow_ul_loop_val:
  "ok m \<Longrightarrow> k < 64 \<Longrightarrow>
   mod_pow_ul_loop ops (enc m x) e m (enc m (x ^ j)) (word_of_nat (unat e mod 2 ^ k)) (bit_mask (Suc k))
     = Some (enc m (x ^ (j * 2 ^ k + unat e mod 2 ^ k)))"
proof (induction k arbitrary: j)
  case 0
  then show ?case by (subst mod_pow_ul_loop.simps) (simp add: bit_mask_def)
next
  case (Suc k)
  have gt: "bit_mask (Suc (Suc k)) > 1"
    using Suc.prems unat_bit_mask [of "Suc k"] one_less_power [of "2 :: nat" "Suc k"]
    by (simp add: word_less_nat_alt)
  have "(word_of_nat (unat e mod 2 ^ Suc k) :: ul)
      = word_of_nat (unat e mod 2 ^ k) + (if bit e k then bit_mask (Suc k) else 0)"
    unfolding unat_mod_Suc by (simp add: bit_mask_def)
  then have "mod_pow_ul_loop ops (enc m x) e m (enc m (x ^ j)) (word_of_nat (unat e mod 2 ^ Suc k)) (bit_mask (Suc (Suc k)))
      = mod_pow_ul_loop ops (enc m x) e m (enc m (x ^ (j * 2 + of_bool (bit e k))))
          (word_of_nat (unat e mod 2 ^ k)) (bit_mask (Suc k))"
    using Suc.prems gt
    by (subst mod_pow_ul_loop.simps)
      (simp add: arith mask_step mult.commute [of x] pow_double [unfolded One_nat_def] Let_def)
  then show ?case using Suc by (simp only: exp_bits)
qed

lemma mod_pow_ul_val:
  assumes "ok m"
  shows "mod_pow_ul ops (enc m x) e m = Some (enc m (x ^ unat e))"
proof (cases "e = 0")
  case False
  then obtain k where k: "k < 64" "top_mask e = Some (bit_mask (Suc k))" "unat e = 2 ^ k + unat e mod 2 ^ k"
    "bit e k" by (rule top_mask_val)
  have "e = bit_mask (Suc k) + word_of_nat (unat e mod 2 ^ k)"
    using unat_bit_mask [OF k(1)] k(3)
    by (metis of_nat_add ul_of_nat_unat)
  then have "e - bit_mask (Suc k) = word_of_nat (unat e mod 2 ^ k)" by (metis add_diff_cancel_left')
  then show ?thesis
    using False k(1,2) mod_pow_ul_loop_val [OF assms, of k x e 1] k(3)
    by (simp add: mod_pow_ul_def)
qed (simp add: mod_pow_ul_def set1 assms)

end

section \<open>Multi-word exponents\<close>

definition mp_val :: "ul list \<Rightarrow> nat" where
  "mp_val e = foldr (\<lambda>w acc. unat w + 2 ^ 64 * acc) e 0"

lemma mp_val_snoc: "mp_val (e @ [w]) = mp_val e + 2 ^ (64 * length e) * unat w"
  by (induction e) (simp_all add: mp_val_def algebra_simps power_add)

lemma mp_val_take_Suc:
  "i < length e \<Longrightarrow> mp_val (take (Suc i) e) = mp_val (take i e) + 2 ^ (64 * i) * unat (e ! i)"
  by (simp add: take_Suc_conv_app_nth mp_val_snoc)

lemma mp_step:
  "(j * 2 ^ 64 + unat w) * 2 ^ (64 * i) + n = j * 2 ^ (64 * Suc i) + (n + 2 ^ (64 * i) * unat (w :: ul))"
  by (simp add: algebra_simps power_add)

context residue_ops
begin

lemma mod_pow_mp_for_val:
  "ok m \<Longrightarrow> i \<le> length e \<Longrightarrow>
   mod_pow_mp_for ops (enc m x) e m i high_mask (enc m (x ^ j))
     = Some (enc m (x ^ (j * 2 ^ (64 * i) + mp_val (take i e))))"
proof (induction i arbitrary: j)
  case (Suc i)
  then show ?case
    using mod_pow_mp_loop_val [of m 64 x "e ! i" j]
    by (simp only: mod_pow_mp_for.simps high_mask_eq unat_mod_64 bind.simps Suc_leD mp_step
        mp_val_take_Suc [OF Suc_le_lessD])
qed (simp add: mp_val_def)

lemma mod_2pow_mp_for_val:
  "ok m \<Longrightarrow> i \<le> length e \<Longrightarrow>
   mod_2pow_mp_for ops e m i high_mask (enc m (2 ^ j))
     = Some (enc m (2 ^ (j * 2 ^ (64 * i) + mp_val (take i e))))"
proof (induction i arbitrary: j)
  case (Suc i)
  then show ?case
    using mod_2pow_ul_loop_val [of m 64 "e ! i" j]
    by (simp only: mod_2pow_mp_for.simps high_mask_eq unat_mod_64 bind.simps Suc_leD mp_step
        mp_val_take_Suc [OF Suc_le_lessD])
qed (simp add: mp_val_def)

end

lemma mp_val_top:
  "length e = Suc i \<Longrightarrow> mp_val e = unat (e ! i) * 2 ^ (64 * i) + mp_val (take i e)"
  using mp_val_take_Suc [of i e] by simp

context residue_ops
begin

lemma mod_pow_mp_val:
  assumes ok: "ok m"
  shows "mod_pow_mp ops (enc m x) e m
    = Some (enc m (if e = [] \<or> last e = 0 then 1 else x ^ mp_val e))"
proof (cases "e = [] \<or> last e = 0")
  case False
  then obtain i where i: "length e = Suc i" "e ! i \<noteq> 0"
    by (cases e rule: rev_cases) auto
  from i(2) obtain k where k: "k < 64" "top_mask (e ! i) = Some (bit_mask (Suc k))"
    "unat (e ! i) = 2 ^ k + unat (e ! i) mod 2 ^ k" "bit (e ! i) k"
    by (rule top_mask_val)
  have "mod_pow_mp_loop ops (enc m x) (e ! i) m (enc m x) (bit_mask k) = Some (enc m (x ^ unat (e ! i)))"
    using mod_pow_mp_loop_val [OF ok, of k x "e ! i" 1] k(1,3) by simp
  moreover have "mod_pow_mp_for ops (enc m x) e m i high_mask (enc m (x ^ unat (e ! i))) = Some (enc m (x ^ mp_val e))"
    using mod_pow_mp_for_val [OF ok, of i e x "unat (e ! i)"] i by (simp add: mp_val_top [of e i])
  ultimately show ?thesis
    using False i k(1,2) by (auto simp: mod_pow_mp_def bit_mask_drop)
qed (auto simp: mod_pow_mp_def last_conv_nth set1 ok Let_def)

lemma mod_2pow_mp_val:
  assumes ok: "ok m"
  shows "mod_2pow_mp ops e m = (if e = [] \<or> last e = 0 then None else Some (enc m (2 ^ mp_val e)))"
proof (cases "e = [] \<or> last e = 0")
  case False
  then obtain i where i: "length e = Suc i" "e ! i \<noteq> 0"
    by (cases e rule: rev_cases) auto
  from i(2) obtain k where k: "k < 64" "top_mask (e ! i) = Some (bit_mask (Suc k))"
    "unat (e ! i) = 2 ^ k + unat (e ! i) mod 2 ^ k" "bit (e ! i) k"
    by (rule top_mask_val)
  have "mod_2pow_ul_loop ops (e ! i) m (enc m 2) (bit_mask k) = Some (enc m (2 ^ unat (e ! i)))"
    using mod_2pow_ul_loop_val [OF ok, of k "e ! i" 1] k(1,3) by simp
  moreover have "mod_2pow_mp_for ops e m i high_mask (enc m (2 ^ unat (e ! i))) = Some (enc m (2 ^ mp_val e))"
    using mod_2pow_mp_for_val [OF ok, of i e "unat (e ! i)"] i by (simp add: mp_val_top [of e i])
  ultimately show ?thesis
    using False i k(1,2) by (auto simp: mod_2pow_mp_def bit_mask_drop arith ok)
qed (auto simp: mod_2pow_mp_def last_conv_nth Let_def)

end

section \<open>Chebyshev polynomials\<close>

text \<open>\<open>V_e(x + 1/x) = x^e + 1/x^e\<close>, by its recurrence.\<close>

fun chebV :: "int \<Rightarrow> nat \<Rightarrow> int" where
  "chebV b 0 = 2"
| "chebV b (Suc 0) = b"
| "chebV b (Suc (Suc n)) = b * chebV b (Suc n) - chebV b n"

lemma chebV_add: "chebV b (n + k + n) = chebV b (n + k) * chebV b n - chebV b k"
proof (induction n arbitrary: k rule: induct_nat_012)
  case (ge2 n)
  define W where "W = chebV b (Suc (Suc (k + n)))"
  have IH: "chebV b n * W = chebV b (k + n + n + 2) + chebV b (k + 2)"
    "chebV b (Suc n) * W = chebV b (k + n + n + 3) + chebV b (k + 1)"
    using ge2(1) [of "k + 2"] ge2(2) [of "k + 1"]
    by (simp_all add: W_def mult.commute ac_simps numeral_3_eq_3 del: chebV.simps(3))
  have "chebV b (Suc (Suc n)) * W = b * (chebV b (Suc n) * W) - chebV b n * W"
    by (simp add: algebra_simps)
  also have "\<dots> = (b * chebV b (k + n + n + 3) - chebV b (k + n + n + 2)) + (b * chebV b (k + 1) - chebV b (k + 2))"
    unfolding IH by (simp add: algebra_simps)
  also have "\<dots> = chebV b (k + n + n + 4) + chebV b k"
    by (simp add: eval_nat_numeral)
  finally show ?case by (simp add: W_def ac_simps eval_nat_numeral del: chebV.simps(3))
qed simp_all

lemma chebV_double:
  "chebV b j * chebV b j - 2 = chebV b (j * 2)"
  "chebV b (Suc j) * chebV b j - b = chebV b (Suc (j * 2))"
  "chebV b j * chebV b (Suc j) - b = chebV b (Suc (j * 2))"
  "chebV b (Suc j) * chebV b (Suc j) - 2 = chebV b (Suc (Suc (j * 2)))"
proof -
  show *: "chebV b (Suc j) * chebV b j - b = chebV b (Suc (j * 2))"
    using chebV_add [of b j 1] by (simp add: mult_2_right del: chebV.simps(3))
  then show "chebV b j * chebV b (Suc j) - b = chebV b (Suc (j * 2))"
    by (simp only: mult.commute)
qed (use chebV_add [of b j 0] chebV_add [of b "Suc j" 0] in \<open>simp_all add: mult_2_right del: chebV.simps(3)\<close>)

context residue_ops
begin

lemma mod_V_loop_val:
  "ok m \<Longrightarrow> k \<le> 64 \<Longrightarrow>
   mod_V_loop ops (enc m b) (enc m 2) e m (enc m (chebV b j)) (enc m (chebV b (j + 1))) (bit_mask k)
     = Some (enc m (chebV b (j * 2 ^ k + unat e mod 2 ^ k)), enc m (chebV b (j * 2 ^ k + unat e mod 2 ^ k + 1)))"
proof (induction k arbitrary: j)
  case 0
  then show ?case by (subst mod_V_loop.simps) simp
next
  case (Suc k)
  let ?j = "j * 2 + of_bool (bit e k)"
  have "mod_V_loop ops (enc m b) (enc m 2) e m (enc m (chebV b j)) (enc m (chebV b (j + 1))) (bit_mask (Suc k))
     = mod_V_loop ops (enc m b) (enc m 2) e m (enc m (chebV b ?j)) (enc m (chebV b (?j + 1))) (bit_mask k)"
    using Suc.prems
    by (subst mod_V_loop.simps, cases "bit e k")
      (simp_all add: mul sqr sub mask_step Let_def chebV_double del: chebV.simps(3))
  then show ?case using Suc.IH [of ?j] Suc.prems by (simp only: exp_bits Suc_leD)
qed

lemma mod_V_init: "ok m \<Longrightarrow> op_sub ops (enc m (b * b)) (enc m 2) m = enc m (chebV b (Suc (Suc 0)))"
  by (simp add: sub)

lemma mod_V_ul_val:
  assumes ok: "ok m"
  shows "mod_V_ul ops (enc m b) e m = Some (enc m (chebV b (unat e)))"
proof (cases "e = 0")
  case False
  then obtain k where k: "k < 64" "top_mask e = Some (bit_mask (Suc k))" "unat e = 2 ^ k + unat e mod 2 ^ k"
    "bit e k" by (rule top_mask_val)
  have "mod_V_loop ops (enc m b) (enc m 2) e m (enc m b) (enc m (chebV b (Suc (Suc 0)))) (bit_mask k)
      = Some (enc m (chebV b (unat e)), enc m (chebV b (unat e + 1)))"
    using mod_V_loop_val [OF ok, of k b e 1] k(1,3) by (simp del: chebV.simps(3))
  then show ?thesis
    using False k(1,2) ok by (simp add: mod_V_ul_def set1 add mul sqr mod_V_init bit_mask_drop Let_def del: chebV.simps(3))
qed (simp add: mod_V_ul_def set1 add ok)

lemma mod_V_mp_for_val:
  "ok m \<Longrightarrow> i \<le> length e \<Longrightarrow>
   mod_V_mp_for ops (enc m b) (enc m 2) e m i high_mask (enc m (chebV b j)) (enc m (chebV b (j + 1)))
     = Some (enc m (chebV b (j * 2 ^ (64 * i) + mp_val (take i e))),
             enc m (chebV b (j * 2 ^ (64 * i) + mp_val (take i e) + 1)))"
proof (induction i arbitrary: j)
  case (Suc i)
  then show ?case
    using mod_V_loop_val [of m 64 b "e ! i" j]
    by (simp only: mod_V_mp_for.simps high_mask_eq unat_mod_64 bind.simps Suc_leD mp_step case_prod_conv
        mp_val_take_Suc [OF Suc_le_lessD])
qed (simp add: mp_val_def)

lemma mod_V_mp_val:
  assumes ok: "ok m"
  shows "mod_V_mp ops (enc m b) e m
    = Some (enc m (if e = [] \<or> last e = 0 then 2 else chebV b (mp_val e)))"
proof (cases "e = [] \<or> last e = 0")
  case False
  then obtain i where i: "length e = Suc i" "e ! i \<noteq> 0"
    by (cases e rule: rev_cases) auto
  from i(2) obtain k where k: "k < 64" "top_mask (e ! i) = Some (bit_mask (Suc k))"
    "unat (e ! i) = 2 ^ k + unat (e ! i) mod 2 ^ k" "bit (e ! i) k"
    by (rule top_mask_val)
  have "mod_V_loop ops (enc m b) (enc m 2) (e ! i) m (enc m b) (enc m (chebV b (Suc (Suc 0)))) (bit_mask k)
      = Some (enc m (chebV b (unat (e ! i))), enc m (chebV b (unat (e ! i) + 1)))"
    using mod_V_loop_val [OF ok, of k b "e ! i" 1] k(1,3) by (simp del: chebV.simps(3))
  moreover have "mod_V_mp_for ops (enc m b) (enc m 2) e m i high_mask (enc m (chebV b (unat (e ! i)))) (enc m (chebV b (unat (e ! i) + 1)))
      = Some (enc m (chebV b (mp_val e)), enc m (chebV b (mp_val e + 1)))"
    using mod_V_mp_for_val [OF ok, of i e b "unat (e ! i)"] i by (simp add: mp_val_top [of e i])
  ultimately show ?thesis
    using False i k(1,2)
    by (auto simp: mod_V_mp_def bit_mask_drop set1 add mul sqr ok mod_V_init Let_def simp del: chebV.simps(3))
qed (auto simp: mod_V_mp_def last_conv_nth set1 add ok Let_def)

end

section \<open>Exact division by small primes\<close>

definition div_small :: "ul \<Rightarrow> ul \<Rightarrow> ul list \<Rightarrow> ul \<Rightarrow> ul \<Rightarrow> ul" where
  "div_small p pinv tbl ml a =
     (let k = ((a mod p) * tbl ! unat (ml mod p)) mod p in (a + k * ml) * pinv)"

lemma coprime_from_inverse: "(p :: int) dvd i * n + 1 \<Longrightarrow> coprime p n"
  by (rule coprimeI) (metis dvd_add_right_iff dvd_mult dvd_trans)

lemma div_small_val:
  fixes p ml a :: ul
  assumes pinv: "p * pinv = 1" and p: "1 < uint p" "uint p < 256"
    and tbl: "uint (tbl ! unat (ml mod p)) < uint p"
      "uint p dvd uint (tbl ! unat (ml mod p)) * uint (ml mod p) + 1"
    and a: "uint a < uint ml"
  obtains k where "uint p * uint (div_small p pinv tbl ml a) = uint a + k * uint ml"
    "uint (div_small p pinv tbl ml a) < uint ml" "coprime (uint p) (uint ml)"
proof -
  define i where "i = uint (tbl ! unat (ml mod p))"
  define kw where "kw = ((a mod p) * tbl ! unat (ml mod p)) mod p"
  define k where "k = uint kw"
  have "i * (uint ml mod uint p) + 1 = i * uint ml + 1 - uint p * (i * (uint ml div uint p))"
    by (simp add: algebra_simps minus_div_mult_eq_mod [symmetric])
  with tbl(2) have im: "uint p dvd i * uint ml + 1"
    by (metis dvd_diff_left_iff dvd_triv_left i_def uint_mod_ul)
  have "(uint a mod uint p) * i \<le> 255 * 255"
    using p tbl(1) order_less_trans [OF pos_mod_bound [of "uint p" "uint a"] p(2)] uint_gt_m1 [of "tbl ! unat (ml mod p)"]
    by (intro mult_mono) (auto simp: i_def)
  then have kv: "k = ((uint a mod uint p) * i) mod uint p"
    using p uint_gt_m1 [of "tbl ! unat (ml mod p)"]
    by (simp add: k_def kw_def uint_mod_ul uint_mul_ul i_def mod_pos_pos_trivial)
  have kmod: "k mod uint p = (uint a * i) mod uint p" unfolding kv by (simp add: mod_mult_left_eq)
  have k: "0 \<le> k" "k < uint p" using p kv by simp_all
  have "(uint a + k * uint ml) mod uint p = (uint a + uint a * i * uint ml) mod uint p"
    using kmod by (metis mod_add_right_eq mod_mult_left_eq)
  also have "uint a + uint a * i * uint ml = uint a * (i * uint ml + 1)" by (simp add: algebra_simps)
  finally have "uint p dvd uint a + k * uint ml" using im by (simp add: mod_0_imp_dvd dvd_mult)
  then obtain q where q: "uint a + k * uint ml = uint p * q" by (rule dvdE)
  have "(k + 1) * uint ml \<le> uint p * uint ml" using k a uint_gt_m1 [of a] by (intro mult_right_mono) auto
  then have "uint p * q < uint p * uint ml" using q a by (simp add: algebra_simps)
  then have qm: "q < uint ml" using p by simp
  have "0 \<le> uint p * q" unfolding q [symmetric] using k a uint_gt_m1 [of a] uint_gt_m1 [of ml] by simp
  then have q0: "0 \<le> q" using p by (simp add: zero_le_mult_iff)
  have "a + kw * ml = p * word_of_int q"
    using q unfolding k_def by (metis wi_hom_add wi_hom_mult word_of_int_uint)
  then have "div_small p pinv tbl ml a = (p * pinv) * word_of_int q"
    by (simp add: div_small_def kw_def [symmetric] Let_def ac_simps)
  then have "uint (div_small p pinv tbl ml a) = q"
    using pinv q0 qm uint_ltB64 [of ml] by (simp add: uint_of_int_ul)
  with q qm show thesis using coprime_from_inverse [OF im] by (intro that [of k]) simp_all
qed

definition inv_table_ok :: "ul \<Rightarrow> ul list \<Rightarrow> bool" where
  "inv_table_ok p tbl \<longleftrightarrow>
     (\<forall>v \<in> set [1..<unat p]. uint (tbl ! v) < uint p \<and> (uint (tbl ! v) * int v + 1) mod uint p = 0)"

lemma inv_tables:
  "inv_table_ok 3 [0, 2, 1]" "inv_table_ok 5 [0, 4, 2, 3, 1]" "inv_table_ok 7 [0, 6, 3, 2, 5, 4, 1]"
  "inv_table_ok 11 [0, 10, 5, 7, 8, 2, 9, 3, 4, 6, 1]"
  "inv_table_ok 13 [0, 12, 6, 4, 3, 5, 2, 11, 8, 10, 9, 7, 1]"
  by (simp_all add: inv_table_ok_def upt_rec)

lemma inv_table_okD:
  assumes "inv_table_ok p tbl" "ml mod p \<noteq> 0" "1 < uint p"
  shows "uint (tbl ! unat (ml mod p)) < uint p"
    "uint p dvd uint (tbl ! unat (ml mod p)) * uint (ml mod p) + 1"
proof -
  have "p \<noteq> 0" using assms(3) by auto
  then have "unat (ml mod p) < unat p" by (simp add: unat_mod_distrib unat_gt_0)
  moreover have "1 \<le> unat (ml mod p)" using assms(2) by (simp add: Suc_le_eq unat_gt_0)
  moreover have "int (unat (ml mod p)) = uint (ml mod p)" by simp
  ultimately show "uint (tbl ! unat (ml mod p)) < uint p"
    "uint p dvd uint (tbl ! unat (ml mod p)) * uint (ml mod p) + 1"
    using assms(1) unfolding inv_table_ok_def by (force, metis atLeastLessThan_iff mod_0_imp_dvd set_upt)
qed

lemma div3_table: 
  fixes a ml :: ul
  assumes "ml mod 3 \<noteq> 0"
  shows "(if a mod 3 \<noteq> 0 then (if a mod 3 + ml mod 3 = 3 then a + ml else a + 2 * ml) else a)
    = a + ((a mod 3) * [0, 2, 1] ! unat (ml mod 3)) mod 3 * ml"
proof -
  have c: "v mod 3 = 0 \<or> v mod 3 = 1 \<or> v mod 3 = 2" for v :: ul
  proof -
    have "unat (v mod 3) = 0 \<or> unat (v mod 3) = 1 \<or> unat (v mod 3) = 2"
      by (simp add: unat_mod_distrib) presburger
    then show ?thesis by (simp add: word_unat_eq_iff)
  qed
  show ?thesis using c [of a] c [of ml] assms by (elim disjE) (simp_all del: mod_0_imp_dvd dvd_imp_mod_0)
qed

lemma mod_div_eq:
  "mod_div3 ops r a m = (let ml = op_getmod_ul ops m in
     if ml mod 3 = 0 then (False, r) else (True, div_small 3 0xaaaaaaaaaaaaaaab [0, 2, 1] ml a))"
  "mod_div5 ops r a m = (let ml = op_getmod_ul ops m in
     if ml mod 5 = 0 then (False, r) else (True, div_small 5 0xcccccccccccccccd [0, 4, 2, 3, 1] ml a))"
  "mod_div7 ops r a m = (let ml = op_getmod_ul ops m in
     if ml mod 7 = 0 then (False, r) else (True, div_small 7 0x6db6db6db6db6db7 [0, 6, 3, 2, 5, 4, 1] ml a))"
  "mod_div11 ops r a m = (let ml = op_getmod_ul ops m in
     if ml mod 11 = 0 then (False, r)
     else (True, div_small 11 0x2e8ba2e8ba2e8ba3 [0, 10, 5, 7, 8, 2, 9, 3, 4, 6, 1] ml a))"
  "mod_div13 ops r a m = (let ml = op_getmod_ul ops m in
     if ml mod 13 = 0 then (False, r)
     else (True, div_small 13 0x4ec4ec4ec4ec4ec5 [0, 12, 6, 4, 3, 5, 2, 11, 8, 10, 9, 7, 1] ml a))"
  subgoal using div3_table [of "op_getmod_ul ops m" a] by (simp add: mod_div3_def div_small_def Let_def)
  by (simp_all add: mod_div5_def mod_div7_def mod_div11_def mod_div13_def div_small_def Let_def)

context residue_ops
begin

lemma div_small_enc:
  assumes ok: "ok m" and p: "p * pinv = 1" "1 < uint p" "uint p < 256" "inv_table_ok p tbl"
    and nz: "op_getmod_ul ops m mod p \<noteq> 0"
  shows "div_small p pinv tbl (op_getmod_ul ops m) (enc m (uint p * y)) = enc m y"
proof -
  let ?d = "div_small p pinv tbl (op_getmod_ul ops m) (enc m (uint p * y))"
  obtain k where k: "uint p * uint ?d = uint (enc m (uint p * y)) + k * md m" "uint ?d < md m"
    "coprime (uint p) (md m)"
    by (rule div_small_val [OF p(1-3) inv_table_okD [OF p(4) nz p(2)] enc_less [OF ok]])
  have "(uint p * uint ?d) mod md m = (uint p * (c * y)) mod md m"
    unfolding k(1) by (simp add: uint_unit_enc mod_pos ok ac_simps)
  then have "md m dvd uint p * (uint ?d - c * y)" by (simp add: mod_eq_dvd_iff right_diff_distrib)
  then have "md m dvd uint ?d - c * y"
    using k(3) by (simp add: coprime_dvd_mult_right_iff coprime_commute)
  then have "uint ?d mod md m = (c * y) mod md m" by (simp only: mod_eq_dvd_iff)
  then show ?thesis using k(2) by (simp add: word_uint_eq_iff uint_unit_enc mod_pos ok)
qed

lemma mod_div_val:
  assumes "ok m"
  shows "mod_div3 ops r (enc m (3 * y)) m = (if op_getmod_ul ops m mod 3 = 0 then (False, r) else (True, enc m y))"
    "mod_div5 ops r (enc m (5 * y)) m = (if op_getmod_ul ops m mod 5 = 0 then (False, r) else (True, enc m y))"
    "mod_div7 ops r (enc m (7 * y)) m = (if op_getmod_ul ops m mod 7 = 0 then (False, r) else (True, enc m y))"
    "mod_div11 ops r (enc m (11 * y)) m = (if op_getmod_ul ops m mod 11 = 0 then (False, r) else (True, enc m y))"
    "mod_div13 ops r (enc m (13 * y)) m = (if op_getmod_ul ops m mod 13 = 0 then (False, r) else (True, enc m y))"
  using div_small_enc [OF assms, of 3 "0xaaaaaaaaaaaaaaab" "[0, 2, 1]" y]
    div_small_enc [OF assms, of 5 "0xcccccccccccccccd" "[0, 4, 2, 3, 1]" y]
    div_small_enc [OF assms, of 7 "0x6db6db6db6db6db7" "[0, 6, 3, 2, 5, 4, 1]" y]
    div_small_enc [OF assms, of 11 "0x2e8ba2e8ba2e8ba3" "[0, 10, 5, 7, 8, 2, 9, 3, 4, 6, 1]" y]
    div_small_enc [OF assms, of 13 "0x4ec4ec4ec4ec4ec5" "[0, 12, 6, 4, 3, 5, 2, 11, 8, 10, 9, 7, 1]" y]
  by (simp_all add: mod_div_eq inv_tables Let_def)

end

section \<open>Greatest common divisor\<close>

lemma mod_gcd_loop_val: "uint (mod_gcd_loop a b) = gcd (uint a) (uint b)"
proof (induction a b rule: mod_gcd_loop.induct)
  case (1 a b)
  show ?case
  proof (cases "a > 0")
    case True
    then have "uint (mod_gcd_loop a b) = gcd (uint (b mod a)) (uint a)"
      using 1 by (subst mod_gcd_loop.simps) simp
    also have "\<dots> = gcd (uint a) (uint b)"
      by (metis gcd.commute gcd_red_int uint_mod_ul)
    finally show ?thesis .
  qed (subst mod_gcd_loop.simps, simp add: word_gt_0)
qed

context residue_ops
begin

lemma mod_gcd_val:
  assumes ok: "ok m"
  shows "\<exists>g. mod_gcd ops (enc m x) m = Some g \<and> uint g = gcd x (md m)"
proof -
  have "gcd (uint (enc m x)) (md m) = gcd (c * x) (md m)"
    by (simp add: uint_unit_enc mod_pos ok gcd_red_int [of "c * x" "md m", symmetric] gcd.commute)
  also have "\<dots> = gcd x (md m)" using unit [OF ok] by (simp add: gcd_mult_left_left_cancel coprime_commute)
  finally have g: "gcd (uint (enc m x)) (md m) = gcd x (md m)" .
  have "\<not> op_getmod_ul ops m \<le> enc m x" using enc_less [OF ok, of x] by (simp add: word_le_def)
  moreover have "0 < op_getmod_ul ops m" using mod_pos [OF ok] by (simp add: word_less_def)
  ultimately show ?thesis using g by (simp add: mod_gcd_def mod_gcd_loop_val Let_def)
qed

end

end
