(* ===== verification/Mod_prime.thy ===== *)
theory Mod_prime
  imports Mod_common
begin

text \<open>
  The probable-prime tests, the primality test and the Jacobi symbol of \<open>src/utils/mod_ul_common.c\<close>
  (their definitions are in \<open>Mod_common\<close>): the exact meaning of the strong probable-prime tests, that
  \<open>mod_isprime\<close> accepts every prime, and that \<open>mod_jacobi\<close> ends and vanishes exactly on the
  arguments that share a factor with an odd modulus.  The lemmas are proved in the locale
  \<open>residue_ops\<close>, so they hold for plain and for Montgomery residues.  The properties of the common
  code, over both representations, close the theory.
\<close>

section \<open>Strong probable primes\<close>

definition strong_seq :: "int \<Rightarrow> int \<Rightarrow> nat \<Rightarrow> bool" where
  "strong_seq n x s \<longleftrightarrow> x mod n = 1 mod n \<or> x mod n = (- 1) mod n
     \<or> (\<exists>i. 1 \<le> i \<and> i < s \<and> x ^ (2 ^ i) mod n = (- 1) mod n)"

lemma strong_seq_prime:
  assumes "prime_int n" "x ^ (2 ^ s) mod n = 1 mod n"
  shows "strong_seq n x s"
proof -
  have "x ^ (2 ^ 0) = x" by simp
  then show ?thesis
    using prime_strong [OF assms] unfolding strong_seq_def by (metis One_nat_def Suc_leI neq0_conv)
qed

context residue_ops
begin

lemma find_minus1_loop_val:
  assumes ok: "ok m"
  shows "1 \<le> i \<Longrightarrow> \<exists>k. find_minus1_loop ops (enc m (x ^ (2 ^ (i - 1)))) (enc m (- 1)) i po2 m = Some k
    \<and> (k < po2 \<longleftrightarrow> (\<exists>j. i \<le> j \<and> j < po2 \<and> x ^ (2 ^ j) mod md m = (- 1) mod md m))"
proof (induction "po2 - i" arbitrary: i)
  case 0
  then show ?case by (subst find_minus1_loop.simps) auto
next
  case (Suc d)
  have "(2 :: nat) ^ (i - 1) * 2 = 2 ^ i" using Suc.prems by (cases i) simp_all
  then have sq: "x ^ (2 ^ (i - Suc 0)) * x ^ (2 ^ (i - Suc 0)) = x ^ (2 ^ i)"
    using pow_double(1) [of x "2 ^ (i - 1)"] by simp
  note step = find_minus1_loop.simps [of ops "enc m (x ^ (2 ^ (i - 1)))" "enc m (- 1)" i po2 m]
  show ?case
  proof (cases "x ^ (2 ^ i) mod md m = (- 1) mod md m")
    case True
    then show ?thesis using step Suc.hyps(2) by (auto simp: sqr ok sq equal enc_eq_iff)
  next
    case False
    have d: "d = po2 - (i + 1)" using Suc.hyps(2) by simp
    obtain k where k: "find_minus1_loop ops (enc m (x ^ (2 ^ i))) (enc m (- 1)) (i + 1) po2 m = Some k"
      "k < po2 \<longleftrightarrow> (\<exists>j. i + 1 \<le> j \<and> j < po2 \<and> x ^ (2 ^ j) mod md m = (- 1) mod md m)"
      using Suc.hyps(1) [OF d] by auto
    have "i \<le> j \<and> j < po2 \<and> x ^ (2 ^ j) mod md m = (- 1) mod md m
        \<longleftrightarrow> i + 1 \<le> j \<and> j < po2 \<and> x ^ (2 ^ j) mod md m = (- 1) mod md m" for j
      using False by (cases "i = j") auto
    then show ?thesis
      using k False step Suc.hyps(2) by (simp add: sqr ok sq equal enc_eq_iff)
  qed
qed

lemma find_minus1_val:
  assumes ok: "ok m"
  shows "find_minus1 ops (enc m x) (enc m (- 1)) po2 m = Some (strong_seq (md m) x po2)"
proof -
  obtain k where k: "find_minus1_loop ops (enc m x) (enc m (- 1)) 1 po2 m = Some k"
    "k < po2 \<longleftrightarrow> (\<exists>j. 1 \<le> j \<and> j < po2 \<and> x ^ (2 ^ j) mod md m = (- 1) mod md m)"
    using find_minus1_loop_val [OF ok, of 1 x po2] by auto
  then show ?thesis
    by (simp add: find_minus1_def is1 equal ok enc_eq_iff strong_seq_def)
qed

lemma minusone: "ok m \<Longrightarrow> op_neg ops (op_set1 ops m) m = enc m (- 1)"
  by (simp add: set1 neg)

end

lemma sprp_twos_val:
  assumes "mm1 \<noteq> 0"
  obtains q s where "sprp_twos mm1 po2 = Some (q, po2 + s)" "odd q" "uint mm1 = uint q * 2 ^ s"
proof -
  have "\<exists>q s. sprp_twos mm1 po2 = Some (q, po2 + s) \<and> odd q \<and> uint mm1 = uint q * 2 ^ s"
    using assms
  proof (induction "unat mm1" arbitrary: mm1 po2 rule: less_induct)
    case less
    show ?case
    proof (cases "even mm1")
      case True
      let ?h = "drop_bit (Suc 0) mm1"
      from True have "even (uint mm1)" by (simp add: even_uint)
      then have v: "uint mm1 = uint ?h * 2" by (simp add: uint_drop_bit)
      with less.prems have nz: "?h \<noteq> 0" by (auto simp: word_uint_eq_iff)
      have "0 < uint ?h" using nz uint_gt_m1 [of ?h] by (cases "uint ?h = 0") (simp_all add: word_uint_eq_iff)
      then have "uint ?h < uint mm1" unfolding v by linarith
      then have "unat ?h < unat mm1" by (simp only: word_less_def [symmetric] word_less_nat_alt)
      from less.hyps [OF this nz, of "po2 + 1"] obtain q s where
        "sprp_twos ?h (po2 + 1) = Some (q, po2 + 1 + s)" "odd q" "uint ?h = uint q * 2 ^ s" by auto
      then show ?thesis
        using True v by (subst sprp_twos.simps)
          (auto simp: even_iff_mod_2_eq_zero intro!: exI [of _ "Suc s"])
    next
      case False
      then show ?thesis by (subst sprp_twos.simps) (auto simp: odd_iff_mod_2_eq_one intro: exI [of _ 0])
    qed
  qed
  then show thesis using that by blast
qed

text \<open>\<open>m - 1 = q * 2 ^ s\<close> with \<open>q\<close> odd: the decomposition the tests compute.\<close>

definition strong_probable_prime :: "int \<Rightarrow> int \<Rightarrow> bool" where
  "strong_probable_prime n b \<longleftrightarrow>
     (\<exists>q s. n - 1 = int q * 2 ^ s \<and> odd q \<and> strong_seq n (b ^ q) s)"

lemma odd_part_unique:
  fixes q q' s s' :: nat
  assumes "odd q" "odd q'" "q * 2 ^ s = q' * 2 ^ s'"
  shows "q = q' \<and> s = s'"
proof -
  have aux: "s = s'" if "s \<le> s'" "odd q" "q * 2 ^ s = q' * 2 ^ s'" for q q' s s' :: nat
  proof -
    define d where "d = s' - s"
    have d: "s' = s + d" using that(1) by (simp add: d_def)
    then have "q = q' * 2 ^ d" using that(3) by (simp add: power_add)
    then have "d = 0" using that(2) by (cases d) auto
    then show ?thesis using d by simp
  qed
  then have "s = s'" using aux [of s s' q q'] aux [of s' s q' q] assms by (metis nat_le_linear)
  then show ?thesis using assms(3) by simp
qed

lemma strong_probable_prime_iff:
  assumes "n - 1 = int q * 2 ^ s" "odd q"
  shows "strong_probable_prime n b \<longleftrightarrow> strong_seq n (b ^ q) s"
proof -
  have "q' = q \<and> s' = s" if "n - 1 = int q' * 2 ^ s'" "odd q'" for q' s'
  proof -
    have "int (q' * 2 ^ s') = int (q * 2 ^ s)" using assms(1) that(1) by simp
    then have "q' * 2 ^ s' = q * 2 ^ s" by (simp only: of_nat_eq_iff)
    then show ?thesis using odd_part_unique [of q' q s' s] that(2) assms(2) by simp
  qed
  then show ?thesis using assms unfolding strong_probable_prime_def by blast
qed

lemma odd_unat: "odd (unat w) \<longleftrightarrow> odd (w :: ul)"
  using even_uint [of w] even_of_nat [of "unat w", where ?'a = int] by (simp only: of_nat_unat)

lemma uint_pred: "0 < uint n \<Longrightarrow> uint (n - 1 :: ul) = uint n - 1"
  by (simp add: uint_sub_ul)

context residue_ops
begin

lemma mod_sprp_val:
  assumes ok: "ok m"
  shows "mod_sprp ops (enc m b) m =
    Some (if md m \<le> 3 then 2 \<le> md m else odd (md m) \<and> strong_probable_prime (md m) b)"
proof (cases "md m \<le> 3")
  case True
  then show ?thesis by (simp add: mod_sprp_def word_le_def Let_def)
next
  case gt3: False
  let ?n = "op_getmod_ul ops m"
  have le3: "\<not> ?n \<le> 3" using gt3 by (simp add: word_le_def)
  show ?thesis
  proof (cases "even (md m)")
    case True
    then have "?n mod 2 = 0" unfolding even_uint by (rule even_iff_mod_2_eq_zero [THEN iffD1])
    then show ?thesis using le3 gt3 True by (simp add: mod_sprp_def Let_def)
  next
    case False
    let ?h = "drop_bit (Suc 0) (?n - 1)"
    have p: "uint (?n - 1) = md m - 1" using gt3 by (intro uint_pred) simp
    then have h: "md m - 1 = uint ?h * 2" using False by (simp add: uint_drop_bit)
    then have "?h \<noteq> 0" using gt3 by (auto simp: word_uint_eq_iff)
    then obtain q s where qs: "sprp_twos ?h 1 = Some (q, 1 + s)" "odd q" "uint ?h = uint q * 2 ^ s"
      by (rule sprp_twos_val)
    have "md m - 1 = int (unat q) * 2 ^ (1 + s)" using h qs(3) by simp
    from strong_probable_prime_iff [OF this] qs(2)
    have "strong_probable_prime (md m) b \<longleftrightarrow> strong_seq (md m) (b ^ unat q) (1 + s)" by (simp add: odd_unat)
    moreover have "?n mod 2 \<noteq> 0" using False by (simp add: even_uint odd_iff_mod_2_eq_one)
    ultimately show ?thesis
      using le3 gt3 False qs(1) by (simp add: mod_sprp_def mod_pow_ul_val minusone find_minus1_val ok Let_def)
  qed
qed

lemma isprime_base_prime:
  assumes ok: "ok m" and p: "prime_int (md m)" "\<not> md m dvd b" and q: "md m - 1 = uint q * 2 ^ s"
  shows "isprime_base ops (enc m b) q s (enc m (- 1)) m = Some True"
proof -
  have "int (unat q * 2 ^ s) = int (nat (md m - 1))" using q mod_pos [OF ok] by simp
  then have "unat q * 2 ^ s = nat (md m - 1)" by (simp only: of_nat_eq_iff)
  then have "(b ^ unat q) ^ (2 ^ s) mod md m = 1 mod md m"
    using fermat_little [OF p] p(1) by (simp add: power_mult [symmetric] prime_int_def)
  from strong_seq_prime [OF p(1) this] show ?thesis
    by (simp add: isprime_base_def mod_pow_ul_val find_minus1_val ok)
qed

end

text \<open>The excluded pseudoprimes are composite; each is paired with a factor.\<close>

definition excluded_factors :: "(int \<times> int) list" where
  "excluded_factors = [(314821, 13),
     (30926647201, 101533),
     (45821738881, 95731),
     (74359744201, 121951),
     (90528271681, 173713),
     (110330267041, 191773),
     (373303331521, 352753),
     (440478111067, 331843),
     (1436309367751, 599231),
     (1437328758421, 847741),
     (1858903385041, 964081),
     (4897239482521, 989671),
     (5026103290981, 1585261),
     (5219055617887, 1142263),
     (5660137043641, 1682281),
     (6385803726241, 1458973),
     (244970876021, 202061),
     (405439595861, 259949),
     (1566655993781, 510989),
     (3857382025841, 801809),
     (4074652846961, 824081),
     (5783688565841, 981809)]"

lemma excluded_composite: "\<forall>(w, d) \<in> set excluded_factors. d dvd w \<and> 1 < d \<and> d < w"
  by (simp add: excluded_factors_def)

lemma excluded_not_prime:
  assumes "prime_int (uint (n :: ul))"
  shows "n \<noteq> 314821"
    "n \<noteq> 30926647201"
    "n \<noteq> 45821738881"
    "n \<noteq> 74359744201"
    "n \<noteq> 90528271681"
    "n \<noteq> 110330267041"
    "n \<noteq> 373303331521"
    "n \<noteq> 440478111067"
    "n \<noteq> 1436309367751"
    "n \<noteq> 1437328758421"
    "n \<noteq> 1858903385041"
    "n \<noteq> 4897239482521"
    "n \<noteq> 5026103290981"
    "n \<noteq> 5219055617887"
    "n \<noteq> 5660137043641"
    "n \<noteq> 6385803726241"
    "n \<noteq> 244970876021"
    "n \<noteq> 405439595861"
    "n \<noteq> 1566655993781"
    "n \<noteq> 3857382025841"
    "n \<noteq> 4074652846961"
    "n \<noteq> 5783688565841"
proof -
  have "\<forall>x \<in> set excluded_factors. uint n \<noteq> fst x"
    using assms excluded_composite unfolding prime_int_def by force
  then have "uint n \<notin> fst ` set excluded_factors" by auto
  then have "uint n \<notin> {314821, 30926647201, 45821738881, 74359744201, 90528271681, 110330267041, 373303331521, 440478111067, 1436309367751, 1437328758421, 1858903385041, 4897239482521, 5026103290981, 5219055617887, 5660137043641, 6385803726241, 244970876021, 405439595861, 1566655993781, 3857382025841, 4074652846961, 5783688565841}"
    by (simp add: excluded_factors_def)
  then show "n \<noteq> 314821" "n \<noteq> 30926647201" "n \<noteq> 45821738881" "n \<noteq> 74359744201" "n \<noteq> 90528271681" "n \<noteq> 110330267041" "n \<noteq> 373303331521" "n \<noteq> 440478111067" "n \<noteq> 1436309367751" "n \<noteq> 1437328758421" "n \<noteq> 1858903385041" "n \<noteq> 4897239482521" "n \<noteq> 5026103290981" "n \<noteq> 5219055617887" "n \<noteq> 5660137043641" "n \<noteq> 6385803726241" "n \<noteq> 244970876021" "n \<noteq> 405439595861" "n \<noteq> 1566655993781" "n \<noteq> 3857382025841" "n \<noteq> 4074652846961" "n \<noteq> 5783688565841"
    by auto
qed

lemma strong_seq_mono: "strong_seq n x s \<Longrightarrow> s \<le> s' \<Longrightarrow> strong_seq n x s'"
  unfolding strong_seq_def by (meson less_le_trans)

lemma two_residue_pow:
  assumes "prime_int n" "n mod 8 = 1 \<or> n mod 8 = 7" "n - 1 = int q * 2 ^ Suc s"
  shows "(2 ^ q) ^ (2 ^ s) mod n = 1 mod n"
proof -
  have "(n - 1) div 2 = int (q * 2 ^ s)" using assms(3) by simp
  then have "nat ((n - 1) div 2) = q * 2 ^ s" by (simp only: nat_int)
  then show ?thesis using two_residue [OF assms(1,2)] by (simp add: power_mult [symmetric])
qed

lemma fermat_pow:
  assumes "prime_int n" "\<not> n dvd b" "n - 1 = int q * 2 ^ s"
  shows "(b ^ q) ^ (2 ^ s) mod n = 1 mod n"
proof -
  have "nat (n - 1) = nat (int (q * 2 ^ s))" using assms(3) by simp
  then have "nat (n - 1) = q * 2 ^ s" by (simp only: nat_int)
  then show ?thesis using fermat_little [OF assms(1,2)] assms(1) by (simp add: power_mult [symmetric] prime_int_def)
qed

lemma prime_not_dvd_small: "prime_int n \<Longrightarrow> 0 < b \<Longrightarrow> b < n \<Longrightarrow> \<not> n dvd b"
  by (simp add: small_not_dvd)

text \<open>The bound \<open>s\<close> that the base 2 tests use is large enough for a prime.\<close>

lemma base2_strong:
  assumes "prime_int n" "odd n" "n - 1 = int q * 2 ^ Suc s"
  shows "strong_seq n (2 ^ q) (s + of_bool (\<not> (n mod 8 = 1 \<or> n mod 8 = 7)))"
proof (cases "n mod 8 = 1 \<or> n mod 8 = 7")
  case True
  then show ?thesis using strong_seq_prime [OF assms(1) two_residue_pow [OF assms(1) True assms(3)]] by simp
next
  case False
  have "2 < n" using assms(1,2) by (cases "n = 2") (auto simp: prime_int_def)
  then have "\<not> n dvd 2" by (simp add: small_not_dvd)
  then show ?thesis using False strong_seq_prime [OF assms(1) fermat_pow [OF assms(1) _ assms(3)]] by simp
qed

context residue_ops
begin

lemma mod_sprp2_val:
  assumes ok: "ok m" and n: "3 < md m" "odd (md m)"
  obtains q s where "md m - 1 = int q * 2 ^ Suc s" "odd q"
    "mod_sprp2 ops m = Some (strong_seq (md m) (2 ^ q) (s + of_bool (\<not> (md m mod 8 = 1 \<or> md m mod 8 = 7))))"
proof -
  let ?n = "op_getmod_ul ops m" and ?c = "md m mod 8 = 1 \<or> md m mod 8 = 7"
  let ?h = "drop_bit (Suc 0) (?n - 1)"
  have "uint (?n - 1) = md m - 1" using n by (intro uint_pred) simp
  then have h: "md m - 1 = uint ?h * 2" using n(2) by (simp add: uint_drop_bit)
  then have "?h \<noteq> 0" using n by (auto simp: word_uint_eq_iff)
  then obtain q s where qs: "sprp_twos ?h (of_bool (\<not> ?c)) = Some (q, of_bool (\<not> ?c) + s)" "odd q" "uint ?h = uint q * 2 ^ s"
    by (rule sprp_twos_val)
  have w: "?n mod 8 = 7 \<longleftrightarrow> md m mod 8 = 7" "?n mod 8 = 1 \<longleftrightarrow> md m mod 8 = 1"
    by (simp_all add: word_uint_eq_iff uint_mod_ul)
  have "?n mod 2 \<noteq> 0" using n(2) by (simp add: even_uint odd_iff_mod_2_eq_one)
  moreover have "\<not> ?n \<le> 3" using n by (simp add: word_le_def)
  ultimately have "mod_sprp2 ops m = Some (strong_seq (md m) (2 ^ unat q) (of_bool (\<not> ?c) + s))"
    using qs(1) unfolding mod_sprp2_def Let_def w
    by (cases ?c) (auto simp: mod_2pow_ul_val minusone find_minus1_val ok)
  then show thesis
    using h qs(2,3) by (intro that [of "unat q" s]) (simp_all add: odd_unat add.commute)
qed

lemma mod_isprime_1mod3_prime:
  assumes ok: "ok m" and p: "prime_int (md m)" "61 < md m" and q: "md m - 1 = uint q * 2 ^ s"
  shows "mod_isprime_1mod3 ops (op_getmod_ul ops m) q s (enc m (- 1)) m = Some True"
proof -
  have b: "isprime_base ops (enc m 7) q s (enc m (- 1)) m = Some True"
    "isprime_base ops (enc m 61) q s (enc m (- 1)) m = Some True"
    "isprime_base ops (enc m 5) q s (enc m (- 1)) m = Some True"
    using p by (intro isprime_base_prime [OF ok p(1) _ q] small_not_dvd; simp)+
  show ?thesis
    unfolding mod_isprime_1mod3_def using b by (simp add: set1 add sub ok excluded_not_prime [OF p(1)] Let_def)
qed

lemma mod_isprime_02mod3_prime:
  assumes ok: "ok m" and p: "prime_int (md m)" "61 < md m" and q: "md m - 1 = uint q * 2 ^ s"
  shows "mod_isprime_02mod3 ops (op_getmod_ul ops m) q s (enc m (- 1)) m = Some True"
proof -
  have b: "isprime_base ops (enc m 3) q s (enc m (- 1)) m = Some True"
    "isprime_base ops (enc m 5) q s (enc m (- 1)) m = Some True"
    using p by (intro isprime_base_prime [OF ok p(1) _ q] small_not_dvd; simp)+
  have "find_minus1 ops (enc m (3 ^ unat q)) (enc m (- 1)) s m = Some True"
    using b(1) by (simp add: isprime_base_def mod_pow_ul_val ok)
  then show ?thesis
    unfolding mod_isprime_02mod3_def using b(2)
    by (simp add: set1 add sub ok mod_3pow_ul_val excluded_not_prime [OF p(1)] Let_def)
qed

lemma mod_isprime_prime:
  assumes ok: "ok m" and p: "prime_int (md m)"
  shows "mod_isprime ops m = Some True"
proof (cases "even (md m)")
  case True
  have "md m = 2" using p True unfolding prime_int_def by (metis zero_less_numeral num.distinct(1) numeral_eq_one_iff)
  then have "op_getmod_ul ops m = 2" by (simp add: word_uint_eq_iff)
  then show ?thesis by (simp add: mod_isprime_def)
next
  case False
  let ?n = "op_getmod_ul ops m"
  have n: "1 < md m" using p by (simp add: prime_int_def)
  have n1: "uint (?n - 1) = md m - 1" using n by (intro uint_pred) simp
  then have "?n - 1 \<noteq> 0" using n by (auto simp: word_uint_eq_iff)
  then obtain s where s: "ularith_ctz (?n - 1) = Some s"
    by (auto simp: ularith_ctz_def builtin_ctzl_def)
  note c = ctz_val [OF s]
  define q where "q = drop_bit s (?n - 1)"
  have q: "md m - 1 = uint q * 2 ^ s" using c(3) n1 by (simp add: q_def)
  have "s \<noteq> 0" using q False c(2) by (cases s) (auto simp: q_def even_uint)
  then obtain t where t: "s = Suc t" by (cases s) auto
  have qn: "md m - 1 = int (unat q) * 2 ^ Suc t" using q t by simp
  note st = base2_strong [OF p False qn]
  have m8: "?n mod 8 = 7 \<longleftrightarrow> md m mod 8 = 7" "?n mod 8 = 1 \<longleftrightarrow> md m mod 8 = 1"
    by (simp_all add: word_uint_eq_iff uint_mod_ul)
  have f: "(if ?n mod 8 = 7 then Some (op_is1 ops (enc m (2 ^ unat q)) m)
      else find_minus1 ops (enc m (2 ^ unat q)) (enc m (- 1)) (s - (if ?n mod 8 = 1 then 1 else 0)) m) = Some True"
  proof (cases "md m mod 8 = 7")
    case True
    have "t = 0"
    proof (rule ccontr)
      assume "t \<noteq> 0"
      then obtain u where "t = Suc u" by (cases t) auto
      then have "md m = 1 + 4 * (int (unat q) * 2 ^ u)" using qn by simp
      then show False using True by presburger
    qed
    then show ?thesis
      using True two_residue_pow [OF p _ qn] by (simp add: m8 is1 ok enc_eq_iff)
  next
    case False
    then show ?thesis using st t by (cases "md m mod 8 = 1") (simp_all add: m8 find_minus1_val ok)
  qed
  have guards: "(?n = 1) = False" "(?n mod 2 = 0) = False"
    using n False by (auto simp: even_uint odd_iff_mod_2_eq_one)
  have "mod_isprime ops m = (if ?n < 2047 then Some True
      else if ?n mod 3 = 1 then mod_isprime_1mod3 ops ?n q s (enc m (- 1)) m
      else mod_isprime_02mod3 ops ?n q s (enc m (- 1)) m)"
    unfolding mod_isprime_def
    by (simp only: Let_def s bind.simps minusone [OF ok] mod_2pow_ul_val [OF ok] q_def [symmetric] f if_False
        if_True not_True_eq_False guards)
  moreover have "61 < md m" if "\<not> ?n < 2047" using that by (simp add: word_less_def)
  ultimately show ?thesis
    using mod_isprime_1mod3_prime [OF ok p _ q] mod_isprime_02mod3_prime [OF ok p _ q] by simp
qed

end

section \<open>Jacobi symbol\<close>

lemma jacobi_twos_val:
  assumes "a \<noteq> 0"
  obtains b s u where "jacobi_twos a m t = Some (b, u)" "odd b" "uint a = uint b * 2 ^ s" "u = t \<or> u = - t"
proof -
  have "\<exists>b s u. jacobi_twos a m t = Some (b, u) \<and> odd b \<and> uint a = uint b * 2 ^ s \<and> (u = t \<or> u = - t)"
    using assms
  proof (induction "unat a" arbitrary: a t rule: less_induct)
    case less
    show ?case
    proof (cases "even a")
      case True
      let ?h = "a div 2"
      from True have "even (uint a)" by (simp add: even_uint)
      then have v: "uint a = uint ?h * 2" by (simp add: uint_div_ul)
      with less.prems have nz: "?h \<noteq> 0" by (auto simp: word_uint_eq_iff)
      have "0 < uint ?h" using nz uint_gt_m1 [of ?h] by (cases "uint ?h = 0") (simp_all add: word_uint_eq_iff)
      then have "uint ?h < uint a" unfolding v by linarith
      then have "unat ?h < unat a" by (simp only: word_less_def [symmetric] word_less_nat_alt)
      from less.hyps [OF this nz, of "if m mod 8 = 3 \<or> m mod 8 = 5 then - t else t"] obtain b s u where
        "jacobi_twos ?h m (if m mod 8 = 3 \<or> m mod 8 = 5 then - t else t) = Some (b, u)" "odd b"
        "uint ?h = uint b * 2 ^ s" "u = t \<or> u = - t" by (auto split: if_splits)
      moreover have "a mod 2 = 0" using True by (rule even_iff_mod_2_eq_zero [THEN iffD1])
      ultimately show ?thesis using v by (subst jacobi_twos.simps) (auto intro!: exI [of _ "Suc s"])
    next
      case False
      then show ?thesis by (subst jacobi_twos.simps) (auto simp: odd_iff_mod_2_eq_one intro: exI [of _ 0])
    qed
  qed
  then show thesis using that by blast
qed

lemma gcd_odd_pow2: "odd (m :: int) \<Longrightarrow> gcd (b * 2 ^ s) m = gcd b m"
  using coprime_pow2 [of m s] gcd_mult_left_right_cancel [of m "2 ^ s" b] by (simp add: coprime_commute)

lemma jacobi_loop_val:
  assumes "odd m"
  obtains g u where "jacobi_loop a m t = Some (g, u)" "uint g = gcd (uint a) (uint m)" "u = t \<or> u = - t"
proof -
  have "\<exists>g u. jacobi_loop a m t = Some (g, u) \<and> uint g = gcd (uint a) (uint m) \<and> (u = t \<or> u = - t)"
    using assms
  proof (induction "unat a" arbitrary: a m t rule: less_induct)
    case less
    show ?case
    proof (cases "a = 0")
      case True
      then show ?thesis by (subst jacobi_loop.simps) simp
    next
      case False
      then obtain b s u where b: "jacobi_twos a m t = Some (b, u)" "odd b" "uint a = uint b * 2 ^ s" "u = t \<or> u = - t"
        by (rule jacobi_twos_val)
      define v where "v = (if m mod 4 = 3 \<and> b mod 4 = 3 then - u else u)"
      have b0: "0 < uint b" using b(2) uint_gt_m1 [of b] by (cases "uint b = 0") (auto simp: even_uint [symmetric])
      then have "uint (m mod b) < uint b" by (simp add: uint_mod_ul)
      also have "uint b \<le> uint a" unfolding b(3) using b0 mult_left_mono [of 1 "2 ^ s" "uint b"] by simp
      finally have lt: "unat (m mod b) < unat a" by (simp only: word_less_def [symmetric] word_less_nat_alt)
      obtain g w where g: "jacobi_loop (m mod b) b v = Some (g, w)" "uint g = gcd (uint (m mod b)) (uint b)" "w = v \<or> w = - v"
        using less.hyps [OF lt b(2), of v] by auto
      have "gcd (uint (m mod b)) (uint b) = gcd (uint b) (uint m)"
        by (metis gcd.commute gcd_red_int uint_mod_ul)
      also have "\<dots> = gcd (uint a) (uint m)"
        unfolding b(3) using gcd_odd_pow2 less.prems by (simp add: even_uint)
      finally have "uint g = gcd (uint a) (uint m)" using g(2) by simp
      moreover have "jacobi_loop a m t = Some (g, w)"
        using False b(1) g(1) by (subst jacobi_loop.simps) (simp add: v_def Let_def)
      ultimately show ?thesis using g(3) b(4) by (auto simp: v_def)
    qed
  qed
  then show thesis using that by blast
qed

context residue_ops
begin

lemma mod_jacobi_val:
  assumes ok: "ok m" and odd: "odd (md m)"
  obtains t where "mod_jacobi ops (enc m x) m = Some t"
    "t = 0 \<longleftrightarrow> gcd x (md m) \<noteq> 1" "t = - 1 \<or> t = 0 \<or> t = 1"
proof -
  let ?a = "op_get_ul ops (enc m x) m" and ?n = "op_getmod_ul ops m"
  have a: "uint ?a = x mod md m" by (rule get_ul [OF ok])
  then have lt: "?a < ?n" using mod_pos [OF ok] by (simp add: word_less_def)
  obtain g u where g: "jacobi_loop ?a ?n 1 = Some (g, u)" "uint g = gcd (uint ?a) (uint ?n)" "u = 1 \<or> u = - 1"
    by (rule jacobi_loop_val [of ?n ?a 1]) (use odd in \<open>simp_all add: even_uint\<close>)
  have "gcd (uint ?a) (uint ?n) = gcd x (md m)" unfolding a by (metis gcd.commute gcd_red_int)
  then have "g = 1 \<longleftrightarrow> gcd x (md m) = 1" using g(2) by (simp add: word_uint_eq_iff)
  with g(1,3) lt show thesis by (intro that [of "if g \<noteq> 1 then 0 else u"]) (auto simp: mod_jacobi_def)
qed

end

section \<open>Properties of the common code\<close>

lemma rr_enc: "unit_enc B64 (op_getmod_ul modredcul_ops M) = redc_enc M"
  by (simp add: redc_enc_unit modredcul_ops_def)

lemma rr_mod: "op_getmod_ul modredcul_ops M = mr_m M"
  by (simp add: modredcul_ops_def modredcul_getmod_ul_def)

lemma pl_mod: "op_getmod_ul modul_ops m = m"
  by (simp add: modul_ops_def modul_getmod_ul_def)

lemmas rr_val = rr.mod_pow_ul_val rr.mod_pow_mp_val rr.mod_2pow_ul_val rr.mod_3pow_ul_val rr.mod_2pow_mp_val
  rr.mod_V_ul_val rr.mod_V_mp_val rr.mod_div_val rr.mod_sprp_val

lemmas pl_val = pl.mod_pow_ul_val pl.mod_pow_mp_val pl.mod_2pow_ul_val pl.mod_3pow_ul_val pl.mod_2pow_mp_val
  pl.mod_V_ul_val pl.mod_V_mp_val pl.mod_div_val pl.mod_sprp_val

text \<open>C22: exponentiation. For Montgomery residues and, all five functions again, for plain residues, the square-and-multiply loops return
  the power (no assertion on the consumed exponent fails), for every word exponent and for a multi-word
  exponent with a nonzero top word.  With a zero top word, or no word, the power is not computed: \<open>mod_pow_mp\<close> returns 1 whatever the lower
  words are, and \<open>mod_2pow_mp\<close> fails its assertion.\<close>

theorem mod_pow_correct:
  assumes "redc_ok M" and "1 < uint m"
  shows "mod_pow_ul modredcul_ops (redc_enc M x) e M = Some (redc_enc M (x ^ unat e))
       \<and> mod_2pow_ul modredcul_ops e M = Some (redc_enc M (2 ^ unat e))
       \<and> mod_3pow_ul modredcul_ops e M = Some (redc_enc M (3 ^ unat e))
       \<and> mod_pow_mp modredcul_ops (redc_enc M x) es M
           = Some (redc_enc M (if es = [] \<or> last es = 0 then 1 else x ^ mp_val es))
       \<and> mod_2pow_mp modredcul_ops es M
           = (if es = [] \<or> last es = 0 then None else Some (redc_enc M (2 ^ mp_val es)))
       \<and> mod_pow_ul modul_ops (unit_enc 1 m x) e m = Some (unit_enc 1 m (x ^ unat e))
       \<and> mod_2pow_ul modul_ops e m = Some (unit_enc 1 m (2 ^ unat e))
       \<and> mod_3pow_ul modul_ops e m = Some (unit_enc 1 m (3 ^ unat e))
       \<and> mod_pow_mp modul_ops (unit_enc 1 m x) es m
           = Some (unit_enc 1 m (if es = [] \<or> last es = 0 then 1 else x ^ mp_val es))
       \<and> mod_2pow_mp modul_ops es m
           = (if es = [] \<or> last es = 0 then None else Some (unit_enc 1 m (2 ^ mp_val es)))"
  using rr_val(1-5) [OF assms(1), unfolded rr_enc] pl_val(1-5) [OF assms(2), unfolded pl_mod]
  by simp

theorem mod_pow_correct_witness:
  "mod_pow_ul modul_ops (unit_enc 1 15 7) 10 15 = Some (unit_enc 1 15 (7 ^ unat (10 :: ul)))
     \<and> mod_pow_mp modul_ops (unit_enc 1 15 7) [5, 0] 15 = Some (unit_enc 1 15 1) \<and> mod_2pow_mp modul_ops [5, 0] 15 = None"
  using mod_pow_correct [of "\<lparr>mr_m = 15, mr_invm = 1229782938247303441, mr_one = 1\<rparr>" 15 7 10 "[5, 0]"]
  unfolding redc_ok_def by simp

text \<open>the Lucas chains of \<open>mod_V_ul\<close> and \<open>mod_V_mp\<close> (P-1 and P+1 stage 2) compute the Chebyshev
  polynomial \<open>V_e\<close>, given by its recurrence, at the residue \<open>b\<close>.\<close>

theorem mod_V_correct:
  assumes "redc_ok M" and "1 < uint m"
  shows "mod_V_ul modredcul_ops (redc_enc M b) e M = Some (redc_enc M (chebV b (unat e)))
       \<and> mod_V_mp modredcul_ops (redc_enc M b) es M
           = Some (redc_enc M (if es = [] \<or> last es = 0 then 2 else chebV b (mp_val es)))
       \<and> mod_V_ul modul_ops (unit_enc 1 m b) e m = Some (unit_enc 1 m (chebV b (unat e)))
       \<and> mod_V_mp modul_ops (unit_enc 1 m b) es m
           = Some (unit_enc 1 m (if es = [] \<or> last es = 0 then 2 else chebV b (mp_val es)))"
  using rr_val(6,7) [OF assms(1), unfolded rr_enc] pl_val(6,7) [OF assms(2), unfolded pl_mod]
  by simp

theorem mod_V_correct_witness:
  "mod_V_ul modul_ops (unit_enc 1 15 7) 5 15 = Some (unit_enc 1 15 (chebV 7 (unat (5 :: ul))))"
  using mod_V_correct [of "\<lparr>mr_m = 15, mr_invm = 1229782938247303441, mr_one = 1\<rparr>" 15 7 5 "[]"]
  unfolding redc_ok_def by simp

text \<open>division by 3, 5, 7, 11 and 13. In both representations the routine divides the residue
  exactly when the prime does not divide the modulus, by one multiplication of \<open>a + k m\<close> with the
  inverse modulo \<open>2 ^ 64\<close>; otherwise it returns 0 and leaves the result untouched.\<close>

theorem mod_div_correct:
  assumes "redc_ok M" and "1 < uint m"
  shows "(let f = \<lambda>p y. if mr_m M mod p = 0 then (False, r) else (True, redc_enc M y) in
          mod_div3 modredcul_ops r (redc_enc M (3 * y)) M = f 3 y
        \<and> mod_div5 modredcul_ops r (redc_enc M (5 * y)) M = f 5 y
        \<and> mod_div7 modredcul_ops r (redc_enc M (7 * y)) M = f 7 y
        \<and> mod_div11 modredcul_ops r (redc_enc M (11 * y)) M = f 11 y
        \<and> mod_div13 modredcul_ops r (redc_enc M (13 * y)) M = f 13 y)
      \<and> (let f = \<lambda>p y. if m mod p = 0 then (False, r) else (True, unit_enc 1 m y) in
          mod_div3 modul_ops r (unit_enc 1 m (3 * y)) m = f 3 y
        \<and> mod_div5 modul_ops r (unit_enc 1 m (5 * y)) m = f 5 y
        \<and> mod_div7 modul_ops r (unit_enc 1 m (7 * y)) m = f 7 y
        \<and> mod_div11 modul_ops r (unit_enc 1 m (11 * y)) m = f 11 y
        \<and> mod_div13 modul_ops r (unit_enc 1 m (13 * y)) m = f 13 y)"
  unfolding Let_def
  by (intro conjI rr.mod_div_val [OF assms(1), unfolded rr_enc, unfolded rr_mod]
      pl.mod_div_val [OF assms(2), unfolded pl_mod])

theorem mod_div_correct_witness:
  "mod_div7 modul_ops 0 (unit_enc 1 15 (7 * 4)) 15 = (True, unit_enc 1 15 4)"
  using mod_div_correct [of "\<lparr>mr_m = 15, mr_invm = 1229782938247303441, mr_one = 1\<rparr>" 15 0 4]
  unfolding redc_ok_def Let_def by simp

text \<open>C24: \<open>mod_gcd\<close> of the stored word is the gcd of the class and the modulus, so it does not depend
  on the representation; \<open>mod_jacobi\<close> ends for an odd modulus, returns -1, 0 or 1, and 0 exactly
  when that gcd is not 1.\<close>

theorem mod_gcd_jacobi_correct:
  assumes "redc_ok M" and "1 < uint m" and "odd (uint m)"
  shows "(\<exists>g t. mod_gcd modredcul_ops (redc_enc M x) M = Some g \<and> uint g = gcd x (uint (mr_m M))
            \<and> mod_jacobi modredcul_ops (redc_enc M x) M = Some t
            \<and> (t = 0 \<longleftrightarrow> g \<noteq> 1) \<and> t \<in> {- 1, 0, 1})
       \<and> (\<exists>g t. mod_gcd modul_ops (unit_enc 1 m x) m = Some g \<and> uint g = gcd x (uint m)
            \<and> mod_jacobi modul_ops (unit_enc 1 m x) m = Some t
            \<and> (t = 0 \<longleftrightarrow> g \<noteq> 1) \<and> t \<in> {- 1, 0, 1})"
proof -
  obtain g where g: "mod_gcd modredcul_ops (redc_enc M x) M = Some g" "uint g = gcd x (uint (mr_m M))"
    using rr.mod_gcd_val [OF assms(1), unfolded rr_enc, unfolded rr_mod] by auto
  obtain t where t: "mod_jacobi modredcul_ops (redc_enc M x) M = Some t"
    "t = 0 \<longleftrightarrow> gcd x (uint (mr_m M)) \<noteq> 1" "t = - 1 \<or> t = 0 \<or> t = 1"
    by (rule rr.mod_jacobi_val [OF assms(1), unfolded rr_enc, unfolded rr_mod, OF redc_ok_odd [OF assms(1)]])
  obtain g' where g': "mod_gcd modul_ops (unit_enc 1 m x) m = Some g'" "uint g' = gcd x (uint m)"
    using pl.mod_gcd_val [OF assms(2), unfolded pl_mod] by auto
  obtain t' where t': "mod_jacobi modul_ops (unit_enc 1 m x) m = Some t'"
    "t' = 0 \<longleftrightarrow> gcd x (uint m) \<noteq> 1" "t' = - 1 \<or> t' = 0 \<or> t' = 1"
    by (rule pl.mod_jacobi_val [OF assms(2), unfolded pl_mod, OF assms(3)])
  have "h \<noteq> 1 \<longleftrightarrow> uint h \<noteq> 1" for h :: ul by (simp add: word_uint_eq_iff)
  then show ?thesis using g t g' t' by auto
qed

theorem mod_gcd_jacobi_correct_witness:
  "\<exists>g t. mod_gcd modul_ops (unit_enc 1 15 6) 15 = Some g \<and> uint g = gcd 6 (uint (15 :: ul))
     \<and> mod_jacobi modul_ops (unit_enc 1 15 6) 15 = Some t \<and> (t = 0 \<longleftrightarrow> g \<noteq> 1) \<and> t \<in> {- 1, 0, 1}"
  using mod_gcd_jacobi_correct [of "\<lparr>mr_m = 15, mr_invm = 1229782938247303441, mr_one = 1\<rparr>" 15 6]
  unfolding redc_ok_def by simp

text \<open>C23: the strong probable-prime tests. \<open>mod_sprp\<close> decides exactly whether the modulus is a strong
  probable prime to the base, and \<open>mod_sprp2\<close>, which saves a squaring when 2 is a square, accepts
  every prime and only strong probable primes to base 2; the loops that split \<open>m - 1\<close> end.\<close>

theorem mod_sprp_correct:
  assumes "redc_ok M"
  shows "mod_sprp modredcul_ops (redc_enc M b) M =
           Some (if uint (mr_m M) \<le> 3 then 2 \<le> uint (mr_m M) else strong_probable_prime (uint (mr_m M)) b)
       \<and> (\<exists>r. mod_sprp2 modredcul_ops M = Some r \<and> (prime_int (uint (mr_m M)) \<longrightarrow> r)
            \<and> (r \<longrightarrow> uint (mr_m M) = 3 \<or> strong_probable_prime (uint (mr_m M)) 2))"
proof
  let ?n = "uint (mr_m M)"
  note o = redc_ok_odd [OF assms]
  show "mod_sprp modredcul_ops (redc_enc M b) M =
      Some (if ?n \<le> 3 then 2 \<le> ?n else strong_probable_prime ?n b)"
    using rr.mod_sprp_val [OF assms, unfolded rr_enc, unfolded rr_mod] o by simp
  show "\<exists>r. mod_sprp2 modredcul_ops M = Some r \<and> (prime_int ?n \<longrightarrow> r)
      \<and> (r \<longrightarrow> ?n = 3 \<or> strong_probable_prime ?n 2)"
  proof (cases "3 < ?n")
    case True
    obtain q s where qs: "?n - 1 = int q * 2 ^ Suc s" "odd q" "mod_sprp2 modredcul_ops M
        = Some (strong_seq ?n (2 ^ q) (s + of_bool (\<not> (?n mod 8 = 1 \<or> ?n mod 8 = 7))))"
      by (rule rr.mod_sprp2_val [OF assms, unfolded rr_mod, OF True o])
    have "strong_probable_prime ?n 2" if "strong_seq ?n (2 ^ q) (s + of_bool (\<not> (?n mod 8 = 1 \<or> ?n mod 8 = 7)))"
      using strong_probable_prime_iff [OF qs(1,2)] strong_seq_mono [OF that, of "Suc s"] by simp
    then show ?thesis using qs(3) base2_strong [OF _ o qs(1)] by auto
  next
    case False
    then have n: "?n = 1 \<or> ?n = 3" using o redc_ok_m_pos [OF assms] by presburger
    have "mr_m M \<le> 3" using n by (auto simp: word_le_def)
    then have "mod_sprp2 modredcul_ops M = Some (2 \<le> ?n)"
      by (simp add: mod_sprp2_def rr_mod Let_def) (simp add: word_le_def)
    then show ?thesis using n by (auto simp: prime_int_def)
  qed
qed

theorem mod_sprp_correct_witness:
  "mod_sprp modredcul_ops (redc_enc \<lparr>mr_m = 15, mr_invm = 1229782938247303441, mr_one = 1\<rparr> 2)
     \<lparr>mr_m = 15, mr_invm = 1229782938247303441, mr_one = 1\<rparr> = Some (strong_probable_prime 15 2)"
  using mod_sprp_correct [of "\<lparr>mr_m = 15, mr_invm = 1229782938247303441, mr_one = 1\<rparr>" 2]
  unfolding redc_ok_def by simp

text \<open>C15: \<open>mod_isprime\<close> accepts every prime modulus, in both representations: the base 2 test with one
  squaring less when 2 is a quadratic residue, the bases 3, 5, 7 and 61 of the two branches, and
  the lists of excluded pseudoprimes never reject a prime.\<close>

theorem mod_isprime_accepts_primes:
  "(redc_ok M \<and> prime_int (uint (mr_m M)) \<longrightarrow> mod_isprime modredcul_ops M = Some True)
   \<and> (prime_int (uint m) \<longrightarrow> mod_isprime modul_ops m = Some True)"
proof -
  have "1 < uint m" if "prime_int (uint m)" using that by (simp add: prime_int_def)
  then show ?thesis
    using rr.mod_isprime_prime [of M, unfolded rr_mod] pl.mod_isprime_prime [of m, unfolded pl_mod] by simp
qed

theorem mod_isprime_accepts_primes_witness: "mod_isprime modul_ops 3 = Some True"
proof -
  have "d = 1 \<or> d = 3" if "0 < d" "d dvd 3" for d :: int
    using that zdvd_imp_le [of d 3] by (cases "d = 2") auto
  then have "prime_int (uint (3 :: ul))" by (auto simp: prime_int_def)
  then show ?thesis using mod_isprime_accepts_primes [of undefined 3] by simp
qed

end
