(* ===== verification/Mod_inv.thy ===== *)
theory Mod_inv
  imports Mod_prime
begin

text \<open>
  Inverses and integer gcds: \<open>mod_inv\<close> of \<open>src/utils/mod_ul.c\<close> (extended Euclid on plain residues,
  signed cofactors), \<open>modredcul_inv\<close> of \<open>src/utils/modredc_ul.c\<close> (binary extended gcd on Montgomery
  residues with a final variable-width REDC), \<open>gcd_int64\<close> and \<open>gcd_uint64\<close>.

  A C \<open>long\<close> cofactor is a word read with \<^const>\<open>sint\<close>; its arithmetic wraps, as the compiled code
  does.  \<open>int64_t\<close> arguments are integers in range, and a negation out of range is \<^const>\<open>None\<close>.
  \<open>__builtin_ctzl (0)\<close> is undefined and hence \<^const>\<open>None\<close>.
\<close>

section \<open>Extended Euclid on plain residues\<close>

function mod_inv_loop :: "ul \<Rightarrow> ul \<Rightarrow> ul \<Rightarrow> ul \<Rightarrow> ul \<times> ul" where
  "mod_inv_loop u1 u2 v1 v2 =
     (if v2 \<noteq> 0 then
        let q = u2 div v2;
            u1 = u1 - q * v1;
            u2 = u2 - q * v2
        in if u2 = 0 then (v1, v2)
           else
             let q = v2 div u2;
                 v1 = v1 - q * u1;
                 v2 = v2 - q * u2
             in mod_inv_loop u1 u2 v1 v2
      else (u1, u2))"
  by auto
termination
proof (relation "measure (\<lambda>(u1, u2, v1, v2). unat v2)", goal_cases)
  case (2 u1 u2 v1 v2 q u1' u2' q' v1' v2')
  have u: "u2' = u2 mod v2" using 2 by (simp add: minus_div_mult_eq_mod)
  have v: "v2' = v2 mod u2'" using 2 by (simp add: minus_div_mult_eq_mod)
  have "unat v2' < unat u2'" unfolding v using 2 by (simp add: unat_mod_distrib unat_gt_0)
  also have "unat u2' < unat v2" unfolding u using 2 by (simp add: unat_mod_distrib unat_gt_0)
  finally show ?case by simp
qed simp

declare mod_inv_loop.simps [simp del]

text \<open>
  The flag and the result; the assertions are on the cofactor and, with \<open>NDEBUG\<close> unset, on the product
  with the remembered input.
\<close>

definition mod_inv :: "ul \<Rightarrow> ul \<Rightarrow> (bool \<times> ul) option" where
  "mod_inv sp m =
     (let tmp = modul_set sp m;
          s = modul_get_ul sp m;
          t = modul_getmod_ul m
      in
      if \<not> (t > 0 \<and> s < t) then None
      else if s = 0 then Some (False, 0)
      else if s = 1 then Some (True, 1)
      else
        let u1 = 1; u2 = s; v1 = - (t div s); v2 = t mod s;
            (u1, u2) = (if v2 = 1 then (v1 + t, 1)
                        else
                          let (u1, u2) = mod_inv_loop u1 u2 v1 v2
                          in (if sint u1 < 0 then u1 + t else u1, u2))
        in
        if u2 \<noteq> 1 then Some (False, 0)
        else if u1 < t then
          do { r \<leftarrow> modul_set_ul u1 m;
               tmp \<leftarrow> modul_mul tmp r m;
               if modul_is1 tmp m then Some (True, r) else None }
        else None)"

section \<open>Binary extended gcd on Montgomery residues\<close>

text \<open>
  Removing the trailing zeros of \<open>x\<close>: \<open>x >>= lsh; t += lsh; u <<= lsh\<close>, with \<open>lsh\<close> from
  \<open>__builtin_ctzl\<close> (\<open>LOOKUP_TRAILING_ZEROS 0\<close>) or byte by byte from the table.
\<close>

definition strip_ctz :: "ul \<Rightarrow> ul \<Rightarrow> nat \<Rightarrow> (ul \<times> ul \<times> nat) option" where
  "strip_ctz x u t = do { lsh \<leftarrow> builtin_ctzl x; Some (drop_bit lsh x, push_bit lsh u, t + lsh) }"

definition trailing_zeros :: "nat list" where
  "trailing_zeros =
     [8,0,1,0,2,0,1,0,3,0,1,0,2,0,1,0,4,0,1,0,2,0,1,0,3,0,1,0,2,0,1,0,
      5,0,1,0,2,0,1,0,3,0,1,0,2,0,1,0,4,0,1,0,2,0,1,0,3,0,1,0,2,0,1,0,
      6,0,1,0,2,0,1,0,3,0,1,0,2,0,1,0,4,0,1,0,2,0,1,0,3,0,1,0,2,0,1,0,
      5,0,1,0,2,0,1,0,3,0,1,0,2,0,1,0,4,0,1,0,2,0,1,0,3,0,1,0,2,0,1,0,
      7,0,1,0,2,0,1,0,3,0,1,0,2,0,1,0,4,0,1,0,2,0,1,0,3,0,1,0,2,0,1,0,
      5,0,1,0,2,0,1,0,3,0,1,0,2,0,1,0,4,0,1,0,2,0,1,0,3,0,1,0,2,0,1,0,
      6,0,1,0,2,0,1,0,3,0,1,0,2,0,1,0,4,0,1,0,2,0,1,0,3,0,1,0,2,0,1,0,
      5,0,1,0,2,0,1,0,3,0,1,0,2,0,1,0,4,0,1,0,2,0,1,0,3,0,1,0,2,0,1,0]"

partial_function (option) strip_lookup :: "ul \<Rightarrow> ul \<Rightarrow> nat \<Rightarrow> (ul \<times> ul \<times> nat) option" where
  "strip_lookup x u t =
     (let lsh = trailing_zeros ! unat (x AND 255);
          x = drop_bit lsh x;
          t = t + lsh;
          u = push_bit lsh u
      in if lsh = 8 \<and> x \<noteq> 0 then strip_lookup x u t else Some (x, u, t))"

partial_function (option) inv_inner_x ::
  "(ul \<Rightarrow> ul \<Rightarrow> nat \<Rightarrow> (ul \<times> ul \<times> nat) option) \<Rightarrow> ul \<Rightarrow> ul \<Rightarrow> ul \<Rightarrow> ul \<Rightarrow> nat
     \<Rightarrow> (ul \<times> ul \<times> ul \<times> nat) option" where
  "inv_inner_x strip x y u v t =
     (let x = x - y; v = v + u in
      Option.bind (strip x u t) (\<lambda>(x, u, t).
        if x > y then inv_inner_x strip x y u v t else Some (x, u, v, t)))"

partial_function (option) inv_inner_y ::
  "(ul \<Rightarrow> ul \<Rightarrow> nat \<Rightarrow> (ul \<times> ul \<times> nat) option) \<Rightarrow> ul \<Rightarrow> ul \<Rightarrow> ul \<Rightarrow> ul \<Rightarrow> nat
     \<Rightarrow> (ul \<times> ul \<times> ul \<times> nat) option" where
  "inv_inner_y strip x y u v t =
     (let y = y - x; u = u + v in
      Option.bind (strip y v t) (\<lambda>(y, v, t).
        if x < y then inv_inner_y strip x y u v t else Some (y, u, v, t)))"

partial_function (option) inv_outer ::
  "(ul \<Rightarrow> ul \<Rightarrow> nat \<Rightarrow> (ul \<times> ul \<times> nat) option) \<Rightarrow> ul \<Rightarrow> ul \<Rightarrow> ul \<Rightarrow> ul \<Rightarrow> nat
     \<Rightarrow> (ul \<times> ul \<times> ul \<times> ul \<times> nat) option" where
  "inv_outer strip x y u v t =
     Option.bind (inv_inner_x strip x y u v t) (\<lambda>(x, u, v, t).
       if x \<le> 1 then Some (x, y, u, v, t)
       else
         Option.bind (inv_inner_y strip x y u v t) (\<lambda>(y, u, v, t).
           if y > 1 then inv_outer strip x y u v t else Some (x, y, u, v, t)))"

text \<open>The division of \<open>u\<close> by \<open>2 ^ t\<close>: a full REDC when \<open>t\<close> is at least 64, then one of width \<open>t\<close>.\<close>

definition inv_redc_full :: "ul \<Rightarrow> modulusredcul \<Rightarrow> ul" where
  "inv_redc_full u m =
     (let tlow = u * mr_invm m;
          (tlow, thigh) = ularith_mul_ul_ul_2ul tlow (mr_m m)
      in thigh + (if u \<noteq> 0 then 1 else 0))"

definition inv_redc_var :: "ul \<Rightarrow> nat \<Rightarrow> modulusredcul \<Rightarrow> ul" where
  "inv_redc_var u t m =
     (let tlow = (u * mr_invm m) AND (push_bit t 1 - 1);
          (tlow, thigh) = ularith_mul_ul_ul_2ul tlow (mr_m m);
          (tlow, thigh) = ularith_add_ul_2ul tlow thigh u
      in ularith_shrd tlow thigh t)"

definition modredcul_inv_with ::
  "(ul \<Rightarrow> ul \<Rightarrow> nat \<Rightarrow> (ul \<times> ul \<times> nat) option) \<Rightarrow> ul \<Rightarrow> ul \<Rightarrow> modulusredcul \<Rightarrow> (bool \<times> ul) option" where
  "modredcul_inv_with strip r A m =
     (let x = mr_m m in
      if \<not> (A < x \<and> x AND 1 \<noteq> 0) then None
      else if A = 0 then Some (False, r)
      else
        do { let y = modredcul_get_ul A m;
             let y = modredcul_get_ul y m;
             (y, _, t) \<leftarrow> strip y 0 0;
             (x, y, u, v, t) \<leftarrow> inv_outer strip x y 1 0 t;
             if x AND y = 0 then Some (False, r)
             else
               do { let u = (if y \<noteq> 1 then mr_m m - v else u);
                    let (u, t) = (if t \<ge> LONG_BIT then (inv_redc_full u m, t - LONG_BIT) else (u, t));
                    if t < LONG_BIT
                    then Some (True, if t > 0 then inv_redc_var u t m else u)
                    else None } })"

definition modredcul_inv :: "ul \<Rightarrow> ul \<Rightarrow> modulusredcul \<Rightarrow> (bool \<times> ul) option" where
  "modredcul_inv r A m = modredcul_inv_with strip_ctz r A m"

definition modredcul_inv_lookup :: "ul \<Rightarrow> ul \<Rightarrow> modulusredcul \<Rightarrow> (bool \<times> ul) option" where
  "modredcul_inv_lookup r A m = modredcul_inv_with strip_lookup r A m"

section \<open>Integer gcds\<close>

definition gcd_uint64 :: "ul \<Rightarrow> ul \<Rightarrow> ul option" where
  "gcd_uint64 a b =
     (if b = 0 then None
      else let a = (if a \<ge> b then a mod b else a) in Some (mod_gcd_loop a b))"

function gcd_int64_loop :: "int \<Rightarrow> int \<Rightarrow> int" where
  "gcd_int64_loop a b = (if a > 0 then let t = b mod a; b = a; a = t in gcd_int64_loop a b else b)"
  by auto
termination
  by (relation "measure (\<lambda>(a, b). nat a)") auto

declare gcd_int64_loop.simps [simp del]

definition neg_int64 :: "int \<Rightarrow> int option" where
  "neg_int64 a = (if a = - (2 ^ 63) then None else Some (- a))"

definition gcd_int64 :: "int \<Rightarrow> int \<Rightarrow> int option" where
  "gcd_int64 a b =
     (if b = 0 then None
      else do { a \<leftarrow> (if a < 0 then neg_int64 a else Some a);
                b \<leftarrow> (if b < 0 then neg_int64 b else Some b);
                let a = (if a \<ge> b then a mod b else a);
                Some (gcd_int64_loop a b) })"

section \<open>Extended Euclid\<close>

text \<open>
  The invariant of the loop over the true cofactors \<open>U\<close> and \<open>V\<close>, of which \<open>u1\<close> and \<open>v1\<close> are the words:
  they have opposite signs and \<open>|U| * v2 + |V| * u2 = t\<close>.
\<close>

definition inv_state :: "int \<Rightarrow> int \<Rightarrow> int \<Rightarrow> ul \<Rightarrow> int \<Rightarrow> ul \<Rightarrow> bool" where
  "inv_state s t U u2 V v2 \<longleftrightarrow>
     t dvd U * s - uint u2 \<and> t dvd V * s - uint v2 \<and> U * V \<le> 0
     \<and> \<bar>U\<bar> * uint v2 + \<bar>V\<bar> * uint u2 = t \<and> gcd (uint u2) (uint v2) = gcd s t"

lemma abs_opposite: "U * V \<le> 0 \<Longrightarrow> 0 \<le> q \<Longrightarrow> \<bar>U - q * V\<bar> = \<bar>U\<bar> + q * \<bar>V\<bar>" for U V q :: int
  by (auto simp: mult_le_0_iff abs_if not_less split: if_splits)
    (use mult_nonneg_nonpos [of q V] mult_nonneg_nonneg [of q V] in linarith)+

lemma inv_state_step:
  assumes "inv_state s t U u2 V v2" "v2 \<noteq> 0"
  shows "inv_state s t V v2 (U - (uint u2 div uint v2) * V) (u2 mod v2)"
proof -
  define q where "q = uint u2 div uint v2"
  have q: "0 \<le> q" using uint_gt_m1 [of u2] uint_gt_m1 [of v2] by (simp add: q_def pos_imp_zdiv_nonneg_iff div_int_pos_iff)
  have r: "uint (u2 mod v2) = uint u2 - q * uint v2" by (simp add: uint_mod_ul q_def minus_div_mult_eq_mod)
  note I = assms(1) [unfolded inv_state_def]
  have "t dvd (U * s - uint u2) - q * (V * s - uint v2)"
    by (rule dvd_diff [OF _ dvd_mult]) (simp_all only: I)
  also have "(U * s - uint u2) - q * (V * s - uint v2) = (U - q * V) * s - uint (u2 mod v2)"
    by (simp add: r algebra_simps)
  finally have "t dvd (U - q * V) * s - uint (u2 mod v2)" .
  moreover have "V * (U - q * V) \<le> 0"
    using I q mult_nonneg_nonneg [of q "V * V"] by (simp add: algebra_simps)
  moreover have "\<bar>V\<bar> * uint (u2 mod v2) + \<bar>U - q * V\<bar> * uint v2 = t"
    using I abs_opposite [of U V q] q by (simp add: r algebra_simps)
  moreover have "gcd (uint v2) (uint (u2 mod v2)) = gcd s t"
    using I by (metis gcd.commute gcd_red_int uint_mod_ul)
  ultimately show ?thesis using I unfolding inv_state_def q_def by argo
qed

lemma div_word_step: "(u :: ul) - u div v * v = u mod v"
  by (rule minus_div_mult_eq_mod)

lemma cofactor_step: "word_of_int U - u div v * word_of_int V = (word_of_int (U - (uint u div uint v) * V) :: ul)"
  by (metis uint_div_ul wi_hom_mult wi_hom_sub word_of_int_uint)

lemma inv_state_final:
  assumes I: "inv_state s t U u2 V v2" and lt: "0 < uint v2" "uint v2 < uint u2" and z: "u2 mod v2 = 0"
  shows "t dvd V * s - uint v2" "uint v2 = gcd s t" "2 * \<bar>V\<bar> * uint v2 \<le> t"
proof -
  show "t dvd V * s - uint v2" using I by (simp only: inv_state_def)
  have "uint u2 mod uint v2 = 0" using z by (simp add: word_uint_eq_iff uint_mod_ul)
  then have dvd: "uint v2 dvd uint u2" by (simp add: dvd_eq_mod_eq_0)
  then show "uint v2 = gcd s t" using I lt by (metis inv_state_def gcd_proj2_if_dvd_int abs_of_pos)
  obtain k where k: "uint u2 = uint v2 * k" using dvd by (rule dvdE)
  with lt have "uint v2 * 1 < uint v2 * k" by simp
  then have "1 < k" using lt(1) by (simp only: mult_less_cancel_left_pos)
  then have "uint v2 * 2 \<le> uint v2 * k" using lt(1) by (intro mult_left_mono) auto
  then have "\<bar>V\<bar> * (uint v2 * 2) \<le> \<bar>V\<bar> * uint u2" unfolding k by (rule mult_left_mono) simp
  moreover have "\<bar>V\<bar> * uint u2 \<le> t"
  proof -
    have "\<bar>U\<bar> * uint v2 + \<bar>V\<bar> * uint u2 = t" using I by (simp only: inv_state_def)
    moreover have "0 \<le> \<bar>U\<bar> * uint v2" using lt by simp
    ultimately show ?thesis by linarith
  qed
  ultimately show "2 * \<bar>V\<bar> * uint v2 \<le> t" by (simp add: mult.commute mult.left_commute)
qed

lemma uint_pos_iff: "0 < uint (w :: ul) \<longleftrightarrow> w \<noteq> 0"
  using uint_gt_m1 [of w] by (auto simp: word_uint_eq_iff)

lemma uint_mod_less: "v \<noteq> 0 \<Longrightarrow> uint (u mod v :: ul) < uint v"
  using uint_pos_iff [of v] by (simp add: uint_mod_ul)

lemma mod_inv_loop_val:
  assumes "inv_state s t U u2 V v2" "0 < uint v2" "uint v2 < uint u2"
  shows "\<exists>W g. mod_inv_loop (word_of_int U) u2 (word_of_int V) v2 = (word_of_int W, g)
      \<and> t dvd W * s - uint g \<and> uint g = gcd s t \<and> 2 * \<bar>W\<bar> * uint g \<le> t"
  using assms
proof (induction "unat v2" arbitrary: U u2 V v2 rule: less_induct)
  case less
  let ?U = "U - (uint u2 div uint v2) * V" and ?u = "u2 mod v2"
  have nz: "v2 \<noteq> 0" using less.prems(2) by auto
  note step = mod_inv_loop.simps [of "word_of_int U" u2 "word_of_int V" v2]
  show ?case
  proof (cases "?u = 0")
    case True
    then have "mod_inv_loop (word_of_int U) u2 (word_of_int V) v2 = (word_of_int V, v2)"
      using nz by (subst step) (simp only: Let_def div_word_step if_True if_False simp_thms)
    then show ?thesis using inv_state_final [OF less.prems True] by blast
  next
    case False
    let ?V = "V - (uint v2 div uint ?u) * ?U" and ?v = "v2 mod ?u"
    have I1: "inv_state s t V v2 ?U ?u" by (rule inv_state_step [OF less.prems(1) nz])
    have I2: "inv_state s t ?U ?u ?V ?v" by (rule inv_state_step [OF I1 False])
    have lt: "0 < uint ?u" "uint ?u < uint v2" using False nz by (simp_all add: uint_pos_iff uint_mod_less)
    have eq: "mod_inv_loop (word_of_int U) u2 (word_of_int V) v2 = mod_inv_loop (word_of_int ?U) ?u (word_of_int ?V) ?v"
      using nz False by (subst step) (simp only: Let_def div_word_step cofactor_step if_True if_False simp_thms)
    show ?thesis
    proof (cases "?v = 0")
      case True
      then have "mod_inv_loop (word_of_int ?U) ?u (word_of_int ?V) ?v = (word_of_int ?U, ?u)"
        by (simp add: mod_inv_loop.simps [of _ _ _ 0])
      then show ?thesis unfolding eq using inv_state_final [OF I1 lt True] by blast
    next
      case False
      have v: "0 < uint ?v" "uint ?v < uint ?u" using False \<open>?u \<noteq> 0\<close> by (simp_all add: uint_pos_iff uint_mod_less)
      have "uint ?v < uint v2" using v lt by linarith
      then have "unat ?v < unat v2" by (simp only: word_less_def [symmetric] word_less_nat_alt)
      from less.hyps [OF this I2 v] show ?thesis unfolding eq .
    qed
  qed
qed

lemma sint_word_of_int: "- (2 ^ 63) \<le> W \<Longrightarrow> W < 2 ^ 63 \<Longrightarrow> sint (word_of_int W :: ul) = W"
  by (simp add: sint_sbintrunc' signed_take_bit_int_eq_self)

lemma mod_inv_check:
  assumes "uint s < uint t" "1 < uint t" "uint u < uint t" "(uint u * uint s) mod uint t = 1"
  shows "do { r \<leftarrow> modul_set_ul u t; tmp \<leftarrow> modul_mul s r t; if modul_is1 tmp t then Some (True, r) else None }
    = Some (True, u)"
proof -
  have "t \<noteq> 0" using assms(2) by auto
  moreover have "u mod t = u" using assms(3) by (simp add: word_uint_eq_iff uint_mod_ul)
  moreover obtain r where "modul_mul s u t = Some r" "uint r = (uint s * uint u) mod uint t"
    by (rule modul_mul_val [OF assms(1,3)])
  ultimately show ?thesis
    using assms(4) word_uint_eq_iff [of r 1]
    by (simp add: modul_set_ul_def ul_mod_def modul_is1_def mult.commute)
qed

lemma inv_state_init:
  assumes "1 < uint s" "uint s < uint t"
  shows "inv_state (uint s) (uint t) 1 s (- (uint t div uint s)) (t mod s)"
proof -
  have e: "uint t div uint s * uint s + uint t mod uint s = uint t" by simp
  have "- (uint t div uint s) * uint s - uint t mod uint s = - (uint t div uint s * uint s + uint t mod uint s)"
    by (simp only: mult_minus_left minus_add_distrib diff_conv_add_uminus)
  then have "- (uint t div uint s) * uint s - uint t mod uint s = - uint t" unfolding e .
  then have "uint t dvd - (uint t div uint s) * uint s - uint t mod uint s" by simp
  moreover have "0 \<le> uint t div uint s" using assms by (simp add: pos_imp_zdiv_nonneg_iff)
  moreover have "gcd (uint s) (uint t mod uint s) = gcd (uint s) (uint t)" by (metis gcd.commute gcd_red_int)
  ultimately show ?thesis unfolding inv_state_def uint_mod_ul using e by simp
qed

lemma cofactor_reduced:
  assumes t: "1 < uint (t :: ul)" and W: "uint t dvd W * s - 1" "2 * \<bar>W\<bar> \<le> uint t"
  defines "u \<equiv> (if sint (word_of_int W :: ul) < 0 then word_of_int W + t else word_of_int W)"
  shows "uint u < uint t" "(uint u * s) mod uint t = 1"
proof -
  have b: "- (2 ^ 63) < W" "W < 2 ^ 63" using W(2) uint_ltB64 [of t] by auto
  have "W \<noteq> 0"
  proof
    assume "W = 0"
    then have "uint t dvd 1" using W(1) by simp
    then show False using t by simp
  qed
  define k where "k = (if W < 0 then W + uint t else W)"
  have k: "0 \<le> k" "k < uint t" using W(2) \<open>W \<noteq> 0\<close> t by (auto simp: k_def)
  have "sint (word_of_int W :: ul) = W" using b by (intro sint_word_of_int) auto
  then have "u = word_of_int k" by (simp add: u_def k_def wi_hom_add [symmetric])
  then have u: "uint u = k" using k uint_ltB64 [of t] by (simp add: uint_of_int_ul)
  show "uint u < uint t" using u k by simp
  have "k * s - 1 = (W * s - 1) + uint t * (if W < 0 then s else 0)" by (simp add: k_def algebra_simps)
  then have "uint t dvd k * s - 1" using W(1) by (metis dvd_add dvd_triv_left)
  then have "(k * s) mod uint t = 1 mod uint t" by (simp only: mod_eq_dvd_iff)
  then show "(uint u * s) mod uint t = 1" using u t by simp
qed

definition mod_inv_cofactor :: "ul \<Rightarrow> ul \<Rightarrow> ul \<times> ul" where
  "mod_inv_cofactor s t = (if t mod s = 1 then (- (t div s) + t, 1)
     else let (u1, u2) = mod_inv_loop 1 s (- (t div s)) (t mod s) in (if sint u1 < 0 then u1 + t else u1, u2))"

lemma mod_inv_cofactor_val:
  assumes s: "1 < uint s" "uint s < uint t"
  defines "U \<equiv> mod_inv_cofactor s t"
  shows "if coprime (uint s) (uint t) then snd U = 1 \<and> uint (fst U) < uint t \<and> (uint (fst U) * uint s) mod uint t = 1
    else snd U \<noteq> 1"
proof -
  have t1: "1 < uint t" using s by linarith
  have gc: "gcd (uint s) (uint t) = gcd (uint s) (uint (t mod s))" by (metis gcd.commute gcd_red_int uint_mod_ul)
  have d: "0 < uint t div uint s" "uint t div uint s \<le> uint t"
    using s by (simp_all add: pos_imp_zdiv_pos_iff zdiv_mono2 [of "uint t" 1 "uint s", simplified])
  consider "t mod s = 1" | "t mod s = 0" | "t mod s \<noteq> 1" "t mod s \<noteq> 0" by blast
  then show ?thesis
  proof cases
    case 1
    have "coprime (uint s) (uint t)" using gc 1 by (simp add: coprime_iff_gcd_eq_1)
    moreover have "uint t mod uint s = 1" using 1 by (metis uint_mod_ul unsigned_1)
    then have e: "uint t div uint s * uint s = uint t - 1" using div_mult_mod_eq [of "uint t" "uint s"] by linarith
    have "uint (t - t div s) = uint t - uint t div uint s" using d by (simp add: uint_sub_ul uint_div_ul)
    then have u: "uint (fst U) = uint t - uint t div uint s" using 1 by (simp add: U_def mod_inv_cofactor_def)
    have "uint (fst U) * uint s = 1 + uint t * (uint s - 1)" unfolding u using e by (simp add: algebra_simps)
    then have "(uint (fst U) * uint s) mod uint t = 1" using t1 by simp
    ultimately show ?thesis using 1 u d by (simp add: U_def mod_inv_cofactor_def)
  next
    case 2
    then show ?thesis using gc s
      by (auto simp: U_def mod_inv_cofactor_def mod_inv_loop.simps [of _ _ _ 0] coprime_iff_gcd_eq_1)
  next
    case 3
    have "0 < uint (t mod s)" "uint (t mod s) < uint s"
      using 3 s by (auto simp: uint_pos_iff intro: uint_mod_less)
    from mod_inv_loop_val [OF inv_state_init [OF s] this] obtain W g where
      W: "mod_inv_loop (word_of_int 1) s (word_of_int (- (uint t div uint s))) (t mod s) = (word_of_int W, g)"
        "uint t dvd W * uint s - uint g" "uint g = gcd (uint s) (uint t)" "2 * \<bar>W\<bar> * uint g \<le> uint t" by blast
    have "- (t div s) = word_of_int (- (uint t div uint s))"
      by (metis uint_div_ul wi_hom_neg word_of_int_uint)
    then have U: "U = (if sint (word_of_int W :: ul) < 0 then word_of_int W + t else word_of_int W, g)"
      using W(1) 3 by (simp add: U_def mod_inv_cofactor_def)
    show ?thesis
    proof (cases "coprime (uint s) (uint t)")
      case True
      then have g: "uint g = 1" using W(3) by (simp add: coprime_iff_gcd_eq_1)
      then have "g = 1" by (simp add: word_uint_eq_iff)
      then show ?thesis using True U g cofactor_reduced [OF t1, of W "uint s"] W(2,4) by simp
    next
      case False
      then have "g \<noteq> 1" using W(3) by (auto simp: coprime_iff_gcd_eq_1)
      then show ?thesis using False U by simp
    qed
  qed
qed

lemma mod_inv_val:
  assumes lt: "uint s < uint t"
  shows "\<exists>f r. mod_inv s t = Some (f, r) \<and> (f \<longleftrightarrow> coprime (uint s) (uint t) \<and> s \<noteq> 0) \<and> uint r < uint t
    \<and> (if f then (uint r * uint s) mod uint t = 1 else r = 0)"
proof -
  have w: "\<not> \<not> (t > 0 \<and> s < t)" using lt uint_gt_m1 [of s] by (simp add: word_less_def)
  have t0: "0 < uint t" using lt uint_gt_m1 [of s] by linarith
  consider "s = 0" | "s = 1" | "1 < uint s" using uint_gt_m1 [of s] by (fastforce simp: word_uint_eq_iff)
  then show ?thesis
  proof cases
    case 1
    then show ?thesis using w t0 by (intro exI [of _ False] exI [of _ 0]) (simp add: mod_inv_def modul_get_ul_def modul_getmod_ul_def)
  next
    case 2
    then show ?thesis using w lt by (intro exI [of _ True] exI [of _ 1]) (simp add: mod_inv_def modul_get_ul_def modul_getmod_ul_def)
  next
    case 3
    note I = inv_state_init [OF 3 lt]
    have t1: "1 < uint t" using 3 lt by linarith
    have s0: "s \<noteq> 0" "s \<noteq> 1" using 3 by auto
    define U where "U = mod_inv_cofactor s t"
    have eq: "mod_inv s t = (if snd U \<noteq> 1 then Some (False, 0)
        else if fst U < t then do { r \<leftarrow> modul_set_ul (fst U) t; tmp \<leftarrow> modul_mul s r t; if modul_is1 tmp t then Some (True, r) else None }
        else None)"
      using w s0 by (simp add: mod_inv_def U_def mod_inv_cofactor_def modul_set_def modul_get_ul_def modul_getmod_ul_def Let_def split_beta)
    note key = mod_inv_cofactor_val [OF 3 lt, folded U_def]
    show ?thesis
    proof (cases "coprime (uint s) (uint t)")
      case True
      then show ?thesis using key mod_inv_check [OF lt t1, of "fst U"] s0 by (intro exI [of _ True] exI [of _ "fst U"]) (simp add: eq word_less_def)
    qed (use key t0 in \<open>auto simp: eq\<close>)
  qed
qed

section \<open>Stripping trailing zeros\<close>

locale strip_zeros =
  fixes strip :: "ul \<Rightarrow> ul \<Rightarrow> nat \<Rightarrow> (ul \<times> ul \<times> nat) option"
  assumes strip: "x \<noteq> 0 \<Longrightarrow>
    \<exists>l. strip x u t = Some (drop_bit l x, push_bit l u, t + l) \<and> odd (drop_bit l x) \<and> uint x = uint (drop_bit l x) * 2 ^ l"

interpretation st_ctz: strip_zeros strip_ctz
proof
  fix x u :: ul and t assume "x \<noteq> 0"
  then obtain l where l: "builtin_ctzl x = Some l" by (auto simp: builtin_ctzl_def)
  then show "\<exists>l. strip_ctz x u t = Some (drop_bit l x, push_bit l u, t + l) \<and> odd (drop_bit l x)
      \<and> uint x = uint (drop_bit l x) * 2 ^ l"
    using ctz_val [of x l] by (auto simp: strip_ctz_def ularith_ctz_def)
qed

lemma trailing_zeros_length: "length trailing_zeros = 256"
  by (simp add: trailing_zeros_def)

definition tz_entry_ok :: "nat \<Rightarrow> nat \<Rightarrow> bool" where
  "tz_entry_ok b l \<longleftrightarrow> (if b = 0 then l = 8 else l < 8 \<and> b mod 2 ^ l = 0 \<and> odd (b div 2 ^ l))"

lemma trailing_zeros_ok: "list_all2 tz_entry_ok [0..<256] trailing_zeros"
  unfolding trailing_zeros_def by (simp add: upt_rec tz_entry_ok_def)

lemma trailing_zeros_nth: "b < 256 \<Longrightarrow> tz_entry_ok b (trailing_zeros ! b)"
  using trailing_zeros_ok by (simp add: list_all2_conv_all_nth)

lemma byte_entry:
  fixes x :: ul
  defines "l \<equiv> trailing_zeros ! unat (x AND 255)"
  shows "l = 8 \<and> uint x = uint (drop_bit 8 x) * 2 ^ 8
     \<or> l < 8 \<and> odd (drop_bit l x) \<and> uint x = uint (drop_bit l x) * 2 ^ l"
proof -
  have "(255 :: ul) = mask 8" by (simp add: mask_eq_exp_minus_1)
  then have b: "int (unat (x AND 255)) = uint x mod 256" using uint_and_mask [of x 8] by simp
  then have "unat (x AND 255) < 256" using pos_mod_bound [of 256 "uint x"] by linarith
  from trailing_zeros_nth [OF this] have ok: "tz_entry_ok (unat (x AND 255)) l" by (simp add: l_def)
  define h where "h = uint x div 256"
  have x: "uint x = 256 * h + int (unat (x AND 255))" unfolding b h_def by simp
  show ?thesis
  proof (cases "unat (x AND 255) = 0")
    case True
    then show ?thesis using ok x by (simp add: tz_entry_ok_def uint_drop_bit)
  next
    case False
    then have l: "l < 8" and d: "unat (x AND 255) mod 2 ^ l = 0" "odd (unat (x AND 255) div 2 ^ l)"
      using ok by (simp_all add: tz_entry_ok_def)
    define c where "c = unat (x AND 255) div 2 ^ l"
    have "unat (x AND 255) = c * 2 ^ l" using d(1) by (auto simp: c_def)
    moreover have "256 * h = (2 * (2 ^ (7 - l) * h)) * 2 ^ l"
    proof -
      have "(2 :: int) * 2 ^ (7 - l) * 2 ^ l = 2 ^ Suc (7 - l + l)" by (simp only: power_add power_Suc)
      also have "Suc (7 - l + l) = 8" using l by simp
      finally show ?thesis by (simp add: ac_simps)
    qed
    ultimately have xv: "uint x = (2 * (2 ^ (7 - l) * h) + int c) * 2 ^ l"
      using x by (simp add: distrib_right)
    then have dv: "uint (drop_bit l x) = 2 * (2 ^ (7 - l) * h) + int c"
      by (simp add: uint_drop_bit)
    moreover have "odd (drop_bit l x)" using d(2) dv by (simp add: even_uint [symmetric] c_def)
    ultimately show ?thesis using l xv by simp
  qed
qed

interpretation st_lookup: strip_zeros strip_lookup
proof
  fix x u :: ul and t assume "x \<noteq> 0"
  then show "\<exists>l. strip_lookup x u t = Some (drop_bit l x, push_bit l u, t + l) \<and> odd (drop_bit l x)
      \<and> uint x = uint (drop_bit l x) * 2 ^ l"
  proof (induction "unat x" arbitrary: x u t rule: less_induct)
    case less
    define l where "l = trailing_zeros ! unat (x AND 255)"
    note step = strip_lookup.simps [of x u t]
    consider "l = 8" "uint x = uint (drop_bit 8 x) * 2 ^ 8" | "l < 8" "odd (drop_bit l x)" "uint x = uint (drop_bit l x) * 2 ^ l"
      using byte_entry [of x] by (auto simp: l_def)
    then show ?case
    proof cases
      case 1
      let ?h = "drop_bit 8 x"
      have nz: "?h \<noteq> 0" using 1(2) less.prems by (auto simp: word_uint_eq_iff)
      then have "uint ?h < uint x" using 1(2) uint_pos_iff [of ?h] by simp
      then have "unat ?h < unat x" by (simp only: word_less_def [symmetric] word_less_nat_alt)
      from less.hyps [OF this nz, of "push_bit 8 u" "t + 8"] obtain k where
        k: "strip_lookup ?h (push_bit 8 u) (t + 8) = Some (drop_bit k ?h, push_bit k (push_bit 8 u), t + 8 + k)"
          "odd (drop_bit k ?h)" "uint ?h = uint (drop_bit k ?h) * 2 ^ k" by blast
      have "strip_lookup x u t = strip_lookup ?h (push_bit 8 u) (t + 8)"
        using 1(1) nz by (subst step) (simp only: l_def [symmetric] Let_def simp_thms if_True)
      moreover have "drop_bit k ?h = drop_bit (k + 8) x" "push_bit k (push_bit 8 u) = push_bit (k + 8) u"
        by (simp_all only: drop_bit_drop_bit push_bit_push_bit)
      moreover have "(2 :: int) ^ (8 + k) = 2 ^ k * 2 ^ 8" by (simp add: power_add)
      ultimately show ?thesis
        using k 1(2) by (intro exI [of _ "k + 8"]) (simp only: mult.assoc [symmetric] add.assoc add.commute [of k] simp_thms)
    next
      case 2
      then show ?thesis by (subst step) (simp add: l_def [symmetric] Let_def)
    qed
  qed
qed

lemma strip_zero: "strip_ctz 0 u t = None" "strip_lookup 0 u t = Some (0, push_bit 8 u, t + 8)"
  by (simp_all add: strip_ctz_def builtin_ctzl_def strip_lookup.simps [of 0] trailing_zeros_def)

section \<open>The binary extended gcd\<close>

text \<open>
  With \<open>Y\<close> the initial value of \<open>y\<close> and \<open>s\<close> a sign, the loop keeps \<open>x u + y v = m\<close> exactly,
  \<open>Y u = s y 2^t\<close> and \<open>Y v = - s x 2^t\<close> modulo \<open>m\<close>, and \<open>x y 2^t \<le> m Y\<close>, which bounds the shifts.
\<close>

definition bgcd :: "int \<Rightarrow> int \<Rightarrow> int \<Rightarrow> ul \<Rightarrow> ul \<Rightarrow> ul \<Rightarrow> ul \<Rightarrow> nat \<Rightarrow> bool" where
  "bgcd m Y s x y u v t \<longleftrightarrow>
     odd (uint x) \<and> odd (uint y) \<and> uint x * uint u + uint y * uint v = m
     \<and> m dvd Y * uint u - s * (uint y * 2 ^ t) \<and> m dvd Y * uint v + s * (uint x * 2 ^ t)
     \<and> uint x * uint y * 2 ^ t \<le> m * Y \<and> gcd (uint x) (uint y) = gcd m Y"

lemma bgcd_swap: "bgcd m Y s x y u v t \<Longrightarrow> bgcd m Y (- s) y x v u t"
  by (auto simp: bgcd_def add.commute mult.commute gcd.commute)

lemma odd_uint_pos: "odd (uint (x :: ul)) \<Longrightarrow> 0 < uint x"
  using uint_gt_m1 [of x] by (cases "uint x = 0") auto

lemma bgcd_step:
  assumes I: "bgcd m Y s x y u v t" and lt: "uint y < uint x" and m: "m < B64"
    and l: "uint (x - y) = uint x' * 2 ^ l" "odd x'"
  shows "bgcd m Y s x' y (push_bit l u) (v + u) (t + l)"
    "uint (v + u) = uint v + uint u" "uint (push_bit l u) = uint u * 2 ^ l" "uint x' < uint x"
proof -
  note I' = I [unfolded bgcd_def]
  have d: "uint (x - y) = uint x - uint y" using lt by (simp add: uint_sub_ul)
  have y: "0 < uint y" using I' by (intro odd_uint_pos) auto
  have x': "0 < uint x'" using l(2) by (intro odd_uint_pos) (simp add: even_uint)
  have u0: "0 \<le> uint u" "0 \<le> uint v" by simp_all
  have sum: "uint (x - y) * uint u + uint y * (uint v + uint u) = m" using I' by (simp add: d algebra_simps)
  have "1 * (uint v + uint u) \<le> uint y * (uint v + uint u)" using y u0 by (intro mult_right_mono) auto
  also have "\<dots> \<le> m" using sum mult_nonneg_nonneg [OF uint_ge_0 [of "x - y"] u0(1)] by linarith
  finally have "uint v + uint u \<le> m" by simp
  then show vu: "uint (v + u) = uint v + uint u" using m by (simp add: uint_add_ul)
  have "1 * (uint u * 2 ^ l) \<le> uint x' * (uint u * 2 ^ l)" using x' u0 by (intro mult_right_mono) auto
  also have "\<dots> = uint (x - y) * uint u" using l(1) by simp
  also have "\<dots> \<le> m" using sum mult_nonneg_nonneg [of "uint y" "uint v + uint u"] y u0 by linarith
  finally have "uint u * 2 ^ l \<le> m" by simp
  then show pu: "uint (push_bit l u) = uint u * 2 ^ l" using m u0 by (simp add: uint_push_bit)
  have "uint x' * 1 \<le> uint x' * 2 ^ l" using x' by (intro mult_left_mono) auto
  then show xl: "uint x' < uint x" using l(1) d y by linarith
  have c1: "m dvd (Y * uint u - s * (uint y * 2 ^ t)) * 2 ^ l" by (rule dvd_mult2) (simp only: I')
  have c2: "m dvd (Y * uint u - s * (uint y * 2 ^ t)) + (Y * uint v + s * (uint x * 2 ^ t))"
    by (rule dvd_add) (simp_all only: I')
  have e1: "(Y * uint u - s * (uint y * 2 ^ t)) * 2 ^ l = Y * uint (push_bit l u) - s * (uint y * 2 ^ (t + l))"
    by (simp add: pu power_add algebra_simps)
  have xt: "uint x' * 2 ^ (t + l) = (uint x - uint y) * 2 ^ t" using l(1) d by (simp add: power_add algebra_simps)
  have e2: "(Y * uint u - s * (uint y * 2 ^ t)) + (Y * uint v + s * (uint x * 2 ^ t))
      = Y * uint (v + u) + s * (uint x' * 2 ^ (t + l))"
    unfolding xt vu by (simp add: algebra_simps)
  have xu: "uint x' * uint (push_bit l u) + uint y * uint (v + u) = m"
    unfolding pu vu using sum l(1) by (simp add: algebra_simps)
  have "uint x' * uint y * 2 ^ (t + l) = uint x' * 2 ^ (t + l) * uint y" by (simp only: ac_simps)
  also have "\<dots> = (uint x - uint y) * 2 ^ t * uint y" by (simp only: xt)
  also have "\<dots> \<le> uint x * 2 ^ t * uint y" using y by (intro mult_right_mono) auto
  also have "\<dots> \<le> m * Y" using I' by (simp add: ac_simps)
  finally have b: "uint x' * uint y * 2 ^ (t + l) \<le> m * Y" .
  have "gcd (uint x') (uint y) = gcd (uint x' * 2 ^ l) (uint y)" using I' by (simp add: gcd_odd_pow2)
  also have "\<dots> = gcd (uint x - uint y) (uint y)" using l(1) d by simp
  also have "\<dots> = gcd (uint x) (uint y)" by (simp add: gcd_diff1)
  also have "\<dots> = gcd m Y" using I' by simp
  finally have g: "gcd (uint x') (uint y) = gcd m Y" .
  show "bgcd m Y s x' y (push_bit l u) (v + u) (t + l)"
    unfolding bgcd_def using c1 c2 xu b g I' l(2) unfolding e1 e2 by (simp add: even_uint)
qed

context strip_zeros
begin

lemma inv_inner_x_val:
  assumes "bgcd m Y s x y u v t" "uint y < uint x" "m < B64"
  shows "\<exists>x' u' v' t'. inv_inner_x strip x y u v t = Some (x', u', v', t') \<and> bgcd m Y s x' y u' v' t'
    \<and> uint x' \<le> uint y \<and> uint x' < uint x \<and> uint u + uint v \<le> uint v'"
  using assms
proof (induction "unat x" arbitrary: x u v t rule: less_induct)
  case less
  have "x - y \<noteq> 0" using less.prems(2) by auto
  from strip [OF this, of u t] obtain l where l: "strip (x - y) u t = Some (drop_bit l (x - y), push_bit l u, t + l)"
    "odd (drop_bit l (x - y))" "uint (x - y) = uint (drop_bit l (x - y)) * 2 ^ l" by blast
  let ?x = "drop_bit l (x - y)"
  note b = bgcd_step [OF less.prems l(3,2)]
  have eq: "inv_inner_x strip x y u v t = (if ?x > y then inv_inner_x strip ?x y (push_bit l u) (v + u) (t + l)
      else Some (?x, push_bit l u, v + u, t + l))"
    by (subst inv_inner_x.simps) (simp add: l(1))
  show ?case
  proof (cases "?x > y")
    case True
    have "unat ?x < unat x" using b(4) by (simp only: word_less_def [symmetric] word_less_nat_alt)
    moreover have "uint y < uint ?x" using True by (simp add: word_less_def)
    ultimately obtain x' u' v' t' where r: "inv_inner_x strip ?x y (push_bit l u) (v + u) (t + l) = Some (x', u', v', t')"
      "bgcd m Y s x' y u' v' t'" "uint x' \<le> uint y" "uint x' < uint ?x" "uint (push_bit l u) + uint (v + u) \<le> uint v'"
      using less.hyps [OF _ b(1)] less.prems(3) by blast
    have "uint u + uint v \<le> uint v'" using r(5) b(2) uint_gt_m1 [of "push_bit l u"] by linarith
    moreover have "uint x' < uint x" using r(4) b(4) by linarith
    ultimately show ?thesis using True r(1-3) by (simp add: eq)
  next
    case False
    then show ?thesis using b(1,2,4) by (simp add: eq word_less_def)
  qed
qed

lemma inv_inner_y_val:
  assumes "bgcd m Y s x y u v t" "uint x < uint y" "m < B64"
  shows "\<exists>y' u' v' t'. inv_inner_y strip x y u v t = Some (y', u', v', t') \<and> bgcd m Y s x y' u' v' t'
    \<and> uint y' \<le> uint x \<and> uint u + uint v \<le> uint u' \<and> uint v \<le> uint v'"
  using assms
proof (induction "unat y" arbitrary: y u v t rule: less_induct)
  case less
  have "y - x \<noteq> 0" using less.prems(2) by auto
  from strip [OF this, of v t] obtain l where l: "strip (y - x) v t = Some (drop_bit l (y - x), push_bit l v, t + l)"
    "odd (drop_bit l (y - x))" "uint (y - x) = uint (drop_bit l (y - x)) * 2 ^ l" by blast
  let ?y = "drop_bit l (y - x)"
  note b = bgcd_step [OF bgcd_swap [OF less.prems(1)] less.prems(2,3) l(3,2)]
  have I: "bgcd m Y s x ?y (u + v) (push_bit l v) (t + l)" using bgcd_swap [OF b(1)] by simp
  have eq: "inv_inner_y strip x y u v t = (if x < ?y then inv_inner_y strip x ?y (u + v) (push_bit l v) (t + l)
      else Some (?y, u + v, push_bit l v, t + l))"
    by (subst inv_inner_y.simps) (simp add: l(1))
  have pv: "uint v \<le> uint (push_bit l v)"
    unfolding b(3) using mult_left_mono [of 1 "2 ^ l" "uint v"] by simp
  show ?case
  proof (cases "x < ?y")
    case True
    have "unat ?y < unat y" using b(4) by (simp only: word_less_def [symmetric] word_less_nat_alt)
    moreover have "uint x < uint ?y" using True by (simp add: word_less_def)
    ultimately obtain y' u' v' t' where r: "inv_inner_y strip x ?y (u + v) (push_bit l v) (t + l) = Some (y', u', v', t')"
      "bgcd m Y s x y' u' v' t'" "uint y' \<le> uint x" "uint (u + v) + uint (push_bit l v) \<le> uint u'"
      "uint (push_bit l v) \<le> uint v'"
      using less.hyps [OF _ I] less.prems(3) by blast
    have "uint u + uint v \<le> uint u'" using r(4) b(2) uint_gt_m1 [of "push_bit l v"] by linarith
    then show ?thesis using True r(1-3,5) pv by (simp add: eq)
  next
    case False
    then show ?thesis using I b(2) pv by (simp add: eq word_less_def)
  qed
qed

lemma inv_outer_coprime:
  assumes "bgcd m Y 1 x y u v t" "uint y < uint x" "m < B64" "gcd m Y = 1" "0 < uint u"
  shows "\<exists>x' y' u' v' t'. inv_outer strip x y u v t = Some (x', y', u', v', t') \<and> bgcd m Y 1 x' y' u' v' t'
    \<and> (uint x' = 1 \<or> uint y' = 1) \<and> 0 < uint v'"
  using assms
proof (induction "unat x" arbitrary: x y u v t rule: less_induct)
  case less
  obtain x1 u1 v1 t1 where 1: "inv_inner_x strip x y u v t = Some (x1, u1, v1, t1)" "bgcd m Y 1 x1 y u1 v1 t1"
    "uint x1 \<le> uint y" "uint x1 < uint x" "uint u + uint v \<le> uint v1"
    using inv_inner_x_val [OF less.prems(1-3)] by blast
  have v1: "0 < uint v1" using 1(5) less.prems(5) uint_gt_m1 [of v] by linarith
  have o: "odd (uint x1)" "gcd (uint x1) (uint y) = 1" using 1(2) less.prems(4) by (auto simp: bgcd_def)
  show ?case
  proof (cases "x1 \<le> 1")
    case True
    then have "uint x1 = 1" using odd_uint_pos [OF o(1)] by (simp add: word_le_def)
    moreover have "inv_outer strip x y u v t = Some (x1, y, u1, v1, t1)"
      using 1(1) True by (subst inv_outer.simps) simp
    ultimately show ?thesis using 1(2) v1 by blast
  next
    case False
    have "uint x1 \<noteq> uint y" using o(2) False odd_uint_pos [OF o(1)] by (auto simp: word_le_def)
    then have "uint x1 < uint y" using 1(3) by simp
    from inv_inner_y_val [OF 1(2) this less.prems(3)] obtain y2 u2 v2 t2 where
      2: "inv_inner_y strip x1 y u1 v1 t1 = Some (y2, u2, v2, t2)" "bgcd m Y 1 x1 y2 u2 v2 t2"
        "uint y2 \<le> uint x1" "uint u1 + uint v1 \<le> uint u2" "uint v1 \<le> uint v2" by blast
    have eq: "inv_outer strip x y u v t = (if y2 > 1 then inv_outer strip x1 y2 u2 v2 t2 else Some (x1, y2, u2, v2, t2))"
      using 1(1) 2(1) False by (subst inv_outer.simps) simp
    have o2: "odd (uint y2)" "gcd (uint x1) (uint y2) = 1" using 2(2) less.prems(4) by (auto simp: bgcd_def)
    show ?thesis
    proof (cases "y2 > 1")
      case True
      have "uint x1 \<noteq> uint y2" using o2(2) True odd_uint_pos [OF o2(1)] by (auto simp: word_less_def)
      then have lt: "uint y2 < uint x1" using 2(3) by simp
      have "unat x1 < unat x" using 1(4) by (simp only: word_less_def [symmetric] word_less_nat_alt)
      moreover have "0 < uint u2" using 2(4) v1 uint_gt_m1 [of u1] by linarith
      ultimately show ?thesis
        using less.hyps [OF _ 2(2) lt less.prems(3,4)] True by (simp add: eq)
    next
      case False
      then have "uint y2 = 1" using odd_uint_pos [OF o2(1)] by (simp add: word_less_def)
      then show ?thesis using eq False 2(2,5) v1 by auto
    qed
  qed
qed

text \<open>When the gcd is not 1 the loop subtracts two equal values and strips zeros from 0.\<close>

lemma inv_outer_common:
  assumes "bgcd m Y 1 x y u v t" "uint y \<le> uint x" "m < B64" "gcd m Y \<noteq> 1"
    and z: "(\<forall>u t. strip 0 u t = None) \<or> (\<forall>u t. \<exists>u' t'. strip 0 u t = Some (0, u', t'))"
  shows "if strip 0 0 0 = None then inv_outer strip x y u v t = None
    else \<exists>x' y' u' v' t'. inv_outer strip x y u v t = Some (x', y', u', v', t') \<and> x' AND y' = 0"
  using assms(1-4)
proof (induction "unat x" arbitrary: x y u v t rule: less_induct)
  case less
  show ?case
  proof (cases "uint y = uint x")
    case True
    then have [simp]: "y = x" by (simp add: word_uint_eq_iff)
    from z show ?thesis
    proof (elim disjE)
      assume "\<forall>u t. \<exists>u' t'. strip 0 u t = Some (0, u', t')"
      then obtain u' t' where s: "strip 0 u t = Some (0, u', t')" by blast
      then have "inv_inner_x strip x y u v t = Some (0, u', v + u, t')" by (subst inv_inner_x.simps) simp
      then have "inv_outer strip x y u v t = Some (0, y, u', v + u, t')" by (subst inv_outer.simps) simp
      moreover have "strip 0 0 0 \<noteq> None" using s z by (metis option.discI)
      ultimately show ?thesis by simp
    qed (auto simp: inv_outer.simps [of _ x] inv_inner_x.simps [of _ x])
  next
    case False
    then have "uint y < uint x" using less.prems(2) by simp
    from inv_inner_x_val [OF less.prems(1) this less.prems(3)] obtain x1 u1 v1 t1 where
      1: "inv_inner_x strip x y u v t = Some (x1, u1, v1, t1)" "bgcd m Y 1 x1 y u1 v1 t1"
        "uint x1 \<le> uint y" "uint x1 < uint x" by blast
    have o: "odd (uint x1)" "gcd (uint x1) (uint y) \<noteq> 1" using 1(2) less.prems(4) by (auto simp: bgcd_def)
    then have x1: "\<not> x1 \<le> 1" using odd_uint_pos [OF o(1)] by (cases "uint x1 = 1") (auto simp: word_le_def)
    have eq: "inv_outer strip x y u v t = Option.bind (inv_inner_y strip x1 y u1 v1 t1) (\<lambda>(y, u, v, t).
           if y > 1 then inv_outer strip x1 y u v t else Some (x1, y, u, v, t))"
      using 1(1) x1 by (subst inv_outer.simps) simp
    show ?thesis
    proof (cases "uint x1 = uint y")
      case True
      then have [simp]: "x1 = y" by (simp add: word_uint_eq_iff)
      from z show ?thesis
      proof (elim disjE)
        assume "\<forall>u t. \<exists>u' t'. strip 0 u t = Some (0, u', t')"
        then obtain v' t' where s: "strip 0 v1 t1 = Some (0, v', t')" by blast
        then have "inv_inner_y strip x1 y u1 v1 t1 = Some (0, u1 + v1, v', t')" by (subst inv_inner_y.simps) simp
        moreover have "strip 0 0 0 \<noteq> None" using s z by (metis option.discI)
        ultimately show ?thesis by (simp add: eq)
      qed (auto simp: eq inv_inner_y.simps [of _ y])
    next
      case False
      then have "uint x1 < uint y" using 1(3) by simp
      from inv_inner_y_val [OF 1(2) this less.prems(3)] obtain y2 u2 v2 t2 where
        2: "inv_inner_y strip x1 y u1 v1 t1 = Some (y2, u2, v2, t2)" "bgcd m Y 1 x1 y2 u2 v2 t2"
          "uint y2 \<le> uint x1" by blast
      have "odd (uint y2)" "gcd (uint x1) (uint y2) \<noteq> 1" using 2(2) less.prems(4) by (auto simp: bgcd_def)
      then have "y2 > 1" using odd_uint_pos [of y2] by (cases "uint y2 = 1") (auto simp: word_less_def)
      then have eq2: "inv_outer strip x y u v t = inv_outer strip x1 y2 u2 v2 t2" using 2(1) by (simp add: eq)
      have "unat x1 < unat x" using 1(4) by (simp only: word_less_def [symmetric] word_less_nat_alt)
      from less.hyps [OF this 2(2,3) less.prems(3,4)] show ?thesis unfolding eq2 .
    qed
  qed
qed

end

section \<open>The final division by a power of two\<close>

lemma inv_redc_full_eq: "inv_redc_full u M = modredcul_frommontgomery u M"
  by (simp add: inv_redc_full_def modredcul_frommontgomery_def)

lemma inv_redc_full_val:
  assumes ok: "redc_ok M" and u: "uint u < uint (mr_m M)"
  shows "uint (inv_redc_full u M) < uint (mr_m M)"
    "(uint (inv_redc_full u M) * 2 ^ 64) mod uint (mr_m M) = uint u mod uint (mr_m M)"
proof -
  have "mr_m M * mr_invm M = - 1" using ok by (simp add: redc_ok_def)
  from modul_frommontgomery_val [OF this u] show "uint (inv_redc_full u M) < uint (mr_m M)"
    "(uint (inv_redc_full u M) * 2 ^ 64) mod uint (mr_m M) = uint u mod uint (mr_m M)"
    by (simp_all add: inv_redc_full_eq modredcul_frommontgomery_eq)
qed

lemma inv_redc_var_val:
  assumes ok: "redc_ok M" and u: "uint u < uint (mr_m M)" and t: "t < 64"
  shows "uint (inv_redc_var u t M) < uint (mr_m M)"
    "(uint (inv_redc_var u t M) * 2 ^ t) mod uint (mr_m M) = uint u mod uint (mr_m M)"
proof -
  let ?m = "uint (mr_m M)"
  define w where "w = (u * mr_invm M) AND (push_bit t 1 - 1)"
  have "push_bit t 1 - 1 = (mask t :: ul)" by (simp add: mask_eq_exp_minus_1)
  then have w: "uint w = uint (u * mr_invm M) mod 2 ^ t" by (simp only: w_def uint_and_mask)
  obtain lo hi where p: "x86_mul w (mr_m M) = (lo, hi)" by fastforce
  have pv: "val2 lo hi = uint w * ?m" by (rule x86_mul_val [OF p])
  obtain lo2 hi2 where a: "ularith_add_ul_2ul lo hi u = (lo2, hi2)" by fastforce
  define S where "S = uint w * ?m + uint u"
  have p2: "(0 :: int) < 2 ^ t" by simp
  have "uint w + 1 \<le> 2 ^ t" using w pos_mod_bound [OF p2, of "uint (u * mr_invm M)"] by linarith
  then have "(uint w + 1) * ?m \<le> 2 ^ t * ?m" by (intro mult_right_mono) simp_all
  then have Sb: "S < 2 ^ t * ?m" using u by (simp add: S_def algebra_simps)
  have "(2 :: int) ^ t * ?m \<le> B64 * B64"
  proof (intro mult_mono)
    have "(2 :: int) ^ t \<le> 2 ^ 64" using t by (intro power_increasing) auto
    then show "(2 :: int) ^ t \<le> B64" by simp
    show "?m \<le> B64" using uint_ltB64 [of "mr_m M"] by simp
  qed simp_all
  then have S128: "S < B64 * B64" using Sb by linarith
  have S: "val2 lo2 hi2 = S"
    using ularith_add_2ul_2ul_val [of lo hi u 0 lo2 hi2] a S128 pv
    by (simp add: ularith_add_2ul_2ul_def ularith_add_ul_2ul_def val2_def S_def)
  have inv: "mr_m M * mr_invm M = - 1" using ok by (simp add: redc_ok_def)
  have "u * mr_invm M * mr_m M + u = 0" unfolding mult.assoc using inv by (simp add: mult.commute)
  then have "uint (u * mr_invm M * mr_m M + u) = 0" by simp
  then have "word_of_int (uint (u * mr_invm M) * ?m + uint u) = (0 :: ul)"
    by (metis uint_0_iff wi_hom_add wi_hom_mult word_of_int_uint)
  then have "(2 :: int) ^ 64 dvd uint (u * mr_invm M) * ?m + uint u"
    using uint_word_of_int_dvd [of "uint (u * mr_invm M) * ?m + uint u"] by (simp only: unsigned_0 diff_0 dvd_minus_iff)
  moreover have "(2 :: int) ^ t dvd 2 ^ 64" using t by (intro le_imp_power_dvd) simp
  ultimately have "(2 :: int) ^ t dvd uint (u * mr_invm M) * ?m + uint u" by (rule dvd_trans [rotated])
  then have "(uint (u * mr_invm M) * ?m + uint u) mod 2 ^ t = 0" by (simp only: mod_eq_0_iff_dvd)
  then have "S mod 2 ^ t = 0" unfolding S_def w by (metis mod_add_left_eq mod_mult_left_eq)
  then have dv: "(2 :: int) ^ t dvd S" by (simp only: mod_eq_0_iff_dvd)
  have r: "inv_redc_var u t M = word_of_int (S div 2 ^ t)"
    using p a ularith_shrd_val [OF t, of lo2 hi2]
    unfolding inv_redc_var_def w_def [symmetric] by (simp add: ularith_mul_ul_ul_2ul_def S)
  have "0 \<le> S" using uint_gt_m1 [of u] by (simp add: S_def)
  then have "0 \<le> S div 2 ^ t" by (simp add: pos_imp_zdiv_nonneg_iff)
  moreover have lt: "S div 2 ^ t < ?m" using Sb by (intro int_div_less) (simp_all add: mult.commute)
  ultimately have v: "uint (inv_redc_var u t M) = S div 2 ^ t"
    using uint_ltB64 [of "mr_m M"] by (simp add: r uint_of_int_ul)
  show "uint (inv_redc_var u t M) < ?m" using v lt by simp
  have "uint (inv_redc_var u t M) * 2 ^ t = S" using v dv by simp
  then show "(uint (inv_redc_var u t M) * 2 ^ t) mod ?m = uint u mod ?m" by (simp add: S_def)
qed

section \<open>The inverse\<close>

lemma inv_redc_val:
  assumes ok: "redc_ok M" and u: "uint u < uint (mr_m M)" and t: "t < 128"
  obtains r where "(let (u, t) = (if t \<ge> LONG_BIT then (inv_redc_full u M, t - LONG_BIT) else (u, t))
      in if t < LONG_BIT then Some (True, if t > 0 then inv_redc_var u t M else u) else None) = Some (True, r)"
    "uint r < uint (mr_m M)" "(uint r * 2 ^ t) mod uint (mr_m M) = uint u mod uint (mr_m M)"
proof -
  let ?m = "uint (mr_m M)"
  have var: "uint r < ?m \<and> (uint r * 2 ^ k) mod ?m = uint w mod ?m"
    if "r = (if k > 0 then inv_redc_var w k M else w)" "uint w < ?m" "k < 64" for r w k
    using inv_redc_var_val [OF ok that(2,3)] that by (cases "k > 0") auto
  show thesis
  proof (cases "t \<ge> 64")
    case True
    let ?w = "inv_redc_full u M" and ?k = "t - 64"
    note w = inv_redc_full_val [OF ok u]
    define r where "r = (if ?k > 0 then inv_redc_var ?w ?k M else ?w)"
    have k: "?k < 64" using t by simp
    note v = var [OF r_def w(1) k]
    have "(2 :: int) ^ t = 2 ^ ?k * 2 ^ 64" using True by (simp only: power_add [symmetric]) simp
    then have "(uint r * 2 ^ t) mod ?m = (((uint r * 2 ^ ?k) mod ?m) * 2 ^ 64) mod ?m"
      by (simp only: mod_mult_left_eq mult.assoc)
    also have "\<dots> = ((uint ?w mod ?m) * 2 ^ 64) mod ?m" using v by (simp only:)
    also have "\<dots> = uint u mod ?m" using w(2) by (simp only: mod_mult_left_eq)
    finally show thesis using v k True by (intro that [of r]) (simp_all only: r_def LONG_BIT_def Let_def if_True split simp_thms)
  next
    case False
    define r where "r = (if t > 0 then inv_redc_var u t M else u)"
    have "t < 64" using False by simp
    from var [OF r_def u this] show thesis using False
      by (intro that [of r]) (auto simp: r_def LONG_BIT_def)
  qed
qed

lemma shift_bound:
  assumes "uint (x :: ul) * uint (y :: ul) * 2 ^ t \<le> m * Y" "0 < uint x" "0 < uint y" "0 \<le> m" "m < B64" "0 \<le> Y" "Y < B64"
  shows "t < 128"
proof (rule ccontr)
  assume "\<not> t < 128"
  then have "(2 :: int) ^ 128 \<le> 2 ^ t" by (intro power_increasing) auto
  also have "\<dots> \<le> uint x * uint y * 2 ^ t"
  proof -
    have "1 * 1 \<le> uint x * uint y" using assms(2,3) by (intro mult_mono) auto
    then show ?thesis using mult_right_mono [of 1 "uint x * uint y" "2 ^ t"] by simp
  qed
  also have "\<dots> \<le> m * Y" by (rule assms(1))
  also have "\<dots> \<le> (B64 - 1) * (B64 - 1)" using assms(4-7) by (intro mult_mono) auto
  finally show False by simp
qed

lemma get_get_val:
  fixes x :: int
  assumes ok: "redc_ok M"
  defines "Y \<equiv> modredcul_get_ul (modredcul_get_ul (redc_enc M x) M) M"
  shows "uint Y < uint (mr_m M)" "(uint Y * B64) mod uint (mr_m M) = x mod uint (mr_m M)"
proof -
  have inv: "mr_m M * mr_invm M = - 1" using ok by (simp add: redc_ok_def)
  have g: "uint (modredcul_get_ul (redc_enc M x) M) = x mod uint (mr_m M)"
    by (simp add: modredcul_get_ul_def frommontgomery_enc [OF ok])
  then have "uint (modredcul_get_ul (redc_enc M x) M) < uint (mr_m M)" using redc_ok_m_pos [OF ok] by simp
  from modul_frommontgomery_val [OF inv this] show "uint Y < uint (mr_m M)"
    "(uint Y * B64) mod uint (mr_m M) = x mod uint (mr_m M)"
    unfolding Y_def modredcul_get_ul_def [of "modredcul_get_ul _ _"] modredcul_frommontgomery_eq by (simp_all add: g)
qed

context strip_zeros
begin

lemma bgcd_init:
  assumes Y: "0 < uint Y" "uint Y < uint m" and om: "odd (uint m)"
  obtains y t where "strip Y 0 0 = Some (y, 0, t)" "bgcd (uint m) (uint Y) 1 m y 1 0 t" "uint y < uint m"
proof -
  have "Y \<noteq> 0" using Y(1) by auto
  from strip [OF this, of 0 0] obtain l where l: "strip Y 0 0 = Some (drop_bit l Y, 0, l)"
    "odd (drop_bit l Y)" "uint Y = uint (drop_bit l Y) * 2 ^ l" by auto
  let ?y = "drop_bit l Y"
  have o: "odd (uint ?y)" using l(2) by (simp add: even_uint)
  have "uint ?y * 1 \<le> uint ?y * 2 ^ l" by (intro mult_left_mono) simp_all
  then have "uint ?y < uint m" using l(3) Y(2) by linarith
  moreover have "gcd (uint m) (uint ?y) = gcd (uint m) (uint Y)"
    unfolding l(3) using gcd_odd_pow2 [OF om, of "uint ?y" l] by (simp add: gcd.commute)
  then have "bgcd (uint m) (uint Y) 1 m ?y 1 0 l"
    unfolding bgcd_def using om o l(3) [symmetric] by (simp add: mult.assoc)
  ultimately show thesis using l(1) by (intro that)
qed

lemma inv_with_coprime:
  assumes ok: "redc_ok M" and m1: "1 < uint (mr_m M)" and cop: "coprime x (uint (mr_m M))"
  obtains z where "modredcul_inv_with strip r (redc_enc M x) M = Some (True, redc_enc M z)"
    "(z * x) mod uint (mr_m M) = 1"
proof -
  let ?m = "uint (mr_m M)" and ?A = "redc_enc M x"
  define Y where "Y = modredcul_get_ul (modredcul_get_ul ?A M) M"
  note Yv = get_get_val [OF ok, of x, folded Y_def]
  have om: "odd ?m" by (rule redc_ok_odd [OF ok])
  have gY: "gcd ?m (uint Y) = 1"
  proof -
    have "gcd ?m (uint Y * B64) = gcd ?m x" using Yv(2) by (metis gcd.commute gcd_red_int)
    then have "coprime ?m (uint Y * B64)" using cop by (simp only: coprime_iff_gcd_eq_1 gcd.commute)
    then have "coprime ?m (uint Y)" by (simp only: coprime_mult_right_iff)
    then show ?thesis by (simp only: coprime_iff_gcd_eq_1)
  qed
  have "uint Y \<noteq> 0" using gY m1 by auto
  then have Y0: "0 < uint Y" using uint_gt_m1 [of Y] by linarith
  obtain y0 t0 where i: "strip Y 0 0 = Some (y0, 0, t0)" "bgcd ?m (uint Y) 1 (mr_m M) y0 1 0 t0" "uint y0 < ?m"
    by (rule bgcd_init [OF Y0 Yv(1) om])
  obtain x' y' u' v' t' where f: "inv_outer strip (mr_m M) y0 1 0 t0 = Some (x', y', u', v', t')"
    "bgcd ?m (uint Y) 1 x' y' u' v' t'" "uint x' = 1 \<or> uint y' = 1" "0 < uint v'"
    using inv_outer_coprime [OF i(2,3) uint_ltB64 gY] by auto
  note I = f(2) [unfolded bgcd_def]
  have pos: "0 < uint x'" "0 < uint y'" using I by (auto intro: odd_uint_pos)
  have t': "t' < 128"
    by (rule shift_bound [of x' y' _ ?m "uint Y"]) (use I pos uint_ltB64 in auto)
  define u where "u = (if y' \<noteq> 1 then mr_m M - v' else u')"
  have ub: "uint u' < ?m" "uint v' \<le> ?m"
  proof -
    have "1 * uint u' \<le> uint x' * uint u'" using pos by (intro mult_right_mono) auto
    moreover have "1 * uint v' \<le> uint y' * uint v'" using pos by (intro mult_right_mono) auto
    moreover have "uint x' * uint u' + uint y' * uint v' = ?m" using I by blast
    ultimately have "uint u' + uint v' \<le> ?m" by simp
    then show "uint u' < ?m" "uint v' \<le> ?m" using f(4) uint_gt_m1 [of u'] by linarith+
  qed
  have u: "uint u < ?m" "?m dvd uint Y * uint u - 2 ^ t'"
  proof -
    have d: "?m dvd uint Y * uint u' - uint y' * 2 ^ t'" "?m dvd uint Y * uint v' + uint x' * 2 ^ t'" using I by simp_all
    have y1: "y' = 1 \<longleftrightarrow> uint y' = 1" by (simp add: word_uint_eq_iff)
    have v: "uint (mr_m M - v') = ?m - uint v'" using ub(2) by (simp add: uint_sub_ul)
    show "uint u < ?m" using ub f(4) v by (simp add: u_def)
    show "?m dvd uint Y * uint u - 2 ^ t'"
    proof (cases "y' = 1")
      case True
      then show ?thesis using d(1) by (simp add: u_def)
    next
      case False
      then have "uint x' = 1" using f(3) y1 by simp
      then have "?m dvd ?m * uint Y - (uint Y * uint v' + 2 ^ t')" using d(2) by (intro dvd_diff) simp_all
      moreover have "uint Y * uint u - 2 ^ t' = ?m * uint Y - (uint Y * uint v' + 2 ^ t')"
        unfolding u_def using False v by (simp add: right_diff_distrib mult.commute)
      ultimately show ?thesis by (simp only:)
    qed
  qed
  obtain r' where r': "(let (u, t) = (if t' \<ge> LONG_BIT then (inv_redc_full u M, t' - LONG_BIT) else (u, t'))
      in if t < LONG_BIT then Some (True, if t > 0 then inv_redc_var u t M else u) else None) = Some (True, r')"
    "uint r' < ?m" "(uint r' * 2 ^ t') mod ?m = uint u mod ?m"
    by (rule inv_redc_val [OF ok u(1) t'])
  have "odd x'" "odd y'" using I by (simp_all add: even_uint)
  then have "bit (x' AND y') 0" unfolding bit_and_iff by (simp add: bit_0)
  then have nz: "x' AND y' \<noteq> 0" by auto
  have "?A \<noteq> 0"
  proof
    assume "?A = 0"
    then have "redc_enc M x = redc_enc M 0" by (simp add: redc_enc_def [of M 0])
    then have "?m dvd x" by (simp add: redc_enc_eq_iff [OF ok] dvd_eq_mod_eq_0)
    then have "?m dvd 1" using cop by (metis coprime_def dvd_refl)
    then show False using m1 by simp
  qed
  moreover have "\<not> \<not> (?A < mr_m M \<and> mr_m M AND 1 \<noteq> 0)"
    using redc_enc_less [OF ok, of x] om by (simp add: word_less_def and_one_eq even_uint odd_iff_mod_2_eq_one)
  ultimately have run: "modredcul_inv_with strip r ?A M = Some (True, r')"
    using i(1) f(1) nz r'(1)
    by (simp add: modredcul_inv_with_def Y_def [symmetric] u_def [symmetric])
  obtain z where z: "r' = redc_enc M z" by (rule redc_enc_surj [OF ok r'(2)])
  have "(z * x) mod ?m = 1"
  proof -
    have "(uint Y * uint r') * 2 ^ t' mod ?m = (uint Y * (uint u mod ?m)) mod ?m"
      using r'(3) by (metis mod_mult_right_eq mult.assoc)
    also have "\<dots> = (1 * 2 ^ t') mod ?m" using u(2) by (simp add: mod_mult_right_eq mod_eq_dvd_iff)
    finally have "?m dvd (uint Y * uint r' - 1) * 2 ^ t'" by (simp add: mod_eq_dvd_iff left_diff_distrib)
    then have "?m dvd uint Y * uint r' - 1"
      using coprime_pow2 [OF om, of t'] by (metis coprime_dvd_mult_left_iff)
    then have "(uint Y * uint r') mod ?m = 1 mod ?m" by (simp only: mod_eq_dvd_iff)
    moreover have "(uint Y * uint r') mod ?m = (z * x) mod ?m"
    proof -
      have "(uint Y * uint r') mod ?m = (uint Y * (z * B64)) mod ?m"
        by (simp add: z uint_redc_enc [OF ok] mod_mult_right_eq)
      also have "\<dots> = ((uint Y * B64) mod ?m * z) mod ?m" by (simp add: mod_mult_left_eq mod_mult_right_eq ac_simps)
      also have "\<dots> = (z * x) mod ?m" unfolding Yv(2) by (simp add: mod_mult_right_eq mult.commute [of _ z])
      finally show ?thesis .
    qed
    ultimately show ?thesis using m1 by simp
  qed
  with run z show thesis by (intro that [of z]) simp_all
qed

lemma inv_with_common:
  assumes ok: "redc_ok M" and cop: "\<not> coprime x (uint (mr_m M))" and nz: "redc_enc M x \<noteq> 0"
    and z: "(\<forall>u t. strip 0 u t = None) \<or> (\<forall>u t. \<exists>u' t'. strip 0 u t = Some (0, u', t'))"
  shows "modredcul_inv_with strip r (redc_enc M x) M = (if strip 0 0 0 = None then None else Some (False, r))"
proof -
  let ?m = "uint (mr_m M)" and ?A = "redc_enc M x"
  define Y where "Y = modredcul_get_ul (modredcul_get_ul ?A M) M"
  note Yv = get_get_val [OF ok, of x, folded Y_def]
  have om: "odd ?m" by (rule redc_ok_odd [OF ok])
  have gY: "gcd ?m (uint Y) \<noteq> 1"
  proof
    assume "gcd ?m (uint Y) = 1"
    then have "coprime ?m (uint Y)" by (simp only: coprime_iff_gcd_eq_1)
    then have "coprime ?m (uint Y * B64)"
      using coprime_B64 [OF om] by (simp only: coprime_mult_right_iff simp_thms)
    moreover have "gcd ?m (uint Y * B64) = gcd ?m x" using Yv(2) by (metis gcd.commute gcd_red_int)
    ultimately show False using cop by (simp only: coprime_iff_gcd_eq_1 gcd.commute simp_thms)
  qed
  have "uint Y \<noteq> 0"
  proof
    assume "uint Y = 0"
    then have "x mod ?m = 0 mod ?m" using Yv(2) by simp
    then have "redc_enc M x = redc_enc M 0" by (simp only: redc_enc_eq_iff [OF ok])
    then show False using nz by (simp add: redc_enc_def [of M 0])
  qed
  then have Y0: "0 < uint Y" using uint_gt_m1 [of Y] by linarith
  obtain y0 t0 where i: "strip Y 0 0 = Some (y0, 0, t0)" "bgcd ?m (uint Y) 1 (mr_m M) y0 1 0 t0" "uint y0 < ?m"
    by (rule bgcd_init [OF Y0 Yv(1) om])
  have "\<not> \<not> (?A < mr_m M \<and> mr_m M AND 1 \<noteq> 0)"
    using redc_enc_less [OF ok, of x] om by (simp add: word_less_def and_one_eq even_uint odd_iff_mod_2_eq_one)
  then show ?thesis
    using inv_outer_common [OF i(2) less_imp_le [OF i(3)] uint_ltB64 gY z] i(1) nz
    by (auto simp: modredcul_inv_with_def Y_def [symmetric] split: if_splits)
qed

lemma inv_with_zero:
  assumes ok: "redc_ok M"
  shows "modredcul_inv_with strip r 0 M = Some (False, r)"
  using redc_ok_m_pos [OF ok] redc_ok_odd [OF ok]
  by (simp add: modredcul_inv_with_def word_less_def and_one_eq even_uint odd_iff_mod_2_eq_one Let_def)

end

section \<open>Integer gcds\<close>

lemma gcd_int64_loop_val: "0 \<le> a \<Longrightarrow> 0 \<le> b \<Longrightarrow> gcd_int64_loop a b = gcd a b"
proof (induction a b rule: gcd_int64_loop.induct)
  case (1 a b)
  show ?case
  proof (cases "a > 0")
    case True
    then have "gcd_int64_loop a b = gcd (b mod a) a"
      using 1 by (subst gcd_int64_loop.simps) simp
    then show ?thesis by (metis gcd.commute gcd_red_int)
  qed (use 1 in \<open>subst gcd_int64_loop.simps, simp\<close>)
qed

section \<open>Properties\<close>

text \<open>\<open>mod_inv\<close>. For a reduced residue the extended Euclid loop ends, none of its assertions fail,
  and it returns 1 exactly when the residue is a unit, with the reduced inverse, and 0 with result 0
  otherwise. The wrapped signed cofactors give the right sign for every modulus below \<open>2 ^ 64\<close>.\<close>

theorem mod_inv_correct:
  assumes "uint s < uint m"
  shows "\<exists>f r. mod_inv s m = Some (f, r) \<and> (f \<longleftrightarrow> coprime (uint s) (uint m) \<and> s \<noteq> 0) \<and> uint r < uint m
    \<and> (if f then (uint r * uint s) mod uint m = 1 else r = 0)"
  by (rule mod_inv_val [OF assms])

theorem mod_inv_correct_witness:
  "\<exists>f r. mod_inv 7 15 = Some (f, r) \<and> (f \<longleftrightarrow> coprime (uint (7 :: ul)) (uint (15 :: ul)) \<and> (7 :: ul) \<noteq> 0)
    \<and> uint r < uint (15 :: ul) \<and> (if f then (uint r * uint (7 :: ul)) mod uint (15 :: ul) = 1 else r = 0)"
  by (rule mod_inv_correct) simp

text \<open>C16: \<open>modredcul_inv\<close>. For a unit \<open>x\<close> the binary extended gcd ends after fewer than 128 shifts, no
  assertion fails, and the result is the Montgomery form of an inverse of \<open>x\<close>; the table-driven
  variant agrees. For 0 both return 0 and leave the result untouched. For a nonzero residue that
  shares a factor with the modulus the table-driven variant returns 0, while the default variant
  reaches \<open>__builtin_ctzl (0)\<close>, which is undefined.\<close>

theorem modredcul_inv_correct:
  assumes "redc_ok M" and "1 < uint (mr_m M)"
  shows "if coprime x (uint (mr_m M)) then
           (\<exists>z. modredcul_inv r (redc_enc M x) M = Some (True, redc_enc M z) \<and> (z * x) mod uint (mr_m M) = 1)
           \<and> (\<exists>z. modredcul_inv_lookup r (redc_enc M x) M = Some (True, redc_enc M z) \<and> (z * x) mod uint (mr_m M) = 1)
         else if x mod uint (mr_m M) = 0 then
           modredcul_inv r (redc_enc M x) M = Some (False, r) \<and> modredcul_inv_lookup r (redc_enc M x) M = Some (False, r)
         else modredcul_inv r (redc_enc M x) M = None \<and> modredcul_inv_lookup r (redc_enc M x) M = Some (False, r)"
proof -
  have zero: "redc_enc M x = 0 \<longleftrightarrow> x mod uint (mr_m M) = 0"
    using redc_enc_eq_iff [OF assms(1), of x 0] by (simp add: redc_enc_def [of M 0])
  note defs = modredcul_inv_def modredcul_inv_lookup_def
  show ?thesis
  proof (cases "coprime x (uint (mr_m M))")
    case True
    obtain z where "modredcul_inv r (redc_enc M x) M = Some (True, redc_enc M z)" "(z * x) mod uint (mr_m M) = 1"
      unfolding defs by (rule st_ctz.inv_with_coprime [OF assms True])
    moreover obtain z' where "modredcul_inv_lookup r (redc_enc M x) M = Some (True, redc_enc M z')" "(z' * x) mod uint (mr_m M) = 1"
      unfolding defs by (rule st_lookup.inv_with_coprime [OF assms True])
    ultimately show ?thesis using True by auto
  next
    case False
    show ?thesis
    proof (cases "redc_enc M x = 0")
      case True
      then show ?thesis
        using False zero st_ctz.inv_with_zero [OF assms(1), of r] st_lookup.inv_with_zero [OF assms(1), of r]
        by (simp add: defs)
    next
      case nz: False
      then show ?thesis
        using False zero st_ctz.inv_with_common [OF assms(1) False nz, of r]
          st_lookup.inv_with_common [OF assms(1) False nz, of r]
        by (simp add: defs strip_zero)
    qed
  qed
qed

theorem modredcul_inv_correct_witness:
  "\<exists>z. modredcul_inv 0 (redc_enc \<lparr>mr_m = 15, mr_invm = 1229782938247303441, mr_one = 1\<rparr> 2)
     \<lparr>mr_m = 15, mr_invm = 1229782938247303441, mr_one = 1\<rparr>
   = Some (True, redc_enc \<lparr>mr_m = 15, mr_invm = 1229782938247303441, mr_one = 1\<rparr> z) \<and> (z * 2) mod 15 = 1"
proof -
  have "coprime 2 (15 :: int)" by simp
  then show ?thesis
    using modredcul_inv_correct [of "\<lparr>mr_m = 15, mr_invm = 1229782938247303441, mr_one = 1\<rparr>" 2 0]
    unfolding redc_ok_def by simp
qed

text \<open>\<open>gcd_uint64\<close> and \<open>gcd_int64\<close> return the gcd for every nonzero second argument, the latter for
  all signed arguments but \<open>INT64_MIN\<close>, whose negation overflows.\<close>

theorem gcd_64_correct:
  assumes "b \<noteq> 0" and "- (2 ^ 63) < i" and "- (2 ^ 63) < j" and "j \<noteq> 0"
  shows "(\<exists>g. gcd_uint64 a b = Some g \<and> uint g = gcd (uint a) (uint b)) \<and> gcd_int64 i j = Some (gcd i j)"
proof
  have "gcd (uint a mod uint b) (uint b) = gcd (uint a) (uint b)" by (metis gcd.commute gcd_red_int)
  then show "\<exists>g. gcd_uint64 a b = Some g \<and> uint g = gcd (uint a) (uint b)"
    using assms(1) by (simp add: gcd_uint64_def mod_gcd_loop_val uint_mod_ul)
  have "gcd (\<bar>i\<bar> mod \<bar>j\<bar>) \<bar>j\<bar> = gcd \<bar>i\<bar> \<bar>j\<bar>" by (metis gcd.commute gcd_red_int)
  then have g: "gcd_int64_loop (if \<bar>i\<bar> \<ge> \<bar>j\<bar> then \<bar>i\<bar> mod \<bar>j\<bar> else \<bar>i\<bar>) \<bar>j\<bar> = gcd i j"
    using assms(4) by (simp add: gcd_int64_loop_val)
  have "(if i < 0 then neg_int64 i else Some i) = Some \<bar>i\<bar>" "(if j < 0 then neg_int64 j else Some j) = Some \<bar>j\<bar>"
    using assms(2,3) by (auto simp: neg_int64_def)
  then show "gcd_int64 i j = Some (gcd i j)" using assms(4) g by (simp add: gcd_int64_def Let_def)
qed

theorem gcd_64_correct_witness:
  "(\<exists>g. gcd_uint64 12 18 = Some g \<and> uint g = gcd (uint (12 :: ul)) (uint (18 :: ul))) \<and> gcd_int64 (- 12) 18 = Some (gcd (- 12) 18)"
  by (rule gcd_64_correct) simp_all

end
