(* ===== verification/Dclist.thy ===== *)
theory Dclist
  imports Prelude "HOL-Library.Monad_Syntax"
begin

text \<open>
  Model of \<open>src/filter/dclist.c\<close>: doubly-chained lists of columns.  A pointer is an address of a
  store of cells; \<open>NULL\<close> is \<^const>\<open>None\<close>.  \<open>malloc\<close> gives an address never used before and always
  succeeds; an operation returns \<^const>\<open>None\<close> when it dereferences \<open>NULL\<close>, a pointer to a freed cell
  or a pointer that was never allocated, or when an assertion fails.

  The predicate \<open>dls\<close> says that a store holds a list; with it each operation is shown to be the
  operation on lists that its comment announces.
\<close>

record dclist_cell =
  dcl_j :: int
  dcl_prev :: "nat option"
  dcl_next :: "nat option"

record dclist_store =
  cells :: "nat \<Rightarrow> dclist_cell option"
  brk :: nat

definition set_cell :: "nat \<Rightarrow> dclist_cell \<Rightarrow> dclist_store \<Rightarrow> dclist_store" where
  "set_cell p c s = s \<lparr> cells := (cells s)(p := Some c) \<rparr>"

definition free_cell :: "nat \<Rightarrow> dclist_store \<Rightarrow> dclist_store" where
  "free_cell p s = s \<lparr> cells := (cells s)(p := None) \<rparr>"

definition dclistCreate :: "dclist_store \<Rightarrow> int \<Rightarrow> nat \<times> dclist_store" where
  "dclistCreate s j =
     (brk s, set_cell (brk s) \<lparr> dcl_j = j, dcl_prev = None, dcl_next = None \<rparr> (s \<lparr> brk := brk s + 1 \<rparr>))"

partial_function (option) dclistClear :: "nat \<Rightarrow> dclist_store \<Rightarrow> dclist_store option" where
  "dclistClear p s =
     do { c \<leftarrow> cells s p;
          s \<leftarrow> (case dcl_next c of None \<Rightarrow> Some s | Some n \<Rightarrow> dclistClear n s);
          Some (free_cell p s) }"

text \<open>The loop of \<open>dclistLength\<close>, from a cell and a counter.\<close>

partial_function (option) dclistLength_loop :: "dclist_store \<Rightarrow> nat \<Rightarrow> int \<Rightarrow> int option" where
  "dclistLength_loop s p l =
     do { c \<leftarrow> cells s p;
          (case dcl_next c of None \<Rightarrow> Some (l + 1) | Some n \<Rightarrow> dclistLength_loop s n (l + 1)) }"

definition dclistLength :: "dclist_store \<Rightarrow> nat \<Rightarrow> int option" where
  "dclistLength s p = dclistLength_loop s p (- 1)"

text \<open>The first loop of \<open>dclistCheck\<close> walks to the last cell, the second back to the first.\<close>

partial_function (option) dclistCheck_forth :: "dclist_store \<Rightarrow> nat \<Rightarrow> nat option" where
  "dclistCheck_forth s p =
     do { c \<leftarrow> cells s p;
          (case dcl_next c of None \<Rightarrow> Some p
           | Some n \<Rightarrow> do { d \<leftarrow> cells s n; if dcl_prev d = Some p then dclistCheck_forth s n else None }) }"

partial_function (option) dclistCheck_back :: "dclist_store \<Rightarrow> nat \<Rightarrow> nat option" where
  "dclistCheck_back s p =
     do { c \<leftarrow> cells s p;
          (case dcl_prev c of None \<Rightarrow> Some p
           | Some n \<Rightarrow> do { d \<leftarrow> cells s n; if dcl_next d = Some p then dclistCheck_back s n else None }) }"

definition dclistCheck :: "dclist_store \<Rightarrow> nat \<Rightarrow> nat option" where
  "dclistCheck s p = do { q \<leftarrow> dclistCheck_forth s p; dclistCheck_back s q }"

definition dclistInsert :: "dclist_store \<Rightarrow> nat \<Rightarrow> int \<Rightarrow> (nat \<times> dclist_store) option" where
  "dclistInsert s dcl j =
     (let (newdcl, s) = dclistCreate s j in
      do { d \<leftarrow> cells s dcl;
           let s = set_cell newdcl \<lparr> dcl_j = j, dcl_prev = Some dcl, dcl_next = dcl_next d \<rparr> s;
           s \<leftarrow> (case dcl_next d of None \<Rightarrow> Some s
                 | Some n \<Rightarrow> do { c \<leftarrow> cells s n; Some (set_cell n (c \<lparr> dcl_prev := Some newdcl \<rparr>) s) });
           d \<leftarrow> cells s dcl;
           Some (newdcl, set_cell dcl (d \<lparr> dcl_next := Some newdcl \<rparr>) s) })"

definition dclistRemove :: "dclist_store \<Rightarrow> nat \<Rightarrow> dclist_store option" where
  "dclistRemove s dcl =
     do { d \<leftarrow> cells s dcl;
          s \<leftarrow> (case dcl_prev d of None \<Rightarrow> Some s
                | Some p \<Rightarrow> do { c \<leftarrow> cells s p; Some (set_cell p (c \<lparr> dcl_next := dcl_next d \<rparr>) s) });
          s \<leftarrow> (case dcl_next d of None \<Rightarrow> Some s
                | Some n \<Rightarrow> do { c \<leftarrow> cells s n; Some (set_cell n (c \<lparr> dcl_prev := dcl_prev d \<rparr>) s) });
          Some (free_cell dcl s) }"

text \<open>\<open>dclistRemoveMessy (&(h->next))\<close>, the only use: the next cell is freed and \<open>h->next\<close> advanced.\<close>

definition dclistRemoveMessy :: "dclist_store \<Rightarrow> nat \<Rightarrow> (int \<times> dclist_store) option" where
  "dclistRemoveMessy s h =
     do { c \<leftarrow> cells s h;
          p \<leftarrow> dcl_next c;
          d \<leftarrow> cells s p;
          let s = free_cell p s;
          c \<leftarrow> cells s h;
          Some (dcl_j d, set_cell h (c \<lparr> dcl_next := dcl_next d \<rparr>) s) }"

definition dclistFirst :: "dclist_store \<Rightarrow> nat \<Rightarrow> nat option option" where
  "dclistFirst s p = do { c \<leftarrow> cells s p; Some (if dcl_j c = - 1 then dcl_next c else Some p) }"

section \<open>Lists in the store\<close>

definition first_of :: "(nat \<times> int) list \<Rightarrow> nat option \<Rightarrow> nat option" where
  "first_of cs nx = (if cs = [] then nx else Some (fst (hd cs)))"

definition last_of :: "nat option \<Rightarrow> (nat \<times> int) list \<Rightarrow> nat option" where
  "last_of pr cs = (if cs = [] then pr else Some (fst (last cs)))"

fun dls :: "(nat \<Rightarrow> dclist_cell option) \<Rightarrow> nat option \<Rightarrow> (nat \<times> int) list \<Rightarrow> nat option \<Rightarrow> bool" where
  "dls m pr [] nx = True"
| "dls m pr (c # cs) nx \<longleftrightarrow>
     m (fst c) = Some \<lparr> dcl_j = snd c, dcl_prev = pr, dcl_next = first_of cs nx \<rparr> \<and> dls m (Some (fst c)) cs nx"

lemma first_of_simps [simp]: "first_of [] nx = nx" "first_of (c # cs) nx = Some (fst c)"
  by (simp_all add: first_of_def)

lemma last_of_simps [simp]: "last_of pr [] = pr" "last_of pr (cs @ [c]) = Some (fst c)"
    "last_of pr (c # cs) = last_of (Some (fst c)) cs"
  by (simp_all add: last_of_def)

lemma first_of_append: "first_of (cs @ ds) nx = first_of cs (first_of ds nx)"
  by (simp add: first_of_def)

lemma dls_append: "dls m pr (cs @ ds) nx \<longleftrightarrow> dls m pr cs (first_of ds nx) \<and> dls m (last_of pr cs) ds nx"
  by (induction cs arbitrary: pr) (auto simp: first_of_append)

lemma dls_frame: "p \<notin> fst ` set cs \<Longrightarrow> dls (m(p := x)) pr cs nx = dls m pr cs nx"
  by (induction cs arbitrary: pr) auto

lemma dls_cells: "dls m pr cs nx \<Longrightarrow> c \<in> set cs \<Longrightarrow> \<exists>x y. m (fst c) = Some \<lparr> dcl_j = snd c, dcl_prev = x, dcl_next = y \<rparr>"
  by (induction cs arbitrary: pr) auto

lemma dls_new_prev:
  "distinct (map fst (c # cs)) \<Longrightarrow> dls m pr (c # cs) nx \<Longrightarrow>
     dls (m(fst c := Some \<lparr> dcl_j = snd c, dcl_prev = pr', dcl_next = first_of cs nx \<rparr>)) pr' (c # cs) nx"
  by (auto simp: dls_frame)

text \<open>A list is well formed at \<open>h\<close> when its header holds -1 and its cells have distinct addresses.\<close>

definition is_dclist :: "dclist_store \<Rightarrow> nat \<Rightarrow> (nat \<times> int) list \<Rightarrow> bool" where
  "is_dclist s h cs \<longleftrightarrow> dls (cells s) None ((h, - 1) # cs) None \<and> distinct (h # map fst cs)"

definition store_ok :: "dclist_store \<Rightarrow> bool" where
  "store_ok s \<longleftrightarrow> (\<forall>p \<ge> brk s. cells s p = None)"

lemma is_dclist_bound: "store_ok s \<Longrightarrow> is_dclist s h cs \<Longrightarrow> p \<in> insert h (fst ` set cs) \<Longrightarrow> p < brk s"
proof (rule ccontr)
  assume a: "store_ok s" "is_dclist s h cs" "p \<in> insert h (fst ` set cs)" "\<not> p < brk s"
  have "p \<in> fst ` set ((h, - 1) # cs)" using a(3) by simp
  then obtain c where c: "c \<in> set ((h, - 1) # cs)" "p = fst c" by blast
  have "dls (cells s) None ((h, - 1) # cs) None" using a(2) unfolding is_dclist_def by blast
  then have "cells s p \<noteq> None" using dls_cells [OF _ c(1)] c(2) by blast
  then show False using a(1,4) by (simp add: store_ok_def)
qed

text \<open>What an operation leaves alone: the cells outside the list it works on.\<close>

definition untouched :: "nat set \<Rightarrow> dclist_store \<Rightarrow> dclist_store \<Rightarrow> bool" where
  "untouched P s s' \<longleftrightarrow> brk s \<le> brk s' \<and> (\<forall>p < brk s. p \<notin> P \<longrightarrow> cells s' p = cells s p)"

lemma dls_cong: "(\<And>p. p \<in> fst ` set cs \<Longrightarrow> m' p = m p) \<Longrightarrow> dls m' pr cs nx = dls m pr cs nx"
  by (induction cs arbitrary: pr) auto

lemma is_dclist_frame:
  assumes "untouched P s s'" "store_ok s" "is_dclist s h cs" "insert h (fst ` set cs) \<inter> P = {}"
  shows "is_dclist s' h cs"
proof -
  have "cells s' p = cells s p" if "p \<in> fst ` set ((h, - 1) # cs)" for p
    using that assms is_dclist_bound [OF assms(2,3), of p] by (auto simp: untouched_def)
  then have "dls (cells s') None ((h, - 1) # cs) None = dls (cells s) None ((h, - 1) # cs) None" by (rule dls_cong)
  then show ?thesis using assms(3) unfolding is_dclist_def by simp
qed

lemma dclistInsert_val:
  assumes ok: "store_ok s" and l: "is_dclist s h cs"
  shows "\<exists>s'. dclistInsert s h j = Some (brk s, s') \<and> store_ok s' \<and> is_dclist s' h ((brk s, j) # cs)
      \<and> untouched (insert h (fst ` set cs)) s s' \<and> brk s' = brk s + 1"
proof -
  have new: "h < brk s" "\<And>c. c \<in> set cs \<Longrightarrow> fst c < brk s" using is_dclist_bound [OF ok l] by auto
  have h: "cells s h = Some \<lparr> dcl_j = - 1, dcl_prev = None, dcl_next = first_of cs None \<rparr>"
      and cs: "dls (cells s) (Some h) cs None" and d: "distinct (h # map fst cs)" using l by (simp_all add: is_dclist_def)
  show ?thesis
  proof (cases cs)
    case Nil
    then show ?thesis
      using h new d ok by (auto simp: dclistInsert_def dclistCreate_def set_cell_def store_ok_def is_dclist_def untouched_def Let_def)
  next
    case (Cons c ds)
    let ?m = "(cells s)(fst c := Some \<lparr> dcl_j = snd c, dcl_prev = Some (brk s), dcl_next = first_of ds None \<rparr>)"
    have "dls ?m (Some (brk s)) cs None" using dls_new_prev [of c ds] cs d Cons by simp
    then have "dls (?m(brk s := x, h := y)) (Some (brk s)) cs None" for x y
      using new(2) d by (subst dls_frame, force)+ simp
    moreover have "fst c \<noteq> h" "fst c \<noteq> brk s" "brk s \<noteq> h" "cells s (fst c) = Some \<lparr> dcl_j = snd c, dcl_prev = Some h, dcl_next = first_of ds None \<rparr>"
      using new(1) new(2) [of c] d cs Cons by auto
    moreover have "brk s \<notin> fst ` set ds" using new(2) Cons by force
    ultimately show ?thesis
      using h new d ok Cons
      by (auto simp: dclistInsert_def dclistCreate_def set_cell_def store_ok_def is_dclist_def untouched_def Let_def fun_upd_twist)
  qed
qed

lemma dclistRemove_val:
  assumes ok: "store_ok s" and l: "is_dclist s h (xs @ (p, j) # ys)"
  shows "\<exists>s'. dclistRemove s p = Some s' \<and> store_ok s' \<and> is_dclist s' h (xs @ ys)
      \<and> untouched (insert h (fst ` set (xs @ (p, j) # ys))) s s' \<and> brk s' = brk s \<and> cells s' p = None"
proof -
  obtain ws w where ws: "(h, - 1) # xs = ws @ [w]" by (metis append_butlast_last_id list.distinct(1))
  let ?m = "cells s" and ?q = "fst w"
  have full: "dls ?m None (ws @ w # (p, j) # ys) None" "distinct (map fst (ws @ w # (p, j) # ys))"
  proof -
    have "(h, - 1) # xs @ (p, j) # ys = ws @ w # (p, j) # ys" using ws by simp
    then show "dls ?m None (ws @ w # (p, j) # ys) None" "distinct (map fst (ws @ w # (p, j) # ys))"
      using l unfolding is_dclist_def by (metis, metis fst_conv list.map(2))
  qed
  have pre: "dls ?m None ws (Some ?q)" and mw: "?m ?q = Some \<lparr> dcl_j = snd w, dcl_prev = last_of None ws, dcl_next = Some p \<rparr>"
    and mp: "?m p = Some \<lparr> dcl_j = j, dcl_prev = Some ?q, dcl_next = first_of ys None \<rparr>" and post: "dls ?m (Some p) ys None"
    using full(1) by (simp_all add: dls_append)
  have ne: "?q \<noteq> p" "?q \<notin> fst ` set ws" "p \<notin> fst ` set ws" "p \<notin> fst ` set ys" "?q \<notin> fst ` set ys"
      "fst ` set ws \<inter> fst ` set ys = {}" "distinct (map fst ys)"
    using full(2) by auto
  have mem: "?q \<in> insert h (fst ` set xs)"
  proof -
    have "?q \<in> fst ` set ((h, - 1) # xs)" unfolding ws by simp
    then show ?thesis by simp
  qed
  have fin: "is_dclist s' h (xs @ ys)" if "dls (cells s') None (ws @ w # ys) None" for s'
  proof -
    have e: "(h, - 1) # xs @ ys = ws @ w # ys" using ws by simp
    have "distinct (h # map fst (xs @ ys))" using l by (auto simp: is_dclist_def)
    then show ?thesis using that unfolding is_dclist_def e by simp
  qed
  show ?thesis
  proof (cases ys)
    case Nil
    let ?s = "free_cell p (set_cell ?q \<lparr> dcl_j = snd w, dcl_prev = last_of None ws, dcl_next = None \<rparr> s)"
    have "dls (cells ?s) None (ws @ w # ys) None"
      using pre ne Nil by (simp add: dls_append free_cell_def set_cell_def dls_frame)
    moreover have "dclistRemove s p = Some ?s" using mp mw Nil by (simp add: dclistRemove_def)
    moreover have "?q < brk s" using is_dclist_bound [OF ok l, of ?q] mem by auto
    then have "store_ok ?s" using ok by (auto simp: store_ok_def free_cell_def set_cell_def)
    moreover have "untouched (insert h (fst ` set (xs @ (p, j) # ys))) s ?s"
      using mem by (auto simp: untouched_def free_cell_def set_cell_def)
    ultimately show ?thesis using fin by (intro exI [of _ ?s]) (simp add: free_cell_def set_cell_def)
  next
    case (Cons y zs)
    let ?n = "fst y"
    let ?m1 = "?m(?n := Some \<lparr> dcl_j = snd y, dcl_prev = Some ?q, dcl_next = first_of zs None \<rparr>)"
    let ?s = "free_cell p (set_cell ?n \<lparr> dcl_j = snd y, dcl_prev = Some ?q, dcl_next = first_of zs None \<rparr>
                (set_cell ?q \<lparr> dcl_j = snd w, dcl_prev = last_of None ws, dcl_next = Some ?n \<rparr> s))"
    have ny: "?n \<noteq> ?q" "?n \<noteq> p" "?n \<notin> fst ` set ws" "?n \<notin> fst ` set zs" "?q \<notin> fst ` set zs" "p \<notin> fst ` set zs"
      using ne Cons by auto
    have my: "?m ?n = Some \<lparr> dcl_j = snd y, dcl_prev = Some p, dcl_next = first_of zs None \<rparr>" and pz: "dls ?m (Some ?n) zs None"
      using post Cons by simp_all
    have "dls (cells ?s) None (ws @ w # ys) None"
      using pre ne ny pz Cons by (simp add: dls_append free_cell_def set_cell_def dls_frame)
    moreover have "dclistRemove s p = Some ?s" using mp mw my ny Cons by (simp add: dclistRemove_def set_cell_def)
    moreover have "?n < brk s" "?q < brk s" using is_dclist_bound [OF ok l] mem Cons by auto
    then have "store_ok ?s" using ok by (auto simp: store_ok_def free_cell_def set_cell_def)
    moreover have "untouched (insert h (fst ` set (xs @ (p, j) # ys))) s ?s"
      using mem Cons by (auto simp: untouched_def free_cell_def set_cell_def)
    ultimately show ?thesis using fin by (intro exI [of _ ?s]) (simp add: free_cell_def set_cell_def)
  qed
qed

lemma dclistFirst_val: "is_dclist s h cs \<Longrightarrow> dclistFirst s h = Some (first_of cs None)"
  by (simp add: dclistFirst_def is_dclist_def)

lemma dls_length: "dls (cells s) pr (c # cs) None \<Longrightarrow> dclistLength_loop s (fst c) l = Some (l + 1 + int (length cs))"
proof (induction cs arbitrary: c pr l)
  case Nil
  then show ?case by (subst dclistLength_loop.simps) simp
next
  case (Cons d cs)
  then show ?case by (subst dclistLength_loop.simps) simp
qed

lemma dls_clear:
  "dls (cells s) pr (c # cs) None \<Longrightarrow> distinct (map fst (c # cs)) \<Longrightarrow>
     dclistClear (fst c) s = Some (s \<lparr> cells := (\<lambda>p. if p \<in> fst ` set (c # cs) then None else cells s p) \<rparr>)"
proof (induction cs arbitrary: c pr)
  case Nil
  then show ?case by (subst dclistClear.simps) (auto simp: free_cell_def intro!: dclist_store.equality)
next
  case (Cons d cs)
  have IH: "dclistClear (fst d) s = Some (s \<lparr> cells := (\<lambda>p. if p \<in> fst ` set (d # cs) then None else cells s p) \<rparr>)"
    using Cons by (intro Cons.IH [where pr = "Some (fst c)"]) simp_all
  have "cells s (fst c) = Some \<lparr> dcl_j = snd c, dcl_prev = pr, dcl_next = Some (fst d) \<rparr>" using Cons.prems by simp
  then show ?case using IH by (subst dclistClear.simps) (auto simp: free_cell_def fun_eq_iff intro!: dclist_store.equality)
qed

lemma dls_check_forth: "dls (cells s) pr (c # cs) None \<Longrightarrow> dclistCheck_forth s (fst c) = Some (fst (last (c # cs)))"
proof (induction cs arbitrary: c pr)
  case Nil
  then show ?case by (subst dclistCheck_forth.simps) simp
next
  case (Cons d cs)
  then show ?case by (subst dclistCheck_forth.simps) simp
qed

lemma dls_check_back: "dls (cells s) None (cs @ [c]) nx \<Longrightarrow> dclistCheck_back s (fst c) = Some (fst (hd (cs @ [c])))"
proof (induction cs arbitrary: c nx rule: rev_induct)
  case Nil
  then show ?case by (subst dclistCheck_back.simps) simp
next
  case (snoc d cs)
  then have "dls (cells s) None (cs @ [d]) (Some (fst c))" by (simp add: dls_append)
  then have "dclistCheck_back s (fst d) = Some (fst (hd (cs @ [d])))" by (rule snoc.IH)
  then show ?case using snoc.prems by (subst dclistCheck_back.simps) (simp add: dls_append hd_append)
qed

lemma dclistRemoveMessy_val:
  assumes ok: "store_ok s" and l: "is_dclist s h ((p, j) # ys)"
  shows "\<exists>s'. dclistRemoveMessy s h = Some (j, s') \<and> store_ok s' \<and> cells s' p = None
      \<and> map_option dcl_next (cells s' h) = Some (first_of ys None) \<and> map_option dcl_j (cells s' h) = Some (- 1)
      \<and> map_option dcl_prev (cells s' h) = Some None
      \<and> (\<forall>q. q \<noteq> h \<and> q \<noteq> p \<longrightarrow> cells s' q = cells s q) \<and> brk s' = brk s"
proof -
  have "h \<noteq> p" "h < brk s" using l is_dclist_bound [OF ok l] by (auto simp: is_dclist_def)
  then show ?thesis using ok l by (auto simp: dclistRemoveMessy_def is_dclist_def free_cell_def set_cell_def store_ok_def)
qed

section \<open>Properties\<close>

text \<open>C38: On a well-formed list whose header holds -1, possibly with no other cell, \<open>dclistInsert\<close> puts the new column right after
  the header and returns its cell, and \<open>dclistRemove\<close> unlinks and frees exactly the given cell; both keep
  the list well formed and touch no cell of another list.  \<open>dclistFirst\<close> and \<open>dclistLength\<close> return
  the first cell (\<open>NULL\<close> when there is none) and the number of columns, \<open>dclistCheck\<close> finds no broken link and ends at the header, and
  \<open>dclistClear\<close> frees all cells of the list and no other.\<close>

theorem dclist_refines_lists:
  assumes "store_ok s" and "is_dclist s h cs"
  shows "(\<exists>s'. dclistInsert s h j' = Some (brk s, s') \<and> store_ok s' \<and> is_dclist s' h ((brk s, j') # cs)
            \<and> untouched (insert h (fst ` set cs)) s s')
     \<and> (\<forall>xs p j ys. cs = xs @ (p, j) # ys \<longrightarrow> (\<exists>s'. dclistRemove s p = Some s' \<and> store_ok s' \<and> is_dclist s' h (xs @ ys)
            \<and> cells s' p = None \<and> untouched (insert h (fst ` set cs)) s s'))
     \<and> dclistFirst s h = Some (if cs = [] then None else Some (fst (hd cs)))
     \<and> dclistLength s h = Some (int (length cs))
     \<and> dclistCheck s h = Some h
     \<and> (\<exists>s'. dclistClear h s = Some s' \<and> (\<forall>q \<in> insert h (fst ` set cs). cells s' q = None) \<and> untouched (insert h (fst ` set cs)) s s')"
proof -
  have l: "dls (cells s) None ((h, - 1) # cs) None" "distinct (map fst ((h, - 1) # cs))"
    using assms(2) unfolding is_dclist_def by simp_all
  obtain zs z where z: "(h, - 1) # cs = zs @ [z]" by (metis append_butlast_last_id list.distinct(1))
  have "dclistCheck s h = Some h"
  proof -
    have "dclistCheck_back s (fst z) = Some (fst (hd (zs @ [z])))" using dls_check_back l(1) unfolding z by blast
    then have "dclistCheck_back s (fst z) = Some h" by (simp only: z [symmetric] list.sel fst_conv)
    moreover have "dclistCheck_forth s h = Some (fst z)" using dls_check_forth [OF l(1)] by (simp only: z last_snoc fst_conv)
    ultimately show ?thesis by (simp add: dclistCheck_def)
  qed
  moreover have "\<exists>s'. dclistClear h s = Some s' \<and> (\<forall>q \<in> insert h (fst ` set cs). cells s' q = None) \<and> untouched (insert h (fst ` set cs)) s s'"
    using dls_clear [OF l] by (simp add: untouched_def)
  moreover have "dclistLength s h = Some (int (length cs))" using dls_length [OF l(1), of "- 1"] by (simp add: dclistLength_def)
  moreover have "dclistFirst s h = Some (if cs = [] then None else Some (fst (hd cs)))"
    using dclistFirst_val [OF assms(2)] by (simp add: first_of_def)
  moreover have "\<exists>s'. dclistRemove s p = Some s' \<and> store_ok s' \<and> is_dclist s' h (xs @ ys) \<and> cells s' p = None \<and> untouched (insert h (fst ` set cs)) s s'"
    if "cs = xs @ (p, j) # ys" for xs p j ys
    using dclistRemove_val [OF assms(1) assms(2) [unfolded that]] unfolding that by blast
  ultimately show ?thesis using dclistInsert_val [OF assms, of j'] by blast
qed

text \<open>A header alone, as \<open>initSWAR\<close> makes it, and a list of one column.\<close>

definition store1 :: dclist_store where
  "store1 = \<lparr> cells = [0 \<mapsto> \<lparr> dcl_j = - 1, dcl_prev = None, dcl_next = None \<rparr>,
       1 \<mapsto> \<lparr> dcl_j = - 1, dcl_prev = None, dcl_next = Some 2 \<rparr>, 2 \<mapsto> \<lparr> dcl_j = 7, dcl_prev = Some 1, dcl_next = None \<rparr>], brk = 3 \<rparr>"

theorem dclist_refines_lists_witness:
  "dclistFirst store1 0 = Some None \<and> dclistLength store1 0 = Some 0 \<and> dclistCheck store1 0 = Some 0
     \<and> (\<exists>s'. dclistInsert store1 0 9 = Some (3, s') \<and> is_dclist s' 0 [(3, 9)])
     \<and> dclistFirst store1 1 = Some (Some 2) \<and> dclistLength store1 1 = Some 1 \<and> dclistCheck store1 1 = Some 1
     \<and> (\<exists>s'. dclistInsert store1 1 9 = Some (3, s') \<and> is_dclist s' 1 [(3, 9), (2, 7)])
     \<and> (\<exists>s'. dclistRemove store1 2 = Some s' \<and> is_dclist s' 1 [] \<and> cells s' 2 = None)"
proof -
  have s: "store_ok store1" "is_dclist store1 0 []" "is_dclist store1 1 [(2, 7)]" "brk store1 = 3"
    by (simp_all add: store_ok_def is_dclist_def store1_def)
  have e: "[(2, 7)] = [] @ (2 :: nat, 7 :: int) # []" by simp
  show ?thesis
    using dclist_refines_lists [OF s(1,2), of 9] dclist_refines_lists [OF s(1,3), of 9] e unfolding s(4) by (fastforce simp del: fun_upd_apply)
qed

end
