(* ===== verification/Sparse.thy ===== *)
theory Sparse
  imports Prelude "HOL-Library.Multiset"
begin

text \<open>
  Model of \<open>src/filter/sparse.c\<close> and of \<open>weightSum\<close> of \<open>src/filter/filter_matrix.c\<close>: the rows of the
  sparse matrix over GF(2) that the filtering step works on.

  A C row is an array \<open>row[0..row[0]]\<close> whose cell 0 is its length; the model is the list
  \<open>row[1], \<dots>, row[row[0]]\<close> of its column indices.  \<open>rows[i] == NULL\<close> is \<^const>\<open>None\<close>.  The result of an
  operation is \<^const>\<open>None\<close> when an assertion fails, a pointer is null or a buffer overflows.

  \<open>qsort\<close> is specified by the comparison \<open>cmp\<close> it is given: \<open>cmp_sorts\<close> says that a function returns a
  permutation of its argument in which \<open>cmp\<close> is negative on any two elements in order, \<open>sort_cmp\<close> is one that computes.
\<close>

type_synonym row = "int list"
type_synonym row_table = "row option list"

definition row_at :: "row_table \<Rightarrow> nat \<Rightarrow> row option" where
  "row_at rows i = (if i < length rows then rows ! i else None)"

definition copyRow :: "row \<Rightarrow> row" where
  "copyRow r = take (length r) r"

text \<open>
  The three loops of \<open>addRows\<close>: while both rows have entries left, the smaller head is written to the
  buffer and equal heads cancel; then what is left of either row is copied.
\<close>

fun merge_rows :: "row \<Rightarrow> row \<Rightarrow> row" where
  "merge_rows (a # as) (b # bs) =
     (if a < b then a # merge_rows as (b # bs)
      else if a > b then b # merge_rows (a # as) bs
      else merge_rows as bs)"
| "merge_rows as [] = as"
| "merge_rows [] bs = bs"

text \<open>
  \<open>addRows (rows, i1, i2, len0)\<close>: the buffer has \<open>len\<close> cells, cell 0 for the length; a sum that does
  not fit writes past it.  With \<open>len0 != -1\<close> the length must be \<open>len0\<close>.
\<close>

definition addRows :: "row_table \<Rightarrow> nat \<Rightarrow> nat \<Rightarrow> int \<Rightarrow> row_table option" where
  "addRows rows i1 i2 len0 =
     do { r1 \<leftarrow> row_at rows i1;
          r2 \<leftarrow> row_at rows i2;
          let len = 1 + (if len0 \<noteq> - 1 then len0 else int (length r1) + int (length r2));
          let tmp = merge_rows r1 r2;
          let k = 1 + int (length tmp);
          if k \<le> len
          then if len0 \<noteq> - 1
               then if int (length tmp) = len0 then Some (rows[i1 := Some tmp]) else None
               else Some (rows[i1 := Some tmp])
          else None }"

fun removeWeight_loop :: "row \<Rightarrow> int list \<Rightarrow> int list option" where
  "removeWeight_loop [] wt = Some wt"
| "removeWeight_loop (j # js) wt =
     (if 0 \<le> j \<and> nat j < length wt
      then removeWeight_loop js (wt[nat j := wt ! nat j - 1]) else None)"

definition removeWeight :: "row_table \<Rightarrow> int list \<Rightarrow> nat \<Rightarrow> int list option" where
  "removeWeight rows wt i = do { r \<leftarrow> row_at rows i; removeWeight_loop r wt }"

fun hasCol_loop :: "row \<Rightarrow> int \<Rightarrow> bool" where
  "hasCol_loop [] j = False"
| "hasCol_loop (x # xs) j = (if x = j then True else hasCol_loop xs j)"

definition hasCol :: "row_table \<Rightarrow> nat \<Rightarrow> int \<Rightarrow> bool option" where
  "hasCol rows i j = do { r \<leftarrow> row_at rows i; Some (hasCol_loop r j) }"

definition cmp :: "int \<Rightarrow> int \<Rightarrow> int" where
  "cmp x y = (if x \<le> y then - 1 else 1)"

text \<open>
  The library function \<open>qsort\<close> with the comparison \<open>cmp\<close> on the key of the elements: a permutation in which \<open>cmp\<close> is negative on
  any two elements in their order.  For equal elements \<open>cmp\<close> is negative in both orders, which \<open>qsort\<close> does not allow for; the law is
  what an algorithm gives that only looks at the sign of \<open>cmp\<close>, as \<open>sort_cmp\<close> does.
\<close>

definition cmp_sorts :: "('a \<Rightarrow> int) \<Rightarrow> ('a list \<Rightarrow> 'a list) \<Rightarrow> bool" where
  "cmp_sorts key qsort \<longleftrightarrow> (\<forall>xs. mset (qsort xs) = mset xs \<and> sorted_wrt (\<lambda>x y. cmp (key x) (key y) < 0) (qsort xs))"

fun insert_cmp :: "('a \<Rightarrow> int) \<Rightarrow> 'a \<Rightarrow> 'a list \<Rightarrow> 'a list" where
  "insert_cmp key x [] = [x]"
| "insert_cmp key x (y # ys) = (if cmp (key x) (key y) < 0 then x # y # ys else y # insert_cmp key x ys)"

definition sort_cmp :: "('a \<Rightarrow> int) \<Rightarrow> 'a list \<Rightarrow> 'a list" where
  "sort_cmp key xs = foldr (insert_cmp key) xs []"

lemma sort_cmp_eq: "sort_cmp key xs = sort_key key xs"
proof -
  have "insert_cmp key x ys = insort_key key x ys" for x ys by (induction ys) (simp_all add: cmp_def)
  then have "insert_cmp key = insort_key key" by (intro ext)
  then show ?thesis by (simp add: sort_cmp_def sort_key_def)
qed

lemma cmp_sortsD:
  assumes "cmp_sorts key qsort"
  shows "mset (qsort xs) = mset xs" "sorted (map key (qsort xs))"
proof -
  show "mset (qsort xs) = mset xs" using assms by (simp add: cmp_sorts_def)
  have "(\<lambda>x y. cmp (key x) (key y) < 0) = (\<lambda>x y. key x \<le> key y)" by (simp add: cmp_def fun_eq_iff)
  then have "sorted_wrt (\<lambda>x y. key x \<le> key y) (qsort xs)" using assms unfolding cmp_sorts_def by metis
  then show "sorted (map key (qsort xs))" by (simp add: sorted_wrt_map)
qed

lemma sort_cmp_sorts: "cmp_sorts key (sort_cmp key)"
proof -
  have "sorted_wrt (\<lambda>x y. key x \<le> key y) (sort_key key xs)" for xs
    using sorted_sort_key [of key xs] by (simp only: sorted_wrt_map)
  moreover have "(\<lambda>x y. cmp (key x) (key y) < 0) = (\<lambda>x y. key x \<le> key y)" by (simp add: cmp_def fun_eq_iff)
  ultimately show ?thesis by (simp add: cmp_sorts_def sort_cmp_eq)
qed

text \<open>
  \<open>weightSum\<close>: the weight of the sum of two rows, without computing it; the buried part is estimated
  by the sum of the two counts, at most the number of buried columns.  A null row has length 0.
\<close>

fun weightSum_loop :: "row \<Rightarrow> row \<Rightarrow> int \<Rightarrow> int" where
  "weightSum_loop (a # as) (b # bs) w =
     (if a < b then weightSum_loop as (b # bs) (w + 1)
      else if a > b then weightSum_loop (a # as) bs (w + 1)
      else weightSum_loop as bs w)"
| "weightSum_loop as [] w = w + int (length as)"
| "weightSum_loop [] bs w = w + int (length bs)"

definition buriedSum :: "int list \<Rightarrow> int \<Rightarrow> nat \<Rightarrow> nat \<Rightarrow> int" where
  "buriedSum wburied nburied i1 i2 =
     (let w = wburied ! i1 + wburied ! i2 in if w > nburied then nburied else w)"

definition weightSum :: "row_table \<Rightarrow> int list \<Rightarrow> int \<Rightarrow> nat \<Rightarrow> nat \<Rightarrow> int" where
  "weightSum rows wburied nburied i1 i2 =
     (let w = buriedSum wburied nburied i1 i2;
          r1 = (case row_at rows i1 of None \<Rightarrow> [] | Some r \<Rightarrow> r);
          r2 = (case row_at rows i2 of None \<Rightarrow> [] | Some r \<Rightarrow> r)
      in weightSum_loop r1 r2 w)"

section \<open>Rows as sets of columns\<close>

text \<open>The rows the code builds are strictly increasing.\<close>

definition row_ok :: "row \<Rightarrow> bool" where
  "row_ok r \<longleftrightarrow> sorted_wrt (<) r"

lemma row_ok_simps [simp]: "row_ok []" "row_ok (a # r) \<longleftrightarrow> (\<forall>x \<in> set r. a < x) \<and> row_ok r"
  by (simp_all add: row_ok_def)

lemma row_ok_distinct: "row_ok r \<Longrightarrow> distinct r"
  by (induction r) auto

lemma set_merge_rows: "set (merge_rows as bs) \<subseteq> set as \<union> set bs"
  by (induction as bs rule: merge_rows.induct) auto

lemma merge_rows_correct:
  "row_ok as \<Longrightarrow> row_ok bs \<Longrightarrow>
   row_ok (merge_rows as bs) \<and> set (merge_rows as bs) = (set as - set bs) \<union> (set bs - set as)"
proof (induction as bs rule: merge_rows.induct)
  case (1 a as b bs)
  note sub = set_merge_rows [of as "b # bs"] set_merge_rows [of "a # as" bs] set_merge_rows [of as bs]
  consider "a < b" | "b < a" | "a = b" by linarith
  then show ?case
  proof cases
    case 1
    then have "a \<notin> set (b # bs)" using "1.prems"(2) by auto
    then show ?thesis using 1 "1.IH"(1) "1.prems" sub by auto
  next
    case 2
    then have "b \<notin> set (a # as)" using "1.prems"(1) by auto
    then show ?thesis using 2 "1.IH"(2) "1.prems" sub by auto
  next
    case 3
    then show ?thesis using "1.IH"(3) "1.prems" by auto
  qed
qed auto

lemma weightSum_loop_eq: "weightSum_loop as bs w = w + int (length (merge_rows as bs))"
  by (induction as bs w rule: weightSum_loop.induct) auto

lemma hasCol_loop_eq: "hasCol_loop r j \<longleftrightarrow> j \<in> set r"
  by (induction r) auto

lemma merge_rows_length: "length (merge_rows as bs) \<le> length as + length bs"
  by (induction as bs rule: merge_rows.induct) auto

lemma merge_rows_inverse:
  assumes "row_ok as" "row_ok bs"
  shows "merge_rows (merge_rows as bs) bs = as"
proof -
  note m = merge_rows_correct [OF assms]
  note mm = merge_rows_correct [of "merge_rows as bs" bs] m assms
  have "set (merge_rows (merge_rows as bs) bs) = set as" using m assms mm(1) by auto
  moreover have "row_ok (merge_rows (merge_rows as bs) bs)" using mm(1) m assms by simp
  ultimately show ?thesis
    using assms(1) unfolding row_ok_def strict_sorted_iff by (metis sorted_distinct_set_unique)
qed

lemma removeWeight_loop_val:
  "distinct js \<Longrightarrow> (\<forall>j \<in> set js. 0 \<le> j \<and> nat j < length wt) \<Longrightarrow>
   \<exists>wt'. removeWeight_loop js wt = Some wt' \<and> length wt' = length wt
     \<and> (\<forall>j < length wt. wt' ! j = wt ! j - of_bool (int j \<in> set js))"
proof (induction js arbitrary: wt)
  case (Cons j js)
  let ?wt = "wt[nat j := wt ! nat j - 1]"
  obtain wt' where w: "removeWeight_loop js ?wt = Some wt'" "length wt' = length ?wt"
    "\<forall>i < length ?wt. wt' ! i = ?wt ! i - of_bool (int i \<in> set js)"
    using Cons.IH [of ?wt] Cons.prems by auto
  have "wt' ! i = wt ! i - of_bool (int i \<in> set (j # js))" if "i < length wt" for i
  proof (cases "i = nat j")
    case True
    then have "int i = j" "j \<notin> set js" using Cons.prems by auto
    then show ?thesis using w(3) that True by auto
  qed (use w(3) that Cons.prems in auto)
  then show ?case using w(1,2) Cons.prems by simp
qed simp

section \<open>Properties\<close>

text \<open>\<open>addRows\<close> over GF(2). For strictly increasing rows, adding row \<open>i2\<close> to row \<open>i1\<close> replaces row
  \<open>i1\<close> by the strictly increasing list of the columns in exactly one of the two and leaves every
  other row alone; neither the buffer nor an assertion fails without a length, nor with the length
  that \<open>weightSum\<close> predicts (its value less the buried estimate), and any other length fails. Adding
  the same row again restores the table.\<close>

theorem addRows_correct:
  assumes "i1 < length rows" and "i2 < length rows" and "i1 \<noteq> i2"
    and "rows ! i1 = Some r1" and "rows ! i2 = Some r2" and "row_ok r1" and "row_ok r2"
  shows "\<exists>r. row_ok r \<and> set r = (set r1 - set r2) \<union> (set r2 - set r1)
       \<and> addRows rows i1 i2 (- 1) = Some (rows[i1 := Some r])
       \<and> (\<forall>len \<ge> 0. addRows rows i1 i2 len =
            (if len = weightSum rows wburied nburied i1 i2 - buriedSum wburied nburied i1 i2
             then Some (rows[i1 := Some r]) else None))
       \<and> addRows (rows[i1 := Some r]) i1 i2 (- 1) = Some rows"
proof -
  define r where "r = merge_rows r1 r2"
  note m = merge_rows_correct [OF assms(6,7), folded r_def]
  have l: "int (length r) \<le> int (length r1) + int (length r2)" using merge_rows_length [of r1 r2] by (simp add: r_def)
  have w: "weightSum rows wburied nburied i1 i2 - buriedSum wburied nburied i1 i2 = int (length r)"
    using assms by (simp add: weightSum_def row_at_def weightSum_loop_eq r_def Let_def)
  have "addRows rows i1 i2 (- 1) = Some (rows[i1 := Some r])"
    using assms l by (simp add: addRows_def row_at_def r_def Let_def)
  moreover have "addRows rows i1 i2 len = (if len = int (length r) then Some (rows[i1 := Some r]) else None)"
    if "0 \<le> len" for len
    using assms that by (auto simp: addRows_def row_at_def r_def [symmetric] Let_def)
  moreover have "addRows (rows[i1 := Some r]) i1 i2 (- 1) = Some (rows[i1 := Some r1])"
    using assms merge_rows_length [of r r2] merge_rows_inverse [OF assms(6,7)]
    by (simp add: addRows_def row_at_def r_def Let_def)
  moreover have "rows[i1 := Some r1] = rows" using assms by (metis list_update_id)
  ultimately show ?thesis using m w by (intro exI [of _ r]) simp
qed

theorem addRows_correct_witness:
  "\<exists>r. row_ok r \<and> set r = (set [1, 3] - set [3, 5]) \<union> (set [3, 5] - set [1, 3])
       \<and> addRows [Some [1, 3], Some [3, 5]] 0 1 (- 1) = Some ([Some [1, 3], Some [3, 5]][0 := Some r])
       \<and> (\<forall>len \<ge> 0. addRows [Some [1, 3], Some [3, 5]] 0 1 len =
            (if len = weightSum [Some [1, 3], Some [3, 5]] [0, 0] 0 0 1 - buriedSum [0, 0] 0 0 1
             then Some ([Some [1, 3], Some [3, 5]][0 := Some r]) else None))
       \<and> addRows ([Some [1, 3], Some [3, 5]][0 := Some r]) 0 1 (- 1) = Some [Some [1, 3], Some [3, 5]]"
  by (rule addRows_correct) simp_all

text \<open>\<open>removeWeight\<close> subtracts 1 from the weight of exactly the columns of the row, \<open>hasCol\<close> is
  membership, and both fail on a null row.\<close>

theorem removeWeight_hasCol_correct:
  assumes "i < length rows" and "rows ! i = Some r" and "row_ok r"
    and "\<forall>j \<in> set r. 0 \<le> j \<and> nat j < length wt"
  shows "hasCol rows i c = Some (c \<in> set r)
       \<and> (\<exists>wt'. removeWeight rows wt i = Some wt' \<and> length wt' = length wt
            \<and> (\<forall>j < length wt. wt' ! j = wt ! j - of_bool (int j \<in> set r)))
       \<and> removeWeight (rows[i := None]) wt i = None \<and> hasCol (rows[i := None]) i c = None"
  using removeWeight_loop_val [OF row_ok_distinct [OF assms(3)] assms(4)] assms(1,2)
  by (simp add: hasCol_def removeWeight_def row_at_def hasCol_loop_eq)

theorem removeWeight_hasCol_correct_witness:
  "hasCol [Some [0, 2]] 0 2 = Some (2 \<in> set [0, 2 :: int])
   \<and> (\<exists>wt'. removeWeight [Some [0, 2]] [5, 5, 5] 0 = Some wt' \<and> length wt' = length [5, 5, 5 :: int]
        \<and> (\<forall>j < length [5, 5, 5 :: int]. wt' ! j = [5, 5, 5] ! j - of_bool (int j \<in> set [0, 2 :: int])))
   \<and> removeWeight ([Some [0, 2]][0 := None]) [5, 5, 5] 0 = None \<and> hasCol ([Some [0, 2]][0 := None]) 0 2 = None"
  by (rule removeWeight_hasCol_correct) simp_all

end
