(* ===== verification/Filter_matrix.thy ===== *)
theory Filter_matrix
  imports Dclist Sparse "HOL-Library.Multiset" "HOL-Library.Monad_Syntax"
begin

text \<open>
  Model of \<open>src/filter/filter_matrix.c\<close> and \<open>src/filter/swar.c\<close>: the sparse matrix of the merge
  step.  \<open>R[j]\<close> lists the rows that contain the light column \<open>j\<close>, with -1 where a row was deleted;
  \<open>S[w]\<close> is the doubly-chained list of the columns of weight \<open>w\<close>, and \<open>A[j]\<close> points to the cell of
  column \<open>j\<close> in it.  The sequential version is modelled: \<open>GETJ (mat, j)\<close> is \<open>j\<close> and all columns
  are in \<open>[jmin, jmax[\<close>.  An operation returns \<^const>\<open>None\<close> when it indexes outside an array,
  dereferences a null or freed pointer, or fails an assertion.

  The invariant \<open>mat_ok M\<close> relates all of these to the matrix \<open>M\<close>, given as the set of columns of
  each row.
\<close>

record filter_matrix =
  mat_nrows :: nat
  mat_ncols :: nat
  mat_rem_nrows :: int
  mat_rem_ncols :: int
  mat_rows :: row_table
  mat_wt :: "int list"
  mat_wburied :: "int list"
  mat_nburied :: int
  mat_weight :: int
  mat_cwmax :: nat
  mat_rwmax :: int
  mat_keep :: int
  mat_R :: "int list option list"
  mat_S :: "nat list"
  mat_A :: "nat option list"
  mat_store :: dclist_store

section \<open>Columns\<close>

definition decrS :: "int \<Rightarrow> int" where
  "decrS w = (if w \<ge> 0 then w - 1 else w + 1)"

definition incrS :: "int \<Rightarrow> int" where
  "incrS w = (if w \<ge> 0 then w + 1 else w - 1)"

text \<open>Array accesses at an index of type \<open>int32_t\<close>.\<close>

definition at :: "'a list \<Rightarrow> int \<Rightarrow> 'a option" where
  "at xs j = (if 0 \<le> j \<and> nat j < length xs then Some (xs ! nat j) else None)"

definition set_wt :: "int \<Rightarrow> int \<Rightarrow> filter_matrix \<Rightarrow> filter_matrix" where
  "set_wt j w mat = mat \<lparr> mat_wt := (mat_wt mat)[nat j := w] \<rparr>"

definition set_R :: "int \<Rightarrow> int list option \<Rightarrow> filter_matrix \<Rightarrow> filter_matrix" where
  "set_R j r mat = mat \<lparr> mat_R := (mat_R mat)[nat j := r] \<rparr>"

definition set_A :: "int \<Rightarrow> nat option \<Rightarrow> filter_matrix \<Rightarrow> filter_matrix" where
  "set_A j p mat = mat \<lparr> mat_A := (mat_A mat)[nat j := p] \<rparr>"

definition remove_j_from_S :: "filter_matrix \<Rightarrow> int \<Rightarrow> filter_matrix option" where
  "remove_j_from_S mat j =
     do { a \<leftarrow> at (mat_A mat) j;
          (case a of None \<Rightarrow> Some mat
           | Some dcl \<Rightarrow> do { s \<leftarrow> dclistRemove (mat_store mat) dcl; Some (mat \<lparr> mat_store := s \<rparr>) }) }"

definition remove_j_from_SWAR :: "filter_matrix \<Rightarrow> int \<Rightarrow> filter_matrix option" where
  "remove_j_from_SWAR mat j = do { mat \<leftarrow> remove_j_from_S mat j; Some (set_A j None mat) }"

text \<open>\<open>mat->A[j] = dclistInsert (mat->S[ind], j)\<close>\<close>

definition insert_j_in_S :: "filter_matrix \<Rightarrow> int \<Rightarrow> int \<Rightarrow> filter_matrix option" where
  "insert_j_in_S mat ind j =
     do { h \<leftarrow> at (mat_S mat) ind;
          (p, s) \<leftarrow> dclistInsert (mat_store mat) h j;
          Some (set_A j (Some p) (mat \<lparr> mat_store := s \<rparr>)) }"

definition decreaseColWeightSWAR :: "filter_matrix \<Rightarrow> int \<Rightarrow> filter_matrix option" where
  "decreaseColWeightSWAR mat j =
     do { w \<leftarrow> at (mat_wt mat) j;
          let ind = decrS w;
          mat' \<leftarrow> remove_j_from_S (set_wt j ind mat) j;
          insert_j_in_S mat' (if ind > int (mat_cwmax mat) then int (mat_cwmax mat) + 1 else ind) j }"

definition addColSWAR :: "filter_matrix \<Rightarrow> int \<Rightarrow> (int \<times> filter_matrix) option" where
  "addColSWAR mat j =
     do { w \<leftarrow> at (mat_wt mat) j;
          let ind = incrS w;
          if ind < 0 then Some (ind, set_wt j ind mat)
          else do { let ind' = (if ind > int (mat_cwmax mat) then int (mat_cwmax mat) + 1 else ind);
                    mat' \<leftarrow> do { mat' \<leftarrow> remove_j_from_S (set_wt j ind mat) j; insert_j_in_S mat' ind' j };
                    Some (ind', mat') } }"

definition freeRj :: "filter_matrix \<Rightarrow> int \<Rightarrow> filter_matrix" where
  "freeRj mat j = set_R j None mat"

text \<open>The loop of \<open>remove_i_from_Rj\<close> overwrites the first cell that holds \<open>i\<close> by -1, that of
  \<open>add_i_to_Rj\<close> the first -1 by \<open>i\<close>, reallocating when there is none.\<close>

fun clear_first :: "int \<Rightarrow> int list \<Rightarrow> int list" where
  "clear_first i [] = []"
| "clear_first i (x # xs) = (if x = i then - 1 # xs else x # clear_first i xs)"

fun put_first :: "int \<Rightarrow> int list \<Rightarrow> int list" where
  "put_first i [] = [i]"
| "put_first i (x # xs) = (if x = - 1 then i # xs else x # put_first i xs)"

definition remove_i_from_Rj :: "filter_matrix \<Rightarrow> int \<Rightarrow> int \<Rightarrow> filter_matrix option" where
  "remove_i_from_Rj mat i j =
     do { r \<leftarrow> at (mat_R mat) j;
          (case r of None \<Rightarrow> Some mat | Some r \<Rightarrow> Some (set_R j (Some (clear_first i r)) mat)) }"

definition add_i_to_Rj :: "filter_matrix \<Rightarrow> int \<Rightarrow> int \<Rightarrow> filter_matrix option" where
  "add_i_to_Rj mat i j =
     do { r \<leftarrow> at (mat_R mat) j;
          r \<leftarrow> r;
          Some (set_R j (Some (put_first i r)) mat) }"

section \<open>The stacks of columns\<close>

text \<open>
  \<open>stacks S A s lev L\<close>: the store holds disjoint lists \<open>L w\<close> with headers \<open>S[w]\<close>, and the cells of
  \<open>L w\<close> are the cells \<open>A[j]\<close> of the columns \<open>j\<close> with \<open>lev j = w\<close>.
\<close>

definition stack_addr :: "nat list \<Rightarrow> (nat \<Rightarrow> (nat \<times> int) list) \<Rightarrow> nat \<Rightarrow> nat set" where
  "stack_addr S L w = insert (S ! w) (fst ` set (L w))"

definition stacks :: "nat list \<Rightarrow> nat option list \<Rightarrow> dclist_store \<Rightarrow> (nat \<Rightarrow> nat) \<Rightarrow> (nat \<Rightarrow> (nat \<times> int) list) \<Rightarrow> bool" where
  "stacks S A s lev L \<longleftrightarrow> store_ok s
     \<and> (\<forall>w < length S. is_dclist s (S ! w) (L w))
     \<and> (\<forall>w < length S. \<forall>w' < length S. w \<noteq> w' \<longrightarrow> stack_addr S L w \<inter> stack_addr S L w' = {})
     \<and> (\<forall>w < length S. \<forall>p j. (p, j) \<in> set (L w) \<longrightarrow> 0 \<le> j \<and> nat j < length A \<and> A ! nat j = Some p \<and> lev (nat j) = w)
     \<and> (\<forall>j < length A. \<forall>p. A ! j = Some p \<longrightarrow> lev j < length S \<and> (p, int j) \<in> set (L (lev j)))"

lemma stacksD:
  assumes "stacks S A s lev L"
  shows stacks_col: "w < length S \<Longrightarrow> (p, j) \<in> set (L w) \<Longrightarrow> 0 \<le> j \<and> nat j < length A \<and> A ! nat j = Some p \<and> lev (nat j) = w"
    and stacks_ptr: "i < length A \<Longrightarrow> A ! i = Some p \<Longrightarrow> lev i < length S \<and> (p, int i) \<in> set (L (lev i))"
    and stacks_list: "w < length S \<Longrightarrow> is_dclist s (S ! w) (L w)"
    and stacks_store: "store_ok s"
    and stacks_disj: "w < length S \<Longrightarrow> w' < length S \<Longrightarrow> w \<noteq> w' \<Longrightarrow> stack_addr S L w \<inter> stack_addr S L w' = {}"
  using assms unfolding stacks_def by blast+

lemma stacksI:
  assumes "store_ok s" "\<And>w. w < length S \<Longrightarrow> is_dclist s (S ! w) (L w)"
    and "\<And>w w'. w < length S \<Longrightarrow> w' < length S \<Longrightarrow> w \<noteq> w' \<Longrightarrow> stack_addr S L w \<inter> stack_addr S L w' = {}"
    and "\<And>w p j. w < length S \<Longrightarrow> (p, j) \<in> set (L w) \<Longrightarrow> 0 \<le> j \<and> nat j < length A \<and> A ! nat j = Some p \<and> lev (nat j) = w"
    and "\<And>j p. j < length A \<Longrightarrow> A ! j = Some p \<Longrightarrow> lev j < length S \<and> (p, int j) \<in> set (L (lev j))"
  shows "stacks S A s lev L"
  using assms unfolding stacks_def by blast

lemma stacks_lev_cong:
  assumes "stacks S A s lev L" "\<And>j. j < length A \<Longrightarrow> A ! j \<noteq> None \<Longrightarrow> lev' j = lev j"
  shows "stacks S A s lev' L"
proof (rule stacksI)
  show "store_ok s" "\<And>w. w < length S \<Longrightarrow> is_dclist s (S ! w) (L w)"
    "\<And>w w'. w < length S \<Longrightarrow> w' < length S \<Longrightarrow> w \<noteq> w' \<Longrightarrow> stack_addr S L w \<inter> stack_addr S L w' = {}"
    using stacksD [OF assms(1)] by blast+
  fix w p j assume "w < length S" "(p, j) \<in> set (L w)"
  then show "0 \<le> j \<and> nat j < length A \<and> A ! nat j = Some p \<and> lev' (nat j) = w"
    using stacks_col [OF assms(1)] assms(2) by fastforce
next
  fix j p assume "j < length A" "A ! j = Some p"
  then show "lev' j < length S \<and> (p, int j) \<in> set (L (lev' j))"
    using stacks_ptr [OF assms(1)] assms(2) by simp
qed

lemma stacks_first:
  assumes "stacks S A s lev L" "w < length S"
  shows "dclistFirst s (S ! w) = Some (first_of (L w) None)"
  using dclistFirst_val stacks_list [OF assms] by blast

lemma stacks_remove:
  assumes st: "stacks S A s lev L" and j: "j < length A" "A ! j = Some p"
  shows "\<exists>s' xs ys. L (lev j) = xs @ (p, int j) # ys \<and> dclistRemove s p = Some s'
           \<and> stacks S (A[j := None]) s' lev (L(lev j := xs @ ys))"
proof -
  let ?w = "lev j"
  note d = stacksD [OF st]
  have w: "?w < length S" and mem: "(p, int j) \<in> set (L ?w)" using d(2) [OF j] by auto
  obtain xs ys where L: "L ?w = xs @ (p, int j) # ys" using split_list [OF mem] by blast
  have ok: "store_ok s" and l: "is_dclist s (S ! ?w) (xs @ (p, int j) # ys)" using d(3) [OF w] d(4) unfolding L by blast+
  obtain s' where s': "dclistRemove s p = Some s'" "store_ok s'" "is_dclist s' (S ! ?w) (xs @ ys)"
      "untouched (insert (S ! ?w) (fst ` set (xs @ (p, int j) # ys))) s s'"
    using dclistRemove_val [OF ok l] by blast
  let ?L = "L(?w := xs @ ys)"
  have sub: "stack_addr S ?L v \<subseteq> stack_addr S L v" for v using L by (auto simp: stack_addr_def)
  have lists: "is_dclist s' (S ! v) (?L v)" if "v < length S" for v
  proof (cases "v = ?w")
    case True then show ?thesis using s'(3) by simp
  next
    case False
    have "stack_addr S L v \<inter> stack_addr S L ?w = {}" using d(5) that w False by blast
    then have "insert (S ! v) (fst ` set (L v)) \<inter> insert (S ! ?w) (fst ` set (xs @ (p, int j) # ys)) = {}"
      unfolding stack_addr_def L by blast
    moreover have "is_dclist s (S ! v) (L v)" using d(3) that by blast
    ultimately show ?thesis using is_dclist_frame [OF s'(4) ok] False by simp
  qed
  have dist: "distinct (map fst (xs @ (p, int j) # ys))" using l by (simp add: is_dclist_def)
  have notj: "j' \<noteq> int j" if "v < length S" "(q, j') \<in> set (?L v)" for v q j'
  proof
    assume e: "j' = int j"
    have "(q, j') \<in> set (L v)" using that L by (cases "v = ?w") auto
    then have "A ! j = Some q" "lev j = v" using d(1) [OF that(1)] e by fastforce+
    then have "q = p" "v = ?w" using j by auto
    then show False using that dist by force
  qed
  have bwd: "0 \<le> j' \<and> nat j' < length (A[j := None]) \<and> A[j := None] ! nat j' = Some q \<and> lev (nat j') = v"
    if "v < length S" "(q, j') \<in> set (?L v)" for v q j'
  proof -
    have "(q, j') \<in> set (L v)" using that L by (cases "v = ?w") auto
    moreover have "nat j' \<noteq> j" if "0 \<le> j'" using that notj [OF \<open>v < length S\<close> \<open>(q, j') \<in> set (?L v)\<close>] by auto
    ultimately show ?thesis using d(1) [OF that(1)] by fastforce
  qed
  have forth: "lev i < length S \<and> (q, int i) \<in> set (?L (lev i))" if "i < length A" "A[j := None] ! i = Some q" for i q
  proof -
    have "i \<noteq> j" using that j by auto
    then have "lev i < length S \<and> (q, int i) \<in> set (L (lev i))" using d(2) that by simp
    then show ?thesis using L \<open>i \<noteq> j\<close> by (cases "lev i = ?w") auto
  qed
  have "stack_addr S ?L v \<inter> stack_addr S ?L v' = {}" if "v < length S" "v' < length S" "v \<noteq> v'" for v v'
    using d(5) [OF that] sub by blast
  then have "stacks S (A[j := None]) s' lev ?L"
    using s'(2) lists bwd forth by (intro stacksI) simp_all
  then show ?thesis using L s'(1) by blast
qed

lemma stacks_insert:
  assumes st: "stacks S A s lev L" and j: "j < length A" "A ! j = None" and w: "w < length S"
  shows "\<exists>p s'. dclistInsert s (S ! w) (int j) = Some (p, s')
           \<and> stacks S (A[j := Some p]) s' (lev(j := w)) (L(w := (p, int j) # L w))"
proof -
  note d = stacksD [OF st]
  have ok: "store_ok s" and l: "is_dclist s (S ! w) (L w)" using d(3,4) w by auto
  obtain s' where s': "dclistInsert s (S ! w) (int j) = Some (brk s, s')" "store_ok s'" "is_dclist s' (S ! w) ((brk s, int j) # L w)"
      "untouched (insert (S ! w) (fst ` set (L w))) s s'"
    using dclistInsert_val [OF ok l] by blast
  let ?L = "L(w := (brk s, int j) # L w)"
  have addr: "stack_addr S ?L v = (if v = w then insert (brk s) (stack_addr S L v) else stack_addr S L v)" for v
    by (auto simp: stack_addr_def)
  have old: "brk s \<notin> stack_addr S L v" if "v < length S" for v
    using is_dclist_bound [OF ok, of "S ! v" "L v" "brk s"] d that by (auto simp: stack_addr_def)
  have lists: "is_dclist s' (S ! v) (?L v)" if "v < length S" for v
  proof (cases "v = w")
    case True then show ?thesis using s'(3) by simp
  next
    case False
    have "stack_addr S L v \<inter> stack_addr S L w = {}" using d(5) that w False by blast
    moreover have "is_dclist s (S ! v) (L v)" using d(3) that by blast
    ultimately show ?thesis using is_dclist_frame [OF s'(4) ok] False unfolding stack_addr_def by simp
  qed
  have oldcol: "0 \<le> i \<and> nat i < length A \<and> A ! nat i = Some q \<and> lev (nat i) = v \<and> nat i \<noteq> j"
    if "v < length S" "(q, i) \<in> set (L v)" for v q i using d(1) [OF that] j by auto
  have bwd: "0 \<le> i \<and> nat i < length (A[j := Some (brk s)]) \<and> A[j := Some (brk s)] ! nat i = Some q \<and> (lev(j := w)) (nat i) = v"
    if "v < length S" "(q, i) \<in> set (?L v)" for v q i
    using that oldcol [of v q i] j by (cases "v = w") auto
  have forth: "(lev(j := w)) i < length S \<and> (q, int i) \<in> set (?L ((lev(j := w)) i))"
    if "i < length A" "A[j := Some (brk s)] ! i = Some q" for i q
  proof (cases "i = j")
    case True then show ?thesis using that w by simp
  next
    case False
    then have "lev i < length S \<and> (q, int i) \<in> set (L (lev i))" using d(2) that by simp
    then show ?thesis using False by auto
  qed
  have "stack_addr S ?L v \<inter> stack_addr S ?L v' = {}" if "v < length S" "v' < length S" "v \<noteq> v'" for v v'
  proof -
    have "stack_addr S L v \<inter> stack_addr S L v' = {}" using d(5) that by blast
    then show ?thesis using old [OF that(1)] old [OF that(2)] that(3) unfolding addr by auto
  qed
  then have "stacks S (A[j := Some (brk s)]) s' (lev(j := w)) ?L"
    using s'(2) lists bwd forth by (intro stacksI) simp_all
  then show ?thesis using s'(1) by blast
qed

section \<open>The invariant\<close>

text \<open>The rows that contain column \<open>j\<close>, and the rows listed in a cell of \<open>R\<close>.\<close>

definition rows_with :: "(nat \<Rightarrow> int set) \<Rightarrow> nat \<Rightarrow> nat set" where
  "rows_with M j = {i. int j \<in> M i}"

definition live :: "int list \<Rightarrow> int list" where
  "live r = filter (\<lambda>x. x \<noteq> - 1) r"

definition level :: "filter_matrix \<Rightarrow> nat \<Rightarrow> nat" where
  "level mat j = (if mat_wt mat ! j > int (mat_cwmax mat) then mat_cwmax mat + 1 else nat (mat_wt mat ! j))"

lemma level_cong: "mat_wt mat' = mat_wt mat \<Longrightarrow> mat_cwmax mat' = mat_cwmax mat \<Longrightarrow> level mat' = level mat"
  by (simp add: level_def fun_eq_iff)

text \<open>
  A column with a cell in the stacks has its weight and its rows recorded exactly.  A column
  without one is either too heavy, with a negative weight, or gone: of weight 0 and in no row.
\<close>

definition col_ok :: "(nat \<Rightarrow> int set) \<Rightarrow> filter_matrix \<Rightarrow> nat \<Rightarrow> bool" where
  "col_ok M mat j \<longleftrightarrow>
     (case mat_A mat ! j of
        Some p \<Rightarrow> (\<exists>r. mat_R mat ! j = Some r \<and> distinct (live r) \<and> set (live r) = int ` rows_with M j
                       \<and> mat_wt mat ! j = int (length (live r)))
      | None \<Rightarrow> mat_R mat ! j = None \<and> (mat_wt mat ! j < 0 \<or> mat_wt mat ! j = 0 \<and> rows_with M j = {}))"

definition dims_ok :: "(nat \<Rightarrow> int set) \<Rightarrow> filter_matrix \<Rightarrow> bool" where
  "dims_ok M mat \<longleftrightarrow>
     length (mat_wt mat) = mat_ncols mat \<and> length (mat_R mat) = mat_ncols mat \<and> length (mat_A mat) = mat_ncols mat
     \<and> length (mat_S mat) = mat_cwmax mat + 2
     \<and> length (mat_rows mat) = mat_nrows mat \<and> length (mat_wburied mat) = mat_nrows mat
     \<and> (\<forall>i. M i \<subseteq> {0..<int (mat_ncols mat)}) \<and> (\<forall>i \<ge> mat_nrows mat. M i = {})"

definition mat_ok :: "(nat \<Rightarrow> int set) \<Rightarrow> filter_matrix \<Rightarrow> bool" where
  "mat_ok M mat \<longleftrightarrow> dims_ok M mat \<and> (\<exists>L. stacks (mat_S mat) (mat_A mat) (mat_store mat) (level mat) L)
     \<and> (\<forall>j < mat_ncols mat. col_ok M mat j)"

text \<open>What the updates of columns change, and that they neither retire a column nor revive one.\<close>

definition gone :: "filter_matrix \<Rightarrow> nat \<Rightarrow> bool" where
  "gone mat j \<longleftrightarrow> mat_A mat ! j = None \<and> mat_wt mat ! j = 0"

definition col_frame :: "filter_matrix \<Rightarrow> filter_matrix \<Rightarrow> bool" where
  "col_frame mat mat' \<longleftrightarrow>
     (\<exists>w r a s. mat' = mat \<lparr> mat_wt := w, mat_R := r, mat_A := a, mat_store := s \<rparr>)
     \<and> (\<forall>j. gone mat' j = gone mat j) \<and> (\<forall>j. (mat_A mat' ! j = None) = (mat_A mat ! j = None))"

lemma col_frameI:
  assumes "mat' = mat \<lparr> mat_wt := w, mat_R := r, mat_A := a, mat_store := s \<rparr>"
    and "\<And>j. gone mat' j = gone mat j" "\<And>j. (mat_A mat' ! j = None) = (mat_A mat ! j = None)"
  shows "col_frame mat mat'"
  using assms unfolding col_frame_def by blast

lemma col_frame_refl [simp]: "col_frame mat mat"
  unfolding col_frame_def by (auto intro!: exI filter_matrix.equality)

lemma col_frame_trans:
  assumes "col_frame mat1 mat2" "col_frame mat2 mat3"
  shows "col_frame mat1 mat3"
proof -
  obtain w r a s where "mat2 = mat1 \<lparr> mat_wt := w, mat_R := r, mat_A := a, mat_store := s \<rparr>"
    using assms(1) unfolding col_frame_def by blast
  moreover obtain w' r' a' s' where "mat3 = mat2 \<lparr> mat_wt := w', mat_R := r', mat_A := a', mat_store := s' \<rparr>"
    using assms(2) unfolding col_frame_def by blast
  ultimately have "mat3 = mat1 \<lparr> mat_wt := w', mat_R := r', mat_A := a', mat_store := s' \<rparr>" by simp
  then have "\<exists>w r a s. mat3 = mat1 \<lparr> mat_wt := w, mat_R := r, mat_A := a, mat_store := s \<rparr>" by blast
  then show ?thesis using assms unfolding col_frame_def by simp
qed

lemma col_frame_simps:
  assumes "col_frame mat mat'"
  shows "mat_nrows mat' = mat_nrows mat" "mat_ncols mat' = mat_ncols mat" "mat_rem_nrows mat' = mat_rem_nrows mat"
    "mat_rem_ncols mat' = mat_rem_ncols mat" "mat_rows mat' = mat_rows mat" "mat_wburied mat' = mat_wburied mat"
    "mat_nburied mat' = mat_nburied mat" "mat_weight mat' = mat_weight mat" "mat_cwmax mat' = mat_cwmax mat"
    "mat_rwmax mat' = mat_rwmax mat" "mat_keep mat' = mat_keep mat" "mat_S mat' = mat_S mat"
    "\<And>j. gone mat' j = gone mat j" "\<And>j. (mat_A mat' ! j = None) = (mat_A mat ! j = None)"
  using assms by (auto simp: col_frame_def)

lemma live_clear_first: "i \<noteq> - 1 \<Longrightarrow> live (clear_first i r) = remove1 i (live r)"
  by (induction r) (auto simp: live_def)

lemma mset_live_put_first: "i \<noteq> - 1 \<Longrightarrow> mset (live (put_first i r)) = add_mset i (mset (live r))"
  by (induction r) (auto simp: live_def)

lemma live_put_first:
  assumes "i \<noteq> - 1"
  shows "set (live (put_first i r)) = insert i (set (live r))" "length (live (put_first i r)) = Suc (length (live r))"
    "distinct (live (put_first i r)) \<longleftrightarrow> i \<notin> set (live r) \<and> distinct (live r)"
proof -
  note m = mset_live_put_first [OF assms, of r]
  then show "set (live (put_first i r)) = insert i (set (live r))"
    by (metis set_mset_add_mset_insert set_mset_mset)
  show "length (live (put_first i r)) = Suc (length (live r))" using m by (metis size_add_mset size_mset)
  have "mset (live (put_first i r)) = mset (i # live r)" using m by simp
  then show "distinct (live (put_first i r)) \<longleftrightarrow> i \<notin> set (live r) \<and> distinct (live r)"
    by (metis mset_eq_imp_distinct_iff distinct.simps(2))
qed

lemma at_int [simp]: "j < length xs \<Longrightarrow> at xs (int j) = Some (xs ! j)"
  by (simp add: at_def)

lemma move_col:
  assumes st: "stacks (mat_S mat) (mat_A mat) (mat_store mat) lev L" and j: "j < length (mat_A mat)" "mat_A mat ! j = Some p"
    and ind: "ind < length (mat_S mat)"
  shows "\<exists>q s L'. do { mat \<leftarrow> remove_j_from_S mat (int j); insert_j_in_S mat (int ind) (int j) }
           = Some (mat \<lparr> mat_A := (mat_A mat)[j := Some q], mat_store := s \<rparr>)
         \<and> stacks (mat_S mat) ((mat_A mat)[j := Some q]) s (lev(j := ind)) L'"
proof -
  obtain s1 L1 where s1: "dclistRemove (mat_store mat) p = Some s1" "stacks (mat_S mat) ((mat_A mat)[j := None]) s1 lev L1"
    using stacks_remove [OF st j] by blast
  obtain q s2 where s2: "dclistInsert s1 (mat_S mat ! ind) (int j) = Some (q, s2)"
      "stacks (mat_S mat) ((mat_A mat)[j := None, j := Some q]) s2 (lev(j := ind)) (L1(ind := (q, int j) # L1 ind))"
    using stacks_insert [OF s1(2) _ _ ind, of j] j by auto
  have "do { mat \<leftarrow> remove_j_from_S mat (int j); insert_j_in_S mat (int ind) (int j) }
           = Some (mat \<lparr> mat_A := (mat_A mat)[j := Some q], mat_store := s2 \<rparr>)"
    using j ind s1(1) s2(1) by (simp add: remove_j_from_S_def insert_j_in_S_def set_A_def)
  then show ?thesis using s2(2) by auto
qed

lemma level_set_wt: "j < length (mat_wt mat) \<Longrightarrow> level (set_wt (int j) w mat) =
    (level mat)(j := (if w > int (mat_cwmax mat) then mat_cwmax mat + 1 else nat w))"
  by (auto simp: level_def set_wt_def fun_eq_iff nth_list_update)

text \<open>Both ways to change the weight of a column of the stacks move its cell to the list of the new weight.\<close>

lemma reweight_col:
  assumes ok: "mat_ok M mat" and j: "j < mat_ncols mat" "mat_A mat ! j = Some p" and w: "0 \<le> w"
  shows "\<exists>mat' q s. do { mat' \<leftarrow> remove_j_from_S (set_wt (int j) w mat) (int j);
              insert_j_in_S mat' (if w > int (mat_cwmax mat) then int (mat_cwmax mat) + 1 else w) (int j) } = Some mat'
       \<and> mat' = mat \<lparr> mat_wt := (mat_wt mat)[j := w], mat_A := (mat_A mat)[j := Some q], mat_store := s \<rparr>
       \<and> (\<exists>L. stacks (mat_S mat') (mat_A mat') (mat_store mat') (level mat') L)"
proof -
  let ?m = "set_wt (int j) w mat" and ?ind = "if w > int (mat_cwmax mat) then mat_cwmax mat + 1 else nat w"
  have d: "length (mat_A mat) = mat_ncols mat" "length (mat_wt mat) = mat_ncols mat" "length (mat_S mat) = mat_cwmax mat + 2"
    using ok by (auto simp: mat_ok_def dims_ok_def)
  obtain L where L: "stacks (mat_S ?m) (mat_A ?m) (mat_store ?m) (level mat) L" using ok by (auto simp: mat_ok_def set_wt_def)
  have i: "?ind < length (mat_S ?m)" "int ?ind = (if w > int (mat_cwmax mat) then int (mat_cwmax mat) + 1 else w)"
    using d w by (auto simp: set_wt_def)
  obtain q s L' where mv: "do { mat \<leftarrow> remove_j_from_S ?m (int j); insert_j_in_S mat (int ?ind) (int j) }
       = Some (?m \<lparr> mat_A := (mat_A ?m)[j := Some q], mat_store := s \<rparr>)"
      "stacks (mat_S ?m) ((mat_A ?m)[j := Some q]) s ((level mat)(j := ?ind)) L'"
    using move_col [OF L _ _ i(1), of j p] j d by (auto simp: set_wt_def)
  let ?mat = "mat \<lparr> mat_wt := (mat_wt mat)[j := w], mat_A := (mat_A mat)[j := Some q], mat_store := s \<rparr>"
  have e: "?m \<lparr> mat_A := (mat_A ?m)[j := Some q], mat_store := s \<rparr> = ?mat" by (simp add: set_wt_def)
  have "level ?mat = (level mat)(j := ?ind)"
    using level_set_wt [of j mat w] j d by (simp add: level_def set_wt_def fun_eq_iff)
  then have "stacks (mat_S ?mat) (mat_A ?mat) (mat_store ?mat) (level ?mat) L'" using mv(2) by (simp add: set_wt_def)
  then show ?thesis using mv(1) [unfolded e i(2)] by (intro exI conjI) (assumption | rule refl)+
qed

end
