(* ===== verification/Merge_rows.thy ===== *)
theory Merge_rows
  imports Filter_matrix
begin

text \<open>
  Model of the part of \<open>src/filter/merge_mono.c\<close> that updates the columns when rows change:
  \<open>removeCellAndUpdate\<close>, \<open>addCellAndUpdate\<close>, \<open>removeRowAndUpdate\<close>, \<open>addOneRowAndUpdate\<close>,
  \<open>addRowsAndUpdate\<close>, and \<open>destroyRow\<close> of \<open>filter_matrix.c\<close>.  The rows are read while the columns
  are updated: the invariant is that of \<open>mat_ok M\<close> with the row being changed emptied, then filled.
\<close>

section \<open>Cells and rows\<close>

definition removeCellAndUpdate :: "filter_matrix \<Rightarrow> int \<Rightarrow> int \<Rightarrow> filter_matrix option" where
  "removeCellAndUpdate mat i j =
     do { w \<leftarrow> at (mat_wt mat) j;
          if w < 0 then Some mat
          else do { mat \<leftarrow> decreaseColWeightSWAR mat j; remove_i_from_Rj mat i j } }"

definition addCellAndUpdate :: "filter_matrix \<Rightarrow> int \<Rightarrow> int \<Rightarrow> filter_matrix option" where
  "addCellAndUpdate mat i j =
     do { (ind, mat) \<leftarrow> addColSWAR mat j;
          if ind \<ge> 0 then add_i_to_Rj mat i j else Some mat }"

lemma rows_with_upd:
  "rows_with (M(i := X)) j = (if int j \<in> X then insert i (rows_with M j) else rows_with M j - {i})"
  by (auto simp: rows_with_def)

lemma mat_ok_dims:
  assumes "mat_ok M mat"
  shows "length (mat_wt mat) = mat_ncols mat" "length (mat_R mat) = mat_ncols mat" "length (mat_A mat) = mat_ncols mat"
    "length (mat_S mat) = mat_cwmax mat + 2" "length (mat_rows mat) = mat_nrows mat" "length (mat_wburied mat) = mat_nrows mat"
    "M i \<subseteq> {0..<int (mat_ncols mat)}" "M i \<noteq> {} \<Longrightarrow> i < mat_nrows mat"
  using assms unfolding mat_ok_def dims_ok_def by (blast | meson not_le)+

lemma mat_ok_col: "mat_ok M mat \<Longrightarrow> j < mat_ncols mat \<Longrightarrow> col_ok M mat j"
  by (simp add: mat_ok_def)

lemma finite_rows_with:
  assumes "mat_ok M mat"
  shows "finite (rows_with M j)"
proof (rule finite_subset)
  show "rows_with M j \<subseteq> {..<mat_nrows mat}"
    using mat_ok_dims(8) [OF assms] unfolding rows_with_def by blast
qed simp

text \<open>The invariant of the other columns is not affected by a change of the entries \<open>M i j\<close>.\<close>

lemma col_ok_other:
  assumes "col_ok M mat k" "rows_with M' k = rows_with M k"
    and "mat_A mat' ! k = mat_A mat ! k" "mat_wt mat' ! k = mat_wt mat ! k" "mat_R mat' ! k = mat_R mat ! k"
  shows "col_ok M' mat' k"
  using assms(1) unfolding col_ok_def assms(2-5) .

lemma mat_ok_update:
  assumes ok: "mat_ok M mat" and j: "j < mat_ncols mat" and i: "i < mat_nrows mat"
    and M': "M' = M(i := X)" "X \<subseteq> {0..<int (mat_ncols mat)}" "\<And>k. k \<noteq> int j \<Longrightarrow> k \<in> X \<longleftrightarrow> k \<in> M i"
    and mat': "mat' = mat \<lparr> mat_wt := (mat_wt mat)[j := w], mat_R := (mat_R mat)[j := r], mat_A := (mat_A mat)[j := a], mat_store := s \<rparr>"
    and st: "\<exists>L. stacks (mat_S mat') (mat_A mat') (mat_store mat') (level mat') L"
    and col: "col_ok M' mat' j"
  shows "mat_ok M' mat'"
proof -
  have "col_ok M' mat' k" if "k < mat_ncols mat" for k
  proof (cases "k = j")
    case False
    have "rows_with M' k = rows_with M k" using M'(3) [of "int k"] False unfolding M'(1) rows_with_def by auto
    then show ?thesis using mat_ok_col [OF ok that] False by (rule_tac col_ok_other) (simp_all add: mat')
  qed (simp add: col)
  moreover have "dims_ok M' mat'" using ok i M'(2) unfolding mat_ok_def dims_ok_def mat' M'(1) by simp
  ultimately show ?thesis using st unfolding mat_ok_def by (simp add: mat')
qed

lemma at_nat: "0 \<le> j \<Longrightarrow> nat j < length xs \<Longrightarrow> at xs j = Some (xs ! nat j)"
  by (simp add: at_def)

lemma removeCell_ok:
  assumes ok: "mat_ok M mat" and ij: "int j \<in> M i"
  shows "\<exists>mat'. removeCellAndUpdate mat (int i) (int j) = Some mat' \<and> mat_ok (M(i := M i - {int j})) mat' \<and> col_frame mat mat'"
proof -
  note d = mat_ok_dims [OF ok]
  have j: "j < mat_ncols mat" using d(7) [of i] ij by auto
  have i: "i < mat_nrows mat" using d(8) ij by blast
  let ?M = "M(i := M i - {int j})"
  have rw: "rows_with ?M j = rows_with M j - {i}" "i \<in> rows_with M j" using ij by (auto simp: rows_with_def)
  note col = mat_ok_col [OF ok j, unfolded col_ok_def]
  have sub: "M i - {int j} \<subseteq> {0..<int (mat_ncols mat)}" using d(7) by blast
  note upd = mat_ok_update [OF ok j i refl sub]
  show ?thesis
  proof (cases "mat_A mat ! j")
    case None
    then have neg: "mat_wt mat ! j < 0" "mat_R mat ! j = None" using col rw(2) by auto
    have self: "mat = mat \<lparr> mat_wt := (mat_wt mat)[j := mat_wt mat ! j], mat_R := (mat_R mat)[j := mat_R mat ! j],
        mat_A := (mat_A mat)[j := mat_A mat ! j], mat_store := mat_store mat \<rparr>" by simp
    have "col_ok ?M mat j" using None neg by (simp add: col_ok_def)
    moreover have "\<exists>L. stacks (mat_S mat) (mat_A mat) (mat_store mat) (level mat) L" using ok unfolding mat_ok_def by blast
    ultimately have "mat_ok ?M mat" by (intro upd [OF _ self]) simp_all
    moreover have "removeCellAndUpdate mat (int i) (int j) = Some mat" using neg j d(1) by (simp add: removeCellAndUpdate_def)
    ultimately show ?thesis by auto
  next
    case (Some p)
    then obtain r where r: "mat_R mat ! j = Some r" "distinct (live r)" "set (live r) = int ` rows_with M j" "mat_wt mat ! j = int (length (live r))"
      using col by auto
    have mem: "int i \<in> set (live r)" using r(3) rw(2) by auto
    then have pos: "0 < length (live r)" by (cases "live r") auto
    let ?w = "mat_wt mat ! j - 1"
    have w: "0 \<le> ?w" "decrS (mat_wt mat ! j) = ?w" "\<not> mat_wt mat ! j < 0" using pos r(4) by (simp_all add: decrS_def)
    obtain mat1 q s where m0: "do { mat' \<leftarrow> remove_j_from_S (set_wt (int j) ?w mat) (int j);
              insert_j_in_S mat' (if ?w > int (mat_cwmax mat) then int (mat_cwmax mat) + 1 else ?w) (int j) } = Some mat1"
        "mat1 = mat \<lparr> mat_wt := (mat_wt mat)[j := ?w], mat_A := (mat_A mat)[j := Some q], mat_store := s \<rparr>"
        "\<exists>L. stacks (mat_S mat1) (mat_A mat1) (mat_store mat1) (level mat1) L"
      using reweight_col [OF ok j Some w(1)] by blast
    note m1 = m0(1,3) [unfolded m0(2)]
    let ?mat = "mat \<lparr> mat_wt := (mat_wt mat)[j := ?w], mat_R := (mat_R mat)[j := Some (clear_first (int i) r)],
        mat_A := (mat_A mat)[j := Some q], mat_store := s \<rparr>"
    have lv: "live (clear_first (int i) r) = remove1 (int i) (live r)" by (rule live_clear_first) simp
    have "?w = int (length (live (clear_first (int i) r)))"
      unfolding lv using r(4) mem pos by (simp add: length_remove1 del: length_greater_0_conv)
    moreover have "distinct (live (clear_first (int i) r))" "set (live (clear_first (int i) r)) = int ` rows_with ?M j"
      unfolding lv rw(1) using r(2,3) by auto
    ultimately have "col_ok ?M ?mat j" using j d unfolding col_ok_def by simp
    moreover have "\<exists>L. stacks (mat_S ?mat) (mat_A ?mat) (mat_store ?mat) (level ?mat) L"
      using m1(2) level_cong [of ?mat mat1] by (simp add: m0(2))
    ultimately have "mat_ok ?M ?mat" by (intro upd [OF _ refl]) auto
    moreover have "removeCellAndUpdate mat (int i) (int j) = Some ?mat"
      using m1(1) w j d r(1) by (simp add: removeCellAndUpdate_def decreaseColWeightSWAR_def remove_i_from_Rj_def set_R_def)
    moreover have "col_frame mat ?mat"
      by (rule col_frameI [OF refl]) (use Some j d in \<open>auto simp: gone_def nth_list_update\<close>)
    ultimately show ?thesis by blast
  qed
qed

lemma addCell_ok:
  assumes ok: "mat_ok M mat" and ij: "int j \<notin> M i" "j < mat_ncols mat" "i < mat_nrows mat" and g: "\<not> gone mat j"
  shows "\<exists>mat'. addCellAndUpdate mat (int i) (int j) = Some mat' \<and> mat_ok (M(i := insert (int j) (M i))) mat' \<and> col_frame mat mat'"
proof -
  note d = mat_ok_dims [OF ok]
  note j = ij(2)
  let ?M = "M(i := insert (int j) (M i))"
  have rw: "rows_with ?M j = insert i (rows_with M j)" "i \<notin> rows_with M j" using ij by (auto simp: rows_with_def)
  note col = mat_ok_col [OF ok j, unfolded col_ok_def]
  have sub: "insert (int j) (M i) \<subseteq> {0..<int (mat_ncols mat)}" using d(7) j by auto
  note upd = mat_ok_update [OF ok j ij(3) refl sub]
  show ?thesis
  proof (cases "mat_A mat ! j")
    case None
    then have neg: "mat_wt mat ! j < 0" "mat_R mat ! j = None" using col g by (auto simp: gone_def)
    let ?mat = "mat \<lparr> mat_wt := (mat_wt mat)[j := mat_wt mat ! j - 1], mat_R := (mat_R mat)[j := mat_R mat ! j],
        mat_A := (mat_A mat)[j := mat_A mat ! j], mat_store := mat_store mat \<rparr>"
    have "col_ok ?M ?mat j" using None neg j d by (simp add: col_ok_def)
    moreover have "\<exists>L. stacks (mat_S ?mat) (mat_A ?mat) (mat_store ?mat) (level ?mat) L"
    proof -
      obtain L where "stacks (mat_S mat) (mat_A mat) (mat_store mat) (level mat) L" using ok unfolding mat_ok_def by blast
      then have "stacks (mat_S mat) (mat_A mat) (mat_store mat) (level ?mat) L"
      proof (rule stacks_lev_cong)
        fix k assume "mat_A mat ! k \<noteq> None"
        then have "k \<noteq> j" using None by metis
        then show "level ?mat k = level mat k" by (simp add: level_def)
      qed
      then show ?thesis by auto
    qed
    ultimately have "mat_ok ?M ?mat" by (intro upd [OF _ refl]) auto
    moreover have "addCellAndUpdate mat (int i) (int j) = Some ?mat"
    proof -
      have "(mat_R mat)[j := mat_R mat ! j] = mat_R mat" "(mat_A mat)[j := mat_A mat ! j] = mat_A mat" by simp_all
      then show ?thesis
        using neg j d(1) by (simp only: addCellAndUpdate_def addColSWAR_def incrS_def set_wt_def at_int) (simp add: Let_def)
    qed
    moreover have "col_frame mat ?mat"
      by (rule col_frameI [OF refl]) (use neg j d in \<open>auto simp: gone_def nth_list_update\<close>)
    ultimately show ?thesis by blast
  next
    case (Some p)
    then obtain r where r: "mat_R mat ! j = Some r" "distinct (live r)" "set (live r) = int ` rows_with M j" "mat_wt mat ! j = int (length (live r))"
      using col by auto
    let ?w = "mat_wt mat ! j + 1"
    have w: "0 \<le> ?w" "incrS (mat_wt mat ! j) = ?w" "\<not> ?w < 0" using r(4) by (simp_all add: incrS_def)
    obtain mat1 q s where m0: "do { mat' \<leftarrow> remove_j_from_S (set_wt (int j) ?w mat) (int j);
              insert_j_in_S mat' (if ?w > int (mat_cwmax mat) then int (mat_cwmax mat) + 1 else ?w) (int j) } = Some mat1"
        "mat1 = mat \<lparr> mat_wt := (mat_wt mat)[j := ?w], mat_A := (mat_A mat)[j := Some q], mat_store := s \<rparr>"
        "\<exists>L. stacks (mat_S mat1) (mat_A mat1) (mat_store mat1) (level mat1) L"
      using reweight_col [OF ok j Some w(1)] by blast
    note m1 = m0(1,3) [unfolded m0(2)]
    let ?mat = "mat \<lparr> mat_wt := (mat_wt mat)[j := ?w], mat_R := (mat_R mat)[j := Some (put_first (int i) r)],
        mat_A := (mat_A mat)[j := Some q], mat_store := s \<rparr>"
    have lv: "set (live (put_first (int i) r)) = insert (int i) (set (live r))" "length (live (put_first (int i) r)) = Suc (length (live r))"
        "distinct (live (put_first (int i) r))"
      using live_put_first [of "int i" r] r(2,3) rw(2) by auto
    have "col_ok ?M ?mat j"
      using r rw j d lv unfolding col_ok_def by simp
    moreover have "\<exists>L. stacks (mat_S ?mat) (mat_A ?mat) (mat_store ?mat) (level ?mat) L"
      using m1(2) level_cong [of ?mat mat1] by (simp add: m0(2))
    ultimately have "mat_ok ?M ?mat" by (intro upd [OF _ refl]) auto
    moreover have "addCellAndUpdate mat (int i) (int j) = Some ?mat"
    proof -
      have at: "at (mat_wt mat) (int j) = Some (mat_wt mat ! j)" using j d(1) by simp
      have "addColSWAR mat (int j) = Some (if ?w > int (mat_cwmax mat) then int (mat_cwmax mat) + 1 else ?w, mat1)"
        unfolding addColSWAR_def at bind.bind_lunit Let_def w(2) m0(1) using w(3) by (simp only: if_False)
      then show ?thesis using w(1) j d r(1) by (simp add: addCellAndUpdate_def m0(2) add_i_to_Rj_def set_R_def)
    qed
    moreover have "col_frame mat ?mat"
      by (rule col_frameI [OF refl]) (use Some j d in \<open>auto simp: gone_def nth_list_update\<close>)
    ultimately show ?thesis by blast
  qed
qed

definition row_of :: "filter_matrix \<Rightarrow> int \<Rightarrow> row option" where
  "row_of mat i = (if 0 \<le> i then row_at (mat_rows mat) (nat i) else None)"

text \<open>\<open>mat->weight\<close> has type \<open>unsigned long\<close>.\<close>

definition add_weight :: "int \<Rightarrow> filter_matrix \<Rightarrow> filter_matrix" where
  "add_weight d mat = mat \<lparr> mat_weight := (mat_weight mat + d) mod 2 ^ 64 \<rparr>"

lemma weight_add: "mat_weight (add_weight d mat) = (mat_weight mat + d) mod 2 ^ 64"
  by (simp add: add_weight_def)

fun removeCells :: "filter_matrix \<Rightarrow> int \<Rightarrow> row \<Rightarrow> filter_matrix option" where
  "removeCells mat i [] = Some mat"
| "removeCells mat i (j # js) = do { mat \<leftarrow> removeCellAndUpdate mat i j; removeCells mat i js }"

definition removeRowAndUpdate :: "filter_matrix \<Rightarrow> int \<Rightarrow> filter_matrix option" where
  "removeRowAndUpdate mat i =
     do { r \<leftarrow> row_of mat i;
          b \<leftarrow> at (mat_wburied mat) i;
          removeCells (add_weight (- (int (length r) + b)) mat) i r }"

fun addCells :: "filter_matrix \<Rightarrow> int \<Rightarrow> row \<Rightarrow> filter_matrix option" where
  "addCells mat i [] = Some mat"
| "addCells mat i (j # js) = do { mat \<leftarrow> addCellAndUpdate mat i j; addCells mat i js }"

definition addOneRowAndUpdate :: "filter_matrix \<Rightarrow> int \<Rightarrow> filter_matrix option" where
  "addOneRowAndUpdate mat i =
     do { r \<leftarrow> row_of mat i;
          b \<leftarrow> at (mat_wburied mat) i;
          addCells (add_weight (int (length r) + b) mat) i r }"

definition addRowsAndUpdate :: "filter_matrix \<Rightarrow> int \<Rightarrow> int \<Rightarrow> int \<Rightarrow> filter_matrix option" where
  "addRowsAndUpdate mat i1 i2 len =
     do { mat \<leftarrow> removeRowAndUpdate mat i1;
          rows \<leftarrow> (if 0 \<le> i2 then addRows (mat_rows mat) (nat i1) (nat i2) len else None);
          addOneRowAndUpdate (mat \<lparr> mat_rows := rows \<rparr>) i1 }"

definition destroyRow :: "filter_matrix \<Rightarrow> int \<Rightarrow> filter_matrix" where
  "destroyRow mat i = mat \<lparr> mat_rows := (mat_rows mat)[nat i := None] \<rparr>"

section \<open>Invariants of rows\<close>

definition row_sets :: "row_table \<Rightarrow> nat \<Rightarrow> int set" where
  "row_sets rows i = (case row_at rows i of None \<Rightarrow> {} | Some r \<Rightarrow> set r)"

text \<open>The matrix is the set of its rows, each strictly increasing, and the columns agree with it.\<close>

definition matrix_ok :: "filter_matrix \<Rightarrow> bool" where
  "matrix_ok mat \<longleftrightarrow> mat_ok (row_sets (mat_rows mat)) mat \<and> (\<forall>i r. row_at (mat_rows mat) i = Some r \<longrightarrow> row_ok r)"

definition same_cols :: "filter_matrix \<Rightarrow> filter_matrix \<Rightarrow> bool" where
  "same_cols mat mat' \<longleftrightarrow> mat_wt mat' = mat_wt mat \<and> mat_R mat' = mat_R mat \<and> mat_A mat' = mat_A mat
     \<and> mat_S mat' = mat_S mat \<and> mat_store mat' = mat_store mat \<and> mat_cwmax mat' = mat_cwmax mat
     \<and> mat_ncols mat' = mat_ncols mat \<and> mat_nrows mat' = mat_nrows mat \<and> mat_wburied mat' = mat_wburied mat
     \<and> length (mat_rows mat') = length (mat_rows mat)"

lemma mat_ok_cong: "same_cols mat mat' \<Longrightarrow> mat_ok M mat' = mat_ok M mat"
proof -
  assume s: "same_cols mat mat'"
  then have "level mat' = level mat" by (intro level_cong) (simp_all add: same_cols_def)
  moreover have "col_ok M mat' j = col_ok M mat j" for j using s by (cases "mat_A mat ! j") (simp_all add: same_cols_def col_ok_def)
  ultimately show ?thesis using s by (simp add: same_cols_def mat_ok_def dims_ok_def)
qed

lemma gone_cong: "same_cols mat mat' \<Longrightarrow> gone mat' j = gone mat j"
  by (simp add: same_cols_def gone_def)

lemma same_cols_simps [simp]:
  "same_cols mat (add_weight d mat)" "same_cols mat (mat \<lparr> mat_rem_nrows := x \<rparr>)" "same_cols mat (mat \<lparr> mat_rem_ncols := x \<rparr>)"
  "same_cols mat (destroyRow mat i)" "length rs = length (mat_rows mat) \<Longrightarrow> same_cols mat (mat \<lparr> mat_rows := rs \<rparr>)"
  by (simp_all add: same_cols_def add_weight_def destroyRow_def)

lemma not_gone: "mat_ok M mat \<Longrightarrow> int j \<in> M i \<Longrightarrow> \<not> gone mat j"
proof
  assume ok: "mat_ok M mat" and ij: "int j \<in> M i" and g: "gone mat j"
  have "j < mat_ncols mat" using mat_ok_dims(7) [OF ok, of i] ij by auto
  from mat_ok_col [OF ok this] g ij show False by (auto simp: col_ok_def gone_def rows_with_def)
qed

lemma removeCells_ok:
  assumes "mat_ok M mat" "distinct js" "set js \<subseteq> M i"
  shows "\<exists>mat'. removeCells mat (int i) js = Some mat' \<and> mat_ok (M(i := M i - set js)) mat' \<and> col_frame mat mat'"
  using assms
proof (induction js arbitrary: M mat)
  case Nil
  then show ?case by simp
next
  case (Cons j js)
  have "0 \<le> j" using mat_ok_dims(7) [OF Cons.prems(1), of i] Cons.prems(3) by auto
  then obtain k where k: "j = int k" by (metis nonneg_int_cases)
  obtain m1 where m1: "removeCellAndUpdate mat (int i) j = Some m1" "mat_ok (M(i := M i - {j})) m1" "col_frame mat m1"
    using removeCell_ok [OF Cons.prems(1), of k i] Cons.prems(3) k by auto
  have "set js \<subseteq> (M(i := M i - {j})) i" using Cons.prems(2,3) by auto
  then obtain m2 where m2: "removeCells m1 (int i) js = Some m2"
      "mat_ok ((M(i := M i - {j}))(i := (M(i := M i - {j})) i - set js)) m2" "col_frame m1 m2"
    using Cons.IH [OF m1(2)] Cons.prems(2) by (meson distinct.simps(2))
  have "M i - {j} - set js = M i - set (j # js)" by auto
  then have "mat_ok (M(i := M i - set (j # js))) m2" using m2(2) by (simp only: fun_upd_upd fun_upd_same)
  then show ?case using m1(1) m2(1) col_frame_trans [OF m1(3) m2(3)]
    by (intro exI [of _ m2] conjI) (simp_all only: removeCells.simps addCells.simps bind.bind_lunit)
qed

lemma addCells_ok:
  assumes "mat_ok M mat" "distinct js" "set js \<inter> M i = {}" "set js \<subseteq> {0..<int (mat_ncols mat)}" "i < mat_nrows mat"
    and "\<forall>j \<in> set js. \<not> gone mat (nat j)"
  shows "\<exists>mat'. addCells mat (int i) js = Some mat' \<and> mat_ok (M(i := M i \<union> set js)) mat' \<and> col_frame mat mat'"
  using assms
proof (induction js arbitrary: M mat)
  case Nil
  then show ?case by simp
next
  case (Cons j js)
  then have "0 \<le> j" by auto
  then obtain k where k: "j = int k" by (metis nonneg_int_cases)
  have kk: "int k \<notin> M i" "k < mat_ncols mat" "\<not> gone mat k" using Cons.prems(3,4,6) k by auto
  obtain m1 where m1: "addCellAndUpdate mat (int i) j = Some m1" "mat_ok (M(i := insert j (M i))) m1" "col_frame mat m1"
    using addCell_ok [OF Cons.prems(1) kk(1,2) Cons.prems(5) kk(3)] k by auto
  note f = col_frame_simps [OF m1(3)]
  have "set js \<inter> (M(i := insert j (M i))) i = {}" using Cons.prems(2,3) by auto
  moreover have "distinct js" "set js \<subseteq> {0..<int (mat_ncols m1)}" "i < mat_nrows m1" "\<forall>j \<in> set js. \<not> gone m1 (nat j)"
    using Cons.prems(2,4-6) by (auto simp: f)
  ultimately obtain m2 where m2: "addCells m1 (int i) js = Some m2"
      "mat_ok ((M(i := insert j (M i)))(i := (M(i := insert j (M i))) i \<union> set js)) m2" "col_frame m1 m2"
    using Cons.IH [OF m1(2)] by meson
  have "insert j (M i) \<union> set js = M i \<union> set (j # js)" by auto
  then have "mat_ok (M(i := M i \<union> set (j # js))) m2" using m2(2) by (simp only: fun_upd_upd fun_upd_same)
  then show ?case using m1(1) m2(1) col_frame_trans [OF m1(3) m2(3)]
    by (intro exI [of _ m2] conjI) (simp_all only: removeCells.simps addCells.simps bind.bind_lunit)
qed

lemma row_sets_Some: "row_at rows i = Some r \<Longrightarrow> row_sets rows i = set r"
  by (simp add: row_sets_def)

lemma row_sets_update: "i < length rows \<Longrightarrow> row_sets (rows[i := x]) = (row_sets rows)(i := (case x of None \<Rightarrow> {} | Some r \<Rightarrow> set r))"
  by (auto simp: row_sets_def row_at_def fun_eq_iff nth_list_update)

lemma row_at_less: "row_at rows i = Some r \<Longrightarrow> i < length rows"
  by (simp add: row_at_def split: if_splits)

lemma removeRow_sub:
  assumes ok: "mat_ok M mat" and r: "row_at (mat_rows mat) i = Some r" "distinct r" "set r \<subseteq> M i"
  shows "\<exists>mat'. removeRowAndUpdate mat (int i) = Some mat' \<and> mat_ok (M(i := M i - set r)) mat'
       \<and> col_frame (add_weight (- (int (length r) + mat_wburied mat ! i)) mat) mat'"
proof -
  let ?m = "add_weight (- (int (length r) + mat_wburied mat ! i)) mat"
  have i: "i < mat_nrows mat" using row_at_less [OF r(1)] mat_ok_dims(5) [OF ok] by simp
  have "mat_ok M ?m" using ok mat_ok_cong [OF same_cols_simps(1)] by blast
  then obtain m' where "removeCells ?m (int i) r = Some m'" "mat_ok (M(i := M i - set r)) m'" "col_frame ?m m'"
    using removeCells_ok r(2,3) by blast
  then show ?thesis using r i mat_ok_dims(6) [OF ok] by (simp add: removeRowAndUpdate_def row_of_def)
qed

lemma removeRow_ok:
  assumes ok: "mat_ok M mat" and r: "row_at (mat_rows mat) i = Some r" "distinct r" "set r = M i"
  shows "\<exists>mat'. removeRowAndUpdate mat (int i) = Some mat' \<and> mat_ok (M(i := {})) mat'
       \<and> col_frame (add_weight (- (int (length r) + mat_wburied mat ! i)) mat) mat'"
  using removeRow_sub [OF ok r(1,2)] r(3) by simp

text \<open>\<open>rest_frame\<close>: an update of rows leaves the parameters, the buried weights and the counters alone.\<close>

definition rest_frame :: "filter_matrix \<Rightarrow> filter_matrix \<Rightarrow> bool" where
  "rest_frame mat mat' \<longleftrightarrow> mat_nrows mat' = mat_nrows mat \<and> mat_ncols mat' = mat_ncols mat
     \<and> mat_rem_nrows mat' = mat_rem_nrows mat \<and> mat_rem_ncols mat' = mat_rem_ncols mat
     \<and> mat_wburied mat' = mat_wburied mat \<and> mat_nburied mat' = mat_nburied mat \<and> mat_cwmax mat' = mat_cwmax mat
     \<and> mat_rwmax mat' = mat_rwmax mat \<and> mat_keep mat' = mat_keep mat
     \<and> (\<forall>j. gone mat' j = gone mat j) \<and> (\<forall>j. (mat_A mat' ! j = None) = (mat_A mat ! j = None))"

lemma rest_frame_trans: "rest_frame mat1 mat2 \<Longrightarrow> rest_frame mat2 mat3 \<Longrightarrow> rest_frame mat1 mat3"
  by (simp add: rest_frame_def)

lemma rest_frame_refl [simp]: "rest_frame mat mat"
  by (simp add: rest_frame_def)

lemma rest_frame_col: "col_frame mat mat' \<Longrightarrow> rest_frame mat mat'"
  using col_frame_simps by (simp add: rest_frame_def)

lemma rest_frame_upd [simp]:
  "rest_frame mat (add_weight d mat)" "rest_frame mat (mat \<lparr> mat_rows := rs \<rparr>)" "rest_frame mat (destroyRow mat i)"
  by (simp_all add: rest_frame_def add_weight_def destroyRow_def gone_def)

lemma addRows_row_at:
  assumes "row_at rows i1 = Some r1" "row_at rows i2 = Some r2" "len = - 1 \<or> len = int (length (merge_rows r1 r2))"
  shows "addRows rows i1 i2 len = Some (rows[i1 := Some (merge_rows r1 r2)])"
  using assms merge_rows_length [of r1 r2] by (auto simp: addRows_def Let_def)

lemma set_merge_ok: "row_ok r1 \<Longrightarrow> row_ok r2 \<Longrightarrow> row_ok (merge_rows r1 r2)
    \<and> set (merge_rows r1 r2) = (set r1 - set r2) \<union> (set r2 - set r1)"
  using merge_rows_correct by blast

lemma addRowsAndUpdate_ok:
  assumes ok: "matrix_ok mat" and i: "i1 \<noteq> i2"
    and r: "row_at (mat_rows mat) i1 = Some r1" "row_at (mat_rows mat) i2 = Some r2"
    and len: "len = - 1 \<or> len = int (length (merge_rows r1 r2))"
  shows "\<exists>mat'. addRowsAndUpdate mat (int i1) (int i2) len = Some mat' \<and> matrix_ok mat' \<and> rest_frame mat mat'
       \<and> mat_rows mat' = (mat_rows mat)[i1 := Some (merge_rows r1 r2)]
       \<and> mat_weight mat' mod 2 ^ 64 = (mat_weight mat - int (length r1) + int (length (merge_rows r1 r2))) mod 2 ^ 64"
proof -
  let ?M = "row_sets (mat_rows mat)" and ?b = "mat_wburied mat ! i1" and ?r = "merge_rows r1 r2"
  have mok: "mat_ok ?M mat" and rok: "row_ok r1" "row_ok r2" using ok r by (auto simp: matrix_ok_def)
  note m = set_merge_ok [OF rok]
  have l: "i1 < length (mat_rows mat)" using row_at_less [OF r(1)] .
  note d = mat_ok_dims [OF mok]
  obtain m1 where m1: "removeRowAndUpdate mat (int i1) = Some m1" "mat_ok (?M(i1 := {})) m1"
      "col_frame (add_weight (- (int (length r1) + ?b)) mat) m1"
    using removeRow_ok [OF mok r(1) row_ok_distinct [OF rok(1)]] row_sets_Some [OF r(1)] by auto
  note f1 = col_frame_simps [OF m1(3)]
  have rows1: "mat_rows m1 = mat_rows mat" using f1(5) by (simp add: add_weight_def)
  let ?rows = "(mat_rows mat)[i1 := Some ?r]"
  let ?m2 = "m1 \<lparr> mat_rows := ?rows \<rparr>"
  have s2: "same_cols m1 ?m2" using rows1 by (intro same_cols_simps) simp
  let ?m3 = "add_weight (int (length ?r) + ?b) ?m2"
  have m3: "mat_ok (?M(i1 := {})) ?m3" using m1(2) mat_ok_cong [OF s2] mat_ok_cong [OF same_cols_simps(1)] by blast
  have dims3: "mat_ncols ?m3 = mat_ncols mat" "mat_nrows ?m3 = mat_nrows mat" using f1 by (simp_all add: add_weight_def)
  have sub: "set ?r \<subseteq> {0..<int (mat_ncols ?m3)}"
    using m d(7) [of i1] d(7) [of i2] row_sets_Some [OF r(1)] row_sets_Some [OF r(2)] unfolding dims3 by auto
  have ng: "\<forall>j \<in> set ?r. \<not> gone ?m3 (nat j)"
  proof
    fix j assume j: "j \<in> set ?r"
    then have "j \<in> ?M i1 \<or> j \<in> ?M i2" using m row_sets_Some [OF r(1)] row_sets_Some [OF r(2)] by auto
    moreover have "0 \<le> j" using sub j by auto
    ultimately have "\<not> gone mat (nat j)" using not_gone [OF mok] by (metis int_nat_eq)
    then show "\<not> gone ?m3 (nat j)" using f1(13) [of "nat j"] by (simp add: gone_def add_weight_def)
  qed
  obtain m4 where m4: "addCells ?m3 (int i1) ?r = Some m4" "mat_ok (?M(i1 := set ?r)) m4" "col_frame ?m3 m4"
    using addCells_ok [OF m3 row_ok_distinct [OF conjunct1 [OF m]] _ sub _ ng, of i1] l d(5) dims3(2) by auto
  note f4 = col_frame_simps [OF m4(3)]
  have rows4: "mat_rows m4 = ?rows" using f4(5) by (simp add: add_weight_def)
  have "addRowsAndUpdate mat (int i1) (int i2) len = Some m4"
    using m1(1) addRows_row_at [OF r len] m4(1) l d(5,6) f1(6) rows1
    by (simp add: addRowsAndUpdate_def addOneRowAndUpdate_def row_of_def row_at_def add_weight_def)
  moreover have "matrix_ok m4"
    unfolding matrix_ok_def rows4 using m4(2) m ok l
    by (auto simp: row_sets_update matrix_ok_def row_at_def nth_list_update split: if_splits)
  moreover have "rest_frame mat m4"
    using rest_frame_col [OF m1(3)] rest_frame_col [OF m4(3)] rest_frame_upd rest_frame_trans by meson
  moreover have "mat_weight m4 mod 2 ^ 64 = (mat_weight mat - int (length r1) + int (length ?r)) mod 2 ^ 64"
  proof -
    have "mat_weight ?m2 = mat_weight m1" by simp
    then have w: "mat_weight m1 = (mat_weight mat + - (int (length r1) + ?b)) mod 2 ^ 64"
        "mat_weight m4 = (mat_weight m1 + (int (length ?r) + ?b)) mod 2 ^ 64"
      by (simp_all only: f1(8) f4(8) weight_add)
    show ?thesis unfolding w mod_add_left_eq mod_mod_trivial by (intro arg_cong [where f = "\<lambda>x. x mod 2 ^ 64"]) linarith
  qed
  ultimately show ?thesis using rows4 by blast
qed

end
