(* ===== verification/Array_heap.thy ===== *)
theory Array_heap
  imports Prelude "HOL-Library.Multiset"
begin

text \<open>
  Binary heaps in an array, as the two priority queues of the filtering step keep them: the slots
  \<open>1..n\<close> hold the items, slot 0 the number of items, the father of slot \<open>i\<close> is \<open>i / 2\<close>, and an item
  is moved up or down as a hole, written only at its final place.  The loops here are those of
  \<open>upQueue\<close>, \<open>downQueue\<close> (\<open>src/filter/mst.c\<close>) and \<open>MkzUpQueue\<close>, \<open>MkzDownQueue\<close>
  (\<open>src/filter/markowitz.c\<close>) with the key as a parameter; the component theories show that their
  loops are instances.  The lemmas are proved once in the locale \<open>heap_key\<close>.
\<close>

section \<open>The loops\<close>

function heap_up :: "('e \<Rightarrow> int) \<Rightarrow> 'e \<Rightarrow> 'e list \<Rightarrow> nat \<Rightarrow> 'e list \<times> nat" where
  "heap_up key e es k =
     (if k > 1 \<and> key (es ! (k div 2)) \<ge> key e
      then heap_up key e (es[k := es ! (k div 2)]) (k div 2)
      else (es[k := e], k))"
  by auto
termination
  by (relation "measure (\<lambda>(key, e, es, k). k)") auto

declare heap_up.simps [simp del]

definition smaller_son :: "('e \<Rightarrow> int) \<Rightarrow> 'e list \<Rightarrow> nat \<Rightarrow> nat \<Rightarrow> nat" where
  "smaller_son key es n k =
     (let j = 2 * k in if j < n \<and> key (es ! j) > key (es ! (j + 1)) then j + 1 else j)"

lemma smaller_son_bounds: "2 * k \<le> smaller_son key es n k" "smaller_son key es n k \<le> 2 * k + 1"
  by (simp_all add: smaller_son_def Let_def)

function heap_down :: "('e \<Rightarrow> int) \<Rightarrow> 'e \<Rightarrow> nat \<Rightarrow> 'e list \<Rightarrow> nat \<Rightarrow> 'e list \<times> nat" where
  "heap_down key e n es k =
     (if 0 < k \<and> k \<le> n div 2 then
        let j = smaller_son key es n k in
        if key e \<le> key (es ! j) then (es[k := e], k)
        else heap_down key e n (es[k := es ! j]) j
      else (es[k := e], k))"
  by auto
termination
proof (relation "measure (\<lambda>(key, e, n, es, k). n - k)", goal_cases)
  case (2 key e n es k j)
  then have "k < j" using smaller_son_bounds(1) [of k key es n] by linarith
  moreover have "k < n" using 2(1) div_le_dividend [of n 2] by linarith
  ultimately show ?case by simp
qed simp

declare heap_down.simps [simp del]

section \<open>Slots\<close>

definition slots :: "nat \<Rightarrow> 'e list \<Rightarrow> 'e multiset" where
  "slots n es = mset (tl (take (Suc n) es))"

lemma tl_update: "tl (xs[Suc i := x]) = (tl xs)[i := x]"
  by (cases xs) auto

lemma slots_swap:
  assumes "1 \<le> i" "i \<le> n" "1 \<le> j" "j \<le> n" "n < length es"
  shows "slots n (es[i := es ! j, j := es ! i]) = slots n es"
proof -
  obtain i' j' where ij: "i = Suc i'" "j = Suc j'" using assms(1,3) by (metis Suc_le_D One_nat_def)
  let ?l = "tl (take (Suc n) es)"
  have l: "length ?l = n" using assms(5) by simp
  have nth: "?l ! i' = es ! i" "?l ! j' = es ! j" using assms ij by (simp_all add: nth_tl)
  have "tl (take (Suc n) (es[i := es ! j, j := es ! i])) = ?l[i' := ?l ! j', j' := ?l ! i']"
    unfolding nth using assms ij by (simp add: take_update_swap tl_update)
  then show ?thesis using l assms ij by (simp add: slots_def mset_swap)
qed

lemma slots_Suc: "Suc n < length es \<Longrightarrow> slots (Suc n) es = add_mset (es ! Suc n) (slots n es)"
  by (cases es) (simp_all add: slots_def take_Suc_conv_app_nth)

lemma slots_update_out: "n < i \<Longrightarrow> slots n (es[i := x]) = slots n es"
  by (simp add: slots_def)

lemma slots_update_0: "slots n (es[0 := x]) = slots n es"
  by (cases es) (simp_all add: slots_def)

lemma in_slots: "1 \<le> i \<Longrightarrow> i \<le> n \<Longrightarrow> n < length es \<Longrightarrow> es ! i \<in># slots n es"
proof -
  assume i: "1 \<le> i" "i \<le> n" "n < length es"
  then obtain i' where i': "i = Suc i'" by (metis Suc_le_D One_nat_def)
  have "tl (take (Suc n) es) ! i' = es ! i" using i i' by (simp add: nth_tl)
  moreover have "i' < length (tl (take (Suc n) es))" using i i' by simp
  ultimately show ?thesis unfolding slots_def by (metis nth_mem_mset)
qed

lemma slots_nth: "x \<in># slots n es \<Longrightarrow> n < length es \<Longrightarrow> \<exists>i. 1 \<le> i \<and> i \<le> n \<and> x = es ! i"
proof -
  assume x: "x \<in># slots n es" "n < length es"
  then obtain i where "i < length (tl (take (Suc n) es))" "x = tl (take (Suc n) es) ! i"
    by (auto simp: slots_def in_set_conv_nth)
  then show ?thesis using x(2) by (intro exI [of _ "Suc i"]) (simp add: nth_tl)
qed

section \<open>The heap order\<close>

definition is_heap :: "('e \<Rightarrow> int) \<Rightarrow> nat \<Rightarrow> 'e list \<Rightarrow> bool" where
  "is_heap key n es \<longleftrightarrow> (\<forall>i. 2 \<le> i \<and> i \<le> n \<longrightarrow> key (es ! (i div 2)) \<le> key (es ! i))"

text \<open>The order may fail only between slot \<open>k\<close> and its father, or only between \<open>k\<close> and its sons.\<close>

definition heap_but_up :: "('e \<Rightarrow> int) \<Rightarrow> nat \<Rightarrow> 'e list \<Rightarrow> nat \<Rightarrow> bool" where
  "heap_but_up key n es k \<longleftrightarrow>
     (\<forall>i. 2 \<le> i \<and> i \<le> n \<and> i \<noteq> k \<longrightarrow> key (es ! (i div 2)) \<le> key (es ! i))
     \<and> (\<forall>i. 2 \<le> i \<and> i \<le> n \<and> i div 2 = k \<and> k > 1 \<longrightarrow> key (es ! (k div 2)) \<le> key (es ! i))"

definition heap_but_down :: "('e \<Rightarrow> int) \<Rightarrow> nat \<Rightarrow> 'e list \<Rightarrow> nat \<Rightarrow> bool" where
  "heap_but_down key n es k \<longleftrightarrow>
     (\<forall>i. 2 \<le> i \<and> i \<le> n \<and> i div 2 \<noteq> k \<longrightarrow> key (es ! (i div 2)) \<le> key (es ! i))
     \<and> (\<forall>i. 2 \<le> i \<and> i \<le> n \<and> i div 2 = k \<and> k > 1 \<longrightarrow> key (es ! (k div 2)) \<le> key (es ! i))"

locale heap_key =
  fixes key :: "'e \<Rightarrow> int"
begin

lemma root_minimal:
  assumes "is_heap key n es" "1 \<le> i" "i \<le> n"
  shows "key (es ! 1) \<le> key (es ! i)"
  using assms(2,3)
proof (induction i rule: less_induct)
  case (less i)
  show ?case
  proof (cases "i = 1")
    case False
    then have "2 \<le> i" using less.prems by simp
    then have "key (es ! 1) \<le> key (es ! (i div 2))" using less by simp
    also have "\<dots> \<le> key (es ! i)" using assms(1) \<open>2 \<le> i\<close> less.prems by (simp add: is_heap_def)
    finally show ?thesis .
  qed simp
qed

lemma heap_up_val:
  assumes "heap_but_up key n (es[k := e]) k" "1 \<le> k" "k \<le> n" "n < length es" "heap_up key e es k = (es', k')"
  shows "is_heap key n es'" "slots n es' = slots n (es[k := e])" "length es' = length es"
    "\<forall>i. i = 0 \<or> n < i \<longrightarrow> es' ! i = es ! i" "1 \<le> k'" "k' \<le> k" "es' ! k' = e"
proof -
  have "is_heap key n es' \<and> slots n es' = slots n (es[k := e]) \<and> length es' = length es
      \<and> (\<forall>i. i = 0 \<or> n < i \<longrightarrow> es' ! i = es ! i) \<and> 1 \<le> k' \<and> k' \<le> k \<and> es' ! k' = e"
    using assms
  proof (induction key e es k arbitrary: es' k' rule: heap_up.induct)
    case (1 key e es k)
    show ?case
    proof (cases "k > 1 \<and> key (es ! (k div 2)) \<ge> key e")
      case False
      then have "heap_up key e es k = (es[k := e], k)" by (subst heap_up.simps) (simp only: if_False)
      then have [simp]: "es' = es[k := e]" "k' = k" using "1.prems"(5) by simp_all
      have "is_heap key n es'"
        unfolding is_heap_def
      proof (intro allI impI)
        fix i assume i: "2 \<le> i \<and> i \<le> n"
        show "key (es' ! (i div 2)) \<le> key (es' ! i)"
        proof (cases "i = k")
          case True
          then show ?thesis using False i "1.prems" by simp
        next
          case ne: False
          then show ?thesis using "1.prems"(1) i by (simp add: heap_but_up_def)
        qed
      qed
      then show ?thesis using "1.prems" by simp
    next
      case True
      let ?p = "k div 2"
      let ?es = "es[k := es ! ?p]"
      let ?v = "es[k := e]" and ?v1 = "?es[?p := e]"
      have p: "1 \<le> ?p" "?p < k" "?p \<noteq> k" using True by auto
      have step: "heap_up key e es k = heap_up key e ?es ?p" using True by (subst heap_up.simps) simp
      have v1: "?v1 ! i = (if i = ?p then e else if i = k then es ! ?p else es ! i)" for i
        using "1.prems"(3,4) p by (simp add: nth_list_update)
      have v: "?v ! i = (if i = k then e else es ! i)" for i
        using "1.prems"(3,4) by (simp add: nth_list_update)
      have H: "key (?v ! (i div 2)) \<le> key (?v ! i)" if "2 \<le> i" "i \<le> n" "i \<noteq> k" for i
        using "1.prems"(1) that unfolding heap_but_up_def by blast
      have G: "key (?v ! ?p) \<le> key (?v ! i)" if "2 \<le> i" "i \<le> n" "i div 2 = k" for i
        using "1.prems"(1) that True unfolding heap_but_up_def by blast
      have "heap_but_up key n ?v1 ?p"
        unfolding heap_but_up_def
      proof (intro conjI allI impI)
        fix i assume i: "2 \<le> i \<and> i \<le> n \<and> i \<noteq> ?p"
        consider "i = k" | "i \<noteq> k" "i div 2 = k" | "i \<noteq> k" "i div 2 = ?p" | "i \<noteq> k" "i div 2 \<noteq> k" "i div 2 \<noteq> ?p" by blast
        then show "key (?v1 ! (i div 2)) \<le> key (?v1 ! i)"
        proof cases
          case 1
          then show ?thesis using True p by (simp add: v1)
        next
          case 2
          then show ?thesis using G [of i] i p by (simp add: v1 v)
        next
          case 3
          then have "key (es ! ?p) \<le> key (es ! i)" using H [of i] i p by (simp add: v)
          then show ?thesis using 3 True i p by (simp add: v1)
        next
          case 4
          then show ?thesis using H [of i] i by (simp add: v1 v)
        qed
      next
        fix i assume i: "2 \<le> i \<and> i \<le> n \<and> i div 2 = ?p \<and> ?p > 1"
        have "?p div 2 \<noteq> k" using i p by auto
        then have "key (es ! (?p div 2)) \<le> key (es ! ?p)"
          using H [of ?p] i p "1.prems"(3) by (simp add: v)
        moreover have "i \<noteq> k \<Longrightarrow> key (es ! ?p) \<le> key (es ! i)" using H [of i] i p by (simp add: v)
        moreover have "i \<noteq> ?p" "?p div 2 \<noteq> ?p" "?p div 2 \<noteq> k" using i p by auto
        ultimately show "key (?v1 ! (?p div 2)) \<le> key (?v1 ! i)" by (cases "i = k") (auto simp: v1)
      qed
      moreover have "slots n ?v1 = slots n ?v"
      proof -
        have "?v[k := ?v ! ?p, ?p := ?v ! k] = ?v1" using p "1.prems"(3,4) by (simp add: v list_update_swap)
        then show ?thesis using slots_swap [of k n ?p ?v] "1.prems" p by simp
      qed
      ultimately show ?thesis
        using "1.IH" [OF True _ _ _ _ "1.prems"(5) [unfolded step]] "1.prems" p by auto
    qed
  qed
  then show "is_heap key n es'" "slots n es' = slots n (es[k := e])" "length es' = length es"
    "\<forall>i. i = 0 \<or> n < i \<longrightarrow> es' ! i = es ! i" "1 \<le> k'" "k' \<le> k" "es' ! k' = e" by auto
qed

lemma heap_down_val:
  assumes "heap_but_down key n (es[k := e]) k" "1 \<le> k" "k \<le> n" "n < length es" "heap_down key e n es k = (es', k')"
  shows "is_heap key n es'" "slots n es' = slots n (es[k := e])" "length es' = length es"
    "\<forall>i. i = 0 \<or> n < i \<longrightarrow> es' ! i = es ! i" "k \<le> k'" "k' \<le> n" "es' ! k' = e"
proof -
  have "is_heap key n es' \<and> slots n es' = slots n (es[k := e]) \<and> length es' = length es
      \<and> (\<forall>i. i = 0 \<or> n < i \<longrightarrow> es' ! i = es ! i) \<and> k \<le> k' \<and> k' \<le> n \<and> es' ! k' = e"
    using assms
  proof (induction key e n es k arbitrary: es' k' rule: heap_down.induct)
    case (1 key e n es k)
    let ?j = "smaller_son key es n k"
    have stop: "is_heap key n es'" if "es' = es[k := e]" "\<And>i. 2 \<le> i \<Longrightarrow> i \<le> n \<Longrightarrow> i div 2 = k \<Longrightarrow> key e \<le> key (es ! i)"
      unfolding is_heap_def
    proof (intro allI impI)
      fix i assume i: "2 \<le> i \<and> i \<le> n"
      show "key (es' ! (i div 2)) \<le> key (es' ! i)"
      proof (cases "i div 2 = k")
        case True
        then have "i \<noteq> k" using i by auto
        then show ?thesis using that(2) [of i] i True "1.prems"(3,4) by (simp add: that(1))
      next
        case False
        then show ?thesis using "1.prems"(1) i by (simp add: heap_but_down_def that(1))
      qed
    qed
    show ?case
    proof (cases "k \<le> n div 2")
      case False
      then have "heap_down key e n es k = (es[k := e], k)" by (subst heap_down.simps) simp
      then have [simp]: "es' = es[k := e]" "k' = k" using "1.prems"(5) by simp_all
      have "is_heap key n es'" using False by (intro stop) auto
      then show ?thesis using "1.prems" by simp
    next
      case k: True
      have j: "?j = 2 * k \<or> ?j = 2 * k + 1 \<and> 2 * k < n" by (simp add: smaller_son_def Let_def)
      have jn: "?j \<le> n" "k < ?j" "?j div 2 = k" "?j \<noteq> k" "2 \<le> ?j" using j k "1.prems"(2) by auto
      have jmin: "key (es ! ?j) \<le> key (es ! i)" if "i \<le> n" "i div 2 = k" for i
      proof -
        have "i = 2 * k \<or> i = 2 * k + 1" using that(2) by auto
        then show ?thesis using that(1) by (auto simp: smaller_son_def Let_def)
      qed
      show ?thesis
      proof (cases "key e \<le> key (es ! ?j)")
        case True
        then have "heap_down key e n es k = (es[k := e], k)" by (subst heap_down.simps) (simp add: Let_def)
        then have [simp]: "es' = es[k := e]" "k' = k" using "1.prems"(5) by simp_all
        have "is_heap key n es'" using True jmin by (intro stop) (auto intro: order_trans)
        then show ?thesis using "1.prems" by simp
      next
        case False
        let ?es = "es[k := es ! ?j]"
        let ?v = "es[k := e]" and ?v1 = "?es[?j := e]"
        have step: "heap_down key e n es k = heap_down key e n ?es ?j"
          using k False "1.prems"(2) by (subst heap_down.simps) (simp add: Let_def)
        have v1: "?v1 ! i = (if i = ?j then e else if i = k then es ! ?j else es ! i)" for i
          using "1.prems"(3,4) jn by (simp add: nth_list_update)
        have v: "?v ! i = (if i = k then e else es ! i)" for i
          using "1.prems"(3,4) by (simp add: nth_list_update)
        have H: "key (?v ! (i div 2)) \<le> key (?v ! i)" if "2 \<le> i" "i \<le> n" "i div 2 \<noteq> k" for i
          using "1.prems"(1) that unfolding heap_but_down_def by blast
        have G: "key (?v ! (k div 2)) \<le> key (?v ! i)" if "2 \<le> i" "i \<le> n" "i div 2 = k" "k > 1" for i
          using "1.prems"(1) that unfolding heap_but_down_def by blast
        have "heap_but_down key n ?v1 ?j"
          unfolding heap_but_down_def
        proof (intro conjI allI impI)
          fix i assume i: "2 \<le> i \<and> i \<le> n \<and> i div 2 \<noteq> ?j"
          consider "i = ?j" | "i \<noteq> ?j" "i div 2 = k" | "i = k" | "i \<noteq> ?j" "i div 2 \<noteq> k" "i \<noteq> k" by blast
          then show "key (?v1 ! (i div 2)) \<le> key (?v1 ! i)"
          proof cases
            case 1
            then show ?thesis using False jn by (simp add: v1)
          next
            case 2
            then have "i \<noteq> k" using i by auto
            then show ?thesis using 2 jmin [of i] i jn by (simp add: v1)
          next
            case 3
            then have "k div 2 \<noteq> k" "k div 2 \<noteq> ?j" using i jn by auto
            then show ?thesis using 3 G [of ?j] i jn by (simp add: v1 v)
          next
            case 4
            then show ?thesis using H [of i] i by (simp add: v1 v)
          qed
        next
          fix i assume i: "2 \<le> i \<and> i \<le> n \<and> i div 2 = ?j \<and> ?j > 1"
          then have "i \<noteq> k" "i \<noteq> ?j" using jn by auto
          then show "key (?v1 ! (?j div 2)) \<le> key (?v1 ! i)" using H [of i] i jn by (simp add: v1 v)
        qed
        moreover have "slots n ?v1 = slots n ?v"
        proof -
          have "?v[k := ?v ! ?j, ?j := ?v ! k] = ?v1" using jn "1.prems"(3,4) by (simp add: v)
          then show ?thesis using slots_swap [of k n ?j ?v] "1.prems" jn by simp
        qed
        ultimately show ?thesis
          using "1.IH" [OF _ refl False _ _ _ _ "1.prems"(5) [unfolded step]] "1.prems" jn k by auto
      qed
    qed
  qed
  then show "is_heap key n es'" "slots n es' = slots n (es[k := e])" "length es' = length es"
    "\<forall>i. i = 0 \<or> n < i \<longrightarrow> es' ! i = es ! i" "k \<le> k'" "k' \<le> n" "es' ! k' = e" by auto
qed

end

end
