(* ===== verification/Mst.thy ===== *)
theory Mst
  imports Sparse Array_heap "HOL-Library.Monad_Syntax"
begin

text \<open>
  Model of \<open>src/filter/mst.c\<close>: the minimal spanning tree, by Prim's algorithm, that tells in which
  order the rows of a merge are added.  An edge \<open>(u, v, Auv)\<close> is a cell \<open>Q[i][0..2]\<close> of the queue.
  Both queues of the source (\<open>QUEUE_TYPE\<close> 1, a heap, which is the one compiled, and \<open>QUEUE_TYPE\<close> 0, a
  sorted array) implement the locale \<open>edge_queue\<close>, in which Prim's algorithm is proved correct.
  An operation returns \<^const>\<open>None\<close> when it writes outside the queue array, when an assertion on the sorted
  array fails or when the sum of the weights leaves the range of the C type \<open>int\<close>.
\<close>

type_synonym edge = "nat \<times> nat \<times> int"

definition ekey :: "edge \<Rightarrow> int" where
  "ekey e = snd (snd e)"

definition MERGE_LEVEL_MAX :: nat where
  "MERGE_LEVEL_MAX = 256"

section \<open>The heap\<close>

definition isQueueEmpty :: "edge list \<Rightarrow> bool" where
  "isQueueEmpty Q \<longleftrightarrow> fst (Q ! 0) = 0"

definition set_count :: "edge list \<Rightarrow> nat \<Rightarrow> edge list" where
  "set_count Q n = Q[0 := (n, snd (Q ! 0))]"

definition upQueue :: "edge list \<Rightarrow> nat \<Rightarrow> edge list" where
  "upQueue Q k = fst (heap_up ekey (Q ! k) Q k)"

definition addEdge :: "edge list \<Rightarrow> nat \<Rightarrow> nat \<Rightarrow> int \<Rightarrow> edge list option" where
  "addEdge Q u v Auv =
     (let n = fst (Q ! 0) + 1; Q = set_count Q n in
      if n < length Q then Some (upQueue (Q[n := (u, v, Auv)]) n) else None)"

definition downQueue :: "edge list \<Rightarrow> nat \<Rightarrow> edge list" where
  "downQueue Q k = fst (heap_down ekey (Q ! k) (fst (Q ! 0)) Q k)"

definition popQueue :: "edge list \<Rightarrow> nat \<times> nat \<times> edge list" where
  "popQueue Q =
     (let s = fst (Q ! 1); t = fst (snd (Q ! 1)); n = fst (Q ! 0);
          Q = Q[1 := Q ! n]; Q = set_count Q (n - 1)
      in (s, t, downQueue Q 1))"

definition initQueue :: "edge list \<Rightarrow> edge list" where
  "initQueue Q = set_count Q 0"

section \<open>The sorted array\<close>

definition set_last :: "edge list \<Rightarrow> nat \<Rightarrow> edge list" where
  "set_last Q l = Q[0 := (fst (Q ! 0), l, snd (snd (Q ! 0)))]"

definition isQueueEmpty0 :: "edge list \<Rightarrow> bool" where
  "isQueueEmpty0 Q \<longleftrightarrow> fst (Q ! 0) = fst (snd (Q ! 0))"

definition popQueue0 :: "edge list \<Rightarrow> nat \<times> nat \<times> edge list" where
  "popQueue0 Q = (let fQ = fst (Q ! 0) in (fst (Q ! fQ), fst (snd (Q ! fQ)), set_count Q (fQ + 1)))"

function find_place :: "edge list \<Rightarrow> int \<Rightarrow> nat \<Rightarrow> nat \<Rightarrow> nat" where
  "find_place Q Auv i lQ = (if i < lQ then if Auv < ekey (Q ! i) then i else find_place Q Auv (i + 1) lQ else i)"
  by auto
termination
  by (relation "measure (\<lambda>(Q, Auv, i, lQ). lQ - i)") auto

fun shift_right :: "edge list \<Rightarrow> nat \<Rightarrow> nat \<Rightarrow> edge list" where
  "shift_right Q i j = (if j > i then shift_right (Q[j := Q ! (j - 1)]) i (j - 1) else Q)"

declare find_place.simps [simp del] shift_right.simps [simp del]

definition addEdge0 :: "edge list \<Rightarrow> nat \<Rightarrow> nat \<Rightarrow> int \<Rightarrow> edge list option" where
  "addEdge0 Q u v Auv =
     (let fQ = fst (Q ! 0); lQ = fst (snd (Q ! 0)); i = find_place Q Auv fQ lQ in
      if lQ < length Q
      then Some (set_last ((shift_right Q i lQ)[i := (u, v, Auv)]) (lQ + 1)) else None)"

definition initQueue0 :: "edge list \<Rightarrow> edge list" where
  "initQueue0 Q = set_last (set_count Q 1) 1"

text \<open>The two assertions that follow the first call of \<open>addAllEdges\<close> when \<open>QUEUE_TYPE\<close> is 0.\<close>

definition check_queue0 :: "edge list \<Rightarrow> nat \<Rightarrow> bool" where
  "check_queue0 Q m \<longleftrightarrow> fst (Q ! 0) = 1 \<and> fst (snd (Q ! 0)) = m"

section \<open>The interface\<close>

record queue_ops =
  q_init :: "edge list \<Rightarrow> edge list"
  q_empty :: "edge list \<Rightarrow> bool"
  q_pop :: "edge list \<Rightarrow> nat \<times> nat \<times> edge list"
  q_add :: "edge list \<Rightarrow> nat \<Rightarrow> nat \<Rightarrow> int \<Rightarrow> edge list option"
  q_check :: "edge list \<Rightarrow> nat \<Rightarrow> bool"

definition heap_queue :: queue_ops where
  "heap_queue = \<lparr> q_init = initQueue, q_empty = isQueueEmpty, q_pop = popQueue, q_add = addEdge, q_check = (\<lambda>Q m. True) \<rparr>"

definition array_queue :: queue_ops where
  "array_queue = \<lparr> q_init = initQueue0, q_empty = isQueueEmpty0, q_pop = popQueue0, q_add = addEdge0, q_check = check_queue0 \<rparr>"

text \<open>
  What Prim's algorithm needs of the queue: its contents as a multiset of edges, an invariant, the
  number of additions there is surely room for, and that the assertions count the additions.
\<close>

locale edge_queue =
  fixes ops :: queue_ops
    and contents :: "edge list \<Rightarrow> edge multiset"
    and q_inv :: "edge list \<Rightarrow> bool"
    and room :: "edge list \<Rightarrow> nat"
  assumes init_law: "length Q0 = MERGE_LEVEL_MAX * MERGE_LEVEL_MAX \<Longrightarrow>
        q_inv (q_init ops Q0) \<and> contents (q_init ops Q0) = {#}
        \<and> room (q_init ops Q0) = MERGE_LEVEL_MAX * MERGE_LEVEL_MAX - 1 \<and> q_check ops (q_init ops Q0) 1"
    and empty_law: "q_inv Q \<Longrightarrow> q_empty ops Q \<longleftrightarrow> contents Q = {#}"
    and add_law: "q_inv Q \<Longrightarrow> 0 < room Q \<Longrightarrow> \<exists>Q'. q_add ops Q u v x = Some Q' \<and> q_inv Q'
        \<and> contents Q' = add_mset (u, v, x) (contents Q) \<and> room Q \<le> room Q' + 1 \<and> (\<forall>k. q_check ops Q k \<longrightarrow> q_check ops Q' (Suc k))"
    and pop_law: "q_inv Q \<Longrightarrow> contents Q \<noteq> {#} \<Longrightarrow> \<exists>s t x Q'. q_pop ops Q = (s, t, Q') \<and> q_inv Q'
        \<and> contents Q = add_mset (s, t, x) (contents Q') \<and> (\<forall>e \<in># contents Q. x \<le> ekey e) \<and> room Q \<le> room Q'"

subsection \<open>The heap implements it\<close>

interpretation eh: heap_key ekey .

definition heap_contents :: "edge list \<Rightarrow> edge multiset" where
  "heap_contents Q = slots (fst (Q ! 0)) Q"

definition heap_inv :: "edge list \<Rightarrow> bool" where
  "heap_inv Q \<longleftrightarrow> fst (Q ! 0) < length Q \<and> is_heap ekey (fst (Q ! 0)) Q"

definition heap_room :: "edge list \<Rightarrow> nat" where
  "heap_room Q = length Q - 1 - fst (Q ! 0)"

lemma count_set_count [simp]: "Q \<noteq> [] \<Longrightarrow> set_count Q n ! 0 = (n, snd (Q ! 0))"
  "length (set_count Q n) = length Q" "0 < i \<Longrightarrow> set_count Q n ! i = Q ! i"
  "slots k (set_count Q n) = slots k Q"
  by (simp_all add: set_count_def slots_update_0)

lemma slots_0 [simp]: "slots 0 es = {#}"
  by (cases es) (simp_all add: slots_def)

lemma addEdge_law:
  assumes inv: "heap_inv Q" and room: "0 < heap_room Q"
  shows "\<exists>Q'. addEdge Q u v x = Some Q' \<and> heap_inv Q'
        \<and> heap_contents Q' = add_mset (u, v, x) (heap_contents Q) \<and> heap_room Q \<le> heap_room Q' + 1"
proof -
  define n where "n = fst (Q ! 0)"
  define Q1 where "Q1 = set_count Q (Suc n)"
  define Q2 where "Q2 = Q1[Suc n := (u, v, x)]"
  have n: "Suc n < length Q" using room by (simp add: heap_room_def n_def)
  then have ne: "Q \<noteq> []" by auto
  have len: "length Q2 = length Q" by (simp add: Q2_def Q1_def)
  have nth: "Q2 ! i = (if i = 0 then (Suc n, snd (Q ! 0)) else if i = Suc n then (u, v, x) else Q ! i)" for i
    using n ne by (simp add: Q2_def Q1_def nth_list_update)
  obtain Q' k' where up: "heap_up ekey (Q2 ! Suc n) Q2 (Suc n) = (Q', k')" by fastforce
  have "heap_but_up ekey (Suc n) (Q2[Suc n := Q2 ! Suc n]) (Suc n)"
  proof -
    have "ekey (Q2 ! (i div 2)) \<le> ekey (Q2 ! i)" if "2 \<le> i" "i \<le> Suc n" "i \<noteq> Suc n" for i
    proof -
      have "i div 2 \<noteq> 0" "i div 2 \<noteq> Suc n" using that by auto
      then have "Q2 ! (i div 2) = Q ! (i div 2)" "Q2 ! i = Q ! i" using that nth by (metis, auto simp: nth)
      then show ?thesis using that inv by (simp add: heap_inv_def is_heap_def n_def)
    qed
    then show ?thesis unfolding heap_but_up_def list_update_id by auto
  qed
  note up_val = eh.heap_up_val [OF this _ _ _ up]
  have "slots (Suc n) Q2 = add_mset (u, v, x) (slots n Q)"
    using n len by (simp add: slots_Suc nth) (simp add: Q2_def Q1_def slots_update_out)
  then have "heap_inv Q' \<and> heap_contents Q' = add_mset (u, v, x) (heap_contents Q) \<and> heap_room Q \<le> heap_room Q' + 1"
    using up_val n len nth [of 0] by (simp add: heap_inv_def heap_contents_def heap_room_def n_def [symmetric])
  moreover have "addEdge Q u v x = Some Q'"
    using n up by (simp add: addEdge_def Let_def upQueue_def n_def [symmetric] Q1_def [symmetric] Q2_def [symmetric])
  ultimately show ?thesis by blast
qed

lemma popQueue_law:
  assumes inv: "heap_inv Q" and ne: "heap_contents Q \<noteq> {#}"
  shows "\<exists>s t x Q'. popQueue Q = (s, t, Q') \<and> heap_inv Q' \<and> heap_contents Q = add_mset (s, t, x) (heap_contents Q')
        \<and> (\<forall>e \<in># heap_contents Q. x \<le> ekey e) \<and> heap_room Q \<le> heap_room Q'"
proof -
  define n where "n = fst (Q ! 0)"
  define Q2 where "Q2 = set_count (Q[1 := Q ! n]) (n - 1)"
  have "0 < n" using ne by (cases n) (simp_all add: heap_contents_def n_def [symmetric])
  moreover have "n < length Q" using inv by (simp add: heap_inv_def n_def)
  ultimately have n: "0 < n" "n < length Q" .
  then obtain n' where n': "n = Suc n'" by (cases n) auto
  have heap: "is_heap ekey n Q" using inv by (simp add: heap_inv_def n_def)
  obtain s t x where q1: "Q ! 1 = (s, t, x)" by (cases "Q ! 1")
  have len: "length Q2 = length Q" "Q \<noteq> []" using n by (auto simp: Q2_def)
  have nth: "Q2 ! i = (if i = 0 then (n - 1, snd (Q ! 0)) else if i = 1 then Q ! n else Q ! i)" for i
    using n len by (auto simp: Q2_def nth_list_update)
  obtain Q' k' where dn: "heap_down ekey (Q2 ! 1) (n - 1) Q2 1 = (Q', k')" by fastforce
  have pop: "popQueue Q = (s, t, Q')"
    using dn by (simp add: popQueue_def downQueue_def Let_def n_def [symmetric] Q2_def [symmetric] q1 nth del: One_nat_def count_set_count)
  have min: "\<forall>e \<in># heap_contents Q. x \<le> ekey e"
  proof
    fix e assume "e \<in># heap_contents Q"
    then obtain i where "1 \<le> i" "i \<le> n" "e = Q ! i" using n slots_nth by (force simp: heap_contents_def n_def)
    then show "x \<le> ekey e" using eh.root_minimal [OF heap, of i] q1 by (simp add: ekey_def)
  qed
  have slots: "slots n Q = add_mset (Q ! 1) (slots n' Q2)"
  proof -
    have "slots n Q = slots n (Q[1 := Q ! n, n := Q ! 1])" using slots_swap [of 1 n n Q] n by simp
    also have "\<dots> = add_mset (Q ! 1) (slots n' (Q[1 := Q ! n]))"
      using n n' by (simp add: slots_Suc slots_update_out nth_list_update)
    also have "slots n' (Q[1 := Q ! n]) = slots n' Q2" by (simp add: Q2_def)
    finally show ?thesis .
  qed
  show ?thesis
  proof (cases "n' = 0")
    case True
    then have "Q' = Q2" using dn n' by (subst (asm) heap_down.simps) simp
    then have "heap_inv Q' \<and> heap_contents Q = add_mset (s, t, x) (heap_contents Q') \<and> heap_room Q \<le> heap_room Q'"
      using True n len n' slots q1 nth [of 0] by (simp add: heap_inv_def heap_contents_def heap_room_def is_heap_def n_def [symmetric])
    then show ?thesis using pop min by blast
  next
    case False
    have "heap_but_down ekey (n - 1) (Q2[1 := Q2 ! 1]) 1"
      using heap n' by (auto simp: heap_but_down_def is_heap_def nth)
    note val = eh.heap_down_val [OF this _ _ _ dn]
    have "heap_inv Q' \<and> heap_contents Q = add_mset (s, t, x) (heap_contents Q') \<and> heap_room Q \<le> heap_room Q'"
      using val n n' len False nth [of 0] slots q1
      by (simp add: heap_inv_def heap_contents_def heap_room_def n_def [symmetric])
    then show ?thesis using pop min by blast
  qed
qed

interpretation hq: edge_queue heap_queue heap_contents heap_inv heap_room
proof unfold_locales
  fix Q0 :: "edge list"
  assume l: "length Q0 = MERGE_LEVEL_MAX * MERGE_LEVEL_MAX"
  then have "Q0 \<noteq> []" by (auto simp: MERGE_LEVEL_MAX_def)
  then show "heap_inv (q_init heap_queue Q0) \<and> heap_contents (q_init heap_queue Q0) = {#}
        \<and> heap_room (q_init heap_queue Q0) = MERGE_LEVEL_MAX * MERGE_LEVEL_MAX - 1 \<and> q_check heap_queue (q_init heap_queue Q0) 1"
    using l by (simp add: heap_queue_def initQueue_def heap_inv_def heap_contents_def heap_room_def is_heap_def MERGE_LEVEL_MAX_def)
next
  fix Q assume "heap_inv Q"
  then show "q_empty heap_queue Q \<longleftrightarrow> heap_contents Q = {#}"
    using in_slots [of 1 "fst (Q ! 0)" Q]
    by (cases "fst (Q ! 0) = 0") (auto simp: heap_queue_def isQueueEmpty_def heap_contents_def heap_inv_def)
next
  fix Q u v x assume "heap_inv Q" "0 < heap_room Q"
  then show "\<exists>Q'. q_add heap_queue Q u v x = Some Q' \<and> heap_inv Q' \<and> heap_contents Q' = add_mset (u, v, x) (heap_contents Q)
        \<and> heap_room Q \<le> heap_room Q' + 1 \<and> (\<forall>k. q_check heap_queue Q k \<longrightarrow> q_check heap_queue Q' (Suc k))"
    using addEdge_law by (simp add: heap_queue_def)
qed (unfold heap_queue_def queue_ops.select_convs, rule popQueue_law)

subsection \<open>The sorted array implements it\<close>

definition array_contents :: "edge list \<Rightarrow> edge multiset" where
  "array_contents Q = mset (map ((!) Q) [fst (Q ! 0)..<fst (snd (Q ! 0))])"

definition array_inv :: "edge list \<Rightarrow> bool" where
  "array_inv Q \<longleftrightarrow> 1 \<le> fst (Q ! 0) \<and> fst (Q ! 0) \<le> fst (snd (Q ! 0)) \<and> fst (snd (Q ! 0)) \<le> length Q
     \<and> (\<forall>i j. fst (Q ! 0) \<le> i \<and> i \<le> j \<and> j < fst (snd (Q ! 0)) \<longrightarrow> ekey (Q ! i) \<le> ekey (Q ! j))"

definition array_room :: "edge list \<Rightarrow> nat" where
  "array_room Q = length Q - fst (snd (Q ! 0))"

lemma upt_split: "a \<le> b \<Longrightarrow> b \<le> c \<Longrightarrow> [a..<c] = [a..<b] @ [b..<c]"
  using upt_add_eq_append [of a b "c - b"] by simp

lemma find_place_val:
  "f \<le> l \<Longrightarrow> f \<le> find_place Q x f l \<and> find_place Q x f l \<le> l
     \<and> (\<forall>p. f \<le> p \<and> p < find_place Q x f l \<longrightarrow> ekey (Q ! p) \<le> x)
     \<and> (find_place Q x f l < l \<longrightarrow> x < ekey (Q ! find_place Q x f l))"
proof (induction Q x f l rule: find_place.induct)
  case (1 Q x f l)
  show ?case
  proof (cases "f < l \<and> \<not> x < ekey (Q ! f)")
    case True
    then have eq: "find_place Q x f l = find_place Q x (f + 1) l" by (subst find_place.simps) simp
    have IH: "f + 1 \<le> find_place Q x (f + 1) l" "find_place Q x (f + 1) l \<le> l"
        "find_place Q x (f + 1) l < l \<longrightarrow> x < ekey (Q ! find_place Q x (f + 1) l)"
        "\<forall>p. f + 1 \<le> p \<and> p < find_place Q x (f + 1) l \<longrightarrow> ekey (Q ! p) \<le> x"
      using "1.IH" True by auto
    have "ekey (Q ! p) \<le> x" if "f \<le> p" "p < find_place Q x (f + 1) l" for p
      using that IH(4) True by (cases "p = f") auto
    then show ?thesis using IH unfolding eq by auto
  next
    case False
    then have "find_place Q x f l = f" by (subst find_place.simps) auto
    then show ?thesis using False 1(2) by auto
  qed
qed

lemma shift_right_val:
  "j < length Q \<Longrightarrow> length (shift_right Q i j) = length Q
     \<and> (\<forall>p. shift_right Q i j ! p = (if i < p \<and> p \<le> j then Q ! (p - 1) else Q ! p))"
proof (induction Q i j rule: shift_right.induct)
  case (1 Q i j)
  show ?case
  proof (cases "i < j")
    case True
    let ?Q = "Q[j := Q ! (j - 1)]"
    have eq: "shift_right Q i j = shift_right ?Q i (j - 1)" using True by (subst shift_right.simps) simp
    have IH: "length (shift_right ?Q i (j - 1)) = length Q"
        "shift_right ?Q i (j - 1) ! p = (if i < p \<and> p \<le> j - 1 then ?Q ! (p - 1) else ?Q ! p)" for p
      using "1.IH" True 1(2) by auto
    have "(if i < p \<and> p \<le> j - 1 then ?Q ! (p - 1) else ?Q ! p) = (if i < p \<and> p \<le> j then Q ! (p - 1) else Q ! p)" for p
      using True 1(2) by (cases "p = j") (auto simp: nth_list_update)
    then show ?thesis unfolding eq using IH by simp
  next
    case False
    then have "shift_right Q i j = Q" by (subst shift_right.simps) simp
    then show ?thesis using False by auto
  qed
qed

lemma addEdge0_law:
  assumes inv: "array_inv Q" and room: "0 < array_room Q"
  shows "\<exists>Q'. addEdge0 Q u v x = Some Q' \<and> array_inv Q'
        \<and> array_contents Q' = add_mset (u, v, x) (array_contents Q) \<and> array_room Q \<le> array_room Q' + 1
        \<and> (\<forall>k. check_queue0 Q k \<longrightarrow> check_queue0 Q' (Suc k))"
proof -
  obtain f l z where q0: "Q ! 0 = (f, l, z)" by (cases "Q ! 0")
  define i where "i = find_place Q x f l"
  define S where "S = shift_right Q i l"
  define Q' where "Q' = set_last (S[i := (u, v, x)]) (l + 1)"
  have l: "l < length Q" "1 \<le> f" "f \<le> l" using room inv by (auto simp: array_room_def array_inv_def q0)
  have i: "f \<le> i" "i \<le> l" "\<And>p. f \<le> p \<Longrightarrow> p < i \<Longrightarrow> ekey (Q ! p) \<le> x" "i < l \<Longrightarrow> x < ekey (Q ! i)"
    using find_place_val [OF l(3), of Q x] by (auto simp: i_def)
  have ord: "ekey (Q ! a) \<le> ekey (Q ! b)" if "f \<le> a" "a \<le> b" "b < l" for a b
    using inv that by (auto simp: array_inv_def q0)
  have len: "length Q' = length Q" using shift_right_val [OF l(1), of i] by (simp add: Q'_def S_def set_last_def)
  have ne: "Q \<noteq> []" using l by auto
  have nth: "Q' ! p = (if p = 0 then (f, l + 1, z) else if p = i then (u, v, x) else if i < p \<and> p \<le> l then Q ! (p - 1) else Q ! p)" for p
    using shift_right_val [OF l(1), of i] l i ne q0
    by (auto simp: Q'_def set_last_def S_def [symmetric] nth_list_update)
  have "ekey (Q' ! a) \<le> ekey (Q' ! b)" if ab: "f \<le> a" "a \<le> b" "b < l + 1" for a b
  proof -
    have big: "x \<le> ekey (Q ! p)" if "i \<le> p" "p < l" for p
      using i that ord [of i p] by simp
    consider "b < i" | "a < i" "b = i" | "a < i" "i < b" | "a = i" "b = i" | "a = i" "i < b" | "i < a" using ab by linarith
    then show ?thesis
    proof cases
      case 1 then show ?thesis using ab l i ord [of a b] by (simp add: nth)
    next
      case 2 then show ?thesis using ab l i by (simp add: nth ekey_def)
    next
      case 3
      then have "ekey (Q ! a) \<le> x" "x \<le> ekey (Q ! (b - 1))" using ab i(3) [of a] big [of "b - 1"] by auto
      then show ?thesis using 3 ab l i(1,2) by (simp add: nth)
    next
      case 4 then show ?thesis by simp
    next
      case 5 then show ?thesis using ab l i big [of "b - 1"] by (simp add: nth) (simp add: ekey_def)
    next
      case 6 then show ?thesis using ab l i ord [of "a - 1" "b - 1"] by (simp add: nth)
    qed
  qed
  then have "array_inv Q'" using l len nth [of 0] by (auto simp: array_inv_def)
  moreover have "array_contents Q' = add_mset (u, v, x) (array_contents Q)"
  proof -
    have "[f..<l + 1] = [f..<i] @ i # [Suc i..<Suc l]" using i upt_split [of f i "l + 1"] by (simp add: upt_conv_Cons)
    moreover have "map ((!) Q') [Suc i..<Suc l] = map ((!) Q) [i..<l]"
      by (simp add: map_Suc_upt [symmetric] nth del: upt_Suc)
    moreover have "map ((!) Q') [f..<i] = map ((!) Q) [f..<i]" using l i by (simp add: nth)
    moreover have "Q' ! i = (u, v, x)" using l i by (simp add: nth)
    moreover have "[f..<l] = [f..<i] @ [i..<l]" using i by (intro upt_split)
    ultimately have "map ((!) Q') [f..<l + 1] = map ((!) Q) [f..<i] @ (u, v, x) # map ((!) Q) [i..<l]"
        "map ((!) Q) [f..<l] = map ((!) Q) [f..<i] @ map ((!) Q) [i..<l]"
      by (simp_all only: map_append list.map)
    then show ?thesis using nth [of 0] by (simp add: array_contents_def q0 del: upt_Suc mset_map map_eq_conv)
  qed
  moreover have "array_room Q \<le> array_room Q' + 1" using nth [of 0] len by (simp add: array_room_def q0)
  moreover have "\<forall>k. check_queue0 Q k \<longrightarrow> check_queue0 Q' (Suc k)" using nth [of 0] by (simp add: check_queue0_def q0)
  moreover have "addEdge0 Q u v x = Some Q'"
    using l by (simp add: addEdge0_def q0 Let_def i_def [symmetric] S_def [symmetric] Q'_def)
  ultimately show ?thesis by blast
qed

lemma popQueue0_law:
  assumes inv: "array_inv Q" and ne: "array_contents Q \<noteq> {#}"
  shows "\<exists>s t x Q'. popQueue0 Q = (s, t, Q') \<and> array_inv Q' \<and> array_contents Q = add_mset (s, t, x) (array_contents Q')
        \<and> (\<forall>e \<in># array_contents Q. x \<le> ekey e) \<and> array_room Q \<le> array_room Q'"
proof -
  obtain f l z where q0: "Q ! 0 = (f, l, z)" by (cases "Q ! 0")
  obtain s t x where qf: "Q ! f = (s, t, x)" by (cases "Q ! f")
  define Q' where "Q' = set_count Q (f + 1)"
  have l: "f < l" "l \<le> length Q" "1 \<le> f" using inv ne by (auto simp: array_inv_def array_contents_def q0)
  then have "Q \<noteq> []" by auto
  then have nth: "Q' ! 0 = (f + 1, l, z)" "\<And>p. 0 < p \<Longrightarrow> Q' ! p = Q ! p" "length Q' = length Q"
    by (simp_all add: Q'_def q0)
  have ord: "ekey (Q ! a) \<le> ekey (Q ! b)" if "f \<le> a" "a \<le> b" "b < l" for a b
    using inv that by (auto simp: array_inv_def q0)
  have "array_inv Q'" using l ord by (auto simp: array_inv_def nth)
  moreover have "array_contents Q = add_mset (s, t, x) (array_contents Q')"
  proof -
    have "map ((!) Q') [f + 1..<l] = map ((!) Q) [f + 1..<l]" using nth(2) by simp
    then show ?thesis using l by (simp only: array_contents_def q0 nth fst_conv snd_conv)
        (simp add: upt_conv_Cons qf del: mset_map)
  qed
  moreover have "\<forall>e \<in># array_contents Q. x \<le> ekey e"
    using ord [of f] qf by (auto simp: array_contents_def q0 ekey_def)
  moreover have "array_room Q \<le> array_room Q'" by (simp add: array_room_def q0 nth)
  moreover have "popQueue0 Q = (s, t, Q')" by (simp add: popQueue0_def q0 qf Q'_def)
  ultimately show ?thesis by blast
qed

interpretation aq: edge_queue array_queue array_contents array_inv array_room
proof unfold_locales
  fix Q0 :: "edge list"
  assume l: "length Q0 = MERGE_LEVEL_MAX * MERGE_LEVEL_MAX"
  then have "Q0 \<noteq> []" by (auto simp: MERGE_LEVEL_MAX_def)
  then show "array_inv (q_init array_queue Q0) \<and> array_contents (q_init array_queue Q0) = {#}
        \<and> array_room (q_init array_queue Q0) = MERGE_LEVEL_MAX * MERGE_LEVEL_MAX - 1 \<and> q_check array_queue (q_init array_queue Q0) 1"
    using l by (auto simp: check_queue0_def array_queue_def initQueue0_def set_last_def set_count_def array_inv_def array_contents_def array_room_def MERGE_LEVEL_MAX_def)
next
  fix Q assume "array_inv Q"
  then show "q_empty array_queue Q \<longleftrightarrow> array_contents Q = {#}"
    by (auto simp: array_queue_def isQueueEmpty0_def array_contents_def array_inv_def mset_set_empty_iff)
qed (unfold array_queue_def queue_ops.select_convs, (rule addEdge0_law popQueue0_law; assumption)+)

section \<open>Prim's algorithm\<close>

text \<open>
  The variables of \<open>minimalSpanningTreeWithPrim\<close> and the arrays of its caller.  \<open>father[i] == -1\<close>
  marks a vertex outside the tree; \<open>sons[i][0]\<close> counts the sons of \<open>i\<close>, stored from \<open>sons[i][1]\<close>.
\<close>

record prim_state =
  mst_w :: int
  father :: "int list"
  height :: "nat list"
  sons :: "nat list list"
  nV :: int
  hmax :: nat

definition int_range :: "int \<Rightarrow> bool" where
  "int_range x \<longleftrightarrow> - (2 ^ 31) \<le> x \<and> x < 2 ^ 31"

fun addAllEdges_loop :: "queue_ops \<Rightarrow> nat \<Rightarrow> int list \<Rightarrow> int list list \<Rightarrow> nat list \<Rightarrow> edge list \<Rightarrow> edge list option" where
  "addAllEdges_loop ops u fa A [] Q = Some Q"
| "addAllEdges_loop ops u fa A (v # vs) Q =
     (if v \<noteq> u \<and> fa ! v < 0
      then do { Q' \<leftarrow> q_add ops Q u v (A ! u ! v); addAllEdges_loop ops u fa A vs Q' }
      else addAllEdges_loop ops u fa A vs Q)"

definition addAllEdges :: "queue_ops \<Rightarrow> edge list \<Rightarrow> nat \<Rightarrow> int list \<Rightarrow> int list list \<Rightarrow> nat \<Rightarrow> edge list option" where
  "addAllEdges ops Q u fa A m = addAllEdges_loop ops u fa A [0..<m] Q"

definition add_son :: "nat list list \<Rightarrow> nat \<Rightarrow> nat \<Rightarrow> nat list list" where
  "add_son sns s t = (let row = sns ! s; c = row ! 0 + 1 in sns[s := row[0 := c, c := t]])"

definition add_tree_edge :: "int list list \<Rightarrow> nat \<Rightarrow> nat \<Rightarrow> prim_state \<Rightarrow> prim_state" where
  "add_tree_edge A s t st =
     (let h = height st ! s + 1 in
      st \<lparr> mst_w := mst_w st + A ! s ! t,
           father := (father st)[t := int s],
           sons := add_son (sons st) s t,
           height := (height st)[t := h],
           hmax := (if h > hmax st then h else hmax st),
           nV := nV st - 1 \<rparr>)"

partial_function (option) prim_loop ::
    "queue_ops \<Rightarrow> int list list \<Rightarrow> nat \<Rightarrow> prim_state \<Rightarrow> edge list \<Rightarrow> prim_state option" where
  "prim_loop ops A m st Q =
     (if q_empty ops Q then Some st
      else case q_pop ops Q of (s, t, Q') \<Rightarrow>
        if father st ! t = - 1 then
          let st' = add_tree_edge A s t st in
          if int_range (mst_w st') then
            if nV st' = 0 then Some st'
            else do { Q'' \<leftarrow> addAllEdges ops Q' t (father st') A m; prim_loop ops A m st' Q'' }
          else None
        else prim_loop ops A m st Q')"

fun init_prim :: "nat \<Rightarrow> prim_state \<Rightarrow> prim_state" where
  "init_prim 0 st = st"
| "init_prim (Suc i) st =
     (let st = init_prim i st in
      st \<lparr> father := (father st)[i := - 1], height := (height st)[i := 0],
           sons := (sons st)[i := (sons st ! i)[0 := 0]] \<rparr>)"

definition minimalSpanningTreeWithPrim ::
    "queue_ops \<Rightarrow> edge list \<Rightarrow> prim_state \<Rightarrow> int list list \<Rightarrow> nat \<Rightarrow> prim_state option" where
  "minimalSpanningTreeWithPrim ops Q0 st A m =
     (let st = init_prim m (st \<lparr> hmax := 0 \<rparr>);
          st = st \<lparr> father := (father st)[0 := 0], nV := int m - 1 \<rparr>
      in do { Q \<leftarrow> addAllEdges ops (q_init ops Q0) 0 (father st) A m;
              if q_check ops Q m then prim_loop ops A m (st \<lparr> mst_w := 0 \<rparr>) Q else None })"

definition minimalSpanningTree :: "edge list \<Rightarrow> prim_state \<Rightarrow> nat \<Rightarrow> int list list \<Rightarrow> prim_state option" where
  "minimalSpanningTree Q0 st m A = minimalSpanningTreeWithPrim heap_queue Q0 st A m"

section \<open>The tree\<close>

definition in_tree :: "nat \<Rightarrow> int list \<Rightarrow> nat set" where
  "in_tree m fa = {v. v < m \<and> fa ! v \<noteq> - 1}"

definition tree_edges :: "nat \<Rightarrow> int list \<Rightarrow> (nat \<times> nat) set" where
  "tree_edges m fa = (\<lambda>v. (nat (fa ! v), v)) ` (in_tree m fa - {0})"

definition son_list :: "nat list \<Rightarrow> nat list" where
  "son_list row = take (row ! 0) (tl row)"

definition edge_sum :: "int list list \<Rightarrow> (nat \<times> nat) set \<Rightarrow> int" where
  "edge_sum A F = (\<Sum>e \<in> F. A ! fst e ! snd e)"

text \<open>A tree rooted at 0 that spans the vertices of \<^term>\<open>in_tree m (father st)\<close>.\<close>

definition tree_ok :: "nat \<Rightarrow> prim_state \<Rightarrow> bool" where
  "tree_ok m st \<longleftrightarrow>
     m \<le> length (father st) \<and> m \<le> length (height st) \<and> m \<le> length (sons st)
     \<and> 0 < m \<and> father st ! 0 = 0 \<and> height st ! 0 = 0
     \<and> (\<forall>v \<in> in_tree m (father st) - {0}. 0 \<le> father st ! v \<and> nat (father st ! v) \<in> in_tree m (father st)
            \<and> height st ! v = height st ! nat (father st ! v) + 1)
     \<and> (\<forall>i < m. m < length (sons st ! i) \<and> distinct (son_list (sons st ! i)) \<and> sons st ! i ! 0 < length (sons st ! i)
            \<and> set (son_list (sons st ! i)) = {v \<in> in_tree m (father st) - {0}. father st ! v = int i})
     \<and> (\<forall>v \<in> in_tree m (father st). height st ! v \<le> hmax st)
     \<and> (\<exists>v \<in> in_tree m (father st). height st ! v = hmax st)"

lemma in_tree_update: "t < m \<Longrightarrow> m \<le> length fa \<Longrightarrow> in_tree m (fa[t := int s]) = insert t (in_tree m fa)"
  by (auto simp: in_tree_def nth_list_update)

lemma in_tree_less: "v \<in> in_tree m fa \<Longrightarrow> v < m"
  by (simp add: in_tree_def)

lemma finite_in_tree [simp]: "finite (in_tree m fa)"
  by (rule finite_subset [of _ "{..<m}"]) (auto simp: in_tree_def)

lemma card_in_tree: "card (in_tree m fa) \<le> m"
  using card_mono [of "{..<m}" "in_tree m fa"] by (auto simp: in_tree_def)

lemma son_list_add:
  assumes "row ! 0 + 1 < length row"
  shows "son_list (row[0 := row ! 0 + 1, row ! 0 + 1 := t]) = son_list row @ [t]"
proof -
  obtain c r where row: "row = c # r" using assms by (cases row) auto
  then show ?thesis using assms by (simp add: son_list_def take_Suc_conv_app_nth)
qed

lemma tree_edges_update:
  assumes "t < m" "m \<le> length fa" "t \<notin> in_tree m fa" "t \<noteq> 0"
  shows "tree_edges m (fa[t := int s]) = insert (s, t) (tree_edges m fa)"
proof -
  have "(\<lambda>v. (nat (fa[t := int s] ! v), v)) ` (in_tree m fa - {0}) = (\<lambda>v. (nat (fa ! v), v)) ` (in_tree m fa - {0})"
    using assms(3) by (intro image_cong refl) (metis DiffD1 nth_list_update_neq)
  moreover have "insert t (in_tree m fa) - {0} = insert t (in_tree m fa - {0})" using assms(4) by auto
  ultimately show ?thesis using assms by (simp add: tree_edges_def in_tree_update)
qed

lemma tree_edges_new: "t \<notin> in_tree m fa \<Longrightarrow> (s, t) \<notin> tree_edges m fa"
  by (auto simp: tree_edges_def)

lemma finite_tree_edges [simp]: "finite (tree_edges m fa)"
  by (simp add: tree_edges_def)

lemma root_in_tree: "tree_ok m st \<Longrightarrow> 0 \<in> in_tree m (father st)"
  by (simp add: tree_ok_def in_tree_def)

lemma sons_bound:
  assumes ok: "tree_ok m st" and i: "i < m" and t: "t < m" "t \<notin> in_tree m (father st)"
  shows "sons st ! i ! 0 + 1 \<le> m"
proof -
  have c: "distinct (son_list (sons st ! i))" "sons st ! i ! 0 < length (sons st ! i)"
      "set (son_list (sons st ! i)) \<subseteq> in_tree m (father st)"
    using ok i by (auto simp: tree_ok_def)
  have "sons st ! i ! 0 = card (set (son_list (sons st ! i)))"
    using c(1,2) by (simp add: distinct_card son_list_def)
  also have "\<dots> \<le> card ({..<m} - {t})"
    using c(3) t by (intro card_mono) (auto simp: in_tree_def)
  finally show ?thesis using t by simp
qed

lemma add_tree_edge_simps [simp]:
  "mst_w (add_tree_edge A s t st) = mst_w st + A ! s ! t"
  "father (add_tree_edge A s t st) = (father st)[t := int s]"
  "sons (add_tree_edge A s t st) = add_son (sons st) s t"
  "height (add_tree_edge A s t st) = (height st)[t := height st ! s + 1]"
  "hmax (add_tree_edge A s t st) = max (hmax st) (height st ! s + 1)"
  "nV (add_tree_edge A s t st) = nV st - 1"
  by (simp_all add: add_tree_edge_def Let_def max_def)

lemma tree_ok_add:
  assumes ok: "tree_ok m st" and s: "s \<in> in_tree m (father st)" and t: "t < m" "t \<notin> in_tree m (father st)"
  shows "tree_ok m (add_tree_edge A s t st)"
proof -
  let ?T = "in_tree m (father st)" and ?st = "add_tree_edge A s t st"
  note o = ok [unfolded tree_ok_def]
  have t0: "t \<noteq> 0" "t \<noteq> s" using t s root_in_tree [OF ok] by metis+
  have sm: "s < m" using s by (rule in_tree_less)
  have T: "in_tree m (father ?st) = insert t ?T" using t o by (simp add: in_tree_update)
  have fa: "father ?st ! v = (if v = t then int s else father st ! v)"
    and he: "height ?st ! v = (if v = t then height st ! s + 1 else height st ! v)" if "v < m" for v
    using that t o by (simp_all add: nth_list_update)
  have old: "0 \<le> father st ! v" "nat (father st ! v) \<in> ?T" "height st ! v = height st ! nat (father st ! v) + 1"
    if "v \<in> ?T" "v \<noteq> 0" for v using o that by auto
  have par: "0 \<le> father ?st ! v \<and> nat (father ?st ! v) \<in> insert t ?T \<and> height ?st ! v = height ?st ! nat (father ?st ! v) + 1"
    if v: "v \<in> insert t ?T - {0}" for v
  proof (cases "v = t")
    case True
    then show ?thesis using s sm t t0 by (simp add: fa he del: add_tree_edge_simps)
  next
    case False
    then have v': "v \<in> ?T" "v \<noteq> 0" using v by auto
    then have "nat (father st ! v) \<noteq> t" "nat (father st ! v) < m" "v < m" using old(2) t by (auto dest: in_tree_less)
    then show ?thesis using old [OF v'] False by (simp add: fa he del: add_tree_edge_simps)
  qed
  have row: "sons ?st ! i = (if i = s then (sons st ! s)[0 := sons st ! s ! 0 + 1, sons st ! s ! 0 + 1 := t] else sons st ! i)"
    if "i < m" for i using that o sm by (simp add: add_son_def Let_def nth_list_update)
  have c: "sons st ! s ! 0 + 1 < length (sons st ! s)" using sons_bound [OF ok sm t] o sm by fastforce
  have sonset: "{v \<in> insert t ?T - {0}. father ?st ! v = int i} =
      (if i = s then insert t {v \<in> ?T - {0}. father st ! v = int i} else {v \<in> ?T - {0}. father st ! v = int i})" if "i < m" for i
    using t t0 by (auto simp: fa in_tree_less simp del: add_tree_edge_simps split: if_splits)
  have rows: "m < length (sons ?st ! i) \<and> distinct (son_list (sons ?st ! i)) \<and> sons ?st ! i ! 0 < length (sons ?st ! i)
        \<and> set (son_list (sons ?st ! i)) = {v \<in> insert t ?T - {0}. father ?st ! v = int i}" if i: "i < m" for i
  proof (cases "i = s")
    case True
    have "set (son_list (sons st ! s)) = {v \<in> ?T - {0}. father st ! v = int s}" "distinct (son_list (sons st ! s))" "m < length (sons st ! s)"
      using o sm by auto
    moreover have "t \<notin> set (son_list (sons st ! s))" using calculation(1) t by blast
    moreover have "(sons st ! s)[0 := sons st ! s ! 0 + 1, sons st ! s ! 0 + 1 := t] ! 0 = sons st ! s ! 0 + 1"
      using c by (cases "sons st ! s") simp_all
    ultimately show ?thesis
      unfolding sonset [OF i] row [OF i] using True c son_list_add [OF c, of t] by simp
  next
    case False
    then show ?thesis unfolding sonset [OF i] row [OF i] using o i by simp
  qed
  have hm: "height ?st ! v \<le> hmax ?st" if "v \<in> insert t ?T" for v
  proof (cases "v = t")
    case True then show ?thesis using t he by simp
  next
    case False
    then have "v \<in> ?T" using that by simp
    then have "height st ! v \<le> hmax st" "v < m" using o by (auto dest: in_tree_less)
    then show ?thesis using False he [of v] by (simp del: add_tree_edge_simps(4))
  qed
  have hex: "\<exists>v \<in> insert t ?T. height ?st ! v = hmax ?st"
  proof (cases "hmax st \<le> height st ! s + 1")
    case True then show ?thesis using t he [of t] by (intro bexI [of _ t]) (simp_all del: add_tree_edge_simps(4))
  next
    case False
    obtain v where v: "v \<in> ?T" "height st ! v = hmax st" using o by auto
    then have "v \<noteq> t" "v < m" using t by (auto dest: in_tree_less)
    then show ?thesis using v False he [of v] by (intro bexI [of _ v]) (simp_all del: add_tree_edge_simps(4))
  qed
  have zero: "father ?st ! 0 = 0" "height ?st ! 0 = 0" using o t0 t fa [of 0] he [of 0] by (simp_all del: add_tree_edge_simps)
  have len: "m \<le> length (father ?st)" "m \<le> length (height ?st)" "m \<le> length (sons ?st)" "0 < m"
    using o by (simp_all add: add_son_def Let_def)
  show ?thesis unfolding tree_ok_def T
    by (intro conjI len zero hex) (rule ballI allI impI par rows hm | assumption)+
qed

section \<open>Minimality\<close>

definition linked :: "(nat \<times> nat) set \<Rightarrow> (nat \<times> nat) set" where
  "linked F = (F \<union> F\<inverse>)\<^sup>*"

text \<open>A set of edges that connects every vertex to 0.\<close>

definition spanning :: "nat \<Rightarrow> (nat \<times> nat) set \<Rightarrow> bool" where
  "spanning m F \<longleftrightarrow> F \<subseteq> {..<m} \<times> {..<m} \<and> (\<forall>v < m. (0, v) \<in> linked F)"

definition weights_ok :: "int list list \<Rightarrow> nat \<Rightarrow> bool" where
  "weights_ok A m \<longleftrightarrow> (\<forall>i < m. \<forall>j < m. 0 \<le> A ! i ! j \<and> A ! i ! j = A ! j ! i)"

lemma linked_sym: "(a, b) \<in> linked F \<Longrightarrow> (b, a) \<in> linked F"
  unfolding linked_def by (metis converse_Un converse_converse rtrancl_converseI sup_commute)

lemma linked_trans: "(a, b) \<in> linked F \<Longrightarrow> (b, c) \<in> linked F \<Longrightarrow> (a, c) \<in> linked F"
  unfolding linked_def by (rule rtrancl_trans)

lemma linked_edge: "(a, b) \<in> F \<Longrightarrow> (a, b) \<in> linked F"
  unfolding linked_def by auto

lemma linked_mono: "F \<subseteq> G \<Longrightarrow> linked F \<subseteq> linked G"
  unfolding linked_def by (intro rtrancl_mono Un_mono) auto

lemma linked_subset: "(\<And>a b. (a, b) \<in> F \<Longrightarrow> (a, b) \<in> linked G) \<Longrightarrow> linked F \<subseteq> linked G"
proof -
  assume e: "\<And>a b. (a, b) \<in> F \<Longrightarrow> (a, b) \<in> linked G"
  have "F \<union> F\<inverse> \<subseteq> linked G" using e linked_sym by auto
  then have "(F \<union> F\<inverse>)\<^sup>* \<subseteq> (linked G)\<^sup>*" by (rule rtrancl_mono)
  then show ?thesis by (simp add: linked_def)
qed

text \<open>A path from outside a set of vertices into it crosses its border a first time.\<close>

lemma first_crossing:
  assumes "(t, s) \<in> linked F" "s \<in> S" "t \<notin> S"
  shows "\<exists>a b. a \<in> S \<and> b \<notin> S \<and> (b, a) \<in> F \<union> F\<inverse> \<and> (t, b) \<in> linked (F \<inter> (- S) \<times> (- S))"
  using assms(1,3) unfolding linked_def
proof (induction rule: converse_rtrancl_induct)
  case base
  then show ?case using assms(2) by simp
next
  case (step t u)
  show ?case
  proof (cases "u \<in> S")
    case True
    then show ?thesis using step.hyps(1) step.prems by blast
  next
    case False
    then obtain a b where ab: "a \<in> S" "b \<notin> S" "(b, a) \<in> F \<union> F\<inverse>" "(u, b) \<in> ((F \<inter> (- S) \<times> (- S)) \<union> (F \<inter> (- S) \<times> (- S))\<inverse>)\<^sup>*"
      using step.IH by blast
    have "(t, u) \<in> (F \<inter> (- S) \<times> (- S)) \<union> (F \<inter> (- S) \<times> (- S))\<inverse>" using step.hyps(1) step.prems False by auto
    then have "(t, b) \<in> ((F \<inter> (- S) \<times> (- S)) \<union> (F \<inter> (- S) \<times> (- S))\<inverse>)\<^sup>*" using ab(4) by (rule converse_rtrancl_into_rtrancl)
    then show ?thesis using ab(1,2,3) by blast
  qed
qed

text \<open>
  Exchange: when a spanning set contains a tree on \<open>S\<close>, a lightest edge that leaves \<open>S\<close> can replace
  some edge of the set that leaves \<open>S\<close>.
\<close>

lemma exchange:
  assumes span: "spanning m F" and tree: "T \<subseteq> F" "T \<subseteq> S \<times> S" and conn: "\<And>v. v \<in> S \<Longrightarrow> (0, v) \<in> linked T"
    and st: "s \<in> S" "t \<notin> S" "s < m" "t < m" and wok: "weights_ok A m"
    and light: "\<And>a b. a \<in> S \<Longrightarrow> b < m \<Longrightarrow> b \<notin> S \<Longrightarrow> A ! s ! t \<le> A ! a ! b"
  shows "\<exists>F'. spanning m F' \<and> insert (s, t) T \<subseteq> F' \<and> edge_sum A F' \<le> edge_sum A F"
proof -
  have sub: "F \<subseteq> {..<m} \<times> {..<m}" and lk: "\<And>v. v < m \<Longrightarrow> (0, v) \<in> linked F" using span by (auto simp: spanning_def)
  have finF: "finite F" using sub finite_subset by fastforce
  have "(t, s) \<in> linked F" using lk [OF st(3)] lk [OF st(4)] linked_sym linked_trans by blast
  then obtain a b where ab: "a \<in> S" "b \<notin> S" "(b, a) \<in> F \<union> F\<inverse>" "(t, b) \<in> linked (F \<inter> (- S) \<times> (- S))"
    using first_crossing st(1,2) by blast
  have abm: "a < m" "b < m" using ab(3) sub by auto
  define e where "e = (if (a, b) \<in> F then (a, b) else (b, a))"
  define F' where "F' = insert (s, t) (F - {e})"
  have e: "e \<in> F" "e = (a, b) \<or> e = (b, a)" using ab(3) by (auto simp: e_def)
  have eA: "A ! fst e ! snd e = A ! a ! b" using e(2) wok abm by (auto simp: weights_ok_def)
  have TF: "T \<subseteq> F'" using tree e(2) ab(1,2) by (auto simp: F'_def)
  have "F \<inter> (- S) \<times> (- S) \<subseteq> F'" using e(2) ab(1) by (auto simp: F'_def)
  then have tb: "(t, b) \<in> linked F'" using ab(4) linked_mono by blast
  have "(s, t) \<in> linked F'" by (rule linked_edge) (simp add: F'_def)
  moreover have "(a, s) \<in> linked F'"
    using conn [OF ab(1)] conn [OF st(1)] linked_mono [OF TF] linked_sym linked_trans by blast
  ultimately have "(a, b) \<in> linked F'" using tb linked_trans by blast
  then have "linked F \<subseteq> linked F'"
    using e(2) linked_sym by (intro linked_subset) (auto simp: F'_def intro: linked_edge)
  then have "spanning m F'" using lk sub st(3,4) by (auto simp: spanning_def F'_def)
  moreover have "edge_sum A F' \<le> edge_sum A F"
  proof -
    have "edge_sum A F' \<le> A ! s ! t + edge_sum A (F - {e})"
      using finF st wok by (auto simp: edge_sum_def F'_def sum.insert_if weights_ok_def)
    also have "\<dots> \<le> A ! fst e ! snd e + edge_sum A (F - {e})" using light [OF ab(1) abm(2) ab(2)] eA by simp
    also have "\<dots> = edge_sum A F" using finF e(1) by (simp add: edge_sum_def sum.remove)
    finally show ?thesis .
  qed
  ultimately show ?thesis using TF by (intro exI [of _ F']) (simp add: F'_def)
qed

definition extends :: "int list list \<Rightarrow> nat \<Rightarrow> (nat \<times> nat) set \<Rightarrow> bool" where
  "extends A m T \<longleftrightarrow> (\<forall>F. spanning m F \<longrightarrow> (\<exists>F'. spanning m F' \<and> T \<subseteq> F' \<and> edge_sum A F' \<le> edge_sum A F))"

lemma tree_connects:
  assumes ok: "tree_ok m st" and v: "v \<in> in_tree m (father st)"
  shows "(0, v) \<in> linked (tree_edges m (father st))"
  using v
proof (induction "height st ! v" arbitrary: v)
  case 0
  have "height st ! v = height st ! nat (father st ! v) + 1" if "v \<noteq> 0" using ok 0(2) that by (simp add: tree_ok_def)
  then have "v = 0" using 0(1) by (metis Suc_eq_plus1 Zero_not_Suc)
  then show ?case by (simp add: linked_def)
next
  case (Suc h)
  have "height st ! 0 = 0" using ok by (simp add: tree_ok_def)
  then have "v \<noteq> 0" using Suc.hyps(2) by (metis Zero_not_Suc)
  then have p: "nat (father st ! v) \<in> in_tree m (father st)" "height st ! v = height st ! nat (father st ! v) + 1"
    using ok Suc.prems by (simp_all add: tree_ok_def)
  have "(nat (father st ! v), v) \<in> tree_edges m (father st)" using \<open>v \<noteq> 0\<close> Suc.prems by (simp add: tree_edges_def)
  then show ?case using Suc.hyps(1) [OF _ p(1)] Suc.hyps(2) p linked_edge linked_trans by (metis Suc_eq_plus1 Suc_inject)
qed

lemma tree_edges_inside:
  "tree_ok m st \<Longrightarrow> tree_edges m (father st) \<subseteq> in_tree m (father st) \<times> in_tree m (father st)"
  by (auto simp: tree_ok_def tree_edges_def)

lemma extends_add:
  assumes ok: "tree_ok m st" and ext: "extends A m (tree_edges m (father st))" and wok: "weights_ok A m"
    and st: "s \<in> in_tree m (father st)" "t \<notin> in_tree m (father st)" "t < m"
    and light: "\<And>a b. a \<in> in_tree m (father st) \<Longrightarrow> b < m \<Longrightarrow> b \<notin> in_tree m (father st) \<Longrightarrow> A ! s ! t \<le> A ! a ! b"
  shows "extends A m (insert (s, t) (tree_edges m (father st)))"
  unfolding extends_def
proof (intro allI impI)
  fix F assume "spanning m F"
  then obtain F1 where F1: "spanning m F1" "tree_edges m (father st) \<subseteq> F1" "edge_sum A F1 \<le> edge_sum A F"
    using ext by (auto simp: extends_def)
  obtain F' where "spanning m F'" "insert (s, t) (tree_edges m (father st)) \<subseteq> F'" "edge_sum A F' \<le> edge_sum A F1"
    using exchange [OF F1(1,2) tree_edges_inside [OF ok] tree_connects [OF ok] st(1,2) in_tree_less [OF st(1)] st(3) wok light] by blast
  then show "\<exists>F'. spanning m F' \<and> insert (s, t) (tree_edges m (father st)) \<subseteq> F' \<and> edge_sum A F' \<le> edge_sum A F"
    using F1(3) by (intro exI [of _ F']) simp
qed

section \<open>Correctness over any queue\<close>

definition pending :: "int list list \<Rightarrow> nat \<Rightarrow> int list \<Rightarrow> edge multiset \<Rightarrow> bool" where
  "pending A m fa C \<longleftrightarrow>
     (\<forall>s t x. (s, t, x) \<in># C \<longrightarrow> s \<in> in_tree m fa \<and> t < m \<and> x = A ! s ! t)
     \<and> (\<forall>s \<in> in_tree m fa. \<forall>t < m. t \<notin> in_tree m fa \<longrightarrow> (s, t, A ! s ! t) \<in># C)"

definition prim_ok :: "int list list \<Rightarrow> nat \<Rightarrow> prim_state \<Rightarrow> bool" where
  "prim_ok A m st \<longleftrightarrow> tree_ok m st \<and> extends A m (tree_edges m (father st))
     \<and> mst_w st = edge_sum A (tree_edges m (father st)) \<and> nV st = int m - int (card (in_tree m (father st)))"

definition small_weights :: "int list list \<Rightarrow> nat \<Rightarrow> bool" where
  "small_weights A m \<longleftrightarrow> weights_ok A m \<and> (\<forall>i < m. \<forall>j < m. A ! i ! j < 2 ^ 23)"

text \<open>What the algorithm promises of its final state.\<close>

definition is_mst :: "int list list \<Rightarrow> nat \<Rightarrow> prim_state \<Rightarrow> bool" where
  "is_mst A m st \<longleftrightarrow> tree_ok m st \<and> in_tree m (father st) = {..<m} \<and> spanning m (tree_edges m (father st))
     \<and> card (tree_edges m (father st)) = m - 1 \<and> mst_w st = edge_sum A (tree_edges m (father st))
     \<and> (\<forall>F. spanning m F \<longrightarrow> mst_w st \<le> edge_sum A F)"

lemma edge_sum_bound:
  assumes "small_weights A m" "tree_ok m st"
  shows "0 \<le> edge_sum A (tree_edges m (father st))"
    and "edge_sum A (tree_edges m (father st)) \<le> int m * 8388607"
proof -
  let ?T = "tree_edges m (father st)"
  have e: "fst e < m" "snd e < m" if "e \<in> ?T" for e
    using tree_edges_inside [OF assms(2)] that by (auto dest!: in_tree_less)
  show "0 \<le> edge_sum A ?T"
    unfolding edge_sum_def using e assms(1) by (intro sum_nonneg) (simp add: small_weights_def weights_ok_def)
  have "edge_sum A ?T \<le> (\<Sum>e \<in> ?T. 8388607)"
    unfolding edge_sum_def using e assms(1) by (intro sum_mono) (fastforce simp: small_weights_def)
  also have "\<dots> = int (card ?T) * 8388607" by simp
  also have "card ?T \<le> m"
    using card_image_le [of "in_tree m (father st) - {0}"] card_in_tree [of m "father st"] card_Diff1_le [of "in_tree m (father st)" 0]
    unfolding tree_edges_def by (meson finite_Diff finite_in_tree le_trans)
  finally show "edge_sum A ?T \<le> int m * 8388607" by simp
qed

lemma prim_ok_final:
  assumes ok: "prim_ok A m st" and all: "in_tree m (father st) = {..<m}" and wok: "weights_ok A m"
  shows "is_mst A m st"
proof -
  let ?T = "tree_edges m (father st)"
  have t: "tree_ok m st" and ext: "extends A m ?T" and w: "mst_w st = edge_sum A ?T" using ok by (auto simp: prim_ok_def)
  have sp: "spanning m ?T"
    using tree_edges_inside [OF t] tree_connects [OF t] by (simp add: spanning_def all)
  have "edge_sum A ?T \<le> edge_sum A F" if F: "spanning m F" for F
  proof -
    obtain F' where F': "spanning m F'" "?T \<subseteq> F'" "edge_sum A F' \<le> edge_sum A F" using ext F unfolding extends_def by blast
    have sub: "F' \<subseteq> {..<m} \<times> {..<m}" using F'(1) by (simp add: spanning_def)
    then have "finite F'" using finite_subset by fastforce
    moreover have "0 \<le> A ! fst e ! snd e" if "e \<in> F'" for e using that sub wok by (auto simp: weights_ok_def)
    ultimately have "edge_sum A ?T \<le> edge_sum A F'" using F'(2) unfolding edge_sum_def by (intro sum_mono2) auto
    then show ?thesis using F'(3) by simp
  qed
  moreover have "card ?T = m - 1"
  proof -
    have "inj_on (\<lambda>v. (nat (father st ! v), v)) X" for X by (rule inj_onI) simp
    then have "card ?T = card ({..<m} - {0})" unfolding tree_edges_def all by (rule card_image)
    then show ?thesis using t by (simp add: tree_ok_def)
  qed
  ultimately show ?thesis using t all sp w by (simp add: is_mst_def)
qed

lemma prim_ok_add:
  assumes ok: "prim_ok A m st" and wok: "small_weights A m" and m: "m \<le> MERGE_LEVEL_MAX"
    and st: "s \<in> in_tree m (father st)" "t \<notin> in_tree m (father st)" "t < m"
    and light: "\<And>a b. a \<in> in_tree m (father st) \<Longrightarrow> b < m \<Longrightarrow> b \<notin> in_tree m (father st) \<Longrightarrow> A ! s ! t \<le> A ! a ! b"
  shows "prim_ok A m (add_tree_edge A s t st)" and "int_range (mst_w (add_tree_edge A s t st))"
proof -
  let ?st = "add_tree_edge A s t st"
  have t: "tree_ok m st" and ext: "extends A m (tree_edges m (father st))" and w: "weights_ok A m"
    using ok wok by (auto simp: prim_ok_def small_weights_def)
  have t0: "t \<noteq> 0" using root_in_tree [OF t] st(2) by metis
  have len: "m \<le> length (father st)" using t by (simp add: tree_ok_def)
  have T: "tree_edges m (father ?st) = insert (s, t) (tree_edges m (father st))"
    using tree_edges_update [OF st(3) len st(2) t0] by simp
  show okst: "prim_ok A m ?st"
    unfolding prim_ok_def T
    using tree_ok_add [OF t st(1,3,2)] extends_add [OF t ext w st light] ok tree_edges_new [OF st(2), of s] st len
    by (simp add: prim_ok_def edge_sum_def in_tree_update)
  have "tree_ok m ?st" "mst_w ?st = edge_sum A (tree_edges m (father ?st))" using okst by (simp_all add: prim_ok_def)
  moreover have "int m * 8388607 < 2 ^ 31" using m by (simp add: MERGE_LEVEL_MAX_def)
  ultimately show "int_range (mst_w ?st)"
    using edge_sum_bound [OF wok, of ?st] unfolding int_range_def by linarith
qed

context edge_queue
begin

lemma addAllEdges_loop_val:
  assumes "q_inv Q" "length (filter (\<lambda>v. v \<noteq> u \<and> fa ! v < 0) vs) \<le> room Q"
  shows "\<exists>Q'. addAllEdges_loop ops u fa A vs Q = Some Q' \<and> q_inv Q'
      \<and> contents Q' = contents Q + mset (map (\<lambda>v. (u, v, A ! u ! v)) (filter (\<lambda>v. v \<noteq> u \<and> fa ! v < 0) vs))
      \<and> room Q \<le> room Q' + length (filter (\<lambda>v. v \<noteq> u \<and> fa ! v < 0) vs)
      \<and> (\<forall>k. q_check ops Q k \<longrightarrow> q_check ops Q' (k + length (filter (\<lambda>v. v \<noteq> u \<and> fa ! v < 0) vs)))"
  using assms
proof (induction vs arbitrary: Q)
  case (Cons v vs)
  show ?case
  proof (cases "v \<noteq> u \<and> fa ! v < 0")
    case True
    then have "0 < room Q" using Cons.prems by simp
    then obtain Q1 where Q1: "q_add ops Q u v (A ! u ! v) = Some Q1" "q_inv Q1"
        "contents Q1 = add_mset (u, v, A ! u ! v) (contents Q)" "room Q \<le> room Q1 + 1" "\<forall>k. q_check ops Q k \<longrightarrow> q_check ops Q1 (Suc k)"
      using add_law Cons.prems(1) by blast
    have "length (filter (\<lambda>v. v \<noteq> u \<and> fa ! v < 0) vs) \<le> room Q1" using Cons.prems(2) True Q1(4) by simp
    then show ?thesis using Cons.IH [OF Q1(2)] Q1 True by fastforce
  next
    case False
    then show ?thesis using Cons.IH [OF Cons.prems(1)] Cons.prems(2) by auto
  qed
qed simp

lemma addAllEdges_val:
  assumes inv: "q_inv Q" and ok: "tree_ok m st" and u: "u \<in> in_tree m (father st)"
    and room: "m - 1 + k \<le> room Q"
    and pend: "\<forall>s t x. (s, t, x) \<in># contents Q \<longrightarrow> s \<in> in_tree m (father st) \<and> t < m \<and> x = A ! s ! t"
      "\<forall>s \<in> in_tree m (father st) - {u}. \<forall>t < m. t \<notin> in_tree m (father st) \<longrightarrow> (s, t, A ! s ! t) \<in># contents Q"
  shows "\<exists>Q'. addAllEdges ops Q u (father st) A m = Some Q' \<and> q_inv Q' \<and> pending A m (father st) (contents Q')
      \<and> k \<le> room Q' \<and> size (contents Q') \<le> size (contents Q) + (m - 1)
      \<and> (\<forall>k. q_check ops Q k \<longrightarrow> q_check ops Q' (k + length (filter (\<lambda>v. v \<noteq> u \<and> father st ! v < 0) [0..<m])))"
proof -
  let ?vs = "filter (\<lambda>v. v \<noteq> u \<and> father st ! v < 0) [0..<m]"
  have um: "u < m" using u by (rule in_tree_less)
  have "length ?vs = card (set ?vs)" by (simp only: distinct_card distinct_filter distinct_upt)
  also have "\<dots> \<le> card ({..<m} - {u})" by (intro card_mono) auto
  finally have l: "length ?vs \<le> m - 1" using um by simp
  have out: "v \<in> in_tree m (father st) \<longleftrightarrow> \<not> father st ! v < 0" if "v < m" for v
  proof (cases "v \<in> in_tree m (father st)")
    case True
    then have "0 \<le> father st ! v" using ok by (cases "v = 0") (auto simp: tree_ok_def)
    then show ?thesis using True by simp
  qed (use that in \<open>simp add: in_tree_def\<close>)
  obtain Q' where Q': "addAllEdges ops Q u (father st) A m = Some Q'" "q_inv Q'"
      "contents Q' = contents Q + mset (map (\<lambda>v. (u, v, A ! u ! v)) ?vs)" "room Q \<le> room Q' + length ?vs"
      "\<forall>k. q_check ops Q k \<longrightarrow> q_check ops Q' (k + length ?vs)"
    using addAllEdges_loop_val [OF inv, of u "father st" "[0..<m]" A] l room unfolding addAllEdges_def by fastforce
  have mem: "(s, t, x) \<in># contents Q' \<longleftrightarrow> (s, t, x) \<in># contents Q \<or> s = u \<and> t < m \<and> t \<noteq> u \<and> father st ! t < 0 \<and> x = A ! u ! t" for s t x
    unfolding Q'(3) by (auto simp del: mset_map)
  have "pending A m (father st) (contents Q')"
    unfolding pending_def mem using pend u out by (metis DiffI singletonD)
  moreover have "size (contents Q') \<le> size (contents Q) + (m - 1)" using l unfolding Q'(3) by (simp del: mset_map)
  ultimately show ?thesis using Q' l room by (intro exI [of _ Q']) simp
qed

lemma prim_loop_correct:
  assumes "prim_ok A m st" "q_inv Q" "pending A m (father st) (contents Q)" "small_weights A m" "m \<le> MERGE_LEVEL_MAX"
    and "(m - card (in_tree m (father st))) * (m - 1) \<le> room Q"
  shows "\<exists>st'. prim_loop ops A m st Q = Some st' \<and> is_mst A m st'"
  using assms(1-3,6)
proof (induction "(m - card (in_tree m (father st))) * m + size (contents Q)" arbitrary: st Q rule: less_induct)
  case less
  let ?T = "in_tree m (father st)"
  have ok: "tree_ok m st" and nV: "nV st = int m - int (card ?T)" using less.prems(1) by (simp_all add: prim_ok_def)
  have w: "weights_ok A m" using assms(4) by (simp add: small_weights_def)
  show ?case
  proof (cases "contents Q = {#}")
    case True
    then have "?T = {..<m}" using less.prems(3) root_in_tree [OF ok] by (auto simp: pending_def dest: in_tree_less)
    then have "is_mst A m st" using prim_ok_final less.prems(1) w by blast
    moreover have "prim_loop ops A m st Q = Some st" using True empty_law [OF less.prems(2)] by (subst prim_loop.simps) simp
    ultimately show ?thesis by blast
  next
    case False
    obtain s t x Q' where pop: "q_pop ops Q = (s, t, Q')" "q_inv Q'" "contents Q = add_mset (s, t, x) (contents Q')"
        "\<And>e. e \<in># contents Q \<Longrightarrow> x \<le> ekey e" "room Q \<le> room Q'"
      using pop_law [OF less.prems(2) False] by metis
    have ne: "\<not> q_empty ops Q" using False empty_law [OF less.prems(2)] by simp
    have st: "s \<in> ?T" "t < m" "x = A ! s ! t" using less.prems(3) pop(3) by (auto simp: pending_def)
    show ?thesis
    proof (cases "t \<in> ?T")
      case True
      then have "father st ! t \<noteq> - 1" by (simp add: in_tree_def)
      then have eq: "prim_loop ops A m st Q = prim_loop ops A m st Q'" using ne pop(1) by (subst prim_loop.simps) simp
      have "pending A m (father st) (contents Q')" using less.prems(3) True unfolding pop(3) pending_def by auto
      then show ?thesis unfolding eq using less.hyps [OF _ less.prems(1) pop(2)] pop(3,5) less.prems(4) by simp
    next
      case new: False
      let ?st = "add_tree_edge A s t st"
      have fa: "father st ! t = - 1" using new st(2) by (simp add: in_tree_def)
      have light: "A ! s ! t \<le> A ! a ! b" if "a \<in> ?T" "b < m" "b \<notin> ?T" for a b
        using less.prems(3) that pop(4) [of "(a, b, A ! a ! b)"] st(3) by (simp add: pending_def ekey_def)
      note okst = prim_ok_add [OF less.prems(1) assms(4,5) st(1) new st(2) light]
      have T': "in_tree m (father ?st) = insert t ?T" using ok st(2) by (simp add: in_tree_update tree_ok_def)
      have card: "card (in_tree m (father ?st)) = card ?T + 1" "card ?T + 1 \<le> m"
        using new card_in_tree [of m "father ?st"] unfolding T' by simp_all
      show ?thesis
      proof (cases "nV ?st = 0")
        case True
        then have "card (in_tree m (father ?st)) = m" using nV card(1) by simp
        then have "in_tree m (father ?st) = {..<m}"
          by (intro card_subset_eq) (auto dest: in_tree_less simp del: add_tree_edge_simps)
        then have "is_mst A m ?st" using prim_ok_final okst(1) w by blast
        moreover have "prim_loop ops A m st Q = Some ?st"
          using True ne pop(1) fa okst(2) by (subst prim_loop.simps) (simp add: Let_def del: add_tree_edge_simps)
        ultimately show ?thesis by blast
      next
        case False
        have tok: "tree_ok m ?st" using okst(1) by (simp add: prim_ok_def)
        define k where "k = (m - card (in_tree m (father ?st))) * (m - 1)"
        have dec: "m - card ?T = Suc (m - card (in_tree m (father ?st)))" using card by simp
        have rm: "m - 1 + k \<le> room Q'" using less.prems(4) pop(5) unfolding k_def dec by simp
        have p1: "\<forall>s t x. (s, t, x) \<in># contents Q' \<longrightarrow> s \<in> in_tree m (father ?st) \<and> t < m \<and> x = A ! s ! t"
          using less.prems(3) unfolding T' pending_def pop(3) by auto
        have p2: "\<forall>s \<in> in_tree m (father ?st) - {t}. \<forall>t < m. t \<notin> in_tree m (father ?st) \<longrightarrow> (s, t, A ! s ! t) \<in># contents Q'"
          using less.prems(3) unfolding T' pending_def pop(3) by auto
        obtain Q2 where Q2: "addAllEdges ops Q' t (father ?st) A m = Some Q2" "q_inv Q2" "pending A m (father ?st) (contents Q2)"
            "k \<le> room Q2" "size (contents Q2) \<le> size (contents Q') + (m - 1)"
          using addAllEdges_val [OF pop(2) tok _ rm p1 p2] T' by blast
        have "(m - card (in_tree m (father ?st))) * m + size (contents Q2) < (m - card ?T) * m + size (contents Q)"
          using Q2(5) st(2) unfolding dec pop(3) by simp
        then obtain st' where "prim_loop ops A m ?st Q2 = Some st'" "is_mst A m st'"
          using less.hyps [OF _ okst(1) Q2(2,3)] Q2(4) unfolding k_def by blast
        moreover have "prim_loop ops A m st Q = prim_loop ops A m ?st Q2"
          using False ne pop(1) fa okst(2) Q2(1) by (subst prim_loop.simps) (simp add: Let_def del: add_tree_edge_simps)
        ultimately show ?thesis by auto
      qed
    qed
  qed
qed

end

definition arrays_ok :: "prim_state \<Rightarrow> bool" where
  "arrays_ok st \<longleftrightarrow> length (father st) = MERGE_LEVEL_MAX \<and> length (height st) = MERGE_LEVEL_MAX
     \<and> length (sons st) = MERGE_LEVEL_MAX \<and> (\<forall>row \<in> set (sons st). length row = MERGE_LEVEL_MAX + 1)"

lemma init_prim_val:
  assumes "arrays_ok st" "m \<le> MERGE_LEVEL_MAX"
  shows "arrays_ok (init_prim m st) \<and> hmax (init_prim m st) = hmax st
     \<and> (\<forall>i < m. father (init_prim m st) ! i = - 1 \<and> height (init_prim m st) ! i = 0 \<and> sons (init_prim m st) ! i ! 0 = 0)"
  using assms(2)
proof (induction m)
  case 0
  then show ?case using assms(1) by simp
next
  case (Suc m)
  let ?s = "init_prim m st"
  have ok: "arrays_ok ?s" using Suc by simp
  then have l: "m < length (father ?s)" "m < length (height ?s)" "m < length (sons ?s)" "sons ?s ! m \<in> set (sons ?s)"
    using Suc.prems by (auto simp: arrays_ok_def)
  then have "0 < length (sons ?s ! m)" using ok by (simp add: arrays_ok_def)
  moreover have "arrays_ok (init_prim (Suc m) st)"
    using ok l(4) set_update_subset_insert [of "sons ?s" m "(sons ?s ! m)[0 := 0]"] by (auto simp: arrays_ok_def Let_def)
  ultimately show ?case using Suc l by (auto simp: Let_def nth_list_update less_Suc_eq)
qed

lemma init_tree_ok:
  assumes st: "arrays_ok st" "\<forall>i < m. father st ! i = (if i = 0 then 0 else - 1) \<and> height st ! i = 0 \<and> sons st ! i ! 0 = 0"
    and "hmax st = 0" "0 < m" "m \<le> MERGE_LEVEL_MAX"
  shows "in_tree m (father st) = {0}" "tree_ok m st" "tree_edges m (father st) = {}"
proof -
  show T: "in_tree m (father st) = {0}" using st(2) assms(4) by (auto simp: in_tree_def split: if_splits)
  show "tree_edges m (father st) = {}" by (simp add: tree_edges_def T)
  have row: "length (sons st ! i) = MERGE_LEVEL_MAX + 1" if "i < m" for i using st(1) that assms(5) by (simp add: arrays_ok_def)
  show "tree_ok m st"
    using assms row by (auto simp: tree_ok_def T arrays_ok_def son_list_def)
qed

context edge_queue
begin

lemma prim_correct:
  assumes st: "arrays_ok st" and m: "0 < m" "m \<le> MERGE_LEVEL_MAX" and w: "small_weights A m"
    and Q0: "length Q0 = MERGE_LEVEL_MAX * MERGE_LEVEL_MAX"
  shows "\<exists>st'. minimalSpanningTreeWithPrim ops Q0 st A m = Some st' \<and> is_mst A m st'"
proof -
  define s1 where "s1 = init_prim m (st \<lparr> hmax := 0 \<rparr>)"
  define s2 where "s2 = s1 \<lparr> father := (father s1)[0 := 0], nV := int m - 1 \<rparr>"
  define s3 where "s3 = s2 \<lparr> mst_w := 0 \<rparr>"
  have "arrays_ok (st \<lparr> hmax := 0 \<rparr>)" using st by (simp add: arrays_ok_def)
  note i1 = init_prim_val [OF this m(2), folded s1_def]
  have a3: "arrays_ok s3" and h3: "hmax s3 = 0" using i1 by (simp_all add: s3_def s2_def arrays_ok_def)
  have "father s3 ! i = (if i = 0 then 0 else - 1) \<and> height s3 ! i = 0 \<and> sons s3 ! i ! 0 = 0" if "i < m" for i
    using i1 that m by (auto simp: s3_def s2_def nth_list_update arrays_ok_def)
  then have f3: "\<forall>i < m. father s3 ! i = (if i = 0 then 0 else - 1) \<and> height s3 ! i = 0 \<and> sons s3 ! i ! 0 = 0" by blast
  note t = init_tree_ok [OF a3 f3 h3 m]
  have ok: "prim_ok A m s3" unfolding prim_ok_def t(1,3)
    using t(2) m by (auto simp: extends_def edge_sum_def s3_def s2_def)
  note q = init_law [OF Q0]
  have m1: "m * (m - 1) \<le> MERGE_LEVEL_MAX * MERGE_LEVEL_MAX - 1"
  proof -
    have "m * (m - 1) \<le> 256 * 255" using m by (intro mult_le_mono) (simp_all add: MERGE_LEVEL_MAX_def)
    then show ?thesis by (simp add: MERGE_LEVEL_MAX_def)
  qed
  have "m - 1 + (m - 1) * (m - 1) = m * (m - 1)" using m by (cases m) simp_all
  then have rm: "m - 1 + (m - 1) * (m - 1) \<le> room (q_init ops Q0)" using m1 q by simp
  obtain Q where Q: "addAllEdges ops (q_init ops Q0) 0 (father s3) A m = Some Q" "q_inv Q"
      "pending A m (father s3) (contents Q)" "(m - 1) * (m - 1) \<le> room Q"
      "q_check ops Q (1 + length (filter (\<lambda>v. v \<noteq> 0 \<and> father s3 ! v < 0) [0..<m]))"
    using addAllEdges_val [OF conjunct1 [OF q] t(2) _ rm, of 0 A] q t(1) by auto
  have "filter (\<lambda>v. v \<noteq> 0 \<and> father s3 ! v < 0) [0..<m] = [1..<m]"
  proof -
    have "[0..<m] = 0 # [1..<m]" using m by (simp add: upt_conv_Cons)
    then show ?thesis using f3 by (auto simp: filter_id_conv)
  qed
  then have chk: "q_check ops Q m" using Q(5) m by simp
  obtain st' where "prim_loop ops A m s3 Q = Some st'" "is_mst A m st'"
    using prim_loop_correct [OF ok Q(2,3) w m(2)] Q(4) t(1) by auto
  moreover have "minimalSpanningTreeWithPrim ops Q0 st A m = prim_loop ops A m s3 Q"
  proof -
    have "father s3 = father s2" by (simp add: s3_def)
    then show ?thesis
      using Q(1) chk unfolding minimalSpanningTreeWithPrim_def Let_def s1_def [symmetric] s2_def [symmetric] s3_def [symmetric]
      by (simp only: bind.bind_lunit if_True)
  qed
  ultimately show ?thesis by auto
qed

end

lemma is_mst_weight_unique: "is_mst A m st \<Longrightarrow> is_mst A m st' \<Longrightarrow> mst_w st = mst_w st'"
  unfolding is_mst_def by (metis order_antisym)

section \<open>The costs of a merge\<close>

definition mat_set :: "int list list \<Rightarrow> nat \<Rightarrow> nat \<Rightarrow> int \<Rightarrow> int list list" where
  "mat_set A i j x = A[i := (A ! i)[j := x]]"

fun fill_diag :: "nat list \<Rightarrow> int list list \<Rightarrow> int list list" where
  "fill_diag [] A = A"
| "fill_diag (i # is) A = fill_diag is (mat_set A i i 0)"

fun fill_cols :: "(nat \<Rightarrow> nat \<Rightarrow> int) \<Rightarrow> nat \<Rightarrow> nat list \<Rightarrow> int list list \<Rightarrow> int list list" where
  "fill_cols f i [] A = A"
| "fill_cols f i (j # js) A =
     (let A = mat_set A i j (f i j); A = mat_set A j i (A ! i ! j) in fill_cols f i js A)"

fun fill_rows :: "(nat \<Rightarrow> nat \<Rightarrow> int) \<Rightarrow> nat \<Rightarrow> nat list \<Rightarrow> int list list \<Rightarrow> int list list" where
  "fill_rows f m [] A = A"
| "fill_rows f m (i # is) A = fill_rows f m is (fill_cols f i [i + 1..<m] A)"

definition fillRowAddMatrix ::
    "int list list \<Rightarrow> row_table \<Rightarrow> int list \<Rightarrow> int \<Rightarrow> nat \<Rightarrow> nat list \<Rightarrow> int list list" where
  "fillRowAddMatrix A rows wburied nburied m ind =
     fill_rows (\<lambda>i j. weightSum rows wburied nburied (ind ! i) (ind ! j)) m [0..<m] (fill_diag [0..<m] A)"

definition minCostUsingMST ::
    "edge list \<Rightarrow> prim_state \<Rightarrow> int list list \<Rightarrow> row_table \<Rightarrow> int list \<Rightarrow> int \<Rightarrow> nat \<Rightarrow> nat list \<Rightarrow> int option" where
  "minCostUsingMST Q0 st A rows wburied nburied m ind =
     (let A = fillRowAddMatrix A rows wburied nburied m ind in
      do { st \<leftarrow> minimalSpanningTree Q0 st m A; Some (mst_w st) })"

definition square :: "nat \<Rightarrow> int list list \<Rightarrow> bool" where
  "square m A \<longleftrightarrow> m \<le> length A \<and> (\<forall>i < m. m \<le> length (A ! i))"

lemma mat_set_val:
  assumes "square m A" "i < m" "j < m"
  shows "square m (mat_set A i j x)"
    and "a < m \<Longrightarrow> b < m \<Longrightarrow> mat_set A i j x ! a ! b = (if a = i \<and> b = j then x else A ! a ! b)"
  using assms by (auto simp: square_def mat_set_def nth_list_update)

lemma fill_diag_val:
  assumes "square m A" "set is \<subseteq> {..<m}"
  shows "square m (fill_diag is A) \<and> (\<forall>a < m. \<forall>b < m. fill_diag is A ! a ! b = (if a = b \<and> a \<in> set is then 0 else A ! a ! b))"
  using assms
proof (induction "is" arbitrary: A)
  case (Cons i "is")
  have i: "i < m" using Cons.prems by simp
  show ?case
    using Cons.IH [OF mat_set_val(1) [OF Cons.prems(1) i i]] Cons.prems i mat_set_val(2) [OF Cons.prems(1) i i] by auto
qed simp

lemma fill_cols_val:
  assumes "square m A" "i < m" "set js \<subseteq> {..<m} - {i}"
  shows "square m (fill_cols f i js A)
     \<and> (\<forall>a < m. \<forall>b < m. fill_cols f i js A ! a ! b =
          (if a = i \<and> b \<in> set js then f i b else if b = i \<and> a \<in> set js then f i a else A ! a ! b))"
  using assms
proof (induction js arbitrary: A)
  case (Cons j js)
  have j: "j < m" "j \<noteq> i" using Cons.prems by auto
  define B where "B = mat_set A i j (f i j)"
  define D where "D = mat_set B j i (B ! i ! j)"
  have B: "square m B" "a < m \<Longrightarrow> b < m \<Longrightarrow> B ! a ! b = (if a = i \<and> b = j then f i j else A ! a ! b)" for a b
    using mat_set_val [OF Cons.prems(1,2) j(1)] by (simp_all add: B_def)
  have D: "square m D" "a < m \<Longrightarrow> b < m \<Longrightarrow> D ! a ! b = (if a = j \<and> b = i then B ! i ! j else B ! a ! b)" for a b
    using mat_set_val [OF B(1) j(1) Cons.prems(2)] by (simp_all add: D_def)
  have "fill_cols f i (j # js) A = fill_cols f i js D" by (simp add: B_def D_def Let_def)
  moreover have "set js \<subseteq> {..<m} - {i}" using Cons.prems by simp
  ultimately show ?case using Cons.IH [OF D(1) Cons.prems(2)] B(2) D(2) Cons.prems(2) j by auto
qed simp

lemma fill_rows_val:
  assumes "square m A" "k \<le> m"
  shows "square m (fill_rows f m [k..<m] A)
     \<and> (\<forall>a < m. \<forall>b < m. fill_rows f m [k..<m] A ! a ! b =
          (if k \<le> min a b \<and> a \<noteq> b then f (min a b) (max a b) else A ! a ! b))"
  using assms
proof (induction "m - k" arbitrary: A k)
  case (Suc d)
  then have k: "k < m" by simp
  let ?B = "fill_cols f k [k + 1..<m] A"
  have "set [k + 1..<m] \<subseteq> {..<m} - {k}" by auto
  note v = fill_cols_val [OF Suc.prems(1) k this, of f]
  have B: "square m ?B" "a < m \<Longrightarrow> b < m \<Longrightarrow> ?B ! a ! b =
      (if a = k \<and> k < b then f k b else if b = k \<and> k < a then f k a else A ! a ! b)" for a b
    using v by (auto simp: Suc_le_eq)
  have IH: "square m (fill_rows f m [k + 1..<m] ?B)"
      "a < m \<Longrightarrow> b < m \<Longrightarrow> fill_rows f m [k + 1..<m] ?B ! a ! b = (if k + 1 \<le> min a b \<and> a \<noteq> b then f (min a b) (max a b) else ?B ! a ! b)" for a b
    using Suc.hyps(1) [OF _ B(1), of "k + 1"] Suc.hyps(2) k by auto
  have eq: "fill_rows f m [k..<m] A = fill_rows f m [k + 1..<m] ?B" using k by (simp add: upt_conv_Cons)
  have "fill_rows f m [k + 1..<m] ?B ! a ! b = (if k \<le> min a b \<and> a \<noteq> b then f (min a b) (max a b) else A ! a ! b)"
    if "a < m" "b < m" for a b
    using IH(2) [OF that] B(2) [OF that] that by (auto simp: min_def max_def)
  then show ?case unfolding eq using IH(1) by blast
qed simp

lemma fillRowAddMatrix_val:
  assumes "square m A" "a < m" "b < m"
  shows "fillRowAddMatrix A rows wb nb m ind ! a ! b =
     (if a = b then 0 else weightSum rows wb nb (ind ! min a b) (ind ! max a b))"
proof -
  have "set [0..<m] \<subseteq> {..<m}" by auto
  note d = fill_diag_val [OF assms(1) this]
  show ?thesis
    using fill_rows_val [OF conjunct1 [OF d], of 0] d assms(2,3) by (simp add: fillRowAddMatrix_def)
qed

lemma weightSum_loop_ge: "w \<le> weightSum_loop as bs w"
proof (induction as bs w rule: weightSum_loop.induct)
  case (1 a as b bs w)
  then show ?case by (cases a b rule: linorder_cases) auto
qed auto

lemma weightSum_nonneg:
  assumes "0 \<le> wb ! i" "0 \<le> wb ! j" "0 \<le> nb"
  shows "0 \<le> weightSum rows wb nb i j"
proof -
  have "0 \<le> buriedSum wb nb i j" using assms by (simp add: buriedSum_def Let_def)
  then show ?thesis using weightSum_loop_ge order_trans unfolding weightSum_def Let_def by blast
qed

lemma fill_small_weights:
  assumes "square m A" "\<forall>i < m. 0 \<le> wb ! (ind ! i)" "0 \<le> nb"
    and "\<forall>i < m. \<forall>j < m. weightSum rows wb nb (ind ! i) (ind ! j) < 2 ^ 23"
  shows "small_weights (fillRowAddMatrix A rows wb nb m ind) m"
proof -
  have "0 \<le> weightSum rows wb nb (ind ! i) (ind ! j)" if "i < m" "j < m" for i j
    using that assms(2,3) by (intro weightSum_nonneg) auto
  then show ?thesis
    using assms(4) fillRowAddMatrix_val [OF assms(1)] by (simp add: small_weights_def weights_ok_def min.commute max.commute)
qed

section \<open>Properties\<close>

text \<open>C7: For 1 to 256 rows and symmetric weights below \<open>2^23\<close>, whatever the arrays held,
  \<open>minimalSpanningTree\<close> returns: the queue never overflows and the sum stays in the range of \<open>int\<close>.
  The father array is a tree rooted at 0 on all vertices, the heights, their maximum and the lists of
  sons agree with it, and the returned weight is the sum of the tree's edges and at most the sum of
  any set of edges that connects the vertices.\<close>

theorem minimalSpanningTree_correct:
  assumes "arrays_ok st" and "0 < m" and "m \<le> MERGE_LEVEL_MAX" and "small_weights A m"
    and "length Q0 = MERGE_LEVEL_MAX * MERGE_LEVEL_MAX"
  shows "\<exists>st'. minimalSpanningTree Q0 st m A = Some st' \<and> is_mst A m st'"
  unfolding minimalSpanningTree_def using hq.prim_correct [OF assms] .

definition arrays0 :: prim_state where
  "arrays0 = \<lparr> mst_w = 7, father = replicate 256 5, height = replicate 256 9,
     sons = replicate 256 (replicate 257 3), nV = 4, hmax = 2 \<rparr>"

lemma arrays0_ok: "arrays_ok arrays0"
  by (simp add: arrays_ok_def arrays0_def MERGE_LEVEL_MAX_def)

lemma weights3: "small_weights [[0, 2, 9], [2, 0, 3], [9, 3, 0]] 3"
  by (simp add: small_weights_def weights_ok_def numeral_3_eq_3 less_Suc_eq all_conj_distrib imp_conjL)

theorem minimalSpanningTree_correct_witness:
  "\<exists>st'. minimalSpanningTree (replicate 65536 (1, 2, 3)) arrays0 3 [[0, 2, 9], [2, 0, 3], [9, 3, 0]] = Some st'
     \<and> is_mst [[0, 2, 9], [2, 0, 3], [9, 3, 0]] 3 st'"
  by (rule minimalSpanningTree_correct [OF arrays0_ok _ _ weights3]) (simp_all add: MERGE_LEVEL_MAX_def)

text \<open>C36: The heap and the sorted array (\<open>QUEUE_TYPE\<close> 1 and 0): with either queue Prim returns, no queue overflows and the
  assertions on the sorted array hold, and both results are minimum spanning trees, of the same weight.\<close>

theorem queue_types_agree:
  assumes "arrays_ok st" and "0 < m" and "m \<le> MERGE_LEVEL_MAX" and "small_weights A m"
    and "length Q0 = MERGE_LEVEL_MAX * MERGE_LEVEL_MAX"
  shows "\<exists>s1 s2. minimalSpanningTreeWithPrim heap_queue Q0 st A m = Some s1 \<and> is_mst A m s1
    \<and> minimalSpanningTreeWithPrim array_queue Q0 st A m = Some s2 \<and> is_mst A m s2 \<and> mst_w s2 = mst_w s1"
proof -
  obtain s1 s2 where s: "minimalSpanningTreeWithPrim heap_queue Q0 st A m = Some s1" "is_mst A m s1"
      "minimalSpanningTreeWithPrim array_queue Q0 st A m = Some s2" "is_mst A m s2"
    using hq.prim_correct [OF assms] aq.prim_correct [OF assms] by blast
  then show ?thesis using is_mst_weight_unique [OF s(2,4)] by (intro exI [of _ s1] exI [of _ s2]) simp
qed

theorem queue_types_agree_witness:
  "\<exists>s1 s2. minimalSpanningTreeWithPrim heap_queue (replicate 65536 (1, 2, 3)) arrays0 [[0, 2, 9], [2, 0, 3], [9, 3, 0]] 3 = Some s1
    \<and> is_mst [[0, 2, 9], [2, 0, 3], [9, 3, 0]] 3 s1
    \<and> minimalSpanningTreeWithPrim array_queue (replicate 65536 (1, 2, 3)) arrays0 [[0, 2, 9], [2, 0, 3], [9, 3, 0]] 3 = Some s2
    \<and> is_mst [[0, 2, 9], [2, 0, 3], [9, 3, 0]] 3 s2 \<and> mst_w s2 = mst_w s1"
  by (rule queue_types_agree [OF arrays0_ok _ _ weights3]) (simp_all add: MERGE_LEVEL_MAX_def)

text \<open>C34: \<open>minCostUsingMST\<close> returns the least total weight of the row sums that a merge of the rows
  \<open>ind[0..m[\<close> has to compute: the least sum of \<open>weightSum\<close> over the sets of pairs of rows that connect
  them all, and this least sum is reached by a set of \<open>m - 1\<close> pairs.\<close>

theorem minCostUsingMST_correct:
  assumes "arrays_ok st" and "0 < m" and "m \<le> MERGE_LEVEL_MAX" and "square m A"
    and "length Q0 = MERGE_LEVEL_MAX * MERGE_LEVEL_MAX"
    and "\<forall>i < m. 0 \<le> wburied ! (ind ! i)" and "0 \<le> nburied"
    and "\<forall>i < m. \<forall>j < m. weightSum rows wburied nburied (ind ! i) (ind ! j) < 2 ^ 23"
  shows "\<exists>w B T. minCostUsingMST Q0 st A rows wburied nburied m ind = Some w
     \<and> (\<forall>i < m. \<forall>j < m. B ! i ! j = (if i = j then 0 else weightSum rows wburied nburied (ind ! min i j) (ind ! max i j)))
     \<and> spanning m T \<and> card T = m - 1 \<and> w = edge_sum B T \<and> (\<forall>F. spanning m F \<longrightarrow> w \<le> edge_sum B F)"
proof -
  let ?B = "fillRowAddMatrix A rows wburied nburied m ind"
  obtain st' where st': "minimalSpanningTree Q0 st m ?B = Some st'" "is_mst ?B m st'"
    using hq.prim_correct [OF assms(1-3) fill_small_weights [OF assms(4,6-8)] assms(5)] unfolding minimalSpanningTree_def by blast
  then have "minCostUsingMST Q0 st A rows wburied nburied m ind = Some (mst_w st')" by (simp add: minCostUsingMST_def Let_def)
  moreover have "\<forall>i < m. \<forall>j < m. ?B ! i ! j = (if i = j then 0 else weightSum rows wburied nburied (ind ! min i j) (ind ! max i j))"
    using fillRowAddMatrix_val [OF assms(4)] by blast
  ultimately show ?thesis
    using st'(2) unfolding is_mst_def by (intro exI [of _ "mst_w st'"] exI [of _ ?B] exI [of _ "tree_edges m (father st')"]) blast
qed

theorem minCostUsingMST_correct_witness:
  "\<exists>w B T. minCostUsingMST (replicate 65536 (1, 2, 3)) arrays0 [[8, 8], [8, 8]] [Some [1, 3], Some [3, 5]] [0, 0] 0 2 [0, 1] = Some w
     \<and> (\<forall>i < 2. \<forall>j < 2. B ! i ! j = (if i = j then 0 else weightSum [Some [1, 3], Some [3, 5]] [0, 0] 0 ([0, 1] ! min i j) ([0, 1] ! max i j)))
     \<and> spanning 2 T \<and> card T = 2 - 1 \<and> w = edge_sum B T \<and> (\<forall>F. spanning 2 F \<longrightarrow> w \<le> edge_sum B F)"
  by (rule minCostUsingMST_correct [OF arrays0_ok])
    (auto simp: MERGE_LEVEL_MAX_def square_def weightSum_def buriedSum_def row_at_def less_Suc_eq numeral_2_eq_2 Let_def)

text \<open>C37: Contract of the heap: \<open>popQueue\<close> removes an edge of least weight and \<open>addEdge\<close> adds one
  and fails only on a full array; both keep the heap order.\<close>

theorem heap_queue_contract:
  assumes "heap_inv Q"
  shows "(isQueueEmpty Q \<longleftrightarrow> heap_contents Q = {#})
     \<and> (heap_contents Q \<noteq> {#} \<longrightarrow> (\<exists>s t x Q'. popQueue Q = (s, t, Q') \<and> heap_inv Q'
          \<and> heap_contents Q = add_mset (s, t, x) (heap_contents Q') \<and> (\<forall>e \<in># heap_contents Q. x \<le> ekey e)))
     \<and> (size (heap_contents Q) + 1 < length Q \<longrightarrow> (\<exists>Q'. addEdge Q u v x = Some Q' \<and> heap_inv Q'
          \<and> heap_contents Q' = add_mset (u, v, x) (heap_contents Q)))
     \<and> (size (heap_contents Q) + 1 = length Q \<longrightarrow> addEdge Q u v x = None)"
proof -
  have sz: "size (heap_contents Q) = fst (Q ! 0)" using assms by (simp add: heap_contents_def slots_def heap_inv_def)
  have "addEdge Q u v x = None" if "size (heap_contents Q) + 1 = length Q" using that sz by (simp add: addEdge_def Let_def)
  moreover have "\<exists>Q'. addEdge Q u v x = Some Q' \<and> heap_inv Q' \<and> heap_contents Q' = add_mset (u, v, x) (heap_contents Q)"
    if "size (heap_contents Q) + 1 < length Q" using addEdge_law [OF assms] that sz by (fastforce simp: heap_room_def)
  moreover have "isQueueEmpty Q \<longleftrightarrow> heap_contents Q = {#}" using hq.empty_law [OF assms] by (simp add: heap_queue_def)
  ultimately show ?thesis using popQueue_law [OF assms] by blast
qed

theorem heap_queue_contract_witness:
  "\<not> isQueueEmpty [(1, 0, 0), (4, 5, 6), (0, 0, 0)]
     \<and> (\<exists>s t x Q'. popQueue [(1, 0, 0), (4, 5, 6), (0, 0, 0)] = (s, t, Q') \<and> heap_inv Q'
          \<and> heap_contents [(1, 0, 0), (4, 5, 6), (0, 0, 0)] = add_mset (s, t, x) (heap_contents Q'))
     \<and> (\<exists>Q'. addEdge [(1, 0, 0), (4, 5, 6), (0, 0, 0)] 7 8 9 = Some Q' \<and> heap_inv Q')
     \<and> addEdge [(1, 0, 0), (4, 5, 6)] 7 8 9 = None"
proof -
  let ?Q = "[(1, 0, 0), (4, 5, 6), (0, 0, 0)] :: edge list" and ?F = "[(1, 0, 0), (4, 5, 6)] :: edge list"
  have "heap_inv ?Q" "heap_inv ?F" by (simp_all add: heap_inv_def is_heap_def)
  note c = heap_queue_contract [OF this(1), of 7 8 9] and f = heap_queue_contract [OF this(2), of 7 8 9]
  have h: "heap_contents ?Q = {#(4, 5, 6)#}" "heap_contents ?F = {#(4, 5, 6)#}" by (simp_all add: heap_contents_def slots_def)
  have q: "heap_contents ?Q \<noteq> {#}" "size (heap_contents ?Q) + 1 < length ?Q" "size (heap_contents ?F) + 1 = length ?F"
    unfolding h by simp_all
  have "\<not> isQueueEmpty ?Q" using c q(1) by blast
  moreover have "addEdge ?F 7 8 9 = None" using f q(3) by blast
  moreover have "\<exists>Q'. addEdge ?Q 7 8 9 = Some Q' \<and> heap_inv Q'" using c q(2) by blast
  moreover have "\<exists>s t x Q'. popQueue ?Q = (s, t, Q') \<and> heap_inv Q' \<and> heap_contents ?Q = add_mset (s, t, x) (heap_contents Q')"
    using c q(1) by blast
  ultimately show ?thesis by blast
qed

end
