(* ===== verification/Merge_mono.thy ===== *)
theory Merge_mono
  imports Merge_rows Mst
begin

text \<open>
  Model of \<open>src/filter/report.c\<close> and of the merges of \<open>src/filter/merge_mono.c\<close> (the version with
  stacks of columns, \<open>USE_MARKOWITZ\<close> undefined): the rows that contain a column are combined along a
  minimal spanning tree, or all with the best of them, the history is reported, one row is destroyed
  and the column disappears.  Arrays that the code leaves uninitialised are arguments; the recursion
  on the tree carries fuel, and is shown to return for every tree.
\<close>

section \<open>Reports\<close>

text \<open>A line of the history file is the list of its numbers.\<close>

record report_t =
  rep_type :: int
  rep_outfile :: "int list list"
  rep_history :: "int list option list"
  rep_mark :: int
  rep_bufsize :: int

definition init_rep :: "report_t \<Rightarrow> nat \<Rightarrow> int \<Rightarrow> int \<Rightarrow> report_t option" where
  "init_rep rep nrows type bufsize =
     (let rep = rep \<lparr> rep_type := type \<rparr> in
      if type = 2 then Some rep
      else if type = 0 then Some (rep \<lparr> rep_outfile := [] \<rparr>)
      else if type = 1
      then Some (rep \<lparr> rep_outfile := [], rep_history := replicate nrows None, rep_mark := - 1, rep_bufsize := bufsize \<rparr>)
      else None)"

definition reportn :: "report_t \<Rightarrow> int list \<Rightarrow> nat \<Rightarrow> report_t option" where
  "reportn rep ind n =
     (if n \<le> length ind then
        if rep_type rep = 2 then Some rep
        else if rep_type rep = 0 then Some (rep \<lparr> rep_outfile := rep_outfile rep @ [take n ind] \<rparr>)
        else if rep_type rep = 1 \<and> rep_mark rep \<noteq> - 2 then
          let mark = rep_mark rep + 1 in
          do { h \<leftarrow> at (rep_history rep) mark;
               if int n \<le> rep_bufsize rep
               then Some (rep \<lparr> rep_mark := mark, rep_history := (rep_history rep)[nat mark := Some (take n ind)] \<rparr>)
               else None }
        else Some rep
      else None)"

definition report1 :: "report_t \<Rightarrow> int \<Rightarrow> report_t option" where
  "report1 rep i = reportn rep [i] 1"

definition report2 :: "report_t \<Rightarrow> int \<Rightarrow> int \<Rightarrow> report_t option" where
  "report2 rep i1 i2 = reportn rep [i1, i2] 2"

section \<open>Removing rows and columns\<close>

definition removeRowDefinitely :: "report_t \<Rightarrow> filter_matrix \<Rightarrow> int \<Rightarrow> (report_t \<times> filter_matrix) option" where
  "removeRowDefinitely rep mat i =
     do { mat \<leftarrow> removeRowAndUpdate mat i;
          let mat = destroyRow mat i;
          rep \<leftarrow> report1 rep i;
          Some (rep, mat \<lparr> mat_rem_nrows := mat_rem_nrows mat - 1 \<rparr>) }"

definition removeColumnAndUpdate :: "filter_matrix \<Rightarrow> int \<Rightarrow> filter_matrix option" where
  "removeColumnAndUpdate mat j =
     do { mat \<leftarrow> remove_j_from_SWAR mat j;
          Some (freeRj (set_wt j 0 mat) j) }"

fun crunch :: "row \<Rightarrow> int \<Rightarrow> row" where
  "crunch [] j = []"
| "crunch (x # xs) j = (if x = j then xs else x # crunch xs j)"

definition remove_j_from_row :: "filter_matrix \<Rightarrow> int \<Rightarrow> int \<Rightarrow> filter_matrix option" where
  "remove_j_from_row mat i j =
     do { r \<leftarrow> row_of mat i;
          if hasCol_loop r j
          then Some (add_weight (- 1) (mat \<lparr> mat_rows := (mat_rows mat)[nat i := Some (crunch r j)] \<rparr>))
          else None }"

fun removeColDefinitely_loop :: "report_t \<Rightarrow> filter_matrix \<Rightarrow> int \<Rightarrow> int list \<Rightarrow> (report_t \<times> filter_matrix) option" where
  "removeColDefinitely_loop rep mat j [] = Some (rep, mat)"
| "removeColDefinitely_loop rep mat j (i # is) =
     (if i \<noteq> - 1
      then do { mat \<leftarrow> remove_j_from_row mat i j;
                (rep, mat) \<leftarrow> removeRowDefinitely rep mat i;
                removeColDefinitely_loop rep (mat \<lparr> mat_rem_ncols := mat_rem_ncols mat - 1 \<rparr>) j is }
      else removeColDefinitely_loop rep mat j is)"

definition removeColDefinitely :: "report_t \<Rightarrow> filter_matrix \<Rightarrow> int \<Rightarrow> (report_t \<times> filter_matrix) option" where
  "removeColDefinitely rep mat j =
     do { r \<leftarrow> at (mat_R mat) j;
          r \<leftarrow> r;
          (rep, mat) \<leftarrow> removeColDefinitely_loop rep mat j r;
          Some (rep, set_wt j 0 mat) }"

section \<open>Merging along the best row\<close>

definition matWeightSum :: "filter_matrix \<Rightarrow> int list \<Rightarrow> int list list \<Rightarrow> nat \<Rightarrow> int list list" where
  "matWeightSum mat ind A m = fillRowAddMatrix A (mat_rows mat) (mat_wburied mat) (mat_nburied mat) m (map nat ind)"

fun findBestIndex_loop :: "int list list \<Rightarrow> nat \<Rightarrow> nat list \<Rightarrow> int \<Rightarrow> int \<Rightarrow> int" where
  "findBestIndex_loop A m [] imin wmin = imin"
| "findBestIndex_loop A m (i # is) imin wmin =
     (let w = (\<Sum>j \<leftarrow> [0..<m]. A ! i ! j) in
      if imin = - 1 \<or> w < wmin then findBestIndex_loop A m is (int i) w
      else findBestIndex_loop A m is imin wmin)"

definition findBestIndex :: "int list list \<Rightarrow> filter_matrix \<Rightarrow> nat \<Rightarrow> int list \<Rightarrow> int option" where
  "findBestIndex A mat m ind =
     (if m \<le> MERGE_LEVEL_MAX
      then Some (if m = 2 then 0 else findBestIndex_loop (matWeightSum mat ind A m) m [0..<m] (- 1) 0)
      else None)"

fun addPivot_loop :: "filter_matrix \<Rightarrow> int list \<Rightarrow> nat \<Rightarrow> nat list \<Rightarrow> filter_matrix option" where
  "addPivot_loop mat ind i [] = Some mat"
| "addPivot_loop mat ind i (k # ks) =
     (if k \<noteq> i
      then do { mat \<leftarrow> addRowsAndUpdate mat (ind ! k) (ind ! i) (- 1); addPivot_loop mat ind i ks }
      else addPivot_loop mat ind i ks)"

text \<open>\<open>ind[i]\<close> is put in front.\<close>

definition put_in_front :: "int list \<Rightarrow> nat \<Rightarrow> int list" where
  "put_in_front ind i = ind ! i # take i ind @ drop (i + 1) ind"

definition tryAllCombinations ::
    "int list list \<Rightarrow> report_t \<Rightarrow> filter_matrix \<Rightarrow> nat \<Rightarrow> int list \<Rightarrow> (report_t \<times> filter_matrix) option" where
  "tryAllCombinations A rep mat m ind =
     do { i \<leftarrow> findBestIndex A mat m ind;
          if 0 \<le> i then do {
            mat \<leftarrow> addPivot_loop mat ind (nat i) [0..<m];
            let ind = put_in_front ind (nat i);
            rep \<leftarrow> reportn rep ind m;
            mat \<leftarrow> removeRowAndUpdate mat (ind ! 0);
            Some (rep, destroyRow mat (ind ! 0)) }
          else None }"

section \<open>Merging along a spanning tree\<close>

text \<open>
  \<open>history[level]\<close> is modelled by the list of its entries \<open>1..history[level][0]\<close>.  The line of a node
  is written entry by entry in the code; no other call writes to it meanwhile, and nothing reads it.
\<close>

fun addFatherToSonsRec ::
    "nat \<Rightarrow> int list \<Rightarrow> int list list \<Rightarrow> prim_state \<Rightarrow> int list list \<Rightarrow> filter_matrix \<Rightarrow> nat \<Rightarrow> nat
      \<Rightarrow> (int \<times> int list list \<times> filter_matrix) option"
  and addFather_loop ::
    "nat \<Rightarrow> int list \<Rightarrow> int list list \<Rightarrow> prim_state \<Rightarrow> int list list \<Rightarrow> filter_matrix \<Rightarrow> nat \<Rightarrow> nat \<Rightarrow> nat list \<Rightarrow> int list
      \<Rightarrow> (nat \<times> int list \<times> int list list \<times> filter_matrix) option" where
  "addFatherToSonsRec 0 ind A st hist mat u level0 = None"
| "addFatherToSonsRec (Suc n) ind A st hist mat u level0 =
     (if sons st ! u ! 0 = 0 then Some (- 1, hist, mat)
      else if level0 < length hist then
        let i2 = ind ! u;
            h = (if int u = father st ! u then i2 else - (i2 + 1))
        in do { (lvl, line, hist, mat) \<leftarrow> addFather_loop n ind A st hist mat u level0 (son_list (sons st ! u)) [h];
                Some (int lvl, hist[level0 := line], mat) }
      else None)"
| "addFather_loop n ind A st hist mat u lvl [] line = Some (lvl, line, hist, mat)"
| "addFather_loop n ind A st hist mat u lvl (s # ss) line =
     do { (i1, hist, mat) \<leftarrow> addFatherToSonsRec n ind A st hist mat s (lvl + 1);
          let lvl = (if i1 \<noteq> - 1 then nat i1 else lvl);
          let i1 = ind ! s;
          let i2 = ind ! u;
          b1 \<leftarrow> at (mat_wburied mat) i1;
          b2 \<leftarrow> at (mat_wburied mat) i2;
          let b = b1 + b2;
          let len = A ! s ! u - (if b > mat_nburied mat then mat_nburied mat else b);
          mat \<leftarrow> addRowsAndUpdate mat i1 i2 len;
          addFather_loop n ind A st hist mat u lvl ss (line @ [i1]) }"

definition addFatherToSons ::
    "int list \<Rightarrow> int list list \<Rightarrow> prim_state \<Rightarrow> int list list \<Rightarrow> filter_matrix \<Rightarrow> (int \<times> int list list \<times> filter_matrix) option" where
  "addFatherToSons ind A st hist mat = addFatherToSonsRec (MERGE_LEVEL_MAX + 1) ind A st hist mat 0 0"

fun report_lines :: "report_t \<Rightarrow> int list list \<Rightarrow> report_t option" where
  "report_lines rep [] = Some rep"
| "report_lines rep (line # lines) = do { rep \<leftarrow> reportn rep line (length line); report_lines rep lines }"

record merge_arrays =
  arr_A :: "int list list"
  arr_Q :: "edge list"
  arr_st :: prim_state
  arr_history :: "int list list"

definition MSTWithA ::
    "merge_arrays \<Rightarrow> report_t \<Rightarrow> filter_matrix \<Rightarrow> nat \<Rightarrow> int list \<Rightarrow> int list list \<Rightarrow> (report_t \<times> filter_matrix) option" where
  "MSTWithA arr rep mat m ind A =
     do { st \<leftarrow> minimalSpanningTree (arr_Q arr) (arr_st arr) m A;
          (hmax, hist, mat) \<leftarrow> addFatherToSons ind A st (arr_history arr) mat;
          rep \<leftarrow> report_lines rep (rev (take (nat (hmax + 1)) hist));
          mat \<leftarrow> removeRowAndUpdate mat (ind ! 0);
          Some (rep, destroyRow mat (ind ! 0)) }"

definition useMinimalSpanningTree ::
    "merge_arrays \<Rightarrow> report_t \<Rightarrow> filter_matrix \<Rightarrow> nat \<Rightarrow> int list \<Rightarrow> (report_t \<times> filter_matrix) option" where
  "useMinimalSpanningTree arr rep mat m ind = MSTWithA arr rep mat m ind (matWeightSum mat ind (arr_A arr) m)"

definition findOptimalCombination ::
    "merge_arrays \<Rightarrow> report_t \<Rightarrow> filter_matrix \<Rightarrow> nat \<Rightarrow> int list \<Rightarrow> bool \<Rightarrow> (report_t \<times> filter_matrix) option" where
  "findOptimalCombination arr rep mat m ind useMST =
     (if m \<le> 2 \<or> \<not> useMST then tryAllCombinations (arr_A arr) rep mat m ind
      else useMinimalSpanningTree arr rep mat m ind)"

text \<open>The loop of \<open>mergeForColumn\<close> over \<open>R[j]\<close> takes the first \<open>m\<close> rows that are not deleted.\<close>

definition mergeForColumn ::
    "merge_arrays \<Rightarrow> report_t \<Rightarrow> filter_matrix \<Rightarrow> nat \<Rightarrow> int \<Rightarrow> bool \<Rightarrow> (report_t \<times> filter_matrix) option" where
  "mergeForColumn arr rep mat m j useMST =
     (if m > MERGE_LEVEL_MAX then None
      else do { r \<leftarrow> at (mat_R mat) j;
                r \<leftarrow> r;
                let ind = take m (live r);
                (rep, mat) \<leftarrow> findOptimalCombination arr rep mat m ind useMST;
                mat \<leftarrow> removeColumnAndUpdate
                  (mat \<lparr> mat_rem_nrows := mat_rem_nrows mat - 1, mat_rem_ncols := mat_rem_ncols mat - 1 \<rparr>) j;
                Some (rep, mat) })"

section \<open>Subtrees\<close>

definition par :: "prim_state \<Rightarrow> nat \<Rightarrow> nat" where
  "par st w = nat (father st ! w)"

definition sons_of :: "prim_state \<Rightarrow> nat \<Rightarrow> nat list" where
  "sons_of st u = son_list (sons st ! u)"

definition full_tree :: "nat \<Rightarrow> prim_state \<Rightarrow> bool" where
  "full_tree m st \<longleftrightarrow> tree_ok m st \<and> in_tree m (father st) = {..<m}"

lemma full_treeD:
  assumes "full_tree m st"
  shows "0 < m" "father st ! 0 = 0"
    and "0 < w \<Longrightarrow> w < m \<Longrightarrow> par st w < m \<and> 0 \<le> father st ! w \<and> height st ! w = height st ! par st w + 1"
    and "u < m \<Longrightarrow> distinct (sons_of st u) \<and> set (sons_of st u) = {w. 0 < w \<and> w < m \<and> par st w = u}"
    and "u < m \<Longrightarrow> sons st ! u ! 0 = length (sons_of st u)"
    and "u < m \<Longrightarrow> height st ! u \<le> hmax st"
proof -
  have t: "tree_ok m st" and all: "in_tree m (father st) = {..<m}" using assms by (simp_all add: full_tree_def)
  note o = t [unfolded tree_ok_def all]
  show "0 < m" "father st ! 0 = 0" using o by simp_all
  show p: "0 < w \<Longrightarrow> w < m \<Longrightarrow> par st w < m \<and> 0 \<le> father st ! w \<and> height st ! w = height st ! par st w + 1" for w
    using o by (simp add: par_def)
  show "u < m \<Longrightarrow> height st ! u \<le> hmax st" using o by simp
  assume u: "u < m"
  then have "sons st ! u ! 0 < length (sons st ! u)" using o by blast
  then show "sons st ! u ! 0 = length (sons_of st u)" by (simp add: sons_of_def son_list_def)
  have "set (sons_of st u) = {v \<in> {..<m} - {0}. father st ! v = int u}" "distinct (sons_of st u)"
    using o u by (simp_all add: sons_of_def)
  moreover have "father st ! v = int u \<longleftrightarrow> par st v = u" if "0 < v" "v < m" for v using p [OF that] by (auto simp: par_def)
  ultimately show "distinct (sons_of st u) \<and> set (sons_of st u) = {w. 0 < w \<and> w < m \<and> par st w = u}" by auto
qed

inductive desc :: "nat \<Rightarrow> prim_state \<Rightarrow> nat \<Rightarrow> nat \<Rightarrow> bool" for m st where
  desc_self: "u < m \<Longrightarrow> desc m st u u"
| desc_step: "desc m st u (par st w) \<Longrightarrow> 0 < w \<Longrightarrow> w < m \<Longrightarrow> desc m st u w"

lemma desc_less: "desc m st u w \<Longrightarrow> w < m \<and> (u < m)"
  by (induction rule: desc.induct) auto

lemma desc_height:
  assumes "desc m st u w" "full_tree m st"
  shows "u = w \<or> height st ! u < height st ! w"
  using assms(1)
proof (induction rule: desc.induct)
  case (desc_step u w)
  then show ?case using full_treeD(3) [OF assms(2), of w] by auto
qed simp

lemma desc_father: "desc m st u w \<Longrightarrow> w \<noteq> u \<Longrightarrow> desc m st u (par st w) \<and> 0 < w"
  by (erule desc.cases) auto

lemma desc_unique:
  assumes t: "full_tree m st" and "desc m st s w" "desc m st s' w" "height st ! s = height st ! s'"
  shows "s = s'"
  using assms(2-4)
proof (induction rule: desc.induct)
  case (desc_self u)
  then show ?case using desc_height [OF desc_self.prems(1) t] by auto
next
  case (desc_step u w)
  show ?case
  proof (cases "s' = w")
    case True
    have "desc m st u w" using desc_step.hyps by (rule desc.desc_step)
    then show ?thesis using desc_height [OF _ t] True desc_step.prems(2) by fastforce
  next
    case False
    then show ?thesis using desc_father [OF desc_step.prems(1)] desc_step.IH desc_step.prems(2) by auto
  qed
qed

lemma desc_split:
  assumes "desc m st u w" "full_tree m st"
  shows "w = u \<or> (\<exists>s \<in> set (sons_of st u). desc m st s w)"
  using assms(1)
proof (induction rule: desc.induct)
  case (desc_step u w)
  have u: "u < m" using desc_less [OF desc_step.hyps(1)] by simp
  show ?case
  proof (cases "par st w = u")
    case True
    then have "w \<in> set (sons_of st u)" using full_treeD(4) [OF assms(2) u] desc_step.hyps by blast
    then show ?thesis using desc_self desc_step.hyps by blast
  next
    case False
    then show ?thesis using desc_step.IH desc.desc_step desc_step.hyps by blast
  qed
qed simp

lemma desc_trans: "desc m st s w \<Longrightarrow> desc m st u s \<Longrightarrow> desc m st u w"
  by (induction rule: desc.induct) (auto intro: desc.intros)

lemma desc_of_son:
  assumes "full_tree m st" "u < m" "s \<in> set (sons_of st u)" "desc m st s w"
  shows "desc m st u w"
proof -
  have "0 < s" "s < m" "par st s = u" using full_treeD(4) [OF assms(1,2)] assms(3) by blast+
  have "desc m st u (par st s)" using desc_self [OF assms(2)] \<open>par st s = u\<close> by simp
  then have "desc m st u s" using \<open>0 < s\<close> \<open>s < m\<close> by (rule desc_step)
  then show ?thesis using assms(4) desc_trans by blast
qed

text \<open>The strict subtree of a node is the disjoint union of the subtrees of its sons.\<close>

definition sub :: "nat \<Rightarrow> prim_state \<Rightarrow> nat \<Rightarrow> nat set" where
  "sub m st u = {w. desc m st u w}"

definition subs :: "nat \<Rightarrow> prim_state \<Rightarrow> nat list \<Rightarrow> nat set" where
  "subs m st ss = (\<Union>s \<in> set ss. sub m st s)"

lemma subs_simps [simp]: "subs m st [] = {}" "subs m st (s # ss) = sub m st s \<union> subs m st ss"
  by (simp_all add: subs_def)

lemma sub_decomp:
  assumes "full_tree m st" "u < m"
  shows "sub m st u = insert u (subs m st (sons_of st u))" "u \<notin> subs m st (sons_of st u)"
proof -
  have "w \<in> sub m st u \<longleftrightarrow> w \<in> insert u (subs m st (sons_of st u))" for w
  proof
    assume "w \<in> sub m st u"
    then show "w \<in> insert u (subs m st (sons_of st u))"
      using desc_split [OF _ assms(1), of u w] by (auto simp: sub_def subs_def)
  next
    assume "w \<in> insert u (subs m st (sons_of st u))"
    then show "w \<in> sub m st u"
      using desc_of_son [OF assms, of _ w] desc_self [OF assms(2)] by (auto simp: sub_def subs_def)
  qed
  then show "sub m st u = insert u (subs m st (sons_of st u))" by blast
  show "u \<notin> subs m st (sons_of st u)"
  proof
    assume "u \<in> subs m st (sons_of st u)"
    then obtain s where s: "s \<in> set (sons_of st u)" "desc m st s u" by (auto simp: subs_def sub_def)
    then have "0 < s" "s < m" "par st s = u" using full_treeD(4) [OF assms] by blast+
    then have "height st ! s = height st ! u + 1" using full_treeD(3) [OF assms(1)] by blast
    then show False using desc_height [OF s(2) assms(1)] by auto
  qed
qed

lemma sub_disjoint:
  assumes t: "full_tree m st" "u < m" and s: "set (s # ss) \<subseteq> set (sons_of st u)" "distinct (s # ss)"
  shows "sub m st s \<inter> subs m st ss = {}"
proof (rule ccontr)
  assume "sub m st s \<inter> subs m st ss \<noteq> {}"
  then obtain w s' where w: "desc m st s w" "s' \<in> set ss" "desc m st s' w" by (auto simp: sub_def subs_def)
  have h: "height st ! x = height st ! u + 1" if "x \<in> set (sons_of st u)" for x
  proof -
    have "0 < x" "x < m" "par st x = u" using full_treeD(4) [OF t] that by blast+
    then show ?thesis using full_treeD(3) [OF t(1)] by blast
  qed
  have "s \<in> set (sons_of st u)" "s' \<in> set (sons_of st u)" using s(1) w(2) by auto
  then have "height st ! s = height st ! s'" using h by simp
  then have "s = s'" using desc_unique [OF t(1) w(1,3)] by simp
  then show False using s(2) w(2) by simp
qed

lemma finite_sub [simp]: "finite (sub m st u)" "finite (subs m st ss)"
proof -
  show f: "finite (sub m st u)" for u
    by (rule finite_subset [of _ "{..<m}"]) (auto simp: sub_def dest: desc_less)
  show "finite (subs m st ss)" unfolding subs_def using f by blast
qed

section \<open>The rows during the additions along the tree\<close>

text \<open>
  \<open>merged rows0 idx p D rows\<close>: the row of every node of \<open>D\<close> has been replaced by the sum of the
  initial rows of the node and of its father, all others are as initially.
\<close>

definition init_row :: "row_table \<Rightarrow> nat \<Rightarrow> row" where
  "init_row rows i = (case row_at rows i of None \<Rightarrow> [] | Some r \<Rightarrow> r)"

definition merged :: "row_table \<Rightarrow> (nat \<Rightarrow> nat) \<Rightarrow> (nat \<Rightarrow> nat) \<Rightarrow> nat set \<Rightarrow> row_table \<Rightarrow> bool" where
  "merged rows0 idx p D rows \<longleftrightarrow>
     (\<forall>w \<in> D. row_at rows (idx w) = Some (merge_rows (init_row rows0 (idx w)) (init_row rows0 (idx (p w)))))
     \<and> (\<forall>i. i \<notin> idx ` D \<longrightarrow> row_at rows i = row_at rows0 i)"

lemma row_at_other: "i \<noteq> k \<Longrightarrow> row_at (rows[k := x]) i = row_at rows i"
  by (simp add: row_at_def)

lemma merged_empty: "merged rows0 idx p {} rows0"
  by (simp add: merged_def)

lemma merged_insert:
  assumes mg: "merged rows0 idx p D rows" and inj: "inj_on idx V" "insert w D \<subseteq> V" and w: "w \<notin> D" "idx w < length rows"
  shows "merged rows0 idx p (insert w D)
    (rows[idx w := Some (merge_rows (init_row rows0 (idx w)) (init_row rows0 (idx (p w))))])"
proof -
  have ne: "idx v \<noteq> idx w" if "v \<in> D" for v using inj w that by (metis inj_on_def insert_iff subset_iff)
  show ?thesis
    unfolding merged_def
  proof (intro conjI ballI allI impI)
    fix v assume v: "v \<in> insert w D"
    show "row_at (rows[idx w := Some (merge_rows (init_row rows0 (idx w)) (init_row rows0 (idx (p w))))]) (idx v)
        = Some (merge_rows (init_row rows0 (idx v)) (init_row rows0 (idx (p v))))"
    proof (cases "v = w")
      case True then show ?thesis using w by (simp add: row_at_def)
    next
      case False
      then have "v \<in> D" using v by simp
      then show ?thesis using mg row_at_other [OF ne] unfolding merged_def by simp
    qed
  next
    fix i assume i: "i \<notin> idx ` insert w D"
    then have "row_at rows i = row_at rows0 i" using mg by (auto simp: merged_def)
    then show "row_at (rows[idx w := Some (merge_rows (init_row rows0 (idx w)) (init_row rows0 (idx (p w))))]) i = row_at rows0 i"
      using i by (subst row_at_other) auto
  qed
qed

text \<open>The data of a merge: distinct rows that exist, and the weights of their sums.\<close>

definition merge_data :: "nat \<Rightarrow> prim_state \<Rightarrow> int list \<Rightarrow> int list list \<Rightarrow> filter_matrix \<Rightarrow> bool" where
  "merge_data m st ind A mat \<longleftrightarrow> full_tree m st \<and> m \<le> length ind \<and> (\<forall>w < m. 0 \<le> ind ! w)
     \<and> inj_on (\<lambda>w. nat (ind ! w)) {..<m} \<and> (\<forall>w < m. row_at (mat_rows mat) (nat (ind ! w)) \<noteq> None)
     \<and> (\<forall>u < m. \<forall>s < m. u \<noteq> s \<longrightarrow> A ! s ! u = buriedSum (mat_wburied mat) (mat_nburied mat) (nat (ind ! s)) (nat (ind ! u))
          + int (length (merge_rows (init_row (mat_rows mat) (nat (ind ! s))) (init_row (mat_rows mat) (nat (ind ! u))))))"

lemma merge_dataD:
  assumes "merge_data m st ind A mat"
  shows "full_tree m st" "m \<le> length ind" "w < m \<Longrightarrow> 0 \<le> ind ! w" "inj_on (\<lambda>w. nat (ind ! w)) {..<m}"
    "w < m \<Longrightarrow> row_at (mat_rows mat) (nat (ind ! w)) = Some (init_row (mat_rows mat) (nat (ind ! w)))"
    "u < m \<Longrightarrow> s < m \<Longrightarrow> u \<noteq> s \<Longrightarrow> A ! s ! u = buriedSum (mat_wburied mat) (mat_nburied mat) (nat (ind ! s)) (nat (ind ! u))
          + int (length (merge_rows (init_row (mat_rows mat) (nat (ind ! s))) (init_row (mat_rows mat) (nat (ind ! u)))))"
  using assms by (auto simp: merge_data_def init_row_def split: option.splits)

text \<open>One addition of a father to its son.\<close>

lemma add_father_step:
  assumes d: "merge_data m st ind A mat0" and ok: "matrix_ok mat" and fr: "rest_frame mat0 mat"
    and mg: "merged (mat_rows mat0) (\<lambda>w. nat (ind ! w)) (par st) D (mat_rows mat)" and D: "D \<subseteq> {..<m}"
    and su: "s < m" "0 < s" "par st s = u" "s \<notin> D" "u \<notin> D"
  shows "\<exists>b1 b2 mat'. at (mat_wburied mat) (ind ! s) = Some b1 \<and> at (mat_wburied mat) (ind ! u) = Some b2
     \<and> addRowsAndUpdate mat (ind ! s) (ind ! u)
          (A ! s ! u - (if b1 + b2 > mat_nburied mat then mat_nburied mat else b1 + b2)) = Some mat'
     \<and> matrix_ok mat' \<and> rest_frame mat0 mat'
     \<and> merged (mat_rows mat0) (\<lambda>w. nat (ind ! w)) (par st) (insert s D) (mat_rows mat')"
proof -
  let ?i = "\<lambda>w. nat (ind ! w)" and ?r = "\<lambda>w. init_row (mat_rows mat0) (nat (ind ! w))"
  note md = merge_dataD [OF d]
  have u: "u < m" using full_treeD(3) [OF md(1) su(2,1)] su(3) by simp
  have su_ne: "s \<noteq> u" using full_treeD(3) [OF md(1) su(2,1)] su(3) by auto
  have row: "row_at (mat_rows mat) (?i w) = Some (?r w)" if "w < m" "w \<notin> D" for w
  proof -
    have "?i w \<notin> ?i ` D" using that D md(4) by (auto simp: inj_on_def)
    then show ?thesis using mg md(5) [OF that(1)] by (simp add: merged_def)
  qed
  have ne: "?i s \<noteq> ?i u" using md(4) su(1) u su_ne by (auto simp: inj_on_def)
  have nn: "int (?i w) = ind ! w" if "w < m" for w using md(3) [OF that] by simp
  have wb: "mat_wburied mat = mat_wburied mat0" "mat_nburied mat = mat_nburied mat0" using fr by (simp_all add: rest_frame_def)
  have dims: "length (mat_wburied mat) = length (mat_rows mat)"
    using ok mat_ok_dims(5,6) unfolding matrix_ok_def by metis
  have less: "?i w < length (mat_rows mat)" if "w < m" "w \<notin> D" for w using row_at_less [OF row [OF that]] .
  let ?b1 = "mat_wburied mat ! ?i s" and ?b2 = "mat_wburied mat ! ?i u"
  have b: "at (mat_wburied mat) (ind ! s) = Some ?b1" "at (mat_wburied mat) (ind ! u) = Some ?b2"
    using less [OF su(1,4)] less [OF u su(5)] md(3) su(1) u unfolding dims [symmetric] by (simp_all add: at_def)
  have len: "A ! s ! u - (if ?b1 + ?b2 > mat_nburied mat then mat_nburied mat else ?b1 + ?b2) = int (length (merge_rows (?r s) (?r u)))"
    using md(6) [OF u su(1)] su_ne by (simp add: buriedSum_def wb Let_def)
  obtain mat' where mat': "addRowsAndUpdate mat (int (?i s)) (int (?i u)) (int (length (merge_rows (?r s) (?r u)))) = Some mat'"
      "matrix_ok mat'" "rest_frame mat mat'" "mat_rows mat' = (mat_rows mat)[?i s := Some (merge_rows (?r s) (?r u))]"
    using addRowsAndUpdate_ok [OF ok ne row [OF su(1,4)] row [OF u su(5)]] by blast
  have "merged (mat_rows mat0) ?i (par st) (insert s D) (mat_rows mat')"
    unfolding mat'(4) using merged_insert [OF mg md(4) _ su(4) less [OF su(1,4)]] D su by simp
  then show ?thesis using b mat'(1-3) rest_frame_trans [OF fr mat'(3)] unfolding nn [OF su(1)] nn [OF u] len [symmetric] by blast
qed

section \<open>The additions along the tree\<close>

text \<open>The inner nodes in preorder, and the line of the history of an inner node.\<close>

fun preorder :: "nat \<Rightarrow> prim_state \<Rightarrow> nat \<Rightarrow> nat list" where
  "preorder 0 st u = []"
| "preorder (Suc n) st u = (if sons_of st u = [] then [] else u # concat (map (preorder n st) (sons_of st u)))"

definition history_line :: "prim_state \<Rightarrow> int list \<Rightarrow> nat \<Rightarrow> int list" where
  "history_line st ind u = (if int u = father st ! u then ind ! u else - (ind ! u + 1)) # map ((!) ind) (sons_of st u)"

text \<open>\<open>write_lines hist l ls\<close>: the lines \<open>ls\<close> written from level \<open>l\<close> on.\<close>

definition write_lines :: "int list list \<Rightarrow> nat \<Rightarrow> int list list \<Rightarrow> int list list" where
  "write_lines hist l ls = take l hist @ ls @ drop (l + length ls) hist"

lemma write_lines_simps [simp]:
  "write_lines hist l [] = hist"
  "l + length ls \<le> length hist \<Longrightarrow> length (write_lines hist l ls) = length hist"
  by (simp_all add: write_lines_def)

lemma write_lines_append:
  assumes "l + length ls + length ms \<le> length hist"
  shows "write_lines (write_lines hist l ls) (l + length ls) ms = write_lines hist l (ls @ ms)"
  using assms by (simp add: write_lines_def add.commute add.left_commute)

lemma write_lines_Cons:
  assumes "l + 1 + length ls \<le> length hist"
  shows "(write_lines hist (l + 1) ls)[l := x] = write_lines hist l (x # ls)"
proof -
  have "take (l + 1) hist = take l hist @ [hist ! l]" using assms by (simp add: take_Suc_conv_app_nth)
  then show ?thesis using assms by (simp add: write_lines_def list_update_append)
qed


lemma addFatherToSonsRec_ok:
  assumes d: "merge_data m st ind A mat0"
    and "u < m" "hmax st < height st ! u + n" "matrix_ok mat" "rest_frame mat0 mat"
    and "merged (mat_rows mat0) (\<lambda>w. nat (ind ! w)) (par st) D (mat_rows mat)" "D \<subseteq> {..<m}" "D \<inter> sub m st u = {}"
    and "l0 + length (preorder n st u) \<le> length hist"
  shows "\<exists>mat'. addFatherToSonsRec n ind A st hist mat u l0
            = Some (if sons_of st u = [] then - 1 else int (l0 + length (preorder n st u)) - 1,
                    write_lines hist l0 (map (history_line st ind) (preorder n st u)), mat')
      \<and> matrix_ok mat' \<and> rest_frame mat0 mat'
      \<and> merged (mat_rows mat0) (\<lambda>w. nat (ind ! w)) (par st) (D \<union> (sub m st u - {u})) (mat_rows mat')"
  using assms(2-9)
proof (induction n arbitrary: u mat D hist l0)
  case 0
  then show ?case using full_treeD(6) [OF merge_dataD(1) [OF d], of u] by simp
next
  case (Suc n)
  note t = merge_dataD(1) [OF d]
  note u = Suc.prems(1)
  note dec = sub_decomp [OF t u]
  let ?mg = "\<lambda>D mat. merged (mat_rows mat0) (\<lambda>w. nat (ind ! w)) (par st) D (mat_rows mat)"
  have cnt: "sons st ! u ! 0 = length (sons_of st u)" using full_treeD(5) [OF t u] .
  show ?case
  proof (cases "sons_of st u = []")
    case True
    then have e: "sub m st u - {u} = {}" using dec by auto
    show ?thesis unfolding e using True cnt Suc.prems by simp
  next
    case False
    have loop: "\<exists>mat'. addFather_loop n ind A st hist mat u l ss line
            = Some (l + length (concat (map (preorder n st) ss)), line @ map ((!) ind) ss,
                    write_lines hist (l + 1) (map (history_line st ind) (concat (map (preorder n st) ss))), mat')
          \<and> matrix_ok mat' \<and> rest_frame mat0 mat' \<and> ?mg (D \<union> subs m st ss) mat'"
      if "set ss \<subseteq> set (sons_of st u)" "distinct ss" "matrix_ok mat" "rest_frame mat0 mat" "?mg D mat" "D \<subseteq> {..<m}"
        "D \<inter> subs m st ss = {}" "u \<notin> D" "l + 1 + length (concat (map (preorder n st) ss)) \<le> length hist"
      for ss mat D hist l line
      using that
    proof (induction ss arbitrary: mat D hist l line)
      case Nil
      then show ?case by simp
    next
      case (Cons s ss)
      let ?p = "preorder n st s"
      let ?h1 = "write_lines hist (l + 1) (map (history_line st ind) ?p)"
      have s: "0 < s" "s < m" "par st s = u" using full_treeD(4) [OF t u] Cons.prems(1) by auto
      have "hmax st < height st ! s + n" using full_treeD(3) [OF t s(1,2)] s(3) Suc.prems(2) by simp
      then obtain m1 where m1: "addFatherToSonsRec n ind A st hist mat s (l + 1)
            = Some (if sons_of st s = [] then - 1 else int (l + 1 + length ?p) - 1, ?h1, m1)"
          "matrix_ok m1" "rest_frame mat0 m1" "?mg (D \<union> (sub m st s - {s})) m1"
        using Suc.IH [OF s(2) _ Cons.prems(3-6), of "l + 1" hist] Cons.prems(7,9) by auto
      let ?D1 = "D \<union> (sub m st s - {s})"
      have subs: "sub m st s \<subseteq> {..<m}" by (auto simp: sub_def dest: desc_less)
      have us: "u \<notin> sub m st s" using dec(2) Cons.prems(1) by (auto simp: subs_def)
      have ss: "s \<in> sub m st s" using desc_self [OF s(2)] by (simp add: sub_def)
      have D1: "?D1 \<subseteq> {..<m}" "s \<notin> ?D1" "u \<notin> ?D1" using Cons.prems(6-8) subs us ss by auto
      obtain b1 b2 m2 where m2: "at (mat_wburied m1) (ind ! s) = Some b1" "at (mat_wburied m1) (ind ! u) = Some b2"
          "addRowsAndUpdate m1 (ind ! s) (ind ! u) (A ! s ! u - (if b1 + b2 > mat_nburied m1 then mat_nburied m1 else b1 + b2)) = Some m2"
          "matrix_ok m2" "rest_frame mat0 m2" "?mg (insert s ?D1) m2"
        using add_father_step [OF d m1(2-4) D1(1) s(2,1,3) D1(2,3)] by blast
      let ?D2 = "insert s ?D1"
      have eqD: "?D2 = D \<union> sub m st s" using ss by auto
      have disj: "?D2 \<inter> subs m st ss = {}"
        unfolding eqD using Cons.prems(7) sub_disjoint [OF t u Cons.prems(1,2)] by auto
      let ?l1 = "l + length ?p"
      have lv: "(if (if sons_of st s = [] then - 1 else int (l + 1 + length ?p) - 1) \<noteq> - 1
            then nat (if sons_of st s = [] then - 1 else int (l + 1 + length ?p) - 1) else l) = ?l1"
        by (cases n) auto
      have len1: "length ?h1 = length hist" using Cons.prems(9) by simp
      obtain m3 where m3: "addFather_loop n ind A st ?h1 m2 u ?l1 ss (line @ [ind ! s])
            = Some (?l1 + length (concat (map (preorder n st) ss)), (line @ [ind ! s]) @ map ((!) ind) ss,
                    write_lines ?h1 (?l1 + 1) (map (history_line st ind) (concat (map (preorder n st) ss))), m3)"
          "matrix_ok m3" "rest_frame mat0 m3" "?mg (?D2 \<union> subs m st ss) m3"
        using Cons.IH [OF _ _ m2(4-6) _ disj, of ?l1 ?h1 "line @ [ind ! s]"] Cons.prems(1,2,6,8,9) D1 s(2) us len1
        by (auto simp: eqD)
      have "write_lines ?h1 (?l1 + 1) (map (history_line st ind) (concat (map (preorder n st) ss)))
          = write_lines hist (l + 1) (map (history_line st ind) (concat (map (preorder n st) (s # ss))))"
        using write_lines_append [of "l + 1" "map (history_line st ind) ?p" _ hist] Cons.prems(9) by (simp add: add.commute add.left_commute)
      moreover have "?D2 \<union> subs m st ss = D \<union> subs m st (s # ss)" by (auto simp: eqD)
      ultimately show ?case using m1(1) m2(1-3) m3 lv by (simp add: Let_def add.assoc)
    qed
    have pl: "length (preorder (Suc n) st u) = 1 + length (concat (map (preorder n st) (sons_of st u)))" using False by simp
    obtain mat' where mat': "addFather_loop n ind A st hist mat u l0 (sons_of st u) [hd (history_line st ind u)]
            = Some (l0 + length (concat (map (preorder n st) (sons_of st u))), history_line st ind u,
                    write_lines hist (l0 + 1) (map (history_line st ind) (concat (map (preorder n st) (sons_of st u)))), mat')"
          "matrix_ok mat'" "rest_frame mat0 mat'" "?mg (D \<union> subs m st (sons_of st u)) mat'"
      using loop [OF subset_refl _ Suc.prems(3-6), of l0 hist "[hd (history_line st ind u)]"] full_treeD(4) [OF t u] Suc.prems(7,8) dec pl
      by (auto simp: history_line_def)
    have eq: "sub m st u - {u} = subs m st (sons_of st u)" using dec by auto
    have "(write_lines hist (l0 + 1) (map (history_line st ind) (concat (map (preorder n st) (sons_of st u)))))[l0 := history_line st ind u]
        = write_lines hist l0 (map (history_line st ind) (preorder (Suc n) st u))"
      using write_lines_Cons [of l0 "map (history_line st ind) (concat (map (preorder n st) (sons_of st u)))" hist] False Suc.prems(8) by simp
    moreover have h: "(if int u = father st ! u then ind ! u else - (ind ! u + 1)) = hd (history_line st ind u)"
      by (simp add: history_line_def)
    ultimately show ?thesis
      using mat' False cnt Suc.prems(8) pl unfolding eq
      by (simp only: addFatherToSonsRec.simps h sons_of_def [symmetric] Let_def bind.bind_lunit prod.case) simp
  qed
qed

lemma preorder_list:
  assumes t: "full_tree m st" "u < m"
    and IH: "\<And>s. s < m \<Longrightarrow> distinct (preorder n st s) \<and> set (preorder n st s) \<subseteq> sub m st s"
    and ss: "set ss \<subseteq> set (sons_of st u)" "distinct ss"
  shows "distinct (concat (map (preorder n st) ss)) \<and> set (concat (map (preorder n st) ss)) \<subseteq> subs m st ss"
  using ss
proof (induction ss)
  case (Cons s ss)
  then have "s < m" using full_treeD(4) [OF t] by auto
  have "sub m st s \<inter> subs m st ss = {}" by (rule sub_disjoint [OF t Cons.prems])
  then show ?case using IH [OF \<open>s < m\<close>] Cons by auto
qed simp

lemma preorder_props:
  assumes t: "full_tree m st"
  shows "u < m \<Longrightarrow> distinct (preorder n st u) \<and> set (preorder n st u) \<subseteq> sub m st u"
proof (induction n arbitrary: u)
  case (Suc n)
  note dec = sub_decomp [OF t Suc.prems]
  have "distinct (concat (map (preorder n st) (sons_of st u)))"
      "set (concat (map (preorder n st) (sons_of st u))) \<subseteq> subs m st (sons_of st u)"
    using preorder_list [OF t Suc.prems Suc.IH subset_refl] full_treeD(4) [OF t Suc.prems] by auto
  then show ?case using dec by auto
qed simp

lemma preorder_length:
  assumes "full_tree m st" "u < m"
  shows "length (preorder n st u) \<le> m"
proof -
  have "set (preorder n st u) \<subseteq> {..<m}" "distinct (preorder n st u)"
    using preorder_props [OF assms] by (auto simp: sub_def dest: desc_less)
  then show ?thesis using card_mono [of "{..<m}" "set (preorder n st u)"] by (simp add: distinct_card)
qed

lemma sub_root:
  assumes "full_tree m st"
  shows "sub m st 0 = {..<m}"
proof -
  have "desc m st 0 w" if "w < m" for w
    using that
  proof (induction "height st ! w" arbitrary: w rule: less_induct)
    case less
    show ?case
    proof (cases "w = 0")
      case True then show ?thesis using desc_self less.prems by blast
    next
      case False
      then have p: "par st w < m" "height st ! w = height st ! par st w + 1" using full_treeD(3) [OF assms, of w] less.prems by auto
      then have "desc m st 0 (par st w)" using less.hyps by simp
      moreover have "0 < w" using False by simp
      ultimately show ?thesis using less.prems by (rule desc_step)
    qed
  qed
  then show ?thesis by (auto simp: sub_def dest: desc_less)
qed

lemma height_bound:
  assumes t: "full_tree m st"
  shows "hmax st < m"
proof -
  have chain: "\<exists>V. V \<subseteq> {..<m} \<and> card V = Suc (height st ! w) \<and> (\<forall>v \<in> V. height st ! v \<le> height st ! w)" if "w < m" for w
    using that
  proof (induction "height st ! w" arbitrary: w)
    case 0
    then show ?case by (intro exI [of _ "{w}"]) auto
  next
    case (Suc h)
    have "height st ! 0 = 0" using t by (simp add: full_tree_def tree_ok_def)
    then have "0 < w" using Suc.hyps(2) by (cases "w = 0") auto
    then have p: "par st w < m" "height st ! w = height st ! par st w + 1" using full_treeD(3) [OF t] Suc.prems by auto
    then obtain V where V: "V \<subseteq> {..<m}" "card V = Suc h" "\<forall>v \<in> V. height st ! v \<le> h"
      using Suc.hyps(1) [of "par st w"] Suc.hyps(2) by auto
    have "w \<notin> V" using V(3) Suc.hyps(2) by auto
    moreover have "finite V" using V(1) finite_subset by blast
    ultimately show ?case using V Suc.prems Suc.hyps(2) by (intro exI [of _ "insert w V"]) fastforce
  qed
  obtain w where w: "w < m" "height st ! w = hmax st" using t by (auto simp: full_tree_def tree_ok_def)
  obtain V where "V \<subseteq> {..<m}" "card V = Suc (hmax st)" using chain [OF w(1)] w(2) by auto
  then show ?thesis using card_mono [of "{..<m}" V] by simp
qed

section \<open>Destroying a row, removing a column\<close>

lemma destroyRow_ok:
  assumes ok: "matrix_ok mat" and r: "row_at (mat_rows mat) i = Some r"
  shows "\<exists>mat'. removeRowAndUpdate mat (int i) = Some mat' \<and> matrix_ok (destroyRow mat' (int i)) \<and> rest_frame mat (destroyRow mat' (int i))
     \<and> mat_rows (destroyRow mat' (int i)) = (mat_rows mat)[i := None]"
proof -
  have mok: "mat_ok (row_sets (mat_rows mat)) mat" and rok: "row_ok r" using ok r by (auto simp: matrix_ok_def)
  obtain m1 where m1: "removeRowAndUpdate mat (int i) = Some m1" "mat_ok ((row_sets (mat_rows mat))(i := {})) m1"
      "col_frame (add_weight (- (int (length r) + mat_wburied mat ! i)) mat) m1"
    using removeRow_ok [OF mok r row_ok_distinct [OF rok]] row_sets_Some [OF r] by auto
  have rows: "mat_rows m1 = mat_rows mat" using col_frame_simps(5) [OF m1(3)] by (simp add: add_weight_def)
  have i: "i < length (mat_rows mat)" using row_at_less [OF r] .
  have rows': "mat_rows (destroyRow m1 (int i)) = (mat_rows mat)[i := None]" by (simp add: destroyRow_def rows)
  have "matrix_ok (destroyRow m1 (int i))"
    unfolding matrix_ok_def rows' row_sets_update [OF i]
  proof (intro conjI allI impI)
    show "mat_ok ((row_sets (mat_rows mat))(i := case None of None \<Rightarrow> {} | Some r \<Rightarrow> set r)) (destroyRow m1 (int i))"
      using m1(2) mat_ok_cong [OF same_cols_simps(4)] by simp
    fix k r' assume "row_at ((mat_rows mat)[i := None]) k = Some r'"
    then have "row_at (mat_rows mat) k = Some r'" using i by (cases "k = i") (auto simp: row_at_def split: if_splits)
    then show "row_ok r'" using ok by (simp add: matrix_ok_def)
  qed
  moreover have "rest_frame mat (destroyRow m1 (int i))"
    using rest_frame_col [OF m1(3)] rest_frame_upd rest_frame_trans by meson
  ultimately show ?thesis using m1(1) rows' by blast
qed

lemma removeColumn_ok:
  assumes ok: "mat_ok M mat" and j: "j < mat_ncols mat" "mat_A mat ! j = Some p" and w: "w < 0 \<or> w = 0 \<and> rows_with M j = {}"
  shows "\<exists>s mat'. removeColumnAndUpdate mat (int j) = Some mat' \<and> mat_ok M (set_wt (int j) w mat')
     \<and> mat' = mat \<lparr> mat_wt := (mat_wt mat)[j := 0], mat_R := (mat_R mat)[j := None], mat_A := (mat_A mat)[j := None], mat_store := s \<rparr>"
proof -
  note d = mat_ok_dims [OF ok]
  obtain L where L: "stacks (mat_S mat) (mat_A mat) (mat_store mat) (level mat) L" using ok by (auto simp: mat_ok_def)
  obtain s L' where s: "dclistRemove (mat_store mat) p = Some s" "stacks (mat_S mat) ((mat_A mat)[j := None]) s (level mat) L'"
    using stacks_remove [OF L] j d(3) by metis
  let ?mat = "mat \<lparr> mat_wt := (mat_wt mat)[j := 0], mat_R := (mat_R mat)[j := None], mat_A := (mat_A mat)[j := None], mat_store := s \<rparr>"
  have run: "removeColumnAndUpdate mat (int j) = Some ?mat"
    using s(1) j d(3) by (simp add: removeColumnAndUpdate_def remove_j_from_SWAR_def remove_j_from_S_def set_A_def set_wt_def freeRj_def set_R_def)
  let ?m = "set_wt (int j) w ?mat"
  have m: "?m = mat \<lparr> mat_wt := (mat_wt mat)[j := w], mat_R := (mat_R mat)[j := None], mat_A := (mat_A mat)[j := None], mat_store := s \<rparr>"
    by (simp add: set_wt_def)
  have "stacks (mat_S mat) ((mat_A mat)[j := None]) s (level ?m) L'"
  proof (rule stacks_lev_cong [OF s(2)])
    fix k assume "k < length ((mat_A mat)[j := None])" "(mat_A mat)[j := None] ! k \<noteq> None"
    then have "k \<noteq> j" by auto
    then show "level ?m k = level mat k" by (simp add: level_def set_wt_def)
  qed
  then have st: "\<exists>L. stacks (mat_S ?m) (mat_A ?m) (mat_store ?m) (level ?m) L" by (auto simp: set_wt_def)
  have "col_ok M ?m k" if k: "k < mat_ncols mat" for k
  proof (cases "k = j")
    case True
    then show ?thesis using w j(1) d(1-3) by (simp add: col_ok_def set_wt_def)
  next
    case False
    then show ?thesis using mat_ok_col [OF ok k] by (rule_tac col_ok_other) (simp_all add: m)
  qed
  moreover have "dims_ok M ?m" using ok unfolding mat_ok_def dims_ok_def m by simp
  ultimately have "mat_ok M ?m" using st unfolding mat_ok_def by (simp add: m)
  then show ?thesis using run by blast
qed

section \<open>The rows after a merge\<close>

text \<open>
  \<open>combined rows0 idx p V c rows\<close>: among the rows of \<open>V\<close>, row \<open>c\<close> is destroyed and each other row
  \<open>w\<close> is replaced by its sum with row \<open>p w\<close>; the other rows are as before.
\<close>

definition combined :: "row_table \<Rightarrow> (nat \<Rightarrow> nat) \<Rightarrow> (nat \<Rightarrow> nat) \<Rightarrow> nat set \<Rightarrow> nat \<Rightarrow> row_table \<Rightarrow> bool" where
  "combined rows0 idx p V c rows \<longleftrightarrow>
     (\<forall>w \<in> V - {c}. row_at rows (idx w) = Some (merge_rows (init_row rows0 (idx w)) (init_row rows0 (idx (p w)))))
     \<and> row_at rows (idx c) = None \<and> (\<forall>i. i \<notin> idx ` V \<longrightarrow> row_at rows i = row_at rows0 i)"

lemma merged_destroy:
  assumes mg: "merged rows0 idx p (V - {c}) rows" and inj: "inj_on idx V" and c: "c \<in> V"
  shows "combined rows0 idx p V c (rows[idx c := None])"
  unfolding combined_def
proof (intro conjI ballI allI impI)
  fix w assume w: "w \<in> V - {c}"
  then have "idx w \<noteq> idx c" using inj c by (auto simp: inj_on_def)
  then show "row_at (rows[idx c := None]) (idx w) = Some (merge_rows (init_row rows0 (idx w)) (init_row rows0 (idx (p w))))"
    using mg w row_at_other unfolding merged_def by metis
next
  show "row_at (rows[idx c := None]) (idx c) = None" by (simp add: row_at_def)
next
  fix i assume i: "i \<notin> idx ` V"
  then have "i \<noteq> idx c" "i \<notin> idx ` (V - {c})" using c by auto
  then show "row_at (rows[idx c := None]) i = row_at rows0 i" using mg row_at_other unfolding merged_def by metis
qed

definition rep_add :: "report_t \<Rightarrow> int list list \<Rightarrow> report_t" where
  "rep_add rep ls = (if rep_type rep = 0 then rep \<lparr> rep_outfile := rep_outfile rep @ ls \<rparr> else rep)"

lemma reportn_val: "rep_type rep = 0 \<or> rep_type rep = 2 \<Longrightarrow> n \<le> length ind \<Longrightarrow> reportn rep ind n = Some (rep_add rep [take n ind])"
  by (auto simp: reportn_def rep_add_def)

lemma rep_add_type [simp]: "rep_type (rep_add rep ls) = rep_type rep"
  by (simp add: rep_add_def)

lemma rep_add_add: "rep_add (rep_add rep ls) ms = rep_add rep (ls @ ms)"
  by (simp add: rep_add_def)

lemma report_lines_val: "rep_type rep = 0 \<or> rep_type rep = 2 \<Longrightarrow> report_lines rep ls = Some (rep_add rep ls)"
proof (induction ls arbitrary: rep)
  case Nil
  then show ?case by (simp add: rep_add_def)
next
  case (Cons l ls)
  then show ?case by (simp add: reportn_val rep_add_add)
qed

text \<open>The rows \<open>ind\<close> of a merge exist and are distinct.\<close>

definition rows_exist :: "nat \<Rightarrow> int list \<Rightarrow> filter_matrix \<Rightarrow> bool" where
  "rows_exist m ind mat \<longleftrightarrow> length ind = m \<and> (\<forall>w < m. 0 \<le> ind ! w) \<and> inj_on (\<lambda>w. nat (ind ! w)) {..<m}
     \<and> (\<forall>w < m. row_at (mat_rows mat) (nat (ind ! w)) \<noteq> None)"

definition merge_weights_ok :: "nat \<Rightarrow> int list \<Rightarrow> filter_matrix \<Rightarrow> bool" where
  "merge_weights_ok m ind mat \<longleftrightarrow> 0 \<le> mat_nburied mat \<and> (\<forall>i < m. 0 \<le> mat_wburied mat ! nat (ind ! i))
     \<and> (\<forall>i < m. \<forall>j < m. weightSum (mat_rows mat) (mat_wburied mat) (mat_nburied mat) (nat (ind ! i)) (nat (ind ! j)) < 2 ^ 23)"

lemma merge_rows_commute: "merge_rows as bs = merge_rows bs as"
proof (induction as bs rule: merge_rows.induct)
  case (2 as)
  then show ?case by (cases as) simp_all
qed auto

lemma weightSum_val:
  assumes "row_at rows i \<noteq> None" "row_at rows j \<noteq> None"
  shows "weightSum rows wb nb i j = buriedSum wb nb i j + int (length (merge_rows (init_row rows i) (init_row rows j)))"
  using assms by (auto simp: weightSum_def init_row_def weightSum_loop_eq Let_def split: option.splits)

lemma buriedSum_commute: "buriedSum wb nb i j = buriedSum wb nb j i"
  by (simp add: buriedSum_def add.commute)

definition merge_arrays_ok :: "nat \<Rightarrow> merge_arrays \<Rightarrow> bool" where
  "merge_arrays_ok m arr \<longleftrightarrow> square m (arr_A arr) \<and> length (arr_Q arr) = MERGE_LEVEL_MAX * MERGE_LEVEL_MAX
     \<and> arrays_ok (arr_st arr) \<and> length (arr_history arr) = MERGE_LEVEL_MAX"

lemma useMinimalSpanningTree_ok:
  assumes ok: "matrix_ok mat" and m: "0 < m" "m \<le> MERGE_LEVEL_MAX" and ex: "rows_exist m ind mat"
    and arr: "merge_arrays_ok m arr" and w: "merge_weights_ok m ind mat" and rep: "rep_type rep = 0 \<or> rep_type rep = 2"
  shows "\<exists>mat' st. useMinimalSpanningTree arr rep mat m ind
        = Some (rep_add rep (rev (map (history_line st ind) (preorder (MERGE_LEVEL_MAX + 1) st 0))), mat')
      \<and> matrix_ok mat' \<and> rest_frame mat mat' \<and> full_tree m st
      \<and> combined (mat_rows mat) (\<lambda>w. nat (ind ! w)) (par st) {..<m} 0 (mat_rows mat')"
proof -
  let ?i = "\<lambda>w. nat (ind ! w)"
  let ?A = "matWeightSum mat ind (arr_A arr) m"
  have sq: "square m (arr_A arr)" and hl: "length (arr_history arr) = MERGE_LEVEL_MAX" using arr by (simp_all add: merge_arrays_ok_def)
  have e: "length ind = m" "\<And>w. w < m \<Longrightarrow> 0 \<le> ind ! w" "inj_on ?i {..<m}" "\<And>w. w < m \<Longrightarrow> row_at (mat_rows mat) (?i w) \<noteq> None"
    using ex by (auto simp: rows_exist_def)
  have val: "?A ! a ! b = (if a = b then 0 else weightSum (mat_rows mat) (mat_wburied mat) (mat_nburied mat) (?i (min a b)) (?i (max a b)))"
    if "a < m" "b < m" for a b
    using fillRowAddMatrix_val [OF sq that] that e(1) by (simp add: matWeightSum_def min_def max_def)
  have "small_weights ?A m"
    unfolding matWeightSum_def using w e(1) by (intro fill_small_weights [OF sq]) (simp_all add: merge_weights_ok_def)
  then obtain st where st: "minimalSpanningTree (arr_Q arr) (arr_st arr) m ?A = Some st" "is_mst ?A m st"
    using hq.prim_correct [OF _ m, of "arr_st arr" ?A "arr_Q arr"] arr unfolding minimalSpanningTree_def by (auto simp: merge_arrays_ok_def)
  have t: "full_tree m st" using st(2) by (simp add: is_mst_def full_tree_def)
  have md: "merge_data m st ind ?A mat"
    unfolding merge_data_def
  proof (intro conjI allI impI)
    show "full_tree m st" "m \<le> length ind" "inj_on ?i {..<m}" using t e by simp_all
  next
    fix u s assume us: "u < m" "s < m" "u \<noteq> s"
    have "?A ! s ! u = buriedSum (mat_wburied mat) (mat_nburied mat) (?i (min s u)) (?i (max s u))
        + int (length (merge_rows (init_row (mat_rows mat) (?i (min s u))) (init_row (mat_rows mat) (?i (max s u)))))"
      using val [OF us(2,1)] us e(4) weightSum_val by (simp add: min_def max_def)
    then show "?A ! s ! u = buriedSum (mat_wburied mat) (mat_nburied mat) (?i s) (?i u)
        + int (length (merge_rows (init_row (mat_rows mat) (?i s)) (init_row (mat_rows mat) (?i u))))"
      using buriedSum_commute merge_rows_commute by (cases "s \<le> u") (simp_all add: min_def max_def)
  qed (use e in auto)
  have "hmax st < height st ! 0 + (MERGE_LEVEL_MAX + 1)" using height_bound [OF t] m by simp
  moreover have pl: "0 + length (preorder (MERGE_LEVEL_MAX + 1) st 0) \<le> length (arr_history arr)"
    using preorder_length [OF t m(1), of "MERGE_LEVEL_MAX + 1"] m hl by (simp del: preorder.simps)
  ultimately obtain m1 where m1: "addFatherToSons ind ?A st (arr_history arr) mat
        = Some (if sons_of st 0 = [] then - 1 else int (length (preorder (MERGE_LEVEL_MAX + 1) st 0)) - 1,
                write_lines (arr_history arr) 0 (map (history_line st ind) (preorder (MERGE_LEVEL_MAX + 1) st 0)), m1)"
      "matrix_ok m1" "rest_frame mat m1" "merged (mat_rows mat) ?i (par st) ({} \<union> (sub m st 0 - {0})) (mat_rows m1)"
    using addFatherToSonsRec_ok [OF md m(1) _ ok rest_frame_refl merged_empty, of "MERGE_LEVEL_MAX + 1" 0 "arr_history arr"]
    unfolding addFatherToSons_def by auto
  have mg: "merged (mat_rows mat) ?i (par st) ({..<m} - {0}) (mat_rows m1)" using m1(4) sub_root [OF t] by simp
  have tk: "take (nat ((if sons_of st 0 = [] then - 1 else int (length (preorder (MERGE_LEVEL_MAX + 1) st 0)) - 1) + 1))
        (write_lines (arr_history arr) 0 (map (history_line st ind) (preorder (MERGE_LEVEL_MAX + 1) st 0)))
      = map (history_line st ind) (preorder (MERGE_LEVEL_MAX + 1) st 0)"
    by (simp add: write_lines_def)
  have "?i 0 \<notin> ?i ` ({..<m} - {0})" using e(3) m by (auto simp: inj_on_def)
  then obtain r where r: "row_at (mat_rows m1) (?i 0) = Some r" using mg e(4) [OF m(1)] by (auto simp: merged_def)
  obtain m2 where m2: "removeRowAndUpdate m1 (ind ! 0) = Some m2" "matrix_ok (destroyRow m2 (ind ! 0))"
      "rest_frame m1 (destroyRow m2 (ind ! 0))" "mat_rows (destroyRow m2 (ind ! 0)) = (mat_rows m1)[?i 0 := None]"
    using destroyRow_ok [OF m1(2) r] e(2) [OF m(1)] by auto
  have "combined (mat_rows mat) ?i (par st) {..<m} 0 (mat_rows (destroyRow m2 (ind ! 0)))"
    unfolding m2(4) using m by (intro merged_destroy [OF mg e(3)]) simp
  moreover have "useMinimalSpanningTree arr rep mat m ind
      = Some (rep_add rep (rev (map (history_line st ind) (preorder (MERGE_LEVEL_MAX + 1) st 0))), destroyRow m2 (ind ! 0))"
    unfolding useMinimalSpanningTree_def MSTWithA_def st(1) bind.bind_lunit m1(1) prod.case tk report_lines_val [OF rep] m2(1) ..
  ultimately show ?thesis using m2(2) t rest_frame_trans [OF m1(3) m2(3)] by blast
qed

lemma findBestIndex_loop_val:
  "set is \<subseteq> {..<n} \<Longrightarrow> imin = - 1 \<and> is \<noteq> [] \<or> 0 \<le> imin \<and> imin < int n \<Longrightarrow>
     0 \<le> findBestIndex_loop A m is imin wmin \<and> findBestIndex_loop A m is imin wmin < int n"
proof (induction "is" arbitrary: imin wmin)
  case (Cons i "is")
  have n: "0 \<le> int i \<and> int i < int n" "set is \<subseteq> {..<n}" using Cons.prems(1) by auto
  show ?case
  proof (cases "imin = - 1 \<or> (\<Sum>j \<leftarrow> [0..<m]. A ! i ! j) < wmin")
    case True
    then show ?thesis using Cons.IH [OF n(2)] n(1) by (simp add: Let_def)
  next
    case False
    then show ?thesis using Cons.IH [OF n(2), of imin] Cons.prems(2) by (simp add: Let_def)
  qed
qed simp

lemma findBestIndex_val:
  assumes "0 < m" "m \<le> MERGE_LEVEL_MAX"
  shows "\<exists>i < m. findBestIndex A mat m ind = Some (int i)"
proof (cases "m = 2")
  case False
  let ?r = "findBestIndex_loop (matWeightSum mat ind A m) m [0..<m] (- 1) 0"
  have "0 \<le> ?r \<and> ?r < int m" using assms(1) by (intro findBestIndex_loop_val) auto
  then have "nat ?r < m" "?r = int (nat ?r)" by auto
  then show ?thesis using False assms(2) by (metis findBestIndex_def)
qed (use assms in \<open>auto simp: findBestIndex_def\<close>)

lemma addPivot_loop_ok:
  assumes ex: "rows_exist m ind mat0" and i: "i < m"
    and "matrix_ok mat" "rest_frame mat0 mat" "merged (mat_rows mat0) (\<lambda>w. nat (ind ! w)) (\<lambda>_. i) D (mat_rows mat)"
    and "D \<subseteq> {..<m} - {i}" "set ks \<subseteq> {..<m}" "distinct ks" "D \<inter> set ks = {}"
  shows "\<exists>mat'. addPivot_loop mat ind i ks = Some mat' \<and> matrix_ok mat' \<and> rest_frame mat0 mat'
      \<and> merged (mat_rows mat0) (\<lambda>w. nat (ind ! w)) (\<lambda>_. i) (D \<union> (set ks - {i})) (mat_rows mat')"
  using assms(3-9)
proof (induction ks arbitrary: mat D)
  case Nil
  then show ?case by simp
next
  case (Cons k ks)
  let ?i = "\<lambda>w. nat (ind ! w)" and ?r = "\<lambda>w. init_row (mat_rows mat0) (nat (ind ! w))"
  show ?case
  proof (cases "k = i")
    case True
    then have e: "D \<union> (set (k # ks) - {i}) = D \<union> (set ks - {i})" by auto
    show ?thesis unfolding e using True Cons by simp
  next
    case False
    have k: "k < m" "k \<notin> D" "i \<notin> D" using Cons.prems by auto
    have e: "\<And>w. w < m \<Longrightarrow> 0 \<le> ind ! w" "inj_on ?i {..<m}" "\<And>w. w < m \<Longrightarrow> row_at (mat_rows mat0) (?i w) = Some (?r w)"
      using ex by (auto simp: rows_exist_def init_row_def split: option.splits)
    have row: "row_at (mat_rows mat) (?i w) = Some (?r w)" if "w < m" "w \<notin> D" for w
    proof -
      have "?i w \<notin> ?i ` D" using that Cons.prems(4) e(2) by (auto simp: inj_on_def)
      then show ?thesis using Cons.prems(3) e(3) [OF that(1)] by (simp add: merged_def)
    qed
    have ne: "?i k \<noteq> ?i i" using e(2) k(1) i False by (auto simp: inj_on_def)
    obtain m1 where m1: "addRowsAndUpdate mat (ind ! k) (ind ! i) (- 1) = Some m1" "matrix_ok m1" "rest_frame mat m1"
        "mat_rows m1 = (mat_rows mat)[?i k := Some (merge_rows (?r k) (?r i))]"
      using addRowsAndUpdate_ok [OF Cons.prems(1) ne row [OF k(1,2)] row [OF i k(3)], of "- 1"] e(1) [OF k(1)] e(1) [OF i] by auto
    have "merged (mat_rows mat0) ?i (\<lambda>_. i) (insert k D) (mat_rows m1)"
      unfolding m1(4) using merged_insert [OF Cons.prems(3) e(2) _ k(2) row_at_less [OF row [OF k(1,2)]]] Cons.prems(4) k(1) by auto
    then obtain m2 where m2: "addPivot_loop m1 ind i ks = Some m2" "matrix_ok m2" "rest_frame mat0 m2"
        "merged (mat_rows mat0) ?i (\<lambda>_. i) (insert k D \<union> (set ks - {i})) (mat_rows m2)"
      using Cons.IH [OF m1(2) rest_frame_trans [OF Cons.prems(2) m1(3)], of "insert k D"] Cons.prems(4-7) k False by auto
    have "insert k D \<union> (set ks - {i}) = D \<union> (set (k # ks) - {i})" using False by auto
    then show ?thesis using m1(1) m2 False by simp
  qed
qed

lemma tryAllCombinations_ok:
  assumes ok: "matrix_ok mat" and m: "0 < m" "m \<le> MERGE_LEVEL_MAX" and ex: "rows_exist m ind mat"
    and rep: "rep_type rep = 0 \<or> rep_type rep = 2"
  shows "\<exists>mat' i. i < m \<and> tryAllCombinations A rep mat m ind = Some (rep_add rep [put_in_front ind i], mat')
      \<and> matrix_ok mat' \<and> rest_frame mat mat'
      \<and> combined (mat_rows mat) (\<lambda>w. nat (ind ! w)) (\<lambda>_. i) {..<m} i (mat_rows mat')"
proof -
  let ?i = "\<lambda>w. nat (ind ! w)"
  obtain i where i: "i < m" "findBestIndex A mat m ind = Some (int i)" using findBestIndex_val [OF m] by blast
  have e: "length ind = m" "0 \<le> ind ! i" "inj_on ?i {..<m}" "row_at (mat_rows mat) (?i i) \<noteq> None" using ex i(1) by (auto simp: rows_exist_def)
  obtain m1 where m1: "addPivot_loop mat ind i [0..<m] = Some m1" "matrix_ok m1" "rest_frame mat m1"
      "merged (mat_rows mat) ?i (\<lambda>_. i) ({} \<union> (set [0..<m] - {i})) (mat_rows m1)"
    using addPivot_loop_ok [OF ex i(1) ok rest_frame_refl merged_empty, of "[0..<m]"] by (auto simp: atLeast0LessThan)
  have "{} \<union> (set [0..<m] - {i}) = {..<m} - {i}" by auto
  then have mg: "merged (mat_rows mat) ?i (\<lambda>_. i) ({..<m} - {i}) (mat_rows m1)" using m1(4) by simp
  have "?i i \<notin> ?i ` ({..<m} - {i})" using e(3) i(1) by (auto simp: inj_on_def)
  then obtain r where r: "row_at (mat_rows m1) (?i i) = Some r" using mg e(4) by (auto simp: merged_def)
  obtain m2 where m2: "removeRowAndUpdate m1 (ind ! i) = Some m2" "matrix_ok (destroyRow m2 (ind ! i))"
      "rest_frame m1 (destroyRow m2 (ind ! i))" "mat_rows (destroyRow m2 (ind ! i)) = (mat_rows m1)[?i i := None]"
    using destroyRow_ok [OF m1(2) r] e(2) by auto
  have "combined (mat_rows mat) ?i (\<lambda>_. i) {..<m} i (mat_rows (destroyRow m2 (ind ! i)))"
    unfolding m2(4) using i(1) by (intro merged_destroy [OF mg e(3)]) simp
  moreover have "length (put_in_front ind i) = m" "put_in_front ind i ! 0 = ind ! i" using i(1) e(1) by (simp_all add: put_in_front_def)
  then have "tryAllCombinations A rep mat m ind = Some (rep_add rep [put_in_front ind i], destroyRow m2 (ind ! i))"
    using i m1(1) m2(1) reportn_val [OF rep, of m "put_in_front ind i"] by (simp add: tryAllCombinations_def Let_def)
  ultimately show ?thesis using i(1) m2(2) rest_frame_trans [OF m1(3) m2(3)] by blast
qed

text \<open>When all rows of a merge contain a column, no row contains it afterwards.\<close>

lemma combined_no_col:
  assumes cb: "combined rows0 idx p V c rows" and p: "\<forall>w \<in> V - {c}. p w \<in> V"
    and V: "idx ` V = rows_with (row_sets rows0) j" and rok: "\<And>i r. row_at rows0 i = Some r \<Longrightarrow> row_ok r"
  shows "rows_with (row_sets rows) j = {}"
proof (rule ccontr)
  assume "rows_with (row_sets rows) j \<noteq> {}"
  then obtain i r where i: "row_at rows i = Some r" "int j \<in> set r" by (auto simp: rows_with_def row_sets_def split: option.splits)
  have init: "int j \<in> set (init_row rows0 (idx w)) \<and> row_ok (init_row rows0 (idx w))" if "w \<in> V" for w
  proof -
    have "idx w \<in> rows_with (row_sets rows0) j" using that V by auto
    then show ?thesis using rok by (auto simp: rows_with_def row_sets_def init_row_def split: option.splits)
  qed
  show False
  proof (cases "i \<in> idx ` V")
    case True
    then obtain w where w: "w \<in> V" "i = idx w" by blast
    show False
    proof (cases "w = c")
      case False
      then have "r = merge_rows (init_row rows0 (idx w)) (init_row rows0 (idx (p w)))" "p w \<in> V"
        using cb p w i(1) by (auto simp: combined_def)
      then show False using set_merge_ok init [OF w(1)] init [of "p w"] i(2) by blast
    qed (use cb w i in \<open>simp add: combined_def\<close>)
  next
    case False
    then have "row_at rows0 i = Some r" using cb i(1) by (simp add: combined_def)
    then have "i \<in> rows_with (row_sets rows0) j" using i(2) by (simp add: rows_with_def row_sets_def)
    then show False using False V by blast
  qed
qed

end
