(* ===== verification/Merge_history.thy ===== *)
theory Merge_history
  imports Merge_mono
begin

text \<open>
  The history of the merges.  A line of the history file is given a meaning on the rows alone,
  \<open>apply_line\<close>: the first number is the row to add to the others; it is destroyed unless it was
  written as \<open>-(i+1)\<close>.  \<open>doAllAdds\<close> of \<open>src/filter/merge_mono.c\<close>, by which \<open>resume\<close> replays a line, is
  shown to implement it, and the lines that a merge reports are shown to describe what the merge did.
\<close>

section \<open>Replaying lines\<close>

text \<open>A line of more than \<open>MERGE_LEVEL_MAX\<close> numbers does not fit in the array \<open>ind\<close>.\<close>

fun doAllAdds_loop :: "filter_matrix \<Rightarrow> int \<Rightarrow> int list \<Rightarrow> filter_matrix option" where
  "doAllAdds_loop mat i0 [] = Some mat"
| "doAllAdds_loop mat i0 (i # is) = do { mat \<leftarrow> addRowsAndUpdate mat i i0 (- 1); doAllAdds_loop mat i0 is }"

definition doAllAdds :: "report_t \<Rightarrow> filter_matrix \<Rightarrow> int list \<Rightarrow> (report_t \<times> filter_matrix) option" where
  "doAllAdds rep mat ind =
     (case ind of [] \<Rightarrow> None
      | h # is \<Rightarrow>
        let i0 = (if h < 0 then - h - 1 else h) in
        if length ind > MERGE_LEVEL_MAX then None
        else do { mat \<leftarrow> doAllAdds_loop mat i0 is;
             rep \<leftarrow> reportn rep ind (length ind);
             if h \<ge> 0
             then do { mat \<leftarrow> removeRowAndUpdate mat i0;
                       let mat = destroyRow mat i0;
                       Some (rep, mat \<lparr> mat_rem_nrows := mat_rem_nrows mat - 1 \<rparr>) }
             else Some (rep, mat) })"

fun resume_lines :: "report_t \<Rightarrow> filter_matrix \<Rightarrow> int list list \<Rightarrow> (report_t \<times> filter_matrix) option" where
  "resume_lines rep mat [] = Some (rep, mat)"
| "resume_lines rep mat (l # ls) = do { (rep, mat) \<leftarrow> doAllAdds rep mat l; resume_lines rep mat ls }"

section \<open>The meaning of a line\<close>

fun add_to_rows :: "row_table \<Rightarrow> nat \<Rightarrow> int list \<Rightarrow> row_table option" where
  "add_to_rows rows i0 [] = Some rows"
| "add_to_rows rows i0 (i # is) =
     (if 0 \<le> i \<and> nat i \<noteq> i0
      then do { r \<leftarrow> row_at rows (nat i);
                r0 \<leftarrow> row_at rows i0;
                add_to_rows (rows[nat i := Some (merge_rows r r0)]) i0 is }
      else None)"

definition apply_line :: "row_table \<Rightarrow> int list \<Rightarrow> row_table option" where
  "apply_line rows line =
     (case line of [] \<Rightarrow> None
      | h # is \<Rightarrow>
        let i0 = nat (if h < 0 then - h - 1 else h) in
        if length line > MERGE_LEVEL_MAX then None
        else do { rows \<leftarrow> add_to_rows rows i0 is;
                  if h \<ge> 0 then do { _ \<leftarrow> row_at rows i0; Some (rows[i0 := None]) } else Some rows })"

fun apply_lines :: "row_table \<Rightarrow> int list list \<Rightarrow> row_table option" where
  "apply_lines rows [] = Some rows"
| "apply_lines rows (l # ls) = do { rows \<leftarrow> apply_line rows l; apply_lines rows ls }"

lemma apply_lines_append: "apply_lines rows (ls @ ms) = do { rows \<leftarrow> apply_lines rows ls; apply_lines rows ms }"
  by (induction ls arbitrary: rows) (auto split: Option.bind_splits)

lemma apply_lines_snoc: "apply_lines rows (ls @ [l]) = do { rows \<leftarrow> apply_lines rows ls; apply_line rows l }"
  unfolding apply_lines_append by (cases "apply_lines rows ls") (auto split: Option.bind_splits)

section \<open>The replay implements the meaning\<close>

lemma doAllAdds_loop_refines:
  assumes "matrix_ok mat" "add_to_rows (mat_rows mat) i0 is = Some rows"
  shows "\<exists>mat'. doAllAdds_loop mat (int i0) is = Some mat' \<and> matrix_ok mat' \<and> rest_frame mat mat' \<and> mat_rows mat' = rows"
  using assms
proof (induction "is" arbitrary: mat)
  case Nil
  then show ?case by simp
next
  case (Cons i "is")
  obtain r r0 where r: "0 \<le> i" "nat i \<noteq> i0" "row_at (mat_rows mat) (nat i) = Some r" "row_at (mat_rows mat) i0 = Some r0"
      "add_to_rows ((mat_rows mat)[nat i := Some (merge_rows r r0)]) i0 is = Some rows"
    using Cons.prems(2) by (auto simp: bind_eq_Some_conv split: if_splits)
  obtain m1 where m1: "addRowsAndUpdate mat i (int i0) (- 1) = Some m1" "matrix_ok m1" "rest_frame mat m1"
      "mat_rows m1 = (mat_rows mat)[nat i := Some (merge_rows r r0)]"
    using addRowsAndUpdate_ok [OF Cons.prems(1) r(2-4), of "- 1"] r(1) by auto
  obtain m2 where "doAllAdds_loop m1 (int i0) is = Some m2" "matrix_ok m2" "rest_frame m1 m2" "mat_rows m2 = rows"
    using Cons.IH [OF m1(2)] r(5) m1(4) by auto
  then show ?case using m1(1) rest_frame_trans [OF m1(3)] by auto
qed

lemma doAllAdds_refines:
  assumes ok: "matrix_ok mat" and l: "apply_line (mat_rows mat) line = Some rows" and rep: "rep_type rep = 0 \<or> rep_type rep = 2"
  shows "\<exists>mat'. doAllAdds rep mat line = Some (rep_add rep [line], mat') \<and> matrix_ok mat' \<and> mat_rows mat' = rows"
proof -
  obtain h "is" where line: "line = h # is" using l by (cases line) (auto simp: apply_line_def)
  let ?i0 = "nat (if h < 0 then - h - 1 else h)"
  have i0: "int ?i0 = (if h < 0 then - h - 1 else h)" by auto
  have len: "\<not> length line > MERGE_LEVEL_MAX" using l by (auto simp: apply_line_def line Let_def split: if_splits)
  obtain rows1 where r1: "add_to_rows (mat_rows mat) ?i0 is = Some rows1"
      "(if h \<ge> 0 then do { _ \<leftarrow> row_at rows1 ?i0; Some (rows1[?i0 := None]) } else Some rows1) = Some rows"
    using l len by (auto simp: apply_line_def line Let_def bind_eq_Some_conv simp del: not_less)
  obtain m1 where m1: "doAllAdds_loop mat (int ?i0) is = Some m1" "matrix_ok m1" "mat_rows m1 = rows1"
    using doAllAdds_loop_refines [OF ok r1(1)] by blast
  note rp = reportn_val [OF rep le_refl, of line]
  show ?thesis
  proof (cases "h \<ge> 0")
    case False
    then have "doAllAdds rep mat line = Some (rep_add rep [line], m1)"
      using m1(1) rp len unfolding line doAllAdds_def i0 by (simp add: Let_def)
    then show ?thesis using m1 r1(2) False by auto
  next
    case True
    then obtain r where r: "row_at (mat_rows m1) (nat h) = Some r" "rows = rows1[nat h := None]"
      using r1(2) m1(3) by (cases "row_at (mat_rows m1) (nat h)") auto
    obtain m2 where m2: "removeRowAndUpdate m1 h = Some m2" "matrix_ok (destroyRow m2 h)" "mat_rows (destroyRow m2 h) = (mat_rows m1)[nat h := None]"
      using destroyRow_ok [OF m1(2) r(1)] True by auto
    let ?m = "destroyRow m2 h \<lparr> mat_rem_nrows := mat_rem_nrows (destroyRow m2 h) - 1 \<rparr>"
    have "doAllAdds rep mat line = Some (rep_add rep [line], ?m)"
      using m1(1) m2(1) rp len True unfolding line doAllAdds_def i0 by (simp add: Let_def)
    moreover have "matrix_ok ?m" using m2(2) mat_ok_cong [OF same_cols_simps(2)] by (simp add: matrix_ok_def)
    ultimately show ?thesis using m2(3) m1(3) r(2) by auto
  qed
qed

lemma resume_refines:
  assumes "matrix_ok mat" "apply_lines (mat_rows mat) ls = Some rows" "rep_type rep = 0 \<or> rep_type rep = 2"
  shows "\<exists>mat'. resume_lines rep mat ls = Some (rep_add rep ls, mat') \<and> matrix_ok mat' \<and> mat_rows mat' = rows"
  using assms
proof (induction ls arbitrary: rep mat)
  case Nil
  then show ?case by (auto simp: rep_add_def)
next
  case (Cons l ls)
  obtain rows1 where r1: "apply_line (mat_rows mat) l = Some rows1" "apply_lines rows1 ls = Some rows"
    using Cons.prems(2) by (auto simp: bind_eq_Some_conv)
  obtain m1 where m1: "doAllAdds rep mat l = Some (rep_add rep [l], m1)" "matrix_ok m1" "mat_rows m1 = rows1"
    using doAllAdds_refines [OF Cons.prems(1) r1(1) Cons.prems(3)] by blast
  obtain m2 where "resume_lines (rep_add rep [l]) m1 ls = Some (rep_add (rep_add rep [l]) ls, m2)" "matrix_ok m2" "mat_rows m2 = rows"
    using Cons.IH [OF m1(2), of "rep_add rep [l]"] r1(2) m1(3) Cons.prems(3) by auto
  then show ?case using m1(1) by (auto simp: rep_add_add)
qed

section \<open>The lines of a merge\<close>

lemma rows_exist_init:
  assumes "rows_exist m ind mat"
  shows "w < m \<Longrightarrow> 0 \<le> ind ! w" "inj_on (\<lambda>w. nat (ind ! w)) {..<m}"
    "w < m \<Longrightarrow> row_at (mat_rows mat) (nat (ind ! w)) = Some (init_row (mat_rows mat) (nat (ind ! w)))"
  using assms by (auto simp: rows_exist_def init_row_def split: option.splits)

lemma merged_old_row:
  assumes mg: "merged rows0 idx p D rows" and inj: "inj_on idx V" "D \<subseteq> V" "w \<in> V" "w \<notin> D"
  shows "row_at rows (idx w) = row_at rows0 (idx w)"
proof -
  have "idx w \<notin> idx ` D" using inj by (auto simp: inj_on_def)
  then show ?thesis using mg by (simp add: merged_def)
qed

lemma add_to_rows_merged:
  assumes ex: "rows_exist m ind mat" and u: "u < m" "u \<notin> D" "u \<notin> set ss"
    and "merged (mat_rows mat) (\<lambda>w. nat (ind ! w)) p D rows"
    and "D \<subseteq> {..<m}" "set ss \<subseteq> {..<m}" "distinct ss" "D \<inter> set ss = {}" "\<forall>s \<in> set ss. p s = u"
  shows "\<exists>rows'. add_to_rows rows (nat (ind ! u)) (map ((!) ind) ss) = Some rows'
      \<and> merged (mat_rows mat) (\<lambda>w. nat (ind ! w)) p (D \<union> set ss) rows'"
  using assms(3-10)
proof (induction ss arbitrary: rows D)
  case Nil
  then show ?case by simp
next
  case (Cons s ss)
  let ?i = "\<lambda>w. nat (ind ! w)" and ?r = "\<lambda>w. init_row (mat_rows mat) (nat (ind ! w))"
  note e = rows_exist_init [OF ex]
  have row: "row_at rows (?i w) = Some (?r w)" if "w < m" "w \<notin> D" for w
    using merged_old_row [OF Cons.prems(3) e(2) Cons.prems(4)] e(3) that by simp
  have s: "s < m" "s \<notin> D" "s \<noteq> u" "p s = u" using Cons.prems by auto
  have ne: "?i s \<noteq> ?i u" using e(2) s u by (auto simp: inj_on_def)
  let ?rows = "rows[?i s := Some (merge_rows (?r s) (?r u))]"
  have "merged (mat_rows mat) ?i p (insert s D) ?rows"
    using merged_insert [OF Cons.prems(3) e(2) _ s(2) row_at_less [OF row [OF s(1,2)]]] Cons.prems(4) s by auto
  then obtain rows' where "add_to_rows ?rows (?i u) (map ((!) ind) ss) = Some rows'"
      "merged (mat_rows mat) ?i p (insert s D \<union> set ss) rows'"
    using Cons.IH [of "insert s D" ?rows] Cons.prems s by auto
  then show ?case using row [OF s(1,2)] row [OF u(1) Cons.prems(1)] e(1) [OF s(1)] ne by simp
qed

text \<open>In the preorder, a node comes after its father.\<close>

fun fathers_first :: "prim_state \<Rightarrow> nat set \<Rightarrow> nat list \<Rightarrow> bool" where
  "fathers_first st X [] = True"
| "fathers_first st X (u # us) \<longleftrightarrow> par st u \<in> X \<and> fathers_first st (insert u X) us"

lemma fathers_first_append: "fathers_first st X (us @ vs) \<longleftrightarrow> fathers_first st X us \<and> fathers_first st (X \<union> set us) vs"
  by (induction us arbitrary: X) auto

lemma fathers_first_mono: "fathers_first st X us \<Longrightarrow> X \<subseteq> Y \<Longrightarrow> fathers_first st Y us"
proof (induction us arbitrary: X Y)
  case (Cons u us)
  then show ?case using Cons.IH [of "insert u X" "insert u Y"] by auto
qed simp

lemma preorder_fathers_first:
  assumes t: "full_tree m st"
  shows "u < m \<Longrightarrow> par st u \<in> X \<Longrightarrow> fathers_first st X (preorder n st u)"
proof (induction n arbitrary: u X)
  case (Suc n)
  have "fathers_first st Y (concat (map (preorder n st) ss))" if "set ss \<subseteq> set (sons_of st u)" "u \<in> Y" for ss Y
    using that
  proof (induction ss arbitrary: Y)
    case (Cons s ss)
    then have "s < m" "par st s = u" using full_treeD(4) [OF t Suc.prems(1)] by auto
    then show ?case using Suc.IH [of s Y] Cons by (auto simp: fathers_first_append)
  qed simp
  then show ?case using Suc.prems by auto
qed simp

lemma preorder_complete:
  assumes t: "full_tree m st"
  shows "u < m \<Longrightarrow> hmax st < height st ! u + n \<Longrightarrow> desc m st u w \<Longrightarrow> sons_of st w \<noteq> [] \<Longrightarrow> w \<in> set (preorder n st u)"
proof (induction n arbitrary: u)
  case 0
  then show ?case using full_treeD(6) [OF t, of u] by simp
next
  case (Suc n)
  consider "w = u" | s where "s \<in> set (sons_of st u)" "desc m st s w" using desc_split [OF Suc.prems(3) t] by blast
  then show ?case
  proof cases
    case 1 then show ?thesis using Suc.prems(4) by simp
  next
    case (2 s)
    then have s: "0 < s" "s < m" "par st s = u" using full_treeD(4) [OF t Suc.prems(1)] by auto
    then have "hmax st < height st ! s + n" using full_treeD(3) [OF t s(1,2)] Suc.prems(2) by simp
    then have "w \<in> set (preorder n st s)" using Suc.IH [OF s(2)] 2(2) Suc.prems(4) by simp
    then show ?thesis using 2(1) by auto
  qed
qed

lemma length_others:
  assumes "distinct ss" "set ss \<subseteq> {..<m}" "u < m" "u \<notin> set ss" "m \<le> MERGE_LEVEL_MAX"
  shows "Suc (length ss) \<le> MERGE_LEVEL_MAX"
proof -
  have "length ss = card (set ss)" using assms(1) by (simp add: distinct_card)
  moreover have "card (set ss) \<le> card ({..<m} - {u})" using assms(2,4) by (intro card_mono) auto
  ultimately show ?thesis using assms(3,5) by simp
qed

text \<open>A line for a node that is not the root keeps the row of the node.\<close>

lemma apply_inner_line:
  assumes ex: "rows_exist m ind mat" and mm: "m \<le> MERGE_LEVEL_MAX" and u: "u < m" "u \<notin> D"
    and mg: "merged (mat_rows mat) (\<lambda>w. nat (ind ! w)) p D rows" and D: "D \<subseteq> {..<m}"
    and ss: "distinct ss" "set ss \<subseteq> {..<m} - {u}" "D \<inter> set ss = {}" "\<forall>s \<in> set ss. p s = u"
  shows "\<exists>rows'. apply_line rows (- (ind ! u + 1) # map ((!) ind) ss) = Some rows'
      \<and> merged (mat_rows mat) (\<lambda>w. nat (ind ! w)) p (D \<union> set ss) rows'"
proof -
  have "set ss \<subseteq> {..<m}" "u \<notin> set ss" using ss(2) by auto
  then obtain rows' where "add_to_rows rows (nat (ind ! u)) (map ((!) ind) ss) = Some rows'"
      "merged (mat_rows mat) (\<lambda>w. nat (ind ! w)) p (D \<union> set ss) rows'" "\<not> MERGE_LEVEL_MAX < Suc (length ss)"
    using add_to_rows_merged [OF ex u _ mg D _ ss(1,3,4)] length_others [OF ss(1) _ u(1) _ mm] by (metis not_le)
  moreover have "0 \<le> ind ! u" using rows_exist_init(1) [OF ex u(1)] .
  ultimately show ?thesis by (simp add: apply_line_def Let_def)
qed

text \<open>The last line destroys its first row.\<close>

lemma apply_last_line:
  assumes ex: "rows_exist m ind mat" and mm: "m \<le> MERGE_LEVEL_MAX" and u: "u < m" "u \<notin> D"
    and mg: "merged (mat_rows mat) (\<lambda>w. nat (ind ! w)) p D rows"
    and ss: "distinct ss" "D \<inter> set ss = {}" "\<forall>s \<in> set ss. p s = u" "D \<union> set ss = {..<m} - {u}"
  shows "\<exists>rows'. apply_line rows (ind ! u # map ((!) ind) ss) = Some rows'
      \<and> combined (mat_rows mat) (\<lambda>w. nat (ind ! w)) p {..<m} u rows'"
proof -
  let ?i = "\<lambda>w. nat (ind ! w)"
  note e = rows_exist_init [OF ex]
  have sub: "D \<subseteq> {..<m}" "set ss \<subseteq> {..<m}" "u \<notin> set ss" using ss(4) by auto
  obtain rows1 where r1: "add_to_rows rows (?i u) (map ((!) ind) ss) = Some rows1" "merged (mat_rows mat) ?i p ({..<m} - {u}) rows1"
    using add_to_rows_merged [OF ex u sub(3) mg sub(1,2) ss(1-3)] unfolding ss(4) by blast
  have "row_at rows1 (?i u) \<noteq> None" using merged_old_row [OF r1(2) e(2), of u] e(3) [OF u(1)] u(1) by auto
  then obtain r where "row_at rows1 (?i u) = Some r" by auto
  moreover have "\<not> MERGE_LEVEL_MAX < Suc (length ss)" using length_others [OF ss(1) sub(2) u(1) sub(3) mm] by simp
  moreover have "\<not> ind ! u < 0" using e(1) [OF u(1)] by simp
  ultimately have "apply_line rows (ind ! u # map ((!) ind) ss) = Some (rows1[?i u := None])"
    using r1(1) by (simp add: apply_line_def Let_def)
  moreover have "combined (mat_rows mat) ?i p {..<m} u (rows1[?i u := None])" using merged_destroy [OF r1(2) e(2)] u(1) by simp
  ultimately show ?thesis by blast
qed

lemma combined_unique:
  assumes "combined rows0 idx p V c rs" "combined rows0 idx p V c rs'" "length rs = length rs'"
  shows "rs = rs'"
proof (rule nth_equalityI)
  fix i assume i: "i < length rs"
  have "row_at rs i = row_at rs' i"
  proof (cases "i \<in> idx ` V")
    case True
    then obtain w where "w \<in> V" "i = idx w" by blast
    then show ?thesis using assms(1,2) unfolding combined_def by (cases "w = c") auto
  next
    case False
    then show ?thesis using assms(1,2) unfolding combined_def by simp
  qed
  then show "rs ! i = rs' ! i" using i assms(3) by (simp add: row_at_def)
qed (rule assms(3))

lemma apply_inner_lines:
  assumes ex: "rows_exist m ind mat" and mm: "m \<le> MERGE_LEVEL_MAX" and t: "full_tree m st"
    and "fathers_first st X vs" "distinct vs" "0 \<notin> set vs" "set vs \<subseteq> {..<m}" "X \<inter> set vs = {}"
  shows "\<exists>rows. apply_lines (mat_rows mat) (rev (map (history_line st ind) vs)) = Some rows
      \<and> merged (mat_rows mat) (\<lambda>w. nat (ind ! w)) (par st) {w. 0 < w \<and> w < m \<and> par st w \<in> set vs} rows"
  using assms(4-8)
proof (induction vs arbitrary: X)
  case Nil
  then show ?case using merged_empty by simp
next
  case (Cons u vs)
  let ?D = "\<lambda>us. {w. 0 < w \<and> w < m \<and> par st w \<in> set us}"
  have u: "u < m" "0 < u" "par st u \<in> X" "u \<notin> set vs" using Cons.prems by auto
  obtain rows where r: "apply_lines (mat_rows mat) (rev (map (history_line st ind) vs)) = Some rows"
      "merged (mat_rows mat) (\<lambda>w. nat (ind ! w)) (par st) (?D vs) rows"
    using Cons.IH [of "insert u X"] Cons.prems by auto
  have ss: "distinct (sons_of st u)" "set (sons_of st u) = {w. 0 < w \<and> w < m \<and> par st w = u}" using full_treeD(4) [OF t u(1)] by auto
  have "par st u \<noteq> u" using full_treeD(3) [OF t u(2,1)] by auto
  then have un: "u \<notin> ?D vs" "set (sons_of st u) \<subseteq> {..<m} - {u}" using u Cons.prems(5) ss(2) by auto
  have neg: "int u \<noteq> father st ! u" using \<open>par st u \<noteq> u\<close> full_treeD(3) [OF t u(2,1)] by (auto simp: par_def)
  have "?D vs \<subseteq> {..<m}" "?D vs \<inter> set (sons_of st u) = {}" "\<forall>s \<in> set (sons_of st u). par st s = u" using ss(2) u(4) by auto
  then obtain rows' where "apply_line rows (- (ind ! u + 1) # map ((!) ind) (sons_of st u)) = Some rows'"
      "merged (mat_rows mat) (\<lambda>w. nat (ind ! w)) (par st) (?D vs \<union> set (sons_of st u)) rows'"
    using apply_inner_line [OF ex mm u(1) un(1) r(2) _ ss(1) un(2)] by blast
  moreover have "?D vs \<union> set (sons_of st u) = ?D (u # vs)" using ss(2) by auto
  moreover have "history_line st ind u = - (ind ! u + 1) # map ((!) ind) (sons_of st u)" using neg by (simp add: history_line_def)
  ultimately show ?case using r(1) by (simp add: apply_lines_snoc)
qed

text \<open>The nodes that have sons, in preorder without the root, cover all fathers.\<close>

lemma preorder_root:
  assumes t: "full_tree m st" and m: "2 \<le> m" "m \<le> MERGE_LEVEL_MAX"
  obtains us where "preorder (MERGE_LEVEL_MAX + 1) st 0 = 0 # us" "fathers_first st {0} us" "distinct us" "0 \<notin> set us" "set us \<subseteq> {..<m}"
    "\<And>w. 0 < w \<Longrightarrow> w < m \<Longrightarrow> par st w \<noteq> 0 \<Longrightarrow> par st w \<in> set us"
proof -
  have m0: "0 < m" using m by simp
  have "1 \<in> sub m st 0" using m unfolding sub_root [OF t] by simp
  then have "desc m st 0 1" by (simp add: sub_def)
  from desc_split [OF this t] have ne: "sons_of st 0 \<noteq> []" by auto
  define us where "us = concat (map (preorder MERGE_LEVEL_MAX st) (sons_of st 0))"
  have pre: "preorder (MERGE_LEVEL_MAX + 1) st 0 = 0 # us" using ne by (simp add: us_def)
  have "par st 0 = 0" using full_treeD(2) [OF t] by (simp add: par_def)
  then have "fathers_first st {0} us" using preorder_fathers_first [OF t m0, of "{0}" "MERGE_LEVEL_MAX + 1"] pre by simp
  moreover have "distinct us" "0 \<notin> set us" "set us \<subseteq> {..<m}"
    using preorder_props [OF t m0, of "MERGE_LEVEL_MAX + 1"] sub_root [OF t] unfolding pre by auto
  moreover have "par st w \<in> set us" if w: "0 < w" "w < m" "par st w \<noteq> 0" for w
  proof -
    have p: "par st w < m" using full_treeD(3) [OF t w(1,2)] by simp
    have "w \<in> set (sons_of st (par st w))" using full_treeD(4) [OF t p] w by simp
    moreover have "par st w \<in> sub m st 0" using p unfolding sub_root [OF t] by simp
    then have "desc m st 0 (par st w)" by (simp add: sub_def)
    moreover have "hmax st < height st ! 0 + (MERGE_LEVEL_MAX + 1)" using height_bound [OF t] m(2) by simp
    ultimately have "par st w \<in> set (preorder (MERGE_LEVEL_MAX + 1) st 0)"
      using preorder_complete [OF t m0, of "MERGE_LEVEL_MAX + 1" "par st w"] by (metis empty_iff empty_set)
    then show ?thesis using w(3) unfolding pre by simp
  qed
  ultimately show thesis using that pre by blast
qed

lemma apply_tree_lines:
  assumes ex: "rows_exist m ind mat" and t: "full_tree m st" and m: "2 \<le> m" "m \<le> MERGE_LEVEL_MAX"
  shows "\<exists>rows. apply_lines (mat_rows mat) (rev (map (history_line st ind) (preorder (MERGE_LEVEL_MAX + 1) st 0))) = Some rows
      \<and> combined (mat_rows mat) (\<lambda>w. nat (ind ! w)) (par st) {..<m} 0 rows"
proof -
  have m0: "0 < m" using m by simp
  obtain us where us: "preorder (MERGE_LEVEL_MAX + 1) st 0 = 0 # us" "fathers_first st {0} us" "distinct us" "0 \<notin> set us" "set us \<subseteq> {..<m}"
      "\<And>w. 0 < w \<Longrightarrow> w < m \<Longrightarrow> par st w \<noteq> 0 \<Longrightarrow> par st w \<in> set us"
    using preorder_root [OF t m] by blast
  let ?D = "{w. 0 < w \<and> w < m \<and> par st w \<in> set us}"
  obtain rows where r: "apply_lines (mat_rows mat) (rev (map (history_line st ind) us)) = Some rows"
      "merged (mat_rows mat) (\<lambda>w. nat (ind ! w)) (par st) ?D rows"
    using apply_inner_lines [OF ex m(2) t us(2-5)] us(4) by auto
  have s0: "distinct (sons_of st 0)" "set (sons_of st 0) = {w. 0 < w \<and> w < m \<and> par st w = 0}" using full_treeD(4) [OF t m0] by auto
  have dj: "?D \<inter> set (sons_of st 0) = {}"
  proof (rule ccontr)
    assume "?D \<inter> set (sons_of st 0) \<noteq> {}"
    then obtain w where "par st w \<in> set us" "par st w = 0" unfolding s0(2) by blast
    then show False using us(4) by metis
  qed
  have all: "?D \<union> set (sons_of st 0) = {..<m} - {0}" using us(6) unfolding s0(2) by auto
  have "0 \<notin> ?D" "\<forall>s \<in> set (sons_of st 0). par st s = 0" unfolding s0(2) by simp_all
  then obtain rows' where "apply_line rows (ind ! 0 # map ((!) ind) (sons_of st 0)) = Some rows'"
      "combined (mat_rows mat) (\<lambda>w. nat (ind ! w)) (par st) {..<m} 0 rows'"
    using apply_last_line [OF ex m(2) m0 _ r(2) s0(1) dj _ all] by blast
  moreover have "history_line st ind 0 = ind ! 0 # map ((!) ind) (sons_of st 0)" using full_treeD(2) [OF t] by (simp add: history_line_def)
  ultimately show ?thesis using r(1) unfolding us(1) by (simp add: apply_lines_snoc)
qed

lemma apply_pivot_line:
  assumes ex: "rows_exist m ind mat" and mm: "m \<le> MERGE_LEVEL_MAX" and i: "i < m"
  shows "\<exists>rows. apply_lines (mat_rows mat) [put_in_front ind i] = Some rows
      \<and> combined (mat_rows mat) (\<lambda>w. nat (ind ! w)) (\<lambda>_. i) {..<m} i rows"
proof -
  let ?ss = "[0..<i] @ [i + 1..<m]"
  have l: "length ind = m" using ex by (simp add: rows_exist_def)
  have "map ((!) ind) [0..<i] = take i ind" "map ((!) ind) [i + 1..<m] = drop (i + 1) ind"
    using i l by (auto simp: list_eq_iff_nth_eq)
  then have line: "put_in_front ind i = ind ! i # map ((!) ind) ?ss" by (simp add: put_in_front_def)
  have s: "distinct ?ss" "{} \<inter> set ?ss = {}" "\<forall>s \<in> set ?ss. i = i" "{} \<union> set ?ss = {..<m} - {i}" using i by auto
  show ?thesis using apply_last_line [OF ex mm i _ merged_empty s] unfolding line by auto
qed

section \<open>A merge does what it reports\<close>

lemma add_to_rows_length: "add_to_rows rows i0 is = Some rows' \<Longrightarrow> length rows' = length rows"
  by (induction rows i0 "is" rule: add_to_rows.induct) (auto simp: bind_eq_Some_conv split: if_splits)

lemma apply_line_length: "apply_line rows l = Some rows' \<Longrightarrow> length rows' = length rows"
  by (cases l) (auto simp: apply_line_def Let_def bind_eq_Some_conv dest: add_to_rows_length split: if_splits)

lemma apply_lines_length: "apply_lines rows ls = Some rows' \<Longrightarrow> length rows' = length rows"
  by (induction ls arbitrary: rows) (auto simp: bind_eq_Some_conv dest: apply_line_length)

lemma combined_is_applied:
  assumes "apply_lines (mat_rows mat) ls = Some rows" "combined (mat_rows mat) idx p V c rows"
    and "combined (mat_rows mat) idx p V c (mat_rows mat')" "matrix_ok mat" "matrix_ok mat'" "rest_frame mat mat'"
  shows "apply_lines (mat_rows mat) ls = Some (mat_rows mat')"
proof -
  have "length (mat_rows mat') = length (mat_rows mat)"
    using assms(4-6) mat_ok_dims(5) unfolding matrix_ok_def rest_frame_def by metis
  then show ?thesis using combined_unique [OF assms(2,3)] apply_lines_length [OF assms(1)] assms(1) by simp
qed

lemma findOptimalCombination_reports:
  assumes "matrix_ok mat" "0 < m" "m \<le> MERGE_LEVEL_MAX" "rows_exist m ind mat" "merge_arrays_ok m arr" "merge_weights_ok m ind mat"
    and "rep_type rep = 0 \<or> rep_type rep = 2"
  shows "\<exists>ls mat' p c. findOptimalCombination arr rep mat m ind useMST = Some (rep_add rep ls, mat')
      \<and> matrix_ok mat' \<and> rest_frame mat mat' \<and> c < m \<and> (\<forall>w \<in> {..<m} - {c}. p w < m \<and> p w \<noteq> w)
      \<and> combined (mat_rows mat) (\<lambda>w. nat (ind ! w)) p {..<m} c (mat_rows mat')
      \<and> apply_lines (mat_rows mat) ls = Some (mat_rows mat')"
proof (cases "m \<le> 2 \<or> \<not> useMST")
  case True
  obtain mat' i where r: "i < m" "tryAllCombinations (arr_A arr) rep mat m ind = Some (rep_add rep [put_in_front ind i], mat')"
      "matrix_ok mat'" "rest_frame mat mat'" "combined (mat_rows mat) (\<lambda>w. nat (ind ! w)) (\<lambda>_. i) {..<m} i (mat_rows mat')"
    using tryAllCombinations_ok [OF assms(1-4,7)] by blast
  then have "findOptimalCombination arr rep mat m ind useMST = Some (rep_add rep [put_in_front ind i], mat')"
    using True by (simp add: findOptimalCombination_def)
  moreover have "\<forall>w \<in> {..<m} - {i}. i < m \<and> i \<noteq> w" using r(1) by auto
  moreover have "apply_lines (mat_rows mat) [put_in_front ind i] = Some (mat_rows mat')"
    using apply_pivot_line [OF assms(4,3) r(1)] combined_is_applied [OF _ _ r(5) assms(1) r(3,4)] by blast
  ultimately show ?thesis using r(1,3-5) by (intro exI conjI)
next
  case False
  obtain mat' st where r: "useMinimalSpanningTree arr rep mat m ind
        = Some (rep_add rep (rev (map (history_line st ind) (preorder (MERGE_LEVEL_MAX + 1) st 0))), mat')"
      "matrix_ok mat'" "rest_frame mat mat'" "full_tree m st" "combined (mat_rows mat) (\<lambda>w. nat (ind ! w)) (par st) {..<m} 0 (mat_rows mat')"
    using useMinimalSpanningTree_ok [OF assms(1-7)] by blast
  have q: "par st w < m \<and> par st w \<noteq> w" if "w \<in> {..<m} - {0}" for w using full_treeD(3) [OF r(4), of w] that by auto
  then have "\<forall>w \<in> {..<m} - {0}. par st w < m \<and> par st w \<noteq> w" by blast
  moreover have "findOptimalCombination arr rep mat m ind useMST
      = Some (rep_add rep (rev (map (history_line st ind) (preorder (MERGE_LEVEL_MAX + 1) st 0))), mat')"
    using False r(1) by (simp only: findOptimalCombination_def if_False)
  moreover have "apply_lines (mat_rows mat) (rev (map (history_line st ind) (preorder (MERGE_LEVEL_MAX + 1) st 0))) = Some (mat_rows mat')"
    using apply_tree_lines [OF assms(4) r(4) _ assms(3)] combined_is_applied [OF _ _ r(5) assms(1) r(2,3)] False
    by (meson nat_le_linear)
  ultimately show ?thesis using r(2,3,5) assms(2) by (intro exI conjI)
qed

section \<open>The merge of a column\<close>

lemma rows_of_column:
  assumes ok: "matrix_ok mat" and j: "j < mat_ncols mat" "mat_A mat ! j \<noteq> None"
  shows "\<exists>r. mat_R mat ! j = Some r \<and> mat_wt mat ! j = int (length (live r)) \<and> rows_exist (length (live r)) (live r) mat
     \<and> (\<lambda>w. nat (live r ! w)) ` {..<length (live r)} = rows_with (row_sets (mat_rows mat)) j"
proof -
  let ?M = "row_sets (mat_rows mat)"
  have mok: "mat_ok ?M mat" using ok by (simp add: matrix_ok_def)
  obtain r where r: "mat_R mat ! j = Some r" "distinct (live r)" "set (live r) = int ` rows_with ?M j" "mat_wt mat ! j = int (length (live r))"
    using mat_ok_col [OF mok j(1)] j(2) unfolding col_ok_def by auto
  let ?l = "live r"
  have mem: "\<exists>i. ?l ! w = int i \<and> i \<in> rows_with ?M j" if "w < length ?l" for w using r(3) nth_mem [OF that] by auto
  have "inj_on (\<lambda>w. nat (?l ! w)) {..<length ?l}"
  proof (rule inj_onI)
    fix a b assume ab: "a \<in> {..<length ?l}" "b \<in> {..<length ?l}" "nat (?l ! a) = nat (?l ! b)"
    then have "?l ! a = ?l ! b" using mem [of a] mem [of b] by auto
    then show "a = b" using r(2) ab by (simp add: nth_eq_iff_index_eq)
  qed
  moreover have "row_at (mat_rows mat) (nat (?l ! w)) \<noteq> None" if "w < length ?l" for w
    using mem [OF that] by (auto simp: rows_with_def row_sets_def split: option.splits)
  moreover have "(\<lambda>w. nat (?l ! w)) ` {..<length ?l} = rows_with ?M j"
  proof -
    have "(\<lambda>w. nat (?l ! w)) ` {..<length ?l} = nat ` set ?l" by (force simp: in_set_conv_nth)
    then show ?thesis unfolding r(3) by (simp add: image_image)
  qed
  moreover have "0 \<le> ?l ! w" if "w < length ?l" for w using mem [OF that] by auto
  ultimately show ?thesis using r(1,4) by (auto simp: rows_exist_def)
qed

text \<open>What a merge leaves alone.\<close>

definition merge_frame :: "nat \<Rightarrow> filter_matrix \<Rightarrow> filter_matrix \<Rightarrow> bool" where
  "merge_frame j mat mat' \<longleftrightarrow> mat_nrows mat' = mat_nrows mat \<and> mat_ncols mat' = mat_ncols mat \<and> mat_wburied mat' = mat_wburied mat
     \<and> mat_nburied mat' = mat_nburied mat \<and> mat_cwmax mat' = mat_cwmax mat \<and> mat_rwmax mat' = mat_rwmax mat \<and> mat_keep mat' = mat_keep mat
     \<and> (\<forall>k. k \<noteq> j \<longrightarrow> (mat_A mat' ! k = None) = (mat_A mat ! k = None))"

lemma mergeForColumn_ok:
  assumes ok: "matrix_ok mat" and j: "j < mat_ncols mat" "mat_A mat ! j \<noteq> None" and m: "mat_wt mat ! j = int m" "0 < m" "m \<le> MERGE_LEVEL_MAX"
    and arr: "merge_arrays_ok m arr" and rep: "rep_type rep = 0 \<or> rep_type rep = 2"
    and wts: "\<forall>r. mat_R mat ! j = Some r \<longrightarrow> merge_weights_ok m (live r) mat"
  shows "\<exists>ls mat' p c idx. mergeForColumn arr rep mat m (int j) useMST = Some (rep_add rep ls, mat')
      \<and> matrix_ok mat' \<and> gone mat' j \<and> rows_with (row_sets (mat_rows mat')) j = {}
      \<and> bij_betw idx {..<m} (rows_with (row_sets (mat_rows mat)) j)
      \<and> c < m \<and> (\<forall>w \<in> {..<m} - {c}. p w < m \<and> p w \<noteq> w) \<and> combined (mat_rows mat) idx p {..<m} c (mat_rows mat')
      \<and> apply_lines (mat_rows mat) ls = Some (mat_rows mat') \<and> merge_frame j mat mat'
      \<and> mat_rem_nrows mat' = mat_rem_nrows mat - 1 \<and> mat_rem_ncols mat' = mat_rem_ncols mat - 1"
proof -
  obtain r where r: "mat_R mat ! j = Some r" "mat_wt mat ! j = int (length (live r))" "rows_exist (length (live r)) (live r) mat"
      "(\<lambda>w. nat (live r ! w)) ` {..<length (live r)} = rows_with (row_sets (mat_rows mat)) j"
    using rows_of_column [OF ok j] by blast
  let ?i = "\<lambda>w. nat (live r ! w)"
  have lm: "length (live r) = m" using r(2) m(1) by simp
  obtain ls m1 p c where m1: "findOptimalCombination arr rep mat m (live r) useMST = Some (rep_add rep ls, m1)" "matrix_ok m1"
      "rest_frame mat m1" "c < m" "\<forall>w \<in> {..<m} - {c}. p w < m \<and> p w \<noteq> w" "combined (mat_rows mat) ?i p {..<m} c (mat_rows m1)"
      "apply_lines (mat_rows mat) ls = Some (mat_rows m1)"
    using findOptimalCombination_reports [OF ok m(2,3) r(3) [unfolded lm] arr _ rep] wts r(1) by blast
  have "\<forall>w \<in> {..<m} - {c}. p w \<in> {..<m}" using m1(5) by simp
  moreover have "\<And>i r. row_at (mat_rows mat) i = Some r \<Longrightarrow> row_ok r" using ok by (simp add: matrix_ok_def)
  ultimately have none: "rows_with (row_sets (mat_rows m1)) j = {}"
    using combined_no_col [OF m1(6) _ r(4) [unfolded lm]] by blast
  let ?m1 = "m1 \<lparr> mat_rem_nrows := mat_rem_nrows m1 - 1, mat_rem_ncols := mat_rem_ncols m1 - 1 \<rparr>"
  have mok: "mat_ok (row_sets (mat_rows m1)) ?m1" using m1(2) mat_ok_cong [of m1 ?m1] by (simp add: matrix_ok_def same_cols_def)
  have fr: "mat_ncols m1 = mat_ncols mat" "mat_A m1 ! j \<noteq> None" "mat_rem_nrows m1 = mat_rem_nrows mat" "mat_rem_ncols m1 = mat_rem_ncols mat"
    using m1(3) j(2) by (simp_all add: rest_frame_def)
  obtain q where "mat_A ?m1 ! j = Some q" using fr(2) by auto
  then obtain s m2 where m2: "removeColumnAndUpdate ?m1 (int j) = Some m2" "mat_ok (row_sets (mat_rows m1)) (set_wt (int j) 0 m2)"
      "m2 = ?m1 \<lparr> mat_wt := (mat_wt ?m1)[j := 0], mat_R := (mat_R ?m1)[j := None], mat_A := (mat_A ?m1)[j := None], mat_store := s \<rparr>"
    using removeColumn_ok [OF mok, of j q 0] none fr(1) j(1) by auto
  have j1: "j < length (mat_wt m1)" "j < length (mat_A m1)" using mat_ok_dims(1,3) [OF mok] fr(1) j(1) by simp_all
  have "set_wt (int j) 0 m2 = m2" by (simp add: set_wt_def m2(3))
  moreover have rows: "mat_rows m2 = mat_rows m1" by (simp add: m2(3))
  ultimately have "matrix_ok m2" using m2(2) m1(2) by (simp add: matrix_ok_def)
  moreover have "gone m2 j" using j1 by (simp add: m2(3) gone_def)
  moreover have "bij_betw ?i {..<m} (rows_with (row_sets (mat_rows mat)) j)"
    using r(3,4) unfolding lm bij_betw_def rows_exist_def by simp
  moreover have "mergeForColumn arr rep mat m (int j) useMST = Some (rep_add rep ls, m2)"
  proof -
    have "j < length (mat_R mat)" using mat_ok_dims(2) ok j(1) unfolding matrix_ok_def by metis
    then have "at (mat_R mat) (int j) = Some (Some r)" using r(1) by simp
    moreover have "take m (live r) = live r" using lm by simp
    ultimately show ?thesis
      using m(3) m1(1) m2(1) unfolding mergeForColumn_def by (simp only: bind.bind_lunit Let_def prod.case not_less [symmetric] if_False)
  qed
  moreover have "merge_frame j mat m2" using m1(3) by (simp add: merge_frame_def m2(3) rest_frame_def)
  moreover have "mat_rem_nrows m2 = mat_rem_nrows mat - 1" "mat_rem_ncols m2 = mat_rem_ncols mat - 1"
    using fr(3,4) by (simp_all add: m2(3))
  ultimately show ?thesis using m1(4,5) m1(6,7) [folded rows] none [folded rows] by (intro exI conjI)
qed

section \<open>Properties\<close>

text \<open>C3: The merge of a column.  In a coherent matrix, for a column \<open>j\<close> of the stacks of weight
  \<open>m\<close> from 1 to 256, whatever the uninitialised arrays hold, \<open>mergeForColumn\<close> returns; one of the
  \<open>m\<close> rows that contain \<open>j\<close> is destroyed, each other one is replaced by its sum with another of them,
  and the rows without \<open>j\<close> are unchanged.  The matrix is coherent again, no row contains \<open>j\<close> any
  more, the column has left the stacks, the lines written to the history describe
  the change of the rows, and both counters of remaining rows and columns drop by one.\<close>

theorem mergeForColumn_correct:
  assumes "matrix_ok mat" and "j < mat_ncols mat" and "mat_A mat ! j \<noteq> None"
    and "mat_wt mat ! j = int m" and "0 < m" and "m \<le> MERGE_LEVEL_MAX"
    and "merge_arrays_ok m arr" and "rep_type rep = 0 \<or> rep_type rep = 2"
    and "\<forall>r. mat_R mat ! j = Some r \<longrightarrow> merge_weights_ok m (live r) mat"
  shows "\<exists>ls mat' p c idx. mergeForColumn arr rep mat m (int j) useMST = Some (rep_add rep ls, mat')
      \<and> matrix_ok mat' \<and> gone mat' j \<and> rows_with (row_sets (mat_rows mat')) j = {}
      \<and> bij_betw idx {..<m} (rows_with (row_sets (mat_rows mat)) j)
      \<and> c < m \<and> (\<forall>w \<in> {..<m} - {c}. p w < m \<and> p w \<noteq> w) \<and> combined (mat_rows mat) idx p {..<m} c (mat_rows mat')
      \<and> apply_lines (mat_rows mat) ls = Some (mat_rows mat') \<and> merge_frame j mat mat'
      \<and> mat_rem_nrows mat' = mat_rem_nrows mat - 1 \<and> mat_rem_ncols mat' = mat_rem_ncols mat - 1"
  using mergeForColumn_ok [OF assms] .

definition matrix1 :: filter_matrix where
  "matrix1 = \<lparr> mat_nrows = 2, mat_ncols = 1, mat_rem_nrows = 2, mat_rem_ncols = 1, mat_rows = [Some [0], Some [0]],
     mat_wt = [2], mat_wburied = [0, 0], mat_nburied = 0, mat_weight = 2, mat_cwmax = 2, mat_rwmax = 100, mat_keep = 10,
     mat_R = [Some [0, 1]], mat_S = [0, 1, 2, 3], mat_A = [Some 4],
     mat_store = \<lparr> cells = [0 \<mapsto> \<lparr> dcl_j = - 1, dcl_prev = None, dcl_next = None \<rparr>,
       1 \<mapsto> \<lparr> dcl_j = - 1, dcl_prev = None, dcl_next = None \<rparr>,
       2 \<mapsto> \<lparr> dcl_j = - 1, dcl_prev = None, dcl_next = Some 4 \<rparr>,
       3 \<mapsto> \<lparr> dcl_j = - 1, dcl_prev = None, dcl_next = None \<rparr>,
       4 \<mapsto> \<lparr> dcl_j = 0, dcl_prev = Some 2, dcl_next = None \<rparr>], brk = 5 \<rparr> \<rparr>"

lemma matrix1_stacks: "stacks (mat_S matrix1) (mat_A matrix1) (mat_store matrix1) (level matrix1) (\<lambda>w. if w = 2 then [(4, 0)] else [])"
  by (rule stacksI)
    (auto simp: matrix1_def store_ok_def is_dclist_def stack_addr_def level_def numeral_eq_Suc less_Suc_eq split: if_splits)

lemma matrix1_ok: "matrix_ok matrix1"
proof -
  have rw: "rows_with (row_sets (mat_rows matrix1)) 0 = {0, 1}"
    by (auto simp: rows_with_def row_sets_def row_at_def matrix1_def less_Suc_eq numeral_eq_Suc split: option.splits if_splits)
  have "dims_ok (row_sets (mat_rows matrix1)) matrix1"
    by (auto simp: dims_ok_def matrix1_def row_sets_def row_at_def less_Suc_eq numeral_eq_Suc)
  moreover have "col_ok (row_sets (mat_rows matrix1)) matrix1 0"
    unfolding col_ok_def rw by (auto simp: matrix1_def live_def)
  moreover have "mat_ncols matrix1 = 1" by (simp add: matrix1_def)
  ultimately have "mat_ok (row_sets (mat_rows matrix1)) matrix1" using matrix1_stacks by (auto simp: mat_ok_def)
  then show ?thesis by (auto simp: matrix_ok_def matrix1_def row_at_def less_Suc_eq numeral_eq_Suc split: if_splits)
qed

definition arrays1 :: merge_arrays where
  "arrays1 = \<lparr> arr_A = [[7, 7], [7, 7]], arr_Q = replicate 65536 (1, 2, 3), arr_st = arrays0, arr_history = replicate 256 [] \<rparr>"

lemma arrays1_ok: "merge_arrays_ok 2 arrays1"
  using arrays0_ok by (auto simp: merge_arrays_ok_def arrays1_def square_def MERGE_LEVEL_MAX_def less_2_cases_iff)

definition report0 :: report_t where
  "report0 = \<lparr> rep_type = 0, rep_outfile = [], rep_history = [], rep_mark = 0, rep_bufsize = 0 \<rparr>"

theorem mergeForColumn_correct_witness:
  "\<exists>ls mat' p c idx. mergeForColumn arrays1 report0 matrix1 2 (int 0) True = Some (rep_add report0 ls, mat')
      \<and> matrix_ok mat' \<and> gone mat' 0 \<and> rows_with (row_sets (mat_rows mat')) 0 = {}
      \<and> bij_betw idx {..<2} (rows_with (row_sets (mat_rows matrix1)) 0)
      \<and> c < 2 \<and> (\<forall>w \<in> {..<2} - {c}. p w < 2 \<and> p w \<noteq> w) \<and> combined (mat_rows matrix1) idx p {..<2} c (mat_rows mat')
      \<and> apply_lines (mat_rows matrix1) ls = Some (mat_rows mat') \<and> merge_frame 0 matrix1 mat'
      \<and> mat_rem_nrows mat' = mat_rem_nrows matrix1 - 1 \<and> mat_rem_ncols mat' = mat_rem_ncols matrix1 - 1"
proof (rule mergeForColumn_correct [OF matrix1_ok _ _ _ _ _ arrays1_ok])
  show "\<forall>r. mat_R matrix1 ! 0 = Some r \<longrightarrow> merge_weights_ok 2 (live r) matrix1"
    by (auto simp: merge_weights_ok_def matrix1_def live_def weightSum_def buriedSum_def row_at_def less_Suc_eq numeral_2_eq_2 Let_def)
qed (simp_all add: matrix1_def MERGE_LEVEL_MAX_def report0_def)

text \<open>C17: The history file is faithful.  Whatever combination of the rows \<open>findOptimalCombination\<close>
  chooses and applies, the lines it appends to the history, given one after the other to
  \<open>doAllAdds\<close> on the matrix from before the merge, as \<open>resume\<close> does when a merge is restarted,
  are accepted, append the same lines again and rebuild exactly the rows that the merge left.\<close>

theorem history_replay:
  assumes "matrix_ok mat" and "0 < m" and "m \<le> MERGE_LEVEL_MAX" and "rows_exist m ind mat"
    and "merge_arrays_ok m arr" and "merge_weights_ok m ind mat" and "rep_type rep = 0 \<or> rep_type rep = 2"
  shows "\<exists>ls mat1 mat2. findOptimalCombination arr rep mat m ind useMST = Some (rep_add rep ls, mat1)
      \<and> resume_lines rep mat ls = Some (rep_add rep ls, mat2) \<and> matrix_ok mat2 \<and> mat_rows mat2 = mat_rows mat1"
proof -
  obtain ls mat1 where "findOptimalCombination arr rep mat m ind useMST = Some (rep_add rep ls, mat1)"
      "apply_lines (mat_rows mat) ls = Some (mat_rows mat1)"
    using findOptimalCombination_reports [OF assms] by blast
  then show ?thesis using resume_refines [OF assms(1) _ assms(7)] by blast
qed

lemma matrix1_rows_exist: "rows_exist 2 [1, 0] matrix1"
  by (auto simp: rows_exist_def matrix1_def row_at_def less_2_cases_iff lessThan_nat_numeral inj_on_def)

theorem history_replay_witness:
  "\<exists>ls mat1 mat2. findOptimalCombination arrays1 report0 matrix1 2 [1, 0] True = Some (rep_add report0 ls, mat1)
      \<and> resume_lines report0 matrix1 ls = Some (rep_add report0 ls, mat2) \<and> matrix_ok mat2 \<and> mat_rows mat2 = mat_rows mat1"
proof (rule history_replay [OF matrix1_ok _ _ matrix1_rows_exist arrays1_ok])
  show "merge_weights_ok 2 [1, 0] matrix1"
    by (auto simp: merge_weights_ok_def matrix1_def weightSum_def buriedSum_def row_at_def less_Suc_eq numeral_2_eq_2 Let_def)
qed (simp_all add: MERGE_LEVEL_MAX_def report0_def)

text \<open>C18: The invariant of the matrix under row additions.  \<open>addRowsAndUpdate\<close>, for two distinct
  existing rows and a target length that is \<open>-1\<close> or the length of the sum, returns; row
  \<open>i1\<close> is replaced by the sum of both rows and no other row changes, while the weights of the
  columns, the lists \<open>R[j]\<close>, the stacks \<open>S[w]\<close> of the columns of weight \<open>w\<close> and their back
  pointers \<open>A[j]\<close> agree with the rows again; the total weight, an unsigned 64-bit number, changes
  by the difference of the lengths, and nothing else changes.\<close>

theorem addRowsAndUpdate_correct:
  assumes "matrix_ok mat" and "i1 \<noteq> i2" and "row_at (mat_rows mat) i1 = Some r1" and "row_at (mat_rows mat) i2 = Some r2"
    and "len = - 1 \<or> len = int (length (merge_rows r1 r2))"
  shows "\<exists>mat'. addRowsAndUpdate mat (int i1) (int i2) len = Some mat' \<and> matrix_ok mat' \<and> rest_frame mat mat'
      \<and> mat_rows mat' = (mat_rows mat)[i1 := Some (merge_rows r1 r2)]
      \<and> mat_weight mat' mod 2 ^ 64 = (mat_weight mat - int (length r1) + int (length (merge_rows r1 r2))) mod 2 ^ 64"
  using addRowsAndUpdate_ok [OF assms] .

theorem addRowsAndUpdate_correct_witness:
  "\<exists>mat'. addRowsAndUpdate matrix1 (int 0) (int 1) (- 1) = Some mat' \<and> matrix_ok mat' \<and> rest_frame matrix1 mat'
      \<and> mat_rows mat' = (mat_rows matrix1)[0 := Some (merge_rows [0] [0])]
      \<and> mat_weight mat' mod 2 ^ 64 = (mat_weight matrix1 - int (length [0 :: int]) + int (length (merge_rows [0] [0]))) mod 2 ^ 64"
  by (rule addRowsAndUpdate_correct [OF matrix1_ok]) (simp_all add: matrix1_def row_at_def)

section \<open>Dependencies between rows\<close>

text \<open>
  \<open>xor_rows M X\<close> is the sum over GF(2) of the rows \<open>M i\<close>, \<open>i\<close> in \<open>X\<close>, given as sets of columns.
  A dependency is a nonempty set of rows whose sum is empty.
\<close>

definition row_xor :: "'a set \<Rightarrow> 'a set \<Rightarrow> 'a set" where
  "row_xor X Y = (X - Y) \<union> (Y - X)"

definition xor_rows :: "(nat \<Rightarrow> 'a set) \<Rightarrow> nat set \<Rightarrow> 'a set" where
  "xor_rows M X = {j. odd (card {i \<in> X. j \<in> M i})}"

lemma row_xor_assoc: "row_xor (row_xor X Y) Z = row_xor X (row_xor Y Z)"
  by (auto simp: row_xor_def)

lemma row_xor_left: "row_xor (row_xor X Y) Z = row_xor Y (row_xor X Z)"
  by (auto simp: row_xor_def)

lemma xor_rows_empty [simp]: "xor_rows M {} = {}"
  by (simp add: xor_rows_def)

lemma xor_rows_insert:
  assumes "finite X" "i \<notin> X"
  shows "xor_rows M (insert i X) = row_xor (M i) (xor_rows M X)"
proof -
  have "{k \<in> insert i X. j \<in> M k} = (if j \<in> M i then insert i {k \<in> X. j \<in> M k} else {k \<in> X. j \<in> M k})" for j by auto
  then show ?thesis using assms by (auto simp: xor_rows_def row_xor_def)
qed

lemma xor_rows_remove:
  assumes "finite X" "i \<in> X"
  shows "xor_rows M (X - {i}) = row_xor (M i) (xor_rows M X)"
proof -
  have "xor_rows M X = row_xor (M i) (xor_rows M (X - {i}))" using xor_rows_insert [of "X - {i}" i M] assms by (simp add: insert_absorb)
  then show ?thesis by (auto simp: row_xor_def)
qed

lemma xor_rows_toggle: "finite X \<Longrightarrow> xor_rows M (if i \<in> X then X - {i} else insert i X) = row_xor (M i) (xor_rows M X)"
  by (simp add: xor_rows_insert xor_rows_remove)

lemma xor_rows_xor:
  assumes "finite X" "finite Y"
  shows "xor_rows M (row_xor X Y) = row_xor (xor_rows M X) (xor_rows M Y)"
  using assms(1)
proof (induction X rule: finite_induct)
  case empty
  then show ?case by (simp add: row_xor_def)
next
  case (insert i X)
  have f: "finite (row_xor X Y)" using insert.hyps assms(2) by (simp add: row_xor_def)
  have e: "row_xor (insert i X) Y = (if i \<in> row_xor X Y then row_xor X Y - {i} else insert i (row_xor X Y))"
    using insert.hyps by (auto simp: row_xor_def)
  show ?case unfolding e xor_rows_toggle [OF f] insert.IH xor_rows_insert [OF insert.hyps] row_xor_assoc ..
qed

lemma finite_xor_rows:
  assumes "finite X" "\<And>i. finite (T i)"
  shows "finite (xor_rows T X)"
  using assms(1)
proof (induction X rule: finite_induct)
  case (insert i X)
  then show ?case using assms(2) by (simp add: xor_rows_insert row_xor_def)
qed simp

lemma xor_rows_compose:
  assumes "finite Y" "\<And>i. finite (T i)"
  shows "xor_rows M (xor_rows T Y) = xor_rows (\<lambda>i. xor_rows M (T i)) Y"
  using assms(1)
proof (induction Y rule: finite_induct)
  case (insert i Y)
  have "finite (xor_rows T Y)" using finite_xor_rows insert.hyps(1) assms(2) by blast
  then show ?case using insert assms(2) by (simp add: xor_rows_insert xor_rows_xor)
qed simp

lemma xor_rows_cong: "(\<And>i. i \<in> X \<Longrightarrow> M i = M' i) \<Longrightarrow> xor_rows M X = xor_rows M' X"
  unfolding xor_rows_def by (metis (no_types, lifting) Collect_cong)

text \<open>
  \<open>derived rows0 T rows\<close>: every row of \<open>rows\<close> is the sum of the initial rows \<open>T i\<close>, and the sets \<open>T i\<close> are
  linearly independent.
\<close>

definition derived :: "row_table \<Rightarrow> (nat \<Rightarrow> nat set) \<Rightarrow> row_table \<Rightarrow> bool" where
  "derived rows0 T rows \<longleftrightarrow> (\<forall>i. finite (T i)) \<and> (\<forall>i r. row_at rows i = Some r \<longrightarrow> row_ok r)
     \<and> (\<forall>i. row_at rows i \<noteq> None \<longrightarrow> row_sets rows i = xor_rows (row_sets rows0) (T i) \<and> T i \<subseteq> {k. row_at rows0 k \<noteq> None})
     \<and> (\<forall>Y. finite Y \<longrightarrow> Y \<noteq> {} \<longrightarrow> Y \<subseteq> {i. row_at rows i \<noteq> None} \<longrightarrow> xor_rows T Y \<noteq> {})"

lemma derivedD:
  assumes "derived rows0 T rows"
  shows "finite (T i)" "row_at rows i = Some r \<Longrightarrow> row_ok r"
    "row_at rows i \<noteq> None \<Longrightarrow> row_sets rows i = xor_rows (row_sets rows0) (T i)"
    "row_at rows i \<noteq> None \<Longrightarrow> T i \<subseteq> {k. row_at rows0 k \<noteq> None}"
    "finite Y \<Longrightarrow> Y \<noteq> {} \<Longrightarrow> Y \<subseteq> {i. row_at rows i \<noteq> None} \<Longrightarrow> xor_rows T Y \<noteq> {}"
  using assms unfolding derived_def by simp_all

lemma derivedI:
  assumes "\<And>i. finite (T i)" "\<And>i r. row_at rows i = Some r \<Longrightarrow> row_ok r"
    "\<And>i. row_at rows i \<noteq> None \<Longrightarrow> row_sets rows i = xor_rows (row_sets rows0) (T i)"
    "\<And>i. row_at rows i \<noteq> None \<Longrightarrow> T i \<subseteq> {k. row_at rows0 k \<noteq> None}"
    "\<And>Y. finite Y \<Longrightarrow> Y \<noteq> {} \<Longrightarrow> Y \<subseteq> {i. row_at rows i \<noteq> None} \<Longrightarrow> xor_rows T Y \<noteq> {}"
  shows "derived rows0 T rows"
  using assms unfolding derived_def by simp

lemma derived_refl:
  assumes "\<And>i r. row_at rows i = Some r \<Longrightarrow> row_ok r"
  shows "derived rows (\<lambda>i. {i}) rows"
proof -
  have "xor_rows (\<lambda>i. {i}) Y = Y" for Y :: "nat set"
  proof -
    have "{i \<in> Y. j \<in> {i}} = (if j \<in> Y then {j} else {})" for j by auto
    then show ?thesis by (auto simp: xor_rows_def)
  qed
  moreover have "xor_rows M {i} = M i" for i and M :: "nat \<Rightarrow> int set" using xor_rows_insert [of "{}" i M] by (simp add: row_xor_def)
  ultimately show ?thesis using assms by (simp add: derived_def)
qed

lemma derived_add:
  assumes d: "derived rows0 T rows" and i: "i \<noteq> i0" and r: "row_at rows i = Some r" "row_at rows i0 = Some r0"
  shows "derived rows0 (T(i := row_xor (T i) (T i0))) (rows[i := Some (merge_rows r r0)])"
proof -
  let ?T = "T(i := row_xor (T i) (T i0))" and ?rows = "rows[i := Some (merge_rows r r0)]"
  have fin: "\<And>i. finite (T i)" and rok: "row_ok r" "row_ok r0" using derivedD(1,2) [OF d] r by blast+
  have l: "i < length rows" using row_at_less [OF r(1)] .
  note m = set_merge_ok [OF rok]
  have at: "row_at ?rows k = (if k = i then Some (merge_rows r r0) else row_at rows k)" for k using l by (simp add: row_at_def nth_list_update)
  have sets: "row_sets ?rows k = (if k = i then row_xor (row_sets rows i) (row_sets rows i0) else row_sets rows k)" for k
    using m r by (auto simp: row_sets_def at row_xor_def)
  have ri: "row_at rows i \<noteq> None" "row_at rows i0 \<noteq> None" using r by simp_all
  note di = derivedD(3,4) [OF d ri(1)] derivedD(3,4) [OF d ri(2)]
  show ?thesis
  proof (rule derivedI)
    fix k r'
    show "finite (?T k)" using fin by (simp add: row_xor_def)
    show "row_at ?rows k = Some r' \<Longrightarrow> row_ok r'" using derivedD(2) [OF d] m by (auto simp: at split: if_splits)
    have "row_sets ?rows i = xor_rows (row_sets rows0) (?T i)" using di(1,3) by (simp add: sets xor_rows_xor [OF fin fin])
    then show "row_at ?rows k \<noteq> None \<Longrightarrow> row_sets ?rows k = xor_rows (row_sets rows0) (?T k)"
      using derivedD(3) [OF d, of k] by (cases "k = i") (simp_all add: at sets)
    have "?T i \<subseteq> {k. row_at rows0 k \<noteq> None}" using di(2,4) by (auto simp: row_xor_def)
    then show "row_at ?rows k \<noteq> None \<Longrightarrow> ?T k \<subseteq> {k. row_at rows0 k \<noteq> None}"
      using derivedD(4) [OF d, of k] by (cases "k = i") (simp_all add: at)
  next
    fix Y assume Y: "finite Y" "Y \<noteq> {}" "Y \<subseteq> {i. row_at ?rows i \<noteq> None}"
    then have Y': "Y \<subseteq> {i. row_at rows i \<noteq> None}" using ri(1) by (auto simp: at split: if_splits)
    show "xor_rows ?T Y \<noteq> {}"
    proof (cases "i \<in> Y")
      case False
      then have "xor_rows ?T Y = xor_rows T Y" by (intro xor_rows_cong) auto
      then show ?thesis using derivedD(5) [OF d Y(1,2) Y'] by simp
    next
      case True
      let ?Z = "if i0 \<in> Y then Y - {i0} else insert i0 Y"
      have "xor_rows ?T (Y - {i}) = xor_rows T (Y - {i})" by (intro xor_rows_cong) auto
      moreover have "insert i (Y - {i}) = Y" using True by auto
      ultimately have "xor_rows ?T Y = row_xor (row_xor (T i) (T i0)) (xor_rows T (Y - {i}))" "xor_rows T Y = row_xor (T i) (xor_rows T (Y - {i}))"
        using xor_rows_insert [of "Y - {i}" i ?T] xor_rows_insert [of "Y - {i}" i T] Y(1) by simp_all
      then have e: "xor_rows ?T Y = xor_rows T ?Z" by (simp only: row_xor_left xor_rows_toggle [OF Y(1)])
      have "?Z \<noteq> {}" "finite ?Z" "?Z \<subseteq> {i. row_at rows i \<noteq> None}" using True i Y(1) Y' ri(2) by auto
      then show ?thesis using derivedD(5) [OF d] e by metis
    qed
  qed
qed

lemma derived_destroy:
  assumes "derived rows0 T rows" "\<And>k. row_at rows' k = row_at rows k \<or> row_at rows' k = None"
  shows "derived rows0 T rows'"
proof -
  have s: "row_at rows' k \<noteq> None \<Longrightarrow> row_at rows' k = row_at rows k \<and> row_sets rows' k = row_sets rows k" for k
    using assms(2) [of k] by (auto simp: row_sets_def)
  then have sub: "{i. row_at rows' i \<noteq> None} \<subseteq> {i. row_at rows i \<noteq> None}" by auto
  show ?thesis
  proof (rule derivedI)
    fix k r
    show "finite (T k)" using derivedD(1) [OF assms(1)] .
    show "row_at rows' k = Some r \<Longrightarrow> row_ok r" using derivedD(2) [OF assms(1), of k] s [of k] by simp
    assume k: "row_at rows' k \<noteq> None"
    then show "row_sets rows' k = xor_rows (row_sets rows0) (T k)" "T k \<subseteq> {k. row_at rows0 k \<noteq> None}"
      using derivedD(3,4) [OF assms(1), of k] s [OF k] by simp_all
  next
    fix Y assume "finite Y" "Y \<noteq> {}" "Y \<subseteq> {i. row_at rows' i \<noteq> None}"
    then show "xor_rows T Y \<noteq> {}" using derivedD(5) [OF assms(1)] sub by (meson order.trans)
  qed
qed

lemma derived_add_to_rows:
  "add_to_rows rows i0 is = Some rows' \<Longrightarrow> derived rows0 T rows \<Longrightarrow> \<exists>T'. derived rows0 T' rows'"
proof (induction rows i0 "is" arbitrary: T rule: add_to_rows.induct)
  case (2 rows i0 i "is")
  then obtain r r0 where r: "0 \<le> i" "nat i \<noteq> i0" "row_at rows (nat i) = Some r" "row_at rows i0 = Some r0"
      "add_to_rows (rows[nat i := Some (merge_rows r r0)]) i0 is = Some rows'"
    by (auto simp: bind_eq_Some_conv split: if_splits)
  then show ?case using 2(1) [OF _ r(3,4,5) derived_add [OF 2(3) r(2-4)]] by blast
qed auto

lemma row_at_destroyed: "row_at (rows[i := None]) k = row_at rows k \<or> row_at (rows[i := None]) k = None"
  by (cases "k = i") (auto simp: row_at_def)

lemma derived_apply_lines:
  "apply_lines rows ls = Some rows' \<Longrightarrow> derived rows0 T rows \<Longrightarrow> \<exists>T'. derived rows0 T' rows'"
proof (induction ls arbitrary: rows T)
  case (Cons l ls)
  obtain rows1 where r1: "apply_line rows l = Some rows1" "apply_lines rows1 ls = Some rows'" using Cons.prems(1) by (auto simp: bind_eq_Some_conv)
  obtain rows2 i0 "is" where r2: "add_to_rows rows i0 is = Some rows2" "rows1 = rows2 \<or> rows1 = rows2[i0 := None]"
    using r1(1) by (cases l) (auto simp: apply_line_def Let_def bind_eq_Some_conv split: if_splits)
  obtain T2 where T2: "derived rows0 T2 rows2" using derived_add_to_rows [OF r2(1) Cons.prems(2)] by blast
  have "derived rows0 T2 rows1" using r2(2)
  proof
    assume e: "rows1 = rows2[i0 := None]"
    show ?thesis by (rule derived_destroy [OF T2]) (use e row_at_destroyed in auto)
  qed (use T2 in simp)
  then show ?case using Cons.IH [OF r1(2)] by blast
qed auto

lemma derived_dependency:
  assumes d: "derived rows0 T rows" and Y: "finite Y" "Y \<noteq> {}" "Y \<subseteq> {i. row_at rows i \<noteq> None}" "xor_rows (row_sets rows) Y = {}"
  shows "xor_rows T Y \<noteq> {}" "xor_rows T Y \<subseteq> {i. row_at rows0 i \<noteq> None}" "xor_rows (row_sets rows0) (xor_rows T Y) = {}"
proof -
  show "xor_rows T Y \<noteq> {}" using derivedD(5) [OF d Y(1-3)] .
  have "k \<in> {i. row_at rows0 i \<noteq> None}" if "k \<in> xor_rows T Y" for k
  proof -
    have "odd (card {i \<in> Y. k \<in> T i})" using that by (simp add: xor_rows_def)
    then have "{i \<in> Y. k \<in> T i} \<noteq> {}" by (metis card.empty even_zero)
    then obtain i where i: "i \<in> Y" "k \<in> T i" by blast
    then have "row_at rows i \<noteq> None" using Y(3) by blast
    then show ?thesis using derivedD(4) [OF d] i(2) by blast
  qed
  then show "xor_rows T Y \<subseteq> {i. row_at rows0 i \<noteq> None}" by blast
  have "xor_rows (row_sets rows0) (T i) = row_sets rows i" if "i \<in> Y" for i
  proof -
    have "row_at rows i \<noteq> None" using Y(3) that by blast
    then show ?thesis using derivedD(3) [OF d] by simp
  qed
  then have "xor_rows (\<lambda>i. xor_rows (row_sets rows0) (T i)) Y = xor_rows (row_sets rows) Y" by (rule xor_rows_cong)
  then show "xor_rows (row_sets rows0) (xor_rows T Y) = {}" unfolding xor_rows_compose [OF Y(1) derivedD(1) [OF d]] using Y(4) by simp
qed

end
