(* ===== verification/Merge_drive.thy ===== *)
theory Merge_drive
  imports Merge_history "HOL-Library.Signed_Division"
begin

text \<open>
  Model of the loops of \<open>src/filter/merge_mono.c\<close> and \<open>swar.c\<close> that remove columns and rows and choose
  the merges: columns of weight 0 or 1 or above \<open>cwmax\<close>, rows that are too heavy or superfluous, and the
  merges of the columns of least weight.  The sequential version without \<open>USE_MARKOWITZ\<close> is modelled.
  The arrays that a merge leaves uninitialised may hold other values at each merge: they are
  a function of the matrix.
\<close>

section \<open>Removing columns\<close>

partial_function (option) deleteEmpty_loop :: "filter_matrix \<Rightarrow> int \<Rightarrow> (int \<times> filter_matrix) option" where
  "deleteEmpty_loop mat njrem =
     do { h \<leftarrow> at (mat_S mat) 0;
          c \<leftarrow> cells (mat_store mat) h;
          if dcl_next c = None then Some (njrem, mat)
          else do { (j, s) \<leftarrow> dclistRemoveMessy (mat_store mat) h;
                    _ \<leftarrow> at (mat_A mat) j;
                    deleteEmpty_loop (freeRj (set_wt j 0 (set_A j None (mat \<lparr> mat_store := s \<rparr>))) j) (njrem + 1) } }"

definition deleteEmptyColumnsSWAR :: "filter_matrix \<Rightarrow> (int \<times> filter_matrix) option" where
  "deleteEmptyColumnsSWAR mat =
     do { (njrem, mat) \<leftarrow> deleteEmpty_loop mat 0;
          Some (njrem, mat \<lparr> mat_rem_ncols := mat_rem_ncols mat - njrem \<rparr>) }"

definition deleteEmptyColumns :: "filter_matrix \<Rightarrow> (int \<times> filter_matrix) option" where
  "deleteEmptyColumns mat = deleteEmptyColumnsSWAR mat"

text \<open>One turn of the loop of \<open>deleteAllColsFromStack\<close>, for the column \<open>j\<close>.\<close>

definition deleteCol_body :: "report_t \<Rightarrow> filter_matrix \<Rightarrow> int \<Rightarrow> int \<Rightarrow> (report_t \<times> filter_matrix) option" where
  "deleteCol_body rep mat iS j =
     do { let mat = (if iS = 0 then mat \<lparr> mat_rem_ncols := mat_rem_ncols mat - 1 \<rparr> else mat);
          (rep, mat) \<leftarrow> (if iS = 1 then removeColDefinitely rep mat j else Some (rep, mat));
          k \<leftarrow> at (mat_wt mat) j;
          mat \<leftarrow> removeColumnAndUpdate mat j;
          Some (rep, set_wt j (- k) mat) }"

partial_function (option) deleteAllColsFromStack_loop ::
    "report_t \<Rightarrow> filter_matrix \<Rightarrow> int \<Rightarrow> int \<Rightarrow> (int \<times> report_t \<times> filter_matrix) option" where
  "deleteAllColsFromStack_loop rep mat iS njrem =
     do { h \<leftarrow> at (mat_S mat) iS;
          p \<leftarrow> dclistFirst (mat_store mat) h;
          (case p of None \<Rightarrow> Some (njrem, rep, mat)
           | Some p \<Rightarrow> do { c \<leftarrow> cells (mat_store mat) p;
                            (rep, mat) \<leftarrow> deleteCol_body rep mat iS (dcl_j c);
                            deleteAllColsFromStack_loop rep mat iS (njrem + 1) }) }"

definition deleteAllColsFromStack :: "report_t \<Rightarrow> filter_matrix \<Rightarrow> int \<Rightarrow> (int \<times> report_t \<times> filter_matrix) option" where
  "deleteAllColsFromStack rep mat iS = deleteAllColsFromStack_loop rep mat iS 0"

definition removeSingletons :: "report_t \<Rightarrow> filter_matrix \<Rightarrow> (int \<times> report_t \<times> filter_matrix) option" where
  "removeSingletons rep mat = deleteAllColsFromStack rep mat 1"

definition deleteHeavyColumns :: "report_t \<Rightarrow> filter_matrix \<Rightarrow> (int \<times> report_t \<times> filter_matrix) option" where
  "deleteHeavyColumns rep mat = deleteAllColsFromStack rep mat (int (mat_cwmax mat) + 1)"

section \<open>Removing rows\<close>

definition isRowToBeDeleted :: "filter_matrix \<Rightarrow> row \<Rightarrow> bool" where
  "isRowToBeDeleted mat r \<longleftrightarrow> list_all (\<lambda>j. \<not> (j \<noteq> - 1 \<and> mat_wt mat ! nat j \<ge> 0)) r"

text \<open>The first loop of \<open>inspectRowWeight\<close>; the flag tells that the function returns.\<close>

fun inspect_heavy :: "report_t \<Rightarrow> filter_matrix \<Rightarrow> nat list \<Rightarrow> int \<Rightarrow> (bool \<times> int \<times> report_t \<times> filter_matrix) option" where
  "inspect_heavy rep mat [] nirem = Some (False, nirem, rep, mat)"
| "inspect_heavy rep mat (i # is) nirem =
     (if mat_rem_nrows mat - mat_rem_ncols mat \<le> mat_keep mat then Some (True, nirem, rep, mat)
      else do { r \<leftarrow> at (mat_rows mat) (int i);
                (case r of None \<Rightarrow> inspect_heavy rep mat is nirem
                 | Some r \<Rightarrow>
                   if int (length r) > mat_rwmax mat
                   then do { (rep, mat) \<leftarrow> removeRowDefinitely rep mat (int i);
                             if nirem + 1 > 128 then Some (False, nirem + 1, rep, mat)
                             else inspect_heavy rep mat is (nirem + 1) }
                   else inspect_heavy rep mat is nirem) })"

fun inspect_useless :: "filter_matrix \<Rightarrow> nat list \<Rightarrow> filter_matrix option" where
  "inspect_useless mat [] = Some mat"
| "inspect_useless mat (i # is) =
     do { r \<leftarrow> at (mat_rows mat) (int i);
          (case r of None \<Rightarrow> inspect_useless mat is
           | Some r \<Rightarrow>
             if isRowToBeDeleted mat r
             then do { mat \<leftarrow> removeRowAndUpdate mat (int i); inspect_useless (destroyRow mat (int i)) is }
             else inspect_useless mat is) }"

definition inspectRowWeight :: "report_t \<Rightarrow> filter_matrix \<Rightarrow> (int \<times> report_t \<times> filter_matrix) option" where
  "inspectRowWeight rep mat =
     do { (returned, nirem, rep, mat) \<leftarrow> inspect_heavy rep mat [0..<mat_nrows mat] 0;
          if returned then Some (nirem, rep, mat)
          else do { mat \<leftarrow> inspect_useless mat [0..<mat_nrows mat]; Some (nirem, rep, mat) } }"

definition deleteScore :: "row \<Rightarrow> int" where
  "deleteScore r = int (length r)"

text \<open>
  \<open>findSuperfluousRowsFor2\<close>: for each column of weight 3 the first longest of its rows.  The result is the list
  of pairs \<open>(score, row)\<close> written to \<open>tmp\<close>, an array of \<open>ntmp\<close> cells.
\<close>

fun longest_row :: "filter_matrix \<Rightarrow> int \<Rightarrow> row \<Rightarrow> int list \<Rightarrow> int option" where
  "longest_row mat kmin rmin [] = Some kmin"
| "longest_row mat kmin rmin (i # is) =
     (if i \<noteq> - 1
      then do { r \<leftarrow> row_of mat i;
                if length r > length rmin then longest_row mat i r is else longest_row mat kmin rmin is }
      else longest_row mat kmin rmin is)"

definition longest_row_of_col :: "filter_matrix \<Rightarrow> int \<Rightarrow> int option" where
  "longest_row_of_col mat j =
     do { Rj \<leftarrow> at (mat_R mat) j;
          Rj \<leftarrow> Rj;
          (case dropWhile (\<lambda>i. i = - 1) Rj of [] \<Rightarrow> None
           | i # is \<Rightarrow> do { r \<leftarrow> row_of mat i; longest_row mat i r is }) }"

partial_function (option) superfluousFor2_loop ::
    "filter_matrix \<Rightarrow> nat \<Rightarrow> nat option \<Rightarrow> (int \<times> int) list \<Rightarrow> (int \<times> int) list option" where
  "superfluousFor2_loop mat ntmp p tmp =
     (case p of None \<Rightarrow> Some tmp
      | Some p \<Rightarrow>
        do { c \<leftarrow> cells (mat_store mat) p;
             i \<leftarrow> longest_row_of_col mat (dcl_j c);
             let tmp = tmp @ [(0, i)];
             if 2 * length tmp > ntmp then None
             else if 2 * length tmp \<ge> ntmp then Some tmp
             else superfluousFor2_loop mat ntmp (dcl_next c) tmp })"

definition findSuperfluousRowsFor2 :: "nat \<Rightarrow> filter_matrix \<Rightarrow> (int \<times> int) list option" where
  "findSuperfluousRowsFor2 ntmp mat =
     do { h \<leftarrow> at (mat_S mat) 3;
          p \<leftarrow> dclistFirst (mat_store mat) h;
          superfluousFor2_loop mat ntmp p [] }"

text \<open>\<open>qsort\<close> of the pairs by the first component, with the comparison \<open>cmp\<close>.\<close>

definition scored_rows :: "filter_matrix \<Rightarrow> (int \<times> int) list" where
  "scored_rows mat = [(deleteScore (the (mat_rows mat ! i)), int i). i \<leftarrow> [0..<mat_nrows mat], mat_rows mat ! i \<noteq> None]"

definition findSuperfluousRows :: "((int \<times> int) list \<Rightarrow> (int \<times> int) list) \<Rightarrow> nat \<Rightarrow> filter_matrix \<Rightarrow> int \<Rightarrow> (int \<times> int) list option" where
  "findSuperfluousRows qsort ntmp mat m =
     do { tmp \<leftarrow> (if m = 2 then findSuperfluousRowsFor2 ntmp mat else Some []);
          if tmp \<noteq> [] then Some tmp
          else if 2 * length (scored_rows mat) \<le> ntmp then Some (qsort (scored_rows mat))
          else None }"

fun deleteRows_loop :: "report_t \<Rightarrow> filter_matrix \<Rightarrow> int \<Rightarrow> int \<Rightarrow> (int \<times> int) list \<Rightarrow> int \<Rightarrow> (int \<times> report_t \<times> filter_matrix) option" where
  "deleteRows_loop rep mat keep niremmax [] nirem = Some (nirem, rep, mat)"
| "deleteRows_loop rep mat keep niremmax ((sc, i) # tmp) nirem =
     (if nirem \<ge> niremmax \<or> mat_rem_nrows mat - mat_rem_ncols mat \<le> keep then Some (nirem, rep, mat)
      else do { r \<leftarrow> at (mat_rows mat) i;
                if r \<noteq> None
                then do { (rep, mat) \<leftarrow> removeRowDefinitely rep mat i; deleteRows_loop rep mat keep niremmax tmp (nirem + 1) }
                else deleteRows_loop rep mat keep niremmax tmp nirem })"

definition deleteSuperfluousRows ::
    "((int \<times> int) list \<Rightarrow> (int \<times> int) list) \<Rightarrow> report_t \<Rightarrow> filter_matrix \<Rightarrow> int \<Rightarrow> int \<Rightarrow> int \<Rightarrow> (int \<times> report_t \<times> filter_matrix) option" where
  "deleteSuperfluousRows qsort rep mat keep niremmax m =
     (if mat_rem_nrows mat - mat_rem_ncols mat \<le> keep then Some (0, rep, mat)
      else do { tmp \<leftarrow> findSuperfluousRows qsort (nat (2 * mat_rem_nrows mat)) mat m;
                deleteRows_loop rep mat keep niremmax (rev tmp) 0 })"

definition number_of_superfluous_rows :: "filter_matrix \<Rightarrow> int option" where
  "number_of_superfluous_rows mat =
     (if mat_keep mat = 0 then None
      else let kappa = (mat_rem_nrows mat - mat_rem_ncols mat) sdiv mat_keep mat in
        Some (if kappa \<le> 2 ^ 4 then mat_keep mat sdiv 2
              else if kappa \<le> 2 ^ 5 then mat_keep mat * (kappa sdiv 4)
              else if kappa \<le> 2 ^ 10 then mat_keep mat * (kappa sdiv 8)
              else if kappa \<le> 2 ^ 15 then mat_keep mat * (kappa sdiv 16)
              else if kappa \<le> 2 ^ 20 then mat_keep mat * (kappa sdiv 32)
              else mat_keep mat * (kappa sdiv 64)))"

section \<open>The merges\<close>

text \<open>
  \<open>merge_m_fast\<close> merges the columns of weight \<open>m\<close>, at most \<open>maxdo\<close> of them unless \<open>maxdo\<close> is 0.
\<close>

definition mergeForColumn2 ::
    "(filter_matrix \<Rightarrow> merge_arrays) \<Rightarrow> report_t \<Rightarrow> filter_matrix \<Rightarrow> int \<Rightarrow> bool \<Rightarrow> int \<Rightarrow> (int \<times> report_t \<times> filter_matrix) option" where
  "mergeForColumn2 arr rep mat njrem useMST j =
     do { m \<leftarrow> at (mat_wt mat) j;
          (rep, mat) \<leftarrow> mergeForColumn (arr mat) rep mat (nat m) j useMST;
          (n, rep, mat) \<leftarrow> deleteHeavyColumns rep mat;
          Some (njrem + n, rep, mat) }"

partial_function (option) merge_m_loop ::
    "(filter_matrix \<Rightarrow> merge_arrays) \<Rightarrow> report_t \<Rightarrow> filter_matrix \<Rightarrow> nat \<Rightarrow> int \<Rightarrow> int \<Rightarrow> (int \<times> report_t \<times> filter_matrix) option" where
  "merge_m_loop arr rep mat m maxdo njrem =
     do { h \<leftarrow> at (mat_S mat) (int m);
          p \<leftarrow> dclistFirst (mat_store mat) h;
          (case p of None \<Rightarrow> Some (njrem, rep, mat)
           | Some p \<Rightarrow>
             do { c \<leftarrow> cells (mat_store mat) p;
                  (rep, mat) \<leftarrow> mergeForColumn (arr mat) rep mat m (dcl_j c) True;
                  (n, rep, mat) \<leftarrow> deleteHeavyColumns rep mat;
                  if maxdo - 1 = 0 then Some (njrem + n, rep, mat)
                  else merge_m_loop arr rep mat m (maxdo - 1) (njrem + n) }) }"

definition merge_m_fast ::
    "(filter_matrix \<Rightarrow> merge_arrays) \<Rightarrow> report_t \<Rightarrow> filter_matrix \<Rightarrow> nat \<Rightarrow> int \<Rightarrow> (int \<times> report_t \<times> filter_matrix) option" where
  "merge_m_fast arr rep mat m maxdo = merge_m_loop arr rep mat m maxdo 0"

fun minColWeight_loop :: "filter_matrix \<Rightarrow> nat list \<Rightarrow> int option" where
  "minColWeight_loop mat [] = Some (- 1)"
| "minColWeight_loop mat (m # ms) =
     do { h \<leftarrow> at (mat_S mat) (int m);
          p \<leftarrow> dclistFirst (mat_store mat) h;
          if p \<noteq> None then Some (int m) else minColWeight_loop mat ms }"

definition minColWeight :: "filter_matrix \<Rightarrow> int option" where
  "minColWeight mat = minColWeight_loop mat [1..<mat_cwmax mat + 1]"

definition doOneMerge ::
    "(filter_matrix \<Rightarrow> merge_arrays) \<Rightarrow> report_t \<Rightarrow> filter_matrix \<Rightarrow> int \<Rightarrow> nat \<Rightarrow> int \<Rightarrow> bool \<Rightarrow> (int \<times> report_t \<times> filter_matrix) option" where
  "doOneMerge arr rep mat njrem m maxdo useMST =
     (if m = 1 then do { (n, rep, mat) \<leftarrow> removeSingletons rep mat; Some (njrem + n, rep, mat) }
      else if m = 2 then do { (n, rep, mat) \<leftarrow> merge_m_fast arr rep mat m maxdo; Some (njrem + n, rep, mat) }
      else do { h \<leftarrow> at (mat_S mat) (int m);
                p \<leftarrow> dclistFirst (mat_store mat) h;
                p \<leftarrow> p;
                c \<leftarrow> cells (mat_store mat) p;
                mergeForColumn2 arr rep mat njrem useMST (dcl_j c) })"

section \<open>The invariant of the driving loops\<close>

definition live_rows :: "filter_matrix \<Rightarrow> nat set" where
  "live_rows mat = {i. i < length (mat_rows mat) \<and> mat_rows mat ! i \<noteq> None}"

definition active :: "filter_matrix \<Rightarrow> nat" where
  "active mat = card {j. j < length (mat_A mat) \<and> mat_A mat ! j \<noteq> None}"

text \<open>
  \<open>progress\<close>: what the loops do to the matrix.  Parameters stay, columns leave the stacks and never come
  back, rows are destroyed and never come back, and \<open>rem_nrows\<close> stays above the number of rows
  left if it was.
\<close>

definition progress :: "filter_matrix \<Rightarrow> filter_matrix \<Rightarrow> bool" where
  "progress mat mat' \<longleftrightarrow> mat_nrows mat' = mat_nrows mat \<and> mat_ncols mat' = mat_ncols mat
     \<and> mat_wburied mat' = mat_wburied mat \<and> mat_nburied mat' = mat_nburied mat \<and> mat_cwmax mat' = mat_cwmax mat
     \<and> mat_rwmax mat' = mat_rwmax mat \<and> mat_keep mat' = mat_keep mat
     \<and> (\<forall>j. mat_A mat ! j = None \<longrightarrow> mat_A mat' ! j = None) \<and> live_rows mat' \<subseteq> live_rows mat
     \<and> mat_rem_nrows mat - int (card (live_rows mat)) \<le> mat_rem_nrows mat' - int (card (live_rows mat'))"

lemma progress_refl [simp]: "progress mat mat"
  by (simp add: progress_def)

lemma progress_trans: "progress mat1 mat2 \<Longrightarrow> progress mat2 mat3 \<Longrightarrow> progress mat1 mat3"
  unfolding progress_def by auto

definition merge_inv :: "filter_matrix \<Rightarrow> bool" where
  "merge_inv mat \<longleftrightarrow> matrix_ok mat \<and> 2 \<le> mat_cwmax mat \<and> mat_ncols mat < 2 ^ 22
     \<and> 0 \<le> mat_nburied mat \<and> mat_nburied mat \<le> int (mat_ncols mat) \<and> (\<forall>b \<in> set (mat_wburied mat). 0 \<le> b)
     \<and> int (card (live_rows mat)) \<le> mat_rem_nrows mat"

lemma merge_inv_step: "merge_inv mat \<Longrightarrow> matrix_ok mat' \<Longrightarrow> progress mat mat' \<Longrightarrow> merge_inv mat'"
  by (simp add: merge_inv_def progress_def)

lemma matrix_ok_dims:
  assumes "matrix_ok mat"
  shows "length (mat_wt mat) = mat_ncols mat" "length (mat_R mat) = mat_ncols mat" "length (mat_A mat) = mat_ncols mat"
    "length (mat_S mat) = mat_cwmax mat + 2" "length (mat_rows mat) = mat_nrows mat" "length (mat_wburied mat) = mat_nrows mat"
  using assms mat_ok_dims unfolding matrix_ok_def by blast+

lemma active_le:
  assumes "matrix_ok mat" "matrix_ok mat'" "progress mat mat'"
  shows "active mat' \<le> active mat"
  unfolding active_def using assms matrix_ok_dims(3) by (intro card_mono) (auto simp: progress_def)

lemma active_less:
  assumes "matrix_ok mat" "matrix_ok mat'" "progress mat mat'" "j < mat_ncols mat" "mat_A mat ! j \<noteq> None" "mat_A mat' ! j = None"
  shows "active mat' < active mat"
  unfolding active_def
proof (rule psubset_card_mono)
  have "length (mat_A mat') = length (mat_A mat)" "j < length (mat_A mat)"
    using assms(1-4) matrix_ok_dims(3) by (simp_all add: progress_def)
  moreover have "\<forall>j. mat_A mat ! j = None \<longrightarrow> mat_A mat' ! j = None" using assms(3) by (simp add: progress_def)
  ultimately have "{j. j < length (mat_A mat') \<and> mat_A mat' ! j \<noteq> None} \<subseteq> {j. j < length (mat_A mat) \<and> mat_A mat ! j \<noteq> None}"
      "j \<in> {j. j < length (mat_A mat) \<and> mat_A mat ! j \<noteq> None}" "j \<notin> {j. j < length (mat_A mat') \<and> mat_A mat' ! j \<noteq> None}"
    using assms(5,6) by auto
  then show "{j. j < length (mat_A mat') \<and> mat_A mat' ! j \<noteq> None} \<subset> {j. j < length (mat_A mat) \<and> mat_A mat ! j \<noteq> None}" by blast
qed simp

lemma finite_live [simp]: "finite (live_rows mat)"
  by (simp add: live_rows_def)

lemma live_rows_destroy:
  "mat_rows mat' = (mat_rows mat)[i := None] \<Longrightarrow> live_rows mat' = live_rows mat - {i}"
  by (auto simp: live_rows_def nth_list_update) (metis nth_list_update_eq nth_list_update_neq option.distinct(1))

lemma progress_destroy:
  assumes "rest_frame mat m" "mat_rows m = (mat_rows mat)[i := None]" "row_at (mat_rows mat) i \<noteq> None"
    and mat': "mat' = m \<lparr> mat_rem_nrows := mat_rem_nrows m - x \<rparr>" "x \<le> 1"
  shows "progress mat mat'"
proof -
  have "i \<in> live_rows mat" using assms(3) by (auto simp: live_rows_def row_at_def split: if_splits)
  moreover have "live_rows mat' = live_rows mat - {i}" using assms(2) by (intro live_rows_destroy) (simp add: mat'(1))
  ultimately have "live_rows mat' \<subseteq> live_rows mat" "int (card (live_rows mat')) = int (card (live_rows mat)) - 1"
    using card_Suc_Diff1 [of "live_rows mat" i] by auto
  then show ?thesis using assms(1) mat'(2) unfolding progress_def mat'(1) by (simp add: rest_frame_def)
qed

lemma matrix_ok_counters [simp]:
  "matrix_ok (mat \<lparr> mat_rem_nrows := x \<rparr>) = matrix_ok mat" "matrix_ok (mat \<lparr> mat_rem_ncols := x \<rparr>) = matrix_ok mat"
  using mat_ok_cong [OF same_cols_simps(2)] mat_ok_cong [OF same_cols_simps(3)] by (simp_all add: matrix_ok_def)

lemma progress_counter [simp]: "progress mat (mat \<lparr> mat_rem_ncols := x \<rparr>)"
  by (simp add: progress_def live_rows_def)

lemma removeRowDefinitely_ok:
  assumes ok: "matrix_ok mat" and r: "row_at (mat_rows mat) i = Some r" and rep: "rep_type rep = 0 \<or> rep_type rep = 2"
  shows "\<exists>mat'. removeRowDefinitely rep mat (int i) = Some (rep_add rep [[int i]], mat') \<and> matrix_ok mat' \<and> progress mat mat'
     \<and> mat_rows mat' = (mat_rows mat)[i := None] \<and> mat_rem_nrows mat' = mat_rem_nrows mat - 1 \<and> mat_rem_ncols mat' = mat_rem_ncols mat
     \<and> (\<forall>j. (mat_A mat' ! j = None) = (mat_A mat ! j = None))"
proof -
  obtain m1 where m1: "removeRowAndUpdate mat (int i) = Some m1" "matrix_ok (destroyRow m1 (int i))" "rest_frame mat (destroyRow m1 (int i))"
      "mat_rows (destroyRow m1 (int i)) = (mat_rows mat)[i := None]"
    using destroyRow_ok [OF ok r] by blast
  let ?m = "destroyRow m1 (int i) \<lparr> mat_rem_nrows := mat_rem_nrows (destroyRow m1 (int i)) - 1 \<rparr>"
  have "removeRowDefinitely rep mat (int i) = Some (rep_add rep [[int i]], ?m)"
    using m1(1) reportn_val [OF rep, of 1 "[int i]"] by (simp add: removeRowDefinitely_def report1_def Let_def)
  moreover have "progress mat ?m" using progress_destroy [OF m1(3,4) _ refl, of 1] r by simp
  ultimately show ?thesis using m1(2-4) by (simp add: rest_frame_def)
qed

text \<open>The next column of a stack, if any.\<close>

lemma stack_first_cases:
  assumes ok: "matrix_ok mat" and w: "w < length (mat_S mat)"
  obtains h where "at (mat_S mat) (int w) = Some h" "dclistFirst (mat_store mat) h = Some None"
      "\<And>j. j < mat_ncols mat \<Longrightarrow> mat_A mat ! j \<noteq> None \<Longrightarrow> level mat j \<noteq> w"
  | h p c j where "at (mat_S mat) (int w) = Some h" "dclistFirst (mat_store mat) h = Some (Some p)" "cells (mat_store mat) p = Some c"
      "dcl_j c = int j" "j < mat_ncols mat" "mat_A mat ! j = Some p" "level mat j = w"
proof -
  obtain L where L: "stacks (mat_S mat) (mat_A mat) (mat_store mat) (level mat) L" using ok by (auto simp: matrix_ok_def mat_ok_def)
  have h: "at (mat_S mat) (int w) = Some (mat_S mat ! w)" using w by simp
  note f = stacks_first [OF L w]
  have lA: "length (mat_A mat) = mat_ncols mat" using matrix_ok_dims(3) [OF ok] .
  show thesis
  proof (cases "L w")
    case Nil
    have "level mat j \<noteq> w" if "j < mat_ncols mat" "mat_A mat ! j \<noteq> None" for j
      using stacks_ptr [OF L, of j] that lA Nil by auto
    then show ?thesis using that(1) [OF h] f Nil by simp
  next
    case (Cons pj cs)
    obtain p j where pj: "pj = (p, j)" by (cases pj)
    have j: "0 \<le> j" "nat j < mat_ncols mat" "mat_A mat ! nat j = Some p" "level mat (nat j) = w"
      using stacks_col [OF L w, of p j] Cons pj lA by auto
    have "is_dclist (mat_store mat) (mat_S mat ! w) (L w)" using stacks_list [OF L w] .
    then have "\<exists>c. cells (mat_store mat) p = Some c \<and> dcl_j c = j" using Cons pj by (auto simp: is_dclist_def)
    then show ?thesis using that(2) [OF h, of p _ "nat j"] f Cons pj j by auto
  qed
qed

lemma removeColumn_val:
  assumes "stacks (mat_S mat) (mat_A mat) (mat_store mat) lev L" "j < length (mat_A mat)" "mat_A mat ! j = Some p"
  shows "\<exists>s L'. removeColumnAndUpdate mat (int j)
        = Some (mat \<lparr> mat_wt := (mat_wt mat)[j := 0], mat_R := (mat_R mat)[j := None], mat_A := (mat_A mat)[j := None], mat_store := s \<rparr>)
      \<and> stacks (mat_S mat) ((mat_A mat)[j := None]) s lev L'"
proof -
  obtain s L' where s: "dclistRemove (mat_store mat) p = Some s" "stacks (mat_S mat) ((mat_A mat)[j := None]) s lev L'"
    using stacks_remove [OF assms] by blast
  have "mat \<lparr> mat_store := s, mat_A := (mat_A mat)[j := None], mat_wt := (mat_wt mat)[j := 0], mat_R := (mat_R mat)[j := None] \<rparr>
      = mat \<lparr> mat_wt := (mat_wt mat)[j := 0], mat_R := (mat_R mat)[j := None], mat_A := (mat_A mat)[j := None], mat_store := s \<rparr>"
    by (rule filter_matrix.equality) simp_all
  then have "removeColumnAndUpdate mat (int j)
      = Some (mat \<lparr> mat_wt := (mat_wt mat)[j := 0], mat_R := (mat_R mat)[j := None], mat_A := (mat_A mat)[j := None], mat_store := s \<rparr>)"
    using assms(2,3) s(1) by (simp add: removeColumnAndUpdate_def remove_j_from_SWAR_def remove_j_from_S_def set_A_def set_wt_def freeRj_def set_R_def)
  then show ?thesis using s(2) by blast
qed

text \<open>A column that leaves the stacks, because it is heavy or because no row of \<open>M'\<close> contains it.\<close>

lemma retire_col:
  assumes ok: "mat_ok M mat" and j: "j < mat_ncols mat" and M': "\<And>i. M' i \<subseteq> M i" "\<And>i k. k \<noteq> int j \<Longrightarrow> k \<in> M' i \<longleftrightarrow> k \<in> M i"
    and w: "w < 0 \<or> w = 0 \<and> rows_with M' j = {}" and st: "stacks (mat_S mat) ((mat_A mat)[j := None]) s (level mat) L"
    and mat': "mat' = mat \<lparr> mat_wt := (mat_wt mat)[j := w], mat_R := (mat_R mat)[j := None], mat_A := (mat_A mat)[j := None], mat_store := s \<rparr>"
  shows "mat_ok M' mat'"
proof -
  note d = mat_ok_dims [OF ok]
  have "stacks (mat_S mat) ((mat_A mat)[j := None]) s (level mat') L"
  proof (rule stacks_lev_cong [OF st])
    fix k assume "k < length ((mat_A mat)[j := None])" "(mat_A mat)[j := None] ! k \<noteq> None"
    then have "k \<noteq> j" by auto
    then show "level mat' k = level mat k" by (simp add: level_def mat')
  qed
  moreover have "col_ok M' mat' k" if k: "k < mat_ncols mat" for k
  proof (cases "k = j")
    case True
    then show ?thesis using w j(1) d(1-3) by (simp add: col_ok_def mat')
  next
    case False
    then have "rows_with M' k = rows_with M k" using M'(2) by (auto simp: rows_with_def)
    then show ?thesis using mat_ok_col [OF ok k] False by (rule_tac col_ok_other) (simp_all add: mat')
  qed
  moreover have "dims_ok M' mat'"
  proof -
    have "M' i = {}" if "mat_nrows mat \<le> i" for i using d(8) [of i] M'(1) [of i] that by fastforce
    moreover have "M' i \<subseteq> {0..<int (mat_ncols mat)}" for i using d(7) [of i] M'(1) by blast
    ultimately show ?thesis using d(1-6) by (simp add: dims_ok_def mat')
  qed
  ultimately show ?thesis unfolding mat_ok_def by (auto simp: mat')
qed

section \<open>Emptying a stack\<close>

lemma level_heavy: "level mat j = mat_cwmax mat + 1 \<longleftrightarrow> mat_wt mat ! j > int (mat_cwmax mat)"
  by (auto simp: level_def)

lemma level_light: "w \<le> mat_cwmax mat \<Longrightarrow> 0 < w \<Longrightarrow> level mat j = w \<longleftrightarrow> mat_wt mat ! j = int w"
  by (auto simp: level_def)

lemma heavy_body:
  assumes ok: "matrix_ok mat" and c: "1 \<le> mat_cwmax mat" and j: "j < mat_ncols mat" "mat_A mat ! j = Some p" "level mat j = mat_cwmax mat + 1"
  shows "\<exists>mat'. deleteCol_body rep mat (int (mat_cwmax mat) + 1) (int j) = Some (rep, mat') \<and> matrix_ok mat' \<and> progress mat mat'
     \<and> mat_A mat' = (mat_A mat)[j := None] \<and> mat_rows mat' = mat_rows mat \<and> mat_rem_nrows mat' = mat_rem_nrows mat \<and> mat_rem_ncols mat' = mat_rem_ncols mat"
proof -
  have mok: "mat_ok (row_sets (mat_rows mat)) mat" using ok by (simp add: matrix_ok_def)
  note d = matrix_ok_dims [OF ok]
  obtain L where L: "stacks (mat_S mat) (mat_A mat) (mat_store mat) (level mat) L" using mok by (auto simp: mat_ok_def)
  obtain s L' where s: "removeColumnAndUpdate mat (int j)
      = Some (mat \<lparr> mat_wt := (mat_wt mat)[j := 0], mat_R := (mat_R mat)[j := None], mat_A := (mat_A mat)[j := None], mat_store := s \<rparr>)"
      "stacks (mat_S mat) ((mat_A mat)[j := None]) s (level mat) L'"
    using removeColumn_val [OF L _ j(2)] j(1) d(3) by auto
  let ?w = "- mat_wt mat ! j"
  let ?m = "mat \<lparr> mat_wt := (mat_wt mat)[j := ?w], mat_R := (mat_R mat)[j := None], mat_A := (mat_A mat)[j := None], mat_store := s \<rparr>"
  have "?w < 0" using j(3) level_heavy [of mat j] by simp
  then have "mat_ok (row_sets (mat_rows mat)) ?m" using retire_col [OF mok j(1) _ _ _ s(2) refl] by blast
  then have "matrix_ok ?m" using ok by (simp add: matrix_ok_def)
  moreover have "progress mat ?m"
  proof -
    have "(mat_A mat)[j := None] ! k = None" if "mat_A mat ! k = None" for k using that by (metis nth_list_update_neq nth_list_update_eq list_update_beyond not_le)
    then show ?thesis by (simp add: progress_def live_rows_def)
  qed
  moreover have "deleteCol_body rep mat (int (mat_cwmax mat) + 1) (int j) = Some (rep, ?m)"
    using c s(1) j(1) d(1) by (simp add: deleteCol_body_def set_wt_def)
  ultimately show ?thesis by simp
qed

lemma crunch_remove1: "crunch xs j = remove1 j xs"
  by (induction xs) auto

lemma removeColDefinitely_none: "live r = [] \<Longrightarrow> removeColDefinitely_loop rep mat j r = Some (rep, mat)"
  by (induction r arbitrary: rep mat) (auto simp: live_def split: if_splits)

lemma removeColDefinitely_one: "live r = [i] \<Longrightarrow> removeColDefinitely_loop rep mat j r =
    do { mat \<leftarrow> remove_j_from_row mat i j;
         (rep, mat) \<leftarrow> removeRowDefinitely rep mat i;
         Some (rep, mat \<lparr> mat_rem_ncols := mat_rem_ncols mat - 1 \<rparr>) }"
proof (induction r)
  case (Cons x r)
  show ?case
  proof (cases "x = - 1")
    case True
    then show ?thesis using Cons by (simp add: live_def)
  next
    case False
    then have "x = i" "live r = []" using Cons.prems by (simp_all add: live_def)
    then show ?thesis using False removeColDefinitely_none by (simp add: case_prod_unfold)
  qed
qed (simp add: live_def)

lemma singleton_row:
  assumes ok: "matrix_ok mat" and c: "1 \<le> mat_cwmax mat" and j: "j < mat_ncols mat" "mat_A mat ! j = Some p" "level mat j = 1"
  shows "\<exists>r i row. mat_R mat ! j = Some r \<and> live r = [int i] \<and> row_at (mat_rows mat) i = Some row \<and> int j \<in> set row
     \<and> rows_with (row_sets (mat_rows mat)) j = {i}"
proof -
  let ?M = "row_sets (mat_rows mat)"
  have mok: "mat_ok ?M mat" using ok by (simp add: matrix_ok_def)
  have "mat_wt mat ! j = 1" using j(3) c level_light [of 1 mat j] by simp
  then obtain r where r: "mat_R mat ! j = Some r" "set (live r) = int ` rows_with ?M j" "length (live r) = 1"
    using mat_ok_col [OF mok j(1)] j(2) by (auto simp: col_ok_def)
  then obtain x where x: "live r = [x]" by (metis One_nat_def length_0_conv length_Suc_conv)
  have img: "int ` rows_with ?M j = {x}" using r(2) x by simp
  then obtain i where i: "x = int i" "i \<in> rows_with ?M j" by blast
  have "rows_with ?M j = {i}" using img i by (metis image_insert image_empty inj_image_eq_iff inj_of_nat)
  moreover have "\<exists>row. row_at (mat_rows mat) i = Some row \<and> int j \<in> set row"
    using i(2) by (auto simp: rows_with_def row_sets_def split: option.splits)
  ultimately show ?thesis using r(1) x i(1) by blast
qed

lemma row_without:
  assumes ok: "matrix_ok mat" and r: "row_at (mat_rows mat) i = Some row" "int j \<in> set row"
  shows "\<exists>m. remove_j_from_row mat (int i) (int j) = Some m \<and> mat_ok (row_sets (mat_rows mat)) m \<and> rest_frame mat m
     \<and> row_at (mat_rows m) i = Some (remove1 (int j) row) \<and> mat_rows m = (mat_rows mat)[i := Some (remove1 (int j) row)]"
proof -
  let ?rows = "(mat_rows mat)[i := Some (remove1 (int j) row)]"
  let ?m = "add_weight (- 1) (mat \<lparr> mat_rows := ?rows \<rparr>)"
  have i: "i < length (mat_rows mat)" using row_at_less [OF r(1)] .
  have "same_cols mat ?m" by (simp add: same_cols_def add_weight_def)
  then have "mat_ok (row_sets (mat_rows mat)) ?m" using ok mat_ok_cong unfolding matrix_ok_def by blast
  moreover have "remove_j_from_row mat (int i) (int j) = Some ?m"
    using r by (simp add: remove_j_from_row_def row_of_def hasCol_loop_eq crunch_remove1)
  moreover have "rest_frame mat ?m" using rest_frame_upd(1,2) rest_frame_trans by blast
  moreover have "row_at (mat_rows ?m) i = Some (remove1 (int j) row)" "mat_rows ?m = ?rows" using i by (simp_all add: row_at_def add_weight_def)
  ultimately show ?thesis by blast
qed

text \<open>The row of a singleton column is destroyed; only the column itself is then out of date.\<close>

lemma destroy_singleton_row:
  assumes ok: "matrix_ok mat" and r: "row_at (mat_rows mat) i = Some row" "int j \<in> set row" and rep: "rep_type rep = 0 \<or> rep_type rep = 2"
  shows "\<exists>m. do { mat \<leftarrow> remove_j_from_row mat (int i) (int j); removeRowDefinitely rep mat (int i) } = Some (rep_add rep [[int i]], m)
     \<and> mat_ok ((row_sets (mat_rows mat))(i := {int j})) m \<and> mat_rows m = (mat_rows mat)[i := None] \<and> progress mat m
     \<and> mat_rem_nrows m = mat_rem_nrows mat - 1 \<and> mat_rem_ncols m = mat_rem_ncols mat
     \<and> (\<forall>j. (mat_A m ! j = None) = (mat_A mat ! j = None))"
proof -
  let ?M = "row_sets (mat_rows mat)" and ?r = "remove1 (int j) row"
  have dist: "distinct row" using ok r(1) row_ok_distinct by (auto simp: matrix_ok_def)
  have Mi: "?M i = set row" using row_sets_Some [OF r(1)] .
  obtain m1 where m1: "remove_j_from_row mat (int i) (int j) = Some m1" "mat_ok ?M m1" "rest_frame mat m1" "row_at (mat_rows m1) i = Some ?r"
      "mat_rows m1 = (mat_rows mat)[i := Some ?r]"
    using row_without [OF ok r] by blast
  obtain m2 where m2: "removeRowAndUpdate m1 (int i) = Some m2" "mat_ok (?M(i := ?M i - set ?r)) m2"
      "col_frame (add_weight (- (int (length ?r) + mat_wburied m1 ! i)) m1) m2"
    using removeRow_sub [OF m1(2,4)] dist unfolding Mi by (auto simp: set_remove1_eq)
  have "?M i - set ?r = {int j}" using dist r(2) unfolding Mi by auto
  then have ok2: "mat_ok (?M(i := {int j})) (destroyRow m2 (int i))" using m2(2) mat_ok_cong [OF same_cols_simps(4)] by auto
  have fr: "rest_frame mat (destroyRow m2 (int i))"
    using m1(3) rest_frame_col [OF m2(3)] rest_frame_upd(1,3) rest_frame_trans by meson
  have "mat_rows m2 = mat_rows m1" using col_frame_simps(5) [OF m2(3)] by (simp add: add_weight_def)
  then have rows: "mat_rows (destroyRow m2 (int i)) = (mat_rows mat)[i := None]" using m1(5) by (simp add: destroyRow_def)
  let ?m = "destroyRow m2 (int i) \<lparr> mat_rem_nrows := mat_rem_nrows (destroyRow m2 (int i)) - 1 \<rparr>"
  have "mat_ok (?M(i := {int j})) ?m" using ok2 mat_ok_cong [OF same_cols_simps(2)] by blast
  moreover have "progress mat ?m" using progress_destroy [OF fr rows _ refl, of 1] r(1) by simp
  moreover have "do { mat \<leftarrow> remove_j_from_row mat (int i) (int j); removeRowDefinitely rep mat (int i) } = Some (rep_add rep [[int i]], ?m)"
    using m1(1) m2(1) reportn_val [OF rep, of 1 "[int i]"] by (simp add: removeRowDefinitely_def report1_def Let_def)
  ultimately show ?thesis using fr rows by (simp add: rest_frame_def)
qed

lemma progress_retire:
  assumes "progress mat m" "mat' = m \<lparr> mat_wt := w, mat_R := r, mat_A := (mat_A m)[j := None], mat_store := s, mat_rem_ncols := x \<rparr>"
  shows "progress mat mat'"
proof -
  have "(mat_A m)[j := None] ! k = None" if "mat_A m ! k = None" for k using that by (metis nth_list_update_neq nth_list_update_eq list_update_beyond not_le)
  then have "progress m mat'" by (simp add: progress_def live_rows_def assms(2))
  then show ?thesis using progress_trans [OF assms(1)] by blast
qed

lemma singleton_body:
  assumes ok: "matrix_ok mat" and c: "1 \<le> mat_cwmax mat" and j: "j < mat_ncols mat" "mat_A mat ! j = Some p" "level mat j = 1"
    and rep: "rep_type rep = 0 \<or> rep_type rep = 2"
  shows "\<exists>i mat'. rows_with (row_sets (mat_rows mat)) j = {i} \<and> deleteCol_body rep mat 1 (int j) = Some (rep_add rep [[int i]], mat')
     \<and> matrix_ok mat' \<and> progress mat mat' \<and> mat_A mat' ! j = None \<and> (\<forall>k. k \<noteq> j \<longrightarrow> (mat_A mat' ! k = None) = (mat_A mat ! k = None))
     \<and> mat_rows mat' = (mat_rows mat)[i := None] \<and> mat_rem_nrows mat' = mat_rem_nrows mat - 1 \<and> mat_rem_ncols mat' = mat_rem_ncols mat - 1"
proof -
  let ?M = "row_sets (mat_rows mat)"
  obtain r i row where r: "mat_R mat ! j = Some r" "live r = [int i]" "row_at (mat_rows mat) i = Some row" "int j \<in> set row" "rows_with ?M j = {i}"
    using singleton_row [OF ok c j] by blast
  obtain m where m: "do { mat \<leftarrow> remove_j_from_row mat (int i) (int j); removeRowDefinitely rep mat (int i) } = Some (rep_add rep [[int i]], m)"
      "mat_ok (?M(i := {int j})) m" "mat_rows m = (mat_rows mat)[i := None]" "progress mat m"
      "mat_rem_nrows m = mat_rem_nrows mat - 1" "mat_rem_ncols m = mat_rem_ncols mat" "\<forall>j. (mat_A m ! j = None) = (mat_A mat ! j = None)"
    using destroy_singleton_row [OF ok r(3,4) rep] by blast
  have jm: "j < mat_ncols m" "length (mat_A m) = mat_ncols m" "length (mat_wt m) = mat_ncols m"
    using j(1) m(4) mat_ok_dims(1,3) [OF m(2)] by (simp_all add: progress_def)
  obtain q where q: "mat_A m ! j = Some q" using m(7) j(2) by (metis not_None_eq)
  obtain L where L: "stacks (mat_S m) (mat_A m) (mat_store m) (level m) L" using m(2) by (auto simp: mat_ok_def)
  let ?n = "set_wt (int j) 0 (m \<lparr> mat_rem_ncols := mat_rem_ncols m - 1 \<rparr>)"
  have "stacks (mat_S ?n) (mat_A ?n) (mat_store ?n) (level m) L" using L by (simp add: set_wt_def)
  moreover have "j < length (mat_A ?n)" "mat_A ?n ! j = Some q" using q jm by (simp_all add: set_wt_def)
  ultimately obtain s L' where s: "removeColumnAndUpdate ?n (int j)
      = Some (?n \<lparr> mat_wt := (mat_wt ?n)[j := 0], mat_R := (mat_R ?n)[j := None], mat_A := (mat_A ?n)[j := None], mat_store := s \<rparr>)"
      "stacks (mat_S m) ((mat_A m)[j := None]) s (level m) L'"
    using removeColumn_val [of ?n "level m" L j q] by (auto simp: set_wt_def)
  let ?m = "m \<lparr> mat_wt := (mat_wt m)[j := 0], mat_R := (mat_R m)[j := None], mat_A := (mat_A m)[j := None], mat_store := s \<rparr>"
  let ?mat = "m \<lparr> mat_wt := (mat_wt m)[j := 0], mat_R := (mat_R m)[j := None], mat_A := (mat_A m)[j := None], mat_store := s,
      mat_rem_ncols := mat_rem_ncols m - 1 \<rparr>"
  have rj: "rows_with (?M(i := {})) j = {}" using r(5) by (simp add: rows_with_upd)
  have "mat_ok (?M(i := {})) ?m"
    by (rule retire_col [OF m(2) jm(1) _ _ _ s(2) refl]) (use rj in auto)
  then have "mat_ok (?M(i := {})) ?mat" using mat_ok_cong [OF same_cols_simps(3)] by blast
  moreover have "row_sets ((mat_rows mat)[i := None]) = ?M(i := {})" using row_sets_update [OF row_at_less [OF r(3)]] by simp
  moreover have "row_ok r'" if "row_at ((mat_rows mat)[i := None]) k = Some r'" for k r'
  proof -
    have "row_at (mat_rows mat) k = Some r'" using that by (cases "k = i") (auto simp: row_at_def split: if_splits)
    then show ?thesis using ok by (simp add: matrix_ok_def)
  qed
  ultimately have "matrix_ok ?mat" by (simp add: matrix_ok_def m(3))
  moreover have "progress mat ?mat" by (rule progress_retire [OF m(4) refl])
  moreover have "deleteCol_body rep mat 1 (int j) = Some (rep_add rep [[int i]], ?mat)"
  proof -
    have "removeColDefinitely rep mat (int j) = Some (rep_add rep [[int i]], ?n)"
    proof -
      obtain m0 where "remove_j_from_row mat (int i) (int j) = Some m0" "removeRowDefinitely rep m0 (int i) = Some (rep_add rep [[int i]], m)"
        using m(1) by (auto simp: bind_eq_Some_conv)
      then show ?thesis using r(1,2) j(1) matrix_ok_dims(2) [OF ok] by (simp add: removeColDefinitely_def removeColDefinitely_one)
    qed
    moreover have "at (mat_wt ?n) (int j) = Some 0" using jm by (simp add: set_wt_def)
    moreover have "set_wt (int j) 0 (?n \<lparr> mat_wt := (mat_wt ?n)[j := 0], mat_R := (mat_R ?n)[j := None], mat_A := (mat_A ?n)[j := None], mat_store := s \<rparr>) = ?mat"
      by (rule filter_matrix.equality) (simp_all add: set_wt_def)
    ultimately show ?thesis using s(1) by (simp add: deleteCol_body_def)
  qed
  moreover have "mat_A ?mat ! j = None" using jm by simp
  moreover have "\<forall>k. k \<noteq> j \<longrightarrow> (mat_A ?mat ! k = None) = (mat_A mat ! k = None)" using m(7) by simp
  ultimately show ?thesis using r(5) m(3,5,6) by (intro exI [of _ i] exI [of _ ?mat] conjI) simp_all
qed

text \<open>
  A loop over a stack ends because each turn takes a column out of the stacks.  The loop is verified
  once, for a predicate \<open>inv\<close> that the turns preserve.
\<close>

locale stack_loop =
  fixes iS :: nat and inv :: "report_t \<Rightarrow> filter_matrix \<Rightarrow> bool"
  assumes inv_ok: "inv rep mat \<Longrightarrow> matrix_ok mat" "inv rep mat \<Longrightarrow> iS < length (mat_S mat)"
    and inv_body: "inv rep mat \<Longrightarrow> j < mat_ncols mat \<Longrightarrow> mat_A mat ! j = Some p \<Longrightarrow> level mat j = iS \<Longrightarrow>
      \<exists>rep' mat'. deleteCol_body rep mat (int iS) (int j) = Some (rep', mat') \<and> inv rep' mat' \<and> active mat' < active mat"
begin

lemma loop_ok:
  assumes "inv rep mat"
  shows "\<exists>n rep' mat'. deleteAllColsFromStack_loop rep mat (int iS) k = Some (k + int n, rep', mat') \<and> inv rep' mat'
     \<and> (\<forall>j < mat_ncols mat'. mat_A mat' ! j \<noteq> None \<longrightarrow> level mat' j \<noteq> iS) \<and> active mat' + n \<le> active mat
     \<and> ((\<exists>j < mat_ncols mat. mat_A mat ! j \<noteq> None \<and> level mat j = iS) \<longrightarrow> 0 < n)"
  using assms
proof (induction "active mat" arbitrary: rep mat k rule: less_induct)
  case less
  show ?case
  proof (cases rule: stack_first_cases [OF inv_ok [OF less.prems]])
    case (1 h)
    then show ?thesis using less.prems
      by (intro exI [of _ 0] exI [of _ rep] exI [of _ mat]) (auto simp: deleteAllColsFromStack_loop.simps)
  next
    case (2 h p c j)
    obtain rep1 mat1 where m1: "deleteCol_body rep mat (int iS) (int j) = Some (rep1, mat1)" "inv rep1 mat1" "active mat1 < active mat"
      using inv_body [OF less.prems 2(5-7)] by blast
    obtain n rep' mat' where m2: "deleteAllColsFromStack_loop rep1 mat1 (int iS) (k + 1) = Some (k + 1 + int n, rep', mat')" "inv rep' mat'"
        "\<forall>j < mat_ncols mat'. mat_A mat' ! j \<noteq> None \<longrightarrow> level mat' j \<noteq> iS" "active mat' + n \<le> active mat1"
      using less.hyps [OF m1(3,2), of "k + 1"] by blast
    have "deleteAllColsFromStack_loop rep mat (int iS) k = Some (k + int (Suc n), rep', mat')"
      using 2 m1(1) m2(1) by (subst deleteAllColsFromStack_loop.simps) simp
    then show ?thesis using m2(2-4) m1(3) by (intro exI [of _ "Suc n"] exI [of _ rep'] exI [of _ mat']) auto
  qed
qed

end

text \<open>The heavy columns: nothing but the stacks changes.\<close>

definition heavy_inv :: "report_t \<Rightarrow> filter_matrix \<Rightarrow> report_t \<Rightarrow> filter_matrix \<Rightarrow> bool" where
  "heavy_inv rep0 mat0 rep mat \<longleftrightarrow> matrix_ok mat \<and> progress mat0 mat \<and> 1 \<le> mat_cwmax mat0 \<and> rep = rep0 \<and> mat_rows mat = mat_rows mat0
     \<and> mat_rem_nrows mat = mat_rem_nrows mat0 \<and> mat_rem_ncols mat = mat_rem_ncols mat0"

interpretation heavy: stack_loop "mat_cwmax mat0 + 1" "heavy_inv rep0 mat0" for rep0 mat0
proof (unfold_locales)
  fix rep mat assume inv: "heavy_inv rep0 mat0 rep mat"
  then have cw: "mat_cwmax mat = mat_cwmax mat0" by (simp add: heavy_inv_def progress_def)
  show ok: "matrix_ok mat" using inv by (simp add: heavy_inv_def)
  show "mat_cwmax mat0 + 1 < length (mat_S mat)" using matrix_ok_dims(4) [OF ok] cw by simp
  fix j p assume j: "j < mat_ncols mat" "mat_A mat ! j = Some p" "level mat j = mat_cwmax mat0 + 1"
  have c: "1 \<le> mat_cwmax mat" using inv cw by (simp add: heavy_inv_def)
  obtain mat' where m: "deleteCol_body rep mat (int (mat_cwmax mat) + 1) (int j) = Some (rep, mat')" "matrix_ok mat'" "progress mat mat'"
      "mat_A mat' = (mat_A mat)[j := None]" "mat_rows mat' = mat_rows mat" "mat_rem_nrows mat' = mat_rem_nrows mat" "mat_rem_ncols mat' = mat_rem_ncols mat"
    using heavy_body [OF ok c j(1,2), of rep] j(3) cw by auto
  have "heavy_inv rep0 mat0 rep mat'" using inv m progress_trans unfolding heavy_inv_def by metis
  moreover have "active mat' < active mat"
    using active_less [OF ok m(2,3) j(1)] j(1,2) m(4) matrix_ok_dims(3) [OF ok] by simp
  ultimately show "\<exists>rep' mat'. deleteCol_body rep mat (int (mat_cwmax mat0 + 1)) (int j) = Some (rep', mat')
      \<and> heavy_inv rep0 mat0 rep' mat' \<and> active mat' < active mat"
    using m(1) cw by (intro exI conjI) (simp_all add: add.commute)
qed

text \<open>The columns of weight 1: their rows are destroyed, and reported.\<close>

definition single_inv :: "report_t \<Rightarrow> filter_matrix \<Rightarrow> report_t \<Rightarrow> filter_matrix \<Rightarrow> bool" where
  "single_inv rep0 mat0 rep mat \<longleftrightarrow> matrix_ok mat \<and> progress mat0 mat \<and> 1 \<le> mat_cwmax mat0
     \<and> (rep_type rep0 = 0 \<or> rep_type rep0 = 2)
     \<and> (\<exists>ls. rep = rep_add rep0 ls \<and> apply_lines (mat_rows mat0) ls = Some (mat_rows mat)
          \<and> mat_rem_nrows mat = mat_rem_nrows mat0 - int (length ls) \<and> mat_rem_ncols mat = mat_rem_ncols mat0 - int (length ls))"

lemma apply_destroy: "row_at rows i \<noteq> None \<Longrightarrow> apply_line rows [int i] = Some (rows[i := None])"
  by (auto simp: apply_line_def MERGE_LEVEL_MAX_def)

interpretation single: stack_loop 1 "single_inv rep0 mat0" for rep0 mat0
proof (unfold_locales)
  fix rep mat assume inv: "single_inv rep0 mat0 rep mat"
  then have cw: "mat_cwmax mat = mat_cwmax mat0" by (simp add: single_inv_def progress_def)
  show ok: "matrix_ok mat" using inv by (simp add: single_inv_def)
  show "1 < length (mat_S mat)" using matrix_ok_dims(4) [OF ok] by simp
  fix j p assume j: "j < mat_ncols mat" "mat_A mat ! j = Some p" "level mat j = 1"
  obtain ls where ls: "rep = rep_add rep0 ls" "apply_lines (mat_rows mat0) ls = Some (mat_rows mat)"
      "mat_rem_nrows mat = mat_rem_nrows mat0 - int (length ls)" "mat_rem_ncols mat = mat_rem_ncols mat0 - int (length ls)"
    using inv unfolding single_inv_def by blast
  have c: "1 \<le> mat_cwmax mat" and rp: "rep_type rep0 = 0 \<or> rep_type rep0 = 2" using inv cw by (auto simp: single_inv_def)
  have rp': "rep_type rep = 0 \<or> rep_type rep = 2" using rp ls(1) by simp
  obtain i mat' where m: "rows_with (row_sets (mat_rows mat)) j = {i}" "deleteCol_body rep mat 1 (int j) = Some (rep_add rep [[int i]], mat')"
      "matrix_ok mat'" "progress mat mat'" "mat_A mat' ! j = None" "mat_rows mat' = (mat_rows mat)[i := None]"
      "mat_rem_nrows mat' = mat_rem_nrows mat - 1" "mat_rem_ncols mat' = mat_rem_ncols mat - 1"
    using singleton_body [OF ok c j rp'] by blast
  have "row_at (mat_rows mat) i \<noteq> None" using m(1) by (auto simp: rows_with_def row_sets_def split: option.splits)
  then have "apply_lines (mat_rows mat0) (ls @ [[int i]]) = Some (mat_rows mat')" using ls(2) m(6) by (simp add: apply_lines_snoc apply_destroy)
  moreover have "rep_add rep [[int i]] = rep_add rep0 (ls @ [[int i]])" by (simp add: ls(1) rep_add_add)
  moreover have "progress mat0 mat'" using inv m(4) progress_trans unfolding single_inv_def by blast
  ultimately have "single_inv rep0 mat0 (rep_add rep [[int i]]) mat'"
    using m(3,7,8) ls(3,4) c cw rp unfolding single_inv_def by (intro conjI exI [of _ "ls @ [[int i]]"]) simp_all
  moreover have "active mat' < active mat" using active_less [OF ok m(3,4) j(1) _ m(5)] j(2) by simp
  ultimately show "\<exists>rep' mat'. deleteCol_body rep mat (int 1) (int j) = Some (rep', mat') \<and> single_inv rep0 mat0 rep' mat' \<and> active mat' < active mat"
    using m(2) by (intro exI conjI) simp_all
qed

lemma rep_add_nil [simp]: "rep_add rep [] = rep"
  by (simp add: rep_add_def)

lemma deleteHeavyColumns_ok:
  assumes ok: "matrix_ok mat" and c: "1 \<le> mat_cwmax mat"
  shows "\<exists>n mat'. deleteHeavyColumns rep mat = Some (int n, rep, mat') \<and> matrix_ok mat' \<and> progress mat mat' \<and> mat_rows mat' = mat_rows mat
     \<and> mat_rem_nrows mat' = mat_rem_nrows mat \<and> mat_rem_ncols mat' = mat_rem_ncols mat
     \<and> (\<forall>j < mat_ncols mat'. mat_A mat' ! j \<noteq> None \<longrightarrow> mat_wt mat' ! j \<le> int (mat_cwmax mat'))"
proof -
  have "heavy_inv rep mat rep mat" using ok c by (simp add: heavy_inv_def)
  from heavy.loop_ok [OF this, of 0] obtain n rep' mat' where m: "deleteAllColsFromStack_loop rep mat (int (mat_cwmax mat + 1)) 0 = Some (0 + int n, rep', mat')"
      "heavy_inv rep mat rep' mat'" "\<forall>j < mat_ncols mat'. mat_A mat' ! j \<noteq> None \<longrightarrow> level mat' j \<noteq> mat_cwmax mat + 1" by blast
  have "mat_cwmax mat' = mat_cwmax mat" using m(2) by (simp add: heavy_inv_def progress_def)
  then have "\<forall>j < mat_ncols mat'. mat_A mat' ! j \<noteq> None \<longrightarrow> mat_wt mat' ! j \<le> int (mat_cwmax mat')"
    using m(3) level_heavy [of mat'] by (metis not_le)
  moreover have "deleteHeavyColumns rep mat = Some (int n, rep, mat')"
    using m(1,2) by (simp add: deleteHeavyColumns_def deleteAllColsFromStack_def heavy_inv_def add.commute)
  ultimately show ?thesis using m(2) unfolding heavy_inv_def by blast
qed

lemma removeSingletons_ok:
  assumes ok: "matrix_ok mat" and c: "1 \<le> mat_cwmax mat" and rep: "rep_type rep = 0 \<or> rep_type rep = 2"
  shows "\<exists>n ls mat'. removeSingletons rep mat = Some (int n, rep_add rep ls, mat') \<and> matrix_ok mat' \<and> progress mat mat'
     \<and> apply_lines (mat_rows mat) ls = Some (mat_rows mat')
     \<and> mat_rem_nrows mat' = mat_rem_nrows mat - int (length ls) \<and> mat_rem_ncols mat' = mat_rem_ncols mat - int (length ls)
     \<and> (\<forall>j < mat_ncols mat'. mat_A mat' ! j \<noteq> None \<longrightarrow> mat_wt mat' ! j \<noteq> 1) \<and> active mat' + n \<le> active mat
     \<and> ((\<exists>j < mat_ncols mat. mat_A mat ! j \<noteq> None \<and> level mat j = 1) \<longrightarrow> 0 < n)"
proof -
  have "single_inv rep mat rep mat" using ok c rep unfolding single_inv_def by (intro conjI exI [of _ "[]"]) simp_all
  from single.loop_ok [OF this, of 0] obtain n rep' mat' where m: "deleteAllColsFromStack_loop rep mat (int 1) 0 = Some (0 + int n, rep', mat')"
      "single_inv rep mat rep' mat'" "\<forall>j < mat_ncols mat'. mat_A mat' ! j \<noteq> None \<longrightarrow> level mat' j \<noteq> 1" "active mat' + n \<le> active mat"
      "(\<exists>j < mat_ncols mat. mat_A mat ! j \<noteq> None \<and> level mat j = 1) \<longrightarrow> 0 < n" by blast
  obtain ls where ls: "rep' = rep_add rep ls" "apply_lines (mat_rows mat) ls = Some (mat_rows mat')"
      "mat_rem_nrows mat' = mat_rem_nrows mat - int (length ls)" "mat_rem_ncols mat' = mat_rem_ncols mat - int (length ls)"
    and ok': "matrix_ok mat'" "progress mat mat'" using m(2) unfolding single_inv_def by blast
  have "1 \<le> mat_cwmax mat'" using ok'(2) c by (simp add: progress_def)
  then have "\<forall>j < mat_ncols mat'. mat_A mat' ! j \<noteq> None \<longrightarrow> mat_wt mat' ! j \<noteq> 1"
    using m(3) level_light [of 1 mat'] by auto
  moreover have "removeSingletons rep mat = Some (int n, rep_add rep ls, mat')"
    using m(1) ls(1) by (simp add: removeSingletons_def deleteAllColsFromStack_def)
  ultimately show ?thesis using ls ok' m(4,5) by blast
qed

section \<open>Empty columns\<close>

text \<open>
  \<open>dclistRemoveMessy\<close> leaves the back pointer of the new first cell dangling; the loop frees
  all cells of the stack, so the chain of the \<open>next\<close> pointers is all it needs, and when
  it ends no dangling pointer is left.
\<close>

fun chain :: "(nat \<Rightarrow> dclist_cell option) \<Rightarrow> (nat \<times> int) list \<Rightarrow> bool" where
  "chain m [] = True"
| "chain m (c # cs) \<longleftrightarrow> (\<exists>pr. m (fst c) = Some \<lparr> dcl_j = snd c, dcl_prev = pr, dcl_next = first_of cs None \<rparr>) \<and> chain m cs"

lemma dls_chain: "dls m pr cs None \<Longrightarrow> chain m cs"
  by (induction cs arbitrary: pr) auto

lemma chain_cong: "(\<And>p. p \<in> fst ` set cs \<Longrightarrow> m' p = m p) \<Longrightarrow> chain m' cs = chain m cs"
  by (induction cs) auto

text \<open>The cells \<open>cs\<close> leave an array indexed by columns.\<close>

definition wipe :: "(nat \<times> int) list \<Rightarrow> 'a \<Rightarrow> 'a list \<Rightarrow> 'a list" where
  "wipe cs v xs = fold (\<lambda>c xs. xs[nat (snd c) := v]) cs xs"

lemma wipe_simps [simp]: "wipe [] v xs = xs" "wipe (c # cs) v xs = wipe cs v (xs[nat (snd c) := v])"
  by (simp_all add: wipe_def)

lemma length_wipe [simp]: "length (wipe cs v xs) = length xs"
  by (induction cs arbitrary: xs) auto

lemma nth_wipe: "k < length xs \<Longrightarrow> wipe cs v xs ! k = (if k \<in> (\<lambda>c. nat (snd c)) ` set cs then v else xs ! k)"
  by (induction cs arbitrary: xs) (auto simp: nth_list_update)

definition unlinked :: "nat \<Rightarrow> (nat \<times> int) list \<Rightarrow> dclist_store \<Rightarrow> dclist_store \<Rightarrow> bool" where
  "unlinked h cs s s' \<longleftrightarrow> brk s' = brk s \<and> cells s' h = Some \<lparr> dcl_j = - 1, dcl_prev = None, dcl_next = None \<rparr>
     \<and> (\<forall>p \<in> fst ` set cs. cells s' p = None) \<and> (\<forall>p. p \<noteq> h \<longrightarrow> p \<notin> fst ` set cs \<longrightarrow> cells s' p = cells s p)"

lemma deleteEmpty_loop_val:
  assumes "at (mat_S mat) 0 = Some h" "cells (mat_store mat) h = Some \<lparr> dcl_j = - 1, dcl_prev = None, dcl_next = first_of cs None \<rparr>"
    and "chain (cells (mat_store mat)) cs" "distinct (h # map fst cs)" "\<forall>c \<in> set cs. 0 \<le> snd c \<and> nat (snd c) < length (mat_A mat)"
  shows "\<exists>s'. deleteEmpty_loop mat k = Some (k + int (length cs), mat \<lparr> mat_wt := wipe cs 0 (mat_wt mat), mat_R := wipe cs None (mat_R mat),
       mat_A := wipe cs None (mat_A mat), mat_store := s' \<rparr>) \<and> unlinked h cs (mat_store mat) s'"
  using assms
proof (induction cs arbitrary: mat k)
  case Nil
  have "deleteEmpty_loop mat k = Some (k, mat)" using Nil(1,2) by (subst deleteEmpty_loop.simps) simp
  moreover have "unlinked h [] (mat_store mat) (mat_store mat)" using Nil(2) by (simp add: unlinked_def)
  ultimately show ?case by (intro exI [of _ "mat_store mat"]) simp
next
  case (Cons c cs)
  obtain p j where c: "c = (p, j)" by (cases c)
  obtain pr where p: "cells (mat_store mat) p = Some \<lparr> dcl_j = j, dcl_prev = pr, dcl_next = first_of cs None \<rparr>"
    using Cons.prems(3) c by auto
  have hp: "h \<noteq> p" "p \<notin> fst ` set cs" "h \<notin> fst ` set cs" using Cons.prems(4) c by auto
  let ?s = "mat_store mat \<lparr> cells := (cells (mat_store mat))(p := None, h \<mapsto> \<lparr> dcl_j = - 1, dcl_prev = None, dcl_next = first_of cs None \<rparr>) \<rparr>"
  let ?m = "freeRj (set_wt j 0 (set_A j None (mat \<lparr> mat_store := ?s \<rparr>))) j"
  have rm: "dclistRemoveMessy (mat_store mat) h = Some (j, ?s)"
    using Cons.prems(2) p hp(1) c by (simp add: dclistRemoveMessy_def free_cell_def set_cell_def)
  have m: "mat_S ?m = mat_S mat" "mat_store ?m = ?s" "mat_A ?m = (mat_A mat)[nat j := None]"
    "mat_wt ?m = (mat_wt mat)[nat j := 0]" "mat_R ?m = (mat_R mat)[nat j := None]"
    by (simp_all add: freeRj_def set_wt_def set_R_def set_A_def)
  have "cells ?s q = cells (mat_store mat) q" if "q \<in> fst ` set cs" for q using that hp(2,3) by auto
  then have "chain (cells ?s) cs = chain (cells (mat_store mat)) cs" by (rule chain_cong)
  then have "chain (cells ?s) cs" using Cons.prems(3) by simp
  moreover have "distinct (h # map fst cs)" "\<forall>c \<in> set cs. 0 \<le> snd c \<and> nat (snd c) < length (mat_A ?m)" "at (mat_S ?m) 0 = Some h"
    using Cons.prems(1,4,5) unfolding m by simp_all
  moreover have "cells (mat_store ?m) h = Some \<lparr> dcl_j = - 1, dcl_prev = None, dcl_next = first_of cs None \<rparr>" unfolding m by simp
  ultimately obtain s' where s': "deleteEmpty_loop ?m (k + 1) = Some (k + 1 + int (length cs), ?m \<lparr> mat_wt := wipe cs 0 (mat_wt ?m),
      mat_R := wipe cs None (mat_R ?m), mat_A := wipe cs None (mat_A ?m), mat_store := s' \<rparr>)" "unlinked h cs ?s s'"
    using Cons.IH [of ?m "k + 1"] unfolding m by blast
  have jA: "at (mat_A mat) j = Some (mat_A mat ! nat j)" using Cons.prems(5) c by (simp add: at_def)
  have "deleteEmpty_loop mat k = deleteEmpty_loop ?m (k + 1)"
    using Cons.prems(1,2) rm jA by (subst deleteEmpty_loop.simps) simp
  moreover have "?m \<lparr> mat_wt := wipe cs 0 (mat_wt ?m), mat_R := wipe cs None (mat_R ?m), mat_A := wipe cs None (mat_A ?m), mat_store := s' \<rparr>
      = mat \<lparr> mat_wt := wipe (c # cs) 0 (mat_wt mat), mat_R := wipe (c # cs) None (mat_R mat), mat_A := wipe (c # cs) None (mat_A mat), mat_store := s' \<rparr>"
    by (rule filter_matrix.equality) (simp_all add: c freeRj_def set_wt_def set_R_def set_A_def)
  moreover have "unlinked h (c # cs) (mat_store mat) s'" using s'(2) hp by (auto simp: unlinked_def c)
  ultimately show ?case using s'(1) by (intro exI [of _ s']) simp
qed

lemma unlinked_stacks:
  assumes st: "stacks S A s lev L" and w: "0 < length S" and s': "unlinked (S ! 0) (L 0) s s'"
  shows "stacks S (wipe (L 0) None A) s' lev (L(0 := []))"
proof (rule stacksI)
  note d = stacksD [OF st]
  show "store_ok s'"
  proof -
    have "cells s' p = None" if "brk s \<le> p" for p
    proof -
      have "p \<noteq> S ! 0" using is_dclist_bound [OF d(4) d(3) [OF w], of p] that by auto
      moreover have "cells s p = None" using d(4) that by (simp add: store_ok_def)
      ultimately show ?thesis using s' by (cases "p \<in> fst ` set (L 0)") (auto simp: unlinked_def)
    qed
    then show ?thesis using s' by (simp add: store_ok_def unlinked_def)
  qed
  have un: "untouched (stack_addr S L 0) s s'" using s' by (simp add: untouched_def unlinked_def stack_addr_def)
  show "is_dclist s' (S ! v) ((L(0 := [])) v)" if v: "v < length S" for v
  proof (cases "v = 0")
    case True
    then show ?thesis using s' by (simp add: is_dclist_def unlinked_def)
  next
    case False
    then show ?thesis using is_dclist_frame [OF un d(4) d(3) [OF v]] d(5) [OF v w] by (simp add: stack_addr_def)
  qed
  show "stack_addr S (L(0 := [])) v \<inter> stack_addr S (L(0 := [])) v' = {}" if "v < length S" "v' < length S" "v \<noteq> v'" for v v'
    using d(5) [OF that] by (auto simp: stack_addr_def)
  show "0 \<le> j \<and> nat j < length (wipe (L 0) None A) \<and> wipe (L 0) None A ! nat j = Some p \<and> lev (nat j) = v"
    if v: "v < length S" "(p, j) \<in> set ((L(0 := [])) v)" for v p j
  proof -
    have v0: "v \<noteq> 0" "(p, j) \<in> set (L v)" using v(2) by (auto split: if_splits)
    have j: "0 \<le> j" "nat j < length A" "A ! nat j = Some p" "lev (nat j) = v" using d(1) [OF v(1) v0(2)] by auto
    have "nat j \<notin> (\<lambda>c. nat (snd c)) ` set (L 0)" using d(1) [OF w] j(4) v0(1) by fastforce
    then show ?thesis using j nth_wipe [of "nat j" A "L 0" None] by simp
  qed
  show "lev j < length S \<and> (p, int j) \<in> set ((L(0 := [])) (lev j))" if j: "j < length (wipe (L 0) None A)" "wipe (L 0) None A ! j = Some p" for j p
  proof -
    have a: "j < length A" "j \<notin> (\<lambda>c. nat (snd c)) ` set (L 0)" "A ! j = Some p"
      using j nth_wipe [of j A "L 0" None] by (auto split: if_splits)
    have l: "lev j < length S" "(p, int j) \<in> set (L (lev j))" using d(2) [OF a(1,3)] by auto
    have "lev j \<noteq> 0" using a(2) l(2) by force
    then show ?thesis using l by simp
  qed
qed

lemma nth_wipe_beyond: "length xs \<le> k \<Longrightarrow> wipe cs v xs ! k = xs ! k"
proof (induction cs arbitrary: xs)
  case (Cons c cs)
  have "xs[nat (snd c) := v] ! k = xs ! k" using Cons.prems by (cases "nat (snd c) = k") (simp_all add: list_update_beyond)
  then show ?case using Cons by simp
qed simp

lemma deleteEmptyColumns_ok:
  assumes ok: "matrix_ok mat"
  shows "\<exists>n mat'. deleteEmptyColumns mat = Some (int n, mat') \<and> matrix_ok mat' \<and> progress mat mat' \<and> mat_rows mat' = mat_rows mat
     \<and> mat_rem_nrows mat' = mat_rem_nrows mat \<and> mat_rem_ncols mat' = mat_rem_ncols mat - int n
     \<and> (\<forall>j < mat_ncols mat'. mat_A mat' ! j \<noteq> None \<longrightarrow> mat_wt mat' ! j \<noteq> 0)"
proof -
  let ?M = "row_sets (mat_rows mat)"
  have mok: "mat_ok ?M mat" using ok by (simp add: matrix_ok_def)
  note dm = matrix_ok_dims [OF ok]
  obtain L where L: "stacks (mat_S mat) (mat_A mat) (mat_store mat) (level mat) L" using mok by (auto simp: mat_ok_def)
  note d = stacksD [OF L]
  have w0: "0 < length (mat_S mat)" using dm(4) by simp
  let ?h = "mat_S mat ! 0" and ?cs = "L 0"
  have dl: "is_dclist (mat_store mat) ?h ?cs" using d(3) [OF w0] .
  have emp: "mat_wt mat ! j = 0 \<and> rows_with ?M j = {}" if "j < mat_ncols mat" "mat_A mat ! j = Some p" "level mat j = 0" for j p
  proof -
    note a = that
    obtain r where r: "set (live r) = int ` rows_with ?M j" "mat_wt mat ! j = int (length (live r))"
      using mat_ok_col [OF mok a(1)] a(2) by (auto simp: col_ok_def)
    moreover have "live r = []" using a(3) r(2) by (auto simp: level_def split: if_splits)
    ultimately show ?thesis by simp
  qed
  have cs: "\<forall>c \<in> set ?cs. 0 \<le> snd c \<and> nat (snd c) < length (mat_A mat)" using d(1) [OF w0] by auto
  have h: "cells (mat_store mat) ?h = Some \<lparr> dcl_j = - 1, dcl_prev = None, dcl_next = first_of ?cs None \<rparr>" "distinct (?h # map fst ?cs)"
    "chain (cells (mat_store mat)) ?cs" using dl dls_chain [of "cells (mat_store mat)" "Some ?h" ?cs] by (simp_all add: is_dclist_def)
  have "at (mat_S mat) 0 = Some ?h" using w0 by (simp add: at_def)
  then obtain s' where s': "deleteEmpty_loop mat 0 = Some (0 + int (length ?cs), mat \<lparr> mat_wt := wipe ?cs 0 (mat_wt mat), mat_R := wipe ?cs None (mat_R mat),
       mat_A := wipe ?cs None (mat_A mat), mat_store := s' \<rparr>)" "unlinked ?h ?cs (mat_store mat) s'"
    using deleteEmpty_loop_val [OF _ h(1,3,2) cs, of 0] by blast
  let ?m = "mat \<lparr> mat_wt := wipe ?cs 0 (mat_wt mat), mat_R := wipe ?cs None (mat_R mat), mat_A := wipe ?cs None (mat_A mat), mat_store := s' \<rparr>"
  let ?E = "(\<lambda>c. nat (snd c)) ` set ?cs"
  have E: "j \<in> ?E \<longleftrightarrow> mat_A mat ! j \<noteq> None \<and> level mat j = 0" if "j < mat_ncols mat" for j
  proof
    assume "j \<in> ?E"
    then show "mat_A mat ! j \<noteq> None \<and> level mat j = 0" using d(1) [OF w0] by force
  next
    assume "mat_A mat ! j \<noteq> None \<and> level mat j = 0"
    then show "j \<in> ?E" using d(2) [of j] that dm(3) by force
  qed
  have st: "stacks (mat_S ?m) (mat_A ?m) (mat_store ?m) (level ?m) (L(0 := []))"
  proof (rule stacks_lev_cong)
    show "stacks (mat_S ?m) (mat_A ?m) (mat_store ?m) (level mat) (L(0 := []))" using unlinked_stacks [OF L w0 s'(2)] by simp
    fix j assume "j < length (mat_A ?m)" "mat_A ?m ! j \<noteq> None"
    then have "j \<notin> ?E" "j < length (mat_wt mat)" using nth_wipe [of j "mat_A mat" ?cs None] dm by (auto split: if_splits)
    then show "level ?m j = level mat j" using nth_wipe [of j "mat_wt mat" ?cs 0] by (simp add: level_def)
  qed
  have col: "col_ok ?M ?m j" if j: "j < mat_ncols mat" for j
  proof -
    have n: "mat_A ?m ! j = (if j \<in> ?E then None else mat_A mat ! j)" "mat_wt ?m ! j = (if j \<in> ?E then 0 else mat_wt mat ! j)"
      "mat_R ?m ! j = (if j \<in> ?E then None else mat_R mat ! j)" using j dm(1-3) by (simp_all add: nth_wipe)
    show ?thesis
    proof (cases "j \<in> ?E")
      case True
      then have "rows_with ?M j = {}" using E [OF j] emp [OF j] by blast
      then show ?thesis using n True by (simp add: col_ok_def)
    next
      case False
      have "col_ok ?M ?m j = col_ok ?M mat j" unfolding col_ok_def n if_not_P [OF False] ..
      then show ?thesis using mat_ok_col [OF mok j] by blast
    qed
  qed
  have "dims_ok ?M ?m" using mok by (auto simp: mat_ok_def dims_ok_def)
  then have "matrix_ok ?m" using st col ok by (auto simp: matrix_ok_def mat_ok_def)
  moreover have "progress mat ?m"
  proof -
    have "wipe ?cs None (mat_A mat) ! j = None" if "mat_A mat ! j = None" for j
      using that nth_wipe [of j "mat_A mat" ?cs None] by (cases "j < length (mat_A mat)") (simp_all add: nth_wipe_beyond)
    then show ?thesis by (simp add: progress_def live_rows_def)
  qed
  moreover have "mat_wt ?m ! j \<noteq> 0" if j: "j < mat_ncols ?m" "mat_A ?m ! j \<noteq> None" for j
  proof
    assume z: "mat_wt ?m ! j = 0"
    have "j \<notin> ?E" "mat_A mat ! j \<noteq> None" using j nth_wipe [of j "mat_A mat" ?cs None] dm(3) by (auto split: if_splits)
    moreover have "mat_wt mat ! j = 0" using z j(1) dm(1) nth_wipe [of j "mat_wt mat" ?cs 0] \<open>j \<notin> ?E\<close> by simp
    ultimately show False using E [of j] j(1) by (simp add: level_def)
  qed
  ultimately show ?thesis
    using s'(1) by (intro exI [of _ "length ?cs"] exI [of _ "?m \<lparr> mat_rem_ncols := mat_rem_ncols ?m - int (length ?cs) \<rparr>"])
      (auto simp: deleteEmptyColumns_def deleteEmptyColumnsSWAR_def intro: progress_trans)
qed

section \<open>What a run of the loops reports\<close>

text \<open>
  \<open>inspectRowWeight\<close> destroys the rows that have only heavy columns left without writing a line to the
  history.  So the rows of the matrix are those that the history yields, less some rows.
\<close>

definition sub_rows :: "row_table \<Rightarrow> row_table \<Rightarrow> bool" where
  "sub_rows rows rows' \<longleftrightarrow> length rows = length rows' \<and> (\<forall>i. row_at rows i = row_at rows' i \<or> row_at rows i = None)"

lemma sub_rows_refl [simp]: "sub_rows rows rows"
  by (simp add: sub_rows_def)

lemma sub_rows_trans: "sub_rows r1 r2 \<Longrightarrow> sub_rows r2 r3 \<Longrightarrow> sub_rows r1 r3"
  unfolding sub_rows_def by metis

lemma sub_rows_at: "sub_rows rows rows' \<Longrightarrow> row_at rows i = Some r \<Longrightarrow> row_at rows' i = Some r"
  unfolding sub_rows_def by (metis option.distinct(1))

lemma row_at_update: "row_at (rows[i := x]) k = (if k = i \<and> i < length rows then x else row_at rows k)"
  by (auto simp: row_at_def nth_list_update)

lemma sub_rows_update: "sub_rows rows rows' \<Longrightarrow> sub_rows (rows[i := x]) (rows'[i := x])"
  by (auto simp: sub_rows_def row_at_update)

lemma sub_rows_destroy: "sub_rows (rows[i := None]) rows"
  by (auto simp: sub_rows_def row_at_update)

lemma add_to_rows_mono:
  "add_to_rows rows i0 is = Some R \<Longrightarrow> sub_rows rows rows' \<Longrightarrow> \<exists>R'. add_to_rows rows' i0 is = Some R' \<and> sub_rows R R'"
proof (induction rows i0 "is" arbitrary: rows' rule: add_to_rows.induct)
  case (2 rows i0 i "is")
  then obtain r r0 where r: "0 \<le> i" "nat i \<noteq> i0" "row_at rows (nat i) = Some r" "row_at rows i0 = Some r0"
      "add_to_rows (rows[nat i := Some (merge_rows r r0)]) i0 is = Some R"
    by (auto simp: bind_eq_Some_conv split: if_splits)
  have "row_at rows' (nat i) = Some r" "row_at rows' i0 = Some r0" using sub_rows_at [OF 2(3)] r(3,4) by blast+
  then show ?case using 2(1) [OF _ r(3,4) r(5) sub_rows_update [OF 2(3)]] r(1,2) by simp
qed auto

lemma apply_line_mono:
  assumes "apply_line rows l = Some R" "sub_rows rows rows'"
  shows "\<exists>R'. apply_line rows' l = Some R' \<and> sub_rows R R'"
proof (cases l)
  case (Cons h "is")
  let ?i0 = "nat (if h < 0 then - h - 1 else h)"
  obtain R1 where R1: "add_to_rows rows ?i0 is = Some R1" "length l \<le> MERGE_LEVEL_MAX"
      "(if h \<ge> 0 then do { _ \<leftarrow> row_at R1 ?i0; Some (R1[?i0 := None]) } else Some R1) = Some R"
    using assms(1) Cons by (auto simp: apply_line_def Let_def bind_eq_Some_conv split: if_splits)
  obtain R1' where R1': "add_to_rows rows' ?i0 is = Some R1'" "sub_rows R1 R1'" using add_to_rows_mono [OF R1(1) assms(2)] by blast
  show ?thesis
  proof (cases "h \<ge> 0")
    case True
    then obtain r where "row_at R1 ?i0 = Some r" "R = R1[?i0 := None]" using R1(3) by (auto simp: bind_eq_Some_conv)
    then show ?thesis using True R1(2) R1' sub_rows_at [OF R1'(2)] sub_rows_update [OF R1'(2)] by (auto simp: Cons apply_line_def Let_def)
  next
    case False
    then show ?thesis using R1(2,3) R1' by (auto simp: Cons apply_line_def Let_def)
  qed
qed (use assms in \<open>simp add: apply_line_def\<close>)

lemma apply_lines_mono:
  "apply_lines rows ls = Some R \<Longrightarrow> sub_rows rows rows' \<Longrightarrow> \<exists>R'. apply_lines rows' ls = Some R' \<and> sub_rows R R'"
proof (induction ls arbitrary: rows rows')
  case (Cons l ls)
  obtain R1 where R1: "apply_line rows l = Some R1" "apply_lines R1 ls = Some R" using Cons.prems(1) by (auto simp: bind_eq_Some_conv)
  obtain R1' where "apply_line rows' l = Some R1'" "sub_rows R1 R1'" using apply_line_mono [OF R1(1) Cons.prems(2)] by blast
  then show ?case using Cons.IH [OF R1(2)] by auto
qed auto

text \<open>The number of rows of a table, and the number of lines that destroy a row.\<close>

definition nlive :: "row_table \<Rightarrow> nat" where
  "nlive rows = card {i. row_at rows i \<noteq> None}"

definition destroyed :: "int list list \<Rightarrow> nat" where
  "destroyed ls = length (filter (\<lambda>l. 0 \<le> hd l) ls)"

lemma destroyed_simps [simp]: "destroyed [] = 0" "destroyed (l # ls) = (if 0 \<le> hd l then 1 else 0) + destroyed ls" "destroyed (ls @ ms) = destroyed ls + destroyed ms"
  by (simp_all add: destroyed_def)

lemma finite_row_at [simp]: "finite {i. row_at rows i \<noteq> None}"
  by (rule finite_subset [of _ "{..<length rows}"]) (auto simp: row_at_def)

lemma live_rows_at: "live_rows mat = {i. row_at (mat_rows mat) i \<noteq> None}"
  by (auto simp: live_rows_def row_at_def)

lemma nlive_destroy:
  assumes "row_at rows i \<noteq> None"
  shows "Suc (nlive (rows[i := None])) = nlive rows"
proof -
  have "i < length rows" using assms by (auto simp: row_at_def split: if_splits)
  then have "{k. row_at (rows[i := None]) k \<noteq> None} = {k. row_at rows k \<noteq> None} - {i}" by (auto simp: row_at_update)
  then show ?thesis using card_Suc_Diff1 [OF finite_row_at, of i rows] assms unfolding nlive_def by simp
qed

lemma add_to_rows_live: "add_to_rows rows i0 is = Some R \<Longrightarrow> (row_at R k = None) = (row_at rows k = None)"
proof (induction rows i0 "is" rule: add_to_rows.induct)
  case (2 rows i0 i "is")
  then obtain r r0 where r: "0 \<le> i" "nat i \<noteq> i0" "row_at rows (nat i) = Some r" "row_at rows i0 = Some r0"
      "add_to_rows (rows[nat i := Some (merge_rows r r0)]) i0 is = Some R"
    by (auto simp: bind_eq_Some_conv split: if_splits)
  then show ?case using 2(1) [OF _ r(3,4) r(5)] by (auto simp: row_at_update split: if_splits)
qed auto

lemma apply_line_live:
  assumes "apply_line rows l = Some R"
  shows "nlive rows = nlive R + (if 0 \<le> hd l then 1 else 0)"
proof (cases l)
  case (Cons h "is")
  let ?i0 = "nat (if h < 0 then - h - 1 else h)"
  obtain R1 where R1: "add_to_rows rows ?i0 is = Some R1"
      "(if h \<ge> 0 then do { _ \<leftarrow> row_at R1 ?i0; Some (R1[?i0 := None]) } else Some R1) = Some R"
    using assms(1) Cons by (auto simp: apply_line_def Let_def bind_eq_Some_conv split: if_splits)
  have "nlive R1 = nlive rows" using add_to_rows_live [OF R1(1)] by (simp add: nlive_def)
  then show ?thesis using R1(2) nlive_destroy [of R1 ?i0] by (auto simp: Cons bind_eq_Some_conv split: if_splits)
qed (use assms in \<open>simp add: apply_line_def\<close>)

lemma apply_lines_live: "apply_lines rows ls = Some R \<Longrightarrow> nlive rows = nlive R + destroyed ls"
proof (induction ls arbitrary: rows)
  case (Cons l ls)
  then obtain R1 where "apply_line rows l = Some R1" "apply_lines R1 ls = Some R" by (auto simp: bind_eq_Some_conv)
  then show ?case using apply_line_live [of rows l R1] Cons.IH [of R1] by simp
qed simp

definition reports :: "report_t \<Rightarrow> filter_matrix \<Rightarrow> report_t \<Rightarrow> filter_matrix \<Rightarrow> bool" where
  "reports rep0 mat0 rep mat \<longleftrightarrow> matrix_ok mat \<and> progress mat0 mat
     \<and> (\<exists>ls rows. rep = rep_add rep0 ls \<and> apply_lines (mat_rows mat0) ls = Some rows \<and> sub_rows (mat_rows mat) rows
          \<and> mat_rem_nrows mat = mat_rem_nrows mat0 - int (destroyed ls))"

lemma reportsI:
  assumes "matrix_ok mat" "progress mat0 mat" "rep = rep_add rep0 ls" "apply_lines (mat_rows mat0) ls = Some rows" "sub_rows (mat_rows mat) rows"
    "mat_rem_nrows mat = mat_rem_nrows mat0 - int (destroyed ls)"
  shows "reports rep0 mat0 rep mat"
  using assms unfolding reports_def by blast

lemma reports_refl: "matrix_ok mat \<Longrightarrow> reports rep mat rep mat"
  by (rule reportsI [where ls = "[]" and rows = "mat_rows mat"]) simp_all

lemma reports_same:
  assumes "matrix_ok mat'" "progress mat mat'" "mat_rows mat' = mat_rows mat" "mat_rem_nrows mat' = mat_rem_nrows mat"
  shows "reports rep mat rep mat'"
  by (rule reportsI [where ls = "[]" and rows = "mat_rows mat"]) (simp_all add: assms)

lemma reports_trans:
  assumes "reports rep0 mat0 rep1 mat1" "reports rep1 mat1 rep2 mat2"
  shows "reports rep0 mat0 rep2 mat2"
proof -
  obtain ls rows where l: "rep1 = rep_add rep0 ls" "apply_lines (mat_rows mat0) ls = Some rows" "sub_rows (mat_rows mat1) rows"
      "mat_rem_nrows mat1 = mat_rem_nrows mat0 - int (destroyed ls)" and p: "progress mat0 mat1"
    using assms(1) unfolding reports_def by blast
  obtain ls' rows' where l': "rep2 = rep_add rep1 ls'" "apply_lines (mat_rows mat1) ls' = Some rows'" "sub_rows (mat_rows mat2) rows'"
      "mat_rem_nrows mat2 = mat_rem_nrows mat1 - int (destroyed ls')" and p': "matrix_ok mat2" "progress mat1 mat2"
    using assms(2) unfolding reports_def by blast
  obtain rows2 where r: "apply_lines rows ls' = Some rows2" "sub_rows rows' rows2" using apply_lines_mono [OF l'(2) l(3)] by blast
  show ?thesis
  proof (rule reportsI [OF p'(1) progress_trans [OF p p'(2)]])
    show "rep2 = rep_add rep0 (ls @ ls')" by (simp add: l'(1) l(1) rep_add_add)
    show "apply_lines (mat_rows mat0) (ls @ ls') = Some rows2" using l(2) r(1) by (simp add: apply_lines_append)
    show "sub_rows (mat_rows mat2) rows2" using sub_rows_trans [OF l'(3) r(2)] .
    show "mat_rem_nrows mat2 = mat_rem_nrows mat0 - int (destroyed (ls @ ls'))" using l(4) l'(4) by simp
  qed
qed

lemma reportsD:
  assumes "reports rep0 mat0 rep mat"
  shows "matrix_ok mat" "progress mat0 mat" "merge_inv mat0 \<Longrightarrow> merge_inv mat" "rep_type rep = rep_type rep0"
  using assms merge_inv_step unfolding reports_def by auto

section \<open>Removing rows\<close>

lemma removeRowDefinitely_reports:
  assumes ok: "matrix_ok mat" and r: "row_at (mat_rows mat) i = Some r" and rep: "rep_type rep = 0 \<or> rep_type rep = 2"
  shows "\<exists>mat'. removeRowDefinitely rep mat (int i) = Some (rep_add rep [[int i]], mat') \<and> reports rep mat (rep_add rep [[int i]]) mat'
     \<and> mat_rows mat' = (mat_rows mat)[i := None] \<and> mat_rem_nrows mat' = mat_rem_nrows mat - 1 \<and> mat_rem_ncols mat' = mat_rem_ncols mat"
proof -
  obtain mat' where m: "removeRowDefinitely rep mat (int i) = Some (rep_add rep [[int i]], mat')" "matrix_ok mat'" "progress mat mat'"
     "mat_rows mat' = (mat_rows mat)[i := None]" "mat_rem_nrows mat' = mat_rem_nrows mat - 1" "mat_rem_ncols mat' = mat_rem_ncols mat"
    using removeRowDefinitely_ok [OF ok r rep] by blast
  have "reports rep mat (rep_add rep [[int i]]) mat'"
    by (rule reportsI [OF m(2,3) refl, where rows = "mat_rows mat'"]) (use r m(4,5) in \<open>simp_all add: apply_destroy\<close>)
  then show ?thesis using m by blast
qed

lemma at_rows: "matrix_ok mat \<Longrightarrow> i < mat_nrows mat \<Longrightarrow> at (mat_rows mat) (int i) = Some (row_at (mat_rows mat) i)"
  using matrix_ok_dims(5) by (simp add: row_at_def)

lemma progress_nrows: "progress mat mat' \<Longrightarrow> mat_nrows mat' = mat_nrows mat"
  by (simp add: progress_def)

lemma inspect_heavy_ok:
  assumes "matrix_ok mat" "rep_type rep = 0 \<or> rep_type rep = 2" "\<forall>i \<in> set is. i < mat_nrows mat"
  shows "\<exists>b n rep' mat'. inspect_heavy rep mat is k = Some (b, n, rep', mat') \<and> reports rep mat rep' mat'"
  using assms
proof (induction "is" arbitrary: rep mat k)
  case Nil
  then show ?case using reports_refl by auto
next
  case (Cons i "is")
  have i: "i < mat_nrows mat" "\<forall>i \<in> set is. i < mat_nrows mat" using Cons.prems(3) by simp_all
  note at = at_rows [OF Cons.prems(1) i(1)]
  note same = Cons.IH [OF Cons.prems(1,2) i(2), of k]
  show ?case
  proof (cases "mat_rem_nrows mat - mat_rem_ncols mat \<le> mat_keep mat")
    case True
    then show ?thesis using reports_refl [OF Cons.prems(1)] by auto
  next
    case keep: False
    show ?thesis
    proof (cases "row_at (mat_rows mat) i")
      case None
      then show ?thesis using keep at same by simp
    next
      case (Some r)
      show ?thesis
      proof (cases "int (length r) > mat_rwmax mat")
        case True
        obtain mat1 where m1: "removeRowDefinitely rep mat (int i) = Some (rep_add rep [[int i]], mat1)" "reports rep mat (rep_add rep [[int i]]) mat1"
          using removeRowDefinitely_reports [OF Cons.prems(1) Some Cons.prems(2)] by blast
        note d = reportsD [OF m1(2)]
        obtain b n rep' mat' where "inspect_heavy (rep_add rep [[int i]]) mat1 is (k + 1) = Some (b, n, rep', mat')"
            "reports (rep_add rep [[int i]]) mat1 rep' mat'"
          using Cons.IH [OF d(1), of "rep_add rep [[int i]]" "k + 1"] Cons.prems(2) d(4) i(2) progress_nrows [OF d(2)] by auto
        then show ?thesis using keep at Some True m1 reports_trans [OF m1(2)] by (cases "k + 1 > 128") auto
      next
        case False
        then show ?thesis using keep at Some same by simp
      qed
    qed
  qed
qed

lemma inspect_useless_ok:
  assumes "matrix_ok mat" "\<forall>i \<in> set is. i < mat_nrows mat"
  shows "\<exists>mat'. inspect_useless mat is = Some mat' \<and> reports rep mat rep mat'"
  using assms
proof (induction "is" arbitrary: mat)
  case Nil
  then show ?case using reports_refl by auto
next
  case (Cons i "is")
  have i: "i < mat_nrows mat" "\<forall>i \<in> set is. i < mat_nrows mat" using Cons.prems(2) by simp_all
  note at = at_rows [OF Cons.prems(1) i(1)]
  note same = Cons.IH [OF Cons.prems(1) i(2)]
  show ?case
  proof (cases "row_at (mat_rows mat) i")
    case None
    then show ?thesis using at same by simp
  next
    case (Some r)
    obtain m1 where m1: "removeRowAndUpdate mat (int i) = Some m1" "matrix_ok (destroyRow m1 (int i))" "rest_frame mat (destroyRow m1 (int i))"
        "mat_rows (destroyRow m1 (int i)) = (mat_rows mat)[i := None]"
      using destroyRow_ok [OF Cons.prems(1) Some] by blast
    have "progress mat (destroyRow m1 (int i))" using progress_destroy [OF m1(3,4), of "destroyRow m1 (int i)" 0] Some by simp
    then have rp: "reports rep mat rep (destroyRow m1 (int i))"
      by (rule reportsI [OF m1(2), where ls = "[]" and rows = "mat_rows mat"]) (use m1(3,4) in \<open>simp_all add: sub_rows_destroy rest_frame_def\<close>)
    obtain mat' where "inspect_useless (destroyRow m1 (int i)) is = Some mat'" "reports rep (destroyRow m1 (int i)) rep mat'"
      using Cons.IH [OF m1(2)] i(2) m1(3) by (auto simp: rest_frame_def)
    then show ?thesis using at Some same m1(1) reports_trans [OF rp] by (cases "isRowToBeDeleted mat r") simp_all
  qed
qed

lemma inspectRowWeight_ok:
  assumes "matrix_ok mat" "rep_type rep = 0 \<or> rep_type rep = 2"
  shows "\<exists>n rep' mat'. inspectRowWeight rep mat = Some (n, rep', mat') \<and> reports rep mat rep' mat'"
proof -
  obtain b n rep1 mat1 where m1: "inspect_heavy rep mat [0..<mat_nrows mat] 0 = Some (b, n, rep1, mat1)" "reports rep mat rep1 mat1"
    using inspect_heavy_ok [OF assms, of "[0..<mat_nrows mat]" 0] by auto
  obtain mat2 where m2: "inspect_useless mat1 [0..<mat_nrows mat1] = Some mat2" "reports rep1 mat1 rep1 mat2"
    using inspect_useless_ok [OF reportsD(1) [OF m1(2)], of "[0..<mat_nrows mat1]" rep1] by auto
  show ?thesis
  proof (cases b)
    case True
    then show ?thesis using m1 by (simp add: inspectRowWeight_def)
  next
    case False
    then show ?thesis using m1 m2 reports_trans [OF m1(2) m2(2)] by (simp add: inspectRowWeight_def)
  qed
qed

definition destroy_all :: "(int \<times> int) list \<Rightarrow> row_table \<Rightarrow> row_table" where
  "destroy_all tmp rows = fold (\<lambda>(sc, i) rows. rows[nat i := None]) tmp rows"

lemma destroy_all_simps [simp]: "destroy_all [] rows = rows" "destroy_all ((sc, i) # tmp) rows = destroy_all tmp (rows[nat i := None])"
  by (simp_all add: destroy_all_def)

lemma row_at_destroy_all: "row_at (destroy_all tmp rows) k = (if k \<in> nat ` snd ` set tmp then None else row_at rows k)"
proof (induction tmp arbitrary: rows)
  case (Cons si tmp)
  have "row_at (rows[nat (snd si) := None]) k = (if k = nat (snd si) then None else row_at rows k)" by (auto simp: row_at_def)
  then show ?case using Cons.IH [of "rows[nat (snd si) := None]"] by (cases si) auto
qed simp

text \<open>
  The loop of \<open>deleteSuperfluousRows\<close> destroys the rows of an initial part of the list.  It stops when it
  has destroyed \<open>niremmax\<close> rows, when the excess of rows over columns is down to \<open>keep\<close>, or at the end of the list.
\<close>

lemma deleteRows_loop_ok:
  assumes "matrix_ok mat" "rep_type rep = 0 \<or> rep_type rep = 2" "\<forall>(sc, i) \<in> set tmp. 0 \<le> i \<and> nat i < mat_nrows mat"
  shows "\<exists>n d rep' mat'. deleteRows_loop rep mat keep niremmax tmp k = Some (k + int n, rep', mat') \<and> reports rep mat rep' mat'
     \<and> mat_rows mat' = destroy_all (take d tmp) (mat_rows mat) \<and> mat_rem_nrows mat' = mat_rem_nrows mat - int n \<and> mat_rem_ncols mat' = mat_rem_ncols mat
     \<and> (niremmax \<le> k + int n \<or> mat_rem_nrows mat' - mat_rem_ncols mat' \<le> keep \<or> length tmp \<le> d)"
  using assms
proof (induction tmp arbitrary: rep mat k)
  case Nil
  then show ?case using reports_refl by (intro exI [of _ 0]) auto
next
  case (Cons si tmp)
  obtain sc j where sj: "si = (sc, j)" "0 \<le> j" using Cons.prems(3) by (cases si) simp
  define i where "i = nat j"
  have si: "si = (sc, int i)" using sj by (simp add: i_def)
  have i: "i < mat_nrows mat" "\<forall>(sc, i) \<in> set tmp. 0 \<le> i \<and> nat i < mat_nrows mat" using Cons.prems(3) si by auto
  note at = at_rows [OF Cons.prems(1) i(1)]
  show ?case
  proof (cases "k \<ge> niremmax \<or> mat_rem_nrows mat - mat_rem_ncols mat \<le> keep")
    case True
    then show ?thesis using reports_refl [OF Cons.prems(1)] by (intro exI [of _ 0]) (auto simp: si)
  next
    case go: False
    show ?thesis
    proof (cases "row_at (mat_rows mat) i")
      case None
      have "(mat_rows mat)[i := None] = mat_rows mat" using None i(1) matrix_ok_dims(5) [OF Cons.prems(1)] by (metis list_update_id row_at_def)
      moreover obtain n d rep' mat' where "deleteRows_loop rep mat keep niremmax tmp k = Some (k + int n, rep', mat')" "reports rep mat rep' mat'"
          "mat_rows mat' = destroy_all (take d tmp) (mat_rows mat)" "mat_rem_nrows mat' = mat_rem_nrows mat - int n" "mat_rem_ncols mat' = mat_rem_ncols mat"
          "niremmax \<le> k + int n \<or> mat_rem_nrows mat' - mat_rem_ncols mat' \<le> keep \<or> length tmp \<le> d"
        using Cons.IH [OF Cons.prems(1,2) i(2), of k] by blast
      ultimately show ?thesis using go at None by (intro exI [of _ n] exI [of _ "Suc d"] exI [of _ rep'] exI [of _ mat']) (simp add: si)
    next
      case (Some r)
      obtain mat1 where m1: "removeRowDefinitely rep mat (int i) = Some (rep_add rep [[int i]], mat1)" "reports rep mat (rep_add rep [[int i]]) mat1"
          "mat_rows mat1 = (mat_rows mat)[i := None]" "mat_rem_nrows mat1 = mat_rem_nrows mat - 1" "mat_rem_ncols mat1 = mat_rem_ncols mat"
        using removeRowDefinitely_reports [OF Cons.prems(1) Some Cons.prems(2)] by blast
      note d = reportsD [OF m1(2)]
      have t: "\<forall>(sc, i) \<in> set tmp. 0 \<le> i \<and> nat i < mat_nrows mat1" using i(2) progress_nrows [OF d(2)] by simp
      obtain n d' rep' mat' where m2: "deleteRows_loop (rep_add rep [[int i]]) mat1 keep niremmax tmp (k + 1) = Some (k + 1 + int n, rep', mat')"
          "reports (rep_add rep [[int i]]) mat1 rep' mat'" "mat_rows mat' = destroy_all (take d' tmp) (mat_rows mat1)"
          "mat_rem_nrows mat' = mat_rem_nrows mat1 - int n" "mat_rem_ncols mat' = mat_rem_ncols mat1"
          "niremmax \<le> k + 1 + int n \<or> mat_rem_nrows mat' - mat_rem_ncols mat' \<le> keep \<or> length tmp \<le> d'"
        using Cons.IH [OF d(1) _ t, of "rep_add rep [[int i]]" "k + 1"] Cons.prems(2) d(4) by auto
      have "deleteRows_loop rep mat keep niremmax (si # tmp) k = Some (k + int (Suc n), rep', mat')" using go at Some m1(1) m2(1) by (simp add: si)
      moreover have "mat_rows mat' = destroy_all (take (Suc d') (si # tmp)) (mat_rows mat)" using m1(3) m2(3) by (simp add: si)
      moreover have "niremmax \<le> k + int (Suc n) \<or> mat_rem_nrows mat' - mat_rem_ncols mat' \<le> keep \<or> length (si # tmp) \<le> Suc d'"
        using m2(6) by auto
      ultimately show ?thesis using m1(4,5) m2(4,5) reports_trans [OF m1(2) m2(2)]
        by (intro exI [of _ "Suc n"] exI [of _ "Suc d'"] exI [of _ rep'] exI [of _ mat'] conjI) simp_all
    qed
  qed
qed

lemma longest_row_ok:
  assumes "\<forall>i \<in> set is. i \<noteq> - 1 \<longrightarrow> row_of mat i \<noteq> None"
  shows "\<exists>i. longest_row mat k r is = Some i \<and> (i = k \<or> i \<in> set is \<and> i \<noteq> - 1)"
  using assms
proof (induction mat k r "is" rule: longest_row.induct)
  case (2 mat k r i "is")
  show ?case
  proof (cases "i = - 1")
    case True
    then show ?thesis using 2 by auto
  next
    case False
    then obtain ri where ri: "row_of mat i = Some ri" using 2(4) by auto
    show ?thesis using False ri 2(1) [OF False ri] 2(2) [OF False ri] 2(4) by (cases "length ri > length r") auto
  qed
qed simp

lemma longest_row_of_col_ok:
  assumes ok: "matrix_ok mat" and j: "j < mat_ncols mat" "mat_A mat ! j \<noteq> None" "mat_wt mat ! j \<noteq> 0"
  shows "\<exists>i. longest_row_of_col mat (int j) = Some (int i) \<and> row_at (mat_rows mat) i \<noteq> None"
proof -
  have mok: "mat_ok (row_sets (mat_rows mat)) mat" using ok by (simp add: matrix_ok_def)
  obtain r where r: "mat_R mat ! j = Some r" "set (live r) = int ` rows_with (row_sets (mat_rows mat)) j" "mat_wt mat ! j = int (length (live r))"
    using mat_ok_col [OF mok j(1)] j(2) by (auto simp: col_ok_def)
  have ex: "\<exists>k. i = int k \<and> row_at (mat_rows mat) k \<noteq> None" if i: "i \<in> set r" "i \<noteq> - 1" for i
  proof -
    have "i \<in> int ` rows_with (row_sets (mat_rows mat)) j" using i r(2) by (auto simp: live_def)
    then show ?thesis by (auto simp: rows_with_def row_sets_def split: option.splits)
  qed
  have "live r \<noteq> []" using r(3) j(3) by auto
  then obtain i where i: "i \<in> set r" "i \<noteq> - 1" by (auto simp: live_def filter_empty_conv)
  obtain k ks where k: "dropWhile (\<lambda>i. i = - 1) r = k # ks" using i by (cases "dropWhile (\<lambda>i. i = - 1) r") (auto simp: dropWhile_eq_Nil_conv)
  have k1: "k \<noteq> - 1" using hd_dropWhile [of "\<lambda>i. i = - 1" r] k by simp
  have sub: "set (k # ks) \<subseteq> set r" using k by (metis set_dropWhileD subsetI)
  have rw: "row_of mat i \<noteq> None" if i: "i \<in> set (k # ks)" "i \<noteq> - 1" for i
  proof -
    have "i \<in> set r" using i(1) sub by blast
    then obtain n where "i = int n" "row_at (mat_rows mat) n \<noteq> None" using ex i(2) by blast
    then show ?thesis by (simp add: row_of_def)
  qed
  obtain rk where rk: "row_of mat k = Some rk" using rw [of k] k1 by auto
  have "\<forall>i \<in> set ks. i \<noteq> - 1 \<longrightarrow> row_of mat i \<noteq> None" using rw by simp
  from longest_row_ok [OF this, of k rk] obtain i' where i': "longest_row mat k rk ks = Some i'" "i' = k \<or> i' \<in> set ks \<and> i' \<noteq> - 1" by blast
  have "i' \<in> set r" "i' \<noteq> - 1" using i'(2) sub k1 by auto
  then obtain n where n: "i' = int n" "row_at (mat_rows mat) n \<noteq> None" using ex by blast
  have "longest_row_of_col mat (int j) = Some (int n)"
    using j(1) matrix_ok_dims(2) [OF ok] r(1) k rk i'(1) n(1) by (simp add: longest_row_of_col_def)
  then show ?thesis using n(2) by blast
qed

definition rows_listed :: "filter_matrix \<Rightarrow> (int \<times> int) list \<Rightarrow> bool" where
  "rows_listed mat tmp \<longleftrightarrow> (\<forall>(sc, i) \<in> set tmp. 0 \<le> i \<and> row_at (mat_rows mat) (nat i) \<noteq> None)"

lemma superfluousFor2_loop_ok:
  assumes "chain (cells (mat_store mat)) cs" "\<forall>c \<in> set cs. \<exists>i. longest_row_of_col mat (snd c) = Some (int i) \<and> row_at (mat_rows mat) i \<noteq> None"
    and "cs \<noteq> [] \<longrightarrow> length tmp < n" "rows_listed mat tmp"
  shows "\<exists>tmp'. superfluousFor2_loop mat (2 * n) (first_of cs None) tmp = Some tmp' \<and> rows_listed mat tmp'"
  using assms
proof (induction cs arbitrary: tmp)
  case Nil
  then show ?case by (subst superfluousFor2_loop.simps) simp
next
  case (Cons c cs)
  obtain pr where c: "cells (mat_store mat) (fst c) = Some \<lparr> dcl_j = snd c, dcl_prev = pr, dcl_next = first_of cs None \<rparr>"
    using Cons.prems(1) by auto
  obtain i where i: "longest_row_of_col mat (snd c) = Some (int i)" "row_at (mat_rows mat) i \<noteq> None" using Cons.prems(2) by auto
  let ?tmp = "tmp @ [(0, int i)]"
  have l: "rows_listed mat ?tmp" using Cons.prems(4) i(2) by (auto simp: rows_listed_def)
  have n: "length tmp < n" using Cons.prems(3) by simp
  show ?case
  proof (cases "2 * length ?tmp \<ge> 2 * n")
    case True
    then have "superfluousFor2_loop mat (2 * n) (first_of (c # cs) None) tmp = Some ?tmp"
      using c i(1) n by (subst superfluousFor2_loop.simps) simp
    then show ?thesis using l by blast
  next
    case False
    then have "superfluousFor2_loop mat (2 * n) (first_of (c # cs) None) tmp = superfluousFor2_loop mat (2 * n) (first_of cs None) ?tmp"
      using c i(1) n by (subst superfluousFor2_loop.simps) simp
    then show ?thesis using Cons.IH [of ?tmp] Cons.prems(1,2) False l by auto
  qed
qed

lemma findSuperfluousRowsFor2_ok:
  assumes inv: "merge_inv mat"
  shows "\<exists>tmp. findSuperfluousRowsFor2 (nat (2 * mat_rem_nrows mat)) mat = Some tmp \<and> rows_listed mat tmp"
proof -
  have ok: "matrix_ok mat" and cw: "2 \<le> mat_cwmax mat" and lv: "int (card (live_rows mat)) \<le> mat_rem_nrows mat" using inv by (auto simp: merge_inv_def)
  obtain L where L: "stacks (mat_S mat) (mat_A mat) (mat_store mat) (level mat) L" using ok by (auto simp: matrix_ok_def mat_ok_def)
  note d = stacksD [OF L]
  have w: "3 < length (mat_S mat)" using matrix_ok_dims(4) [OF ok] cw by simp
  have dl: "is_dclist (mat_store mat) (mat_S mat ! 3) (L 3)" using d(3) [OF w] .
  have n: "nat (2 * mat_rem_nrows mat) = 2 * nat (mat_rem_nrows mat)" by simp
  have c: "\<exists>i. longest_row_of_col mat (snd c) = Some (int i) \<and> row_at (mat_rows mat) i \<noteq> None" if "c \<in> set (L 3)" for c
  proof -
    have "0 \<le> snd c" "nat (snd c) < mat_ncols mat" "mat_A mat ! nat (snd c) \<noteq> None" "level mat (nat (snd c)) = 3"
      using d(1) [OF w, of "fst c" "snd c"] that matrix_ok_dims(3) [OF ok] by auto
    moreover from this(4) have "mat_wt mat ! nat (snd c) \<noteq> 0" by (auto simp: level_def split: if_splits)
    ultimately show ?thesis using longest_row_of_col_ok [OF ok, of "nat (snd c)"] by simp
  qed
  have "0 < nat (mat_rem_nrows mat)" if ne: "L 3 \<noteq> []"
  proof -
    obtain i where "row_at (mat_rows mat) i \<noteq> None" using c [OF hd_in_set [OF ne]] by blast
    then have "live_rows mat \<noteq> {}" by (auto simp: live_rows_at)
    then have "0 < card (live_rows mat)" by (simp add: card_gt_0_iff)
    then show ?thesis using lv by simp
  qed
  then have "\<exists>tmp'. superfluousFor2_loop mat (2 * nat (mat_rem_nrows mat)) (first_of (L 3) None) [] = Some tmp' \<and> rows_listed mat tmp'"
    using superfluousFor2_loop_ok [of mat "L 3" "[]" "nat (mat_rem_nrows mat)"] c dl dls_chain [of "cells (mat_store mat)" "Some (mat_S mat ! 3)" "L 3"]
    by (simp add: is_dclist_def rows_listed_def)
  moreover have "at (mat_S mat) 3 = Some (mat_S mat ! 3)" using w by (simp add: at_def)
  ultimately show ?thesis using dclistFirst_val [OF dl] n by (simp add: findSuperfluousRowsFor2_def)
qed

lemma concat_if_filter: "concat (map (\<lambda>i. if P i then [f i] else []) xs) = map f (filter P xs)"
  by (induction xs) auto

lemma scored_rows_map:
  "scored_rows mat = map (\<lambda>i. (deleteScore (the (mat_rows mat ! i)), int i)) (filter (\<lambda>i. mat_rows mat ! i \<noteq> None) [0..<mat_nrows mat])"
  unfolding scored_rows_def by (rule concat_if_filter)

lemma scored_rows_iff:
  assumes ok: "matrix_ok mat"
  shows "(sc, i) \<in> set (scored_rows mat) \<longleftrightarrow> (\<exists>k r. i = int k \<and> row_at (mat_rows mat) k = Some r \<and> sc = int (length r))"
proof
  have l: "length (mat_rows mat) = mat_nrows mat" using matrix_ok_dims(5) [OF ok] .
  assume "(sc, i) \<in> set (scored_rows mat)"
  then obtain k where k: "k < mat_nrows mat" "mat_rows mat ! k \<noteq> None" "sc = int (length (the (mat_rows mat ! k)))" "i = int k"
    unfolding scored_rows_map deleteScore_def by auto
  then obtain r where "mat_rows mat ! k = Some r" by blast
  then show "\<exists>k r. i = int k \<and> row_at (mat_rows mat) k = Some r \<and> sc = int (length r)"
    using k l by (intro exI [of _ k] exI [of _ r]) (simp add: row_at_def)
next
  assume "\<exists>k r. i = int k \<and> row_at (mat_rows mat) k = Some r \<and> sc = int (length r)"
  then obtain k r where k: "i = int k" "row_at (mat_rows mat) k = Some r" "sc = int (length r)" by blast
  have kl: "k < length (mat_rows mat)" using row_at_less [OF k(2)] .
  then have "mat_rows mat ! k = Some r" "k \<in> set (filter (\<lambda>i. mat_rows mat ! i \<noteq> None) [0..<mat_nrows mat])"
    using k(2) matrix_ok_dims(5) [OF ok] by (simp_all add: row_at_def)
  then show "(sc, i) \<in> set (scored_rows mat)" unfolding scored_rows_map set_map k(1,3) deleteScore_def
    by (intro image_eqI [of _ _ k]) simp_all
qed

lemma length_scored_rows:
  assumes ok: "matrix_ok mat"
  shows "length (scored_rows mat) = card (live_rows mat)"
proof -
  let ?f = "filter (\<lambda>i. mat_rows mat ! i \<noteq> None) [0..<mat_nrows mat]"
  have "set ?f = live_rows mat" "distinct ?f" using matrix_ok_dims(5) [OF ok] by (auto simp: live_rows_def)
  then show ?thesis unfolding scored_rows_map using distinct_card [of ?f] by simp
qed

lemma findSuperfluousRows_ok:
  assumes inv: "merge_inv mat" and q: "\<forall>xs. mset (qsort xs) = mset xs"
  shows "\<exists>tmp. findSuperfluousRows qsort (nat (2 * mat_rem_nrows mat)) mat m = Some tmp \<and> rows_listed mat tmp
     \<and> (m \<noteq> 2 \<longrightarrow> tmp = qsort (scored_rows mat))"
proof -
  have ok: "matrix_ok mat" and lv: "int (card (live_rows mat)) \<le> mat_rem_nrows mat" using inv by (auto simp: merge_inv_def)
  obtain tmp1 where t1: "(if m = 2 then findSuperfluousRowsFor2 (nat (2 * mat_rem_nrows mat)) mat else Some []) = Some tmp1" "rows_listed mat tmp1"
      "m \<noteq> 2 \<longrightarrow> tmp1 = []"
    using findSuperfluousRowsFor2_ok [OF inv] by (cases "m = 2") (auto simp: rows_listed_def)
  have "set (qsort (scored_rows mat)) = set (scored_rows mat)" using q by (metis set_mset_mset)
  then have l: "rows_listed mat (qsort (scored_rows mat))" using scored_rows_iff [OF ok] unfolding rows_listed_def by auto
  have "2 * length (scored_rows mat) \<le> nat (2 * mat_rem_nrows mat)" using length_scored_rows [OF ok] lv by simp
  then show ?thesis using t1 l by (cases "tmp1 = []") (simp_all add: findSuperfluousRows_def)
qed

lemma rows_listed_range: "matrix_ok mat \<Longrightarrow> rows_listed mat tmp \<Longrightarrow> \<forall>(sc, i) \<in> set tmp. 0 \<le> i \<and> nat i < mat_nrows mat"
  using matrix_ok_dims(5) [of mat] row_at_less unfolding rows_listed_def by fastforce

lemma deleteSuperfluousRows_ok:
  assumes inv: "merge_inv mat" and q: "\<forall>xs. mset (qsort xs) = mset xs" and rep: "rep_type rep = 0 \<or> rep_type rep = 2"
  shows "\<exists>n d rep' mat'. deleteSuperfluousRows qsort rep mat keep niremmax m = Some (int n, rep', mat') \<and> reports rep mat rep' mat'
     \<and> mat_rem_nrows mat' = mat_rem_nrows mat - int n \<and> mat_rem_ncols mat' = mat_rem_ncols mat
     \<and> (m \<noteq> 2 \<longrightarrow> mat_rows mat' = destroy_all (take d (rev (qsort (scored_rows mat)))) (mat_rows mat)
          \<and> (niremmax \<le> int n \<or> mat_rem_nrows mat' - mat_rem_ncols mat' \<le> keep \<or> length (scored_rows mat) \<le> d))"
proof -
  have ok: "matrix_ok mat" using inv by (simp add: merge_inv_def)
  show ?thesis
  proof (cases "mat_rem_nrows mat - mat_rem_ncols mat \<le> keep")
    case True
    then show ?thesis using reports_refl [OF ok] by (intro exI [of _ 0] exI [of _ 0] exI [of _ rep] exI [of _ mat]) (simp add: deleteSuperfluousRows_def)
  next
    case False
    obtain tmp where t: "findSuperfluousRows qsort (nat (2 * mat_rem_nrows mat)) mat m = Some tmp" "rows_listed mat tmp"
        "m \<noteq> 2 \<longrightarrow> tmp = qsort (scored_rows mat)" using findSuperfluousRows_ok [OF inv q] by blast
    have "\<forall>(sc, i) \<in> set (rev tmp). 0 \<le> i \<and> nat i < mat_nrows mat" using rows_listed_range [OF ok t(2)] by simp
    from deleteRows_loop_ok [OF ok rep this, of keep niremmax 0] obtain n d rep' mat' where
        m: "deleteRows_loop rep mat keep niremmax (rev tmp) 0 = Some (0 + int n, rep', mat')" "reports rep mat rep' mat'"
        "mat_rows mat' = destroy_all (take d (rev tmp)) (mat_rows mat)" "mat_rem_nrows mat' = mat_rem_nrows mat - int n" "mat_rem_ncols mat' = mat_rem_ncols mat"
        "niremmax \<le> 0 + int n \<or> mat_rem_nrows mat' - mat_rem_ncols mat' \<le> keep \<or> length (rev tmp) \<le> d" by blast
    have "length (qsort (scored_rows mat)) = length (scored_rows mat)" using q by (metis size_mset)
    then show ?thesis using False t(1,3) m
      by (intro exI [of _ n] exI [of _ d] exI [of _ rep'] exI [of _ mat'] conjI impI) (auto simp: deleteSuperfluousRows_def)
  qed
qed

text \<open>With a sorted list the rows destroyed are longest ones.\<close>

lemma destroyed_longest:
  assumes ok: "matrix_ok mat" and q: "mset tmp = mset (scored_rows mat)" "sorted (map fst tmp)"
    and mat': "mat_rows mat' = destroy_all (take d (rev tmp)) (mat_rows mat)"
    and i: "row_at (mat_rows mat) i = Some r" "row_at (mat_rows mat') i = None" and k: "row_at (mat_rows mat') k = Some s"
  shows "length s \<le> length r"
proof -
  let ?sc = "rev tmp"
  have st: "set ?sc = set (scored_rows mat)" using q(1) by (metis set_mset_mset set_rev)
  have ki: "k \<notin> nat ` snd ` set (take d ?sc)" "row_at (mat_rows mat) k = Some s" using k unfolding mat' row_at_destroy_all by (auto split: if_splits)
  have "i \<in> nat ` snd ` set (take d ?sc)" using i unfolding mat' row_at_destroy_all by (auto split: if_splits)
  then obtain sc x where x: "(sc, x) \<in> set (take d ?sc)" "i = nat x" by auto
  have "(sc, x) \<in> set (scored_rows mat)" using x(1) st by (metis in_set_takeD)
  then have sc: "sc = int (length r)" using scored_rows_iff [OF ok] i(1) x(2) by auto
  have "(int (length s), int k) \<in> set ?sc" unfolding st using scored_rows_iff [OF ok] ki(2) by blast
  moreover have "(int (length s), int k) \<notin> set (take d ?sc)" using ki(1) by force
  ultimately have s: "(int (length s), int k) \<in> set (drop d ?sc)" by (metis append_take_drop_id UnE set_append)
  have "sorted_wrt (\<ge>) (map fst ?sc)" using q(2) by (simp add: rev_map [symmetric] sorted_wrt_rev)
  then have "sorted_wrt (\<ge>) (map fst (take d ?sc) @ map fst (drop d ?sc))" by (metis append_take_drop_id map_append)
  then have "\<forall>a \<in> fst ` set (take d ?sc). \<forall>b \<in> fst ` set (drop d ?sc). b \<le> a" by (simp add: sorted_wrt_append)
  then show ?thesis using x(1) s sc by force
qed

section \<open>The merges\<close>

lemma merge_weights:
  assumes inv: "merge_inv mat"
  shows "merge_weights_ok m ind mat \<or> (\<exists>i < m. mat_nrows mat \<le> nat (ind ! i))"
proof (cases "\<forall>i < m. nat (ind ! i) < mat_nrows mat")
  case True
  have ok: "matrix_ok mat" and b: "mat_ncols mat < 2 ^ 22" "0 \<le> mat_nburied mat" "mat_nburied mat \<le> int (mat_ncols mat)" "\<forall>b \<in> set (mat_wburied mat). 0 \<le> b"
    using inv by (auto simp: merge_inv_def)
  have len: "length r \<le> mat_ncols mat" if "row_ok r" "set r \<subseteq> {0..<int (mat_ncols mat)}" for r
  proof -
    have "length r = card (set r)" using row_ok_distinct [OF that(1)] by (simp add: distinct_card)
    also have "\<dots> \<le> card {0..<int (mat_ncols mat)}" using that(2) by (intro card_mono) auto
    finally show ?thesis by simp
  qed
  have row: "row_ok (init_row (mat_rows mat) i) \<and> set (init_row (mat_rows mat) i) \<subseteq> {0..<int (mat_ncols mat)}" for i
  proof (cases "row_at (mat_rows mat) i")
    case (Some r)
    then have "row_sets (mat_rows mat) i = set r" using row_sets_Some by blast
    then have "set r \<subseteq> {0..<int (mat_ncols mat)}" using ok mat_ok_dims(7) [of "row_sets (mat_rows mat)" mat i] by (simp add: matrix_ok_def)
    then show ?thesis using Some ok by (simp add: init_row_def matrix_ok_def)
  qed (simp add: init_row_def)
  have w: "weightSum (mat_rows mat) (mat_wburied mat) (mat_nburied mat) i k < 2 ^ 23" for i k
  proof -
    let ?r = "merge_rows (init_row (mat_rows mat) i) (init_row (mat_rows mat) k)"
    have "row_ok ?r" "set ?r \<subseteq> {0..<int (mat_ncols mat)}"
      using set_merge_ok [of "init_row (mat_rows mat) i" "init_row (mat_rows mat) k"] row [of i] row [of k] by auto
    then have "length ?r \<le> mat_ncols mat" using len by blast
    moreover have "buriedSum (mat_wburied mat) (mat_nburied mat) i k \<le> mat_nburied mat" by (simp add: buriedSum_def Let_def)
    moreover have "weightSum (mat_rows mat) (mat_wburied mat) (mat_nburied mat) i k = buriedSum (mat_wburied mat) (mat_nburied mat) i k + int (length ?r)"
      by (simp add: weightSum_def weightSum_loop_eq init_row_def Let_def)
    ultimately show ?thesis using b(1,3) by simp
  qed
  have "0 \<le> mat_wburied mat ! nat (ind ! i)" if "i < m" for i
    using True that b(4) matrix_ok_dims(6) [OF ok] by (metis nth_mem)
  then show ?thesis using w b(2) by (simp add: merge_weights_ok_def)
qed (auto simp: not_less)

lemma merge_arrays_mono: "merge_arrays_ok MERGE_LEVEL_MAX arr \<Longrightarrow> m \<le> MERGE_LEVEL_MAX \<Longrightarrow> merge_arrays_ok m arr"
  unfolding merge_arrays_ok_def square_def by (meson le_trans less_le_trans)

lemma mergeForColumn_reports:
  assumes inv: "merge_inv mat" and j: "j < mat_ncols mat" "mat_A mat ! j \<noteq> None" and m: "mat_wt mat ! j = int m" "0 < m" "m \<le> MERGE_LEVEL_MAX"
    and arr: "merge_arrays_ok MERGE_LEVEL_MAX arr" and rep: "rep_type rep = 0 \<or> rep_type rep = 2"
  shows "\<exists>rep' mat'. mergeForColumn arr rep mat m (int j) useMST = Some (rep', mat') \<and> reports rep mat rep' mat' \<and> active mat' < active mat
     \<and> mat_rem_nrows mat' = mat_rem_nrows mat - 1 \<and> mat_rem_ncols mat' = mat_rem_ncols mat - 1"
proof -
  have ok: "matrix_ok mat" using inv by (simp add: merge_inv_def)
  have wts: "\<forall>r. mat_R mat ! j = Some r \<longrightarrow> merge_weights_ok m (live r) mat"
  proof (intro allI impI)
    fix r assume "mat_R mat ! j = Some r"
    then have ex: "rows_exist m (live r) mat" using rows_of_column [OF ok j] m(1) by auto
    then have "\<forall>i < m. nat (live r ! i) < mat_nrows mat" using row_at_less matrix_ok_dims(5) [OF ok] by (fastforce simp: rows_exist_def)
    then show "merge_weights_ok m (live r) mat" using merge_weights [OF inv, of m "live r"] by (auto simp: not_le [symmetric])
  qed
  obtain ls mat' p c idx where r: "mergeForColumn arr rep mat m (int j) useMST = Some (rep_add rep ls, mat')" "matrix_ok mat'" "gone mat' j"
      "bij_betw idx {..<m} (rows_with (row_sets (mat_rows mat)) j)" "c < m" "combined (mat_rows mat) idx p {..<m} c (mat_rows mat')"
      "apply_lines (mat_rows mat) ls = Some (mat_rows mat')" "merge_frame j mat mat'"
      "mat_rem_nrows mat' = mat_rem_nrows mat - 1" "mat_rem_ncols mat' = mat_rem_ncols mat - 1"
    using mergeForColumn_ok [OF ok j m merge_arrays_mono [OF arr m(3)] rep wts] by blast
  have idx: "row_at (mat_rows mat) (idx w) \<noteq> None" if "w < m" for w
  proof -
    have "idx w \<in> rows_with (row_sets (mat_rows mat)) j" using r(4) that by (auto simp: bij_betw_def)
    then show ?thesis by (auto simp: rows_with_def row_sets_def split: option.splits)
  qed
  have lv: "live_rows mat' = live_rows mat - {idx c}"
  proof -
    have "row_at (mat_rows mat') i \<noteq> None \<longleftrightarrow> i \<noteq> idx c \<and> row_at (mat_rows mat) i \<noteq> None" for i
    proof (cases "i \<in> idx ` {..<m}")
      case True
      then obtain w where w: "i = idx w" "w < m" by auto
      show ?thesis using r(6) w idx [OF w(2)] unfolding combined_def by (cases "w = c") (force, metis DiffI lessThan_iff option.distinct(1) singletonD)
    next
      case False
      then show ?thesis using r(5,6) unfolding combined_def by auto
    qed
    then show ?thesis by (auto simp: live_rows_at)
  qed
  have c: "idx c \<in> live_rows mat" using idx [OF r(5)] by (simp add: live_rows_at)
  have card: "Suc (card (live_rows mat')) = card (live_rows mat)" using card_Suc_Diff1 [OF finite_live c] lv by simp
  have "nlive (mat_rows mat) = nlive (mat_rows mat') + destroyed ls" using apply_lines_live [OF r(7)] .
  then have d: "destroyed ls = 1" using card unfolding nlive_def live_rows_at by simp
  have A: "mat_A mat' ! k = None" if "mat_A mat ! k = None" for k
    using r(3,8) that by (cases "k = j") (auto simp: merge_frame_def gone_def)
  have "progress mat mat'" using r(8,9) lv card A by (auto simp: progress_def merge_frame_def)
  moreover from this have "reports rep mat (rep_add rep ls) mat'" using reportsI [OF r(2) _ refl r(7)] r(9) d by simp
  ultimately show ?thesis using r(1,9,10) active_less [OF ok r(2) _ j] r(3) by (auto simp: gone_def)
qed

lemma merge_invD:
  assumes "merge_inv mat"
  shows "matrix_ok mat" "2 \<le> mat_cwmax mat" "mat_ncols mat < 2 ^ 22"
  using assms by (auto simp: merge_inv_def)

text \<open>One merge, then the columns that have become too heavy.\<close>

lemma merge_and_clean:
  assumes inv: "merge_inv mat" and j: "j < mat_ncols mat" "mat_A mat ! j \<noteq> None" and m: "mat_wt mat ! j = int m" "0 < m" "m \<le> MERGE_LEVEL_MAX"
    and arr: "merge_arrays_ok MERGE_LEVEL_MAX arr" and rep: "rep_type rep = 0 \<or> rep_type rep = 2"
  shows "\<exists>rep1 mat1 n mat'. mergeForColumn arr rep mat m (int j) useMST = Some (rep1, mat1) \<and> deleteHeavyColumns rep1 mat1 = Some (int n, rep1, mat')
     \<and> reports rep mat rep1 mat' \<and> active mat' < active mat"
proof -
  obtain rep1 mat1 where m1: "mergeForColumn arr rep mat m (int j) useMST = Some (rep1, mat1)" "reports rep mat rep1 mat1" "active mat1 < active mat"
    using mergeForColumn_reports [OF assms] by blast
  have i1: "merge_inv mat1" using reportsD(3) [OF m1(2) inv] .
  note d = merge_invD [OF i1]
  obtain n mat' where m2: "deleteHeavyColumns rep1 mat1 = Some (int n, rep1, mat')" "matrix_ok mat'" "progress mat1 mat'" "mat_rows mat' = mat_rows mat1"
      "mat_rem_nrows mat' = mat_rem_nrows mat1"
    using deleteHeavyColumns_ok [OF d(1), of rep1] d(2) by auto
  have "active mat' < active mat" using active_le [OF d(1) m2(2,3)] m1(3) by simp
  then show ?thesis using m1(1) m2(1) reports_trans [OF m1(2) reports_same [OF m2(2-5)]] by blast
qed

lemma merge_m_loop_ok:
  assumes "merge_inv mat" "rep_type rep = 0 \<or> rep_type rep = 2" "0 < m" "m \<le> MERGE_LEVEL_MAX" "m \<le> mat_cwmax mat"
    and arr: "\<forall>mat. merge_arrays_ok MERGE_LEVEL_MAX (arr mat)"
  shows "\<exists>n rep' mat'. merge_m_loop arr rep mat m maxdo k = Some (k + int n, rep', mat') \<and> reports rep mat rep' mat' \<and> active mat' \<le> active mat
     \<and> ((\<exists>j < mat_ncols mat. mat_A mat ! j \<noteq> None \<and> level mat j = m) \<longrightarrow> active mat' < active mat)
     \<and> (maxdo \<le> 0 \<longrightarrow> (\<forall>j < mat_ncols mat'. mat_A mat' ! j \<noteq> None \<longrightarrow> level mat' j \<noteq> m))"
  using assms(1-5)
proof (induction "active mat" arbitrary: rep mat maxdo k rule: less_induct)
  case less
  note d = merge_invD [OF less.prems(1)]
  have w: "m < length (mat_S mat)" using matrix_ok_dims(4) [OF d(1)] less.prems(5) by simp
  show ?case
  proof (cases rule: stack_first_cases [OF d(1) w])
    case (1 h)
    then have "merge_m_loop arr rep mat m maxdo k = Some (k, rep, mat)" by (subst merge_m_loop.simps) simp
    then show ?thesis using reports_refl [OF d(1)] 1(3) by (intro exI [of _ 0] exI [of _ rep] exI [of _ mat]) auto
  next
    case (2 h p c j)
    have wt: "mat_wt mat ! j = int m" using 2(7) level_light [OF less.prems(5,3)] by blast
    have A: "mat_A mat ! j \<noteq> None" using 2(6) by simp
    obtain rep1 mat1 n mat2 where m1: "mergeForColumn (arr mat) rep mat m (int j) True = Some (rep1, mat1)"
        "deleteHeavyColumns rep1 mat1 = Some (int n, rep1, mat2)" "reports rep mat rep1 mat2" "active mat2 < active mat"
      using merge_and_clean [OF less.prems(1) 2(5) A wt less.prems(3,4) _ less.prems(2)] arr by blast
    have step: "merge_m_loop arr rep mat m maxdo k
        = (if maxdo - 1 = 0 then Some (k + int n, rep1, mat2) else merge_m_loop arr rep1 mat2 m (maxdo - 1) (k + int n))"
      using 2 m1(1,2) by (subst merge_m_loop.simps) simp
    show ?thesis
    proof (cases "maxdo - 1 = 0")
      case True
      then show ?thesis using step m1(3,4) by (intro exI [of _ n] exI [of _ rep1] exI [of _ mat2]) simp
    next
      case False
      note r = reportsD [OF m1(3)]
      have "rep_type rep1 = 0 \<or> rep_type rep1 = 2" "m \<le> mat_cwmax mat2" using less.prems(2,5) r(2,4) by (simp_all add: progress_def)
      from less.hyps [OF m1(4) r(3) [OF less.prems(1)] this(1) less.prems(3,4) this(2), of "maxdo - 1" "k + int n"]
      obtain n' rep' mat' where m2: "merge_m_loop arr rep1 mat2 m (maxdo - 1) (k + int n) = Some (k + int n + int n', rep', mat')"
          "reports rep1 mat2 rep' mat'" "active mat' \<le> active mat2"
          "maxdo - 1 \<le> 0 \<longrightarrow> (\<forall>j < mat_ncols mat'. mat_A mat' ! j \<noteq> None \<longrightarrow> level mat' j \<noteq> m)" by blast
      have "reports rep mat rep' mat'" using reports_trans [OF m1(3) m2(2)] .
      then show ?thesis using step False m1(4) m2(1,3,4) by (intro exI [of _ "n + n'"] exI [of _ rep'] exI [of _ mat']) simp
    qed
  qed
qed

definition waiting :: "filter_matrix \<Rightarrow> nat \<Rightarrow> bool" where
  "waiting mat m \<longleftrightarrow> (\<exists>j < mat_ncols mat. mat_A mat ! j \<noteq> None \<and> level mat j = m)"

lemma minColWeight_loop_ok:
  assumes ok: "matrix_ok mat" and ms: "\<forall>m \<in> set ms. m < length (mat_S mat)"
  shows "minColWeight_loop mat ms = Some (case find (waiting mat) ms of None \<Rightarrow> - 1 | Some m \<Rightarrow> int m)"
  using ms
proof (induction ms)
  case (Cons m ms)
  have w: "m < length (mat_S mat)" using Cons.prems by simp
  show ?case
  proof (cases rule: stack_first_cases [OF ok w])
    case (1 h)
    then have "\<not> waiting mat m" by (auto simp: waiting_def)
    then show ?thesis using 1(1,2) Cons by simp
  next
    case (2 h p c j)
    then have "waiting mat m" by (auto simp: waiting_def)
    then show ?thesis using 2(1,2) by simp
  qed
qed simp

text \<open>\<open>minColWeight\<close> is the least positive weight of a column of the stacks, or -1 if there is none up to \<open>cwmax\<close>.\<close>

lemma minColWeight_ok:
  assumes ok: "matrix_ok mat"
  shows "(minColWeight mat = Some (- 1) \<and> (\<forall>j < mat_ncols mat. mat_A mat ! j \<noteq> None \<longrightarrow> mat_wt mat ! j = 0 \<or> int (mat_cwmax mat) < mat_wt mat ! j))
     \<or> (\<exists>m. minColWeight mat = Some (int m) \<and> 0 < m \<and> m \<le> mat_cwmax mat \<and> waiting mat m \<and> (\<forall>m'. 0 < m' \<longrightarrow> m' < m \<longrightarrow> \<not> waiting mat m'))"
proof -
  let ?ms = "[1..<mat_cwmax mat + 1]"
  have "\<forall>m \<in> set ?ms. m < length (mat_S mat)" using matrix_ok_dims(4) [OF ok] by auto
  then have v: "minColWeight mat = Some (case find (waiting mat) ?ms of None \<Rightarrow> - 1 | Some m \<Rightarrow> int m)"
    unfolding minColWeight_def by (rule minColWeight_loop_ok [OF ok])
  show ?thesis
  proof (cases "find (waiting mat) ?ms")
    case None
    have n: "\<not> waiting mat m" if "0 < m" "m \<le> mat_cwmax mat" for m
    proof -
      have "m \<in> set ?ms" using that by (simp del: upt_Suc)
      then show ?thesis using None unfolding find_None_iff by blast
    qed
    have "mat_wt mat ! j = 0 \<or> int (mat_cwmax mat) < mat_wt mat ! j" if j: "j < mat_ncols mat" "mat_A mat ! j \<noteq> None" for j
    proof (rule ccontr)
      assume a: "\<not> (mat_wt mat ! j = 0 \<or> int (mat_cwmax mat) < mat_wt mat ! j)"
      obtain r where "mat_wt mat ! j = int (length (live r))" using rows_of_column [OF ok j] by blast
      then have "0 < level mat j" "level mat j \<le> mat_cwmax mat" using a by (auto simp: level_def)
      then show False using n [of "level mat j"] j by (auto simp: waiting_def)
    qed
    then show ?thesis using v None by simp
  next
    case (Some m)
    then obtain i where i: "i < length ?ms" "?ms ! i = m" "waiting mat m" "\<forall>k < i. \<not> waiting mat (?ms ! k)"
      unfolding find_Some_iff by auto
    have im: "i < mat_cwmax mat" "m = 1 + i" using i(1,2) by (simp_all del: upt_Suc)
    have "\<not> waiting mat m'" if "0 < m'" "m' < m" for m'
    proof -
      have "m' - 1 < i" "?ms ! (m' - 1) = m'" using that im by (simp_all del: upt_Suc)
      then show ?thesis using i(4) by metis
    qed
    moreover have "minColWeight mat = Some (int m)" using v unfolding Some by simp
    ultimately show ?thesis using im i(3) by (intro disjI2 exI [of _ m]) simp
  qed
qed

end
