(* ===== verification/Merge_main.thy ===== *)
theory Merge_main
  imports Merge_drive
begin

text \<open>
  Model of the driver of the merge phase, \<open>mergeOneByOne\<close> of \<open>src/filter/merge_mono.c\<close>: the columns of least
  weight are merged until the level, the cost or the number of columns tells to stop.  It is shown to end,
  to write a history that describes its result, and to leave rows whose dependencies are dependencies of
  the initial rows.
\<close>

section \<open>One merge\<close>

lemma removeSingletons_reports:
  assumes ok: "matrix_ok mat" and c: "1 \<le> mat_cwmax mat" and rep: "rep_type rep = 0 \<or> rep_type rep = 2"
  shows "\<exists>n rep' mat'. removeSingletons rep mat = Some (int n, rep', mat') \<and> reports rep mat rep' mat' \<and> (waiting mat 1 \<longrightarrow> active mat' < active mat)"
proof -
  obtain n ls mat' where m: "removeSingletons rep mat = Some (int n, rep_add rep ls, mat')" "matrix_ok mat'" "progress mat mat'"
     "apply_lines (mat_rows mat) ls = Some (mat_rows mat')" "mat_rem_nrows mat' = mat_rem_nrows mat - int (length ls)"
     "active mat' + n \<le> active mat" "waiting mat 1 \<longrightarrow> 0 < n"
    using removeSingletons_ok [OF assms] unfolding waiting_def by blast
  have "nlive (mat_rows mat) = nlive (mat_rows mat') + destroyed ls" using apply_lines_live [OF m(4)] .
  moreover have "int (nlive (mat_rows mat')) + int (length ls) \<le> int (nlive (mat_rows mat))"
    using m(3,5) by (simp add: progress_def live_rows_at nlive_def)
  moreover have "destroyed ls \<le> length ls" by (simp add: destroyed_def)
  ultimately have "destroyed ls = length ls" by linarith
  then have "reports rep mat (rep_add rep ls) mat'" using reportsI [OF m(2,3) refl m(4)] m(5) by simp
  then show ?thesis using m(1,6,7) by auto
qed

lemma doOneMerge_ok:
  assumes inv: "merge_inv mat" and rep: "rep_type rep = 0 \<or> rep_type rep = 2" and m: "0 < m" "m \<le> MERGE_LEVEL_MAX" "m \<le> mat_cwmax mat" "waiting mat m"
    and arr: "\<forall>mat. merge_arrays_ok MERGE_LEVEL_MAX (arr mat)"
  shows "\<exists>n rep' mat'. doOneMerge arr rep mat njrem m maxdo useMST = Some (njrem + int n, rep', mat') \<and> reports rep mat rep' mat' \<and> active mat' < active mat"
proof -
  note d = merge_invD [OF inv]
  consider "m = 1" | "m = 2" | "2 < m" using m(1) by linarith
  then show ?thesis
  proof cases
    case 1
    then show ?thesis using removeSingletons_reports [OF d(1) _ rep] d(2) m(4) by (auto simp: doOneMerge_def)
  next
    case 2
    obtain n rep' mat' where "merge_m_loop arr rep mat m maxdo 0 = Some (0 + int n, rep', mat')" "reports rep mat rep' mat'" "active mat' < active mat"
      using merge_m_loop_ok [OF inv rep m(1-3) arr, folded waiting_def, of maxdo 0] m(4) by blast
    then show ?thesis using 2 by (simp add: doOneMerge_def merge_m_fast_def)
  next
    case 3
    have w: "m < length (mat_S mat)" using matrix_ok_dims(4) [OF d(1)] m(3) by simp
    show ?thesis
    proof (cases rule: stack_first_cases [OF d(1) w])
      case (1 h)
      then show ?thesis using m(4) unfolding waiting_def by blast
    next
      case (2 h p c j)
      have wt: "mat_wt mat ! j = int m" using 2(7) level_light [OF m(3,1)] by blast
      have A: "mat_A mat ! j \<noteq> None" using 2(6) by simp
      obtain rep1 mat1 n mat2 where m1: "mergeForColumn (arr mat) rep mat m (int j) useMST = Some (rep1, mat1)"
          "deleteHeavyColumns rep1 mat1 = Some (int n, rep1, mat2)" "reports rep mat rep1 mat2" "active mat2 < active mat"
        using merge_and_clean [OF inv 2(5) A wt m(1,2) arr [rule_format] rep] by blast
      moreover have "at (mat_wt mat) (int j) = Some (int m)" using 2(5) wt matrix_ok_dims(1) [OF d(1)] by simp
      ultimately have "doOneMerge arr rep mat njrem m maxdo useMST = Some (njrem + int n, rep1, mat2)"
        using 2 3 by (simp add: doOneMerge_def mergeForColumn2_def)
      then show ?thesis using m1(3,4) by blast
    qed
  qed
qed

section \<open>The driver\<close>

text \<open>
  \<open>my_cost\<close> with \<open>forbw = 2\<close> is computed in floating point; this case is the parameter \<open>cost2\<close>.  The
  result is \<^const>\<open>None\<close> for a division by zero.
\<close>

definition my_cost :: "(ul \<Rightarrow> ul \<Rightarrow> ul) \<Rightarrow> ul \<Rightarrow> ul \<Rightarrow> int \<Rightarrow> ul option" where
  "my_cost cost2 N c forbw =
     (if forbw = 2 then Some (cost2 N c)
      else if forbw = 3 then (if N = 0 then None else Some (c div N))
      else if forbw \<le> 1 then Some (N * c)
      else Some 0)"

text \<open>
  The arguments of \<open>mergeOneByOne\<close>: the options of the program, the uninitialised arrays of the merges, the
  library function \<open>qsort\<close>, and what is computed in floating point: the cost for \<open>forbw = 2\<close> and whether the ratio of two
  costs exceeds \<open>ratio\<close>.
\<close>

record merge_par =
  par_itermax :: int
  par_maxlevel :: int
  par_forbw :: int
  par_coverNmax :: int
  par_arr :: "filter_matrix \<Rightarrow> merge_arrays"
  par_qsort :: "(int \<times> int) list \<Rightarrow> (int \<times> int) list"
  par_cost2 :: "ul \<Rightarrow> ul \<Rightarrow> ul"
  par_high :: "ul \<Rightarrow> ul \<Rightarrow> bool"

text \<open>
  The local variables of \<open>mergeOneByOne\<close> that live through a turn of its loop.  The costs printed as
  \<open>BWCOST\<close> lines are collected in \<open>ms_bwcosts\<close>; both readers of the history file skip these lines.
\<close>

record merge_state =
  ms_njproc :: int
  ms_njrem :: int
  ms_mmax :: int
  ms_target :: int
  ms_ncost :: int
  ms_bwcost :: ul
  ms_oldbwcost :: ul
  ms_bwcostmin :: ul
  ms_bwcosts :: "ul list"

definition print_bwcost :: "merge_par \<Rightarrow> merge_state \<Rightarrow> merge_state" where
  "print_bwcost mp st =
     (if par_forbw mp \<noteq> 0 \<and> par_forbw mp \<noteq> 3 then st \<lparr> ms_bwcosts := ms_bwcosts st @ [ms_bwcost st] \<rparr> else st)"

text \<open>The block of the loop for \<open>njproc >= target\<close>.\<close>

definition merge_target ::
    "merge_par \<Rightarrow> report_t \<Rightarrow> filter_matrix \<Rightarrow> merge_state \<Rightarrow> int \<Rightarrow> (report_t \<times> filter_matrix \<times> merge_state) option" where
  "merge_target mp rep mat st m =
     (if ms_njproc st \<ge> ms_target st
      then do { ni2rem \<leftarrow> number_of_superfluous_rows mat;
                (_, rep, mat) \<leftarrow> deleteSuperfluousRows (par_qsort mp) rep mat (mat_keep mat) ni2rem m;
                (_, rep, mat) \<leftarrow> inspectRowWeight rep mat;
                Some (rep, mat, (print_bwcost mp st) \<lparr> ms_target := ms_njproc st + 10000 \<rparr>) }
      else Some (rep, mat, st))"

definition merge_bwcostmin :: "merge_par \<Rightarrow> merge_state \<Rightarrow> merge_state" where
  "merge_bwcostmin mp st =
     (if ms_bwcostmin st = 0 \<or> ms_bwcost st < ms_bwcostmin st
      then print_bwcost mp (st \<lparr> ms_bwcostmin := ms_bwcost st \<rparr>) else st)"

text \<open>The test of the cost; the flag tells that the loop goes on.\<close>

definition merge_ratio ::
    "merge_par \<Rightarrow> report_t \<Rightarrow> filter_matrix \<Rightarrow> merge_state \<Rightarrow> (bool \<times> report_t \<times> filter_matrix) option" where
  "merge_ratio mp rep mat st =
     (if par_forbw mp = 0 \<or> par_forbw mp = 2
      then if par_high mp (ms_bwcost st) (ms_bwcostmin st)
           then if mat_rem_nrows mat - mat_rem_ncols mat > mat_keep mat
                then do { (_, rep, mat) \<leftarrow> deleteSuperfluousRows (par_qsort mp) rep mat (mat_keep mat)
                            (mat_rem_nrows mat - mat_rem_ncols mat + mat_keep mat) (- 1);
                          Some (True, rep, mat) }
                else Some (False, rep, mat)
           else Some (True, rep, mat)
      else if par_forbw mp = 3 \<and> ms_bwcost st > word_of_int (par_coverNmax mp) then Some (False, rep, mat)
      else Some (True, rep, mat))"

text \<open>The count of the turns in a row in which the cost grew; at 20 superfluous rows are removed.\<close>

definition merge_ncost ::
    "merge_par \<Rightarrow> report_t \<Rightarrow> filter_matrix \<Rightarrow> merge_state \<Rightarrow> int \<Rightarrow> (bool \<times> report_t \<times> filter_matrix \<times> merge_state) option" where
  "merge_ncost mp rep mat st m =
     (if par_forbw mp \<noteq> 0 \<and> ms_oldbwcost st \<noteq> 0 \<and> ms_bwcost st > ms_oldbwcost st
      then let st = st \<lparr> ms_ncost := ms_ncost st + 1 \<rparr> in
        if ms_ncost st \<ge> 20
        then do { (nirem, rep, mat) \<leftarrow> deleteSuperfluousRows (par_qsort mp) rep mat (mat_keep mat) 128 m;
                  if nirem = 0 then Some (False, rep, mat, st)
                  else Some (True, rep, mat, st \<lparr> ms_njproc := ms_njproc st + nirem \<rparr>) }
        else Some (True, rep, mat, st)
      else Some (True, rep, mat, st \<lparr> ms_ncost := 0 \<rparr>))"

text \<open>
  One turn of the loop of \<open>mergeOneByOne\<close>, first from the call of \<open>doOneMerge\<close> on; the flag tells that the loop goes on.
\<close>

definition mergeOneByOne_body ::
    "merge_par \<Rightarrow> report_t \<Rightarrow> filter_matrix \<Rightarrow> merge_state \<Rightarrow> int \<Rightarrow> (bool \<times> report_t \<times> filter_matrix \<times> merge_state) option" where
  "mergeOneByOne_body mp rep mat st m =
     do { let old_nrows = mat_rem_nrows mat;
          let old_ncols = mat_rem_ncols mat;
          (njrem, rep, mat) \<leftarrow> doOneMerge (par_arr mp) rep mat (ms_njrem st) (nat m) 0 True;
          let st = st \<lparr> ms_njrem := njrem, ms_njproc := ms_njproc st + (old_ncols - mat_rem_ncols mat) \<rparr>;
          (_, mat) \<leftarrow> deleteEmptyColumns mat;
          if old_nrows = mat_rem_nrows mat \<and> old_ncols = mat_rem_ncols mat \<and> (m > par_maxlevel mp \<or> m \<le> 0) then Some (False, rep, mat, st)
          else do {
            cost \<leftarrow> my_cost (par_cost2 mp) (word_of_int (mat_rem_nrows mat)) (word_of_int (mat_weight mat)) (par_forbw mp);
            (rep, mat, st) \<leftarrow> merge_target mp rep mat (st \<lparr> ms_bwcost := cost \<rparr>) m;
            let st = merge_bwcostmin mp st;
            (go, rep, mat) \<leftarrow> merge_ratio mp rep mat st;
            if go then merge_ncost mp rep mat st m else Some (False, rep, mat, st) } }"

definition mergeOneByOne_turn ::
    "merge_par \<Rightarrow> report_t \<Rightarrow> filter_matrix \<Rightarrow> merge_state \<Rightarrow> (bool \<times> report_t \<times> filter_matrix \<times> merge_state) option" where
  "mergeOneByOne_turn mp rep mat st =
     (if par_itermax mp \<noteq> 0 \<and> ms_njproc st \<ge> par_itermax mp then Some (False, rep, mat, st)
      else do {
        m \<leftarrow> minColWeight mat;
        let st = st \<lparr> ms_oldbwcost := ms_bwcost st, ms_mmax := max m (ms_mmax st) \<rparr>;
        if ms_mmax st > par_maxlevel mp then Some (False, rep, mat, st)
        else if m = - 1 then Some (False, rep, mat, st)
        else mergeOneByOne_body mp rep mat st m })"

partial_function (option) mergeOneByOne_loop ::
    "merge_par \<Rightarrow> report_t \<Rightarrow> filter_matrix \<Rightarrow> merge_state \<Rightarrow> (report_t \<times> filter_matrix \<times> merge_state) option" where
  "mergeOneByOne_loop mp rep mat st =
     do { (go, rep, mat, st) \<leftarrow> mergeOneByOne_turn mp rep mat st;
          if go then mergeOneByOne_loop mp rep mat st else Some (rep, mat, st) }"

text \<open>The last component of the result is the cost printed as \<open>BWCOSTMIN\<close>, if any.\<close>

definition mergeOneByOne :: "merge_par \<Rightarrow> report_t \<Rightarrow> filter_matrix \<Rightarrow> (report_t \<times> filter_matrix \<times> merge_state \<times> ul option) option" where
  "mergeOneByOne mp rep mat =
     do { (rep, mat, st) \<leftarrow> mergeOneByOne_loop mp rep mat
            \<lparr> ms_njproc = 0, ms_njrem = 0, ms_mmax = 0, ms_target = 10000, ms_ncost = 0, ms_bwcost = 0, ms_oldbwcost = 0, ms_bwcostmin = 0, ms_bwcosts = [] \<rparr>;
          (_, rep, mat) \<leftarrow> (if par_itermax mp = 0
                            then deleteSuperfluousRows (par_qsort mp) rep mat (mat_keep mat) (mat_rem_nrows mat - mat_rem_ncols mat + mat_keep mat) (- 1)
                            else Some (0, rep, mat));
          Some (rep, mat, st, if par_forbw mp \<noteq> 0 \<and> par_forbw mp \<noteq> 3 then Some (ms_bwcostmin st) else None) }"

text \<open>
  The hypotheses on the arguments: the level of the merges is within the bound of the arrays, the arrays
  have their sizes, \<open>qsort\<close> permutes its argument, and \<open>forbw\<close> is not 3 (with \<open>forbw = 3\<close>
  \<open>my_cost\<close> divides by \<open>rem_nrows\<close>).
\<close>

definition par_ok :: "merge_par \<Rightarrow> bool" where
  "par_ok mp \<longleftrightarrow> par_maxlevel mp \<le> int MERGE_LEVEL_MAX \<and> par_forbw mp \<noteq> 3
     \<and> (\<forall>mat. merge_arrays_ok MERGE_LEVEL_MAX (par_arr mp mat)) \<and> (\<forall>xs. mset (par_qsort mp xs) = mset xs)"

lemma par_okD:
  assumes "par_ok mp"
  shows "par_maxlevel mp \<le> int MERGE_LEVEL_MAX" "par_forbw mp \<noteq> 3" "\<forall>mat. merge_arrays_ok MERGE_LEVEL_MAX (par_arr mp mat)"
    "\<forall>xs. mset (par_qsort mp xs) = mset xs"
  using assms by (simp_all add: par_ok_def)

lemma my_cost_ok: "forbw \<noteq> 3 \<Longrightarrow> \<exists>cost. my_cost cost2 N c forbw = Some cost"
  by (simp add: my_cost_def)

lemma number_of_superfluous_rows_ok: "mat_keep mat \<noteq> 0 \<Longrightarrow> \<exists>n. number_of_superfluous_rows mat = Some n"
  by (simp add: number_of_superfluous_rows_def Let_def)

definition run_ok :: "report_t \<Rightarrow> filter_matrix \<Rightarrow> bool" where
  "run_ok rep mat \<longleftrightarrow> merge_inv mat \<and> (rep_type rep = 0 \<or> rep_type rep = 2) \<and> mat_keep mat \<noteq> 0"

lemma run_okD:
  assumes "run_ok rep mat"
  shows "merge_inv mat" "rep_type rep = 0 \<or> rep_type rep = 2" "mat_keep mat \<noteq> 0" "matrix_ok mat"
  using assms merge_invD by (auto simp: run_ok_def)

lemma run_ok_step: "run_ok rep mat \<Longrightarrow> reports rep mat rep' mat' \<Longrightarrow> run_ok rep' mat'"
  using reportsD [of rep mat rep' mat'] by (auto simp: run_ok_def progress_def)

lemma deleteSuperfluousRows_run:
  assumes "run_ok rep mat" "par_ok mp"
  shows "\<exists>n rep' mat'. deleteSuperfluousRows (par_qsort mp) rep mat keep niremmax m = Some (n, rep', mat') \<and> reports rep mat rep' mat'"
  using deleteSuperfluousRows_ok [OF run_okD(1) [OF assms(1)] par_okD(4) [OF assms(2)] run_okD(2) [OF assms(1)], of keep niremmax m] by blast

lemma merge_target_ok:
  assumes run: "run_ok rep mat" and mp: "par_ok mp"
  shows "\<exists>rep' mat' st'. merge_target mp rep mat st m = Some (rep', mat', st') \<and> reports rep mat rep' mat'"
proof (cases "ms_njproc st \<ge> ms_target st")
  case True
  obtain k where k: "number_of_superfluous_rows mat = Some k" using number_of_superfluous_rows_ok [OF run_okD(3) [OF run]] by blast
  obtain n rep1 mat1 where m1: "deleteSuperfluousRows (par_qsort mp) rep mat (mat_keep mat) k m = Some (n, rep1, mat1)" "reports rep mat rep1 mat1"
    using deleteSuperfluousRows_run [OF run mp] by blast
  have run1: "run_ok rep1 mat1" using run_ok_step [OF run m1(2)] .
  obtain n' rep2 mat2 where m2: "inspectRowWeight rep1 mat1 = Some (n', rep2, mat2)" "reports rep1 mat1 rep2 mat2"
    using inspectRowWeight_ok [OF run_okD(4,2) [OF run1]] by blast
  then show ?thesis using True k m1 reports_trans [OF m1(2) m2(2)] by (simp add: merge_target_def)
next
  case False
  then show ?thesis using reports_refl [OF run_okD(4) [OF run]] by (simp add: merge_target_def)
qed

lemma merge_ratio_ok:
  assumes run: "run_ok rep mat" and mp: "par_ok mp"
  shows "\<exists>go rep' mat'. merge_ratio mp rep mat st = Some (go, rep', mat') \<and> reports rep mat rep' mat'"
proof -
  obtain n rep1 mat1 where m1: "deleteSuperfluousRows (par_qsort mp) rep mat (mat_keep mat) (mat_rem_nrows mat - mat_rem_ncols mat + mat_keep mat) (- 1) = Some (n, rep1, mat1)"
      "reports rep mat rep1 mat1"
    using deleteSuperfluousRows_run [OF run mp] by blast
  then show ?thesis using reports_refl [OF run_okD(4) [OF run]] by (auto simp: merge_ratio_def)
qed

lemma merge_ncost_ok:
  assumes run: "run_ok rep mat" and mp: "par_ok mp"
  shows "\<exists>go rep' mat' st'. merge_ncost mp rep mat st m = Some (go, rep', mat', st') \<and> reports rep mat rep' mat'"
proof -
  obtain n rep1 mat1 where "deleteSuperfluousRows (par_qsort mp) rep mat (mat_keep mat) 128 m = Some (n, rep1, mat1)" "reports rep mat rep1 mat1"
    using deleteSuperfluousRows_run [OF run mp] by blast
  then show ?thesis using reports_refl [OF run_okD(4) [OF run]] by (auto simp: merge_ncost_def Let_def)
qed

lemma waiting_merge:
  assumes "run_ok rep mat" "par_ok mp" "0 < m" "m \<le> mat_cwmax mat" "waiting mat m" "int m \<le> par_maxlevel mp"
  shows "\<exists>n rep' mat'. doOneMerge (par_arr mp) rep mat njrem m 0 True = Some (n, rep', mat') \<and> reports rep mat rep' mat' \<and> active mat' < active mat"
proof -
  have "m \<le> MERGE_LEVEL_MAX" using assms(6) par_okD(1) [OF assms(2)] by simp
  then show ?thesis using doOneMerge_ok [OF run_okD(1,2) [OF assms(1)] assms(3) _ assms(4,5) par_okD(3) [OF assms(2)], of njrem 0 True] by blast
qed

lemma mergeOneByOne_body_ok:
  assumes run: "run_ok rep mat" and mp: "par_ok mp" and m: "0 < m" "m \<le> mat_cwmax mat" "waiting mat m" "int m \<le> par_maxlevel mp"
  shows "\<exists>go rep' mat' st'. mergeOneByOne_body mp rep mat st (int m) = Some (go, rep', mat', st') \<and> reports rep mat rep' mat' \<and> (go \<longrightarrow> active mat' < active mat)"
proof -
  obtain n rep1 mat1 where m1: "doOneMerge (par_arr mp) rep mat (ms_njrem st) m 0 True = Some (n, rep1, mat1)" "reports rep mat rep1 mat1" "active mat1 < active mat"
    using waiting_merge [OF run mp m] by blast
  define st2 where "st2 = st \<lparr> ms_njrem := n, ms_njproc := ms_njproc st + (mat_rem_ncols mat - mat_rem_ncols mat1) \<rparr>"
  obtain n2 mat2 where m2: "deleteEmptyColumns mat1 = Some (n2, mat2)" "matrix_ok mat2" "progress mat1 mat2" "mat_rows mat2 = mat_rows mat1"
      "mat_rem_nrows mat2 = mat_rem_nrows mat1"
    using deleteEmptyColumns_ok [OF reportsD(1) [OF m1(2)]] by blast
  have r2: "reports rep mat rep1 mat2" using reports_trans [OF m1(2) reports_same [OF m2(2-5)]] .
  have run2: "run_ok rep1 mat2" using run_ok_step [OF run r2] .
  obtain cost where c: "my_cost (par_cost2 mp) (word_of_int (mat_rem_nrows mat2)) (word_of_int (mat_weight mat2)) (par_forbw mp) = Some cost"
    using my_cost_ok [OF par_okD(2) [OF mp]] by blast
  obtain rep3 mat3 st3 where m3: "merge_target mp rep1 mat2 (st2 \<lparr> ms_bwcost := cost \<rparr>) (int m) = Some (rep3, mat3, st3)" "reports rep1 mat2 rep3 mat3"
    using merge_target_ok [OF run2 mp] by blast
  have run3: "run_ok rep3 mat3" using run_ok_step [OF run2 m3(2)] .
  obtain go rep4 mat4 where m4: "merge_ratio mp rep3 mat3 (merge_bwcostmin mp st3) = Some (go, rep4, mat4)" "reports rep3 mat3 rep4 mat4"
    using merge_ratio_ok [OF run3 mp] by blast
  have run4: "run_ok rep4 mat4" using run_ok_step [OF run3 m4(2)] .
  obtain go' rep5 mat5 st5 where m5: "merge_ncost mp rep4 mat4 (merge_bwcostmin mp st3) (int m) = Some (go', rep5, mat5, st5)" "reports rep4 mat4 rep5 mat5"
    using merge_ncost_ok [OF run4 mp] by blast
  have r4: "reports rep1 mat1 rep4 mat4" using reports_trans [OF reports_same [OF m2(2-5)] reports_trans [OF m3(2) m4(2)]] .
  have r5: "reports rep1 mat1 rep5 mat5" using reports_trans [OF r4 m5(2)] .
  have act: "active mat5 < active mat" using active_le [OF reportsD(1) [OF m1(2)] reportsD(1,2) [OF r5]] m1(3) by simp
  have "mergeOneByOne_body mp rep mat st (int m) = (if go then Some (go', rep5, mat5, st5) else Some (False, rep4, mat4, merge_bwcostmin mp st3))"
    using m1(1) m2(1) c m3(1) m4(1) m5(1) m(1,4) by (simp add: mergeOneByOne_body_def Let_def st2_def [symmetric])
  then show ?thesis using reports_trans [OF m1(2) r4] reports_trans [OF m1(2) r5] act by (cases go) auto
qed

lemma mergeOneByOne_turn_ok:
  assumes run: "run_ok rep mat" and mp: "par_ok mp"
  shows "\<exists>go rep' mat' st'. mergeOneByOne_turn mp rep mat st = Some (go, rep', mat', st') \<and> reports rep mat rep' mat' \<and> (go \<longrightarrow> active mat' < active mat)"
proof -
  note refl = reports_refl [OF run_okD(4) [OF run]]
  obtain m where m: "minColWeight mat = Some m" "m = - 1 \<or> (\<exists>k. m = int k \<and> 0 < k \<and> k \<le> mat_cwmax mat \<and> waiting mat k)"
    using minColWeight_ok [OF run_okD(4) [OF run]] by blast
  define st1 where "st1 = st \<lparr> ms_oldbwcost := ms_bwcost st, ms_mmax := max m (ms_mmax st) \<rparr>"
  have step: "mergeOneByOne_turn mp rep mat st = (if par_itermax mp \<noteq> 0 \<and> ms_njproc st \<ge> par_itermax mp then Some (False, rep, mat, st)
      else if ms_mmax st1 > par_maxlevel mp \<or> m = - 1 then Some (False, rep, mat, st1) else mergeOneByOne_body mp rep mat st1 m)"
    using m(1) unfolding mergeOneByOne_turn_def Let_def by (simp add: st1_def)
  show ?thesis
  proof (cases "par_itermax mp \<noteq> 0 \<and> ms_njproc st \<ge> par_itermax mp \<or> ms_mmax st1 > par_maxlevel mp \<or> m = - 1")
    case True
    then show ?thesis using step refl by auto
  next
    case False
    then obtain k where k: "m = int k" "0 < k" "k \<le> mat_cwmax mat" "waiting mat k" using m(2) by blast
    moreover have "int k \<le> par_maxlevel mp" using False k(1) by (auto simp: st1_def)
    ultimately show ?thesis using step False mergeOneByOne_body_ok [OF run mp k(2-4), of st1] by auto
  qed
qed

lemma mergeOneByOne_loop_ok:
  assumes "run_ok rep mat" and mp: "par_ok mp"
  shows "\<exists>rep' mat' st'. mergeOneByOne_loop mp rep mat st = Some (rep', mat', st') \<and> reports rep mat rep' mat'"
  using assms(1)
proof (induction "active mat" arbitrary: rep mat st rule: less_induct)
  case less
  obtain go rep1 mat1 st1 where m1: "mergeOneByOne_turn mp rep mat st = Some (go, rep1, mat1, st1)" "reports rep mat rep1 mat1" "go \<longrightarrow> active mat1 < active mat"
    using mergeOneByOne_turn_ok [OF less.prems mp] by blast
  have step: "mergeOneByOne_loop mp rep mat st = (if go then mergeOneByOne_loop mp rep1 mat1 st1 else Some (rep1, mat1, st1))"
    using m1(1) by (subst mergeOneByOne_loop.simps) simp
  show ?case
  proof (cases go)
    case True
    then have "active mat1 < active mat" using m1(3) by blast
    from less.hyps [OF this run_ok_step [OF less.prems m1(2)]]
    obtain rep' mat' st' where "mergeOneByOne_loop mp rep1 mat1 st1 = Some (rep', mat', st')" "reports rep1 mat1 rep' mat'" by blast
    then show ?thesis using step True reports_trans [OF m1(2)] by simp
  next
    case False
    then show ?thesis using step m1(2) by simp
  qed
qed

section \<open>Properties\<close>

text \<open>
  The last call of \<open>deleteSuperfluousRows\<close> may remove as many rows as it takes to bring the excess down to \<open>keep\<close>.
\<close>

lemma destroy_all_scored:
  assumes ok: "matrix_ok mat" and q: "mset tmp = mset (scored_rows mat)" and mat': "mat_rows mat' = destroy_all (take d (rev tmp)) (mat_rows mat)"
    and d: "length (scored_rows mat) \<le> d"
  shows "nlive (mat_rows mat') = 0"
proof -
  have "length tmp = length (scored_rows mat)" "set tmp = set (scored_rows mat)" using q by (metis size_mset, metis set_mset_mset)
  then have "set (take d (rev tmp)) = set (scored_rows mat)" using d by simp
  moreover have "i \<in> nat ` snd ` set (scored_rows mat)" if i: "row_at (mat_rows mat) i = Some r" for i r
  proof -
    have "(int (length r), int i) \<in> set (scored_rows mat)" using scored_rows_iff [OF ok] i by blast
    then show ?thesis by force
  qed
  ultimately have "row_at (mat_rows mat') i = None" for i unfolding mat' row_at_destroy_all by (cases "row_at (mat_rows mat) i") auto
  then show ?thesis by (simp add: nlive_def)
qed

lemma deleteSuperfluousRows_excess:
  assumes run: "run_ok rep mat" and mp: "par_ok mp" and keep: "0 \<le> mat_keep mat"
  shows "\<exists>n rep' mat'. deleteSuperfluousRows (par_qsort mp) rep mat (mat_keep mat) (mat_rem_nrows mat - mat_rem_ncols mat + mat_keep mat) (- 1) = Some (n, rep', mat')
     \<and> reports rep mat rep' mat' \<and> (mat_rem_nrows mat' - mat_rem_ncols mat' \<le> mat_keep mat' \<or> nlive (mat_rows mat') = 0)"
proof -
  let ?max = "mat_rem_nrows mat - mat_rem_ncols mat + mat_keep mat" and ?q = "par_qsort mp (scored_rows mat)"
  obtain n d rep' mat' where m: "deleteSuperfluousRows (par_qsort mp) rep mat (mat_keep mat) ?max (- 1) = Some (int n, rep', mat')" "reports rep mat rep' mat'"
      "mat_rem_nrows mat' = mat_rem_nrows mat - int n" "mat_rem_ncols mat' = mat_rem_ncols mat"
      "mat_rows mat' = destroy_all (take d (rev ?q)) (mat_rows mat)"
      "?max \<le> int n \<or> mat_rem_nrows mat' - mat_rem_ncols mat' \<le> mat_keep mat \<or> length (scored_rows mat) \<le> d"
    using deleteSuperfluousRows_ok [OF run_okD(1) [OF run] par_okD(4) [OF mp] run_okD(2) [OF run], of "mat_keep mat" ?max "- 1"] by auto
  have k: "mat_keep mat' = mat_keep mat" using reportsD(2) [OF m(2)] by (simp add: progress_def)
  have q: "mset ?q = mset (scored_rows mat)" using par_okD(4) [OF mp] by blast
  have "nlive (mat_rows mat') = 0" if "length (scored_rows mat) \<le> d" using destroy_all_scored [OF run_okD(4) [OF run] q m(5) that] .
  then have "mat_rem_nrows mat' - mat_rem_ncols mat' \<le> mat_keep mat' \<or> nlive (mat_rows mat') = 0" using m(3,4,6) k keep by linarith
  then show ?thesis using m(1,2) by blast
qed

lemma mergeOneByOne_reports:
  assumes run: "run_ok rep mat" and mp: "par_ok mp"
  shows "\<exists>rep' mat' st out. mergeOneByOne mp rep mat = Some (rep', mat', st, out) \<and> reports rep mat rep' mat'
     \<and> (0 \<le> mat_keep mat \<longrightarrow> par_itermax mp = 0 \<longrightarrow> mat_rem_nrows mat' - mat_rem_ncols mat' \<le> mat_keep mat' \<or> nlive (mat_rows mat') = 0)"
proof -
  obtain rep1 mat1 st1 where m1: "mergeOneByOne_loop mp rep mat \<lparr> ms_njproc = 0, ms_njrem = 0, ms_mmax = 0, ms_target = 10000, ms_ncost = 0,
      ms_bwcost = 0, ms_oldbwcost = 0, ms_bwcostmin = 0, ms_bwcosts = [] \<rparr> = Some (rep1, mat1, st1)" "reports rep mat rep1 mat1"
    using mergeOneByOne_loop_ok [OF run mp] by blast
  have run1: "run_ok rep1 mat1" using run_ok_step [OF run m1(2)] .
  have keep: "mat_keep mat1 = mat_keep mat" using reportsD(2) [OF m1(2)] by (simp add: progress_def)
  obtain n rep2 mat2 where m2: "(if par_itermax mp = 0
        then deleteSuperfluousRows (par_qsort mp) rep1 mat1 (mat_keep mat1) (mat_rem_nrows mat1 - mat_rem_ncols mat1 + mat_keep mat1) (- 1)
        else Some (0, rep1, mat1)) = Some (n, rep2, mat2)" "reports rep1 mat1 rep2 mat2"
      "0 \<le> mat_keep mat \<longrightarrow> par_itermax mp = 0 \<longrightarrow> mat_rem_nrows mat2 - mat_rem_ncols mat2 \<le> mat_keep mat2 \<or> nlive (mat_rows mat2) = 0"
  proof (cases "par_itermax mp = 0")
    case False
    then show ?thesis using that reports_refl [OF run_okD(4) [OF run1], of rep1] by simp
  next
    case True
    show ?thesis
    proof (cases "0 \<le> mat_keep mat")
      case pos: True
      then show ?thesis using that True deleteSuperfluousRows_excess [OF run1 mp] keep by auto
    next
      case neg: False
      then show ?thesis using that True deleteSuperfluousRows_run [OF run1 mp] by (metis (full_types))
    qed
  qed
  have "mergeOneByOne mp rep mat = Some (rep2, mat2, st1, if par_forbw mp \<noteq> 0 \<and> par_forbw mp \<noteq> 3 then Some (ms_bwcostmin st1) else None)"
    using m1(1) m2(1) by (simp add: mergeOneByOne_def)
  then show ?thesis using m2(3) reports_trans [OF m1(2) m2(2)] by blast
qed

text \<open>C1: The merge phase ends and its history file describes its result.  The hypotheses are those without which it can crash: a coherent
  matrix with fewer than 2^22 columns (\<open>merge_inv\<close>), \<open>keep\<close> positive, \<open>maxlevel\<close> at most 256, \<open>forbw\<close> other than 3, and a history file that
  is open or none.  Then \<open>mergeOneByOne\<close> returns whatever the uninitialised arrays hold and whatever the floating-point tests decide.  The matrix it leaves is
  coherent; applying the lines written to the history to the initial rows succeeds and yields the rows
  that are left and possibly the useless rows that \<open>inspectRowWeight\<close> drops without a line; \<open>rem_nrows\<close>
  has dropped by the number of rows that the lines destroy.  The excess of rows over columns at the
  end is bounded only when \<open>itermax\<close> is 0: it is then at most \<open>keep\<close>, or no row is left at all.\<close>

theorem mergeOneByOne_correct:
  assumes "merge_inv mat" and "rep_type rep = 0 \<or> rep_type rep = 2" and "0 < mat_keep mat" and "par_ok mp"
  shows "\<exists>ls rows mat' st out. mergeOneByOne mp rep mat = Some (rep_add rep ls, mat', st, out) \<and> merge_inv mat'
     \<and> apply_lines (mat_rows mat) ls = Some rows \<and> sub_rows (mat_rows mat') rows
     \<and> mat_rem_nrows mat' = mat_rem_nrows mat - int (destroyed ls)
     \<and> (par_itermax mp = 0 \<longrightarrow> mat_rem_nrows mat' - mat_rem_ncols mat' \<le> mat_keep mat' \<or> nlive (mat_rows mat') = 0)"
proof -
  have run: "run_ok rep mat" using assms(1-3) by (simp add: run_ok_def)
  obtain rep' mat' st out where m: "mergeOneByOne mp rep mat = Some (rep', mat', st, out)" "reports rep mat rep' mat'"
      "par_itermax mp = 0 \<longrightarrow> mat_rem_nrows mat' - mat_rem_ncols mat' \<le> mat_keep mat' \<or> nlive (mat_rows mat') = 0"
    using mergeOneByOne_reports [OF run assms(4)] assms(3) by auto
  obtain ls rows where "rep' = rep_add rep ls" "apply_lines (mat_rows mat) ls = Some rows" "sub_rows (mat_rows mat') rows"
      "mat_rem_nrows mat' = mat_rem_nrows mat - int (destroyed ls)" using m(2) unfolding reports_def by blast
  then show ?thesis using m(1,3) reportsD(3) [OF m(2) assms(1)] by blast
qed

definition qsort_fst :: "(int \<times> int) list \<Rightarrow> (int \<times> int) list" where
  "qsort_fst xs = sort_cmp fst xs"

lemma qsort_fst_sorts: "cmp_sorts fst qsort_fst"
  using sort_cmp_sorts [of fst] by (simp add: qsort_fst_def cmp_sorts_def)

definition arrays256 :: merge_arrays where
  "arrays256 = \<lparr> arr_A = replicate 256 (replicate 256 7), arr_Q = replicate 65536 (1, 2, 3), arr_st = arrays0, arr_history = replicate 256 [] \<rparr>"

definition merge_par1 :: merge_par where
  "merge_par1 = \<lparr> par_itermax = 0, par_maxlevel = 10, par_forbw = 0, par_coverNmax = 100, par_arr = (\<lambda>_. arrays256), par_qsort = qsort_fst,
     par_cost2 = (\<lambda>N c. N), par_high = (\<lambda>c cmin. cmin < c) \<rparr>"

lemma merge_par1_ok: "par_ok merge_par1"
proof -
  have "merge_arrays_ok MERGE_LEVEL_MAX arrays256"
    using arrays0_ok by (simp add: merge_arrays_ok_def arrays256_def square_def MERGE_LEVEL_MAX_def)
  moreover have "mset (qsort_fst xs) = mset xs" for xs using cmp_sortsD(1) [OF qsort_fst_sorts] .
  ultimately show ?thesis by (simp add: par_ok_def merge_par1_def MERGE_LEVEL_MAX_def)
qed

lemma matrix1_inv: "merge_inv matrix1"
proof -
  have "card (live_rows matrix1) \<le> card {..<length (mat_rows matrix1)}" by (intro card_mono) (auto simp: live_rows_def)
  then have "card (live_rows matrix1) \<le> 2" by (simp add: matrix1_def)
  then show ?thesis using matrix1_ok by (simp add: merge_inv_def) (simp add: matrix1_def)
qed

theorem mergeOneByOne_correct_witness:
  "\<exists>ls rows mat' st out. mergeOneByOne merge_par1 report0 matrix1 = Some (rep_add report0 ls, mat', st, out) \<and> merge_inv mat'
     \<and> apply_lines (mat_rows matrix1) ls = Some rows \<and> sub_rows (mat_rows mat') rows
     \<and> mat_rem_nrows mat' = mat_rem_nrows matrix1 - int (destroyed ls)
     \<and> (mat_rem_nrows mat' - mat_rem_ncols mat' \<le> mat_keep mat' \<or> nlive (mat_rows mat') = 0)"
proof -
  have "par_itermax merge_par1 = 0" "rep_type report0 = 0" "0 < mat_keep matrix1" by (simp_all add: merge_par1_def report0_def matrix1_def)
  then show ?thesis using mergeOneByOne_correct [OF matrix1_inv _ _ merge_par1_ok, of report0] by blast
qed

text \<open>A set of rows whose sum over GF(2) is zero.\<close>

definition dependency :: "row_table \<Rightarrow> nat set \<Rightarrow> bool" where
  "dependency rows Y \<longleftrightarrow> finite Y \<and> Y \<noteq> {} \<and> Y \<subseteq> {i. row_at rows i \<noteq> None} \<and> xor_rows (row_sets rows) Y = {}"

lemma dependency_lift:
  assumes "derived rows0 T rows" "dependency rows Y"
  shows "dependency rows0 (xor_rows T Y)"
proof -
  have Y: "finite Y" "Y \<noteq> {}" "Y \<subseteq> {i. row_at rows i \<noteq> None}" "xor_rows (row_sets rows) Y = {}" using assms(2) by (simp_all add: dependency_def)
  have "finite (xor_rows T Y)" using finite_xor_rows [OF Y(1)] derivedD(1) [OF assms(1)] by blast
  then show ?thesis using derived_dependency [OF assms(1) Y] by (simp add: dependency_def)
qed

lemma sub_rows_derived: "derived rows0 T rows \<Longrightarrow> sub_rows rows' rows \<Longrightarrow> derived rows0 T rows'"
  by (rule derived_destroy) (auto simp: sub_rows_def)

text \<open>C2: A dependency found after the merge phase is a dependency of its input.  Every row of the matrix that
  \<open>mergeOneByOne\<close> leaves is the sum over GF(2) of a set of initial rows, and when the sum of a non-empty set of
  the rows that are left is zero, the initial rows that occur in it an odd number of times are a
  non-empty set of rows whose sum is zero.\<close>

theorem mergeOneByOne_dependencies:
  assumes "merge_inv mat" and "rep_type rep = 0 \<or> rep_type rep = 2" and "0 < mat_keep mat" and "par_ok mp"
    and "mergeOneByOne mp rep mat = Some (rep', mat', st, out)" and "dependency (mat_rows mat') Y"
  shows "\<exists>T. (\<forall>i. row_at (mat_rows mat') i \<noteq> None \<longrightarrow> row_sets (mat_rows mat') i = xor_rows (row_sets (mat_rows mat)) (T i))
     \<and> dependency (mat_rows mat) (xor_rows T Y)"
proof -
  have run: "run_ok rep mat" using assms(1-3) by (simp add: run_ok_def)
  obtain rep1 mat1 st1 out1 where "mergeOneByOne mp rep mat = Some (rep1, mat1, st1, out1)" "reports rep mat rep1 mat1"
    using mergeOneByOne_reports [OF run assms(4)] by blast
  then have "reports rep mat rep' mat'" using assms(5) by simp
  then obtain ls rows where l: "apply_lines (mat_rows mat) ls = Some rows" "sub_rows (mat_rows mat') rows" unfolding reports_def by blast
  have "derived (mat_rows mat) (\<lambda>i. {i}) (mat_rows mat)" using derived_refl run_okD(4) [OF run] by (simp add: matrix_ok_def)
  then obtain T where "derived (mat_rows mat) T rows" using derived_apply_lines [OF l(1)] by blast
  then have T: "derived (mat_rows mat) T (mat_rows mat')" using sub_rows_derived l(2) by blast
  then show ?thesis using dependency_lift [OF T assms(6)] derivedD(3) [OF T] by blast
qed

definition merge_par2 :: merge_par where
  "merge_par2 = merge_par1 \<lparr> par_maxlevel := 1 \<rparr>"

lemma merge_par2_ok: "par_ok merge_par2"
  using merge_par1_ok by (simp add: par_ok_def merge_par2_def MERGE_LEVEL_MAX_def)

lemma matrix1_min: "minColWeight matrix1 = Some 2"
  by (simp add: minColWeight_def matrix1_def upt_rec at_def dclistFirst_def)

lemma matrix1_stop: "\<exists>st out. mergeOneByOne merge_par2 report0 matrix1 = Some (report0, matrix1, st, out)"
proof -
  have "mergeOneByOne_turn merge_par2 report0 matrix1 st = Some (False, report0, matrix1, st \<lparr> ms_oldbwcost := ms_bwcost st, ms_mmax := max 2 (ms_mmax st) \<rparr>)" for st
    by (simp add: mergeOneByOne_turn_def matrix1_min merge_par2_def merge_par1_def Let_def less_max_iff_disj)
  then have "mergeOneByOne_loop merge_par2 report0 matrix1 st = Some (report0, matrix1, st \<lparr> ms_oldbwcost := ms_bwcost st, ms_mmax := max 2 (ms_mmax st) \<rparr>)" for st
    by (subst mergeOneByOne_loop.simps) simp
  moreover have "deleteSuperfluousRows q report0 matrix1 (mat_keep matrix1) k m = Some (0, report0, matrix1)" for q k m
    by (simp add: deleteSuperfluousRows_def matrix1_def)
  ultimately show ?thesis by (simp add: mergeOneByOne_def)
qed

lemma matrix1_dependency: "dependency (mat_rows matrix1) {0, 1}"
proof -
  have r: "row_at (mat_rows matrix1) 0 = Some [0]" "row_at (mat_rows matrix1) 1 = Some [0]" by (simp_all add: matrix1_def row_at_def)
  then have "row_sets (mat_rows matrix1) 0 = {0}" "row_sets (mat_rows matrix1) 1 = {0}" by (simp_all add: row_sets_def)
  then have "xor_rows (row_sets (mat_rows matrix1)) {0, 1} = {}" by (simp add: xor_rows_insert row_xor_def)
  then show ?thesis using r by (simp add: dependency_def)
qed

theorem mergeOneByOne_dependencies_witness:
  "\<exists>T. (\<forall>i. row_at (mat_rows matrix1) i \<noteq> None \<longrightarrow> row_sets (mat_rows matrix1) i = xor_rows (row_sets (mat_rows matrix1)) (T i))
     \<and> dependency (mat_rows matrix1) (xor_rows T {0, 1})"
proof -
  obtain st out where "mergeOneByOne merge_par2 report0 matrix1 = Some (report0, matrix1, st, out)" using matrix1_stop by blast
  moreover have "rep_type report0 = 0" "0 < mat_keep matrix1" by (simp_all add: report0_def matrix1_def)
  ultimately show ?thesis using mergeOneByOne_dependencies [OF matrix1_inv _ _ merge_par2_ok _ matrix1_dependency] by blast
qed

text \<open>The loop of \<open>deleteSuperfluousRows\<close> on a list of rows that are all present: each turn destroys one and takes the excess down by one.\<close>

definition rows_to_destroy :: "filter_matrix \<Rightarrow> int \<Rightarrow> int \<Rightarrow> nat \<Rightarrow> nat" where
  "rows_to_destroy mat keep limit n = min (nat limit) (min (nat (mat_rem_nrows mat - mat_rem_ncols mat - keep)) n)"

lemma deleteRows_loop_exact:
  assumes "matrix_ok mat" "rep_type rep = 0 \<or> rep_type rep = 2" "rows_listed mat tmp" "distinct (map snd tmp)"
    and "n = rows_to_destroy mat keep (niremmax - k) (length tmp)"
  shows "\<exists>mat'. deleteRows_loop rep mat keep niremmax tmp k = Some (k + int n, rep_add rep (map (\<lambda>(sc, i). [i]) (take n tmp)), mat')
     \<and> reports rep mat (rep_add rep (map (\<lambda>(sc, i). [i]) (take n tmp))) mat'
     \<and> mat_rows mat' = destroy_all (take n tmp) (mat_rows mat) \<and> mat_rem_nrows mat' = mat_rem_nrows mat - int n \<and> mat_rem_ncols mat' = mat_rem_ncols mat"
  using assms
proof (induction tmp arbitrary: rep mat k n)
  case Nil
  then show ?case using reports_refl by (auto simp: rows_to_destroy_def)
next
  case (Cons si tmp)
  obtain sc j where sj: "si = (sc, j)" "0 \<le> j" "row_at (mat_rows mat) (nat j) \<noteq> None" using Cons.prems(3) by (cases si) (simp add: rows_listed_def)
  define i where "i = nat j"
  have si: "si = (sc, int i)" using sj by (simp add: i_def)
  obtain r where r: "row_at (mat_rows mat) i = Some r" using sj(3) by (auto simp: i_def)
  have i: "i < mat_nrows mat" using row_at_less [OF r] matrix_ok_dims(5) [OF Cons.prems(1)] by simp
  note at = at_rows [OF Cons.prems(1) i]
  show ?case
  proof (cases "k \<ge> niremmax \<or> mat_rem_nrows mat - mat_rem_ncols mat \<le> keep")
    case True
    then have "n = 0" using Cons.prems(5) by (auto simp: rows_to_destroy_def)
    then show ?thesis using True reports_refl [OF Cons.prems(1)] by (auto simp: si)
  next
    case go: False
    obtain mat1 where m1: "removeRowDefinitely rep mat (int i) = Some (rep_add rep [[int i]], mat1)" "reports rep mat (rep_add rep [[int i]]) mat1"
        "mat_rows mat1 = (mat_rows mat)[i := None]" "mat_rem_nrows mat1 = mat_rem_nrows mat - 1" "mat_rem_ncols mat1 = mat_rem_ncols mat"
      using removeRowDefinitely_reports [OF Cons.prems(1) r Cons.prems(2)] by blast
    note d = reportsD [OF m1(2)]
    have listed: "rows_listed mat1 tmp"
    proof -
      have "row_at (mat_rows mat1) (nat x) \<noteq> None" if "(sc', x) \<in> set tmp" for sc' x
      proof -
        have x: "0 \<le> x" "row_at (mat_rows mat) (nat x) \<noteq> None" using Cons.prems(3) that by (auto simp: rows_listed_def)
        have "x \<noteq> int i" using Cons.prems(4) that by (force simp: si)
        then have "nat x \<noteq> i" using x(1) by auto
        then show ?thesis using x(2) by (auto simp: m1(3) row_at_def split: if_splits)
      qed
      then show ?thesis using Cons.prems(3) by (auto simp: rows_listed_def)
    qed
    define n' where "n' = rows_to_destroy mat1 keep (niremmax - (k + 1)) (length tmp)"
    have n: "n = Suc n'" using go Cons.prems(5) by (simp add: n'_def rows_to_destroy_def m1(4,5)) linarith
    obtain mat' where m2: "deleteRows_loop (rep_add rep [[int i]]) mat1 keep niremmax tmp (k + 1)
          = Some (k + 1 + int n', rep_add (rep_add rep [[int i]]) (map (\<lambda>(sc, i). [i]) (take n' tmp)), mat')"
        "reports (rep_add rep [[int i]]) mat1 (rep_add (rep_add rep [[int i]]) (map (\<lambda>(sc, i). [i]) (take n' tmp))) mat'"
        "mat_rows mat' = destroy_all (take n' tmp) (mat_rows mat1)" "mat_rem_nrows mat' = mat_rem_nrows mat1 - int n'" "mat_rem_ncols mat' = mat_rem_ncols mat1"
      using Cons.IH [OF d(1) _ listed _ n'_def, of "rep_add rep [[int i]]"] Cons.prems(2,4) by auto
    have e: "rep_add (rep_add rep [[int i]]) (map (\<lambda>(sc, i). [i]) (take n' tmp)) = rep_add rep (map (\<lambda>(sc, i). [i]) (take n (si # tmp)))"
      by (simp add: n si rep_add_add)
    have "deleteRows_loop rep mat keep niremmax (si # tmp) k = Some (k + int n, rep_add rep (map (\<lambda>(sc, i). [i]) (take n (si # tmp))), mat')"
      using go at r m1(1) m2(1) unfolding e by (simp add: si n)
    moreover have "mat_rows mat' = destroy_all (take n (si # tmp)) (mat_rows mat)" using m1(3) m2(3) by (simp add: si n)
    ultimately show ?thesis using m1(4,5) m2(4,5) reports_trans [OF m1(2) m2(2)] unfolding e
      by (intro exI [of _ mat'] conjI) (simp_all add: n)
  qed
qed

lemma scored_rows_distinct: "distinct (map snd (scored_rows mat))"
  unfolding scored_rows_map map_map by (simp add: distinct_map inj_on_def comp_def)

text \<open>C33: The rows that \<open>deleteSuperfluousRows\<close> destroys, when \<open>m\<close> is not 2 and \<open>qsort\<close> sorts by \<open>cmp\<close> on the weights.  Their number is exactly
  the least of the limit \<open>niremmax\<close>, of what takes the excess of rows over columns down to \<open>keep\<close>, and of the number of rows there are.
  They are distinct rows of the matrix, reported one by one and in decreasing order of length; no row that is left is longer than one of them;
  no other row and no count of columns changes.\<close>

theorem deleteSuperfluousRows_longest:
  assumes "merge_inv mat" and "rep_type rep = 0 \<or> rep_type rep = 2" and "m \<noteq> 2" and "cmp_sorts fst qsort"
  shows "\<exists>D mat'. deleteSuperfluousRows qsort rep mat keep niremmax m = Some (int (length D), rep_add rep (map (\<lambda>i. [int i]) D), mat') \<and> merge_inv mat'
     \<and> int (length D) = min (max 0 niremmax) (min (max 0 (mat_rem_nrows mat - mat_rem_ncols mat - keep)) (int (nlive (mat_rows mat))))
     \<and> mat_rem_nrows mat' = mat_rem_nrows mat - int (length D) \<and> mat_rem_ncols mat' = mat_rem_ncols mat
     \<and> distinct D \<and> (\<forall>i \<in> set D. row_at (mat_rows mat) i \<noteq> None)
     \<and> (\<forall>i. row_at (mat_rows mat') i = (if i \<in> set D then None else row_at (mat_rows mat) i))
     \<and> sorted_wrt (\<lambda>i k. length (the (row_at (mat_rows mat) k)) \<le> length (the (row_at (mat_rows mat) i))) D
     \<and> (\<forall>i \<in> set D. \<forall>k s. row_at (mat_rows mat') k = Some s \<longrightarrow> length s \<le> length (the (row_at (mat_rows mat) i)))"
proof -
  let ?q = "rev (qsort (scored_rows mat))"
  define n where "n = rows_to_destroy mat keep (niremmax - 0) (length ?q)"
  define D where "D = map (\<lambda>(sc, i). nat i) (take n ?q)"
  have ok: "matrix_ok mat" using assms(1) by (simp add: merge_inv_def)
  note q = cmp_sortsD [OF assms(4)]
  have qs: "set ?q = set (scored_rows mat)" using q(1) by (metis set_mset_mset set_rev)
  have live: "length ?q = nlive (mat_rows mat)"
  proof -
    have "length ?q = card (live_rows mat)" using q(1) [of "scored_rows mat"] length_scored_rows [OF ok] by (metis length_rev size_mset)
    moreover have "live_rows mat = {i. row_at (mat_rows mat) i \<noteq> None}" by (auto simp: live_rows_def row_at_def)
    ultimately show ?thesis by (simp add: nlive_def)
  qed
  have listed: "rows_listed mat ?q" using scored_rows_iff [OF ok] qs unfolding rows_listed_def by fastforce
  have nn: "0 \<le> i" if "(sc, i) \<in> set (take n ?q)" for sc i using listed in_set_takeD [OF that] by (auto simp: rows_listed_def)
  have dist: "distinct (map snd ?q)"
  proof -
    have "mset (map snd (qsort (scored_rows mat))) = mset (map snd (scored_rows mat))" using q(1) by (metis mset_map)
    then have "distinct (map snd (qsort (scored_rows mat)))" using scored_rows_distinct mset_eq_imp_distinct_iff by blast
    then show ?thesis by (simp add: rev_map [symmetric])
  qed
  have len: "length D = n" by (simp add: D_def n_def rows_to_destroy_def)
  have count: "int n = min (max 0 niremmax) (min (max 0 (mat_rem_nrows mat - mat_rem_ncols mat - keep)) (int (nlive (mat_rows mat))))"
    unfolding n_def rows_to_destroy_def live by simp
  have lines: "map (\<lambda>(sc, i). [i]) (take n ?q) = map (\<lambda>i. [int i]) D" using nn by (auto simp: D_def)
  obtain mat' where m: "deleteSuperfluousRows qsort rep mat keep niremmax m = Some (int n, rep_add rep (map (\<lambda>i. [int i]) D), mat')"
      "reports rep mat (rep_add rep (map (\<lambda>i. [int i]) D)) mat'" "mat_rows mat' = destroy_all (take n ?q) (mat_rows mat)"
      "mat_rem_nrows mat' = mat_rem_nrows mat - int n" "mat_rem_ncols mat' = mat_rem_ncols mat"
  proof (cases "mat_rem_nrows mat - mat_rem_ncols mat \<le> keep")
    case True
    then have n0: "n = 0" by (simp add: n_def rows_to_destroy_def)
    have "deleteSuperfluousRows qsort rep mat keep niremmax m = Some (int n, rep_add rep (map (\<lambda>i. [int i]) D), mat)"
      using True by (simp add: deleteSuperfluousRows_def n0 D_def)
    then show thesis using that reports_refl [OF ok] by (simp add: n0 D_def)
  next
    case False
    have "findSuperfluousRows qsort (nat (2 * mat_rem_nrows mat)) mat m = Some (qsort (scored_rows mat))"
      using findSuperfluousRows_ok [OF assms(1), of qsort m] q(1) assms(3) by auto
    moreover obtain mat' where "deleteRows_loop rep mat keep niremmax ?q 0 = Some (0 + int n, rep_add rep (map (\<lambda>i. [int i]) D), mat')"
        "reports rep mat (rep_add rep (map (\<lambda>i. [int i]) D)) mat'" "mat_rows mat' = destroy_all (take n ?q) (mat_rows mat)"
        "mat_rem_nrows mat' = mat_rem_nrows mat - int n" "mat_rem_ncols mat' = mat_rem_ncols mat"
      using deleteRows_loop_exact [OF ok assms(2) listed dist n_def] unfolding lines by blast
    ultimately show thesis using that False by (simp add: deleteSuperfluousRows_def)
  qed
  have setD: "set D = nat ` snd ` set (take n ?q)" by (force simp: D_def)
  have rows: "row_at (mat_rows mat') i = (if i \<in> set D then None else row_at (mat_rows mat) i)" for i
    unfolding m(3) row_at_destroy_all setD ..
  have present: "row_at (mat_rows mat) i \<noteq> None" if "i \<in> set D" for i
    using that listed in_set_takeD [of _ n ?q] by (fastforce simp: setD rows_listed_def)
  have distD: "distinct D"
  proof -
    have "distinct (map snd (take n ?q))" using dist by (metis distinct_take take_map)
    moreover have "inj_on nat (set (map snd (take n ?q)))"
    proof (rule inj_onI)
      fix x y assume xy: "x \<in> set (map snd (take n ?q))" "y \<in> set (map snd (take n ?q))" "nat x = nat y"
      have "0 \<le> x" "0 \<le> y" using nn xy(1,2) by auto
      then show "x = y" using xy(3) by simp
    qed
    ultimately have "distinct (map nat (map snd (take n ?q)))" unfolding distinct_map [of nat] by blast
    then show ?thesis by (simp add: D_def comp_def case_prod_unfold)
  qed
  have sc: "fst x = int (length (the (row_at (mat_rows mat) (nat (snd x)))))" if "x \<in> set ?q" for x
    using that scored_rows_iff [OF ok, of "fst x" "snd x"] unfolding qs by auto
  have ord: "sorted_wrt (\<lambda>i k. length (the (row_at (mat_rows mat) k)) \<le> length (the (row_at (mat_rows mat) i))) D"
  proof -
    have "sorted_wrt (\<lambda>x y. fst y \<le> fst x) ?q" using q(2) by (simp add: sorted_wrt_map sorted_wrt_rev)
    then have "sorted_wrt (\<lambda>x y. fst y \<le> fst x) (take n ?q)" by (rule sorted_wrt_take)
    then have "sorted_wrt (\<lambda>x y. length (the (row_at (mat_rows mat) (nat (snd y)))) \<le> length (the (row_at (mat_rows mat) (nat (snd x))))) (take n ?q)"
    proof (rule sorted_wrt_mono_rel [rotated])
      fix x y assume "x \<in> set (take n ?q)" "y \<in> set (take n ?q)" "fst y \<le> fst x"
      then show "length (the (row_at (mat_rows mat) (nat (snd y)))) \<le> length (the (row_at (mat_rows mat) (nat (snd x))))"
        using sc [of x] sc [of y] in_set_takeD [of x n ?q] in_set_takeD [of y n ?q] by simp
    qed
    then show ?thesis by (simp add: D_def sorted_wrt_map case_prod_unfold)
  qed
  have long: "length s \<le> length (the (row_at (mat_rows mat) i))" if i: "i \<in> set D" and k: "row_at (mat_rows mat') k = Some s" for i k s
  proof -
    obtain r where r: "row_at (mat_rows mat) i = Some r" using present [OF i] by auto
    have "row_at (mat_rows mat') i = None" using rows i by simp
    then show ?thesis using destroyed_longest [OF ok q(1) q(2) m(3) r _ k] r by simp
  qed
  show ?thesis using m(1,4,5) reportsD(3) [OF m(2) assms(1)] count rows present distD ord long
    by (intro exI [of _ D] exI [of _ mat']) (simp add: len)
qed

theorem deleteSuperfluousRows_longest_witness:
  "\<exists>D mat'. deleteSuperfluousRows qsort_fst report0 matrix1 0 1 3 = Some (int (length D), rep_add report0 (map (\<lambda>i. [int i]) D), mat') \<and> merge_inv mat'
     \<and> length D = 1 \<and> (\<forall>i. row_at (mat_rows mat') i = (if i \<in> set D then None else row_at (mat_rows matrix1) i))"
proof -
  have l: "nlive (mat_rows matrix1) = 2"
  proof -
    have "{i. row_at (mat_rows matrix1) i \<noteq> None} = {0, 1}" by (auto simp: matrix1_def row_at_def less_Suc_eq nth_Cons')
    then show ?thesis by (simp add: nlive_def)
  qed
  have e: "mat_rem_nrows matrix1 - mat_rem_ncols matrix1 = 1" by (simp add: matrix1_def)
  have "rep_type report0 = 0" by (simp add: report0_def)
  then show ?thesis using deleteSuperfluousRows_longest [OF matrix1_inv _ _ qsort_fst_sorts, of report0 3 0 1] l e by auto
qed

end
