(* ===== verification/History_file.thy ===== *)
theory History_file
  imports Merge_main
begin

text \<open>
  Numbers and lines of text, as the filtering programs write and read them: the conversions \<open>%d\<close>, \<open>%lu\<close> and
  \<open>%x\<close> of \<open>fprintf\<close>, \<open>fgets\<close>, \<open>strtok\<close>, \<open>atoi\<close> and the loops that read digits.  A file is the string of its
  characters.
\<close>

definition digit_char :: "nat \<Rightarrow> char" where
  "digit_char d = char_of (if d < 10 then 48 + d else 87 + d)"

fun print_nat :: "nat \<Rightarrow> nat \<Rightarrow> string" where
  "print_nat b n = (if n < b \<or> b < 2 then [digit_char n] else print_nat b (n div b) @ [digit_char (n mod b)])"

declare print_nat.simps [simp del]

definition print_int :: "int \<Rightarrow> string" where
  "print_int i = (if i < 0 then CHR ''-'' # print_nat 10 (nat (- i)) else print_nat 10 (nat i))"

text \<open>A newline is written \<open>CHR 0x0A\<close>.\<close>

abbreviation newline :: char where
  "newline \<equiv> CHR 0x0A"

definition digit_val :: "char \<Rightarrow> int" where
  "digit_val c = int (of_char c) - 48"

text \<open>The value of a decimal number, from an initial value, as all the loops compute it.\<close>

fun read_digits :: "int \<Rightarrow> string \<Rightarrow> int" where
  "read_digits v [] = v"
| "read_digits v (c # cs) = read_digits (10 * v + digit_val c) cs"

definition is_digit :: "char \<Rightarrow> bool" where
  "is_digit c \<longleftrightarrow> 0 \<le> digit_val c \<and> digit_val c \<le> 9"

lemma digit_char_val: "d < 10 \<Longrightarrow> digit_val (digit_char d) = int d" "d < 10 \<Longrightarrow> is_digit (digit_char d)"
  by (simp_all add: digit_val_def digit_char_def is_digit_def)

lemma read_digits_append: "read_digits v (cs @ ds) = read_digits (read_digits v cs) ds"
  by (induction cs arbitrary: v) auto

lemma print_nat_digits: "c \<in> set (print_nat 10 n) \<Longrightarrow> is_digit c"
proof (induction "10 :: nat" n rule: print_nat.induct)
  case (1 n)
  then show ?case by (subst (asm) (2) print_nat.simps) (auto simp: digit_char_val(2) split: if_splits)
qed

lemma print_nat_ne [simp]: "print_nat b n \<noteq> []"
  by (subst print_nat.simps) simp

lemma read_print_nat: "read_digits 0 (print_nat 10 n) = int n"
proof (induction "10 :: nat" n rule: print_nat.induct)
  case (1 n)
  show ?case
  proof (cases "n < 10")
    case True
    then show ?thesis by (subst print_nat.simps) (simp add: digit_char_val)
  next
    case False
    have "int n = 10 * int (n div 10) + int (n mod 10)" by presburger
    then show ?thesis using 1 False by (subst print_nat.simps) (simp add: read_digits_append digit_char_val)
  qed
qed

lemma digit_not_sep: "is_digit c \<Longrightarrow> c \<noteq> CHR '' ''" "is_digit c \<Longrightarrow> c \<noteq> newline" "is_digit c \<Longrightarrow> c \<noteq> CHR ''-''" "is_digit c \<Longrightarrow> c \<noteq> CHR ''B''"
  by (auto simp: is_digit_def digit_val_def)

text \<open>\<open>fprintf\<close> of a line of numbers separated by blanks, as \<open>reportn\<close> writes it.\<close>

fun print_line :: "int list \<Rightarrow> string" where
  "print_line [] = [newline]"
| "print_line [i] = print_int i @ [newline]"
| "print_line (i # is) = print_int i @ CHR '' '' # print_line is"

text \<open>
  \<open>fgets (str, size, f)\<close>: the characters up to the next newline, at most \<open>size - 1\<close> of them, and the rest of the file;
  \<^const>\<open>None\<close> at the end of the file.
\<close>

fun take_line :: "nat \<Rightarrow> string \<Rightarrow> string \<times> string" where
  "take_line 0 s = ([], s)"
| "take_line (Suc n) [] = ([], [])"
| "take_line (Suc n) (c # s) = (if c = newline then ([c], s) else let (l, r) = take_line n s in (c # l, r))"

definition fgets :: "nat \<Rightarrow> string \<Rightarrow> (string \<times> string) option" where
  "fgets n s = (if s = [] then None else Some (take_line (n - 1) s))"

lemma take_line_line: "newline \<notin> set l \<Longrightarrow> length l < n \<Longrightarrow> take_line n (l @ newline # s) = (l @ [newline], s)"
proof (induction l arbitrary: n)
  case Nil
  then show ?case by (cases n) auto
next
  case (Cons c l)
  then show ?case by (cases n) auto
qed

lemma take_line_long: "newline \<notin> set (take n s) \<Longrightarrow> take_line n s = (take n s, drop n s)"
proof (induction s arbitrary: n)
  case Nil
  then show ?case by (cases n) auto
next
  case (Cons c s)
  then show ?case by (cases n) auto
qed

lemma take_line_length: "length (snd (take_line n s)) \<le> length s" "0 < n \<Longrightarrow> s \<noteq> [] \<Longrightarrow> length (snd (take_line n s)) < length s"
proof -
  show le: "length (snd (take_line n s)) \<le> length s" for n s by (induction n s rule: take_line.induct) (auto split: prod.splits)
  show "0 < n \<Longrightarrow> s \<noteq> [] \<Longrightarrow> length (snd (take_line n s)) < length s"
    using le by (cases n; cases s) (auto split: prod.splits simp: less_Suc_eq_le dest!: arg_cong [where f = snd])
qed

lemma take_line_less: "(l, r) = take_line n s \<Longrightarrow> 0 < n \<Longrightarrow> s \<noteq> [] \<Longrightarrow> length r < length s"
  using take_line_length(2) [of n s] by (metis snd_conv)

text \<open>The first character of a printed line tells it from a \<open>BWCOST\<close> line.\<close>

lemma print_int_chars: "c \<in> set (print_int i) \<Longrightarrow> is_digit c \<or> c = CHR ''-''"
  using print_nat_digits by (auto simp: print_int_def split: if_splits)

lemma print_line_split:
  "is \<noteq> [] \<Longrightarrow> \<exists>l. print_line is = l @ [newline] \<and> newline \<notin> set l \<and> l \<noteq> [] \<and> (hd l = CHR ''-'' \<or> is_digit (hd l))"
proof (induction "is" rule: print_line.induct)
  case (2 i)
  have "print_int i \<noteq> []" by (simp add: print_int_def)
  moreover have "newline \<notin> set (print_int i)" using print_int_chars digit_not_sep by force
  ultimately show ?case using print_int_chars [of "hd (print_int i)" i] by (intro exI [of _ "print_int i"]) auto
next
  case (3 i k "is")
  obtain l where l: "print_line (k # is) = l @ [newline]" "newline \<notin> set l" using 3 by auto
  have "print_int i \<noteq> []" by (simp add: print_int_def)
  moreover have "newline \<notin> set (print_int i)" using print_int_chars digit_not_sep by force
  ultimately show ?case using l print_int_chars [of "hd (print_int i)" i] by (intro exI [of _ "print_int i @ CHR '' '' # l"]) auto
qed simp

section \<open>Reading a line of numbers\<close>

definition isspace :: "char \<Rightarrow> bool" where
  "isspace c \<longleftrightarrow> of_char c = (32 :: nat) \<or> (9 :: nat) \<le> of_char c \<and> of_char c \<le> (13 :: nat)"

definition atoi :: "string \<Rightarrow> int" where
  "atoi s =
     (case dropWhile isspace s of [] \<Rightarrow> 0
      | c # cs \<Rightarrow> if c = CHR ''-'' then - read_digits 0 (takeWhile is_digit cs)
                  else if c = CHR ''+'' then read_digits 0 (takeWhile is_digit cs)
                  else read_digits 0 (takeWhile is_digit (c # cs)))"

text \<open>The tokens that repeated calls of \<open>strtok (str, " ")\<close> return.\<close>

fun strtok :: "string \<Rightarrow> string \<Rightarrow> string list" where
  "strtok tok [] = (if tok = [] then [] else [tok])"
| "strtok tok (c # s) = (if c = CHR '' '' then (if tok = [] then strtok [] s else tok # strtok [] s) else strtok (tok @ [c]) s)"

definition indicesFromString :: "string \<Rightarrow> int list" where
  "indicesFromString str = map atoi (strtok [] str)"

lemma digit_not_isspace: "is_digit c \<Longrightarrow> \<not> isspace c" "is_digit c \<Longrightarrow> c \<noteq> CHR ''+''"
  by (auto simp: is_digit_def digit_val_def isspace_def)

lemma takeWhile_print: "\<not> is_digit c \<Longrightarrow> takeWhile is_digit (print_nat 10 n @ c # s) = print_nat 10 n" "takeWhile is_digit (print_nat 10 n) = print_nat 10 n"
  using print_nat_digits by (auto simp: takeWhile_append)

lemma atoi_print:
  assumes "s = [] \<or> \<not> is_digit (hd s)"
  shows "atoi (print_int i @ s) = i"
proof -
  have tw: "takeWhile is_digit (print_nat 10 n @ s) = print_nat 10 n" for n using assms takeWhile_print by (cases s) auto
  show ?thesis
  proof (cases "i < 0")
    case True
    then show ?thesis by (simp add: atoi_def print_int_def isspace_def tw read_print_nat)
  next
    case False
    obtain c cs where c: "print_nat 10 (nat i) = c # cs" by (cases "print_nat 10 (nat i)") auto
    then have d: "is_digit c" using print_nat_digits [of c "nat i"] by simp
    have "atoi (print_int i @ s) = read_digits 0 (takeWhile is_digit (print_nat 10 (nat i) @ s))"
      using False c d digit_not_sep [OF d] digit_not_isspace [OF d] by (simp add: atoi_def print_int_def)
    then show ?thesis using False by (simp add: tw read_print_nat)
  qed
qed

lemma strtok_word: "CHR '' '' \<notin> set w \<Longrightarrow> strtok tok (w @ s) = strtok (tok @ w) s"
  by (induction w arbitrary: tok) auto

lemma print_int_no_blank: "CHR '' '' \<notin> set (print_int i)" "print_int i \<noteq> []"
  using print_int_chars digit_not_sep(1) by (force, simp add: print_int_def)

lemma indicesFromString_print: "is \<noteq> [] \<Longrightarrow> indicesFromString (print_line is) = is"
proof (induction "is" rule: print_line.induct)
  case (2 i)
  have "strtok [] (print_int i @ [newline]) = [print_int i @ [newline]]"
    using strtok_word [of "print_int i @ [newline]" "[]" "[]"] print_int_no_blank [of i] by simp
  moreover have "\<not> is_digit newline" by (simp add: is_digit_def digit_val_def)
  ultimately show ?case by (simp add: indicesFromString_def atoi_print)
next
  case (3 i k "is")
  have "strtok [] (print_int i @ CHR '' '' # print_line (k # is)) = print_int i # strtok [] (print_line (k # is))"
    using strtok_word [of "print_int i" "[]"] print_int_no_blank [of i] by simp
  moreover have "atoi (print_int i) = i" using atoi_print [of "[]" i] by simp
  ultimately show ?case using 3 by (simp add: indicesFromString_def)
qed simp

section \<open>Resuming from a history file\<close>

definition RELATION_MAX_BYTES :: nat where
  "RELATION_MAX_BYTES = 4096"

function resume_read :: "report_t \<Rightarrow> filter_matrix \<Rightarrow> string \<Rightarrow> (report_t \<times> filter_matrix) option" where
  "resume_read rep mat file =
     (if file = [] then Some (rep, mat)
      else let (str, file') = take_line (RELATION_MAX_BYTES - 1) file in
        if last str \<noteq> newline then Some (rep, mat)
        else if take 6 str \<noteq> ''BWCOST''
        then do { (rep, mat) \<leftarrow> doAllAdds rep mat (indicesFromString str); resume_read rep mat file' }
        else resume_read rep mat file')"
  by pat_completeness auto
termination
proof (relation "measure (\<lambda>(rep, mat, file). length file)")
  show "wf (measure (\<lambda>(rep, mat, file). length file))" by simp
qed (auto simp: RELATION_MAX_BYTES_def intro: take_line_less)

declare resume_read.simps [simp del]

text \<open>The first of the loops over the columns after the file is read.\<close>

fun resume_cols :: "filter_matrix \<Rightarrow> nat list \<Rightarrow> filter_matrix option" where
  "resume_cols mat [] = Some mat"
| "resume_cols mat (j # js) =
     do { w \<leftarrow> at (mat_wt mat) (int j);
          p \<leftarrow> at (mat_A mat) (int j);
          mat \<leftarrow> (if w = 0 \<and> p \<noteq> None then removeColumnAndUpdate mat (int j) else Some mat);
          resume_cols mat js }"

definition resume :: "report_t \<Rightarrow> filter_matrix \<Rightarrow> string \<Rightarrow> (report_t \<times> filter_matrix) option" where
  "resume rep mat file =
     do { (_, file) \<leftarrow> fgets RELATION_MAX_BYTES file;
          (rep, mat) \<leftarrow> resume_read rep mat file;
          mat \<leftarrow> resume_cols mat [0..<mat_ncols mat];
          let nactivej = int (length (filter (\<lambda>w. w \<noteq> 0) (mat_wt mat)));
          Some (rep, mat \<lparr> mat_rem_ncols := nactivej \<rparr>) }"

section \<open>The history file\<close>

text \<open>The file that \<open>merge\<close> writes: a line with the dimensions, then lines of numbers and costs.\<close>

datatype history_item = Adds "int list" | Bwcost ul | Bwcostmin ul

fun item_text :: "history_item \<Rightarrow> string" where
  "item_text (Adds l) = print_line l"
| "item_text (Bwcost c) = ''BWCOST: '' @ print_nat 10 (unat c) @ [newline]"
| "item_text (Bwcostmin c) = ''BWCOSTMIN: '' @ print_nat 10 (unat c) @ [newline]"

definition history_text :: "nat \<Rightarrow> nat \<Rightarrow> history_item list \<Rightarrow> string" where
  "history_text nrows ncols items = print_line [int nrows, int ncols] @ concat (map item_text items)"

fun adds_of :: "history_item list \<Rightarrow> int list list" where
  "adds_of [] = []"
| "adds_of (Adds l # items) = l # adds_of items"
| "adds_of (_ # items) = adds_of items"

text \<open>The lines are not empty and fit in a buffer of \<open>n\<close> characters.\<close>

definition items_fit :: "nat \<Rightarrow> history_item list \<Rightarrow> bool" where
  "items_fit n items \<longleftrightarrow> (\<forall>it \<in> set items. length (item_text it) < n) \<and> [] \<notin> set (adds_of items)"

lemma items_fit_simps [simp]:
  "items_fit n []" "items_fit n (Adds l # items) \<longleftrightarrow> l \<noteq> [] \<and> length (print_line l) < n \<and> items_fit n items"
  "items_fit n (Bwcost c # items) \<longleftrightarrow> length (item_text (Bwcost c)) < n \<and> items_fit n items"
  "items_fit n (Bwcostmin c # items) \<longleftrightarrow> length (item_text (Bwcostmin c)) < n \<and> items_fit n items"
  by (auto simp: items_fit_def)

lemma take_line_text:
  assumes "t = l @ [newline]" "newline \<notin> set l" "length t < n"
  shows "take_line (n - 1) (t @ s) = (t, s)"
  using take_line_line [of l "n - 1" s] assms by simp

lemma cost_no_newline: "newline \<notin> set (print_nat 10 k)"
  using print_nat_digits digit_not_sep(2) by blast

lemma take_line_cost:
  "length (item_text (Bwcost c)) < n \<Longrightarrow> take_line (n - 1) (item_text (Bwcost c) @ s) = (item_text (Bwcost c), s)"
  "length (item_text (Bwcostmin c)) < n \<Longrightarrow> take_line (n - 1) (item_text (Bwcostmin c) @ s) = (item_text (Bwcostmin c), s)"
  by (rule take_line_text [where l = "''BWCOST: '' @ print_nat 10 (unat c)"], simp, simp add: cost_no_newline, simp)
    (rule take_line_text [where l = "''BWCOSTMIN: '' @ print_nat 10 (unat c)"], simp, simp add: cost_no_newline, simp)

lemma take_line_adds:
  assumes "l \<noteq> []" "length (print_line l) < n"
  shows "take_line (n - 1) (print_line l @ s) = (print_line l, s)" "last (print_line l) = newline" "take 6 (print_line l) \<noteq> ''BWCOST''"
    "print_line l \<noteq> []"
proof -
  obtain t where t: "print_line l = t @ [newline]" "newline \<notin> set t" "t \<noteq> []" "hd t = CHR ''-'' \<or> is_digit (hd t)"
    using print_line_split [OF assms(1)] by blast
  show "take_line (n - 1) (print_line l @ s) = (print_line l, s)" using take_line_text [OF t(1,2) assms(2)] .
  show "last (print_line l) = newline" "print_line l \<noteq> []" using t(1) by simp_all
  have "hd t \<noteq> CHR ''B''" using t(4) digit_not_sep(4) by auto
  then show "take 6 (print_line l) \<noteq> ''BWCOST''" using t(1,3) by (cases t) auto
qed

section \<open>Resuming\<close>

lemma resume_read_items:
  "items_fit RELATION_MAX_BYTES items \<Longrightarrow> resume_read rep mat (concat (map item_text items)) = resume_lines rep mat (adds_of items)"
proof (induction items arbitrary: rep mat)
  case Nil
  then show ?case by (simp add: resume_read.simps)
next
  case (Cons it items)
  show ?case
  proof (cases it)
    case (Adds l)
    have l: "l \<noteq> []" "length (print_line l) < RELATION_MAX_BYTES" and IH: "items_fit RELATION_MAX_BYTES items" using Cons.prems Adds by simp_all
    note t = take_line_adds [OF l]
    have "resume_read rep mat (concat (map item_text (it # items)))
        = do { (rep, mat) \<leftarrow> doAllAdds rep mat (indicesFromString (print_line l)); resume_read rep mat (concat (map item_text items)) }"
      using t by (subst resume_read.simps) (simp add: Adds)
    then show ?thesis using Cons.IH [OF IH] by (simp add: Adds indicesFromString_print [OF l(1)])
  next
    case (Bwcost c)
    then have l: "length (item_text (Bwcost c)) < RELATION_MAX_BYTES" and IH: "items_fit RELATION_MAX_BYTES items" using Cons.prems by simp_all
    have "resume_read rep mat (concat (map item_text (it # items))) = resume_read rep mat (concat (map item_text items))"
      using take_line_cost(1) [OF l, of "concat (map item_text items)"] by (subst resume_read.simps) (simp add: Bwcost)
    then show ?thesis using Cons.IH [OF IH] by (simp add: Bwcost)
  next
    case (Bwcostmin c)
    then have l: "length (item_text (Bwcostmin c)) < RELATION_MAX_BYTES" and IH: "items_fit RELATION_MAX_BYTES items" using Cons.prems by simp_all
    have "resume_read rep mat (concat (map item_text (it # items))) = resume_read rep mat (concat (map item_text items))"
      using take_line_cost(2) [OF l, of "concat (map item_text items)"] by (subst resume_read.simps) (simp add: Bwcostmin)
    then show ?thesis using Cons.IH [OF IH] by (simp add: Bwcostmin)
  qed
qed

lemma retire_empty:
  assumes ok: "matrix_ok mat" and j: "j < mat_ncols mat" "mat_A mat ! j = Some p" "mat_wt mat ! j = 0"
  shows "\<exists>mat'. removeColumnAndUpdate mat (int j) = Some mat' \<and> matrix_ok mat' \<and> mat_rows mat' = mat_rows mat \<and> progress mat mat'
     \<and> mat_wt mat' = mat_wt mat \<and> mat_A mat' = (mat_A mat)[j := None]"
proof -
  let ?M = "row_sets (mat_rows mat)"
  have mok: "mat_ok ?M mat" using ok by (simp add: matrix_ok_def)
  note d = matrix_ok_dims [OF ok]
  obtain L where L: "stacks (mat_S mat) (mat_A mat) (mat_store mat) (level mat) L" using mok by (auto simp: mat_ok_def)
  obtain s L' where s: "removeColumnAndUpdate mat (int j)
      = Some (mat \<lparr> mat_wt := (mat_wt mat)[j := 0], mat_R := (mat_R mat)[j := None], mat_A := (mat_A mat)[j := None], mat_store := s \<rparr>)"
      "stacks (mat_S mat) ((mat_A mat)[j := None]) s (level mat) L'"
    using removeColumn_val [OF L _ j(2)] j(1) d(3) by auto
  let ?m = "mat \<lparr> mat_wt := (mat_wt mat)[j := 0], mat_R := (mat_R mat)[j := None], mat_A := (mat_A mat)[j := None], mat_store := s \<rparr>"
  have "rows_with ?M j = {}" using mat_ok_col [OF mok j(1)] j(2,3) by (auto simp: col_ok_def)
  then have "mat_ok ?M ?m" using retire_col [OF mok j(1) _ _ _ s(2) refl, of ?M] by blast
  then have "matrix_ok ?m" using ok by (simp add: matrix_ok_def)
  moreover have "(mat_wt mat)[j := 0] = mat_wt mat" using j(3) by (metis list_update_id)
  moreover have "progress mat ?m"
  proof -
    have "(mat_A mat)[j := None] ! k = None" if "mat_A mat ! k = None" for k using that by (metis nth_list_update_neq nth_list_update_eq list_update_beyond not_le)
    then show ?thesis by (simp add: progress_def live_rows_def)
  qed
  ultimately show ?thesis using s(1) by (intro exI [of _ ?m]) simp
qed

lemma resume_cols_ok:
  assumes "matrix_ok mat" "\<forall>j \<in> set js. j < mat_ncols mat" "\<forall>j < mat_ncols mat. j \<notin> set js \<longrightarrow> mat_wt mat ! j = 0 \<longrightarrow> mat_A mat ! j = None"
  shows "\<exists>mat'. resume_cols mat js = Some mat' \<and> matrix_ok mat' \<and> mat_rows mat' = mat_rows mat \<and> progress mat mat'
     \<and> mat_wt mat' = mat_wt mat \<and> (\<forall>j < mat_ncols mat. mat_wt mat ! j = 0 \<longrightarrow> mat_A mat' ! j = None)"
  using assms
proof (induction js arbitrary: mat)
  case Nil
  then show ?case by (intro exI [of _ mat]) simp
next
  case (Cons j js)
  have j: "j < mat_ncols mat" and js: "\<forall>j \<in> set js. j < mat_ncols mat" using Cons.prems(2) by simp_all
  have at: "at (mat_wt mat) (int j) = Some (mat_wt mat ! j)" "at (mat_A mat) (int j) = Some (mat_A mat ! j)"
    using j matrix_ok_dims(1,3) [OF Cons.prems(1)] by simp_all
  show ?case
  proof (cases "mat_wt mat ! j = 0 \<and> mat_A mat ! j \<noteq> None")
    case True
    then obtain p where p: "mat_A mat ! j = Some p" "mat_wt mat ! j = 0" by blast
    obtain mat1 where m1: "removeColumnAndUpdate mat (int j) = Some mat1" "matrix_ok mat1" "mat_rows mat1 = mat_rows mat" "progress mat mat1"
        "mat_wt mat1 = mat_wt mat" "mat_A mat1 = (mat_A mat)[j := None]"
      using retire_empty [OF Cons.prems(1) j p] by blast
    have n: "mat_ncols mat1 = mat_ncols mat" using m1(4) by (simp add: progress_def)
    have "mat_A mat1 ! k = None" if "k < mat_ncols mat" "k \<notin> set js" "mat_wt mat ! k = 0" for k
      using Cons.prems(3) that j matrix_ok_dims(3) [OF Cons.prems(1)] m1(6) by (cases "k = j") simp_all
    then obtain mat' where "resume_cols mat1 js = Some mat'" "matrix_ok mat'" "mat_rows mat' = mat_rows mat1" "progress mat1 mat'" "mat_wt mat' = mat_wt mat1"
        "\<forall>j < mat_ncols mat1. mat_wt mat1 ! j = 0 \<longrightarrow> mat_A mat' ! j = None"
      using Cons.IH [OF m1(2)] js unfolding n m1(5) by blast
    then show ?thesis using True at m1 n progress_trans [OF m1(4)] by (intro exI [of _ mat']) simp
  next
    case False
    then have "\<forall>k < mat_ncols mat. k \<notin> set js \<longrightarrow> mat_wt mat ! k = 0 \<longrightarrow> mat_A mat ! k = None" using Cons.prems(3) by auto
    then show ?thesis using Cons.IH [OF Cons.prems(1) js] False at by auto
  qed
qed

lemma resume_ok:
  assumes ok: "matrix_ok mat" and l: "apply_lines (mat_rows mat) (adds_of items) = Some rows" and rep: "rep_type rep = 0 \<or> rep_type rep = 2"
    and fit: "items_fit RELATION_MAX_BYTES items" "length (print_line [int nrows, int ncols]) < RELATION_MAX_BYTES"
  shows "\<exists>mat'. resume rep mat (history_text nrows ncols items) = Some (rep_add rep (adds_of items), mat') \<and> matrix_ok mat' \<and> mat_rows mat' = rows
     \<and> (\<forall>j < mat_ncols mat'. mat_wt mat' ! j = 0 \<longrightarrow> mat_A mat' ! j = None) \<and> mat_rem_ncols mat' = int (length (filter (\<lambda>w. w \<noteq> 0) (mat_wt mat')))"
proof -
  obtain m1 where m1: "resume_lines rep mat (adds_of items) = Some (rep_add rep (adds_of items), m1)" "matrix_ok m1" "mat_rows m1 = rows"
    using resume_refines [OF ok l rep] by blast
  have "\<forall>j \<in> set [0..<mat_ncols m1]. j < mat_ncols m1" by simp
  moreover have "\<forall>j < mat_ncols m1. j \<notin> set [0..<mat_ncols m1] \<longrightarrow> mat_wt m1 ! j = 0 \<longrightarrow> mat_A m1 ! j = None" by simp
  ultimately obtain m2 where m2: "resume_cols m1 [0..<mat_ncols m1] = Some m2" "matrix_ok m2" "mat_rows m2 = mat_rows m1" "progress m1 m2" "mat_wt m2 = mat_wt m1"
      "\<forall>j < mat_ncols m1. mat_wt m1 ! j = 0 \<longrightarrow> mat_A m2 ! j = None"
    using resume_cols_ok [OF m1(2)] by blast
  have n: "mat_ncols m2 = mat_ncols m1" using m2(4) by (simp add: progress_def)
  note h = take_line_adds [of "[int nrows, int ncols]" RELATION_MAX_BYTES, OF _ fit(2)]
  have "fgets RELATION_MAX_BYTES (history_text nrows ncols items) = Some (print_line [int nrows, int ncols], concat (map item_text items))"
    using h(1) h(4) by (simp add: fgets_def history_text_def del: print_line.simps)
  then have "resume rep mat (history_text nrows ncols items)
      = Some (rep_add rep (adds_of items), m2 \<lparr> mat_rem_ncols := int (length (filter (\<lambda>w. w \<noteq> 0) (mat_wt m2))) \<rparr>)"
    using m1(1) m2(1) by (simp add: resume_def resume_read_items [OF fit(1)])
  then show ?thesis using m1(3) m2 n by simp
qed

end
