(* ===== verification/Replay.thy ===== *)
theory Replay
  imports History_file
begin

text \<open>
  Model of \<open>src/filter/replay.c\<close>, which rebuilds the small matrix from the purged file and the history that \<open>merge\<close>
  wrote.  \<open>newrows[i]\<close> is the list of the purged rows whose sum is the new row, \<open>None\<close> for \<open>NULL\<close>; \<open>sparsemat\<close> has the
  rows of the small matrix.  A purged file is the list of its rows of columns.  With \<open>nslices = 0\<close> (the
  default) the matrix is written to one file.
\<close>

section \<open>Reading the history\<close>

fun first_number :: "int \<Rightarrow> string \<Rightarrow> (int \<times> string) option" where
  "first_number i [] = None"
| "first_number i (c # t) = (if c \<noteq> CHR '' '' \<and> c \<noteq> newline then first_number (10 * i + digit_val c) t else Some (i, c # t))"

fun adds_loop :: "row_table \<Rightarrow> int \<Rightarrow> int \<Rightarrow> string \<Rightarrow> row_table option" where
  "adds_loop newrows i ii [] = None"
| "adds_loop newrows i ii (c # t) =
     (if c = newline \<or> c = CHR '' ''
      then do { newrows \<leftarrow> (if 0 \<le> ii \<and> 0 \<le> i then addRows newrows (nat ii) (nat i) (- 1) else None);
                if c = newline then Some newrows else adds_loop newrows i 0 t }
      else adds_loop newrows i (10 * ii + digit_val c) t)"

text \<open>\<open>doAllAdds\<close> of \<open>replay.c\<close>, not to be confused with that of \<open>merge_mono.c\<close>.\<close>

definition replay_doAllAdds :: "row_table \<Rightarrow> string \<Rightarrow> row_table option" where
  "replay_doAllAdds newrows str =
     (let destroy = \<not> (str \<noteq> [] \<and> hd str = CHR ''-'') in
      do { (i, t) \<leftarrow> first_number 0 (if destroy then str else tl str);
           let i = (if destroy then i else i - 1);
           newrows \<leftarrow> (if hd t \<noteq> newline then adds_loop newrows i 0 (tl t) else Some newrows);
           if destroy then (if 0 \<le> i \<and> nat i < length newrows then Some (newrows[nat i := None]) else None)
           else Some newrows })"

definition init_newrows :: "nat \<Rightarrow> row_table" where
  "init_newrows nrows = map (\<lambda>i. Some [int i]) [0..<nrows]"

definition STRLENMAX :: nat where
  "STRLENMAX = 2048"

text \<open>\<open>sscanf (str, "%lu", &v)\<close>: \<^const>\<open>None\<close> when there is no number and \<open>v\<close> is left alone.\<close>

definition scan_ul :: "string \<Rightarrow> ul option" where
  "scan_ul s =
     (case dropWhile isspace s of [] \<Rightarrow> None
      | c # cs \<Rightarrow>
        let ds = takeWhile is_digit (if c = CHR ''-'' \<or> c = CHR ''+'' then cs else c # cs); v = read_digits 0 ds in
        if ds = [] then None
        else Some (if v \<ge> 2 ^ 64 then - 1 else if c = CHR ''-'' then - word_of_int v else word_of_int v))"

function build_loop :: "row_table \<Rightarrow> string \<Rightarrow> ul \<Rightarrow> ul \<Rightarrow> row_table option" where
  "build_loop newrows hisfile bwcostmin bwcost =
     (if hisfile = [] then Some newrows
      else let (str, hisfile') = take_line (STRLENMAX - 1) hisfile in
        if last str \<noteq> newline then Some newrows
        else if take 6 str \<noteq> ''BWCOST''
        then do { newrows \<leftarrow> replay_doAllAdds newrows str; build_loop newrows hisfile' bwcostmin bwcost }
        else if take 9 str \<noteq> ''BWCOSTMIN''
        then let bwcost = (case scan_ul (drop 8 str) of None \<Rightarrow> bwcost | Some v \<Rightarrow> v) in
             if bwcostmin \<noteq> 0 \<and> bwcost = bwcostmin then Some newrows else build_loop newrows hisfile' bwcostmin bwcost
        else build_loop newrows hisfile' bwcostmin bwcost)"
  by pat_completeness auto
termination
proof (relation "measure (\<lambda>(newrows, hisfile, bwcostmin, bwcost). length hisfile)")
  show "wf (measure (\<lambda>(newrows, hisfile, bwcostmin, bwcost). length hisfile))" by simp
qed (auto simp: STRLENMAX_def intro: take_line_less)

declare build_loop.simps [simp del]

text \<open>\<open>bwcost\<close> is not initialised.\<close>

definition build_newrows_from_file :: "nat \<Rightarrow> string \<Rightarrow> ul \<Rightarrow> ul \<Rightarrow> row_table option" where
  "build_newrows_from_file nrows hisfile bwcostmin bwcost = build_loop (init_newrows nrows) hisfile bwcostmin bwcost"

section \<open>The lines do what they mean\<close>

lemma addRows_val: "row_at rows i1 = Some r1 \<Longrightarrow> row_at rows i2 = Some r2 \<Longrightarrow> addRows rows i1 i2 (- 1) = Some (rows[i1 := Some (merge_rows r1 r2)])"
  using merge_rows_length [of r1 r2] by (simp add: addRows_def)

lemma first_number_digits:
  "\<forall>c \<in> set ds. is_digit c \<Longrightarrow> c = CHR '' '' \<or> c = newline \<Longrightarrow> first_number v (ds @ c # t) = Some (read_digits v ds, c # t)"
  by (induction ds arbitrary: v) (auto dest: digit_not_sep)

lemma adds_loop_digits: "\<forall>c \<in> set ds. is_digit c \<Longrightarrow> adds_loop rows i v (ds @ t) = adds_loop rows i (read_digits v ds) t"
  by (induction ds arbitrary: v) (auto dest: digit_not_sep)

lemma adds_loop_line: "add_to_rows rows i0 is = Some R \<Longrightarrow> is \<noteq> [] \<Longrightarrow> adds_loop rows (int i0) 0 (print_line is) = Some R"
proof (induction rows i0 "is" rule: add_to_rows.induct)
  case (2 rows i0 i "is")
  obtain r r0 where r: "0 \<le> i" "nat i \<noteq> i0" "row_at rows (nat i) = Some r" "row_at rows i0 = Some r0"
      "add_to_rows (rows[nat i := Some (merge_rows r r0)]) i0 is = Some R"
    using 2(2) by (auto simp: bind_eq_Some_conv split: if_splits)
  have p: "print_int i = print_nat 10 (nat i)" "read_digits 0 (print_nat 10 (nat i)) = i" using r(1) by (simp_all add: print_int_def read_print_nat)
  note ds = adds_loop_digits [of "print_nat 10 (nat i)" rows "int i0" 0]
  have dg: "\<forall>c \<in> set (print_nat 10 (nat i)). is_digit c" using print_nat_digits by blast
  note add = addRows_val [OF r(3,4)]
  show ?case
  proof (cases "is")
    case Nil
    then show ?thesis using ds [OF dg, of "[newline]"] p add r(1,5) by simp
  next
    case (Cons k ks)
    then show ?thesis using ds [OF dg, of "CHR '' '' # print_line is"] p add r(1) 2(1) [OF _ r(3,4,5)] r(2) by simp
  qed
qed simp

lemma replay_line:
  assumes "apply_line rows l = Some R"
  shows "replay_doAllAdds rows (print_line l) = Some R"
proof (cases l)
  case (Cons h "is")
  let ?i0 = "nat (if h < 0 then - h - 1 else h)" and ?ds = "print_nat 10 (nat \<bar>h\<bar>)"
  obtain R1 where R1: "add_to_rows rows ?i0 is = Some R1"
      "(if h \<ge> 0 then do { _ \<leftarrow> row_at R1 ?i0; Some (R1[?i0 := None]) } else Some R1) = Some R"
    using assms Cons by (auto simp: apply_line_def Let_def bind_eq_Some_conv split: if_splits)
  obtain c t where ct: "print_line l = print_int h @ c # t" "c = newline \<and> is = [] \<or> c = CHR '' '' \<and> is \<noteq> [] \<and> t = print_line is"
    using Cons by (cases "is") auto
  have dg: "\<forall>c \<in> set ?ds. is_digit c" using print_nat_digits by blast
  have fn: "first_number 0 (?ds @ c # t) = Some (\<bar>h\<bar>, c # t)" using first_number_digits [OF dg, of c 0 t] ct(2) by (auto simp: read_print_nat)
  have i0: "int ?i0 = (if h < 0 then - h - 1 else h)" by simp
  have lp: "(if c \<noteq> newline then adds_loop rows (if h < 0 then - h - 1 else h) 0 t else Some rows) = Some R1"
    using ct(2) R1(1) adds_loop_line [of rows ?i0 "is" R1, unfolded i0] by auto
  show ?thesis
  proof (cases "h < 0")
    case True
    then have "print_line l = CHR ''-'' # ?ds @ c # t" using ct(1) by (simp add: print_int_def)
    then show ?thesis using fn lp R1(2) True by (simp add: replay_doAllAdds_def split: if_splits)
  next
    case False
    then have p: "print_line l = ?ds @ c # t" using ct(1) by (simp add: print_int_def)
    have nm: "hd (?ds @ c # t) \<noteq> CHR ''-''" "?ds @ c # t \<noteq> []" using dg digit_not_sep(3) by (cases ?ds, auto)
    obtain r where r: "row_at R1 (nat h) = Some r" "R = R1[nat h := None]" using R1(2) False by (auto simp: bind_eq_Some_conv)
    have "replay_doAllAdds rows (print_line l) = do { newrows \<leftarrow> (if c \<noteq> newline then adds_loop rows h 0 t else Some rows);
        if nat h < length newrows then Some (newrows[nat h := None]) else None }"
      using fn False unfolding p replay_doAllAdds_def by (simp only: nm Let_def) simp
    then show ?thesis using lp False r row_at_less [OF r(1)] by (cases "c = newline") simp_all
  qed
qed (use assms in \<open>simp add: apply_line_def\<close>)

lemma scan_ul_print: "scan_ul (print_nat 10 (unat c) @ [newline]) = Some c"
proof -
  obtain d ds where d: "print_nat 10 (unat c) = d # ds" by (cases "print_nat 10 (unat c)") auto
  have dd: "is_digit d" using print_nat_digits [of d "unat c"] d by simp
  have tw: "takeWhile is_digit (print_nat 10 (unat c) @ [newline]) = print_nat 10 (unat c)"
    by (rule takeWhile_print(1)) (simp add: is_digit_def digit_val_def)
  have "uint c < 2 ^ 64" using uint_lt2p [of c] by simp
  then have v: "\<not> (2 ^ 64 \<le> int (unat c))" "word_of_int (int (unat c)) = c" by simp_all
  have "scan_ul (print_nat 10 (unat c) @ [newline])
      = (let ds = takeWhile is_digit (print_nat 10 (unat c) @ [newline]); v = read_digits 0 ds in
         if ds = [] then None else Some (if v \<ge> 2 ^ 64 then - 1 else word_of_int v))"
    using digit_not_isspace [OF dd] digit_not_sep(3) [OF dd] by (simp add: scan_ul_def d Let_def)
  then show ?thesis using v by (simp add: tw read_print_nat Let_def)
qed

lemma build_loop_adds:
  assumes l: "l \<noteq> []" "length (print_line l) < STRLENMAX"
  shows "build_loop rows (print_line l @ s) bm bc = do { rows \<leftarrow> replay_doAllAdds rows (print_line l); build_loop rows s bm bc }"
  using take_line_adds [OF l] by (subst build_loop.simps) simp

lemma build_loop_cost:
  assumes "length (item_text (Bwcost c)) < STRLENMAX"
  shows "build_loop rows (item_text (Bwcost c) @ s) bm bc = (if bm \<noteq> 0 \<and> c = bm then Some rows else build_loop rows s bm c)"
  using take_line_cost(1) [OF assms, of s] scan_ul_print [of c] by (subst build_loop.simps) (simp add: Let_def)

lemma build_loop_costmin:
  assumes "length (item_text (Bwcostmin c)) < STRLENMAX"
  shows "build_loop rows (item_text (Bwcostmin c) @ s) bm bc = build_loop rows s bm bc"
  using take_line_cost(2) [OF assms, of s] by (subst build_loop.simps) (simp add: Let_def)

text \<open>The lines up to the cost at which the reading is to stop.\<close>

definition before_cost :: "ul \<Rightarrow> history_item list \<Rightarrow> history_item list" where
  "before_cost bm items = takeWhile (\<lambda>it. \<not> (bm \<noteq> 0 \<and> it = Bwcost bm)) items"

lemma build_loop_items:
  assumes "items_fit STRLENMAX items" "before_cost bm items = items" "apply_lines rows (adds_of items) = Some R"
  shows "\<exists>bc'. build_loop rows (concat (map item_text items) @ s) bm bc = build_loop R s bm bc'"
  using assms
proof (induction items arbitrary: rows bc)
  case (Cons it items)
  have bf: "before_cost bm items = items" "\<not> (bm \<noteq> 0 \<and> it = Bwcost bm)" using Cons.prems(2) by (auto simp: before_cost_def split: if_splits)
  show ?case
  proof (cases it)
    case (Adds l)
    have l: "l \<noteq> []" "length (print_line l) < STRLENMAX" and fit: "items_fit STRLENMAX items" using Cons.prems(1) Adds by simp_all
    obtain R1 where R1: "apply_line rows l = Some R1" "apply_lines R1 (adds_of items) = Some R" using Cons.prems(3) Adds by (auto simp: bind_eq_Some_conv)
    have "build_loop rows (concat (map item_text (it # items)) @ s) bm bc = build_loop R1 (concat (map item_text items) @ s) bm bc"
      using build_loop_adds [OF l, of rows "concat (map item_text items) @ s" bm bc] replay_line [OF R1(1)] by (simp add: Adds)
    then show ?thesis using Cons.IH [OF fit bf(1) R1(2), of bc] by simp
  next
    case (Bwcost c)
    have l: "length (item_text (Bwcost c)) < STRLENMAX" and fit: "items_fit STRLENMAX items" and R: "apply_lines rows (adds_of items) = Some R"
      using Cons.prems(1,3) Bwcost by simp_all
    have "build_loop rows (concat (map item_text (it # items)) @ s) bm bc = build_loop rows (concat (map item_text items) @ s) bm c"
      using build_loop_cost [OF l, of rows "concat (map item_text items) @ s" bm bc] bf(2) Bwcost by auto
    then show ?thesis using Cons.IH [OF fit bf(1) R, of c] by simp
  next
    case (Bwcostmin c)
    have l: "length (item_text (Bwcostmin c)) < STRLENMAX" and fit: "items_fit STRLENMAX items" and R: "apply_lines rows (adds_of items) = Some R"
      using Cons.prems(1,3) Bwcostmin by simp_all
    have "build_loop rows (concat (map item_text (it # items)) @ s) bm bc = build_loop rows (concat (map item_text items) @ s) bm bc"
      using build_loop_costmin [OF l, of rows "concat (map item_text items) @ s" bm bc] by (simp add: Bwcostmin)
    then show ?thesis using Cons.IH [OF fit bf(1) R, of bc] by simp
  qed
qed auto

lemma before_cost_split:
  "before_cost bm items = items \<or> (\<exists>rest. bm \<noteq> 0 \<and> items = before_cost bm items @ Bwcost bm # rest)"
  unfolding before_cost_def by (induction items) auto

lemma before_cost_idem [simp]: "before_cost bm (before_cost bm items) = before_cost bm items"
  by (simp add: before_cost_def takeWhile_idem)

lemma items_fit_append [simp]: "items_fit n (xs @ ys) \<longleftrightarrow> items_fit n xs \<and> items_fit n ys"
proof (induction xs)
  case (Cons it xs)
  then show ?case by (cases it) auto
qed simp

lemma build_newrows_ok:
  assumes fit: "items_fit STRLENMAX items" and l: "apply_lines (init_newrows nrows) (adds_of (before_cost bm items)) = Some R"
  shows "build_newrows_from_file nrows (concat (map item_text items)) bm bc = Some R"
proof -
  consider "before_cost bm items = items" | rest where "bm \<noteq> 0" "items = before_cost bm items @ Bwcost bm # rest" using before_cost_split by blast
  then show ?thesis
  proof cases
    case 1
    then have "\<exists>bc'. build_loop (init_newrows nrows) (concat (map item_text items) @ []) bm bc = build_loop R [] bm bc'"
      using build_loop_items [OF fit 1] l by metis
    then show ?thesis by (auto simp: build_newrows_from_file_def build_loop.simps [of R "[]"])
  next
    case 2
    have f: "items_fit STRLENMAX (before_cost bm items)" "items_fit STRLENMAX (Bwcost bm # rest)" using fit 2(2) items_fit_append by metis+
    let ?s = "concat (map item_text (Bwcost bm # rest))"
    obtain bc' where "build_loop (init_newrows nrows) (concat (map item_text (before_cost bm items)) @ ?s) bm bc = build_loop R ?s bm bc'"
      using build_loop_items [OF f(1) before_cost_idem l] by blast
    moreover have "build_loop R ?s bm bc' = Some R" using build_loop_cost [of bm R "concat (map item_text rest)" bm bc'] f(2) 2(1) by simp
    moreover have "concat (map item_text items) = concat (map item_text (before_cost bm items)) @ ?s" by (subst 2(2)) simp
    ultimately show ?thesis by (simp add: build_newrows_from_file_def)
  qed
qed

text \<open>A line that does not fit in the buffer ends the reading without an error.\<close>

lemma build_loop_long:
  assumes "STRLENMAX \<le> length s" "newline \<notin> set (take (STRLENMAX - 1) s)"
  shows "build_loop R s bm bc = Some R"
proof -
  let ?l = "take (STRLENMAX - 1) s"
  have "take_line (STRLENMAX - 1) s = (?l, drop (STRLENMAX - 1) s)" using take_line_long [OF assms(2)] .
  moreover have "?l \<noteq> []" "s \<noteq> []" using assms(1) by (auto simp: STRLENMAX_def)
  moreover from this have "last ?l \<noteq> newline" using assms(2) last_in_set by metis
  ultimately show ?thesis by (subst build_loop.simps) simp
qed

section \<open>The new rows are sums of old rows\<close>

text \<open>\<open>idx\<close> has for each row of \<open>rows\<close> the rows of \<open>rows0\<close> of which it is the sum.\<close>

definition tracks :: "row_table \<Rightarrow> row_table \<Rightarrow> row_table \<Rightarrow> bool" where
  "tracks rows0 idx rows \<longleftrightarrow> length idx = length rows
     \<and> (\<forall>i t. row_at idx i = Some t \<longrightarrow> row_ok t \<and> set t \<subseteq> {0..<int (length rows0)})
     \<and> (\<forall>i r. row_at rows i = Some r \<longrightarrow> row_ok r \<and> (\<exists>t. row_at idx i = Some t \<and> set r = xor_rows (row_sets rows0) (nat ` set t)))"

lemma tracksD:
  assumes "tracks rows0 idx rows"
  shows "length idx = length rows" "row_at idx i = Some t \<Longrightarrow> row_ok t \<and> set t \<subseteq> {0..<int (length rows0)}"
    "row_at rows i = Some r \<Longrightarrow> row_ok r \<and> (\<exists>t. row_at idx i = Some t \<and> set r = xor_rows (row_sets rows0) (nat ` set t))"
  using assms unfolding tracks_def by blast+

lemma row_at_init: "row_at (init_newrows n) i = (if i < n then Some [int i] else None)"
  by (simp add: row_at_def init_newrows_def)

lemma xor_rows_single: "xor_rows M {i} = M i"
  using xor_rows_insert [of "{}" i M] by (simp add: row_xor_def)

lemma tracks_init:
  assumes "\<And>i r. row_at rows i = Some r \<Longrightarrow> row_ok r"
  shows "tracks rows (init_newrows (length rows)) rows"
proof -
  have "length (init_newrows (length rows)) = length rows" by (simp add: init_newrows_def)
  moreover have "\<exists>t. row_at (init_newrows (length rows)) i = Some t \<and> set r = xor_rows (row_sets rows) (nat ` set t)" if "row_at rows i = Some r" for i r
    using that row_at_less [OF that] row_sets_Some [OF that] by (simp add: row_at_init xor_rows_single)
  ultimately show ?thesis using assms unfolding tracks_def by (auto simp: row_at_init split: if_splits)
qed

lemma nat_image_xor:
  assumes "A \<subseteq> {0..<n}" "B \<subseteq> {0..<n :: int}"
  shows "nat ` row_xor A B = row_xor (nat ` A) (nat ` B)"
proof -
  have inj: "inj_on nat (A \<union> B)"
  proof (rule inj_onI)
    fix x y assume "x \<in> A \<union> B" "y \<in> A \<union> B" "nat x = nat y"
    moreover have "0 \<le> x" "0 \<le> y" using calculation assms by auto
    ultimately show "x = y" by simp
  qed
  show ?thesis unfolding row_xor_def image_Un
    using inj_on_image_set_diff [OF inj, of A B] inj_on_image_set_diff [OF inj, of B A] by blast
qed

lemma tracks_add:
  assumes tr: "tracks rows0 idx rows" and r: "row_at rows i = Some r" "row_at rows i0 = Some r0"
  shows "\<exists>t t0. row_at idx i = Some t \<and> row_at idx i0 = Some t0
     \<and> tracks rows0 (idx[i := Some (merge_rows t t0)]) (rows[i := Some (merge_rows r r0)])"
proof -
  obtain t where t: "row_ok r" "row_at idx i = Some t" "set r = xor_rows (row_sets rows0) (nat ` set t)" using tracksD(3) [OF tr r(1)] by blast
  obtain t0 where t0: "row_ok r0" "row_at idx i0 = Some t0" "set r0 = xor_rows (row_sets rows0) (nat ` set t0)" using tracksD(3) [OF tr r(2)] by blast
  have ok: "row_ok t" "row_ok t0" "set t \<subseteq> {0..<int (length rows0)}" "set t0 \<subseteq> {0..<int (length rows0)}"
    using tracksD(2) [OF tr] t(2) t0(2) by blast+
  note m = set_merge_ok [OF t(1) t0(1)] set_merge_ok [OF ok(1,2)]
  have x: "set (merge_rows r r0) = xor_rows (row_sets rows0) (nat ` set (merge_rows t t0))"
  proof -
    have "set (merge_rows r r0) = row_xor (set r) (set r0)" using m(1) by (auto simp: row_xor_def)
    moreover have "set (merge_rows t t0) = row_xor (set t) (set t0)" using m(2) by (auto simp: row_xor_def)
    ultimately show ?thesis using nat_image_xor [OF ok(3,4)] t(3) t0(3) by (simp add: xor_rows_xor)
  qed
  have l: "i < length idx" "i < length rows" using row_at_less t(2) r(1) by blast+
  have "row_ok (merge_rows t t0) \<and> set (merge_rows t t0) \<subseteq> {0..<int (length rows0)}" using m(2) ok(3,4) by auto
  then have "tracks rows0 (idx[i := Some (merge_rows t t0)]) (rows[i := Some (merge_rows r r0)])"
    using tr m(1) x l unfolding tracks_def by (auto simp: row_at_update)
  then show ?thesis using t(2) t0(2) by blast
qed

lemma tracks_destroy: "tracks rows0 idx rows \<Longrightarrow> tracks rows0 (idx[i := None]) (rows[i := None])"
  unfolding tracks_def by (auto simp: row_at_update)

lemma tracks_add_to_rows:
  "add_to_rows rows i0 is = Some R \<Longrightarrow> tracks rows0 idx rows \<Longrightarrow> \<exists>I. add_to_rows idx i0 is = Some I \<and> tracks rows0 I R"
proof (induction rows i0 "is" arbitrary: idx rule: add_to_rows.induct)
  case (2 rows i0 i "is")
  obtain r r0 where r: "0 \<le> i" "nat i \<noteq> i0" "row_at rows (nat i) = Some r" "row_at rows i0 = Some r0"
      "add_to_rows (rows[nat i := Some (merge_rows r r0)]) i0 is = Some R"
    using 2(2) by (auto simp: bind_eq_Some_conv split: if_splits)
  obtain t t0 where "row_at idx (nat i) = Some t" "row_at idx i0 = Some t0"
      "tracks rows0 (idx[nat i := Some (merge_rows t t0)]) (rows[nat i := Some (merge_rows r r0)])" using tracks_add [OF 2(3) r(3,4)] by blast
  then show ?case using 2(1) [OF _ r(3,4,5)] r(1,2) by simp
qed auto

lemma tracks_apply_line:
  assumes "apply_line rows l = Some R" "tracks rows0 idx rows"
  shows "\<exists>I. apply_line idx l = Some I \<and> tracks rows0 I R"
proof (cases l)
  case (Cons h "is")
  let ?i0 = "nat (if h < 0 then - h - 1 else h)"
  obtain R1 where R1: "add_to_rows rows ?i0 is = Some R1" "length l \<le> MERGE_LEVEL_MAX"
      "(if h \<ge> 0 then do { _ \<leftarrow> row_at R1 ?i0; Some (R1[?i0 := None]) } else Some R1) = Some R"
    using assms(1) Cons by (auto simp: apply_line_def Let_def bind_eq_Some_conv split: if_splits)
  obtain I1 where I1: "add_to_rows idx ?i0 is = Some I1" "tracks rows0 I1 R1" using tracks_add_to_rows [OF R1(1) assms(2)] by blast
  show ?thesis
  proof (cases "h \<ge> 0")
    case True
    then obtain r where r: "row_at R1 ?i0 = Some r" "R = R1[?i0 := None]" using R1(3) by (auto simp: bind_eq_Some_conv)
    obtain t where "row_at I1 ?i0 = Some t" using tracksD(3) [OF I1(2) r(1)] by blast
    then show ?thesis using True R1(2) I1 r(2) tracks_destroy [OF I1(2)] by (auto simp: Cons apply_line_def Let_def)
  next
    case False
    then show ?thesis using R1(2,3) I1 by (auto simp: Cons apply_line_def Let_def)
  qed
qed (use assms in \<open>simp add: apply_line_def\<close>)

lemma tracks_apply_lines:
  "apply_lines rows ls = Some R \<Longrightarrow> tracks rows0 idx rows \<Longrightarrow> \<exists>I. apply_lines idx ls = Some I \<and> tracks rows0 I R"
proof (induction ls arbitrary: rows idx)
  case (Cons l ls)
  obtain R1 where R1: "apply_line rows l = Some R1" "apply_lines R1 ls = Some R" using Cons.prems(1) by (auto simp: bind_eq_Some_conv)
  obtain I1 where "apply_line idx l = Some I1" "tracks rows0 I1 R1" using tracks_apply_line [OF R1(1) Cons.prems(2)] by blast
  then show ?case using Cons.IH [OF R1(2)] by auto
qed auto

section \<open>The rows in which an old row takes part\<close>

definition live_list :: "row_table \<Rightarrow> row list" where
  "live_list rows = concat (map (\<lambda>r. case r of None \<Rightarrow> [] | Some r \<Rightarrow> [r]) rows)"






lemma live_list_simps [simp]: "live_list [] = []" "live_list (None # rows) = live_list rows" "live_list (Some r # rows) = r # live_list rows"
  by (simp_all add: live_list_def)

definition in_range :: "nat \<Rightarrow> row \<Rightarrow> bool" where
  "in_range n r \<longleftrightarrow> distinct r \<and> set r \<subseteq> {0..<int n}"

lemma in_range_simps [simp]: "in_range n []" "in_range n (j # js) \<longleftrightarrow> 0 \<le> j \<and> j < int n \<and> j \<notin> set js \<and> in_range n js"
  by (auto simp: in_range_def)


definition occ :: "int \<Rightarrow> row list \<Rightarrow> nat" where
  "occ k rs = length (filter (\<lambda>r. k \<in> set r) rs)"

lemma occ_simps [simp]: "occ k [] = 0" "occ k (r # rs) = of_bool (k \<in> set r) + occ k rs"
  by (simp_all add: occ_def)


fun places :: "int \<Rightarrow> row list \<Rightarrow> int \<Rightarrow> int list" where
  "places nb [] k = []"
| "places nb (r # rs) k = (if k \<in> set r then [nb] else []) @ places (nb + 1) rs k"

lemma length_places: "length (places nb rs k) = occ k rs"
  by (induction rs arbitrary: nb) auto






section \<open>The small matrix\<close>

















section \<open>Renumbering the columns\<close>

fun number_cols :: "int \<Rightarrow> int list \<Rightarrow> int list \<Rightarrow> int list" where
  "number_cols k colweight [] = colweight"
| "number_cols k colweight (c # cs) = number_cols (k + 1) (colweight[nat c := k]) cs"


lemma number_cols_length [simp]: "length (number_cols k w cs) = length w"
  by (induction cs arbitrary: k w) auto




section \<open>Writing the matrix\<close>
























section \<open>Properties\<close>












lemma print_nat_length: "n < 10 ^ Suc k \<Longrightarrow> length (print_nat 10 n) \<le> Suc k"
proof (induction k arbitrary: n)
  case 0
  then show ?case by (subst print_nat.simps) simp
next
  case (Suc k)
  show ?case
  proof (cases "n < 10")
    case True
    then show ?thesis by (subst print_nat.simps) simp
  next
    case False
    have "n div 10 < 10 ^ Suc k" using Suc.prems by (simp add: less_mult_imp_div_less)
    then show ?thesis using Suc.IH [of "n div 10"] False by (subst print_nat.simps) simp
  qed
qed

lemma print_nat_length_ge: "10 ^ k \<le> n \<Longrightarrow> Suc k \<le> length (print_nat 10 n)"
proof (induction k arbitrary: n)
  case 0
  then show ?case by (simp add: Suc_le_eq)
next
  case (Suc k)
  have "(10 :: nat) ^ Suc 0 \<le> 10 ^ Suc k" by (rule power_increasing) simp_all
  then have "10 \<le> n" using Suc.prems by (metis le_trans power_Suc0_right)
  moreover have "10 ^ k \<le> n div 10" using Suc.prems div_le_mono [of "10 ^ Suc k" n 10] by simp
  ultimately show ?case using Suc.IH [of "n div 10"] by (subst print_nat.simps) simp
qed

lemma print_int_length: "\<bar>i\<bar> < 10 ^ 10 \<Longrightarrow> length (print_int i) \<le> 11"
  using print_nat_length [of "nat (- i)" 9] print_nat_length [of "nat i" 9] by (auto simp: print_int_def nat_less_iff)

lemma print_line_length: "\<forall>i \<in> set is. \<bar>i\<bar> < 10 ^ 10 \<Longrightarrow> length (print_line is) \<le> 12 * length is + 1"
proof (induction "is" rule: print_line.induct)
  case (2 i)
  then show ?case using print_int_length [of i] by simp
next
  case (3 i k "is")
  then show ?case using print_int_length [of i] by simp
qed simp

lemma print_line_length_ge: "is \<noteq> [] \<Longrightarrow> \<forall>i \<in> set is. 10 ^ 7 \<le> i \<Longrightarrow> 9 * length is \<le> length (print_line is)"
proof (induction "is" rule: print_line.induct)
  case (2 i)
  then show ?case using print_nat_length_ge [of 7 "nat i"] by (simp add: print_int_def le_nat_iff)
next
  case (3 i k "is")
  then show ?case using print_nat_length_ge [of 7 "nat i"] by (simp add: print_int_def le_nat_iff)
qed simp

text \<open>The lines of the history have at most 256 numbers of 32 bits: they fit in the buffer of \<open>resume\<close>.\<close>

definition int32_items :: "history_item list \<Rightarrow> bool" where
  "int32_items items \<longleftrightarrow> (\<forall>l \<in> set (adds_of items). \<forall>i \<in> set l. - (2 ^ 31) \<le> i \<and> i < 2 ^ 31)"

lemma apply_line_size: "apply_line rows l = Some R \<Longrightarrow> l \<noteq> [] \<and> length l \<le> 256"
  by (cases l) (auto simp: apply_line_def Let_def MERGE_LEVEL_MAX_def split: if_splits)

lemma cost_length: "length (item_text (Bwcost c)) < RELATION_MAX_BYTES" "length (item_text (Bwcostmin c)) < RELATION_MAX_BYTES"
proof -
  have "unat c < 2 ^ 64" using unsigned_less [of c] by simp
  also have "(2 :: nat) ^ 64 < 10 ^ Suc 19" by simp
  finally have "length (print_nat 10 (unat c)) \<le> Suc 19" by (rule print_nat_length)
  then show "length (item_text (Bwcost c)) < RELATION_MAX_BYTES" "length (item_text (Bwcostmin c)) < RELATION_MAX_BYTES"
    by (simp_all add: RELATION_MAX_BYTES_def)
qed

lemma int32_line_fits:
  assumes "length l \<le> 256" "\<forall>i \<in> set l. - (2 ^ 31) \<le> i \<and> i < 2 ^ 31"
  shows "length (print_line l) < RELATION_MAX_BYTES"
proof -
  have "\<bar>i\<bar> < 10 ^ 10" if "i \<in> set l" for i
  proof -
    have "- (2 ^ 31) \<le> i" "i < 2 ^ 31" using assms(2) that by blast+
    then show ?thesis by simp
  qed
  then have "length (print_line l) \<le> 12 * length l + 1" using print_line_length by blast
  then show ?thesis using assms(1) by (simp add: RELATION_MAX_BYTES_def)
qed

lemma items_fit_resume:
  "apply_lines rows (adds_of items) = Some R \<Longrightarrow> int32_items items \<Longrightarrow> items_fit RELATION_MAX_BYTES items"
proof (induction items arbitrary: rows)
  case (Cons it items)
  show ?case
  proof (cases it)
    case (Adds l)
    obtain R1 where R1: "apply_line rows l = Some R1" "apply_lines R1 (adds_of items) = Some R" using Cons.prems(1) Adds by (auto simp: bind_eq_Some_conv)
    have i: "\<forall>i \<in> set l. - (2 ^ 31) \<le> i \<and> i < 2 ^ 31" "int32_items items" using Cons.prems(2) Adds by (simp_all add: int32_items_def)
    have "length (print_line l) < RELATION_MAX_BYTES" by (rule int32_line_fits [OF _ i(1)]) (use apply_line_size [OF R1(1)] in blast)
    then show ?thesis using Cons.IH [OF R1(2) i(2)] apply_line_size [OF R1(1)] by (simp add: Adds)
  next
    case (Bwcost c)
    then have "items_fit RELATION_MAX_BYTES items" using Cons by (simp add: int32_items_def)
    then show ?thesis using cost_length(1) [of c] unfolding Bwcost items_fit_simps by blast
  next
    case (Bwcostmin c)
    then have "items_fit RELATION_MAX_BYTES items" using Cons by (simp add: int32_items_def)
    then show ?thesis using cost_length(2) [of c] unfolding Bwcostmin items_fit_simps by blast
  qed
qed simp

lemma header_fits:
  assumes "nrows < 2 ^ 31" "ncols < 2 ^ 31"
  shows "length (print_line [int nrows, int ncols]) < RELATION_MAX_BYTES" "length (print_line [int nrows, int ncols]) < STRLENMAX"
proof -
  have "length (print_line [int nrows, int ncols]) \<le> 12 * length [int nrows, int ncols] + 1"
    by (rule print_line_length) (use assms in simp)
  then show "length (print_line [int nrows, int ncols]) < RELATION_MAX_BYTES" "length (print_line [int nrows, int ncols]) < STRLENMAX"
    by (simp_all add: RELATION_MAX_BYTES_def STRLENMAX_def del: print_line.simps)
qed


definition history1 :: "history_item list" where
  "history1 = [Bwcost 4, Adds [0, 1], Bwcostmin 4]"

lemma print_digits: "print_nat 10 0 = ''0''" "print_nat 10 1 = ''1''" "print_nat 10 (Suc 0) = ''1''" "print_nat 10 2 = ''2''" "print_nat 10 4 = ''4''"
  by code_simp+

lemma history1_fits: "items_fit STRLENMAX history1" "length (print_line [int 2, int 1]) < STRLENMAX"
  by (simp_all add: history1_def STRLENMAX_def print_int_def print_digits)

lemma history1_rows: "apply_lines (init_newrows 2) (adds_of (before_cost 0 history1)) = Some [None, Some [0, 1]]"
  by (simp add: history1_def before_cost_def init_newrows_def apply_line_def row_at_def MERGE_LEVEL_MAX_def upt_rec)


text \<open>C6: Interrupting and resuming.  The history file of a run of \<open>mergeOneByOne\<close>, whatever costs are printed between its lines, given as
  text to \<open>resume\<close> on the initial matrix, is read to its end: \<open>resume\<close> returns, writes the same lines again, and leaves a coherent matrix
  that has the rows of the first run and possibly rows that it had dropped as useless, with no empty column in the stacks and
  \<open>rem_ncols\<close> counted anew.\<close>

theorem merge_resume:
  assumes "merge_inv mat" and "rep_type rep = 0 \<or> rep_type rep = 2" and "0 < mat_keep mat" and "par_ok mp"
    and "mat_nrows mat < 2 ^ 31"
  shows "\<exists>ls mat' st out. mergeOneByOne mp rep mat = Some (rep_add rep ls, mat', st, out)
     \<and> (\<forall>items. adds_of items = ls \<longrightarrow> int32_items items \<longrightarrow>
          (\<exists>mat2. resume rep mat (history_text (mat_nrows mat) (mat_ncols mat) items) = Some (rep_add rep ls, mat2)
             \<and> matrix_ok mat2 \<and> sub_rows (mat_rows mat') (mat_rows mat2)
             \<and> (\<forall>j < mat_ncols mat2. mat_wt mat2 ! j = 0 \<longrightarrow> mat_A mat2 ! j = None)
             \<and> mat_rem_ncols mat2 = int (length (filter (\<lambda>w. w \<noteq> 0) (mat_wt mat2)))))"
proof -
  have run: "run_ok rep mat" using assms(1-3) by (simp add: run_ok_def)
  obtain rep' mat' st out where m: "mergeOneByOne mp rep mat = Some (rep', mat', st, out)" "reports rep mat rep' mat'"
    using mergeOneByOne_reports [OF run assms(4)] by blast
  obtain ls rows where l: "rep' = rep_add rep ls" "apply_lines (mat_rows mat) ls = Some rows" "sub_rows (mat_rows mat') rows"
    using m(2) unfolding reports_def by blast
  have nc: "mat_ncols mat < 2 ^ 31" using assms(1) by (simp add: merge_inv_def)
  have "\<exists>mat2. resume rep mat (history_text (mat_nrows mat) (mat_ncols mat) items) = Some (rep_add rep ls, mat2)
      \<and> matrix_ok mat2 \<and> sub_rows (mat_rows mat') (mat_rows mat2) \<and> (\<forall>j < mat_ncols mat2. mat_wt mat2 ! j = 0 \<longrightarrow> mat_A mat2 ! j = None)
      \<and> mat_rem_ncols mat2 = int (length (filter (\<lambda>w. w \<noteq> 0) (mat_wt mat2)))"
    if items: "adds_of items = ls" "int32_items items" for items
  proof -
    have a: "apply_lines (mat_rows mat) (adds_of items) = Some rows" using l(2) items(1) by simp
    show ?thesis
      using resume_ok [OF run_okD(4) [OF run] a assms(2) items_fit_resume [OF a items(2)] header_fits(1) [OF assms(5) nc]] l(3) items(1) by metis
  qed
  then show ?thesis using m(1) l(1) by blast
qed

theorem merge_resume_witness:
  "\<exists>ls mat' st out. mergeOneByOne merge_par1 report0 matrix1 = Some (rep_add report0 ls, mat', st, out)
     \<and> (\<forall>items. adds_of items = ls \<longrightarrow> int32_items items \<longrightarrow>
          (\<exists>mat2. resume report0 matrix1 (history_text (mat_nrows matrix1) (mat_ncols matrix1) items) = Some (rep_add report0 ls, mat2)
             \<and> matrix_ok mat2 \<and> sub_rows (mat_rows mat') (mat_rows mat2)
             \<and> (\<forall>j < mat_ncols mat2. mat_wt mat2 ! j = 0 \<longrightarrow> mat_A mat2 ! j = None)
             \<and> mat_rem_ncols mat2 = int (length (filter (\<lambda>w. w \<noteq> 0) (mat_wt mat2)))))"
  by (rule merge_resume [OF matrix1_inv _ _ merge_par1_ok]) (simp_all add: report0_def matrix1_def)

text \<open>C5: \<open>merge\<close> and \<open>replay\<close> agree.  From the history that \<open>mergeOneByOne\<close> writes, printed costs included, \<open>replay\<close> computes lists of
  row numbers such that every row \<open>i\<close> that the merge phase leaves is the sum over GF(2) of the rows of its input with numbers in list \<open>i\<close>,
  provided each line fits in the buffer of \<open>replay\<close>.\<close>

theorem merge_replay:
  assumes "merge_inv mat" and "rep_type rep = 0 \<or> rep_type rep = 2" and "0 < mat_keep mat" and "par_ok mp"
  shows "\<exists>ls mat' st out newrows. mergeOneByOne mp rep mat = Some (rep_add rep ls, mat', st, out)
     \<and> (\<forall>items junk. adds_of items = ls \<longrightarrow> items_fit STRLENMAX items \<longrightarrow>
          build_newrows_from_file (mat_nrows mat) (concat (map item_text items)) 0 junk = Some newrows)
     \<and> (\<forall>i r. row_at (mat_rows mat') i = Some r \<longrightarrow>
          (\<exists>t. row_at newrows i = Some t \<and> set r = xor_rows (row_sets (mat_rows mat)) (nat ` set t)))"
proof -
  have run: "run_ok rep mat" using assms(1-3) by (simp add: run_ok_def)
  obtain rep' mat' st out where m: "mergeOneByOne mp rep mat = Some (rep', mat', st, out)" "reports rep mat rep' mat'"
    using mergeOneByOne_reports [OF run assms(4)] by blast
  obtain ls rows where l: "rep' = rep_add rep ls" "apply_lines (mat_rows mat) ls = Some rows" "sub_rows (mat_rows mat') rows"
    using m(2) unfolding reports_def by blast
  have n: "length (mat_rows mat) = mat_nrows mat" using matrix_ok_dims(5) [OF run_okD(4) [OF run]] .
  have "row_ok r" if "row_at (mat_rows mat) i = Some r" for i r using run_okD(4) [OF run] that by (simp add: matrix_ok_def)
  then have "tracks (mat_rows mat) (init_newrows (mat_nrows mat)) (mat_rows mat)" using tracks_init [of "mat_rows mat"] n by metis
  then obtain newrows where nr: "apply_lines (init_newrows (mat_nrows mat)) ls = Some newrows" "tracks (mat_rows mat) newrows rows"
    using tracks_apply_lines [OF l(2)] by blast
  have "build_newrows_from_file (mat_nrows mat) (concat (map item_text items)) 0 junk = Some newrows"
    if "adds_of items = ls" "items_fit STRLENMAX items" for items junk
  proof -
    have "before_cost 0 items = items" by (simp add: before_cost_def takeWhile_eq_all_conv)
    then show ?thesis using build_newrows_ok [OF that(2)] nr(1) that(1) by simp
  qed
  moreover have "\<exists>t. row_at newrows i = Some t \<and> set r = xor_rows (row_sets (mat_rows mat)) (nat ` set t)" if "row_at (mat_rows mat') i = Some r" for i r
    using tracksD(3) [OF nr(2) sub_rows_at [OF l(3) that]] by blast
  ultimately show ?thesis using m(1) l(1) by blast
qed

theorem merge_replay_witness:
  "\<exists>ls mat' st out newrows. mergeOneByOne merge_par1 report0 matrix1 = Some (rep_add report0 ls, mat', st, out)
     \<and> (\<forall>items junk. adds_of items = ls \<longrightarrow> items_fit STRLENMAX items \<longrightarrow>
          build_newrows_from_file (mat_nrows matrix1) (concat (map item_text items)) 0 junk = Some newrows)
     \<and> (\<forall>i r. row_at (mat_rows mat') i = Some r \<longrightarrow>
          (\<exists>t. row_at newrows i = Some t \<and> set r = xor_rows (row_sets (mat_rows matrix1)) (nat ` set t)))"
  by (rule merge_replay [OF matrix1_inv _ _ merge_par1_ok]) (simp_all add: report0_def matrix1_def)

text \<open>C35: A history line that \<open>replay\<close> does not read and \<open>resume\<close> does.  A line of 228 to 256 numbers of at least eight digits does not fit in the
  buffer of 2048 characters of \<open>replay\<close>: \<open>build_newrows_from_file\<close> stops there, after a message on the error output that is not modelled, and
  \<open>replay\<close> goes on with the rows as they were before the line, whatever follows it.  The buffer of \<open>resume\<close> takes the same line whole.\<close>

theorem replay_truncated:
  assumes "items_fit STRLENMAX items" and "before_cost bwcostmin items = items" and "apply_lines (init_newrows nrows) (adds_of items) = Some newrows"
    and "228 \<le> length l" and "length l \<le> MERGE_LEVEL_MAX" and "\<forall>i \<in> set l. 10 ^ 7 \<le> i \<and> i < 2 ^ 31"
  shows "build_newrows_from_file nrows (concat (map item_text items) @ print_line l @ rest) bwcostmin junk = Some newrows
     \<and> fgets RELATION_MAX_BYTES (print_line l @ rest) = Some (print_line l, rest)"
proof -
  have ne: "l \<noteq> []" using assms(4) by auto
  obtain t where t: "print_line l = t @ [newline]" "newline \<notin> set t" using print_line_split [OF ne] by blast
  have "9 * length l \<le> length (print_line l)" using print_line_length_ge [OF ne] assms(6) by blast
  then have len: "STRLENMAX \<le> length (print_line l)" "STRLENMAX - 1 \<le> length t" using assms(4) t(1) by (simp_all add: STRLENMAX_def)
  then have "set (take (STRLENMAX - 1) (print_line l @ rest)) \<subseteq> set t" using t(1) set_take_subset [of "STRLENMAX - 1" t] by simp
  then have stop: "build_loop newrows (print_line l @ rest) bwcostmin bc = Some newrows" for bc
    using build_loop_long [of "print_line l @ rest" newrows bwcostmin bc] len(1) t(2) by auto
  obtain bc where "build_loop (init_newrows nrows) (concat (map item_text items) @ print_line l @ rest) bwcostmin junk
      = build_loop newrows (print_line l @ rest) bwcostmin bc" using build_loop_items [OF assms(1-3)] by blast
  moreover have "length (print_line l) < RELATION_MAX_BYTES"
    using int32_line_fits [of l] assms(5,6) by (force simp: MERGE_LEVEL_MAX_def)
  then have "fgets RELATION_MAX_BYTES (print_line l @ rest) = Some (print_line l, rest)"
    using take_line_adds(1,4) [OF ne] by (simp add: fgets_def)
  ultimately show ?thesis using stop by (simp add: build_newrows_from_file_def)
qed

theorem replay_truncated_witness:
  "build_newrows_from_file 2 (concat (map item_text history1) @ print_line (replicate 228 12345678) @ []) 0 7 = Some [None, Some [0, 1]]
     \<and> fgets RELATION_MAX_BYTES (print_line (replicate 228 12345678) @ []) = Some (print_line (replicate 228 12345678), [])"
proof (rule replay_truncated [OF history1_fits(1)])
  show b: "before_cost 0 history1 = history1" by (simp add: before_cost_def history1_def)
  show "apply_lines (init_newrows 2) (adds_of history1) = Some [None, Some [0, 1]]" using history1_rows b by simp
qed (simp_all add: MERGE_LEVEL_MAX_def)

end
