(* ===== verification/Filter_read.thy ===== *)
theory Filter_read
  imports Merge_rows
begin

text \<open>
  Model of the functions of \<open>src/filter/filter_matrix.c\<close> and \<open>swar.c\<close> that set the matrix up, in the order in
  which \<open>main\<close> of \<open>merge.c\<close> calls them: \<open>initMat\<close>, \<open>filter_matrix_read_weights\<close>, \<open>initSWAR\<close>, \<open>fillmat\<close> and
  \<open>filter_matrix_read\<close>.  A \<open>purgedfile_stream\<close> is the list of the rows it delivers, each the list
  \<open>cols[0..nc-1]\<close>; it is rewound between the two passes.  The contents of a fresh \<open>malloc\<close> is an
  arbitrary function of the index.  A write beyond the line buffer is \<^const>\<open>None\<close>; \<open>rows_fit\<close> tells when there is none.
\<close>

definition malloc_array :: "(nat \<Rightarrow> 'a) \<Rightarrow> nat \<Rightarrow> 'a list" where
  "malloc_array junk n = map junk [0..<n]"

lemma malloc_array_length [simp]: "length (malloc_array junk n) = n"
  by (simp add: malloc_array_def)

section \<open>Operations\<close>

definition initMat :: "(nat \<Rightarrow> row option) \<Rightarrow> (nat \<Rightarrow> int list option) \<Rightarrow> filter_matrix \<Rightarrow> filter_matrix" where
  "initMat rows R mat =
     mat \<lparr> mat_rows := malloc_array rows (mat_nrows mat), mat_wt := replicate (mat_ncols mat) 0,
           mat_wburied := replicate (mat_nrows mat) 0, mat_R := malloc_array R (mat_ncols mat) \<rparr>"

fun read_weights_row :: "filter_matrix \<Rightarrow> int list \<Rightarrow> filter_matrix" where
  "read_weights_row mat [] = mat"
| "read_weights_row mat (j # js) =
     read_weights_row (if 0 \<le> j \<and> j < int (mat_ncols mat) then set_wt j (mat_wt mat ! nat j + 1) mat else mat) js"

definition filter_matrix_read_weights :: "filter_matrix \<Rightarrow> int list list \<Rightarrow> filter_matrix" where
  "filter_matrix_read_weights mat ps = foldl read_weights_row mat ps"

fun create_headers :: "dclist_store \<Rightarrow> nat \<Rightarrow> nat list \<times> dclist_store" where
  "create_headers s 0 = ([], s)"
| "create_headers s (Suc n) = (let (h, s) = dclistCreate s (- 1); (hs, s) = create_headers s n in (h # hs, s))"

definition initSWAR :: "(nat \<Rightarrow> nat option) \<Rightarrow> filter_matrix \<Rightarrow> filter_matrix" where
  "initSWAR A mat =
     (let (S, s) = create_headers (mat_store mat) (mat_cwmax mat + 2)
      in mat \<lparr> mat_S := S, mat_A := malloc_array A (mat_ncols mat), mat_store := s \<rparr>)"

fun fillmat_loop :: "filter_matrix \<Rightarrow> nat list \<Rightarrow> filter_matrix option" where
  "fillmat_loop mat [] = Some mat"
| "fillmat_loop mat (j # js) =
     do { wj \<leftarrow> at (mat_wt mat) (int j);
          mat \<leftarrow> (if wj \<le> int (mat_cwmax mat)
                  then do { mat \<leftarrow> insert_j_in_S mat wj (int j); Some (set_R (int j) (Some []) mat) }
                  else Some (set_R (int j) None (set_A (int j) None (set_wt (int j) (- wj) mat))));
          fillmat_loop mat js }"

definition fillmat :: "filter_matrix \<Rightarrow> filter_matrix option" where
  "fillmat mat = fillmat_loop mat [0..<mat_ncols mat]"

text \<open>The columns that are buried.\<close>

definition tooheavy_array :: "filter_matrix \<Rightarrow> bool list" where
  "tooheavy_array mat = map (\<lambda>j. mat_wt mat ! j < - (int (mat_nrows mat) div 2000)) [0..<mat_ncols mat]"

text \<open>
  \<open>R[j][0]++; R[j][R[j][0]] = i\<close>.  \<open>fillmat\<close> allocated \<open>wt[j] + 1\<close> cells for \<open>R[j]\<close>, and \<open>wt[j]\<close> has not
  changed: more than \<open>wt[j]\<close> rows do not fit.
\<close>

definition push_Rj :: "filter_matrix \<Rightarrow> nat \<Rightarrow> int \<Rightarrow> filter_matrix option" where
  "push_Rj mat i j =
     do { w \<leftarrow> at (mat_wt mat) j;
          r \<leftarrow> at (mat_R mat) j;
          r \<leftarrow> r;
          if int (length r) < w then Some (set_R j (Some (r @ [int i])) mat) else None }"

text \<open>The loop over the columns of row \<open>i\<close>, with the buffer of \<open>lbuf\<close> cells and the count of heavy columns.\<close>

fun read_row :: "bool list \<Rightarrow> nat \<Rightarrow> filter_matrix \<Rightarrow> nat \<Rightarrow> int list \<Rightarrow> int list \<Rightarrow> nat \<Rightarrow> (filter_matrix \<times> int list \<times> nat) option" where
  "read_row heavy lbuf mat i [] buf nb = Some (mat, buf, nb)"
| "read_row heavy lbuf mat i (j # js) buf nb =
     do { w \<leftarrow> at (mat_wt mat) j;
          h \<leftarrow> at heavy j;
          let nb = (if w < 0 then nb + 1 else nb);
          let mat = add_weight 1 mat;
          if h then
            do { b \<leftarrow> at (mat_wburied mat) (int i);
                 read_row heavy lbuf (mat \<lparr> mat_wburied := (mat_wburied mat)[i := b + 1] \<rparr>) i js buf nb }
          else if length buf < lbuf then
            do { mat \<leftarrow> (if w > 0 then push_Rj mat i j else Some mat);
                 read_row heavy lbuf mat i js (buf @ [j]) nb }
          else None }"

text \<open>The loop over the rows; \<open>qsort\<close> with \<open>cmp\<close> sorts, and equal neighbours stop the program.\<close>

fun read_rows :: "bool list \<Rightarrow> nat \<Rightarrow> filter_matrix \<Rightarrow> nat \<Rightarrow> int list list \<Rightarrow> filter_matrix option" where
  "read_rows heavy lbuf mat i [] = Some mat"
| "read_rows heavy lbuf mat i (cols # ps) =
     (if i < mat_nrows mat then
        if cols = [] then
          read_rows heavy lbuf (mat \<lparr> mat_rows := (mat_rows mat)[i := None], mat_rem_nrows := mat_rem_nrows mat - 1 \<rparr>) (i + 1) ps
        else
          let lbuf = (if length cols > lbuf then 2 * lbuf else lbuf) in
          do { (mat, buf, nb) \<leftarrow> read_row heavy lbuf mat i cols [] 0;
               if nb = length cols then read_rows heavy lbuf (mat \<lparr> mat_rows := (mat_rows mat)[i := None] \<rparr>) (i + 1) ps
               else if distinct_adj (sort_cmp (\<lambda>j. j) buf)
               then read_rows heavy lbuf (mat \<lparr> mat_rows := (mat_rows mat)[i := Some (sort_cmp (\<lambda>j. j) buf)] \<rparr>) (i + 1) ps
               else None }
      else None)"

definition filter_matrix_read :: "filter_matrix \<Rightarrow> int list list \<Rightarrow> filter_matrix option" where
  "filter_matrix_read mat ps =
     (let heavy = tooheavy_array mat;
          mat = mat \<lparr> mat_nburied := int (length (filter (\<lambda>b. b) heavy)), mat_rem_nrows := int (mat_nrows mat), mat_weight := 0 \<rparr>
      in do { mat \<leftarrow> read_rows heavy 100 mat 0 ps;
              Some (mat \<lparr> mat_rem_ncols := int (mat_ncols mat) \<rparr>) })"

text \<open>The sequence of calls of \<open>main\<close>.\<close>

definition load_matrix ::
    "(nat \<Rightarrow> row option) \<Rightarrow> (nat \<Rightarrow> int list option) \<Rightarrow> (nat \<Rightarrow> nat option) \<Rightarrow> filter_matrix \<Rightarrow> int list list \<Rightarrow> filter_matrix option" where
  "load_matrix rows R A mat ps =
     do { let mat = filter_matrix_read_weights (initMat rows R mat) ps;
          mat \<leftarrow> fillmat (initSWAR A mat);
          filter_matrix_read mat ps }"

definition checkData :: "filter_matrix \<Rightarrow> bool" where
  "checkData mat \<longleftrightarrow> mat_rem_ncols mat = int (length (filter (\<lambda>j. mat_wt mat ! j \<noteq> 0) [0..<mat_ncols mat]))"

section \<open>Column weights\<close>

definition stream_ok :: "nat \<Rightarrow> int list list \<Rightarrow> bool" where
  "stream_ok n ps \<longleftrightarrow> (\<forall>cols \<in> set ps. distinct cols \<and> set cols \<subseteq> {0..<int n})"

definition col_count :: "int list list \<Rightarrow> nat \<Rightarrow> int" where
  "col_count ps j = int (length (filter (\<lambda>cols. int j \<in> set cols) ps))"

lemma col_count_Cons: "col_count (cols # ps) j = (if int j \<in> set cols then 1 else 0) + col_count ps j"
  by (simp add: col_count_def)

lemma col_count_nonneg [simp]: "0 \<le> col_count ps j"
  by (simp add: col_count_def)

lemma read_weights_row_val:
  assumes "distinct js" "set js \<subseteq> {0..<int n}" "length (mat_wt mat) = n" "mat_ncols mat = n"
  shows "read_weights_row mat js = mat \<lparr> mat_wt := map (\<lambda>k. mat_wt mat ! k + (if int k \<in> set js then 1 else 0)) [0..<n] \<rparr>"
  using assms
proof (induction js arbitrary: mat)
  case Nil
  then have "map (\<lambda>k. mat_wt mat ! k + (if int k \<in> set [] then 1 else 0)) [0..<n] = mat_wt mat"
    by (simp add: list_eq_iff_nth_eq)
  then show ?case by (simp only: read_weights_row.simps) simp
next
  case (Cons j js)
  let ?m = "set_wt j (mat_wt mat ! nat j + 1) mat"
  have j: "0 \<le> j" "nat j < n" using Cons.prems(2) by auto
  have "read_weights_row ?m js = ?m \<lparr> mat_wt := map (\<lambda>k. mat_wt ?m ! k + (if int k \<in> set js then 1 else 0)) [0..<n] \<rparr>"
    using Cons.IH [of ?m] Cons.prems by (simp add: set_wt_def)
  moreover have "map (\<lambda>k. mat_wt ?m ! k + (if int k \<in> set js then 1 else 0)) [0..<n]
      = map (\<lambda>k. mat_wt mat ! k + (if int k \<in> set (j # js) then 1 else 0)) [0..<n]"
    using Cons.prems(1,3) j by (auto simp: set_wt_def nth_list_update list_eq_iff_nth_eq)
  ultimately show ?case using j Cons.prems(4) by (simp add: set_wt_def zless_nat_eq_int_zless)
qed

lemma read_weights_val:
  assumes "stream_ok n ps" "length (mat_wt mat) = n" "mat_ncols mat = n"
  shows "filter_matrix_read_weights mat ps = mat \<lparr> mat_wt := map (\<lambda>k. mat_wt mat ! k + col_count ps k) [0..<n] \<rparr>"
  using assms
proof (induction ps arbitrary: mat)
  case Nil
  then have "map (\<lambda>k. mat_wt mat ! k + col_count [] k) [0..<n] = mat_wt mat"
    by (simp add: list_eq_iff_nth_eq col_count_def)
  then show ?case by (simp only: filter_matrix_read_weights_def foldl.simps) simp
next
  case (Cons cols ps)
  let ?m = "read_weights_row mat cols"
  have c: "distinct cols" "set cols \<subseteq> {0..<int n}" "stream_ok n ps" using Cons.prems(1) by (auto simp: stream_ok_def)
  note m = read_weights_row_val [OF c(1,2) Cons.prems(2,3)]
  have "filter_matrix_read_weights ?m ps = ?m \<lparr> mat_wt := map (\<lambda>k. mat_wt ?m ! k + col_count ps k) [0..<n] \<rparr>"
    using Cons.IH [OF c(3), of ?m] Cons.prems(2,3) m by simp
  moreover have "map (\<lambda>k. mat_wt ?m ! k + col_count ps k) [0..<n] = map (\<lambda>k. mat_wt mat ! k + col_count (cols # ps) k) [0..<n]"
    unfolding m by (simp add: col_count_Cons)
  ultimately show ?case unfolding filter_matrix_read_weights_def foldl.simps by (simp add: m)
qed

section \<open>Setting up the stacks\<close>

lemma create_headers_val:
  assumes "store_ok s"
  shows "\<exists>s'. create_headers s n = ([brk s..<brk s + n], s') \<and> store_ok s' \<and> brk s' = brk s + n
     \<and> (\<forall>p \<in> {brk s..<brk s + n}. cells s' p = Some \<lparr> dcl_j = - 1, dcl_prev = None, dcl_next = None \<rparr>)
     \<and> (\<forall>p < brk s. cells s' p = cells s p)"
  using assms
proof (induction n arbitrary: s)
  case 0
  then show ?case by simp
next
  case (Suc n)
  let ?s = "set_cell (brk s) \<lparr> dcl_j = - 1, dcl_prev = None, dcl_next = None \<rparr> (s \<lparr> brk := brk s + 1 \<rparr>)"
  have ok: "store_ok ?s" "brk ?s = brk s + 1" using Suc.prems by (auto simp: store_ok_def set_cell_def)
  obtain s' where s': "create_headers ?s n = ([brk s + 1..<brk s + 1 + n], s')" "store_ok s'" "brk s' = brk s + 1 + n"
      "\<forall>p \<in> {brk s + 1..<brk s + 1 + n}. cells s' p = Some \<lparr> dcl_j = - 1, dcl_prev = None, dcl_next = None \<rparr>"
      "\<forall>p < brk s + 1. cells s' p = cells ?s p"
    using Suc.IH [OF ok(1)] unfolding ok(2) by blast
  have "brk s # [brk s + 1..<brk s + 1 + n] = [brk s..<brk s + Suc n]" by (simp add: upt_conv_Cons)
  then have "create_headers s (Suc n) = ([brk s..<brk s + Suc n], s')" using s'(1) by (simp add: dclistCreate_def Let_def)
  moreover have "cells s' p = Some \<lparr> dcl_j = - 1, dcl_prev = None, dcl_next = None \<rparr>" if "p \<in> {brk s..<brk s + Suc n}" for p
    using that s'(4,5) by (cases "p = brk s") (auto simp: set_cell_def)
  moreover have "cells s' p = cells s p" if "p < brk s" for p using that s'(5) by (simp add: set_cell_def)
  ultimately show ?case using s'(2,3) by auto
qed

lemma initSWAR_val:
  assumes "store_ok (mat_store mat)"
  shows "\<exists>S s. initSWAR A mat = mat \<lparr> mat_S := S, mat_A := malloc_array A (mat_ncols mat), mat_store := s \<rparr>
     \<and> length S = mat_cwmax mat + 2 \<and> stacks S (replicate (mat_ncols mat) None) s lev (\<lambda>_. [])"
proof -
  define n b where "n = mat_cwmax mat + 2" and "b = brk (mat_store mat)"
  obtain s where s: "create_headers (mat_store mat) n = ([b..<b + n], s)" "store_ok s"
      "\<forall>p \<in> {b..<b + n}. cells s p = Some \<lparr> dcl_j = - 1, dcl_prev = None, dcl_next = None \<rparr>"
    using create_headers_val [OF assms, of n] unfolding b_def by blast
  have "stacks [b..<b + n] (replicate (mat_ncols mat) None) s lev (\<lambda>_. [])"
    by (rule stacksI) (use s in \<open>auto simp: is_dclist_def stack_addr_def\<close>)
  then show ?thesis using s(1) by (intro exI [of _ "[b..<b + n]"] exI [of _ s]) (simp add: initSWAR_def n_def del: create_headers.simps)
qed

text \<open>
  The state of \<open>fillmat\<close> before column \<open>k\<close>: the columns below \<open>k\<close> are in the stack of their weight, with an
  empty list of rows, or are heavy; \<open>A\<close> is not initialised from \<open>k\<close> on.
\<close>

definition fill_inv :: "(nat \<Rightarrow> int) \<Rightarrow> filter_matrix \<Rightarrow> nat \<Rightarrow> filter_matrix \<Rightarrow> bool" where
  "fill_inv c mat0 k mat \<longleftrightarrow>
     (\<exists>w r a s. mat = mat0 \<lparr> mat_wt := w, mat_R := r, mat_A := a, mat_store := s \<rparr>)
     \<and> length (mat_wt mat) = mat_ncols mat \<and> length (mat_R mat) = mat_ncols mat \<and> length (mat_A mat) = mat_ncols mat
     \<and> length (mat_S mat) = mat_cwmax mat + 2 \<and> (\<forall>j < mat_ncols mat. 0 \<le> c j)
     \<and> (\<forall>j < mat_ncols mat. mat_wt mat ! j = (if j < k \<and> c j > int (mat_cwmax mat) then - c j else c j))
     \<and> (\<forall>j < mat_ncols mat. j < k \<longrightarrow>
          (if c j \<le> int (mat_cwmax mat) then mat_R mat ! j = Some [] \<and> mat_A mat ! j \<noteq> None
           else mat_R mat ! j = None \<and> mat_A mat ! j = None))
     \<and> (\<exists>L. stacks (mat_S mat) (map (\<lambda>j. if j < k then mat_A mat ! j else None) [0..<mat_ncols mat]) (mat_store mat) (\<lambda>j. nat (c j)) L)"

lemma fill_next:
  assumes inv: "fill_inv c mat0 k mat" and k: "k < mat_ncols mat"
    and m: "mat' = mat \<lparr> mat_wt := (mat_wt mat)[k := w], mat_R := (mat_R mat)[k := r], mat_A := (mat_A mat)[k := x], mat_store := s \<rparr>"
    and w: "w = (if c k > int (mat_cwmax mat) then - c k else c k)"
    and rx: "if c k \<le> int (mat_cwmax mat) then r = Some [] \<and> x \<noteq> None else r = None \<and> x = None"
    and st: "stacks (mat_S mat) ((map (\<lambda>j. if j < k then mat_A mat ! j else None) [0..<mat_ncols mat])[k := x]) s (\<lambda>j. nat (c j)) L"
  shows "fill_inv c mat0 (Suc k) mat'"
proof -
  let ?n = "mat_ncols mat"
  have l: "length (mat_wt mat) = ?n" "length (mat_R mat) = ?n" "length (mat_A mat) = ?n" using inv unfolding fill_inv_def by blast+
  have f: "mat_ncols mat' = ?n" "mat_cwmax mat' = mat_cwmax mat" "mat_S mat' = mat_S mat" by (simp_all add: m)
  obtain w0 r0 a0 s0 where "mat = mat0 \<lparr> mat_wt := w0, mat_R := r0, mat_A := a0, mat_store := s0 \<rparr>" using inv unfolding fill_inv_def by blast
  then have "mat' = mat0 \<lparr> mat_wt := w0[k := w], mat_R := r0[k := r], mat_A := a0[k := x], mat_store := s \<rparr>" by (simp add: m)
  then have "\<exists>w r a s. mat' = mat0 \<lparr> mat_wt := w, mat_R := r, mat_A := a, mat_store := s \<rparr>" by blast
  moreover have "\<forall>j < ?n. mat_wt mat' ! j = (if j < Suc k \<and> c j > int (mat_cwmax mat) then - c j else c j)"
  proof (intro allI impI)
    fix j assume "j < ?n"
    then have "mat_wt mat ! j = (if j < k \<and> c j > int (mat_cwmax mat) then - c j else c j)" using inv unfolding fill_inv_def by blast
    then show "mat_wt mat' ! j = (if j < Suc k \<and> c j > int (mat_cwmax mat) then - c j else c j)"
      using w k l by (cases "j = k") (auto simp: m)
  qed
  moreover have "\<forall>j < ?n. j < Suc k \<longrightarrow> (if c j \<le> int (mat_cwmax mat) then mat_R mat' ! j = Some [] \<and> mat_A mat' ! j \<noteq> None
       else mat_R mat' ! j = None \<and> mat_A mat' ! j = None)"
  proof (intro allI impI)
    fix j assume j: "j < ?n" "j < Suc k"
    then have "j \<noteq> k \<longrightarrow> (if c j \<le> int (mat_cwmax mat) then mat_R mat ! j = Some [] \<and> mat_A mat ! j \<noteq> None
       else mat_R mat ! j = None \<and> mat_A mat ! j = None)" using inv unfolding fill_inv_def by (metis less_antisym)
    then show "if c j \<le> int (mat_cwmax mat) then mat_R mat' ! j = Some [] \<and> mat_A mat' ! j \<noteq> None
       else mat_R mat' ! j = None \<and> mat_A mat' ! j = None" using rx k l by (cases "j = k") (auto simp: m)
  qed
  moreover have "map (\<lambda>j. if j < Suc k then mat_A mat' ! j else None) [0..<?n]
      = (map (\<lambda>j. if j < k then mat_A mat ! j else None) [0..<?n])[k := x]"
    using k l by (auto simp: m list_eq_iff_nth_eq nth_list_update less_Suc_eq)
  then have "\<exists>L. stacks (mat_S mat) (map (\<lambda>j. if j < Suc k then mat_A mat' ! j else None) [0..<?n]) (mat_store mat') (\<lambda>j. nat (c j)) L"
    using st by (auto simp: m)
  moreover have "length (mat_wt mat') = ?n" "length (mat_R mat') = ?n" "length (mat_A mat') = ?n" using l by (simp_all add: m)
  moreover have "length (mat_S mat) = mat_cwmax mat + 2" "\<forall>j < ?n. 0 \<le> c j" using inv unfolding fill_inv_def by blast+
  ultimately show ?thesis unfolding fill_inv_def f by (intro conjI)
qed

lemma fill_step:
  assumes inv: "fill_inv c mat0 k mat" and k: "k < mat_ncols mat"
  shows "\<exists>mat'. do { wj \<leftarrow> at (mat_wt mat) (int k);
             if wj \<le> int (mat_cwmax mat)
             then do { mat \<leftarrow> insert_j_in_S mat wj (int k); Some (set_R (int k) (Some []) mat) }
             else Some (set_R (int k) None (set_A (int k) None (set_wt (int k) (- wj) mat))) } = Some mat'
           \<and> fill_inv c mat0 (Suc k) mat'"
proof -
  let ?n = "mat_ncols mat"
  let ?A = "map (\<lambda>j. if j < k then mat_A mat ! j else None) [0..<?n]"
  obtain L where L: "stacks (mat_S mat) ?A (mat_store mat) (\<lambda>j. nat (c j)) L" using inv unfolding fill_inv_def by blast
  have l: "length (mat_wt mat) = ?n" "length (mat_S mat) = mat_cwmax mat + 2" "0 \<le> c k"
    and wt: "mat_wt mat ! k = (if k < k \<and> c k > int (mat_cwmax mat) then - c k else c k)"
    using inv k unfolding fill_inv_def by blast+
  have wk: "at (mat_wt mat) (int k) = Some (c k)" "mat_wt mat ! k = c k" using wt k l by simp_all
  show ?thesis
  proof (cases "c k \<le> int (mat_cwmax mat)")
    case True
    have i: "nat (c k) < length (mat_S mat)" using True l by auto
    have "?A ! k = None" using k by simp
    then obtain p s' where p: "dclistInsert (mat_store mat) (mat_S mat ! nat (c k)) (int k) = Some (p, s')"
        "stacks (mat_S mat) (?A[k := Some p]) s' ((\<lambda>j. nat (c j))(k := nat (c k))) (L(nat (c k) := (p, int k) # L (nat (c k))))"
      using stacks_insert [OF L _ _ i, of k] k by auto
    have lev: "(\<lambda>j. nat (c j))(k := nat (c k)) = (\<lambda>j. nat (c j))" by auto
    have at: "at (mat_S mat) (c k) = Some (mat_S mat ! nat (c k))" using i l(3) by (simp add: at_def)
    have self: "(mat_wt mat)[k := c k] = mat_wt mat" by (metis wk(2) list_update_id)
    have "do { mat \<leftarrow> insert_j_in_S mat (c k) (int k); Some (set_R (int k) (Some []) mat) }
        = Some (mat \<lparr> mat_wt := (mat_wt mat)[k := c k], mat_R := (mat_R mat)[k := Some []], mat_A := (mat_A mat)[k := Some p], mat_store := s' \<rparr>)"
      unfolding self using p(1) by (simp add: insert_j_in_S_def at set_A_def set_R_def)
    moreover have "fill_inv c mat0 (Suc k)
        (mat \<lparr> mat_wt := (mat_wt mat)[k := c k], mat_R := (mat_R mat)[k := Some []], mat_A := (mat_A mat)[k := Some p], mat_store := s' \<rparr>)"
      using True by (intro fill_next [OF inv k refl _ _ p(2) [unfolded lev]]) auto
    ultimately show ?thesis using wk(1) True by simp
  next
    case False
    have "?A[k := None] = ?A" using k by (simp add: list_eq_iff_nth_eq nth_list_update)
    then have st: "stacks (mat_S mat) (?A[k := None]) (mat_store mat) (\<lambda>j. nat (c j)) L" using L by simp
    have "fill_inv c mat0 (Suc k) (mat \<lparr> mat_wt := (mat_wt mat)[k := - c k], mat_R := (mat_R mat)[k := None], mat_A := (mat_A mat)[k := None],
          mat_store := mat_store mat \<rparr>)"
      using False by (intro fill_next [OF inv k refl _ _ st]) auto
    moreover have "set_R (int k) None (set_A (int k) None (set_wt (int k) (- c k) mat)) = mat \<lparr> mat_wt := (mat_wt mat)[k := - c k],
          mat_R := (mat_R mat)[k := None], mat_A := (mat_A mat)[k := None], mat_store := mat_store mat \<rparr>"
      by (rule filter_matrix.equality) (simp_all add: set_A_def set_R_def set_wt_def)
    ultimately show ?thesis using wk(1) False by simp
  qed
qed

lemma fillmat_loop_ok:
  assumes "fill_inv c mat0 k mat" "mat_ncols mat = n" "k \<le> n"
  shows "\<exists>mat'. fillmat_loop mat [k..<n] = Some mat' \<and> fill_inv c mat0 n mat'"
  using assms
proof (induction "n - k" arbitrary: k mat)
  case 0
  then show ?case by simp
next
  case (Suc d)
  then have k: "k < n" "[k..<n] = k # [Suc k..<n]" by (simp_all add: upt_conv_Cons)
  obtain mat' where m: "do { wj \<leftarrow> at (mat_wt mat) (int k);
             if wj \<le> int (mat_cwmax mat)
             then do { mat \<leftarrow> insert_j_in_S mat wj (int k); Some (set_R (int k) (Some []) mat) }
             else Some (set_R (int k) None (set_A (int k) None (set_wt (int k) (- wj) mat))) } = Some mat'"
      "fill_inv c mat0 (Suc k) mat'"
    using fill_step [OF Suc.prems(1)] Suc.prems(2) k(1) by blast
  have "mat_ncols mat' = n" using m(2) Suc.prems(1,2) by (auto simp: fill_inv_def)
  then obtain mat'' where m2: "fillmat_loop mat' [Suc k..<n] = Some mat''" "fill_inv c mat0 n mat''"
    using Suc.hyps(1) [of "Suc k" mat'] m(2) Suc.hyps(2) k(1) by (metis Suc_diff_Suc Suc_inject Suc_leI)
  obtain wj where "at (mat_wt mat) (int k) = Some wj" using m(1) by (cases "at (mat_wt mat) (int k)") auto
  then have "fillmat_loop mat [k..<n] = fillmat_loop mat' [Suc k..<n]" using m(1) unfolding k(2) by simp
  then show ?case using m2 by simp
qed

section \<open>Reading the rows\<close>

abbreviation buried :: "bool list \<Rightarrow> int \<Rightarrow> bool" where
  "buried heavy j \<equiv> heavy ! nat j"

text \<open>What the loop over the columns of row \<open>i\<close> does to the matrix.\<close>

definition after_row :: "bool list \<Rightarrow> nat \<Rightarrow> int list \<Rightarrow> filter_matrix \<Rightarrow> filter_matrix" where
  "after_row heavy i js mat = mat \<lparr>
     mat_wburied := (mat_wburied mat)[i := mat_wburied mat ! i + int (length (filter (buried heavy) js))],
     mat_weight := (mat_weight mat + int (length js)) mod 2 ^ 64,
     mat_R := map (\<lambda>k. if int k \<in> set js \<and> mat_wt mat ! k > 0 then map_option (\<lambda>r. r @ [int i]) (mat_R mat ! k) else mat_R mat ! k)
       [0..<mat_ncols mat] \<rparr>"

lemma after_row_simps [simp]:
  "mat_wt (after_row heavy i js mat) = mat_wt mat" "mat_ncols (after_row heavy i js mat) = mat_ncols mat"
  "mat_nrows (after_row heavy i js mat) = mat_nrows mat" "mat_rows (after_row heavy i js mat) = mat_rows mat"
  "mat_A (after_row heavy i js mat) = mat_A mat" "mat_S (after_row heavy i js mat) = mat_S mat"
  "mat_store (after_row heavy i js mat) = mat_store mat" "mat_cwmax (after_row heavy i js mat) = mat_cwmax mat"
  "length (mat_wburied (after_row heavy i js mat)) = length (mat_wburied mat)"
  "length (mat_R (after_row heavy i js mat)) = mat_ncols mat"
  by (simp_all add: after_row_def)

lemma read_row_val:
  assumes "distinct js" "set js \<subseteq> {0..<int (mat_ncols mat)}" "length (mat_wt mat) = mat_ncols mat" "length heavy = mat_ncols mat"
    and "length (mat_R mat) = mat_ncols mat" "length (mat_wburied mat) = mat_nrows mat" "i < mat_nrows mat"
    and "\<And>j. j \<in> set js \<Longrightarrow> buried heavy j \<Longrightarrow> mat_wt mat ! nat j \<le> 0"
    and "\<And>j. j \<in> set js \<Longrightarrow> mat_wt mat ! nat j > 0 \<Longrightarrow> \<exists>r. mat_R mat ! nat j = Some r \<and> int (length r) < mat_wt mat ! nat j"
    and "length buf + length (filter (\<lambda>j. \<not> buried heavy j) js) \<le> lbuf" "0 \<le> mat_weight mat" "mat_weight mat < 2 ^ 64"
  shows "read_row heavy lbuf mat i js buf nb
    = Some (after_row heavy i js mat, buf @ filter (\<lambda>j. \<not> buried heavy j) js, nb + length (filter (\<lambda>j. mat_wt mat ! nat j < 0) js))"
  using assms
proof (induction js arbitrary: mat buf nb)
  case Nil
  have "after_row heavy i [] mat = mat"
  proof (rule filter_matrix.equality)
    show "mat_R (after_row heavy i [] mat) = mat_R mat" using Nil.prems(5) by (simp add: after_row_def list_eq_iff_nth_eq)
  qed (use Nil.prems in \<open>simp_all add: after_row_def\<close>)
  then show ?case by simp
next
  case (Cons j js)
  let ?n = "mat_ncols mat" and ?w = "mat_wt mat ! nat j"
  have j: "0 \<le> j" "nat j < ?n" "j \<notin> set js" using Cons.prems(1,2) by auto
  have at: "at (mat_wt mat) j = Some ?w" "at heavy j = Some (buried heavy j)" using j Cons.prems(3,4) by (simp_all add: at_def)
  let ?nb = "if ?w < 0 then nb + 1 else nb"
  have nb: "?nb + length (filter (\<lambda>j. mat_wt mat ! nat j < 0) js) = nb + length (filter (\<lambda>j. mat_wt mat ! nat j < 0) (j # js))" by simp
  show ?case
  proof (cases "buried heavy j")
    case True
    let ?m = "add_weight 1 mat \<lparr> mat_wburied := (mat_wburied mat)[i := mat_wburied mat ! i + 1] \<rparr>"
    have "?w \<le> 0" using Cons.prems(8) True by simp
    then have e: "after_row heavy i js ?m = after_row heavy i (j # js) mat"
      using True j Cons.prems(6,7) unfolding after_row_def add_weight_def
      by (intro filter_matrix.equality) (auto simp: mod_simps add.assoc list_eq_iff_nth_eq)
    have "read_row heavy lbuf ?m i js buf ?nb = Some (after_row heavy i js ?m, buf @ filter (\<lambda>j. \<not> buried heavy j) js,
        ?nb + length (filter (\<lambda>j. mat_wt ?m ! nat j < 0) js))"
      using Cons.prems True by (intro Cons.IH) (auto simp: add_weight_def)
    moreover have "read_row heavy lbuf mat i (j # js) buf nb = read_row heavy lbuf ?m i js buf ?nb"
      using True at Cons.prems(6,7) by (simp add: Let_def add_weight_def)
    ultimately show ?thesis using True nb e by (simp add: add_weight_def)
  next
    case False
    show ?thesis
    proof (cases "?w > 0")
      case pos: True
      obtain r where r: "mat_R mat ! nat j = Some r" "int (length r) < ?w" using Cons.prems(9) pos by auto
      let ?m = "add_weight 1 mat \<lparr> mat_R := (mat_R mat)[nat j := Some (r @ [int i])] \<rparr>"
      have e: "after_row heavy i js ?m = after_row heavy i (j # js) mat"
        using False j pos r Cons.prems(5) unfolding after_row_def add_weight_def
        by (intro filter_matrix.equality) (auto simp: mod_simps add.assoc list_eq_iff_nth_eq nth_list_update)
      have "\<exists>r. mat_R ?m ! nat k = Some r \<and> int (length r) < mat_wt ?m ! nat k" if "k \<in> set js" "mat_wt ?m ! nat k > 0" for k
      proof -
        have "nat k \<noteq> nat j" using that(1) j Cons.prems(2) by (metis atLeastLessThan_iff eq_nat_nat_iff list.set_intros(2) subset_iff)
        then show ?thesis using Cons.prems(9) [of k] that by (simp add: add_weight_def)
      qed
      then have "read_row heavy lbuf ?m i js (buf @ [j]) ?nb = Some (after_row heavy i js ?m, (buf @ [j]) @ filter (\<lambda>j. \<not> buried heavy j) js,
          ?nb + length (filter (\<lambda>j. mat_wt ?m ! nat j < 0) js))"
        using Cons.prems False by (intro Cons.IH) (simp_all add: add_weight_def)
      moreover have "push_Rj (add_weight 1 mat) i j = Some ?m"
        using at r j Cons.prems(5) by (simp add: push_Rj_def set_R_def add_weight_def at_def)
      then have "read_row heavy lbuf mat i (j # js) buf nb = read_row heavy lbuf ?m i js (buf @ [j]) ?nb"
        using False at pos Cons.prems(10) by (simp add: Let_def)
      ultimately show ?thesis using False nb e by (simp add: add_weight_def)
    next
      case npos: False
      let ?m = "add_weight 1 mat"
      have e: "after_row heavy i js ?m = after_row heavy i (j # js) mat"
        using False npos j Cons.prems(5) unfolding after_row_def add_weight_def
        by (intro filter_matrix.equality) (auto simp: mod_simps add.assoc list_eq_iff_nth_eq nth_list_update)
      have "read_row heavy lbuf ?m i js (buf @ [j]) ?nb = Some (after_row heavy i js ?m, (buf @ [j]) @ filter (\<lambda>j. \<not> buried heavy j) js,
          ?nb + length (filter (\<lambda>j. mat_wt ?m ! nat j < 0) js))"
        using Cons.prems False by (intro Cons.IH) (simp_all add: add_weight_def)
      moreover have "read_row heavy lbuf mat i (j # js) buf nb = read_row heavy lbuf ?m i js (buf @ [j]) ?nb"
        using False at npos Cons.prems(10) by (simp add: Let_def)
      ultimately show ?thesis using False nb e by (simp add: add_weight_def)
    qed
  qed
qed

definition stored_row :: "bool list \<Rightarrow> int list \<Rightarrow> int list \<Rightarrow> row option" where
  "stored_row heavy wt cols =
     (if \<forall>j \<in> set cols. wt ! nat j < 0 then None else Some (sort (filter (\<lambda>j. \<not> buried heavy j) cols)))"

definition rows_of_col :: "int list list \<Rightarrow> nat \<Rightarrow> nat \<Rightarrow> int list" where
  "rows_of_col ps i k = map int (filter (\<lambda>i. int k \<in> set (ps ! i)) [0..<i])"

lemma rows_of_col_Suc: "rows_of_col ps (Suc i) k = rows_of_col ps i k @ (if int k \<in> set (ps ! i) then [int i] else [])"
  by (simp add: rows_of_col_def)

lemma length_rows_of_col: "int (length (rows_of_col ps (length ps) k)) = col_count ps k"
proof -
  have "{i. i < length ps \<and> int k \<in> set (ps ! ([0..<length ps] ! i))} = {i. i < length ps \<and> int k \<in> set (ps ! i)}" by auto
  then show ?thesis by (simp add: rows_of_col_def col_count_def length_filter_conv_card)
qed

lemma length_rows_of_col_less:
  assumes "i < length ps" "int k \<in> set (ps ! i)"
  shows "int (length (rows_of_col ps i k)) < col_count ps k"
proof -
  have "length (rows_of_col ps m k) \<le> length (rows_of_col ps n k)" if "m \<le> n" for m n
    using that by (induction n rule: dec_induct) (auto simp: rows_of_col_Suc)
  from this [of "Suc i" "length ps"] show ?thesis
    using assms length_rows_of_col [of ps k] by (simp add: rows_of_col_Suc)
qed

definition read_inv :: "bool list \<Rightarrow> int list list \<Rightarrow> filter_matrix \<Rightarrow> nat \<Rightarrow> filter_matrix \<Rightarrow> bool" where
  "read_inv heavy ps mat0 i mat \<longleftrightarrow>
     (\<exists>rn rs wb we r. mat = mat0 \<lparr> mat_rem_nrows := rn, mat_rows := rs, mat_wburied := wb, mat_weight := we, mat_R := r \<rparr>)
     \<and> length (mat_rows mat) = mat_nrows mat \<and> length (mat_wburied mat) = mat_nrows mat \<and> length (mat_R mat) = mat_ncols mat
     \<and> 0 \<le> mat_weight mat \<and> mat_weight mat < 2 ^ 64
     \<and> mat_weight mat = (\<Sum>cols \<leftarrow> take i ps. int (length cols)) mod 2 ^ 64
     \<and> mat_rem_nrows mat = int (mat_nrows mat) - int (length (filter (\<lambda>cols. cols = []) (take i ps)))
     \<and> (\<forall>k < mat_ncols mat. mat_R mat ! k = (if 0 \<le> mat_wt mat ! k then Some (rows_of_col ps i k) else None))
     \<and> (\<forall>k < i. mat_rows mat ! k = stored_row heavy (mat_wt mat) (ps ! k))
     \<and> (\<forall>k < mat_nrows mat. mat_wburied mat ! k = (if k < i then int (length (filter (buried heavy) (ps ! k))) else 0))"

lemma read_inv_frame:
  assumes "read_inv heavy ps mat0 i mat"
  shows "mat_wt mat = mat_wt mat0" "mat_ncols mat = mat_ncols mat0" "mat_nrows mat = mat_nrows mat0" "mat_A mat = mat_A mat0"
    "mat_S mat = mat_S mat0" "mat_store mat = mat_store mat0" "mat_cwmax mat = mat_cwmax mat0" "mat_nburied mat = mat_nburied mat0"
    "mat_rwmax mat = mat_rwmax mat0" "mat_keep mat = mat_keep mat0"
  using assms unfolding read_inv_def by auto

text \<open>Conditions on the matrix and the stream that hold during the whole second pass.\<close>

definition read_ready :: "bool list \<Rightarrow> int list list \<Rightarrow> filter_matrix \<Rightarrow> bool" where
  "read_ready heavy ps mat \<longleftrightarrow> stream_ok (mat_ncols mat) ps \<and> length ps = mat_nrows mat
     \<and> length (mat_wt mat) = mat_ncols mat \<and> length heavy = mat_ncols mat
     \<and> (\<forall>k < mat_ncols mat. heavy ! k \<longrightarrow> mat_wt mat ! k < 0)
     \<and> (\<forall>k < mat_ncols mat. 0 \<le> mat_wt mat ! k \<longrightarrow> mat_wt mat ! k = col_count ps k)"

lemma read_inv_next:
  assumes inv: "read_inv heavy ps mat0 i mat" and rdy: "read_ready heavy ps mat0" and i: "i < mat_nrows mat0"
    and rn: "rn = mat_rem_nrows mat - (if ps ! i = [] then 1 else 0)"
    and mat': "mat' = (after_row heavy i (ps ! i) mat) \<lparr> mat_rows := (mat_rows mat)[i := stored_row heavy (mat_wt mat) (ps ! i)], mat_rem_nrows := rn \<rparr>"
  shows "read_inv heavy ps mat0 (Suc i) mat'"
proof -
  note f = read_inv_frame [OF inv]
  have l: "i < length ps" "length ps = mat_nrows mat0" using rdy i by (simp_all add: read_ready_def)
  have f': "mat_nrows mat' = mat_nrows mat" "mat_ncols mat' = mat_ncols mat" "mat_wt mat' = mat_wt mat" by (simp_all add: mat')
  have tk: "take (Suc i) ps = take i ps @ [ps ! i]" using l by (simp add: take_Suc_conv_app_nth)
  obtain a b c d e where "mat = mat0 \<lparr> mat_rem_nrows := a, mat_rows := b, mat_wburied := c, mat_weight := d, mat_R := e \<rparr>"
    using inv unfolding read_inv_def by blast
  then have "mat' = mat0 \<lparr> mat_rem_nrows := mat_rem_nrows mat', mat_rows := mat_rows mat', mat_wburied := mat_wburied mat',
      mat_weight := mat_weight mat', mat_R := mat_R mat' \<rparr>"
    by (intro filter_matrix.equality) (simp_all add: mat' after_row_def)
  then have "\<exists>rn rs wb we r. mat' = mat0 \<lparr> mat_rem_nrows := rn, mat_rows := rs, mat_wburied := wb, mat_weight := we, mat_R := r \<rparr>" by blast
  moreover have "length (mat_rows mat') = mat_nrows mat" "length (mat_wburied mat') = mat_nrows mat" "length (mat_R mat') = mat_ncols mat"
    using inv by (simp_all add: mat' read_inv_def)
  moreover have "mat_weight mat' = (mat_weight mat + int (length (ps ! i))) mod 2 ^ 64" by (simp add: mat' after_row_def)
  moreover have "mat_weight mat = (\<Sum>cols \<leftarrow> take i ps. int (length cols)) mod 2 ^ 64" using inv unfolding read_inv_def by blast
  then have "(mat_weight mat + int (length (ps ! i))) mod 2 ^ 64 = (\<Sum>cols \<leftarrow> take (Suc i) ps. int (length cols)) mod 2 ^ 64"
    by (simp add: tk mod_simps)
  moreover have "mat_rem_nrows mat' = int (mat_nrows mat) - int (length (filter (\<lambda>cols. cols = []) (take (Suc i) ps)))"
  proof -
    have "mat_rem_nrows mat = int (mat_nrows mat) - int (length (filter (\<lambda>cols. cols = []) (take i ps)))"
      using inv unfolding read_inv_def by blast
    then show ?thesis by (simp add: mat' rn tk)
  qed
  moreover have "\<forall>k < mat_ncols mat. mat_R mat' ! k = (if 0 \<le> mat_wt mat ! k then Some (rows_of_col ps (Suc i) k) else None)"
  proof (intro allI impI)
    fix k assume k: "k < mat_ncols mat"
    have R: "mat_R mat ! k = (if 0 \<le> mat_wt mat ! k then Some (rows_of_col ps i k) else None)" using inv k unfolding read_inv_def by blast
    have "0 < mat_wt mat ! k" if "int k \<in> set (ps ! i)" "0 \<le> mat_wt mat ! k"
    proof -
      have "mat_wt mat ! k = col_count ps k" using rdy k that(2) unfolding read_ready_def f by blast
      moreover have "0 \<le> int (length (rows_of_col ps i k))" by simp
      ultimately show ?thesis using length_rows_of_col_less [OF l(1) that(1)] by linarith
    qed
    then show "mat_R mat' ! k = (if 0 \<le> mat_wt mat ! k then Some (rows_of_col ps (Suc i) k) else None)"
      using k R by (auto simp: mat' after_row_def rows_of_col_Suc)
  qed
  moreover have "\<forall>k < Suc i. mat_rows mat' ! k = stored_row heavy (mat_wt mat) (ps ! k)"
  proof (intro allI impI)
    fix k assume "k < Suc i"
    moreover have "k < i \<Longrightarrow> mat_rows mat ! k = stored_row heavy (mat_wt mat) (ps ! k)" "length (mat_rows mat) = mat_nrows mat"
      using inv unfolding read_inv_def by blast+
    ultimately show "mat_rows mat' ! k = stored_row heavy (mat_wt mat) (ps ! k)"
      using i f(3) by (cases "k = i") (auto simp: mat')
  qed
  moreover have "\<forall>k < mat_nrows mat. mat_wburied mat' ! k = (if k < Suc i then int (length (filter (buried heavy) (ps ! k))) else 0)"
  proof (intro allI impI)
    fix k assume k: "k < mat_nrows mat"
    then have "mat_wburied mat ! k = (if k < i then int (length (filter (buried heavy) (ps ! k))) else 0)" "length (mat_wburied mat) = mat_nrows mat"
      using inv unfolding read_inv_def by blast+
    then show "mat_wburied mat' ! k = (if k < Suc i then int (length (filter (buried heavy) (ps ! k))) else 0)"
      using k by (cases "k = i") (auto simp: mat' after_row_def)
  qed
  ultimately show ?thesis unfolding read_inv_def f' by (intro conjI) simp_all
qed

lemma distinct_imp_adj: "distinct xs \<Longrightarrow> distinct_adj xs"
  by (induction xs rule: induct_list012) auto

lemma distinct_adj_sort: "distinct xs \<Longrightarrow> distinct_adj (sort xs)"
  by (rule distinct_imp_adj) simp

lemma row_ok_sort: "distinct xs \<Longrightarrow> row_ok (sort xs)"
  by (simp add: row_ok_def strict_sorted_iff)

text \<open>The size of the buffer when a row has been read, and the rows that fit in it: their columns that are not buried, \<open>hv\<close>, are counted.\<close>

definition next_lbuf :: "nat \<Rightarrow> int list \<Rightarrow> nat" where
  "next_lbuf lbuf cols = (if length cols > lbuf then 2 * lbuf else lbuf)"

fun rows_fit :: "(int \<Rightarrow> bool) \<Rightarrow> nat \<Rightarrow> int list list \<Rightarrow> bool" where
  "rows_fit hv lbuf [] = True"
| "rows_fit hv lbuf (cols # ps) \<longleftrightarrow>
     length (filter (\<lambda>j. \<not> hv j) cols) \<le> next_lbuf lbuf cols \<and> rows_fit hv (next_lbuf lbuf cols) ps"

lemma rows_fit_short:
  "\<forall>cols \<in> set ps. length cols \<le> 200 \<Longrightarrow> 100 \<le> lbuf \<Longrightarrow> rows_fit hv lbuf ps"
proof (induction ps arbitrary: lbuf)
  case (Cons cols ps)
  have "length (filter (\<lambda>j. \<not> hv j) cols) \<le> length cols" by simp
  also have "length cols \<le> next_lbuf lbuf cols" using Cons.prems by (auto simp: next_lbuf_def)
  finally have "length (filter (\<lambda>j. \<not> hv j) cols) \<le> next_lbuf lbuf cols" .
  moreover have "100 \<le> next_lbuf lbuf cols" using Cons.prems(2) by (simp add: next_lbuf_def)
  ultimately show ?case using Cons by simp
qed simp

lemma rows_fit_cong: "(\<And>cols j. cols \<in> set ps \<Longrightarrow> j \<in> set cols \<Longrightarrow> hv j = hv' j) \<Longrightarrow> rows_fit hv lbuf ps = rows_fit hv' lbuf ps"
proof (induction ps arbitrary: lbuf)
  case (Cons cols ps)
  have "filter (\<lambda>j. \<not> hv j) cols = filter (\<lambda>j. \<not> hv' j) cols" using Cons.prems by (intro filter_cong) auto
  moreover have "rows_fit hv (next_lbuf lbuf cols) ps = rows_fit hv' (next_lbuf lbuf cols) ps" using Cons.prems by (intro Cons.IH) auto
  ultimately show ?case by simp
qed simp

lemma read_row_fits:
  assumes "read_row heavy lbuf mat i js buf nb = Some x" "length buf \<le> lbuf"
  shows "length buf + length (filter (\<lambda>j. \<not> buried heavy j) js) \<le> lbuf"
  using assms
proof (induction js arbitrary: mat buf nb)
  case (Cons j js)
  obtain w h where at: "at (mat_wt mat) j = Some w" "at heavy j = Some h"
    using Cons.prems(1) by (cases "at (mat_wt mat) j"; cases "at heavy j") auto
  have h: "h = buried heavy j" using at(2) by (auto simp: at_def split: if_splits)
  show ?case
  proof (cases h)
    case True
    obtain m where "read_row heavy lbuf m i js buf (if w < 0 then nb + 1 else nb) = Some x"
      using Cons.prems(1) at True by (auto simp: Let_def bind_eq_Some_conv)
    then show ?thesis using Cons.IH Cons.prems(2) True h by simp
  next
    case False
    have l: "length buf < lbuf" using Cons.prems(1) at False by (auto simp: Let_def split: if_splits)
    obtain m where "read_row heavy lbuf m i js (buf @ [j]) (if w < 0 then nb + 1 else nb) = Some x"
      using Cons.prems(1) at False l by (auto simp: Let_def bind_eq_Some_conv split: if_splits)
    then show ?thesis using Cons.IH [of m "buf @ [j]"] False h l by simp
  qed
qed simp

lemma read_step:
  assumes inv: "read_inv heavy ps mat0 i mat" and rdy: "read_ready heavy ps mat0" and i: "i < mat_nrows mat0"
    and lb: "length (filter (\<lambda>j. \<not> buried heavy j) cols) \<le> next_lbuf lbuf cols" and ps: "ps ! i = cols"
  shows "\<exists>mat'. read_rows heavy lbuf mat i (cols # qs) = read_rows heavy (next_lbuf lbuf cols) mat' (Suc i) qs \<and> read_inv heavy ps mat0 (Suc i) mat'"
proof (cases "cols = []")
  case True
  let ?m = "mat \<lparr> mat_rows := (mat_rows mat)[i := None], mat_rem_nrows := mat_rem_nrows mat - 1 \<rparr>"
  have "after_row heavy i [] mat = mat"
  proof (rule filter_matrix.equality)
    have "length (mat_R mat) = mat_ncols mat" using inv unfolding read_inv_def by blast
    then show "mat_R (after_row heavy i [] mat) = mat_R mat" by (simp add: after_row_def list_eq_iff_nth_eq)
    show "mat_weight (after_row heavy i [] mat) = mat_weight mat" using inv unfolding read_inv_def by (simp add: after_row_def)
  qed (simp_all add: after_row_def)
  then have "read_inv heavy ps mat0 (Suc i) ?m"
    using read_inv_next [OF inv rdy i refl refl] ps True by (simp add: stored_row_def)
  moreover have "i < mat_nrows mat" using i read_inv_frame(3) [OF inv] by simp
  ultimately show ?thesis using True by (auto simp: next_lbuf_def)
next
  case False
  note f = read_inv_frame [OF inv]
  have l: "i < length ps" "cols \<in> set ps" using rdy i ps by (auto simp: read_ready_def)
  then have c: "distinct cols" "set cols \<subseteq> {0..<int (mat_ncols mat0)}" using rdy by (auto simp: read_ready_def stream_ok_def)
  let ?lb = "next_lbuf lbuf cols"
  have lens: "length (mat_wt mat) = mat_ncols mat" "length heavy = mat_ncols mat" "length (mat_R mat) = mat_ncols mat" "length (mat_wburied mat) = mat_nrows mat"
      "0 \<le> mat_weight mat" "mat_weight mat < 2 ^ 64"
    using inv rdy unfolding read_inv_def read_ready_def f by blast+
  have hv: "mat_wt mat ! nat j \<le> 0" if "j \<in> set cols" "buried heavy j" for j
  proof -
    have "nat j < mat_ncols mat0" using c(2) that(1) by (auto simp: subset_iff)
    then show ?thesis using rdy that(2) unfolding read_ready_def f(1) by force
  qed
  have cap: "\<exists>r. mat_R mat ! nat j = Some r \<and> int (length r) < mat_wt mat ! nat j" if "j \<in> set cols" "mat_wt mat ! nat j > 0" for j
  proof -
    have j: "nat j < mat_ncols mat0" "0 \<le> mat_wt mat ! nat j" "int (nat j) \<in> set (ps ! i)" using c(2) that ps by (auto simp: subset_iff)
    have "mat_R mat ! nat j = Some (rows_of_col ps i (nat j))" using inv j(1,2) unfolding read_inv_def f by simp
    moreover have "mat_wt mat ! nat j = col_count ps (nat j)" using rdy j(1,2) unfolding read_ready_def f(1) by blast
    ultimately show ?thesis using length_rows_of_col_less [OF l(1) j(3)] by simp
  qed
  have row: "read_row heavy ?lb mat i cols [] 0
      = Some (after_row heavy i cols mat, [] @ filter (\<lambda>j. \<not> buried heavy j) cols, 0 + length (filter (\<lambda>j. mat_wt mat ! nat j < 0) cols))"
    using c i lb hv cap lens unfolding f(2) [symmetric] f(3) [symmetric] by (intro read_row_val) auto
  let ?m = "(after_row heavy i cols mat) \<lparr> mat_rows := (mat_rows mat)[i := stored_row heavy (mat_wt mat) cols] \<rparr>"
  have m: "?m = (after_row heavy i cols mat) \<lparr> mat_rows := (mat_rows mat)[i := stored_row heavy (mat_wt mat) cols], mat_rem_nrows := mat_rem_nrows mat \<rparr>"
    by (rule filter_matrix.equality) (simp_all add: after_row_def)
  have "read_inv heavy ps mat0 (Suc i) ?m"
    by (rule ssubst [OF m], rule read_inv_next [OF inv rdy i]) (simp_all add: ps False)
  moreover have "read_rows heavy lbuf mat i (cols # qs) = read_rows heavy ?lb ?m (Suc i) qs"
  proof -
    have all: "length (filter (\<lambda>j. mat_wt mat ! nat j < 0) cols) = length cols \<longleftrightarrow> (\<forall>j \<in> set cols. mat_wt mat ! nat j < 0)"
      by (metis (no_types, lifting) filter_True filter_id_conv length_filter_less less_irrefl)
    have "distinct_adj (sort (filter (\<lambda>j. \<not> buried heavy j) cols))" using c(1) by (intro distinct_adj_sort) simp
    moreover have "i < mat_nrows mat" using i f(3) by simp
    ultimately show ?thesis using False row all by (simp add: Let_def stored_row_def sort_cmp_eq next_lbuf_def)
  qed
  ultimately show ?thesis by blast
qed

lemma read_rows_ok:
  assumes "read_inv heavy ps mat0 i mat" and rdy: "read_ready heavy ps mat0" and "rows_fit (buried heavy) lbuf qs" "drop i ps = qs" "i + length qs = length ps"
  shows "\<exists>mat'. read_rows heavy lbuf mat i qs = Some mat' \<and> read_inv heavy ps mat0 (length ps) mat'"
  using assms(1,3-5)
proof (induction qs arbitrary: i mat lbuf)
  case Nil
  then show ?case by simp
next
  case (Cons cols qs)
  have i: "i < length ps" "length ps = mat_nrows mat0" using Cons.prems(4) rdy by (simp_all add: read_ready_def)
  have d: "ps ! i = cols" "drop (Suc i) ps = qs" using Cons.prems(3) i(1) by (simp_all add: Cons_nth_drop_Suc [symmetric])
  have fit: "length (filter (\<lambda>j. \<not> buried heavy j) cols) \<le> next_lbuf lbuf cols" "rows_fit (buried heavy) (next_lbuf lbuf cols) qs"
    using Cons.prems(2) by simp_all
  obtain m' where m': "read_rows heavy lbuf mat i (cols # qs) = read_rows heavy (next_lbuf lbuf cols) m' (Suc i) qs" "read_inv heavy ps mat0 (Suc i) m'"
    using read_step [OF Cons.prems(1) rdy _ fit(1) d(1)] i by metis
  then show ?case using Cons.IH [OF m'(2) fit(2) d(2)] Cons.prems(4) by simp
qed

text \<open>A row that does not fit is written past the end of the buffer.\<close>

lemma read_rows_overflow:
  assumes "read_inv heavy ps mat0 i mat" and rdy: "read_ready heavy ps mat0" and "\<not> rows_fit (buried heavy) lbuf qs" "drop i ps = qs" "i + length qs = length ps"
  shows "read_rows heavy lbuf mat i qs = None"
  using assms(1,3-5)
proof (induction qs arbitrary: i mat lbuf)
  case (Cons cols qs)
  have i: "i < length ps" "length ps = mat_nrows mat0" using Cons.prems(4) rdy by (simp_all add: read_ready_def)
  have d: "ps ! i = cols" "drop (Suc i) ps = qs" using Cons.prems(3) i(1) by (simp_all add: Cons_nth_drop_Suc [symmetric])
  show ?case
  proof (cases "length (filter (\<lambda>j. \<not> buried heavy j) cols) \<le> next_lbuf lbuf cols")
    case True
    then have "\<not> rows_fit (buried heavy) (next_lbuf lbuf cols) qs" using Cons.prems(2) by simp
    moreover obtain m' where m': "read_rows heavy lbuf mat i (cols # qs) = read_rows heavy (next_lbuf lbuf cols) m' (Suc i) qs" "read_inv heavy ps mat0 (Suc i) m'"
      using read_step [OF Cons.prems(1) rdy _ True d(1)] i by metis
    ultimately show ?thesis using Cons.IH [OF m'(2) _ d(2)] Cons.prems(4) by simp
  next
    case False
    then have "cols \<noteq> []" by auto
    moreover have "read_row heavy (next_lbuf lbuf cols) mat i cols [] 0 = None"
      using read_row_fits [of heavy "next_lbuf lbuf cols" mat i cols "[]" 0] False by (cases "read_row heavy (next_lbuf lbuf cols) mat i cols [] 0") auto
    ultimately show ?thesis by (simp add: next_lbuf_def Let_def)
  qed
qed simp

definition kept_row :: "nat \<Rightarrow> int list list \<Rightarrow> int list \<Rightarrow> row option" where
  "kept_row cwmax ps cols =
     (if \<forall>j \<in> set cols. col_count ps (nat j) > int cwmax then None
      else Some (sort (filter (\<lambda>j. col_count ps (nat j) \<le> max (int cwmax) (int (length ps) div 2000)) cols)))"

lemma fill_inv_wt:
  assumes "fill_inv c mat0 (mat_ncols mat) mat" "j < mat_ncols mat"
  shows "mat_wt mat ! j = (if c j \<le> int (mat_cwmax mat) then c j else - c j)" "0 \<le> c j"
    and "0 \<le> mat_wt mat ! j \<longleftrightarrow> c j \<le> int (mat_cwmax mat)"
proof -
  show w: "mat_wt mat ! j = (if c j \<le> int (mat_cwmax mat) then c j else - c j)" and c: "0 \<le> c j"
    using assms unfolding fill_inv_def by auto
  show "0 \<le> mat_wt mat ! j \<longleftrightarrow> c j \<le> int (mat_cwmax mat)" using c unfolding w by auto
qed

lemma fillmat_load:
  assumes "stream_ok (mat_ncols mat) ps" "store_ok (mat_store mat)"
  shows "\<exists>mat'. fillmat (initSWAR A (filter_matrix_read_weights (initMat rows R mat) ps)) = Some mat'
     \<and> (\<exists>mat0. fill_inv (col_count ps) mat0 (mat_ncols mat) mat')
     \<and> (\<exists>w r a s S. mat' = (initMat rows R mat) \<lparr> mat_wt := w, mat_R := r, mat_S := S, mat_A := a, mat_store := s \<rparr>)"
proof -
  let ?n = "mat_ncols mat" and ?m0 = "initMat rows R mat"
  let ?m1 = "?m0 \<lparr> mat_wt := map (\<lambda>k. mat_wt ?m0 ! k + col_count ps k) [0..<?n] \<rparr>"
  have m1: "filter_matrix_read_weights ?m0 ps = ?m1" using read_weights_val [of ?n ps ?m0] assms(1) by (simp add: initMat_def)
  have "store_ok (mat_store ?m1)" using assms(2) by (simp add: initMat_def)
  from initSWAR_val [OF this, of A "\<lambda>j. nat (col_count ps j)"]
  obtain S s where m2: "initSWAR A ?m1 = ?m1 \<lparr> mat_S := S, mat_A := malloc_array A (mat_ncols ?m1), mat_store := s \<rparr>"
      "length S = mat_cwmax ?m1 + 2" "stacks S (replicate (mat_ncols ?m1) None) s (\<lambda>j. nat (col_count ps j)) (\<lambda>_. [])" by blast
  let ?m2 = "?m1 \<lparr> mat_S := S, mat_A := malloc_array A (mat_ncols ?m1), mat_store := s \<rparr>"
  have dims: "mat_ncols ?m2 = ?n" by (simp add: initMat_def)
  have none: "map (\<lambda>j. if j < 0 then mat_A ?m2 ! j else None) [0..<mat_ncols ?m2] = replicate (mat_ncols ?m1) None"
    by (simp add: list_eq_iff_nth_eq)
  have "fill_inv (col_count ps) ?m2 0 ?m2"
    unfolding fill_inv_def none
  proof (intro conjI)
    show "\<exists>w r a s. ?m2 = ?m2 \<lparr> mat_wt := w, mat_R := r, mat_A := a, mat_store := s \<rparr>"
      by (intro exI [of _ "mat_wt ?m2"] exI [of _ "mat_R ?m2"] exI [of _ "mat_A ?m2"] exI [of _ "mat_store ?m2"]) simp
    show "\<exists>L. stacks (mat_S ?m2) (replicate (mat_ncols ?m1) None) (mat_store ?m2) (\<lambda>j. nat (col_count ps j)) L" using m2(3) by auto
  qed (use m2(2) in \<open>simp_all add: initMat_def\<close>)
  from fillmat_loop_ok [OF this dims]
  obtain mat' where m': "fillmat_loop ?m2 [0..<?n] = Some mat'" "fill_inv (col_count ps) ?m2 ?n mat'" by auto
  then have "\<exists>w r a s. mat' = ?m2 \<lparr> mat_wt := w, mat_R := r, mat_A := a, mat_store := s \<rparr>" unfolding fill_inv_def by blast
  then obtain w r a s' where "mat' = ?m2 \<lparr> mat_wt := w, mat_R := r, mat_A := a, mat_store := s' \<rparr>" by blast
  then have "mat' = ?m0 \<lparr> mat_wt := w, mat_R := r, mat_S := S, mat_A := a, mat_store := s' \<rparr>"
    by (intro filter_matrix.equality) simp_all
  then show ?thesis using m' unfolding fillmat_def m1 m2(1) dims by blast
qed

lemma buried_iff:
  assumes "fill_inv c mat0 (mat_ncols mat) mat" "k < mat_ncols mat"
  shows "tooheavy_array mat ! k \<longleftrightarrow> c k > max (int (mat_cwmax mat)) (int (mat_nrows mat) div 2000)"
proof -
  have h: "tooheavy_array mat ! k = (mat_wt mat ! k < - (int (mat_nrows mat) div 2000))" using assms(2) by (simp add: tooheavy_array_def)
  have d: "0 \<le> int (mat_nrows mat) div 2000" by simp
  show ?thesis unfolding h fill_inv_wt(1) [OF assms] using fill_inv_wt(2) [OF assms] d by (auto simp: max_def)
qed

lemma stored_kept:
  assumes fi: "fill_inv (col_count ps) mat0 (mat_ncols mat) mat" and ps: "length ps = mat_nrows mat" and cols: "set cols \<subseteq> {0..<int (mat_ncols mat)}"
  shows "stored_row (tooheavy_array mat) (mat_wt mat) cols = kept_row (mat_cwmax mat) ps cols"
proof -
  have "mat_wt mat ! nat j < 0 \<longleftrightarrow> col_count ps (nat j) > int (mat_cwmax mat)"
       "buried (tooheavy_array mat) j \<longleftrightarrow> \<not> col_count ps (nat j) \<le> max (int (mat_cwmax mat)) (int (length ps) div 2000)"
    if "j \<in> set cols" for j
  proof -
    have k: "nat j < mat_ncols mat" using cols that by (auto simp: subset_iff)
    show "mat_wt mat ! nat j < 0 \<longleftrightarrow> col_count ps (nat j) > int (mat_cwmax mat)" using fill_inv_wt(3) [OF fi k] by linarith
    show "buried (tooheavy_array mat) j \<longleftrightarrow> \<not> col_count ps (nat j) \<le> max (int (mat_cwmax mat)) (int (length ps) div 2000)"
      unfolding buried_iff [OF fi k] ps by linarith
  qed
  then show ?thesis unfolding stored_row_def kept_row_def by (simp cong: filter_cong)
qed

lemma loaded_ok:
  assumes fi: "fill_inv (col_count ps) mat0 (mat_ncols mat) mat" and inv: "read_inv (tooheavy_array mat) ps mat4 (length ps) mat'"
    and s: "stream_ok (mat_ncols mat) ps" and ps: "length ps = mat_nrows mat"
    and m4: "mat4 = mat \<lparr> mat_nburied := b, mat_rem_nrows := r, mat_weight := w \<rparr>"
  shows "matrix_ok mat'"
proof -
  let ?n = "mat_ncols mat" and ?M = "row_sets (mat_rows mat')"
  note f = read_inv_frame [OF inv, unfolded m4, simplified]
  have len: "length (mat_rows mat') = mat_nrows mat" "length (mat_wburied mat') = mat_nrows mat" "length (mat_R mat') = ?n"
    using inv unfolding read_inv_def by (simp_all add: f)
  have cols: "distinct (ps ! i)" "set (ps ! i) \<subseteq> {0..<int ?n}" if "i < mat_nrows mat" for i using s that ps by (simp_all add: stream_ok_def)
  have row: "mat_rows mat' ! i = kept_row (mat_cwmax mat) ps (ps ! i)" if "i < mat_nrows mat" for i
  proof -
    have "mat_rows mat' ! i = stored_row (tooheavy_array mat) (mat_wt mat) (ps ! i)" using inv that ps unfolding read_inv_def by (simp add: f)
    then show ?thesis using stored_kept [OF fi ps cols(2) [OF that]] by simp
  qed
  have M: "?M i = (if i < mat_nrows mat then case kept_row (mat_cwmax mat) ps (ps ! i) of None \<Rightarrow> {} | Some r \<Rightarrow> set r else {})" for i
    using row len(1) by (simp add: row_sets_def row_at_def)
  have sub: "?M i \<subseteq> {0..<int ?n}" for i using cols(2) [of i] unfolding M by (auto simp: kept_row_def subset_iff)
  have light: "rows_with ?M k = {i. i < mat_nrows mat \<and> int k \<in> set (ps ! i)}" if "col_count ps k \<le> int (mat_cwmax mat)" for k
    using that unfolding rows_with_def M by (force simp: kept_row_def split: if_splits)
  have A: "(if col_count ps k \<le> int (mat_cwmax mat) then mat_A mat ! k \<noteq> None else mat_A mat ! k = None)" if "k < ?n" for k
    using fi that unfolding fill_inv_def by auto
  have R: "mat_R mat' ! k = (if col_count ps k \<le> int (mat_cwmax mat) then Some (rows_of_col ps (length ps) k) else None)" if "k < ?n" for k
    using inv that fill_inv_wt(3) [OF fi that] unfolding read_inv_def by (simp add: f)
  have "col_ok ?M mat' k" if k: "k < ?n" for k
  proof (cases "col_count ps k \<le> int (mat_cwmax mat)")
    case True
    have lv: "live (rows_of_col ps (length ps) k) = rows_of_col ps (length ps) k" by (auto simp: live_def rows_of_col_def filter_map comp_def)
    have "distinct (rows_of_col ps (length ps) k)" by (simp add: rows_of_col_def distinct_map)
    moreover have "set (rows_of_col ps (length ps) k) = int ` rows_with ?M k" unfolding light [OF True] by (auto simp: rows_of_col_def ps)
    moreover have "mat_wt mat' ! k = int (length (rows_of_col ps (length ps) k))"
      using fill_inv_wt(1) [OF fi k] True by (simp add: f length_rows_of_col)
    ultimately show ?thesis using A [OF k] True R [OF k] unfolding col_ok_def by (auto simp: f lv)
  next
    case False
    then show ?thesis using A [OF k] R [OF k] fill_inv_wt(3) [OF fi k] unfolding col_ok_def by (simp add: f)
  qed
  moreover have "\<exists>L. stacks (mat_S mat') (mat_A mat') (mat_store mat') (level mat') L"
  proof -
    obtain L where "stacks (mat_S mat) (map (\<lambda>j. if j < ?n then mat_A mat ! j else None) [0..<?n]) (mat_store mat) (\<lambda>j. nat (col_count ps j)) L"
      using fi unfolding fill_inv_def by blast
    moreover have lA: "length (mat_A mat) = ?n" using fi unfolding fill_inv_def by blast
    moreover have "map (\<lambda>j. if j < ?n then mat_A mat ! j else None) [0..<?n] = mat_A mat" using lA by (simp add: list_eq_iff_nth_eq)
    ultimately have "stacks (mat_S mat) (mat_A mat) (mat_store mat) (\<lambda>j. nat (col_count ps j)) L" by simp
    then have "stacks (mat_S mat) (mat_A mat) (mat_store mat) (level mat') L"
    proof (rule stacks_lev_cong)
      fix k assume k: "k < length (mat_A mat)" "mat_A mat ! k \<noteq> None"
      then have "col_count ps k \<le> int (mat_cwmax mat)" using A [of k] lA by (metis)
      then show "level mat' k = nat (col_count ps k)" using fill_inv_wt(1) [OF fi, of k] k lA by (simp add: level_def f)
    qed
    then show ?thesis by (auto simp: f)
  qed
  moreover have "dims_ok ?M mat'"
    using fi len sub M unfolding dims_ok_def fill_inv_def by (simp add: f)
  ultimately have "mat_ok ?M mat'" by (simp add: mat_ok_def f)
  moreover have "row_ok r" if "row_at (mat_rows mat') i = Some r" for i r
  proof -
    have i: "i < mat_nrows mat" "kept_row (mat_cwmax mat) ps (ps ! i) = Some r" using that row len(1) by (auto simp: row_at_def split: if_splits)
    then show ?thesis using row_ok_sort [OF distinct_filter [OF cols(1) [OF i(1)]]] by (auto simp: kept_row_def split: if_splits)
  qed
  ultimately show ?thesis by (simp add: matrix_ok_def)
qed

lemma loaded_rows:
  assumes fi: "fill_inv (col_count ps) mat0 (mat_ncols mat) mat" and inv: "read_inv (tooheavy_array mat) ps mat4 (length ps) mat'"
    and s: "stream_ok (mat_ncols mat) ps" and ps: "length ps = mat_nrows mat"
    and m4: "mat4 = mat \<lparr> mat_nburied := b, mat_rem_nrows := r, mat_weight := w \<rparr>"
  shows "mat_rows mat' = map (kept_row (mat_cwmax mat) ps) ps"
    and "mat_wburied mat' = map (\<lambda>cols. int (length (filter (\<lambda>j. col_count ps (nat j) > max (int (mat_cwmax mat)) (int (length ps) div 2000)) cols))) ps"
proof -
  let ?h = "tooheavy_array mat" and ?heavy = "\<lambda>j. col_count ps (nat j) > max (int (mat_cwmax mat)) (int (length ps) div 2000)"
  note f = read_inv_frame [OF inv, unfolded m4, simplified]
  have len: "length (mat_rows mat') = length ps" "length (mat_wburied mat') = length ps" using inv ps by (simp_all add: read_inv_def f)
  have sub: "set (ps ! i) \<subseteq> {0..<int (mat_ncols mat)}" if "i < length ps" for i using s that by (simp add: stream_ok_def)
  have "mat_rows mat' ! i = kept_row (mat_cwmax mat) ps (ps ! i)" if "i < length ps" for i
    using inv that stored_kept [OF fi ps sub [OF that]] unfolding read_inv_def by (simp add: f)
  then show "mat_rows mat' = map (kept_row (mat_cwmax mat) ps) ps" using len(1) by (intro nth_equalityI) simp_all
  have fb: "filter (buried ?h) (ps ! i) = filter ?heavy (ps ! i)" if "i < length ps" for i
  proof (rule filter_cong [OF refl])
    fix j assume "j \<in> set (ps ! i)"
    then have "nat j < mat_ncols mat" using sub [OF that] by (auto simp: subset_iff)
    then show "buried ?h j = ?heavy j" using buried_iff [OF fi] ps by simp
  qed
  have "mat_wburied mat' ! i = int (length (filter ?heavy (ps ! i)))" if "i < length ps" for i
  proof -
    have "mat_wburied mat' ! i = int (length (filter (buried ?h) (ps ! i)))" using inv ps that unfolding read_inv_def by (simp add: f)
    then show ?thesis unfolding fb [OF that] .
  qed
  then show "mat_wburied mat' = map (\<lambda>cols. int (length (filter ?heavy cols))) ps" using len(2) by (intro nth_equalityI) simp_all
qed

lemma loaded_wt:
  assumes "fill_inv c mat0 (mat_ncols mat) mat"
  shows "mat_wt mat = map (\<lambda>j. if c j \<le> int (mat_cwmax mat) then c j else - c j) [0..<mat_ncols mat]"
proof (rule nth_equalityI)
  show l: "length (mat_wt mat) = length (map (\<lambda>j. if c j \<le> int (mat_cwmax mat) then c j else - c j) [0..<mat_ncols mat])"
    using assms unfolding fill_inv_def by simp
  fix j assume "j < length (mat_wt mat)"
  then show "mat_wt mat ! j = map (\<lambda>j. if c j \<le> int (mat_cwmax mat) then c j else - c j) [0..<mat_ncols mat] ! j"
    using fill_inv_wt(1) [OF assms] l by simp
qed

text \<open>The state in which the second pass starts.\<close>

lemma read_start:
  assumes fi: "fill_inv (col_count ps) mat0 (mat_ncols mat) mat" and s: "stream_ok (mat_ncols mat) ps" and ps: "length ps = mat_nrows mat"
    and rows: "length (mat_rows mat) = mat_nrows mat" "mat_wburied mat = replicate (mat_nrows mat) 0"
    and m4: "mat4 = mat \<lparr> mat_nburied := b, mat_rem_nrows := int (mat_nrows mat), mat_weight := 0 \<rparr>"
  shows "read_ready (tooheavy_array mat) ps mat4" "read_inv (tooheavy_array mat) ps mat4 0 mat4"
proof -
  let ?h = "tooheavy_array mat"
  note wt = fill_inv_wt [OF fi]
  show "read_ready ?h ps mat4"
    unfolding read_ready_def
  proof (intro conjI allI impI)
    show "length (mat_wt mat4) = mat_ncols mat4" using fi by (simp add: m4 fill_inv_def)
    fix k assume "k < mat_ncols mat4"
    then have k: "k < mat_ncols mat" by (simp add: m4)
    have "0 \<le> int (mat_nrows mat) div 2000" by simp
    then show "?h ! k \<Longrightarrow> mat_wt mat4 ! k < 0" using k by (simp add: m4 tooheavy_array_def)
    show "0 \<le> mat_wt mat4 ! k \<Longrightarrow> mat_wt mat4 ! k = col_count ps k" using wt(1,3) [OF k] by (simp add: m4)
  qed (use s ps in \<open>simp_all add: m4 tooheavy_array_def\<close>)
  show "read_inv ?h ps mat4 0 mat4"
    unfolding read_inv_def
  proof (intro conjI)
    show "\<exists>rn rs wb we r. mat4 = mat4 \<lparr> mat_rem_nrows := rn, mat_rows := rs, mat_wburied := wb, mat_weight := we, mat_R := r \<rparr>"
      by (intro exI [of _ "mat_rem_nrows mat4"] exI [of _ "mat_rows mat4"] exI [of _ "mat_wburied mat4"]
          exI [of _ "mat_weight mat4"] exI [of _ "mat_R mat4"]) simp
    show "\<forall>k < mat_ncols mat4. mat_R mat4 ! k = (if 0 \<le> mat_wt mat4 ! k then Some (rows_of_col ps 0 k) else None)"
    proof (intro allI impI)
      fix k assume "k < mat_ncols mat4"
      then have k: "k < mat_ncols mat" by (simp add: m4)
      then have "if col_count ps k \<le> int (mat_cwmax mat) then mat_R mat ! k = Some [] else mat_R mat ! k = None"
        using fi unfolding fill_inv_def by auto
      then show "mat_R mat4 ! k = (if 0 \<le> mat_wt mat4 ! k then Some (rows_of_col ps 0 k) else None)"
        using wt(3) [OF k] by (auto simp: m4 rows_of_col_def split: if_splits)
    qed
  qed (use fi rows in \<open>simp_all add: m4 fill_inv_def\<close>)
qed

section \<open>Properties\<close>

text \<open>C39: Loading a matrix.  For a stream of \<open>nrows\<close> rows of at most 200 distinct columns each,
  the calls \<open>initMat\<close>, \<open>filter_matrix_read_weights\<close>, \<open>initSWAR\<close>, \<open>fillmat\<close> and \<open>filter_matrix_read\<close> of
  \<open>main\<close> succeed whatever the allocated memory holds, and the matrix is coherent.  The weight of a column is
  the number of its rows, negated above \<open>cwmax\<close>.  A row all of whose columns are heavier than
  \<open>cwmax\<close> is dropped; of any other row, the columns that are not buried are stored, sorted, and the
  buried ones are counted.\<close>

theorem load_matrix_correct:
  assumes "stream_ok (mat_ncols mat) ps" and "length ps = mat_nrows mat" and "\<forall>cols \<in> set ps. length cols \<le> 200"
    and "store_ok (mat_store mat)"
  shows "\<exists>mat'. load_matrix rows R A mat ps = Some mat' \<and> matrix_ok mat'
     \<and> mat_rows mat' = map (kept_row (mat_cwmax mat) ps) ps
     \<and> mat_wt mat' = map (\<lambda>j. if col_count ps j \<le> int (mat_cwmax mat) then col_count ps j else - col_count ps j) [0..<mat_ncols mat]
     \<and> mat_wburied mat' = map (\<lambda>cols. int (length (filter (\<lambda>j. col_count ps (nat j) > max (int (mat_cwmax mat)) (int (length ps) div 2000)) cols))) ps
     \<and> mat_rem_nrows mat' = int (length (filter (\<lambda>cols. cols \<noteq> []) ps)) \<and> mat_rem_ncols mat' = int (mat_ncols mat)
     \<and> mat_weight mat' = (\<Sum>cols \<leftarrow> ps. int (length cols)) mod 2 ^ 64"
proof -
  obtain m3 mat0 w r a s S where m3: "fillmat (initSWAR A (filter_matrix_read_weights (initMat rows R mat) ps)) = Some m3"
      "fill_inv (col_count ps) mat0 (mat_ncols mat) m3"
      "m3 = (initMat rows R mat) \<lparr> mat_wt := w, mat_R := r, mat_S := S, mat_A := a, mat_store := s \<rparr>"
    using fillmat_load [OF assms(1,4), where A = A and R = R and rows = rows] by blast
  have f3: "mat_ncols m3 = mat_ncols mat" "mat_nrows m3 = mat_nrows mat" "mat_cwmax m3 = mat_cwmax mat"
      "length (mat_rows m3) = mat_nrows m3" "mat_wburied m3 = replicate (mat_nrows m3) 0"
    by (simp_all add: m3(3) initMat_def)
  have fi: "fill_inv (col_count ps) mat0 (mat_ncols m3) m3" using m3(2) f3(1) by simp
  have ps: "stream_ok (mat_ncols m3) ps" "length ps = mat_nrows m3" using assms(1,2) f3 by simp_all
  let ?h = "tooheavy_array m3"
  define m4 where "m4 = m3 \<lparr> mat_nburied := int (length (filter (\<lambda>b. b) ?h)), mat_rem_nrows := int (mat_nrows m3), mat_weight := 0 \<rparr>"
  note start = read_start [OF fi ps f3(4,5) m4_def]
  have "rows_fit (buried ?h) 100 ps" using assms(3) by (intro rows_fit_short) simp_all
  with read_rows_ok [OF start(2,1), of 100 ps] obtain m5 where m5: "read_rows ?h 100 m4 0 ps = Some m5" "read_inv ?h ps m4 (length ps) m5" by auto
  let ?m = "m5 \<lparr> mat_rem_ncols := int (mat_ncols m5) \<rparr>"
  note f5 = read_inv_frame [OF m5(2), unfolded m4_def, simplified]
  have "load_matrix rows R A mat ps = Some ?m"
    using m3(1) m5(1) by (simp add: load_matrix_def filter_matrix_read_def Let_def m4_def)
  moreover have "matrix_ok m5" by (rule loaded_ok [OF fi m5(2) ps m4_def])
  then have "matrix_ok ?m" using mat_ok_cong [OF same_cols_simps(3)] by (simp add: matrix_ok_def)
  moreover note loaded_rows [OF fi m5(2) ps m4_def] loaded_wt [OF fi]
  moreover have "mat_rem_nrows ?m = int (length (filter (\<lambda>cols. cols \<noteq> []) ps))" "mat_weight ?m = (\<Sum>cols \<leftarrow> ps. int (length cols)) mod 2 ^ 64"
    using m5(2) sum_length_filter_compl [of "\<lambda>cols. cols = []" ps] assms(2) unfolding read_inv_def by (simp_all add: f5 f3)
  ultimately show ?thesis by (simp add: f5 f3)
qed

definition empty_matrix :: filter_matrix where
  "empty_matrix = \<lparr> mat_nrows = 2, mat_ncols = 3, mat_rem_nrows = 9, mat_rem_ncols = 9, mat_rows = [], mat_wt = [], mat_wburied = [],
     mat_nburied = 9, mat_weight = 9, mat_cwmax = 1, mat_rwmax = 100, mat_keep = 10, mat_R = [], mat_S = [], mat_A = [],
     mat_store = \<lparr> cells = Map.empty, brk = 7 \<rparr> \<rparr>"

theorem load_matrix_correct_witness:
  "\<exists>mat'. load_matrix (\<lambda>_. Some [5]) (\<lambda>_. None) (\<lambda>_. Some 8) empty_matrix [[2, 0], [0, 1]] = Some mat' \<and> matrix_ok mat'
     \<and> mat_rows mat' = [Some [2], Some [1]] \<and> mat_wt mat' = [- 2, 1, 1] \<and> mat_wburied mat' = [1, 1]"
proof -
  have "stream_ok (mat_ncols empty_matrix) [[2, 0], [0, 1]]" "length [[2, 0], [0, 1 :: int]] = mat_nrows empty_matrix" "store_ok (mat_store empty_matrix)"
    by (simp_all add: stream_ok_def empty_matrix_def store_ok_def)
  from load_matrix_correct [OF this(1,2) _ this(3), of "\<lambda>_. Some [5]" "\<lambda>_. None" "\<lambda>_. Some 8"]
  show ?thesis by (simp add: empty_matrix_def kept_row_def col_count_def numeral_3_eq_3 max_def) (fastforce simp: upt_rec)
qed

text \<open>C40: The line buffer of \<open>filter_matrix_read\<close> has 100 cells and is doubled once for a row that has more columns
  than cells.  For a stream of \<open>nrows\<close> rows of distinct columns, of any length, loading the matrix succeeds exactly when the columns of
  each row that are not buried, which are the ones written to the buffer, fit in it; in particular a first row with more than 200 of
  them is written past its end.\<close>

theorem load_matrix_buffer:
  assumes "stream_ok (mat_ncols mat) ps" and "length ps = mat_nrows mat" and "store_ok (mat_store mat)"
    and "hv = (\<lambda>j. col_count ps (nat j) > max (int (mat_cwmax mat)) (int (length ps) div 2000))"
  shows "(load_matrix rows R A mat ps \<noteq> None \<longleftrightarrow> rows_fit hv 100 ps)
     \<and> (ps \<noteq> [] \<longrightarrow> length (filter (\<lambda>j. \<not> hv j) (hd ps)) > 200 \<longrightarrow> load_matrix rows R A mat ps = None)"
proof -
  obtain m3 mat0 w r a s S where m3: "fillmat (initSWAR A (filter_matrix_read_weights (initMat rows R mat) ps)) = Some m3"
      "fill_inv (col_count ps) mat0 (mat_ncols mat) m3"
      "m3 = (initMat rows R mat) \<lparr> mat_wt := w, mat_R := r, mat_S := S, mat_A := a, mat_store := s \<rparr>"
    using fillmat_load [OF assms(1,3), where A = A and R = R and rows = rows] by blast
  have f3: "mat_ncols m3 = mat_ncols mat" "mat_nrows m3 = mat_nrows mat" "mat_cwmax m3 = mat_cwmax mat"
      "length (mat_rows m3) = mat_nrows m3" "mat_wburied m3 = replicate (mat_nrows m3) 0"
    by (simp_all add: m3(3) initMat_def)
  have fi: "fill_inv (col_count ps) mat0 (mat_ncols m3) m3" using m3(2) f3(1) by simp
  have ps: "stream_ok (mat_ncols m3) ps" "length ps = mat_nrows m3" using assms(1,2) f3 by simp_all
  let ?h = "tooheavy_array m3"
  define m4 where "m4 = m3 \<lparr> mat_nburied := int (length (filter (\<lambda>b. b) ?h)), mat_rem_nrows := int (mat_nrows m3), mat_weight := 0 \<rparr>"
  note start = read_start [OF fi ps f3(4,5) m4_def]
  have "load_matrix rows R A mat ps \<noteq> None \<longleftrightarrow> read_rows ?h 100 m4 0 ps \<noteq> None"
    using m3(1) by (cases "read_rows ?h 100 m4 0 ps") (simp_all add: load_matrix_def filter_matrix_read_def Let_def m4_def)
  moreover have "read_rows ?h 100 m4 0 ps \<noteq> None \<longleftrightarrow> rows_fit (buried ?h) 100 ps"
    using read_rows_ok [OF start(2,1), of 100 ps] read_rows_overflow [OF start(2,1), of 100 ps] by (cases "rows_fit (buried ?h) 100 ps") auto
  moreover have "rows_fit (buried ?h) 100 ps = rows_fit hv 100 ps"
  proof (rule rows_fit_cong)
    fix cols j assume "cols \<in> set ps" "j \<in> set cols"
    then have "j \<in> {0..<int (mat_ncols m3)}" using ps(1) unfolding stream_ok_def by blast
    then have "nat j < mat_ncols m3" by auto
    then show "buried ?h j = hv j" using buried_iff [OF fi] ps(2) f3 by (simp add: assms(4))
  qed
  ultimately have "load_matrix rows R A mat ps \<noteq> None \<longleftrightarrow> rows_fit hv 100 ps" by simp
  moreover have "\<not> rows_fit hv 100 ps" if "ps \<noteq> []" "length (filter (\<lambda>j. \<not> hv j) (hd ps)) > 200"
    using that by (cases ps) (auto simp: next_lbuf_def)
  ultimately show ?thesis by blast
qed

lemma col_count_single: "\<not> col_count [cols] k > max 1 (int (length [cols]) div 2000)"
  by (simp add: col_count_def)

text \<open>The limit is 200 columns in a first row, in the same state.\<close>

theorem load_matrix_buffer_witness:
  "load_matrix (\<lambda>_. Some [5]) (\<lambda>_. None) (\<lambda>_. Some 8) (empty_matrix \<lparr> mat_nrows := 1, mat_ncols := 300 \<rparr>) [map int [0..<200]] \<noteq> None
   \<and> load_matrix (\<lambda>_. Some [5]) (\<lambda>_. None) (\<lambda>_. Some 8) (empty_matrix \<lparr> mat_nrows := 1, mat_ncols := 300 \<rparr>) [map int [0..<201]] = None"
proof -
  let ?m = "empty_matrix \<lparr> mat_nrows := 1, mat_ncols := 300 \<rparr>"
  have a: "stream_ok (mat_ncols ?m) [map int [0..<n]]" "length [map int [0..<n]] = mat_nrows ?m" "store_ok (mat_store ?m)" if "n \<le> 300" for n
    using that by (auto simp: stream_ok_def empty_matrix_def store_ok_def distinct_map)
  have main: "load_matrix (\<lambda>_. Some [5]) (\<lambda>_. None) (\<lambda>_. Some 8) ?m [map int [0..<n]] \<noteq> None \<longleftrightarrow> n \<le> 200" if "n \<le> 300" for n
  proof -
    define hv where "hv = (\<lambda>j. col_count [map int [0..<n]] (nat j) > max (int (mat_cwmax ?m)) (int (length [map int [0..<n]]) div 2000))"
    have "\<not> hv j" for j using col_count_single [of "map int [0..<n]"] by (simp add: hv_def empty_matrix_def)
    then have "filter (\<lambda>j. \<not> hv j) cols = cols" for cols by simp
    then have "rows_fit hv 100 [map int [0..<n]] \<longleftrightarrow> n \<le> 200" by (simp only: rows_fit.simps length_map length_upt next_lbuf_def) simp
    then show ?thesis using load_matrix_buffer [OF a [OF that] hv_def, of "\<lambda>_. Some [5]" "\<lambda>_. None" "\<lambda>_. Some 8"] by blast
  qed
  show ?thesis using main [of 200] main [of 201] by (simp del: upt_Suc)
qed

end
