(* ===== verification/Matops.thy ===== *)
theory Matops
  imports Prelude
begin

text \<open>
  Model of the kernels of \<open>src/linalg/bwc/matops.c\<close>: products of vectors and matrices over GF(2).  A row vector of 64 bits
  is a word, a matrix with 64 columns the list of its rows, a \<open>mat64\<close> a list of 64 words.  The reference is \<open>vecmat\<close>,
  the product of a row vector and a matrix; every kernel is shown to compute products in this sense.
  The accesses of the SSE kernel on many rows, two words at a time, are checked against the bounds of the arrays.
\<close>

type_synonym mat64 = "ul list"

section \<open>The product of a row vector and a matrix\<close>

fun vecmat :: "ul \<Rightarrow> ul list \<Rightarrow> ul" where
  "vecmat a [] = 0"
| "vecmat a (b # B) = (if odd a then b else 0) XOR vecmat (drop_bit 1 a) B"

definition matmul :: "ul list \<Rightarrow> ul list \<Rightarrow> ul list" where
  "matmul A B = map (\<lambda>a. vecmat a B) A"

definition matadd :: "ul list \<Rightarrow> ul list \<Rightarrow> ul list" where
  "matadd A B = map2 (XOR) A B"

definition id64 :: mat64 where
  "id64 = map (\<lambda>i. 2 ^ i) [0..<64]"

definition transpose64 :: "mat64 \<Rightarrow> mat64" where
  "transpose64 B = map (\<lambda>i. word_of_int (horner_sum of_bool 2 (map (\<lambda>j. bit (B ! j) i) [0..<64]))) [0..<64]"

lemma vecmat_zero [simp]: "vecmat 0 B = 0"
  by (induction B) auto

lemma vecmat_xor: "vecmat (a XOR a') B = vecmat a B XOR vecmat a' B"
proof (induction B arbitrary: a a')
  case (Cons b B)
  show ?case using Cons [of "drop_bit 1 a" "drop_bit 1 a'"] by (auto simp: even_xor_iff drop_bit_xor ac_simps)
qed simp

lemma vecmat_assoc: "vecmat (vecmat a B) C = vecmat a (matmul B C)"
  by (induction B arbitrary: a) (auto simp: matmul_def vecmat_xor)

lemma matmul_assoc: "matmul (matmul A B) C = matmul A (matmul B C)"
  by (simp add: matmul_def vecmat_assoc [unfolded matmul_def])

lemma length_mat [simp]: "length (matmul A B) = length A" "length (matadd A B) = min (length A) (length B)" "length id64 = 64"
    "length (transpose64 B) = 64"
  by (simp_all add: matmul_def matadd_def id64_def transpose64_def)

lemma nth_mat [simp]: "i < length A \<Longrightarrow> matmul A B ! i = vecmat (A ! i) B"
    "i < length A \<Longrightarrow> i < length B \<Longrightarrow> matadd A B ! i = A ! i XOR B ! i" "i < 64 \<Longrightarrow> id64 ! i = 2 ^ i"
  by (simp_all add: matmul_def matadd_def id64_def)

lemma vecmat_matadd: "length B = length B' \<Longrightarrow> vecmat a (matadd B B') = vecmat a B XOR vecmat a B'"
  by (induction B B' arbitrary: a rule: list_induct2) (auto simp: matadd_def ac_simps)

lemma matmul_matadd: "length B = length B' \<Longrightarrow> matmul A (matadd B B') = matadd (matmul A B) (matmul A B')"
  by (induction A) (auto simp: matmul_def matadd_def vecmat_matadd [unfolded matadd_def])

lemma matadd_matmul: "length A = length A' \<Longrightarrow> matmul (matadd A A') B = matadd (matmul A B) (matmul A' B)"
  by (induction A A' rule: list_induct2) (auto simp: matmul_def matadd_def vecmat_xor)

lemma vecmat_append: "vecmat a (B @ C) = vecmat a B XOR vecmat (drop_bit (length B) a) C"
  by (induction B arbitrary: a) (auto simp: ac_simps)

lemma vecmat_take_bit: "length B \<le> n \<Longrightarrow> vecmat (take_bit n a) B = vecmat a B"
proof (induction B arbitrary: a n)
  case (Cons b B)
  obtain m where m: "n = Suc m" "length B \<le> m" using Cons.prems by (cases n) auto
  have "drop_bit 1 (take_bit n a) = take_bit m (drop_bit 1 a)" by (simp add: m(1) drop_bit_take_bit)
  then show ?case using Cons.IH [OF m(2)] m(1) by (simp add: even_take_bit_eq)
qed simp

text \<open>Parities of finite sequences of bits.\<close>

fun parity_upto :: "(nat \<Rightarrow> bool) \<Rightarrow> nat \<Rightarrow> bool" where
  "parity_upto f 0 = False"
| "parity_upto f (Suc n) = (f n \<noteq> parity_upto f n)"

lemma parity_upto_front: "parity_upto f (Suc n) = (f 0 \<noteq> parity_upto (\<lambda>i. f (Suc i)) n)"
  by (induction n) auto

lemma parity_upto_cong: "(\<And>i. i < n \<Longrightarrow> f i = g i) \<Longrightarrow> parity_upto f n = parity_upto g n"
  by (induction n) auto

lemma parity_upto_single: "parity_upto (\<lambda>i. i = k \<and> b) n = (k < n \<and> b)"
  by (induction n) auto

lemma parity_upto_False [simp]: "parity_upto (\<lambda>i. False) n = False"
  by (induction n) auto

lemma bit_vecmat: "bit (vecmat a B) j = parity_upto (\<lambda>k. bit a k \<and> bit (B ! k) j) (length B)"
proof (induction B arbitrary: a)
  case (Cons b B)
  have "bit (vecmat a (b # B)) j = ((bit a 0 \<and> bit b j) \<noteq> parity_upto (\<lambda>k. bit a (Suc k) \<and> bit (B ! k) j) (length B))"
    by (simp add: Cons bit_xor_iff bit_0 bit_drop_bit_eq)
  also have "\<dots> = parity_upto (\<lambda>k. bit a k \<and> bit ((b # B) ! k) j) (length (b # B))"
    by (simp only: list.size add_0_right add_Suc_right parity_upto_front) simp
  finally show ?case .
qed simp

lemma vecmat_id64: "vecmat a id64 = a"
proof (rule bit_word_eqI)
  fix j assume j: "j < LENGTH(64)"
  have "bit (vecmat a id64) j = parity_upto (\<lambda>k. bit a k \<and> bit (id64 ! k) j) 64" by (simp add: bit_vecmat)
  also have "\<dots> = parity_upto (\<lambda>k. k = j \<and> bit a j) 64"
    by (rule parity_upto_cong) (use j in \<open>auto simp: bit_exp_iff possible_bit_def\<close>)
  finally show "bit (vecmat a id64) j = bit a j" using j by (simp add: parity_upto_single)
qed

lemma matmul_id64 [simp]: "matmul A id64 = A"
  by (simp add: matmul_def vecmat_id64)

lemma vecmat_unit: "k < length B \<Longrightarrow> k < 64 \<Longrightarrow> vecmat (2 ^ k) B = B ! k"
proof (induction B arbitrary: k)
  case (Cons b B)
  show ?case
  proof (cases k)
    case (Suc k')
    have "drop_bit 1 (2 ^ k :: ul) = 2 ^ k'"
      using Cons.prems(2) Suc by (intro bit_word_eqI) (auto simp: bit_drop_bit_eq bit_exp_iff possible_bit_def simp del: power_Suc)
    moreover have "\<not> odd (2 ^ k :: ul)" by (simp add: Suc)
    ultimately show ?thesis using Cons Suc by simp
  qed simp
qed simp

lemma id64_matmul [simp]: "length B = 64 \<Longrightarrow> matmul id64 B = B"
  by (rule nth_equalityI) (simp_all add: vecmat_unit)

lemma bit_transpose64: "i < 64 \<Longrightarrow> bit (transpose64 B ! i) j = (j < 64 \<and> bit (B ! j) i)"
  by (auto simp: transpose64_def bit_word_of_int_iff bit_horner_sum_bit_iff)

section \<open>Products of one vector or of two square matrices\<close>

definition mul_6464_6464_v2 :: "mat64 \<Rightarrow> mat64 \<Rightarrow> mat64" where
  "mul_6464_6464_v2 A B =
     fold (\<lambda>i C. fold (\<lambda>j C. if drop_bit j (A ! i) AND 1 \<noteq> 0 then C[i := C ! i XOR B ! j] else C) [0..<64] C) [0..<64]
       (replicate 64 0)"

text \<open>One turn of the inner loop of the SSE kernels, on two vectors \<open>a\<close> at the same time.\<close>

definition sse_step :: "ul \<Rightarrow> (ul \<times> ul) \<times> (ul \<times> ul) \<Rightarrow> (ul \<times> ul) \<times> (ul \<times> ul)" where
  "sse_step b = (\<lambda>((c0, c1), (a0, a1)).
     ((c0 XOR (b AND - (a0 AND 1)), c1 XOR (b AND - (a1 AND 1))), (drop_bit 1 a0, drop_bit 1 a1)))"

definition mul_6464_6464_sse :: "mat64 \<Rightarrow> mat64 \<Rightarrow> mat64" where
  "mul_6464_6464_sse A B =
     fold (\<lambda>j C. let ((c0, c1), _) = fold (\<lambda>i. sse_step (B ! i)) [0..<64] ((0, 0), (A ! (2 * j), A ! (2 * j + 1)))
                 in C[2 * j := c0, 2 * j + 1 := c1]) [0..<32] (replicate 64 0)"

definition add_6464_6464_C :: "mat64 \<Rightarrow> mat64 \<Rightarrow> mat64 \<Rightarrow> mat64" where
  "add_6464_6464_C C A B = fold (\<lambda>j C. C[j := A ! j XOR B ! j]) [0..<64] C"

definition addmul_To64_o64_lsb :: "ul list \<Rightarrow> ul \<Rightarrow> ul \<Rightarrow> ul list" where
  "addmul_To64_o64_lsb r a w = fst (fold (\<lambda>i (r, a). (r[i := r ! i XOR (w AND - (a AND 1))], drop_bit 1 a)) [0..<64] (r, a))"

definition addmul_To64_o64_msb :: "ul list \<Rightarrow> ul \<Rightarrow> ul \<Rightarrow> ul list" where
  "addmul_To64_o64_msb r a w = fst (fold (\<lambda>i (r, a). (r[i := r ! i XOR (w AND signed_drop_bit 63 a)], push_bit 1 a)) [0..<64] (r, a))"

definition addmul_To64_o64_lsb_packof2 :: "ul list \<Rightarrow> ul \<Rightarrow> ul \<Rightarrow> ul list" where
  "addmul_To64_o64_lsb_packof2 r a w =
     (let mb = [[0, 0], [w, 0], [0, w], [w, w]]
      in fst (fold (\<lambda>i (r, a). let y = mb ! unat (a AND 3)
                                in (r[2 * i := r ! (2 * i) XOR y ! 0, 2 * i + 1 := r ! (2 * i + 1) XOR y ! 1], drop_bit 2 a)) [0..<32] (r, a)))"

definition addmul_To64_o64_lsb_sse_v1 :: "ul list \<Rightarrow> ul \<Rightarrow> ul \<Rightarrow> ul list" where
  "addmul_To64_o64_lsb_sse_v1 r a w =
     (let mb = [(0, 0), (w, 0), (0, w), (w, w)]
      in fst (fold (\<lambda>i (r, a). let (y0, y1) = mb ! unat (a AND 3)
                                in (r[2 * i := r ! (2 * i) XOR y0, 2 * i + 1 := r ! (2 * i + 1) XOR y1], drop_bit 2 a)) [0..<32] (r, a)))"

definition mul_o64_6464_C_lsb :: "ul \<Rightarrow> mat64 \<Rightarrow> ul" where
  "mul_o64_6464_C_lsb a w = fst (fold (\<lambda>i (c, a). (c XOR (w ! i AND - (a AND 1)), drop_bit 1 a)) [0..<64] (0, a))"

definition mul_o64_6464_C_msb :: "ul \<Rightarrow> mat64 \<Rightarrow> ul" where
  "mul_o64_6464_C_msb a w = fst (fold (\<lambda>i (c, a). (c XOR (w ! i AND signed_drop_bit 63 a), push_bit 1 a)) (rev [0..<64]) (0, a))"

definition builtin_parityl :: "ul \<Rightarrow> ul" where
  "builtin_parityl a = of_bool (parity_upto (bit a) 64)"

definition mul_o64_T6464_C_parity :: "ul \<Rightarrow> mat64 \<Rightarrow> ul" where
  "mul_o64_T6464_C_parity a b = fold (\<lambda>i c. let p = builtin_parityl (a AND b ! i) in c XOR push_bit i p) [0..<64] 0"

definition transp_6464 :: "mat64 \<Rightarrow> mat64 \<Rightarrow> mat64" where
  "transp_6464 dst src =
     fold (\<lambda>i dst. fold (\<lambda>j dst. dst[i := dst ! i XOR push_bit j (drop_bit i (src ! j) AND 1)]) [0..<64] (dst[i := 0])) [0..<64] dst"

section \<open>The loops\<close>

lemma and_mask_lsb: "x AND - (a AND 1) = (if odd a then x else (0 :: ul))"
  by (simp add: and_one_eq mod_2_eq_odd)

lemma and_mask_msb: "x AND signed_drop_bit 63 a = (if bit a 63 then x else (0 :: ul))"
proof (rule bit_word_eqI)
  fix n assume "n < LENGTH(64)"
  then show "bit (x AND signed_drop_bit 63 a) n = bit (if bit a 63 then x else (0 :: ul)) n"
    by (cases n) (simp_all add: bit_and_iff bit_signed_drop_bit_iff min_def)
qed

lemma drop_bit_funpow: "(drop_bit k ^^ n) a = drop_bit (k * n) (a :: ul)"
  by (induction n) (simp_all add: drop_bit_drop_bit add.commute)

lemma push_bit_funpow: "(push_bit 1 ^^ n) a = push_bit n (a :: ul)"
  by (induction n) (simp_all add: push_bit_eq_mult ac_simps)

lemma fold_nth: "fold (\<lambda>i. f (xs ! i)) [0..<length xs] s = fold f xs s"
  by (metis fold_map [of f "(!) xs" "[0..<length xs]"] map_nth comp_apply fold_cong ext)

lemma map_upt_update: "(map h [0..<l])[n := v] = map (\<lambda>i. if i = n then v else h i) [0..<l]"
  by (rule nth_equalityI) (auto simp: nth_list_update)

lemma fold_rows:
  assumes "n \<le> length r"
  shows "fold (\<lambda>i (r, a). (r[i := f (r ! i) a], g a)) [0..<n] (r, a)
    = (map (\<lambda>i. if i < n then f (r ! i) ((g ^^ i) a) else r ! i) [0..<length r], (g ^^ n) a)"
  using assms
proof (induction n)
  case (Suc n)
  then have "n < length r" by simp
  then show ?case using Suc.IH by (simp add: map_upt_update less_Suc_eq)
qed (simp add: map_nth)

lemma fold_row_pairs:
  assumes "2 * n \<le> length r"
  shows "fold (\<lambda>i (r, a). (r[2 * i := f0 (r ! (2 * i)) a, 2 * i + 1 := f1 (r ! (2 * i + 1)) a], g a)) [0..<n] (r, a)
    = (map (\<lambda>i. if i < 2 * n then (if even i then f0 else f1) (r ! i) ((g ^^ (i div 2)) a) else r ! i) [0..<length r], (g ^^ n) a)"
  using assms
proof (induction n)
  case (Suc n)
  have i: "i < 2 * Suc n \<longleftrightarrow> i < 2 * n \<or> i = 2 * n \<or> i = Suc (2 * n)" for i by auto
  have l: "2 * n < length r" "Suc (2 * n) < length r" "2 * n \<le> length r" using Suc.prems by simp_all
  show ?case using Suc.IH [OF l(3)] l unfolding i by (simp add: map_upt_update)
qed (simp add: map_nth)

lemma fold_rows_write:
  "n \<le> length C \<Longrightarrow> fold (\<lambda>i C. C[i := f i]) [0..<n] C = map (\<lambda>i. if i < n then f i else C ! i) [0..<length C]"
proof (induction n)
  case (Suc n)
  then show ?case by (simp add: map_upt_update less_Suc_eq)
qed (simp add: map_nth)

lemma fold_pairs_write:
  "2 * n \<le> length C \<Longrightarrow> fold (\<lambda>j C. C[2 * j := f (2 * j), 2 * j + 1 := f (2 * j + 1)]) [0..<n] C
    = map (\<lambda>i. if i < 2 * n then f i else C ! i) [0..<length C]"
proof (induction n)
  case (Suc n)
  have i: "i < 2 * Suc n \<longleftrightarrow> i < 2 * n \<or> i = 2 * n \<or> i = Suc (2 * n)" for i by auto
  show ?case using Suc unfolding i by (simp add: map_upt_update)
qed (simp add: map_nth)

section \<open>The kernels compute products\<close>

lemma fold_lsb: "fold (\<lambda>b (c, a). (c XOR (b AND - (a AND 1)), drop_bit 1 a)) B (c, a) = (c XOR vecmat a B, drop_bit (length B) a)"
  by (induction B arbitrary: c a) (auto simp: and_mask_lsb ac_simps)

lemma mul_o64_6464_C_lsb_eq: "length w = 64 \<Longrightarrow> mul_o64_6464_C_lsb a w = vecmat a w"
  using fold_nth [of "\<lambda>b (c, a). (c XOR (b AND - (a AND 1)), drop_bit 1 a)" w "(0, a)"]
  by (simp only: mul_o64_6464_C_lsb_def fold_lsb) simp

lemma fold_sse: "fold sse_step B ((c0, c1), (a0, a1))
    = ((c0 XOR vecmat a0 B, c1 XOR vecmat a1 B), (drop_bit (length B) a0, drop_bit (length B) a1))"
  by (induction B arbitrary: c0 c1 a0 a1) (auto simp: sse_step_def and_mask_lsb ac_simps)

lemma mul_6464_6464_sse_eq:
  assumes "length A = 64" "length B = 64"
  shows "mul_6464_6464_sse A B = matmul A B"
proof -
  have "fold (\<lambda>i. sse_step (B ! i)) [0..<64] ((0, 0), (a0, a1)) = ((vecmat a0 B, vecmat a1 B), (0, 0))" for a0 a1
    using fold_nth [of sse_step B] assms(2) by (simp add: fold_sse drop_bit_eq_zero_iff_not_bit_last)
  then have "mul_6464_6464_sse A B = fold (\<lambda>j C. C[2 * j := vecmat (A ! (2 * j)) B, 2 * j + 1 := vecmat (A ! (2 * j + 1)) B]) [0..<32] (replicate 64 0)"
    by (simp add: mul_6464_6464_sse_def)
  then show ?thesis using fold_pairs_write [of 32 "replicate 64 0" "\<lambda>i. vecmat (A ! i) B"] assms(1)
    by (auto intro!: nth_equalityI)
qed

lemma fold_msb:
  "n \<le> 64 \<Longrightarrow> length w = n \<Longrightarrow>
    fst (fold (\<lambda>i (c, a). (c XOR (w ! i AND signed_drop_bit 63 a), push_bit 1 a)) (rev [0..<n]) (c, push_bit (64 - n) a)) = c XOR vecmat a w"
proof (induction n arbitrary: c w)
  case (Suc n)
  define v where "v = take n w"
  have w: "w = v @ [w ! n]" "length v = n" using Suc.prems by (simp_all add: v_def take_Suc_conv_app_nth [symmetric])
  have b: "bit (push_bit (64 - Suc n) a) 63 = bit a n" using Suc.prems(1) by (simp add: bit_push_bit_iff)
  have "1 + (64 - Suc n) = 64 - n" using Suc.prems(1) by simp
  then have s: "push_bit 1 (push_bit (64 - Suc n) a) = push_bit (64 - n) a" by (simp only: push_bit_push_bit)
  define F where "F = (\<lambda>(w :: ul list) i (c, a). (c XOR (w ! i AND signed_drop_bit 63 a), push_bit 1 a))"
  have e: "fold (F w) (rev [0..<n]) s = fold (F v) (rev [0..<n]) s" for s
    by (rule fold_cong) (auto simp: v_def F_def)
  have "vecmat a w = vecmat a v XOR (if bit a n then w ! n else 0)"
    by (subst w(1)) (simp add: vecmat_append w(2) bit_iff_odd_drop_bit)
  moreover have "F w n (c, push_bit (64 - Suc n) a) = (c XOR (if bit a n then w ! n else 0), push_bit (64 - n) a)"
    by (simp only: F_def case_prod_conv b s and_mask_msb)
  moreover have "fst (fold (F v) (rev [0..<n]) (c', push_bit (64 - n) a)) = c' XOR vecmat a v" for c'
    using Suc.IH [OF _ w(2)] Suc.prems(1) unfolding F_def by simp
  ultimately have "fst (fold (F w) (rev [0..<Suc n]) (c, push_bit (64 - Suc n) a)) = c XOR vecmat a w"
    by (simp add: e ac_simps)
  then show ?case unfolding F_def .
qed simp

lemma mul_o64_6464_C_msb_eq: "length w = 64 \<Longrightarrow> mul_o64_6464_C_msb a w = vecmat a w"
  using fold_msb [of 64 w 0 a] by (simp only: mul_o64_6464_C_msb_def) simp

lemma mul_6464_6464_v2_eq:
  assumes "length A = 64" "length B = 64"
  shows "mul_6464_6464_v2 A B = matmul A B"
proof -
  have inner: "fold (\<lambda>j C. if drop_bit j (A ! i) AND 1 \<noteq> 0 then C[i := C ! i XOR B ! j] else C) [0..<n] C
      = C[i := C ! i XOR vecmat (A ! i) (take n B)]" if "i < length C" "n \<le> 64" for i C n
    using that(2)
  proof (induction n)
    case (Suc n)
    have "vecmat (A ! i) (take (Suc n) B) = vecmat (A ! i) (take n B) XOR (if bit (A ! i) n then B ! n else 0)"
      using Suc.prems assms(2) by (simp add: take_Suc_conv_app_nth vecmat_append bit_iff_odd_drop_bit)
    moreover have "drop_bit n (A ! i) AND 1 \<noteq> 0 \<longleftrightarrow> bit (A ! i) n" by (simp add: and_one_eq mod_2_eq_odd bit_iff_odd_drop_bit)
    ultimately show ?case using Suc that(1) by (simp add: ac_simps)
  qed simp
  have "fold (\<lambda>i C. fold (\<lambda>j C. if drop_bit j (A ! i) AND 1 \<noteq> 0 then C[i := C ! i XOR B ! j] else C) [0..<64] C) [0..<n] (replicate 64 0)
      = map (\<lambda>i. if i < n then vecmat (A ! i) B else 0) [0..<64]" if "n \<le> 64" for n
    using that
  proof (induction n)
    case (Suc n)
    then show ?case using inner [of n _ 64] assms(2) by (simp add: map_upt_update less_Suc_eq)
  qed (simp add: map_replicate_const)
  from this [of 64] show ?thesis using assms(1) by (auto simp: mul_6464_6464_v2_def matmul_def intro!: nth_equalityI)
qed

lemma add_6464_6464_C_eq: "length A = 64 \<Longrightarrow> length B = 64 \<Longrightarrow> length C = 64 \<Longrightarrow> add_6464_6464_C C A B = matadd A B"
  by (auto simp: add_6464_6464_C_def fold_rows_write intro!: nth_equalityI)

text \<open>The product of a column vector and a row vector, added to a matrix.\<close>

definition add_outer :: "ul list \<Rightarrow> ul \<Rightarrow> ul \<Rightarrow> ul list" where
  "add_outer r a w = map (\<lambda>i. r ! i XOR (if bit a i then w else 0)) [0..<64]"

lemma addmul_lsb_eq: "length r = 64 \<Longrightarrow> addmul_To64_o64_lsb r a w = add_outer r a w"
  using fold_rows [of 64 r "\<lambda>x a. x XOR (w AND - (a AND 1))" "drop_bit 1" a]
  by (simp only: addmul_To64_o64_lsb_def drop_bit_funpow and_mask_lsb) (simp add: add_outer_def bit_iff_odd_drop_bit cong: map_cong)

lemma addmul_msb_eq: "length r = 64 \<Longrightarrow> addmul_To64_o64_msb r a w = map (\<lambda>i. r ! i XOR (if bit a (63 - i) then w else 0)) [0..<64]"
  using fold_rows [of 64 r "\<lambda>x a. x XOR (w AND signed_drop_bit 63 a)" "push_bit 1" a]
  by (simp only: addmul_To64_o64_msb_def push_bit_funpow and_mask_msb) (simp add: bit_push_bit_iff cong: map_cong)

lemma and_3_cases: "unat ((a :: ul) AND 3) = of_bool (bit a 0) + 2 * of_bool (bit a 1)"
proof -
  have "a AND 3 = take_bit 2 a" by (simp add: take_bit_eq_mask mask_eq_exp_minus_1)
  then have "unat (a AND 3) = take_bit 2 (unat a)" by (simp add: unsigned_take_bit_eq)
  also have "\<dots> = unat a mod 2 + 2 * (unat a div 2 mod 2)" using mod_mult2_eq [of "unat a" 2 2] by (simp add: take_bit_eq_mod)
  also have "\<dots> = of_bool (bit (unat a) 0) + 2 * of_bool (bit (unat a) 1)"
    by (simp add: bit_0 bit_Suc mod_2_eq_odd)
  finally show ?thesis by (simp add: bit_unsigned_iff)
qed

lemma mb_nth: "[[0, 0], [w, 0], [0, w], [w, w]] ! unat ((a :: ul) AND 3) = [if bit a 0 then w else 0, if bit a 1 then w else (0 :: ul)]"
    "[(0, 0), (w, 0), (0, w), (w, w)] ! unat ((a :: ul) AND 3) = (if bit a 0 then w else 0, if bit a 1 then w else (0 :: ul))"
  by (simp_all add: and_3_cases numeral_2_eq_2 numeral_3_eq_3)

lemma addmul_packof2_eq:
  assumes "length r = 64"
  shows "addmul_To64_o64_lsb_packof2 r a w = add_outer r a w" "addmul_To64_o64_lsb_sse_v1 r a w = add_outer r a w"
proof -
  note f = fold_row_pairs [of 32 r "\<lambda>x a. x XOR (if bit a 0 then w else 0)" "\<lambda>x a. x XOR (if bit a 1 then w else 0)" "drop_bit 2" a]
  have "map (\<lambda>i. if i < 2 * 32 then (if even i then \<lambda>x a. x XOR (if bit a 0 then w else 0) else (\<lambda>x a. x XOR (if bit a 1 then w else 0))) (r ! i)
      ((drop_bit 2 ^^ (i div 2)) a) else r ! i) [0..<length r] = add_outer r a w"
    using assms by (auto simp: add_outer_def drop_bit_funpow bit_drop_bit_eq intro!: nth_equalityI)
  then show "addmul_To64_o64_lsb_packof2 r a w = add_outer r a w" "addmul_To64_o64_lsb_sse_v1 r a w = add_outer r a w"
    using f assms by (simp_all only: addmul_To64_o64_lsb_packof2_def addmul_To64_o64_lsb_sse_v1_def mb_nth Let_def case_prod_conv nth_Cons_0 nth_Cons_Suc One_nat_def) simp_all
qed

lemma transp_6464_eq:
  assumes "length dst = 64" "length src = 64"
  shows "transp_6464 dst src = transpose64 src"
proof -
  have inner: "fold (\<lambda>j dst. dst[i := dst ! i XOR push_bit j (drop_bit i (src ! j) AND 1)]) [0..<n] (d[i := 0])
      = d[i := fold (\<lambda>j c. c XOR push_bit j (drop_bit i (src ! j) AND 1)) [0..<n] 0]" if "i < length d" for i d n
    using that by (induction n) auto
  have bits: "bit (fold (\<lambda>j c. c XOR push_bit j (drop_bit i (src ! j) AND 1)) [0..<n] 0) k = (k < n \<and> k < 64 \<and> bit (src ! k) i)" for i n k
    by (induction n) (auto simp: bit_xor_iff bit_push_bit_iff bit_and_iff bit_exp_iff possible_bit_def bit_drop_bit_eq less_Suc_eq)
  have "transp_6464 dst src = map (\<lambda>i. fold (\<lambda>j c. c XOR push_bit j (drop_bit i (src ! j) AND 1)) [0..<64] 0) [0..<64]"
  proof -
    have "fold (\<lambda>i dst. fold (\<lambda>j dst. dst[i := dst ! i XOR push_bit j (drop_bit i (src ! j) AND 1)]) [0..<64] (dst[i := 0])) [0..<n] dst
      = fold (\<lambda>i dst. dst[i := fold (\<lambda>j c. c XOR push_bit j (drop_bit i (src ! j) AND 1)) [0..<64] 0]) [0..<n] dst" if "n \<le> 64" for n
      using that
    proof (induction n)
      case (Suc n)
      then show ?case using inner assms(1) fold_rows_write [of n dst "\<lambda>i. fold (\<lambda>j c. c XOR push_bit j (drop_bit i (src ! j) AND 1)) [0..<64] 0"]
        by simp
    qed simp
    from this [of 64] show ?thesis using assms(1) fold_rows_write [of 64 dst]
      by (auto simp: transp_6464_def intro!: nth_equalityI)
  qed
  moreover have "fold (\<lambda>j c. c XOR push_bit j (drop_bit i (src ! j) AND 1)) [0..<64] 0 = transpose64 src ! i" if "i < 64" for i
    by (rule bit_word_eqI) (simp only: bits bit_transpose64 that, simp)
  ultimately show ?thesis by (simp only:) (rule nth_equalityI, simp_all)
qed

lemma parity_T: "parity_upto (\<lambda>k. bit a k \<and> bit (b ! i) k) 64 = bit (vecmat a (transpose64 b)) i" if "i < 64" for a :: ul
  using that by (auto simp: bit_vecmat bit_transpose64 intro!: parity_upto_cong)

lemma mul_o64_T6464_C_parity_eq:
  assumes "length b = 64"
  shows "mul_o64_T6464_C_parity a b = vecmat a (transpose64 b)"
proof (rule bit_word_eqI)
  fix k assume k: "k < LENGTH(64)"
  have "bit (fold (\<lambda>i c. let p = builtin_parityl (a AND b ! i) in c XOR push_bit i p) [0..<n] 0) k
      = (k < n \<and> k < 64 \<and> parity_upto (bit (a AND b ! k)) 64)" for n
    by (induction n) (auto simp: builtin_parityl_def bit_xor_iff bit_push_bit_iff bit_1_iff Let_def less_Suc_eq)
  then show "bit (mul_o64_T6464_C_parity a b) k = bit (vecmat a (transpose64 b)) k"
    using k parity_T [of k a b] ext [of "bit (a AND b ! k)" "\<lambda>i. bit a i \<and> bit (b ! k) i"]
    by (simp add: mul_o64_T6464_C_parity_def bit_and_iff)
qed

section \<open>Tables\<close>

text \<open>
  The kernels with tables work on arrays that may be the same, so they run on a memory of 64-bit words with
  addresses.  The table of \<open>n\<close> rows is filled in an order in which successive indices differ in one bit: \<open>w\<close> is stored at
  index \<open>x\<close>, then row \<open>k\<close> is added to it.
\<close>

type_synonym memory = "nat \<Rightarrow> ul"

fun gray_fill :: "(nat \<times> nat) list \<Rightarrow> ul list \<Rightarrow> ul \<Rightarrow> ul list \<Rightarrow> ul list \<times> ul" where
  "gray_fill [] bb w T = (T, w)"
| "gray_fill ((x, k) # s) bb w T = gray_fill s bb (w XOR bb ! k) (T[x := w])"

definition lookup4_steps :: "(nat \<times> nat) list" where
  "lookup4_steps = [(0, 0), (1, 1), (3, 0), (2, 2), (6, 0), (7, 1), (5, 0), (4, 3), (12, 0), (13, 1), (15, 0), (14, 2),
     (10, 0), (11, 1), (9, 0)]"

definition lookup4_table :: "ul list \<Rightarrow> ul list" where
  "lookup4_table bb = (let (T, w) = gray_fill lookup4_steps bb 0 (replicate 16 0) in T[8 := w])"

definition lookup4_word :: "ul list list \<Rightarrow> ul \<Rightarrow> ul" where
  "lookup4_word Bx aa =
     (let (c, aa) = fold (\<lambda>j (c, aa). (c XOR Bx ! j ! unat (aa AND 15), drop_bit 4 aa)) [0..<15] (0, aa)
      in c XOR Bx ! 15 ! unat aa)"

definition mul_N64_6464_lookup4 :: "memory \<Rightarrow> nat \<Rightarrow> nat \<Rightarrow> nat \<Rightarrow> nat \<Rightarrow> memory" where
  "mul_N64_6464_lookup4 mem C A B m =
     (let Bx = map (\<lambda>j. lookup4_table (map (\<lambda>k. mem (B + 4 * j + k)) [0..<4])) [0..<16]
      in fold (\<lambda>i mem. mem(C + i := lookup4_word Bx (mem (A + i)))) [0..<m] mem)"

definition memset0 :: "memory \<Rightarrow> nat \<Rightarrow> nat \<Rightarrow> memory" where
  "memset0 mem C m = (\<lambda>p. if C \<le> p \<and> p < C + m then 0 else mem p)"

definition addmul_N64_6464_lookup4 :: "memory \<Rightarrow> nat \<Rightarrow> nat \<Rightarrow> nat \<Rightarrow> nat \<Rightarrow> memory" where
  "addmul_N64_6464_lookup4 mem C A B m =
     (let Bx = map (\<lambda>j. lookup4_table (map (\<lambda>k. mem (B + 4 * j + k)) [0..<4])) [0..<16]
      in fold (\<lambda>i mem. mem(C + i := mem (C + i) XOR lookup4_word Bx (mem (A + i)))) [0..<m] (memset0 mem C m))"

definition lookup8_steps1 :: "(nat \<times> nat) list" where
  "lookup8_steps1 =
     [(0, 0), (1, 1), (3, 0), (2, 2), (6, 0), (7, 1), (5, 0), (4, 3), (12, 0), (13, 1), (15, 0), (14, 2), (10, 0),
      (11, 1), (9, 0), (8, 4), (24, 0), (25, 1), (27, 0), (26, 2), (30, 0), (31, 1), (29, 0), (28, 3), (20, 0), (21, 1),
      (23, 0), (22, 2), (18, 0), (19, 1), (17, 0), (16, 5), (48, 0), (49, 1), (51, 0), (50, 2), (54, 0), (55, 1),
      (53, 0), (52, 3), (60, 0), (61, 1), (63, 0), (62, 2), (58, 0), (59, 1), (57, 0), (56, 4), (40, 0), (41, 1),
      (43, 0), (42, 2), (46, 0), (47, 1), (45, 0), (44, 3), (36, 0), (37, 1), (39, 0), (38, 2), (34, 0), (35, 1),
      (33, 0), (32, 6), (96, 0), (97, 1), (99, 0), (98, 2), (102, 0), (103, 1), (101, 0), (100, 3), (108, 0), (109, 1),
      (111, 0), (110, 2), (106, 0), (107, 1), (105, 0), (104, 4), (120, 0), (121, 1), (123, 0), (122, 2), (126, 0),
      (127, 1), (125, 0), (124, 3), (116, 0), (117, 1), (119, 0), (118, 2), (114, 0), (115, 1), (113, 0), (112, 5),
      (80, 0), (81, 1), (83, 0), (82, 2), (86, 0), (87, 1), (85, 0), (84, 3), (92, 0), (93, 1), (95, 0), (94, 2),
      (90, 0), (91, 1), (89, 0), (88, 4), (72, 0), (73, 1), (75, 0), (74, 2), (78, 0), (79, 1), (77, 0), (76, 3),
      (68, 0), (69, 1), (71, 0), (70, 2), (66, 0), (67, 1), (65, 0), (64, 7)]"

definition lookup8_steps2 :: "(nat \<times> nat) list" where
  "lookup8_steps2 =
     [(192, 0), (193, 1), (195, 0), (194, 2), (198, 0), (199, 1), (197, 0), (196, 3), (204, 0), (205, 1), (207, 0),
      (206, 2), (202, 0), (203, 1), (201, 0), (200, 4), (216, 0), (217, 1), (219, 0), (218, 2), (222, 0), (223, 1),
      (221, 0), (220, 3), (212, 0), (213, 1), (215, 0), (214, 2), (210, 0), (211, 1), (209, 0), (208, 5), (240, 0),
      (241, 1), (243, 0), (242, 2), (246, 0), (247, 1), (245, 0), (244, 3), (252, 0), (253, 1), (255, 0), (254, 2),
      (250, 0), (251, 1), (249, 0), (248, 4), (232, 0), (233, 1), (235, 0), (234, 2), (238, 0), (239, 1), (237, 0),
      (236, 3), (228, 0), (229, 1), (231, 0), (230, 2), (226, 0), (227, 1), (225, 0), (224, 6), (160, 0), (161, 1),
      (163, 0), (162, 2), (166, 0), (167, 1), (165, 0), (164, 3), (172, 0), (173, 1), (175, 0), (174, 2), (170, 0),
      (171, 1), (169, 0), (168, 4), (184, 0), (185, 1), (187, 0), (186, 2), (190, 0), (191, 1), (189, 0), (188, 3),
      (180, 0), (181, 1), (183, 0), (182, 2), (178, 0), (179, 1), (177, 0), (176, 5), (144, 0), (145, 1), (147, 0),
      (146, 2), (150, 0), (151, 1), (149, 0), (148, 3), (156, 0), (157, 1), (159, 0), (158, 2), (154, 0), (155, 1),
      (153, 0), (152, 4), (136, 0), (137, 1), (139, 0), (138, 2), (142, 0), (143, 1), (141, 0), (140, 3), (132, 0),
      (133, 1), (135, 0), (134, 2), (130, 0), (131, 1), (129, 0)]"

definition lookup8_table :: "ul list \<Rightarrow> ul list" where
  "lookup8_table bb = (let (T, w) = gray_fill (lookup8_steps1 @ lookup8_steps2) bb 0 (replicate 256 0) in T[128 := w])"

definition lookup8_word :: "ul list list \<Rightarrow> ul \<Rightarrow> ul" where
  "lookup8_word Bx aa = fst (fold (\<lambda>j (c, aa). (c XOR Bx ! j ! unat (aa AND 255), drop_bit 8 aa)) [0..<8] (0, aa))"

definition mul_N64_6464_lookup8 :: "memory \<Rightarrow> nat \<Rightarrow> nat \<Rightarrow> nat \<Rightarrow> nat \<Rightarrow> memory" where
  "mul_N64_6464_lookup8 mem C A B m =
     (let Bx = map (\<lambda>j. lookup8_table (map (\<lambda>k. mem (B + 8 * j + k)) [0..<8])) [0..<8]
      in fold (\<lambda>i mem. mem(C + i := lookup8_word Bx (mem (A + i)))) [0..<m] (memset0 mem C m))"

text \<open>A list of steps walks over all indices below \<open>2 ^ n\<close>, from \<open>x\<close> to \<open>y\<close>.\<close>

fun gray_walk :: "(nat \<times> nat) list \<Rightarrow> nat \<Rightarrow> nat \<Rightarrow> bool" where
  "gray_walk [] x y = (x = y)"
| "gray_walk ((x', k) # s) x y = (x' = x \<and> gray_walk s (x XOR 2 ^ k) y)"

lemma gray_fill_nth:
  assumes "gray_walk s x y" "\<forall>(z, k) \<in> set s. k < length bb \<and> z < length T" "w = vecmat (of_nat x) bb"
    "length bb \<le> 64" "y < length T"
  shows "\<exists>T' w'. gray_fill s bb w T = (T', w') \<and> w' = vecmat (of_nat y) bb \<and> length T' = length T
     \<and> (\<forall>z. z \<in> fst ` set s \<longrightarrow> T' ! z = vecmat (of_nat z) bb) \<and> (\<forall>z. z \<notin> fst ` set s \<longrightarrow> T' ! z = T ! z)"
  using assms
proof (induction s arbitrary: x w T)
  case (Cons p s)
  obtain k where p: "p = (x, k)" "gray_walk s (x XOR 2 ^ k) y" using Cons.prems(1) by (cases p) auto
  have k: "k < length bb" "x < length T" using Cons.prems(2) p(1) by auto
  have "of_nat (x XOR 2 ^ k) = (of_nat x XOR 2 ^ k :: ul)" by (simp add: of_nat_xor_eq)
  then have w: "w XOR bb ! k = vecmat (of_nat (x XOR 2 ^ k)) bb"
    using Cons.prems(3,4) k(1) vecmat_unit [of k bb] by (simp add: vecmat_xor)
  have "\<forall>(z, k) \<in> set s. k < length bb \<and> z < length (T[x := w])" "y < length (T[x := w])" using Cons.prems(2,5) by auto
  from Cons.IH [OF p(2) this(1) w Cons.prems(4) this(2)]
  obtain T' where T': "gray_fill s bb (w XOR bb ! k) (T[x := w]) = (T', vecmat (of_nat y) bb)" "length T' = length T"
    "\<And>z. z \<in> fst ` set s \<Longrightarrow> T' ! z = vecmat (of_nat z) bb" "\<And>z. z \<notin> fst ` set s \<Longrightarrow> T' ! z = T[x := w] ! z"
    by auto
  have "T' ! x = vecmat (of_nat x) bb" using T'(3,4) [of x] k(2) Cons.prems(3) by (cases "x \<in> fst ` set s") auto
  then show ?case using T' p(1) by (auto simp: nth_list_update)
qed auto

lemma gray_table:
  assumes "gray_walk s 0 y" "list_all (\<lambda>(z, k). k < n \<and> z < 2 ^ n) s" "y < 2 ^ n" "distinct (y # map fst s)"
    "length s + 1 = 2 ^ n" "length bb = n" "n \<le> 64" "x < 2 ^ n"
  shows "(let (T, w) = gray_fill s bb 0 (replicate (2 ^ n) 0) in T[y := w]) ! x = vecmat (of_nat x) bb"
proof -
  have s: "\<forall>(z, k) \<in> set s. k < n \<and> z < 2 ^ n" using assms(2) by (simp add: list_all_iff)
  then obtain T where T: "gray_fill s bb 0 (replicate (2 ^ n) 0) = (T, vecmat (of_nat y) bb)" "length T = 2 ^ n"
    "\<And>z. z \<in> fst ` set s \<Longrightarrow> T ! z = vecmat (of_nat z) bb"
    using gray_fill_nth [OF assms(1), of bb "replicate (2 ^ n) 0" 0] assms(3,6,7) by auto
  have "set (y # map fst s) \<subseteq> {..<2 ^ n}" using s assms(3) by auto
  moreover have "card (set (y # map fst s)) = 2 ^ n" using distinct_card [OF assms(4)] assms(5) by simp
  ultimately have "set (y # map fst s) = {..<2 ^ n}" using card_subset_eq [of "{..<2 ^ n :: nat}"] by simp
  then have "x = y \<or> x \<in> fst ` set s" using assms(8) by auto
  then show ?thesis using T assms(3) by (auto simp: nth_list_update)
qed

lemma lookup4_table_nth: "length bb = 4 \<Longrightarrow> x < 16 \<Longrightarrow> lookup4_table bb ! x = vecmat (of_nat x) bb"
proof -
  have "gray_walk lookup4_steps 0 8" "list_all (\<lambda>(z, k). k < 4 \<and> z < 2 ^ 4) lookup4_steps" by code_simp+
  moreover have "distinct (8 # map fst lookup4_steps)" "length lookup4_steps + 1 = 2 ^ 4" by (simp_all add: lookup4_steps_def)
  ultimately show "length bb = 4 \<Longrightarrow> x < 16 \<Longrightarrow> lookup4_table bb ! x = vecmat (of_nat x) bb"
    using gray_table [of lookup4_steps 8 4 bb x] by (simp add: lookup4_table_def)
qed

lemma lookup8_table_nth: "length bb = 8 \<Longrightarrow> x < 256 \<Longrightarrow> lookup8_table bb ! x = vecmat (of_nat x) bb"
proof -
  have "gray_walk (lookup8_steps1 @ lookup8_steps2) 0 128"
    "list_all (\<lambda>(z, k). k < 8 \<and> z < 2 ^ 8) (lookup8_steps1 @ lookup8_steps2)"
    by (simp_all add: lookup8_steps1_def lookup8_steps2_def)
  moreover have "distinct (128 # map fst (lookup8_steps1 @ lookup8_steps2))" "length (lookup8_steps1 @ lookup8_steps2) + 1 = 2 ^ 8"
    by (simp_all add: lookup8_steps1_def lookup8_steps2_def)
  ultimately show "length bb = 8 \<Longrightarrow> x < 256 \<Longrightarrow> lookup8_table bb ! x = vecmat (of_nat x) bb"
    using gray_table [of "lookup8_steps1 @ lookup8_steps2" 128 8 bb x] by (simp add: lookup8_table_def)
qed

text \<open>The words looked up for the digits of \<open>aa\<close> add up to the product.\<close>

lemma digit_unat: "unat ((a :: ul) AND mask n) < 2 ^ n" "word_of_nat (unat (a AND mask n)) = take_bit n a"
proof -
  have "unat (take_bit n a) = take_bit n (unat a)" by (simp add: unsigned_take_bit_eq)
  then show "unat (a AND mask n) < 2 ^ n" by (simp only: take_bit_eq_mask [symmetric] take_bit_nat_less_exp)
  show "word_of_nat (unat (a AND mask n)) = take_bit n a" by (simp add: take_bit_eq_mask)
qed

lemma fold_digits:
  assumes "\<And>j x. j < m \<Longrightarrow> x < 2 ^ n \<Longrightarrow> Bx ! j ! x = vecmat (of_nat x) (take n (drop (n * j) B))" "n * m \<le> length B" "m \<le> k"
  shows "fold (\<lambda>j (c, aa). (c XOR Bx ! j ! unat (aa AND mask n), drop_bit n aa)) [0..<m] (0, aa)
    = (vecmat aa (take (n * m) B), drop_bit (n * m) aa)"
  using assms
proof (induction m)
  case (Suc m)
  have l: "n * m + n \<le> length B" using Suc.prems(2) by (simp add: algebra_simps)
  have "take (n * Suc m) B = take (n * m) B @ take n (drop (n * m) B)" using take_add [of "n * m" n B] by (simp add: add.commute)
  moreover have "Bx ! m ! unat (drop_bit (n * m) aa AND mask n) = vecmat (drop_bit (n * m) aa) (take n (drop (n * m) B))"
    using Suc.prems(1) [OF lessI digit_unat(1) [of "drop_bit (n * m) aa" n]] l
    by (simp only: digit_unat(2)) (simp add: vecmat_take_bit)
  moreover have "drop_bit n (drop_bit (n * m) aa) = drop_bit (n * Suc m) aa" by (simp add: algebra_simps)
  moreover have "fold (\<lambda>j (c, aa). (c XOR Bx ! j ! unat (aa AND mask n), drop_bit n aa)) [0..<m] (0, aa)
      = (vecmat aa (take (n * m) B), drop_bit (n * m) aa)" using Suc.IH [OF Suc.prems(1)] l Suc.prems(3) by simp
  ultimately show ?case using l by (simp add: vecmat_append)
qed simp

text \<open>The matrix at an address.\<close>

definition words_at :: "memory \<Rightarrow> nat \<Rightarrow> nat \<Rightarrow> ul list" where
  "words_at mem p n = map (\<lambda>i. mem (p + i)) [0..<n]"

lemma words_at_simps [simp]: "length (words_at mem p n) = n" "i < n \<Longrightarrow> words_at mem p n ! i = mem (p + i)"
  by (simp_all add: words_at_def)

lemma words_at_part: "n * j + n \<le> l \<Longrightarrow> map (\<lambda>k. mem (B + n * j + k)) [0..<n] = take n (drop (n * j) (words_at mem B l))"
  by (rule nth_equalityI) (auto simp: add.assoc)

lemma mask_4: "(15 :: ul) = mask 4" and mask_8: "(255 :: ul) = mask 8"
  by (simp_all add: mask_eq_exp_minus_1)

lemma lookup4_word_eq: "lookup4_word (map (\<lambda>j. lookup4_table (map (\<lambda>k. mem (B + 4 * j + k)) [0..<4])) [0..<16]) aa = vecmat aa (words_at mem B 64)"
proof -
  define Bx where "Bx = map (\<lambda>j. lookup4_table (map (\<lambda>k. mem (B + 4 * j + k)) [0..<4])) [0..<16]"
  have T: "Bx ! j ! x = vecmat (of_nat x) (take 4 (drop (4 * j) (words_at mem B 64)))" if "j < 16" "x < 16" for j x
  proof -
    have "Bx ! j ! x = vecmat (of_nat x) (map (\<lambda>k. mem (B + 4 * j + k)) [0..<4])" using that lookup4_table_nth by (simp add: Bx_def)
    then show ?thesis using words_at_part [of 4 j 64 mem B] that(1) by simp
  qed
  have f: "fold (\<lambda>j (c, aa). (c XOR Bx ! j ! unat (aa AND 15), drop_bit 4 aa)) [0..<15] (0, aa)
      = (vecmat aa (take 60 (words_at mem B 64)), drop_bit 60 aa)"
    using fold_digits [of 15 4 Bx "words_at mem B 64" 15 aa] T by (simp add: mask_4)
  have "unat aa < 2 ^ LENGTH(64)" by (rule unsigned_less)
  then have u: "unat (drop_bit 60 aa) < 16" by (simp only: unat_drop_bit_eq) (simp add: drop_bit_eq_div)
  have w: "word_of_nat (unat (drop_bit 60 aa)) = drop_bit 60 aa" by simp
  have "Bx ! 15 ! unat (drop_bit 60 aa) = vecmat (of_nat (unat (drop_bit 60 aa))) (take 4 (drop (4 * 15) (words_at mem B 64)))"
    using u by (intro T) simp
  then have "Bx ! 15 ! unat (drop_bit 60 aa) = vecmat (drop_bit 60 aa) (drop 60 (words_at mem B 64))"
    by (simp only: w) simp
  moreover have "vecmat aa (words_at mem B 64) = vecmat aa (take 60 (words_at mem B 64)) XOR vecmat (drop_bit 60 aa) (drop 60 (words_at mem B 64))"
    using vecmat_append [of aa "take 60 (words_at mem B 64)" "drop 60 (words_at mem B 64)"] by (simp only: append_take_drop_id) simp
  ultimately show ?thesis unfolding Bx_def [symmetric] lookup4_word_def by (simp only: f case_prod_conv Let_def)
qed

lemma lookup8_word_eq: "lookup8_word (map (\<lambda>j. lookup8_table (map (\<lambda>k. mem (B + 8 * j + k)) [0..<8])) [0..<8]) aa = vecmat aa (words_at mem B 64)"
proof -
  define Bx where "Bx = map (\<lambda>j. lookup8_table (map (\<lambda>k. mem (B + 8 * j + k)) [0..<8])) [0..<8]"
  have T: "Bx ! j ! x = vecmat (of_nat x) (take 8 (drop (8 * j) (words_at mem B 64)))" if "j < 8" "x < 256" for j x
  proof -
    have "Bx ! j ! x = vecmat (of_nat x) (map (\<lambda>k. mem (B + 8 * j + k)) [0..<8])" using that lookup8_table_nth by (simp add: Bx_def)
    then show ?thesis using words_at_part [of 8 j 64 mem B] that(1) by simp
  qed
  show ?thesis using fold_digits [of 8 8 Bx "words_at mem B 64" 8 aa] T
    unfolding Bx_def [symmetric] lookup8_word_def by (simp add: mask_8)
qed

section \<open>Products in memory\<close>

text \<open>
  The cells of \<open>C\<close> may be those of \<open>A\<close>, in the same place, or lie before them: then every word of \<open>A\<close> is read before its cell is
  written.  The table is complete before the first write, so that \<open>C\<close> may overlap \<open>B\<close> in any way.
\<close>

definition in_place_ok :: "nat \<Rightarrow> nat \<Rightarrow> nat \<Rightarrow> bool" where
  "in_place_ok C A m \<longleftrightarrow> (\<forall>i < m. \<forall>j < m. C + i = A + j \<longrightarrow> j \<le> i)"

definition disjoint_arrays :: "nat \<Rightarrow> nat \<Rightarrow> nat \<Rightarrow> bool" where
  "disjoint_arrays C A m \<longleftrightarrow> (\<forall>i < m. \<forall>j < m. C + i \<noteq> A + j)"

lemma in_placeI: "C \<le> A \<Longrightarrow> in_place_ok C A m" "disjoint_arrays C A m \<Longrightarrow> in_place_ok C A m"
  by (auto simp: in_place_ok_def disjoint_arrays_def)

lemma in_place_unread:
  assumes "in_place_ok C A m" "n < m"
  shows "\<not> (C \<le> A + n \<and> A + n < C + n)"
proof
  assume h: "C \<le> A + n \<and> A + n < C + n"
  then have i: "C + (A + n - C) = A + n" "A + n - C < n" by auto
  then have "n \<le> A + n - C" using assms unfolding in_place_ok_def by (meson less_trans)
  then show False using i(2) by simp
qed

text \<open>The cells that a loop writes.\<close>

definition write_words :: "memory \<Rightarrow> nat \<Rightarrow> ul list \<Rightarrow> memory" where
  "write_words mem C ws = (\<lambda>p. if C \<le> p \<and> p < C + length ws then ws ! (p - C) else mem p)"

lemma fold_upt_Suc: "fold f [0..<Suc n] s = f n (fold f [0..<n] s)"
  by simp

lemma write_words_snoc: "length ws = n \<Longrightarrow> (write_words mem C ws)(C + n := w) = write_words mem C (ws @ [w])"
  by (auto simp: write_words_def nth_append fun_eq_iff)

lemma write_words_Nil [simp]: "write_words mem C [] = mem"
  by (auto simp: write_words_def fun_eq_iff)

lemma words_at_write [simp]: "words_at (write_words mem C ws) C (length ws) = ws"
  by (auto simp: words_at_def write_words_def intro!: nth_equalityI)

lemma fold_write:
  assumes "in_place_ok C A m" "n \<le> m"
  shows "fold (\<lambda>i mem. mem(C + i := f (mem (A + i)))) [0..<n] mem = write_words mem C (map f (words_at mem A n))"
  using assms(2)
proof (induction n)
  case (Suc n)
  have "write_words mem C (map f (words_at mem A n)) (A + n) = mem (A + n)"
    using in_place_unread [OF assms(1), of n] Suc.prems by (auto simp: write_words_def)
  moreover have "words_at mem A (Suc n) = words_at mem A n @ [mem (A + n)]" by (simp add: words_at_def)
  moreover have "fold (\<lambda>i mem. mem(C + i := f (mem (A + i)))) [0..<n] mem = write_words mem C (map f (words_at mem A n))"
    by (rule Suc.IH [OF Suc_leD [OF Suc.prems]])
  ultimately show ?case by (simp only: fold_upt_Suc) (subst write_words_snoc, simp_all)
qed (simp add: words_at_def)

lemma lookup4_in_place:
  assumes "in_place_ok C A m"
  shows "mul_N64_6464_lookup4 mem C A B m = write_words mem C (matmul (words_at mem A m) (words_at mem B 64))"
  using fold_write [OF assms order_refl, of "\<lambda>a. vecmat a (words_at mem B 64)" mem]
  by (simp only: mul_N64_6464_lookup4_def Let_def lookup4_word_eq matmul_def)

lemma memset0_eq: "memset0 mem C m = write_words mem C (replicate m 0)"
  by (auto simp: memset0_def write_words_def fun_eq_iff)

lemma words_at_disjoint: "length ws = m \<Longrightarrow> disjoint_arrays C A m \<Longrightarrow> words_at (write_words mem C ws) A m = words_at mem A m"
  by (auto simp: words_at_def write_words_def disjoint_arrays_def) (metis le_add_diff_inverse nat_add_left_cancel_less)

lemma write_words_twice: "length ws = length vs \<Longrightarrow> write_words (write_words mem C ws) C vs = write_words mem C vs"
  by (auto simp: write_words_def fun_eq_iff)

lemma lookup8_eq:
  assumes "disjoint_arrays C A m"
  shows "mul_N64_6464_lookup8 mem C A B m = write_words mem C (matmul (words_at mem A m) (words_at mem B 64))"
  using fold_write [OF in_placeI(2) [OF assms] order_refl, of "\<lambda>a. vecmat a (words_at mem B 64)" "memset0 mem C m"] assms
  by (simp only: mul_N64_6464_lookup8_def Let_def lookup8_word_eq matmul_def)
    (simp add: memset0_eq words_at_disjoint write_words_twice)

lemma fold_addwrite:
  assumes "in_place_ok C A m" "n \<le> m"
  shows "fold (\<lambda>i mem. mem(C + i := mem (C + i) XOR f (mem (A + i)))) [0..<n] mem
    = write_words mem C (map (\<lambda>i. mem (C + i) XOR f (mem (A + i))) [0..<n])"
  using assms(2)
proof (induction n)
  case (Suc n)
  have "write_words mem C (map (\<lambda>i. mem (C + i) XOR f (mem (A + i))) [0..<n]) (A + n) = mem (A + n)"
    using in_place_unread [OF assms(1), of n] Suc.prems by (auto simp: write_words_def)
  moreover have "write_words mem C (map (\<lambda>i. mem (C + i) XOR f (mem (A + i))) [0..<n]) (C + n) = mem (C + n)"
    by (simp add: write_words_def)
  moreover have "fold (\<lambda>i mem. mem(C + i := mem (C + i) XOR f (mem (A + i)))) [0..<n] mem
      = write_words mem C (map (\<lambda>i. mem (C + i) XOR f (mem (A + i))) [0..<n])"
    by (rule Suc.IH [OF Suc_leD [OF Suc.prems]])
  ultimately show ?case by (simp only: fold_upt_Suc) (subst write_words_snoc, simp_all)
qed simp

text \<open>\<open>addmul_N64_6464_lookup4\<close> clears \<open>C\<close> first: it does not add, and in place it returns 0.\<close>

lemma addmul_lookup4_disjoint:
  assumes "disjoint_arrays C A m"
  shows "addmul_N64_6464_lookup4 mem C A B m = write_words mem C (matmul (words_at mem A m) (words_at mem B 64))"
proof -
  define mem0 where "mem0 = memset0 mem C m"
  have a: "mem0 (C + i) = 0" "mem0 (A + i) = mem (A + i)" if "i < m" for i
    using assms that unfolding mem0_def memset0_def disjoint_arrays_def by (simp_all, metis le_add_diff_inverse nat_add_left_cancel_less)
  have "addmul_N64_6464_lookup4 mem C A B m = write_words mem0 C (map (\<lambda>i. mem0 (C + i) XOR vecmat (mem0 (A + i)) (words_at mem B 64)) [0..<m])"
    using fold_addwrite [OF in_placeI(2) [OF assms] order_refl, of "\<lambda>a. vecmat a (words_at mem B 64)" mem0]
    by (simp only: addmul_N64_6464_lookup4_def Let_def lookup4_word_eq mem0_def)
  also have "map (\<lambda>i. mem0 (C + i) XOR vecmat (mem0 (A + i)) (words_at mem B 64)) [0..<m] = matmul (words_at mem A m) (words_at mem B 64)"
    by (rule nth_equalityI) (simp_all add: a)
  finally show ?thesis by (simp add: mem0_def memset0_eq write_words_twice)
qed

lemma addmul_lookup4_in_place: "addmul_N64_6464_lookup4 mem C C B m = write_words mem C (replicate m 0)"
proof -
  define mem0 where "mem0 = memset0 mem C m"
  have a: "mem0 (C + i) = 0" if "i < m" for i using that by (simp add: mem0_def memset0_def)
  have "addmul_N64_6464_lookup4 mem C C B m = write_words mem0 C (map (\<lambda>i. mem0 (C + i) XOR vecmat (mem0 (C + i)) (words_at mem B 64)) [0..<m])"
    using fold_addwrite [OF in_placeI(1) [OF order_refl [of C]] order_refl, where f = "\<lambda>a. vecmat a (words_at mem B 64)" and mem = mem0]
    by (simp only: addmul_N64_6464_lookup4_def Let_def lookup4_word_eq mem0_def)
  also have "map (\<lambda>i. mem0 (C + i) XOR vecmat (mem0 (C + i)) (words_at mem B 64)) [0..<m] = replicate m 0"
    by (rule nth_equalityI) (simp_all add: a)
  finally show ?thesis by (simp add: mem0_def memset0_eq write_words_twice)
qed

section \<open>Products of many rows\<close>

text \<open>The chosen kernels, with SSE2.  \<open>mul_6464_6464\<close> may be called with \<open>C\<close> equal to \<open>A\<close> or \<open>B\<close>.\<close>

definition mul_6464_6464 :: "mat64 \<Rightarrow> mat64 \<Rightarrow> mat64" where
  "mul_6464_6464 A B = words_at (mul_N64_6464_lookup4 (\<lambda>p. if p < 64 then A ! p else B ! (p - 64)) 128 0 64 64) 128 64"

definition add_6464_6464 :: "mat64 \<Rightarrow> mat64 \<Rightarrow> mat64 \<Rightarrow> mat64" where
  "add_6464_6464 C A B = add_6464_6464_C C A B"

definition mul_o64_6464 :: "ul \<Rightarrow> mat64 \<Rightarrow> ul" where
  "mul_o64_6464 a w = mul_o64_6464_C_lsb a w"

definition mul_o64_T6464 :: "ul \<Rightarrow> mat64 \<Rightarrow> ul" where
  "mul_o64_T6464 a b = mul_o64_T6464_C_parity a b"

definition addmul_To64_o64 :: "ul list \<Rightarrow> ul \<Rightarrow> ul \<Rightarrow> ul list" where
  "addmul_To64_o64 r a w = addmul_To64_o64_lsb_sse_v1 r a w"

text \<open>
  Two rows at a time: a turn reads a pair of words of \<open>A\<close> and writes a pair of words of \<open>C\<close>, an array of \<open>m\<close> words; an access to a pair
  that is not in the array fails.  The second loop goes on, row by row, from where the first one has stopped.
\<close>

definition load_pair :: "ul list \<Rightarrow> nat \<Rightarrow> (ul \<times> ul) option" where
  "load_pair A j = (if j + 1 < length A then Some (A ! j, A ! (j + 1)) else None)"

definition store_pair :: "ul list \<Rightarrow> nat \<Rightarrow> ul \<times> ul \<Rightarrow> ul list option" where
  "store_pair C j = (\<lambda>(c0, c1). if j + 1 < length C then Some (C[j := c0, j + 1 := c1]) else None)"

function mul_N64_sse_pairs :: "ul list \<Rightarrow> mat64 \<Rightarrow> nat \<Rightarrow> nat \<Rightarrow> ul list \<Rightarrow> (nat \<times> ul list) option" where
  "mul_N64_sse_pairs A B m j C =
     (if j < m
      then do { a \<leftarrow> load_pair A j;
                let (c, _) = fold (\<lambda>i. sse_step (B ! i)) [0..<64] ((0, 0), a);
                C \<leftarrow> store_pair C j c;
                mul_N64_sse_pairs A B m (j + 2) C }
      else Some (j, C))"
  by auto
termination
  by (relation "measure (\<lambda>(A, B, m, j, C). m - j)") auto

declare mul_N64_sse_pairs.simps [simp del]

definition mul_N64_sse_rest :: "ul list \<Rightarrow> mat64 \<Rightarrow> nat \<Rightarrow> nat \<Rightarrow> ul list \<Rightarrow> ul list" where
  "mul_N64_sse_rest A B m j C =
     fold (\<lambda>k C. C[k := fst (fold (\<lambda>i (c, a). (c XOR (B ! i AND - (a AND 1)), drop_bit 1 a)) [0..<64] (0, A ! k))]) [j..<m] C"

definition mul_N64_6464_sse :: "ul list \<Rightarrow> mat64 \<Rightarrow> nat \<Rightarrow> ul list option" where
  "mul_N64_6464_sse A B m =
     do { (j, C) \<leftarrow> mul_N64_sse_pairs A B m 0 (replicate m 0); Some (mul_N64_sse_rest A B m j C) }"

definition mul_N64_6464 :: "ul list \<Rightarrow> mat64 \<Rightarrow> nat \<Rightarrow> ul list option" where
  "mul_N64_6464 A B m = mul_N64_6464_sse A B m"

definition mul_N64_6464_vec :: "ul list \<Rightarrow> mat64 \<Rightarrow> nat \<Rightarrow> ul list" where
  "mul_N64_6464_vec A B m = map (\<lambda>i. mul_o64_6464 (A ! i) B) [0..<m]"

definition mul_N64_T6464_vec :: "ul list \<Rightarrow> mat64 \<Rightarrow> nat \<Rightarrow> ul list" where
  "mul_N64_T6464_vec A B m = map (\<lambda>i. mul_o64_T6464 (A ! i) B) [0..<m]"

text \<open>\<open>tb\<close> is fresh memory, with contents \<open>junk\<close>.\<close>

definition mul_N64_T6464_transB :: "mat64 \<Rightarrow> ul list \<Rightarrow> mat64 \<Rightarrow> nat \<Rightarrow> ul list option" where
  "mul_N64_T6464_transB junk A B m = (let tb = transp_6464 junk B in mul_N64_6464 A tb m)"

definition mul_N64_T6464 :: "mat64 \<Rightarrow> ul list \<Rightarrow> mat64 \<Rightarrow> nat \<Rightarrow> ul list option" where
  "mul_N64_T6464 junk A B m = mul_N64_T6464_transB junk A B m"

definition mul_N64_6464_transB :: "mat64 \<Rightarrow> mat64 \<Rightarrow> ul list \<Rightarrow> mat64 \<Rightarrow> nat \<Rightarrow> ul list option" where
  "mul_N64_6464_transB junk junk' A B m = (let tb = transp_6464 junk B in mul_N64_T6464 junk' A tb m)"

definition mul_64N_N64_addmul :: "ul list \<Rightarrow> ul list \<Rightarrow> nat \<Rightarrow> mat64" where
  "mul_64N_N64_addmul a w n = fold (\<lambda>i r. addmul_To64_o64 r (a ! i) (w ! i)) [0..<n] (replicate 64 0)"

text \<open>The mask \<open>- (rA & 1)\<close> is an \<open>unsigned int\<close>, extended with zeros.\<close>

definition mul_TN32_N64_C :: "u32 list \<Rightarrow> ul list \<Rightarrow> nat \<Rightarrow> ul list" where
  "mul_TN32_N64_C A x ncol =
     fold (\<lambda>idx b. fst (fold (\<lambda>i (b, rA). (b[i := b ! i XOR (x ! idx AND ucast (- (rA AND 1)))], drop_bit 1 rA)) [0..<32] (b, A ! idx)))
       [0..<ncol] (replicate 32 0)"

definition mul_TN64_N64_C :: "ul list \<Rightarrow> ul list \<Rightarrow> nat \<Rightarrow> mat64" where
  "mul_TN64_N64_C A x ncol =
     fold (\<lambda>idx b. fst (fold (\<lambda>i (b, rA). (b[i := b ! i XOR (x ! idx AND - (rA AND 1))], drop_bit 1 rA)) [0..<64] (b, A ! idx)))
       [0..<ncol] (replicate 64 0)"

definition mul_TN64K_N64_C :: "ul list \<Rightarrow> ul list \<Rightarrow> nat \<Rightarrow> nat \<Rightarrow> ul list" where
  "mul_TN64K_N64_C A x ncol K =
     fold (\<lambda>idx b. fold (\<lambda>j b. fst (fold (\<lambda>i (b, rA). (b[64 * j + i := b ! (64 * j + i) XOR (x ! idx AND - (rA AND 1))], drop_bit 1 rA))
                                 [0..<64] (b, A ! (K * idx + j)))) [0..<K] b)
       [0..<ncol] (replicate (64 * K) 0)"

definition mul_TN64K_N64_sse2 :: "ul list \<Rightarrow> ul list \<Rightarrow> nat \<Rightarrow> nat \<Rightarrow> ul list" where
  "mul_TN64K_N64_sse2 u v n K =
     fold (\<lambda>i w. let mb = [(0, 0), (v ! i, 0), (0, v ! i), (v ! i, v ! i)] in
            fold (\<lambda>k w. fst (fold (\<lambda>j (w, a). let (y0, y1) = mb ! unat (a AND 3); p = 64 * k + 2 * j
                                              in (w[p := w ! p XOR y0, p + 1 := w ! (p + 1) XOR y1], drop_bit 2 a))
                               [0..<32] (w, u ! (K * i + k)))) [0..<K] w)
       [0..<n] (replicate (64 * K) 0)"

section \<open>They compute products\<close>

lemma transpose_transpose: "length B = 64 \<Longrightarrow> transpose64 (transpose64 B) = B"
  by (intro nth_equalityI bit_word_eqI) (simp_all add: bit_transpose64)

lemma mul_6464_6464_eq: "length A = 64 \<Longrightarrow> length B = 64 \<Longrightarrow> mul_6464_6464 A B = matmul A B"
proof -
  assume a: "length A = 64" "length B = 64"
  let ?mem = "\<lambda>p. if p < 64 then A ! p else B ! (p - 64)"
  have "words_at ?mem 0 64 = A" "words_at ?mem 64 64 = B" using a by (auto intro!: nth_equalityI)
  moreover have "in_place_ok 128 0 64" by (simp add: in_place_ok_def)
  ultimately show ?thesis using a words_at_write [of ?mem 128 "matmul A B"]
    by (simp add: mul_6464_6464_def lookup4_in_place)
qed

lemma sse_pair: "length B = 64 \<Longrightarrow> fold (\<lambda>i. sse_step (B ! i)) [0..<64] ((0, 0), (a0, a1)) = ((vecmat a0 B, vecmat a1 B), (0, 0))"
  using fold_nth [of sse_step B] by (simp add: fold_sse)

lemma mul_N64_sse_pairs_even:
  assumes "length A = m" "length C = m" "length B = 64" "even m" "even j" "j \<le> m" "\<forall>k < j. C ! k = vecmat (A ! k) B"
  shows "mul_N64_sse_pairs A B m j C = Some (m, matmul A B)"
  using assms
proof (induction A B m j C rule: mul_N64_sse_pairs.induct)
  case (1 A B m j C)
  show ?case
  proof (cases "j < m")
    case True
    then have j: "j + 1 < m" using "1.prems"(4,5) by (metis Suc_eq_plus1 Suc_lessI even_Suc)
    let ?C = "C[j := vecmat (A ! j) B, j + 1 := vecmat (A ! (j + 1)) B]"
    have "\<forall>k < j + 2. ?C ! k = vecmat (A ! k) B" using "1.prems"(2,7) j by (auto simp: nth_list_update less_Suc_eq)
    moreover have "mul_N64_sse_pairs A B m (j + 2) C' = Some (m, matmul A B)"
      if "store_pair C j (vecmat (A ! j) B, vecmat (A ! (j + 1)) B) = Some C'" "length C' = m" "\<forall>k < j + 2. C' ! k = vecmat (A ! k) B" for C'
      using "1.IH" [OF True, of "(A ! j, A ! (j + 1))"] "1.prems" j that by (simp add: load_pair_def sse_pair)
    ultimately have "mul_N64_sse_pairs A B m (j + 2) ?C = Some (m, matmul A B)" using j "1.prems"(2) by (simp add: store_pair_def)
    then show ?thesis using True j "1.prems" by (subst mul_N64_sse_pairs.simps) (simp add: load_pair_def store_pair_def sse_pair)
  next
    case False
    then have "C = matmul A B" using "1.prems" by (intro nth_equalityI) simp_all
    then show ?thesis using False "1.prems"(6) by (subst mul_N64_sse_pairs.simps) simp
  qed
qed

text \<open>For odd \<open>m\<close> the last turn starts at the last word: it reads the pair of it and of the word after the array.\<close>

lemma mul_N64_sse_pairs_odd:
  "length A = m \<Longrightarrow> length B = 64 \<Longrightarrow> odd m \<Longrightarrow> even j \<Longrightarrow> j < m \<Longrightarrow> mul_N64_sse_pairs A B m j C = None"
proof (induction A B m j C rule: mul_N64_sse_pairs.induct)
  case (1 A B m j C)
  show ?case
  proof (cases "j + 1 < m")
    case True
    then have "j + 2 < m" using "1.prems"(3,4) by (metis Suc_eq_plus1 Suc_lessI add_2_eq_Suc' even_Suc)
    then have "mul_N64_sse_pairs A B m (j + 2) C' = None" if "store_pair C j (vecmat (A ! j) B, vecmat (A ! (j + 1)) B) = Some C'" for C'
      using "1.IH" [of "(A ! j, A ! (j + 1))"] "1.prems" True that by (simp add: load_pair_def sse_pair)
    then show ?thesis using "1.prems" True
      by (subst mul_N64_sse_pairs.simps) (cases "store_pair C j (vecmat (A ! j) B, vecmat (A ! (j + 1)) B)"; simp add: load_pair_def sse_pair)
  next
    case False
    then show ?thesis using "1.prems" by (subst mul_N64_sse_pairs.simps) (simp add: load_pair_def)
  qed
qed

lemma mul_N64_6464_sse_eq:
  assumes "length A = m" "length B = 64"
  shows "mul_N64_6464_sse A B m = (if even m then Some (matmul A B) else None)"
proof (cases "even m")
  case True
  then have "mul_N64_sse_pairs A B m 0 (replicate m 0) = Some (m, matmul A B)" using assms by (intro mul_N64_sse_pairs_even) simp_all
  then show ?thesis using True by (simp add: mul_N64_6464_sse_def mul_N64_sse_rest_def)
next
  case False
  then have "0 < m" by (cases m) simp_all
  then have "mul_N64_sse_pairs A B m 0 (replicate m 0) = None" using assms False by (intro mul_N64_sse_pairs_odd) simp_all
  then show ?thesis using False by (simp add: mul_N64_6464_sse_def)
qed

lemma mul_N64_vec_eq:
  assumes "length A = m" "length B = 64"
  shows "mul_N64_6464_vec A B m = matmul A B" "mul_N64_T6464_vec A B m = matmul A (transpose64 B)"
  using assms by (auto simp: mul_N64_6464_vec_def mul_N64_T6464_vec_def mul_o64_6464_def mul_o64_T6464_def mul_o64_6464_C_lsb_eq
      mul_o64_T6464_C_parity_eq intro!: nth_equalityI)

text \<open>Row \<open>k\<close> of the product of the transpose of the column of words \<open>A\<close> with \<open>x\<close>.\<close>

fun tmul :: "nat \<Rightarrow> 'a :: len word list \<Rightarrow> ul list \<Rightarrow> ul" where
  "tmul k (a # A) (w # W) = (if bit a k then w else 0) XOR tmul k A W"
| "tmul k A W = 0"

lemma tmul_snoc: "length A = length W \<Longrightarrow> tmul k (A @ [a]) (W @ [w]) = tmul k A W XOR (if bit a k then w else 0)"
  by (induction A W rule: list_induct2) (auto simp: ac_simps)

lemma tmul_take: "n < length A \<Longrightarrow> n < length W \<Longrightarrow>
    tmul k (take (Suc n) A) (take (Suc n) W) = tmul k (take n A) (take n W) XOR (if bit (A ! n) k then W ! n else 0)"
  by (simp add: take_Suc_conv_app_nth tmul_snoc)

lemma bit_tmul: "length A = length W \<Longrightarrow> bit (tmul k A W) j = parity_upto (\<lambda>i. bit (A ! i) k \<and> bit (W ! i) j) (length W)"
proof (induction A arbitrary: W rule: rev_induct)
  case (snoc a A)
  obtain W' w where w: "W = W' @ [w]" "length A = length W'" using snoc.prems by (cases W rule: rev_cases) auto
  have "parity_upto (\<lambda>i. bit ((A @ [a]) ! i) k \<and> bit ((W' @ [w]) ! i) j) (length W') = parity_upto (\<lambda>i. bit (A ! i) k \<and> bit (W' ! i) j) (length W')"
    by (rule parity_upto_cong) (simp add: nth_append w(2))
  then show ?case using snoc.IH [OF w(2)] w by (simp add: tmul_snoc bit_xor_iff nth_append) auto
qed simp

lemma tmul_square: "length A = 64 \<Longrightarrow> length W = 64 \<Longrightarrow> k < 64 \<Longrightarrow> tmul k A W = vecmat (transpose64 A ! k) W"
  by (rule bit_word_eqI) (auto simp: bit_tmul bit_vecmat bit_transpose64 intro!: parity_upto_cong)

lemma mul_64N_N64_addmul_eq:
  assumes "length a = n" "length w = n"
  shows "mul_64N_N64_addmul a w n = map (\<lambda>k. tmul k a w) [0..<64]"
proof -
  have "fold (\<lambda>i r. addmul_To64_o64 r (a ! i) (w ! i)) [0..<m] (replicate 64 0) = map (\<lambda>k. tmul k (take m a) (take m w)) [0..<64]" if "m \<le> n" for m
    using that
  proof (induction m)
    case (Suc m)
    then show ?case using assms by (simp add: addmul_To64_o64_def addmul_packof2_eq add_outer_def tmul_take)
  qed (simp add: map_replicate_const)
  from this [of n] show ?thesis using assms by (simp add: mul_64N_N64_addmul_def)
qed

lemma mul_TN64_N64_C_eq:
  assumes "length A = n" "length x = n"
  shows "mul_TN64_N64_C A x n = map (\<lambda>k. tmul k A x) [0..<64]"
proof -
  have "fold (\<lambda>idx b. addmul_To64_o64_lsb b (A ! idx) (x ! idx)) [0..<m] (replicate 64 0) = map (\<lambda>k. tmul k (take m A) (take m x)) [0..<64]" if "m \<le> n" for m
    using that
  proof (induction m)
    case (Suc m)
    then show ?case using assms by (simp add: addmul_lsb_eq add_outer_def tmul_take)
  qed (simp add: map_replicate_const)
  from this [of n] show ?thesis using assms by (simp add: mul_TN64_N64_C_def addmul_To64_o64_lsb_def)
qed

lemma mul_TN32_N64_C_eq:
  assumes "length A = n" "length x = n"
  shows "mul_TN32_N64_C A x n = map (\<lambda>k. tmul k A (map (take_bit 32) x)) [0..<32]"
proof -
  have m: "w AND ucast (- (rA AND 1 :: u32)) = (if odd rA then take_bit 32 w else (0 :: ul))" for w rA
    by (rule bit_word_eqI) (auto simp: bit_and_iff bit_ucast_iff bit_take_bit_iff and_one_eq mod_2_eq_odd)
  have s: "fst (fold (\<lambda>i (b, rA). (b[i := b ! i XOR (w AND ucast (- (rA AND 1)))], drop_bit 1 rA)) [0..<32] (b, a))
      = map (\<lambda>i. b ! i XOR (if bit a i then take_bit 32 w else 0)) [0..<32]" if "length b = 32" for b :: "ul list" and w and a :: u32
  proof -
    have "(drop_bit 1 ^^ i) a = drop_bit i a" for i by (induction i) (simp_all add: drop_bit_drop_bit)
    moreover note fold_rows [of 32 b "\<lambda>x a. x XOR (w AND ucast (- (a AND 1)))" "drop_bit 1" a]
    moreover have "32 \<le> length b" using that by simp
    ultimately show ?thesis using that by (simp only: fst_conv) (auto simp: m bit_iff_odd_drop_bit intro!: nth_equalityI)
  qed
  have "fold (\<lambda>idx b. fst (fold (\<lambda>i (b, rA). (b[i := b ! i XOR (x ! idx AND ucast (- (rA AND 1)))], drop_bit 1 rA)) [0..<32] (b, A ! idx)))
       [0..<m] (replicate 32 0) = map (\<lambda>k. tmul k (take m A) (take m (map (take_bit 32) x))) [0..<32]" if "m \<le> n" for m
    using that
  proof (induction m)
    case (Suc m)
    then have "fold (\<lambda>idx b. fst (fold (\<lambda>i (b, rA). (b[i := b ! i XOR (x ! idx AND ucast (- (rA AND 1)))], drop_bit 1 rA)) [0..<32] (b, A ! idx)))
       [0..<m] (replicate 32 0) = map (\<lambda>k. tmul k (take m A) (take m (map (take_bit 32) x))) [0..<32]" by simp
    then show ?case using Suc.prems assms by (simp only: fold_upt_Suc) (subst s, simp_all add: tmul_take)
  qed (simp add: map_replicate_const)
  from this [of n] show ?thesis using assms by (simp add: mul_TN32_N64_C_def)
qed

lemma fold_rows_at:
  assumes "p + n \<le> length r"
  shows "fold (\<lambda>i (r, a). (r[p + i := f (r ! (p + i)) a], g a)) [0..<n] (r, a)
    = (map (\<lambda>q. if p \<le> q \<and> q < p + n then f (r ! q) ((g ^^ (q - p)) a) else r ! q) [0..<length r], (g ^^ n) a)"
  using assms
proof (induction n)
  case (Suc n)
  have q: "p \<le> q \<and> q < p + Suc n \<longleftrightarrow> p \<le> q \<and> q < p + n \<or> q = p + n" for q by auto
  have "p + n < length r" using Suc.prems by simp
  then show ?case using Suc unfolding q by (simp add: map_upt_update)
qed (auto intro!: nth_equalityI)

lemma fold_row_pairs_at:
  assumes "p + 2 * n \<le> length r"
  shows "fold (\<lambda>i (r, a). (r[p + 2 * i := f0 (r ! (p + 2 * i)) a, p + 2 * i + 1 := f1 (r ! (p + 2 * i + 1)) a], g a)) [0..<n] (r, a)
    = (map (\<lambda>q. if p \<le> q \<and> q < p + 2 * n then (if even (q - p) then f0 else f1) (r ! q) ((g ^^ ((q - p) div 2)) a) else r ! q) [0..<length r], (g ^^ n) a)"
  using assms
proof (induction n)
  case (Suc n)
  have q: "p \<le> q \<and> q < p + 2 * Suc n \<longleftrightarrow> p \<le> q \<and> q < p + 2 * n \<or> q = p + 2 * n \<or> q = Suc (p + 2 * n)" for q by auto
  have l: "p + 2 * n < length r" "Suc (p + 2 * n) < length r" "p + 2 * n \<le> length r" using Suc.prems by simp_all
  show ?case using Suc.IH [OF l(3)] l unfolding q by (simp add: map_upt_update)
qed (auto intro!: nth_equalityI)

text \<open>Adding \<open>w\<close> to the rows of block \<open>j\<close> given by the bits of \<open>a\<close>.\<close>

definition add_block :: "nat \<Rightarrow> ul \<Rightarrow> ul \<Rightarrow> ul list \<Rightarrow> ul list" where
  "add_block j a w b = map (\<lambda>q. b ! q XOR (if q div 64 = j \<and> bit a (q mod 64) then w else 0)) [0..<length b]"

lemma block_iff: "64 * j \<le> q \<and> q < 64 * j + 64 \<longleftrightarrow> q div 64 = j" and block_mod: "q div 64 = j \<Longrightarrow> q - 64 * j = q mod 64" for q j :: nat
  by (auto simp: modulo_nat_def)

lemma add_block_C:
  assumes "64 * j + 64 \<le> length b"
  shows "fst (fold (\<lambda>i (b, rA). (b[64 * j + i := b ! (64 * j + i) XOR (w AND - (rA AND 1))], drop_bit 1 rA)) [0..<64] (b, a)) = add_block j a w b"
  by (subst fold_rows_at [OF assms, where f = "\<lambda>x a. x XOR (w AND - (a AND 1))" and g = "drop_bit 1"])
    (auto simp: add_block_def block_iff [simplified] block_mod and_mask_lsb bit_iff_odd_drop_bit drop_bit_funpow [where k = 1, simplified] intro!: nth_equalityI)

lemma add_block_sse:
  assumes "64 * k + 64 \<le> length b"
  shows "fst (fold (\<lambda>j (w, a). let (y0, y1) = [(0, 0), (v, 0), (0, v), (v, v)] ! unat (a AND 3); p = 64 * k + 2 * j
           in (w[p := w ! p XOR y0, p + 1 := w ! (p + 1) XOR y1], drop_bit 2 a)) [0..<32] (b, a)) = add_block k a v b"
proof -
  have l: "64 * k + 2 * 32 \<le> length b" using assms by simp
  have "odd q \<longrightarrow> bit (drop_bit (q - Suc 0) a) (Suc 0) = bit a q" "odd q \<or> bit (drop_bit (2 * (q div 2)) a) 0 = bit a q" for q
    by (auto simp: bit_drop_bit_eq)
  then show ?thesis
    using fold_row_pairs_at [OF l, of "\<lambda>x a. x XOR (if bit a 0 then v else 0)" "\<lambda>x a. x XOR (if bit a 1 then v else 0)" "drop_bit 2" a]
    by (simp only: mb_nth Let_def case_prod_conv) (auto simp: add_block_def block_iff [simplified] block_mod drop_bit_funpow intro!: nth_equalityI)
qed

definition block_col :: "ul list \<Rightarrow> nat \<Rightarrow> nat \<Rightarrow> nat \<Rightarrow> ul list" where
  "block_col A K j n = map (\<lambda>idx. A ! (K * idx + j)) [0..<n]"

lemma fold_blocks:
  assumes "length b = 64 * K" "j \<le> K"
  shows "fold (\<lambda>j b. add_block j (A ! (K * idx + j)) w b) [0..<j] b
    = map (\<lambda>q. b ! q XOR (if q div 64 < j \<and> bit (A ! (K * idx + q div 64)) (q mod 64) then w else 0)) [0..<64 * K]"
  using assms(2)
proof (induction j)
  case (Suc j)
  then show ?case using assms(1) by (auto simp: add_block_def less_Suc_eq intro!: nth_equalityI)
qed (use assms(1) in \<open>simp add: map_nth [of b, unfolded assms(1)]\<close>)

lemma fold_columns:
  assumes "length x = n"
  shows "fold (\<lambda>idx b. fold (\<lambda>j b. add_block j (A ! (K * idx + j)) (x ! idx) b) [0..<K] b) [0..<n] (replicate (64 * K) 0)
    = map (\<lambda>q. tmul (q mod 64) (block_col A K (q div 64) n) x) [0..<64 * K]"
proof -
  have "fold (\<lambda>idx b. fold (\<lambda>j b. add_block j (A ! (K * idx + j)) (x ! idx) b) [0..<K] b) [0..<m] (replicate (64 * K) 0)
    = map (\<lambda>q. tmul (q mod 64) (block_col A K (q div 64) m) (take m x)) [0..<64 * K]" if "m \<le> n" for m
    using that
  proof (induction m)
    case (Suc m)
    have "tmul (q mod 64) (block_col A K (q div 64) (Suc m)) (take (Suc m) x)
        = tmul (q mod 64) (block_col A K (q div 64) m) (take m x) XOR (if bit (A ! (K * m + q div 64)) (q mod 64) then x ! m else 0)" for q
      using Suc.prems assms by (simp add: block_col_def take_Suc_conv_app_nth tmul_snoc)
    moreover have "q div 64 < K" if "q < 64 * K" for q using that by (simp add: less_mult_imp_div_less mult.commute)
    ultimately show ?case using Suc by (simp only: fold_upt_Suc) (subst fold_blocks, auto intro!: nth_equalityI)
  qed (simp add: block_col_def map_replicate_const)
  from this [of n] show ?thesis using assms by simp
qed

lemma fold_cong_inv:
  assumes "\<And>x s. x \<in> set xs \<Longrightarrow> P s \<Longrightarrow> f x s = g x s \<and> P (g x s)" "P s"
  shows "fold f xs s = fold g xs s"
  using assms by (induction xs arbitrary: s) auto

lemma fold_inv: "(\<And>x s. x \<in> set xs \<Longrightarrow> P s \<Longrightarrow> P (f x s)) \<Longrightarrow> P s \<Longrightarrow> P (fold f xs s)"
  by (induction xs arbitrary: s) auto

lemma add_block_length [simp]: "length (add_block j a w b) = length b"
  by (simp add: add_block_def)

lemma mul_TN64K_eq:
  assumes "length x = n"
  shows "mul_TN64K_N64_C A x n K = map (\<lambda>q. tmul (q mod 64) (block_col A K (q div 64) n) x) [0..<64 * K]"
    "mul_TN64K_N64_sse2 A x n K = map (\<lambda>q. tmul (q mod 64) (block_col A K (q div 64) n) x) [0..<64 * K]"
proof -
  let ?P = "\<lambda>b :: ul list. length b = 64 * K"
  have blk: "64 * j + 64 \<le> length b" if "?P b" "j \<in> set [0..<K]" for b :: "ul list" and j using that by auto
  have len: "?P (fold (\<lambda>j b. add_block j (A ! (K * idx + j)) w b) [0..<K] b)" if "?P b" for b idx w
    by (rule fold_inv [where P = ?P]) (simp_all add: that)
  have C: "fold (\<lambda>j b. fst (fold (\<lambda>i (b, rA). (b[64 * j + i := b ! (64 * j + i) XOR (w AND - (rA AND 1))], drop_bit 1 rA)) [0..<64] (b, A ! (K * idx + j)))) [0..<K] b
      = fold (\<lambda>j b. add_block j (A ! (K * idx + j)) w b) [0..<K] b" if "?P b" for b idx w
    by (rule fold_cong_inv [where P = ?P]) (simp_all only: add_block_C [OF blk] add_block_length that simp_thms)
  have "mul_TN64K_N64_C A x n K = fold (\<lambda>idx b. fold (\<lambda>j b. add_block j (A ! (K * idx + j)) (x ! idx) b) [0..<K] b) [0..<n] (replicate (64 * K) 0)"
    unfolding mul_TN64K_N64_C_def
    by (rule fold_cong_inv [where P = ?P]) (simp_all only: C len simp_thms length_replicate)
  then show "mul_TN64K_N64_C A x n K = map (\<lambda>q. tmul (q mod 64) (block_col A K (q div 64) n) x) [0..<64 * K]"
    using fold_columns [OF assms] by simp
  have S: "(let mb = [(0, 0), (v, 0), (0, v), (v, v)] in
            fold (\<lambda>k w. fst (fold (\<lambda>j (w, a). let (y0, y1) = mb ! unat (a AND 3); p = 64 * k + 2 * j
                                              in (w[p := w ! p XOR y0, p + 1 := w ! (p + 1) XOR y1], drop_bit 2 a))
                               [0..<32] (w, A ! (K * idx + k)))) [0..<K] b)
      = fold (\<lambda>j b. add_block j (A ! (K * idx + j)) v b) [0..<K] b" if "?P b" for b idx v
    unfolding Let_def [of "[(0, 0), (v, 0), (0, v), (v, v)]"]
    by (rule fold_cong_inv [where P = ?P]) (simp_all only: add_block_sse [OF blk] add_block_length that simp_thms)
  have "mul_TN64K_N64_sse2 A x n K = fold (\<lambda>idx b. fold (\<lambda>j b. add_block j (A ! (K * idx + j)) (x ! idx) b) [0..<K] b) [0..<n] (replicate (64 * K) 0)"
    unfolding mul_TN64K_N64_sse2_def
    by (rule fold_cong_inv [where P = ?P]) (simp_all only: S len simp_thms length_replicate)
  then show "mul_TN64K_N64_sse2 A x n K = map (\<lambda>q. tmul (q mod 64) (block_col A K (q div 64) n) x) [0..<64 * K]"
    using fold_columns [OF assms] by simp
qed

section \<open>Sixty-four parities at once\<close>

definition XMIX32 :: "ul \<Rightarrow> ul \<Rightarrow> ul" where
  "XMIX32 b a = drop_bit 32 (push_bit 32 a XOR a) + push_bit 32 (drop_bit 32 b XOR b)"

definition XMIX16 :: "ul \<Rightarrow> ul \<Rightarrow> ul" where
  "XMIX16 b a = ((drop_bit 16 a XOR a) AND 0x0000FFFF0000FFFF) + ((push_bit 16 b XOR b) AND 0xFFFF0000FFFF0000)"

definition XMIX8 :: "ul \<Rightarrow> ul \<Rightarrow> ul" where
  "XMIX8 b a = ((drop_bit 8 a XOR a) AND 0x00FF00FF00FF00FF) + ((push_bit 8 b XOR b) AND 0xFF00FF00FF00FF00)"

definition XMIX4 :: "ul \<Rightarrow> ul \<Rightarrow> ul" where
  "XMIX4 b a = ((drop_bit 4 a XOR a) AND 0x0F0F0F0F0F0F0F0F) + ((push_bit 4 b XOR b) AND 0xF0F0F0F0F0F0F0F0)"

definition XMIX2 :: "ul \<Rightarrow> ul \<Rightarrow> ul" where
  "XMIX2 b a = ((drop_bit 2 a XOR a) AND 0x3333333333333333) + ((push_bit 2 b XOR b) AND 0xCCCCCCCCCCCCCCCC)"

definition XMIX1 :: "ul \<Rightarrow> ul \<Rightarrow> ul" where
  "XMIX1 b a = ((drop_bit 1 a XOR a) AND 0x5555555555555555) + ((push_bit 1 b XOR b) AND 0xAAAAAAAAAAAAAAAA)"

text \<open>\<open>buf\<close> is a pointer into the matrix: \<open>off\<close> is its distance from the first row.\<close>

definition parity64_helper2 :: "ul list \<Rightarrow> nat \<Rightarrow> ul \<Rightarrow> ul" where
  "parity64_helper2 m off a =
     (let buf = (\<lambda>i. m ! (off + i));
          a0 = XMIX32 (buf 0x20 AND a) (buf 0x00 AND a);
          a1 = XMIX32 (buf 0x30 AND a) (buf 0x10 AND a);
          b0 = XMIX16 a1 a0;
          a0 = XMIX32 (buf 0x28 AND a) (buf 0x08 AND a);
          a1 = XMIX32 (buf 0x38 AND a) (buf 0x18 AND a);
          b1 = XMIX16 a1 a0;
          c0 = XMIX8 b1 b0;
          a0 = XMIX32 (buf 0x24 AND a) (buf 0x04 AND a);
          a1 = XMIX32 (buf 0x34 AND a) (buf 0x14 AND a);
          b0 = XMIX16 a1 a0;
          a0 = XMIX32 (buf 0x2C AND a) (buf 0x0C AND a);
          a1 = XMIX32 (buf 0x3C AND a) (buf 0x1C AND a);
          b1 = XMIX16 a1 a0;
          c1 = XMIX8 b1 b0
      in XMIX4 c1 c0)"

definition mul_o64_T6464_C_parity3 :: "ul \<Rightarrow> mat64 \<Rightarrow> ul" where
  "mul_o64_T6464_C_parity3 a b =
     (let d0 = parity64_helper2 b 0 a;
          d1 = parity64_helper2 b 2 a;
          e0 = XMIX2 d1 d0;
          d0 = parity64_helper2 b 1 a;
          d1 = parity64_helper2 b 3 a;
          e1 = XMIX2 d1 d0
      in XMIX1 e1 e0)"

text \<open>Folding: bit \<open>n\<close> of the result adds two bits of \<open>a\<close> or of \<open>b\<close> that are \<open>k\<close> apart.\<close>

definition folds :: "nat \<Rightarrow> ul \<Rightarrow> ul \<Rightarrow> ul \<Rightarrow> bool" where
  "folds k c b a \<longleftrightarrow> (\<forall>n < 64. bit c n = (if n mod (2 * k) < k then bit a n \<noteq> bit a (n + k) else bit b n \<noteq> bit b (n - k)))"

lemma folds_mask:
  assumes "\<forall>n < 64. bit (m :: ul) n = (n mod (2 * k) < k)" "m' = NOT m" "k < 64"
  shows "folds k (((drop_bit k a XOR a) AND m) + ((push_bit k b XOR b) AND m')) b a"
proof -
  have "(drop_bit k a XOR a) AND m AND ((push_bit k b XOR b) AND m') = 0"
    by (rule bit_word_eqI) (simp add: assms(2) bit_and_iff bit_not_iff)
  then have "((drop_bit k a XOR a) AND m) + ((push_bit k b XOR b) AND m') = ((drop_bit k a XOR a) AND m) XOR ((push_bit k b XOR b) AND m')"
    by (simp add: disjunctive_add_eq_xor ac_simps)
  moreover have "k \<le> n" if "\<not> n mod (2 * k) < k" for n using that by (meson mod_less_eq_dividend not_less order_trans)
  ultimately show ?thesis using assms
    by (auto simp: folds_def bit_xor_iff bit_and_iff bit_not_iff bit_drop_bit_eq bit_push_bit_iff add.commute)
qed

lemma all64: "(\<forall>n < 64. P n) \<longleftrightarrow> list_all P [0..<64]" for P :: "nat \<Rightarrow> bool"
  by (auto simp: list_all_iff)

lemma folds_XMIX: "folds 16 (XMIX16 b a) b a" "folds 8 (XMIX8 b a) b a" "folds 4 (XMIX4 b a) b a" "folds 2 (XMIX2 b a) b a" "folds 1 (XMIX1 b a) b a"
proof -
  show "folds 16 (XMIX16 b a) b a" unfolding XMIX16_def by (rule folds_mask) (simp_all add: all64 upt_rec bit_numeral_rec)
  show "folds 8 (XMIX8 b a) b a" unfolding XMIX8_def by (rule folds_mask) (simp_all add: all64 upt_rec)
  show "folds 4 (XMIX4 b a) b a" unfolding XMIX4_def by (rule folds_mask) (simp_all add: all64 upt_rec)
  show "folds 2 (XMIX2 b a) b a" unfolding XMIX2_def by (rule folds_mask) (simp_all add: all64 upt_rec)
  show "folds 1 (XMIX1 b a) b a" unfolding XMIX1_def by (rule folds_mask) (simp_all add: all64 upt_rec)
qed

lemma folds_XMIX32: "folds 32 (XMIX32 b a) b a"
proof -
  have "drop_bit 32 (push_bit 32 a XOR a) AND push_bit 32 (drop_bit 32 b XOR b) = 0"
    by (rule bit_word_eqI) (auto simp: bit_and_iff bit_drop_bit_eq bit_push_bit_iff bit_xor_iff dest: bit_imp_le_length)
  then have "XMIX32 b a = drop_bit 32 (push_bit 32 a XOR a) XOR push_bit 32 (drop_bit 32 b XOR b)"
    by (simp add: XMIX32_def disjunctive_add_eq_xor)
  then show ?thesis by (auto simp: folds_def bit_xor_iff bit_drop_bit_eq bit_push_bit_iff add.commute dest: bit_imp_le_length)
qed

text \<open>The parity of the bits of \<open>x\<close> whose index is congruent to \<open>n\<close> modulo \<open>k\<close>.\<close>

definition bit_parity :: "nat \<Rightarrow> ul \<Rightarrow> nat \<Rightarrow> bool" where
  "bit_parity k x n = parity_upto (\<lambda>i. bit x (n mod k + i * k)) (64 div k)"

lemma parity_upto_double: "parity_upto f (2 * m) = (parity_upto (\<lambda>i. f (2 * i)) m \<noteq> parity_upto (\<lambda>i. f (2 * i + 1)) m)"
  by (induction m) auto

lemma bit_parity_half:
  assumes "64 = 2 * k * m"
  shows "bit_parity k x n = (bit_parity (2 * k) x n \<noteq> bit_parity (2 * k) x (n + k))"
    "k \<le> n \<Longrightarrow> bit_parity k x n = (bit_parity (2 * k) x n \<noteq> bit_parity (2 * k) x (n - k))"
proof -
  have k: "0 < k" "0 < m" using assms by (auto intro: Nat.gr0I)
  have m: "64 div (2 * k) = m" "64 div k = 2 * m" using k by (simp_all add: assms)
  have two: "bit_parity k x n = (parity_upto (\<lambda>i. bit x (n mod k + 2 * i * k)) m \<noteq> parity_upto (\<lambda>i. bit x (n mod k + k + 2 * i * k)) m)" for n
    unfolding bit_parity_def m(2) parity_upto_double by (simp add: algebra_simps)
  have bp2: "bit_parity (2 * k) x n = parity_upto (\<lambda>i. bit x (n mod (2 * k) + 2 * i * k)) m" for n
    unfolding bit_parity_def m(1) by (simp add: algebra_simps)
  have r: "n mod (2 * k) = n mod k \<and> (n + k) mod (2 * k) = n mod k + k \<or> n mod (2 * k) = n mod k + k \<and> (n + k) mod (2 * k) = n mod k" for n
  proof -
    have n: "n mod (2 * k) = k * (n div k mod 2) + n mod k" using mod_mult2_eq [of n k 2] by (simp add: mult.commute)
    have n': "(n + k) mod (2 * k) = k * ((n div k + 1) mod 2) + n mod k" using mod_mult2_eq [of "n + k" k 2] div_add_self2 [of k n] k(1) by (simp add: mult.commute)
    show ?thesis using n n' by (cases "even (n div k)") (simp_all add: mod_2_eq_odd add.commute)
  qed
  have main: "bit_parity k x n = (bit_parity (2 * k) x n \<noteq> bit_parity (2 * k) x (n + k))" for n
    unfolding two [of n] bp2 using r [of n] by (elim disjE conjE) (simp_all only:, auto)
  then show "bit_parity k x n = (bit_parity (2 * k) x n \<noteq> bit_parity (2 * k) x (n + k))" .
  assume n: "k \<le> n"
  have "bit_parity k x n = bit_parity k x (n - k)" using n by (simp add: bit_parity_def le_mod_geq)
  then show "bit_parity k x n = (bit_parity (2 * k) x n \<noteq> bit_parity (2 * k) x (n - k))" using main [of "n - k"] n by auto
qed

text \<open>Block \<open>j\<close> of width \<open>k\<close> of the word \<open>c\<close> holds parities of the word \<open>F j\<close>.\<close>

definition holds :: "nat \<Rightarrow> ul \<Rightarrow> (nat \<Rightarrow> ul) \<Rightarrow> bool" where
  "holds k c F \<longleftrightarrow> (\<forall>n < 64. bit c n = bit_parity k (F (n div k)) n)"

definition interleave :: "(nat \<Rightarrow> ul) \<Rightarrow> (nat \<Rightarrow> ul) \<Rightarrow> nat \<Rightarrow> ul" where
  "interleave F G = (\<lambda>j. if even j then F (j div 2) else G (j div 2))"

lemma holds_64: "holds 64 x (\<lambda>_. x)"
  by (simp add: holds_def bit_parity_def)

lemma holds_fold:
  assumes "64 = 2 * k * m" "holds (2 * k) a F" "holds (2 * k) b G" "folds k c b a"
  shows "holds k c (interleave F G)"
  unfolding holds_def
proof (intro allI impI)
  fix n :: nat assume n: "n < 64"
  have k: "0 < k" using assms(1) by (auto intro: Nat.gr0I)
  have d: "n div (2 * k) = n div k div 2" by (simp add: div_mult2_eq mult.commute)
  have m: "n mod (2 * k) = k * (n div k mod 2) + n mod k" using mod_mult2_eq [of n k 2] by (simp add: mult.commute)
  show "bit c n = bit_parity k (interleave F G (n div k)) n"
  proof (cases "n mod (2 * k) < k")
    case True
    have e: "even (n div k)" using True m k by (cases "even (n div k)") (simp_all add: mod_2_eq_odd)
    have "(n + k) div k = Suc (n div k)" using div_add_self2 [of k n] k by simp
    moreover obtain q where "n div k = 2 * q" using e by blast
    ultimately have "(n + k) div k div 2 = n div k div 2" by simp
    then have d': "(n + k) div (2 * k) = n div k div 2" by (simp add: div_mult2_eq mult.commute)
    have "n < 2 * k * m" using n assms(1) by simp
    then have "n div (2 * k) < m" using k by (simp add: less_mult_imp_div_less mult.commute)
    then have "2 * k * Suc (n div (2 * k)) \<le> 64" unfolding assms(1) by (intro mult_le_mono2) simp
    moreover have "n = 2 * k * (n div (2 * k)) + n mod (2 * k)" by simp
    ultimately have "n + k < 64" using True by (simp add: algebra_simps)
    then have "bit a (n + k) = bit_parity (2 * k) (F (n div k div 2)) (n + k)" using assms(2) d' by (simp add: holds_def)
    moreover have "bit a n = bit_parity (2 * k) (F (n div k div 2)) n" using assms(2) n d by (simp add: holds_def)
    moreover have "bit c n = (bit a n \<noteq> bit a (n + k))" using assms(4) n True by (simp add: folds_def)
    ultimately show ?thesis using e bit_parity_half(1) [OF assms(1)] by (simp add: interleave_def)
  next
    case False
    have o: "odd (n div k)" using False m k by (cases "even (n div k)") (simp_all add: mod_2_eq_odd)
    have kn: "k \<le> n" using False by (meson mod_less_eq_dividend not_less order_trans)
    have "(n - k) div k = n div k - 1" using kn k by (metis add.commute diff_add_inverse2 div_add_self2 le_add_diff_inverse2 less_numeral_extra(3))
    moreover obtain q where "n div k = 2 * q + 1" using o by (rule oddE)
    ultimately have "(n - k) div k div 2 = n div k div 2" by simp
    then have d': "(n - k) div (2 * k) = n div k div 2" by (simp add: div_mult2_eq mult.commute)
    have "bit b (n - k) = bit_parity (2 * k) (G (n div k div 2)) (n - k)" using assms(3) n d' by (simp add: holds_def)
    moreover have "bit b n = bit_parity (2 * k) (G (n div k div 2)) n" using assms(3) n d by (simp add: holds_def)
    moreover have "bit c n = (bit b n \<noteq> bit b (n - k))" using assms(4) n False by (simp add: folds_def)
    ultimately show ?thesis using o bit_parity_half(2) [OF assms(1) kn] by (auto simp: interleave_def)
  qed
qed

lemma holds_XMIX:
  "holds 32 (XMIX32 b a) (interleave (\<lambda>_. a) (\<lambda>_. b))"
  "holds 32 a F \<Longrightarrow> holds 32 b G \<Longrightarrow> holds 16 (XMIX16 b a) (interleave F G)"
  "holds 16 a F \<Longrightarrow> holds 16 b G \<Longrightarrow> holds 8 (XMIX8 b a) (interleave F G)"
  "holds 8 a F \<Longrightarrow> holds 8 b G \<Longrightarrow> holds 4 (XMIX4 b a) (interleave F G)"
  "holds 4 a F \<Longrightarrow> holds 4 b G \<Longrightarrow> holds 2 (XMIX2 b a) (interleave F G)"
  "holds 2 a F \<Longrightarrow> holds 2 b G \<Longrightarrow> holds 1 (XMIX1 b a) (interleave F G)"
  using holds_fold [of 32 1, simplified, OF holds_64 holds_64 folds_XMIX32] holds_fold [of 16 2] holds_fold [of 8 4] holds_fold [of 4 8]
    holds_fold [of 2 16] holds_fold [of 1 32] folds_XMIX by simp_all

lemma helper2_holds:
  "\<exists>F. holds 4 (parity64_helper2 m off a) F \<and> (\<forall>j < 16. F j = m ! (off + 4 * j) AND a)"
proof -
  let ?i = "\<lambda>p q. interleave (\<lambda>_. m ! (off + p) AND a) (\<lambda>_. m ! (off + q) AND a)"
  let ?F = "interleave (interleave (interleave (?i 0 32) (?i 16 48)) (interleave (?i 8 40) (?i 24 56)))
     (interleave (interleave (?i 4 36) (?i 20 52)) (interleave (?i 12 44) (?i 28 60)))"
  have "holds 4 (parity64_helper2 m off a) ?F"
    unfolding parity64_helper2_def Let_def add_0_right by (intro holds_XMIX)
  moreover have "\<forall>j < 16. ?F j = m ! (off + 4 * j) AND a"
  proof -
    have "(\<forall>j < 16. P j) \<longleftrightarrow> list_all P [0..<16]" for P :: "nat \<Rightarrow> bool" by (auto simp: list_all_iff)
    then show ?thesis by (simp add: upt_rec interleave_def)
  qed
  ultimately show ?thesis by blast
qed

lemma mul_o64_T6464_C_parity3_eq:
  assumes "length b = 64"
  shows "mul_o64_T6464_C_parity3 a b = vecmat a (transpose64 b)"
proof -
  obtain F0 F1 F2 F3 where F: "holds 4 (parity64_helper2 b 0 a) F0" "\<forall>j < 16. F0 j = b ! (0 + 4 * j) AND a"
    "holds 4 (parity64_helper2 b 1 a) F1" "\<forall>j < 16. F1 j = b ! (1 + 4 * j) AND a"
    "holds 4 (parity64_helper2 b 2 a) F2" "\<forall>j < 16. F2 j = b ! (2 + 4 * j) AND a"
    "holds 4 (parity64_helper2 b 3 a) F3" "\<forall>j < 16. F3 j = b ! (3 + 4 * j) AND a"
    using helper2_holds by metis
  let ?F = "interleave (interleave F0 F2) (interleave F1 F3)"
  have h: "holds 1 (mul_o64_T6464_C_parity3 a b) ?F"
    unfolding mul_o64_T6464_C_parity3_def Let_def by (intro holds_XMIX F)
  have F4: "?F n = b ! n AND a" if "n < 64" for n
  proof -
    have q: "n div 4 < 16" "n div 2 div 2 = n div 4" using that by (auto simp: div_mult2_eq [symmetric])
    have "n = 0 + 4 * (n div 4) \<or> n = 1 + 4 * (n div 4) \<or> n = 2 + 4 * (n div 4) \<or> n = 3 + 4 * (n div 4)" by presburger
    then consider "n = 0 + 4 * (n div 4)" | "n = 1 + 4 * (n div 4)" | "n = 2 + 4 * (n div 4)" | "n = 3 + 4 * (n div 4)" by blast
    then show ?thesis
    proof cases
      case 1
      then have "even n" "even (n div 2)" by presburger+
      then show ?thesis using F(2) q 1 by (simp add: interleave_def)
    next
      case 2
      then have "odd n" "even (n div 2)" by presburger+
      then show ?thesis using F(4) q 2 by (simp add: interleave_def)
    next
      case 3
      then have "even n" "odd (n div 2)" by presburger+
      then show ?thesis using F(6) q 3 by (simp add: interleave_def)
    next
      case 4
      then have "odd n" "odd (n div 2)" by presburger+
      then show ?thesis using F(8) q 4 by (simp add: interleave_def)
    qed
  qed
  show ?thesis
  proof (rule bit_word_eqI)
    fix n assume n: "n < LENGTH(64)"
    have "bit (mul_o64_T6464_C_parity3 a b) n = parity_upto (bit (b ! n AND a)) 64"
      using h n F4 [of n] by (simp add: holds_def bit_parity_def)
    also have "\<dots> = parity_upto (\<lambda>k. bit a k \<and> bit (b ! n) k) 64" by (rule parity_upto_cong) (auto simp: bit_and_iff)
    also have "\<dots> = bit (vecmat a (transpose64 b)) n" using parity_T [of n a b] n by simp
    finally show "bit (mul_o64_T6464_C_parity3 a b) n = bit (vecmat a (transpose64 b)) n" .
  qed
qed

section \<open>Reversing bits\<close>

definition swap_bits :: "nat \<Rightarrow> ul \<Rightarrow> ul \<Rightarrow> ul" where
  "swap_bits k m a = (drop_bit k a AND m) XOR (push_bit k a AND NOT m)"

definition bitrev :: "ul \<Rightarrow> ul" where
  "bitrev a =
     (let a = drop_bit 32 a XOR push_bit 32 a;
          a = swap_bits 16 0x0000ffff0000ffff a;
          a = swap_bits 8 0x00ff00ff00ff00ff a;
          a = swap_bits 4 0x0f0f0f0f0f0f0f0f a;
          a = swap_bits 2 0x3333333333333333 a
      in swap_bits 1 0x5555555555555555 a)"

definition nibrev :: "ul \<Rightarrow> ul" where
  "nibrev a =
     (let a = drop_bit 32 a XOR push_bit 32 a;
          a = swap_bits 16 0x0000ffff0000ffff a;
          a = swap_bits 8 0x00ff00ff00ff00ff a
      in swap_bits 4 0x0f0f0f0f0f0f0f0f a)"

definition flip :: "nat \<Rightarrow> nat \<Rightarrow> nat" where
  "flip k n = (if n mod (2 * k) < k then n + k else n - k)"

lemma bit_swap_bits:
  assumes "\<forall>n < 64. bit m n = (n mod (2 * k) < k)" "n < 64"
  shows "bit (swap_bits k m a) n = bit a (flip k n)"
proof -
  have "k \<le> n" if "\<not> n mod (2 * k) < k" using that by (meson mod_less_eq_dividend not_less order_trans)
  then show ?thesis using assms
    by (auto simp: swap_bits_def flip_def bit_xor_iff bit_and_iff bit_not_iff bit_drop_bit_eq bit_push_bit_iff add.commute)
qed

lemma swap_masks:
  "\<forall>n < 64. bit (0x0000ffff0000ffff :: ul) n = (n mod (2 * 16) < 16)" "\<forall>n < 64. bit (0x00ff00ff00ff00ff :: ul) n = (n mod (2 * 8) < 8)"
  "\<forall>n < 64. bit (0x0f0f0f0f0f0f0f0f :: ul) n = (n mod (2 * 4) < 4)" "\<forall>n < 64. bit (0x3333333333333333 :: ul) n = (n mod (2 * 2) < 2)"
  "\<forall>n < 64. bit (0x5555555555555555 :: ul) n = (n mod (2 * 1) < 1)"
  by (simp_all add: all64 upt_rec)

lemma bit_swap32: "n < 64 \<Longrightarrow> bit (drop_bit 32 a XOR push_bit 32 a :: ul) n = bit a (flip 32 n)"
  by (auto simp: flip_def bit_xor_iff bit_drop_bit_eq bit_push_bit_iff add.commute dest: bit_imp_le_length)

lemma flip_less: "\<forall>n < 64. flip 1 n < 64 \<and> flip 2 n < 64 \<and> flip 4 n < 64 \<and> flip 8 n < 64 \<and> flip 16 n < 64 \<and> flip 32 n < 64"
  by (simp add: all64 upt_rec flip_def)

lemma all64_conj: "(\<forall>n < 64. P n) \<longleftrightarrow>
    P 0 \<and> P 1 \<and> P 2 \<and> P 3 \<and> P 4 \<and> P 5 \<and> P 6 \<and> P 7 \<and> P 8 \<and> P 9 \<and> P 10 \<and>
    P 11 \<and> P 12 \<and> P 13 \<and> P 14 \<and> P 15 \<and> P 16 \<and> P 17 \<and> P 18 \<and> P 19 \<and> P 20 \<and>
    P 21 \<and> P 22 \<and> P 23 \<and> P 24 \<and> P 25 \<and> P 26 \<and> P 27 \<and> P 28 \<and> P 29 \<and> P 30 \<and>
    P 31 \<and> P 32 \<and> P 33 \<and> P 34 \<and> P 35 \<and> P 36 \<and> P 37 \<and> P 38 \<and> P 39 \<and> P 40 \<and>
    P 41 \<and> P 42 \<and> P 43 \<and> P 44 \<and> P 45 \<and> P 46 \<and> P 47 \<and> P 48 \<and> P 49 \<and> P 50 \<and>
    P 51 \<and> P 52 \<and> P 53 \<and> P 54 \<and> P 55 \<and> P 56 \<and> P 57 \<and> P 58 \<and> P 59 \<and> P 60 \<and>
    P 61 \<and> P 62 \<and> P 63"
  for P :: "nat \<Rightarrow> bool"
  by (simp add: numeral_eq_Suc All_less_Suc2)

lemma flip_all: "\<forall>n < 64. flip 32 (flip 16 (flip 8 (flip 4 (flip 2 (flip 1 n))))) = 63 - n"
  "\<forall>n < 64. flip 32 (flip 16 (flip 8 (flip 4 n))) = n mod 4 + 4 * (15 - n div 4)"
  unfolding all64_conj by (simp_all add: flip_def)

lemmas flip_bounds = flip_less [rule_format, THEN conjunct1] flip_less [rule_format, THEN conjunct2, THEN conjunct1]
  flip_less [rule_format, THEN conjunct2, THEN conjunct2, THEN conjunct1] flip_less [rule_format, THEN conjunct2, THEN conjunct2, THEN conjunct2, THEN conjunct1]
  flip_less [rule_format, THEN conjunct2, THEN conjunct2, THEN conjunct2, THEN conjunct2, THEN conjunct1]

lemmas bit_swaps = bit_swap_bits [OF swap_masks(1)] bit_swap_bits [OF swap_masks(2)] bit_swap_bits [OF swap_masks(3)]
  bit_swap_bits [OF swap_masks(4)] bit_swap_bits [OF swap_masks(5)] bit_swap32

lemma bit_bitrev: "n < 64 \<Longrightarrow> bit (bitrev a) n = bit a (63 - n)"
  unfolding bitrev_def Let_def by (simp only: bit_swaps flip_bounds flip_all(1) [rule_format])

lemma bit_nibrev: "n < 64 \<Longrightarrow> bit (nibrev a) n = bit a (n mod 4 + 4 * (15 - n div 4))"
  unfolding nibrev_def Let_def by (simp only: bit_swaps flip_bounds flip_all(2) [rule_format])

section \<open>The kernels agree\<close>

text \<open>C11: On square matrices and on one vector, the kernels of \<open>matops.c\<close> (word by word from either end, with SSE pairs, with tables, with
  sixty-four parities at once) all compute the product over GF(2), that with the transpose included.\<close>

theorem matops_products_agree:
  assumes "length A = 64" and "length B = 64" and "length C = 64"
  shows "mul_6464_6464_v2 A B = matmul A B \<and> mul_6464_6464_sse A B = matmul A B \<and> mul_6464_6464 A B = matmul A B
    \<and> add_6464_6464_C C A B = matadd A B \<and> transp_6464 C B = transpose64 B
    \<and> mul_o64_6464_C_lsb a B = vecmat a B \<and> mul_o64_6464_C_msb a B = vecmat a B
    \<and> mul_o64_T6464_C_parity a B = vecmat a (transpose64 B) \<and> mul_o64_T6464_C_parity3 a B = vecmat a (transpose64 B)"
  by (simp_all only: mul_6464_6464_v2_eq mul_6464_6464_sse_eq mul_6464_6464_eq add_6464_6464_C_eq transp_6464_eq mul_o64_6464_C_lsb_eq
      mul_o64_6464_C_msb_eq mul_o64_T6464_C_parity_eq mul_o64_T6464_C_parity3_eq assms simp_thms)

theorem matops_products_agree_witness:
  "mul_6464_6464_v2 id64 id64 = matmul id64 id64 \<and> mul_6464_6464_sse id64 id64 = matmul id64 id64 \<and> mul_6464_6464 id64 id64 = matmul id64 id64"
  using matops_products_agree [OF length_mat(3) length_mat(3) length_mat(3)] by blast

text \<open>C26: The kernels on many rows compute the product of \<open>m\<close> rows with the matrix or its transpose.  The SSE kernel, and those built on it,
  do so for even \<open>m\<close>; for odd \<open>m\<close> the last pair of words they access is not within the arrays of \<open>m\<close> words.\<close>

theorem matops_row_products:
  assumes "length A = m" and "length B = 64" and "length junk = 64" and "length junk' = 64"
  shows "mul_N64_6464_vec A B m = matmul A B \<and> mul_N64_T6464_vec A B m = matmul A (transpose64 B)
    \<and> mul_N64_6464 A B m = (if even m then Some (matmul A B) else None)
    \<and> mul_N64_T6464 junk A B m = (if even m then Some (matmul A (transpose64 B)) else None)
    \<and> mul_N64_6464_transB junk junk' A B m = (if even m then Some (matmul A B) else None)"
  using assms mul_N64_vec_eq [OF assms(1,2)]
  by (simp add: mul_N64_6464_def mul_N64_T6464_def mul_N64_T6464_transB_def mul_N64_6464_transB_def transp_6464_eq transpose_transpose mul_N64_6464_sse_eq)

theorem matops_row_products_witness:
  "mul_N64_6464_vec [5, 7] id64 2 = matmul [5, 7] id64 \<and> mul_N64_T6464_vec [5, 7] id64 2 = matmul [5, 7] (transpose64 id64)
    \<and> mul_N64_6464 [5, 7] id64 2 = Some (matmul [5, 7] id64) \<and> mul_N64_T6464 id64 [5, 7] id64 2 = Some (matmul [5, 7] (transpose64 id64))
    \<and> mul_N64_6464_transB id64 id64 [5, 7] id64 2 = Some (matmul [5, 7] id64) \<and> mul_N64_6464 [5, 7, 9] id64 3 = None"
  using matops_row_products [of "[5, 7]" 2 id64 id64 id64] matops_row_products [of "[5, 7, 9]" 3 id64 id64 id64] by simp

text \<open>C12: Products in place.  The kernels with tables write the product of the rows at \<open>A\<close> with the matrix at \<open>B\<close> to \<open>C\<close> and change
  no other cell: that with four bits also when \<open>C\<close> is \<open>A\<close> and wherever \<open>B\<close> is.  \<open>addmul_N64_6464_lookup4\<close>, whose comment says it can
  work in place, clears \<open>C\<close> first: apart from \<open>A\<close> it stores the product and adds nothing, and in place it stores zeros.\<close>

theorem matops_lookup_in_place:
  "(in_place_ok C A m \<longrightarrow> mul_N64_6464_lookup4 mem C A B m = write_words mem C (matmul (words_at mem A m) (words_at mem B 64)))
    \<and> (disjoint_arrays C A m \<longrightarrow> mul_N64_6464_lookup8 mem C A B m = write_words mem C (matmul (words_at mem A m) (words_at mem B 64)))
    \<and> (disjoint_arrays C A m \<longrightarrow> addmul_N64_6464_lookup4 mem C A B m = write_words mem C (matmul (words_at mem A m) (words_at mem B 64)))
    \<and> addmul_N64_6464_lookup4 mem C C B m = write_words mem C (replicate m 0)"
  by (simp_all add: lookup4_in_place lookup8_eq addmul_lookup4_disjoint addmul_lookup4_in_place)

theorem matops_lookup_in_place_witness:
  "mul_N64_6464_lookup4 (\<lambda>_. 1) 8 8 8 64 = write_words (\<lambda>_. 1) 8 (matmul (words_at (\<lambda>_. 1) 8 64) (words_at (\<lambda>_. 1) 8 64))"
  using matops_lookup_in_place [of 8 8 64 "\<lambda>_. 1" 8] by (simp add: in_place_ok_def)

text \<open>C27: The kernels for the product of a transposed block of columns with a block of columns.  Row \<open>k\<close> of the result is the sum of
  the words of \<open>x\<close> at the indices where bit \<open>k\<close> of \<open>A\<close> is set; \<open>mul_TN32_N64_C\<close> loses the high halves of the words.\<close>

theorem matops_transposed_products:
  assumes "length A = n" and "length x = n" and "length D = n"
  shows "mul_64N_N64_addmul A x n = map (\<lambda>k. tmul k A x) [0..<64]
    \<and> mul_TN64_N64_C A x n = map (\<lambda>k. tmul k A x) [0..<64]
    \<and> mul_TN64K_N64_C E x n K = map (\<lambda>q. tmul (q mod 64) (block_col E K (q div 64) n) x) [0..<64 * K]
      \<and> mul_TN64K_N64_sse2 E x n K = mul_TN64K_N64_C E x n K
    \<and> mul_TN32_N64_C D x n = map (\<lambda>k. tmul k D (map (take_bit 32) x)) [0..<32]"
  by (simp_all only: mul_64N_N64_addmul_eq mul_TN64_N64_C_eq mul_TN64K_eq mul_TN32_N64_C_eq assms simp_thms)

theorem matops_transposed_products_witness:
  "mul_TN32_N64_C [1] [2 ^ 32] 1 = map (\<lambda>k. tmul k [1 :: u32] (map (take_bit 32) [2 ^ 32])) [0..<32]"
  using matops_transposed_products [of "[0 :: ul]" 1 "[2 ^ 32]" "[1 :: u32]"] by simp

text \<open>Adding the product of a column and a row to a matrix: the two kernels that pack two rows agree with the simple one; the one that
  starts at the top bit adds the row at the reversed bits.\<close>

theorem matops_addmul_agree:
  assumes "length r = 64"
  shows "addmul_To64_o64_lsb r a w = map (\<lambda>i. r ! i XOR (if bit a i then w else 0)) [0..<64]
    \<and> addmul_To64_o64_lsb_packof2 r a w = addmul_To64_o64_lsb r a w \<and> addmul_To64_o64_lsb_sse_v1 r a w = addmul_To64_o64_lsb r a w
    \<and> addmul_To64_o64_msb r a w = addmul_To64_o64_lsb r (bitrev a) w"
proof -
  have "addmul_To64_o64_msb r a w = addmul_To64_o64_lsb r (bitrev a) w"
    using assms by (auto simp: addmul_lsb_eq addmul_msb_eq add_outer_def bit_bitrev intro!: nth_equalityI)
  then show ?thesis using assms by (simp add: addmul_lsb_eq addmul_packof2_eq add_outer_def)
qed

theorem matops_addmul_agree_witness:
  "addmul_To64_o64_lsb id64 5 7 = map (\<lambda>i. id64 ! i XOR (if bit (5 :: ul) i then 7 else 0)) [0..<64]
    \<and> addmul_To64_o64_lsb_packof2 id64 5 7 = addmul_To64_o64_lsb id64 5 7 \<and> addmul_To64_o64_lsb_sse_v1 id64 5 7 = addmul_To64_o64_lsb id64 5 7
    \<and> addmul_To64_o64_msb id64 5 7 = addmul_To64_o64_lsb id64 (bitrev 5) 7"
  by (rule matops_addmul_agree) simp

end
