(* ===== verification/Matops_pol.thy ===== *)
theory Matops_pol
  imports Matops
begin

text \<open>
  Polynomials whose coefficients are matrices of 64 rows and columns over GF(2), from \<open>src/linalg/bwc/matops.c\<close>: the product from the
  definition, for any two lengths, Karatsuba's, for powers of two, and blocks of polynomials.  The matrices form a ring, so that sums and products
  of coefficients are those of the library.
\<close>

section \<open>The ring of matrices\<close>

typedef gf2mat = "{A :: ul list. length A = 64}"
  morphisms rows_of_mat mat_of
  by (rule exI [of _ id64]) simp

setup_lifting type_definition_gf2mat

instantiation gf2mat :: ring_1
begin

lift_definition zero_gf2mat :: gf2mat is "replicate 64 0" by simp
lift_definition one_gf2mat :: gf2mat is id64 by simp
lift_definition plus_gf2mat :: "gf2mat \<Rightarrow> gf2mat \<Rightarrow> gf2mat" is matadd by simp
lift_definition times_gf2mat :: "gf2mat \<Rightarrow> gf2mat \<Rightarrow> gf2mat" is matmul by simp
lift_definition minus_gf2mat :: "gf2mat \<Rightarrow> gf2mat \<Rightarrow> gf2mat" is matadd by simp
lift_definition uminus_gf2mat :: "gf2mat \<Rightarrow> gf2mat" is "\<lambda>A. A" .

instance
proof
  fix a b c :: gf2mat
  show "a + b + c = a + (b + c)" by transfer (auto intro!: nth_equalityI simp: ac_simps)
  show "a + b = b + a" by transfer (auto intro!: nth_equalityI simp: ac_simps)
  show "0 + a = a" by transfer (auto intro!: nth_equalityI)
  show "- a + a = 0" by transfer (auto intro!: nth_equalityI)
  show "a - b = a + - b" by transfer simp
  show "a * b * c = a * (b * c)" by transfer (simp add: matmul_assoc)
  show "1 * a = a" by transfer simp
  show "a * 1 = a" by transfer simp
  show "(a + b) * c = a * c + b * c" by transfer (simp add: matadd_matmul)
  show "a * (b + c) = a * b + a * c" by transfer (simp add: matmul_matadd)
  show "(0 :: gf2mat) \<noteq> 1"
  proof transfer
    have "id64 ! 0 \<noteq> replicate 64 0 ! 0" by simp
    then show "replicate 64 0 \<noteq> id64" by metis
  qed
qed

end

lemma gf2mat_double: "a + a = (0 :: gf2mat)"
  by transfer (auto intro!: nth_equalityI)

lemma mat_of_matadd: "length A = 64 \<Longrightarrow> length B = 64 \<Longrightarrow> mat_of (matadd A B) = mat_of A + mat_of B"
  by (simp add: plus_gf2mat.abs_eq eq_onp_same_args)

lemma mat_of_matmul: "length A = 64 \<Longrightarrow> length B = 64 \<Longrightarrow> mat_of (matmul A B) = mat_of A * mat_of B"
  by (simp add: times_gf2mat.abs_eq eq_onp_same_args)

lemma mat_of_inject': "length A = 64 \<Longrightarrow> length B = 64 \<Longrightarrow> mat_of A = mat_of B \<longleftrightarrow> A = B"
  by (simp add: mat_of_inject)

section \<open>Polynomials\<close>

type_synonym m64pol = "mat64 list"

definition zero64 :: mat64 where
  "zero64 = replicate 64 0"

lemma mat_of_zero64 [simp]: "mat_of zero64 = 0" "length zero64 = 64"
  by (simp_all add: zero64_def zero_gf2mat_def)

definition m64pol_addmul :: "m64pol \<Rightarrow> m64pol \<Rightarrow> m64pol \<Rightarrow> nat \<Rightarrow> nat \<Rightarrow> m64pol" where
  "m64pol_addmul r a1 a2 n1 n2 =
     fold (\<lambda>i r. fold (\<lambda>j r. let x = mul_6464_6464 (a1 ! i) (a2 ! j) in r[i + j := add_6464_6464 (r ! (i + j)) (r ! (i + j)) x])
                   [0..<n2] r) [0..<n1] r"

definition m64pol_add :: "m64pol \<Rightarrow> m64pol \<Rightarrow> m64pol \<Rightarrow> nat \<Rightarrow> m64pol" where
  "m64pol_add r a1 a2 n = fold (\<lambda>i r. r[i := add_6464_6464 (r ! i) (a1 ! i) (a2 ! i)]) [0..<n] r"

definition m64pol_mul :: "m64pol \<Rightarrow> m64pol \<Rightarrow> nat \<Rightarrow> nat \<Rightarrow> m64pol" where
  "m64pol_mul a1 a2 n1 n2 = m64pol_addmul (replicate (n1 + n2 - 1) zero64) a1 a2 n1 n2"

text \<open>Writing \<open>xs\<close> over the cells of \<open>r\<close> from \<open>k\<close> on.\<close>

definition overwrite :: "nat \<Rightarrow> 'a list \<Rightarrow> 'a list \<Rightarrow> 'a list" where
  "overwrite k xs r = take k r @ xs @ drop (k + length xs) r"

text \<open>
  \<open>m64pol_add\<close> with \<open>r + k\<close> as first operand: the operands are read from the contents before the call, of which every cell is
  read before it is written.
\<close>

definition m64pol_add_at :: "nat \<Rightarrow> m64pol \<Rightarrow> m64pol \<Rightarrow> m64pol \<Rightarrow> nat \<Rightarrow> m64pol" where
  "m64pol_add_at k r a1 a2 n = overwrite k (m64pol_add (take n (drop k r)) a1 a2 n) r"

function m64pol_mul_kara :: "m64pol \<Rightarrow> m64pol \<Rightarrow> nat \<Rightarrow> nat \<Rightarrow> m64pol option" where
  "m64pol_mul_kara a1 a2 n1 n2 =
     (if n1 \<noteq> n2 \<or> n1 AND (n1 - 1) \<noteq> 0 \<or> n1 = 0 then None
      else if n1 = 1 then Some (m64pol_mul a1 a2 n1 n2)
      else let h = drop_bit 1 n1; r = replicate (n1 + n2 - 1) zero64;
               r = m64pol_add_at 0 r a1 (drop h a1) h;
               r = m64pol_add_at (2 * h) r a2 (drop h a2) h
           in do { t \<leftarrow> m64pol_mul_kara r (drop (2 * h) r) h h;
                   p \<leftarrow> m64pol_mul_kara a1 a2 h h;
                   q \<leftarrow> m64pol_mul_kara (drop h a1) (drop h a2) h h;
                   let r = overwrite (2 * h) q (overwrite 0 p r);
                   let t = m64pol_add t t r (2 * h - 1);
                   let t = m64pol_add t t (drop (2 * h) r) (2 * h - 1);
                   Some (m64pol_add_at h r (drop h r) t (2 * h - 1)) })"
  by pat_completeness auto
termination
  by (relation "measure (\<lambda>(a1, a2, n1, n2). n1)") (auto simp: drop_bit_eq_div)

declare m64pol_mul_kara.simps [simp del]

definition m64pol_addmul_kara :: "m64pol \<Rightarrow> m64pol \<Rightarrow> m64pol \<Rightarrow> nat \<Rightarrow> nat \<Rightarrow> m64pol option" where
  "m64pol_addmul_kara r a1 a2 n1 n2 =
     do { t \<leftarrow> m64pol_mul_kara a1 a2 n1 n2; Some (m64pol_add r r t (n1 + n2 - 1)) }"

section \<open>Coefficients\<close>

definition pol_ok :: "m64pol \<Rightarrow> bool" where
  "pol_ok p \<longleftrightarrow> (\<forall>A \<in> set p. length A = 64)"

definition coef :: "m64pol \<Rightarrow> nat \<Rightarrow> gf2mat" where
  "coef p k = (if k < length p then mat_of (p ! k) else 0)"

text \<open>The product of polynomials given by their coefficients.\<close>

definition conv :: "(nat \<Rightarrow> gf2mat) \<Rightarrow> (nat \<Rightarrow> gf2mat) \<Rightarrow> nat \<Rightarrow> gf2mat" where
  "conv f g k = (\<Sum>i\<le>k. f i * g (k - i))"

definition cut :: "nat \<Rightarrow> (nat \<Rightarrow> gf2mat) \<Rightarrow> nat \<Rightarrow> gf2mat" where
  "cut n f k = (if k < n then f k else 0)"

definition shift :: "nat \<Rightarrow> (nat \<Rightarrow> gf2mat) \<Rightarrow> nat \<Rightarrow> gf2mat" where
  "shift h f k = (if h \<le> k then f (k - h) else 0)"

lemma pol_ok_nth: "pol_ok p \<Longrightarrow> k < length p \<Longrightarrow> length (p ! k) = 64"
  by (simp add: pol_ok_def)

lemma pol_ok_simps [simp]: "pol_ok (replicate n zero64)" "pol_ok p \<Longrightarrow> pol_ok (take n p)" "pol_ok p \<Longrightarrow> pol_ok (drop n p)"
    "pol_ok p \<Longrightarrow> length A = 64 \<Longrightarrow> pol_ok (p[k := A])" "pol_ok (p @ q) \<longleftrightarrow> pol_ok p \<and> pol_ok q"
  by (auto simp: pol_ok_def zero64_def dest: in_set_takeD in_set_dropD set_update_subset_insert [THEN subsetD])

lemma coef_simps [simp]: "coef (replicate n zero64) k = 0" "coef (drop h p) k = coef p (h + k)" "length p \<le> k \<Longrightarrow> coef p k = 0"
  by (auto simp: coef_def)

lemma coef_update: "k < length p \<Longrightarrow> coef (p[k := A]) i = (if i = k then mat_of A else coef p i)"
  by (auto simp: coef_def)

lemma coef_eqI: "pol_ok p \<Longrightarrow> pol_ok q \<Longrightarrow> length p = length q \<Longrightarrow> (\<And>k. k < length p \<Longrightarrow> coef p k = coef q k) \<Longrightarrow> p = q"
  by (rule nth_equalityI) (auto simp: coef_def mat_of_inject' pol_ok_nth)

lemma add_6464_6464_eq: "length A = 64 \<Longrightarrow> length B = 64 \<Longrightarrow> length C = 64 \<Longrightarrow> add_6464_6464 C A B = matadd A B"
  by (simp add: add_6464_6464_def add_6464_6464_C_eq)

lemma conv_add_left: "conv (\<lambda>i. f i + f' i) g k = conv f g k + conv f' g k"
  by (simp add: conv_def distrib_right sum.distrib)

lemma conv_add_right: "conv f (\<lambda>i. g i + g' i) k = conv f g k + conv f g' k"
  by (simp add: conv_def distrib_left sum.distrib)

lemma conv_cong: "(\<And>i. i \<le> k \<Longrightarrow> f i = f' i) \<Longrightarrow> (\<And>i. i \<le> k \<Longrightarrow> g i = g' i) \<Longrightarrow> conv f g k = conv f' g' k"
  by (simp add: conv_def)

lemma conv_rev: "conv f g k = (\<Sum>i\<le>k. f (k - i) * g i)"
  unfolding conv_def by (rule sum.reindex_bij_witness [of _ "\<lambda>i. k - i" "\<lambda>i. k - i"]) auto

lemma conv_shift_left: "conv (shift h f) g k = shift h (conv f g) k"
proof (cases "h \<le> k")
  case True
  have "conv (shift h f) g k = (\<Sum>i \<in> {h..k}. f (i - h) * g (k - i))"
    unfolding conv_def by (rule sum.mono_neutral_cong_right) (auto simp: shift_def)
  also have "\<dots> = (\<Sum>i\<le>k - h. f i * g (k - h - i))"
    by (rule sum.reindex_bij_witness [of _ "\<lambda>i. i + h" "\<lambda>i. i - h"]) (use True in auto)
  finally show ?thesis using True by (simp add: shift_def conv_def)
qed (auto simp: shift_def conv_def)

lemma conv_shift_right: "conv f (shift h g) k = shift h (conv f g) k"
proof (cases "h \<le> k")
  case True
  have "conv f (shift h g) k = (\<Sum>i \<in> {h..k}. f (k - i) * g (i - h))"
    unfolding conv_rev by (rule sum.mono_neutral_cong_right) (auto simp: shift_def)
  also have "\<dots> = (\<Sum>i\<le>k - h. f (k - h - i) * g i)"
    by (rule sum.reindex_bij_witness [of _ "\<lambda>i. i + h" "\<lambda>i. i - h"]) (use True in auto)
  finally show ?thesis using True by (simp add: shift_def conv_rev)
qed (auto simp: shift_def conv_rev)

lemma conv_cut_zero: "n1 + n2 - 1 \<le> k \<Longrightarrow> conv (cut n1 f) (cut n2 g) k = 0"
  unfolding conv_def by (rule sum.neutral) (auto simp: cut_def)

section \<open>The product from the definition\<close>

lemma addmul_row:
  assumes "pol_ok r" "pol_ok a1" "pol_ok a2" "i < length a1" "m \<le> length a2" "i + m \<le> length r"
  shows "\<exists>r'. fold (\<lambda>j r. let x = mul_6464_6464 (a1 ! i) (a2 ! j) in r[i + j := add_6464_6464 (r ! (i + j)) (r ! (i + j)) x]) [0..<m] r = r'
     \<and> pol_ok r' \<and> length r' = length r \<and> (\<forall>k. coef r' k = coef r k + (if i \<le> k \<and> k - i < m then coef a1 i * coef a2 (k - i) else 0))"
  using assms(5,6)
proof (induction m)
  case (Suc m)
  then obtain r' where r': "fold (\<lambda>j r. let x = mul_6464_6464 (a1 ! i) (a2 ! j) in r[i + j := add_6464_6464 (r ! (i + j)) (r ! (i + j)) x]) [0..<m] r = r'"
    "pol_ok r'" "length r' = length r" "\<And>k. coef r' k = coef r k + (if i \<le> k \<and> k - i < m then coef a1 i * coef a2 (k - i) else 0)"
    by auto
  have l: "length (a1 ! i) = 64" "length (a2 ! m) = 64" "length (r' ! (i + m)) = 64" "i + m < length r'"
    using assms(2-4) Suc.prems r'(2,3) by (auto intro: pol_ok_nth)
  define x where "x = matadd (r' ! (i + m)) (matmul (a1 ! i) (a2 ! m))"
  have x: "length x = 64" "mat_of x = coef r' (i + m) + coef a1 i * coef a2 m"
    using l assms(4) Suc.prems(1) by (simp_all add: x_def mat_of_matadd mat_of_matmul coef_def)
  have k: "i \<le> k \<and> k - i < Suc m \<longleftrightarrow> i \<le> k \<and> k - i < m \<or> k = i + m" for k by auto
  have "\<forall>k. coef (r'[i + m := x]) k = coef r k + (if i \<le> k \<and> k - i < Suc m then coef a1 i * coef a2 (k - i) else 0)"
    using x(2) l(4) r'(4) unfolding k by (auto simp: coef_update)
  moreover have "pol_ok (r'[i + m := x])" using r'(2) x(1) by simp
  ultimately show ?case using r'(1,3) l by (simp add: mul_6464_6464_eq add_6464_6464_eq x_def Let_def)
qed (use assms(1) in simp)

lemma m64pol_addmul_ok:
  assumes "pol_ok r" "pol_ok a1" "pol_ok a2" "n1 \<le> length a1" "n2 \<le> length a2" "n1 + n2 - 1 \<le> length r"
  shows "pol_ok (m64pol_addmul r a1 a2 n1 n2)" "length (m64pol_addmul r a1 a2 n1 n2) = length r"
    "coef (m64pol_addmul r a1 a2 n1 n2) k = coef r k + conv (cut n1 (coef a1)) (cut n2 (coef a2)) k"
proof -
  define F where "F = (\<lambda>i r. fold (\<lambda>j r. let x = mul_6464_6464 (a1 ! i) (a2 ! j) in r[i + j := add_6464_6464 (r ! (i + j)) (r ! (i + j)) x]) [0..<n2] r)"
  have "pol_ok (fold F [0..<m] r) \<and> length (fold F [0..<m] r) = length r
      \<and> (\<forall>k. coef (fold F [0..<m] r) k = coef r k + (\<Sum>i<m. if i \<le> k \<and> k - i < n2 then coef a1 i * coef a2 (k - i) else 0))" if "m \<le> n1" for m
    using that
  proof (induction m)
    case (Suc m)
    let ?r = "fold F [0..<m] r"
    have ih: "pol_ok ?r" "length ?r = length r"
      "\<And>k. coef ?r k = coef r k + (\<Sum>i<m. if i \<le> k \<and> k - i < n2 then coef a1 i * coef a2 (k - i) else 0)" using Suc by auto
    have "m < length a1" "m + n2 \<le> length ?r" using Suc.prems assms(4,6) ih(2) by auto
    from addmul_row [OF ih(1) assms(2,3) this(1) assms(5) this(2)]
    have "pol_ok (F m ?r) \<and> length (F m ?r) = length ?r \<and> (\<forall>k. coef (F m ?r) k = coef ?r k + (if m \<le> k \<and> k - m < n2 then coef a1 m * coef a2 (k - m) else 0))"
      unfolding F_def by blast
    then show ?case using ih(2,3) by (simp add: add.assoc)
  qed (use assms(1) in simp)
  from this [OF order_refl] have f: "pol_ok (m64pol_addmul r a1 a2 n1 n2)" "length (m64pol_addmul r a1 a2 n1 n2) = length r"
    "coef (m64pol_addmul r a1 a2 n1 n2) k = coef r k + (\<Sum>i<n1. if i \<le> k \<and> k - i < n2 then coef a1 i * coef a2 (k - i) else 0)" for k
    by (simp_all add: m64pol_addmul_def F_def)
  have "(\<Sum>i<n1. if i \<le> k \<and> k - i < n2 then coef a1 i * coef a2 (k - i) else 0) = conv (cut n1 (coef a1)) (cut n2 (coef a2)) k"
    unfolding conv_def
    by (rule sum.mono_neutral_cong) (auto simp: cut_def)
  then show "pol_ok (m64pol_addmul r a1 a2 n1 n2)" "length (m64pol_addmul r a1 a2 n1 n2) = length r"
    "coef (m64pol_addmul r a1 a2 n1 n2) k = coef r k + conv (cut n1 (coef a1)) (cut n2 (coef a2)) k"
    using f by simp_all
qed

lemma m64pol_mul_ok:
  assumes "pol_ok a1" "pol_ok a2" "n1 \<le> length a1" "n2 \<le> length a2"
  shows "pol_ok (m64pol_mul a1 a2 n1 n2)" "length (m64pol_mul a1 a2 n1 n2) = n1 + n2 - 1"
    "coef (m64pol_mul a1 a2 n1 n2) k = conv (cut n1 (coef a1)) (cut n2 (coef a2)) k"
  using m64pol_addmul_ok [of "replicate (n1 + n2 - 1) zero64", OF _ assms] by (simp_all add: m64pol_mul_def)

section \<open>Sums and parts\<close>

lemma m64pol_add_ok:
  assumes "pol_ok r" "pol_ok a1" "pol_ok a2" "n \<le> length r" "n \<le> length a1" "n \<le> length a2"
  shows "pol_ok (m64pol_add r a1 a2 n)" "length (m64pol_add r a1 a2 n) = length r"
    "coef (m64pol_add r a1 a2 n) k = (if k < n then coef a1 k + coef a2 k else coef r k)"
proof -
  have "fold (\<lambda>i r. r[i := add_6464_6464 (r ! i) (a1 ! i) (a2 ! i)]) [0..<m] r
      = map (\<lambda>i. if i < m then matadd (a1 ! i) (a2 ! i) else r ! i) [0..<length r]" if "m \<le> n" for m
    using that
  proof (induction m)
    case (Suc m)
    then show ?case using assms by (simp add: map_upt_update less_Suc_eq add_6464_6464_eq pol_ok_nth)
  qed (simp add: map_nth)
  from this [OF order_refl] have m: "m64pol_add r a1 a2 n = map (\<lambda>i. if i < n then matadd (a1 ! i) (a2 ! i) else r ! i) [0..<length r]"
    by (simp add: m64pol_add_def)
  show "pol_ok (m64pol_add r a1 a2 n)" "length (m64pol_add r a1 a2 n) = length r" using assms unfolding m by (auto simp: pol_ok_def)
  show "coef (m64pol_add r a1 a2 n) k = (if k < n then coef a1 k + coef a2 k else coef r k)"
    using assms unfolding m by (auto simp: coef_def mat_of_matadd pol_ok_nth)
qed

lemma overwrite_ok:
  assumes "pol_ok r" "pol_ok xs" "j + length xs \<le> length r"
  shows "pol_ok (overwrite j xs r)" "length (overwrite j xs r) = length r"
    "coef (overwrite j xs r) k = (if j \<le> k \<and> k < j + length xs then coef xs (k - j) else coef r k)"
  using assms by (auto simp: overwrite_def coef_def nth_append min_def)

lemma m64pol_add_at_ok:
  assumes "pol_ok r" "pol_ok a1" "pol_ok a2" "j + n \<le> length r" "n \<le> length a1" "n \<le> length a2"
  shows "pol_ok (m64pol_add_at j r a1 a2 n)" "length (m64pol_add_at j r a1 a2 n) = length r"
    "coef (m64pol_add_at j r a1 a2 n) k = (if j \<le> k \<and> k < j + n then coef a1 (k - j) + coef a2 (k - j) else coef r k)"
proof -
  let ?s = "m64pol_add (take n (drop j r)) a1 a2 n"
  have s: "pol_ok ?s" "length ?s = n" "\<And>k. coef ?s k = (if k < n then coef a1 k + coef a2 k else coef (take n (drop j r)) k)"
    using m64pol_add_ok [of "take n (drop j r)" a1 a2 n] assms by simp_all
  show "pol_ok (m64pol_add_at j r a1 a2 n)" "length (m64pol_add_at j r a1 a2 n) = length r"
    "coef (m64pol_add_at j r a1 a2 n) k = (if j \<le> k \<and> k < j + n then coef a1 (k - j) + coef a2 (k - j) else coef r k)"
    using overwrite_ok [OF assms(1) s(1), of j] s(2,3) assms(4) by (auto simp: m64pol_add_at_def)
qed

section \<open>Karatsuba's product\<close>

lemma cut_halves: "cut (2 * h) (coef a) i = cut h (coef a) i + shift h (cut h (coef (drop h a))) i"
  by (auto simp: cut_def shift_def)

lemma karatsuba:
  "conv (\<lambda>i. f i + shift h f' i) (\<lambda>i. g i + shift h g' i) k
    = conv f g k + shift h (\<lambda>i. conv (\<lambda>i. f i + f' i) (\<lambda>i. g i + g' i) i + conv f g i + conv f' g' i) k + shift (2 * h) (conv f' g') k"
proof -
  have mid: "conv (\<lambda>i. f i + f' i) (\<lambda>i. g i + g' i) i + conv f g i + conv f' g' i = conv f g' i + conv f' g i" for i
    using gf2mat_double [of "conv f g i"] gf2mat_double [of "conv f' g' i"]
    by (simp add: conv_add_left conv_add_right algebra_simps)
  have s: "shift h (conv f' (shift h g')) k = shift (2 * h) (conv f' g') k" "shift h (conv (shift h f') g') k = shift (2 * h) (conv f' g') k"
    using conv_shift_right [of f' h g'] conv_shift_left [of h f' g'] by (auto simp: shift_def diff_diff_add mult_2)
  have "conv (\<lambda>i. f i + shift h f' i) (\<lambda>i. g i + shift h g' i) k
      = conv f g k + shift h (conv f' g) k + (shift h (conv f g') k + shift (2 * h) (conv f' g') k)"
    by (simp only: conv_add_left conv_add_right conv_shift_left conv_shift_right s ac_simps)
  then show ?thesis unfolding mid by (simp add: shift_def ac_simps)
qed

lemma pow2_and: "2 ^ e AND (2 ^ e - 1) = (0 :: nat)"
proof -
  have "2 ^ e AND (2 ^ e - 1) = take_bit e (2 ^ e :: nat)" by (simp only: take_bit_eq_mask mask_eq_exp_minus_1)
  then show ?thesis by (simp add: take_bit_eq_mod)
qed

lemma m64pol_mul_kara_ok:
  assumes "pol_ok a1" "pol_ok a2" "2 ^ e \<le> length a1" "2 ^ e \<le> length a2"
  shows "\<exists>r. m64pol_mul_kara a1 a2 (2 ^ e) (2 ^ e) = Some r \<and> pol_ok r \<and> length r = 2 * 2 ^ e - 1
    \<and> (\<forall>k. coef r k = conv (cut (2 ^ e) (coef a1)) (cut (2 ^ e) (coef a2)) k)"
  using assms
proof (induction e arbitrary: a1 a2)
  case 0
  then show ?case using m64pol_mul_ok [of a1 a2 1 1] by (subst m64pol_mul_kara.simps) simp
next
  case (Suc e)
  define h where "h = (2 :: nat) ^ e"
  have h: "2 ^ Suc e = 2 * h" "0 < h" "drop_bit 1 (2 * h) = h" by (simp_all add: h_def drop_bit_eq_div)
  have hl: "h \<le> 4 * h - Suc 0" "h \<le> 4 * h - 1 - 2 * h" "h \<le> 2 * h - Suc 0" using h(2) by simp_all
  have l: "2 * h \<le> length a1" "2 * h \<le> length a2" using Suc.prems(3,4) h(1) by simp_all
  have ld: "h \<le> length a1 - h" "h \<le> length a2 - h" using l by simp_all
  note IH = Suc.IH [folded h_def]
  define f where "f = cut h (coef a1)"
  define f' where "f' = cut h (coef (drop h a1))"
  define g where "g = cut h (coef a2)"
  define g' where "g' = cut h (coef (drop h a2))"
  define r0 where "r0 = replicate (4 * h - 1) zero64"
  have r0: "pol_ok r0" "length r0 = 4 * h - 1" "coef r0 k = 0" for k by (simp_all add: r0_def)
  define r1 where "r1 = m64pol_add_at 0 r0 a1 (drop h a1) h"
  have r1: "pol_ok r1" "length r1 = 4 * h - 1" "coef r1 k = f k + f' k" for k
    using m64pol_add_at_ok [OF r0(1) Suc.prems(1), of "drop h a1" 0 h] Suc.prems(1) r0(2,3) l h(2)
    by (simp_all add: r1_def f_def f'_def cut_def)
  define r2 where "r2 = m64pol_add_at (2 * h) r1 a2 (drop h a2) h"
  have r2: "pol_ok r2" "length r2 = 4 * h - 1" "coef r2 k = (if 2 * h \<le> k \<and> k < 3 * h then g (k - 2 * h) + g' (k - 2 * h) else f k + f' k)" for k
    using m64pol_add_at_ok [OF r1(1) Suc.prems(2), of "drop h a2" "2 * h" h] Suc.prems(2) r1(2,3) l h(2)
    by (auto simp: r2_def g_def g'_def cut_def)
  have c: "cut h (coef r2) = (\<lambda>i. f i + f' i)" "cut h (coef (drop (2 * h) r2)) = (\<lambda>i. g i + g' i)"
    by (auto simp: fun_eq_iff cut_def r2(3) f_def f'_def g_def g'_def)
  obtain t where t: "m64pol_mul_kara r2 (drop (2 * h) r2) h h = Some t" "pol_ok t" "length t = 2 * h - 1"
    "\<And>k. coef t k = conv (\<lambda>i. f i + f' i) (\<lambda>i. g i + g' i) k"
    using IH [of r2 "drop (2 * h) r2", unfolded c] r2(1,2) hl by auto
  obtain p where p: "m64pol_mul_kara a1 a2 h h = Some p" "pol_ok p" "length p = 2 * h - 1" "\<And>k. coef p k = conv f g k"
    using IH [of a1 a2] Suc.prems l by (auto simp: f_def g_def)
  obtain q where q: "m64pol_mul_kara (drop h a1) (drop h a2) h h = Some q" "pol_ok q" "length q = 2 * h - 1" "\<And>k. coef q k = conv f' g' k"
    using IH [of "drop h a1" "drop h a2", folded f'_def g'_def] Suc.prems(1,2) ld by auto
  have z: "coef x k = 0" if "length x = 2 * h - 1" "2 * h - 1 \<le> k" for x k using that by simp
  define r3 where "r3 = overwrite (2 * h) q (overwrite 0 p r2)"
  have r3: "pol_ok r3" "length r3 = 4 * h - 1" "coef r3 k = conv f g k + shift (2 * h) (conv f' g') k" for k
  proof -
    have a: "pol_ok (overwrite 0 p r2)" "length (overwrite 0 p r2) = 4 * h - 1"
      "coef (overwrite 0 p r2) k = (if k < 2 * h - 1 then coef p k else coef r2 k)" for k
      using overwrite_ok [OF r2(1) p(2), of 0] p(3) r2(2) by auto
    have b: "2 * h + length q \<le> length (overwrite 0 p r2)" using a(2) q(3) h(2) by simp
    note o = overwrite_ok [OF a(1) q(2) b]
    show "pol_ok r3" "length r3 = 4 * h - 1" using o a(2) by (simp_all add: r3_def)
    have "coef r3 k = (if 2 * h \<le> k \<and> k < 4 * h - 1 then coef q (k - 2 * h) else if k < 2 * h - 1 then coef p k else coef r2 k)" for k
      using o(3) a(3) q(3) h(2) by (auto simp: r3_def)
    moreover have "coef r2 k = 0" if "2 * h - 1 \<le> k" "\<not> (2 * h \<le> k \<and> k < 4 * h - 1)" for k
      using that r2(3) [of k] h(2) by (auto simp: f_def f'_def cut_def)
    ultimately show "coef r3 k = conv f g k + shift (2 * h) (conv f' g') k" for k
      using z [OF p(3)] z [OF q(3)] h(2) by (auto simp: p(4) [symmetric] q(4) [symmetric] shift_def)
  qed
  have hm: "2 * h - 1 \<le> 4 * h - 1" "2 * h - 1 \<le> 4 * h - 1 - 2 * h" "h + (2 * h - 1) \<le> 4 * h - 1" "2 * h - 1 \<le> 4 * h - 1 - h" by simp_all
  have hk: "\<not> 2 * h \<le> k" if "k < 2 * h - 1" for k using that by simp
  define t1 where "t1 = m64pol_add t t r3 (2 * h - 1)"
  have t1: "pol_ok t1" "length t1 = 2 * h - 1" "k < 2 * h - 1 \<Longrightarrow> coef t1 k = coef t k + coef p k" for k
    using m64pol_add_ok [OF t(2) t(2) r3(1), of "2 * h - 1"] t(3) r3(2,3) hm(1) hk by (simp_all only: t1_def p(4) shift_def if_False if_True simp_thms add_0_right order_refl)
  define t2 where "t2 = m64pol_add t1 t1 (drop (2 * h) r3) (2 * h - 1)"
  have t2: "pol_ok t2" "length t2 = 2 * h - 1" "k < 2 * h - 1 \<Longrightarrow> coef t2 k = coef t k + coef p k + coef q k" for k
    using m64pol_add_ok [OF t1(1) t1(1), of "drop (2 * h) r3" "2 * h - 1"] t1(2,3) r3 h(2) z [OF p(3), of "2 * h + k"]
    by (simp_all add: t2_def p(4) q(4) shift_def)
  have t2': "coef t2 k = coef t k + coef p k + coef q k" for k
    using t2 z t(3) p(3) q(3) by (cases "k < 2 * h - 1") auto
  define r4 where "r4 = m64pol_add_at h r3 (drop h r3) t2 (2 * h - 1)"
  have r4: "pol_ok r4" "length r4 = 4 * h - 1" "coef r4 k = coef r3 k + shift h (coef t2) k" for k
    using m64pol_add_at_ok [OF r3(1) _ t2(1), of "drop h r3" h "2 * h - 1"] r3(1,2) t2(2) h(2) z [OF t2(2), of "k - h"]
    by (auto simp: r4_def shift_def)
  have "coef r4 k = conv (cut (2 * h) (coef a1)) (cut (2 * h) (coef a2)) k" for k
  proof -
    have sh: "shift h (coef t2) k = shift h (\<lambda>i. conv (\<lambda>i. f i + f' i) (\<lambda>i. g i + g' i) i + conv f g i + conv f' g' i) k"
      by (simp add: shift_def t2' t(4) p(4) q(4))
    have "coef r4 k = conv (\<lambda>i. f i + shift h f' i) (\<lambda>i. g i + shift h g' i) k"
      unfolding karatsuba r4(3) r3(3) sh by (simp only: ac_simps)
    then show ?thesis by (simp add: f_def f'_def g_def g'_def cut_halves [abs_def])
  qed
  moreover have "m64pol_mul_kara a1 a2 (2 * h) (2 * h) = Some r4"
  proof -
    have "2 * h AND (2 * h - 1) = 0" using pow2_and [of "Suc e"] h(1) by simp
    moreover have "2 * h + 2 * h - 1 = 4 * h - 1" by simp
    ultimately show ?thesis using h t(1) p(1) q(1) unfolding r4_def t2_def t1_def r3_def r2_def r1_def r0_def
      by (subst m64pol_mul_kara.simps) (simp add: Let_def)
  qed
  ultimately show ?case using r4(1,2) unfolding h(1) by auto
qed

section \<open>Blocks of polynomials\<close>

text \<open>Matrices of \<open>K\<close> times \<open>K\<close> polynomials, stored by rows.\<close>

definition m64polblock_mul :: "m64pol \<Rightarrow> m64pol \<Rightarrow> nat \<Rightarrow> nat \<Rightarrow> nat \<Rightarrow> m64pol" where
  "m64polblock_mul a1 a2 n1 n2 K =
     fold (\<lambda>i r. fold (\<lambda>j r. fold (\<lambda>k r.
         let pr = (i * K + j) * (n1 + n2 - 1)
         in overwrite pr (m64pol_addmul (take (n1 + n2 - 1) (drop pr r)) (drop ((i * K + k) * n1) a1) (drop ((k * K + j) * n2) a2) n1 n2) r)
       [0..<K] r) [0..<K] r) [0..<K] (replicate ((n1 + n2 - 1) * K * K) zero64)"

definition m64polblock_mul_kara :: "m64pol \<Rightarrow> m64pol \<Rightarrow> nat \<Rightarrow> nat \<Rightarrow> nat \<Rightarrow> m64pol option" where
  "m64polblock_mul_kara a1 a2 n1 n2 K =
     fold (\<lambda>i r. fold (\<lambda>j r. fold (\<lambda>k ro. do {
         r \<leftarrow> ro;
         let pr = (i * K + j) * (n1 + n2 - 1);
         p \<leftarrow> m64pol_addmul_kara (take (n1 + n2 - 1) (drop pr r)) (drop ((i * K + k) * n1) a1) (drop ((k * K + j) * n2) a2) n1 n2;
         Some (overwrite pr p r) })
       [0..<K] r) [0..<K] r) [0..<K] (Some (replicate ((n1 + n2 - 1) * K * K) zero64))"

text \<open>The coefficients of the polynomial in row \<open>i\<close> and column \<open>j\<close>, of length \<open>n\<close>.\<close>

definition entry :: "nat \<Rightarrow> nat \<Rightarrow> m64pol \<Rightarrow> nat \<Rightarrow> nat \<Rightarrow> nat \<Rightarrow> gf2mat" where
  "entry n K p i j = cut n (\<lambda>c. coef p ((i * K + j) * n + c))"

lemma fold_sum:
  fixes V :: "'s \<Rightarrow> nat \<Rightarrow> gf2mat"
  assumes "\<And>m s. m < n \<Longrightarrow> I s \<Longrightarrow> I (g m s) \<and> (\<forall>x. V (g m s) x = V s x + d m x)" "I s"
  shows "I (fold g [0..<n] s) \<and> (\<forall>x. V (fold g [0..<n] s) x = V s x + (\<Sum>m<n. d m x))"
proof -
  have "I (fold g [0..<k] s) \<and> (\<forall>x. V (fold g [0..<k] s) x = V s x + (\<Sum>m<k. d m x))" if "k \<le> n" for k
    using that
  proof (induction k)
    case (Suc k)
    then show ?case using assms(1) [of k "fold g [0..<k] s"] by (simp add: add.assoc)
  qed (simp add: assms(2))
  then show ?thesis by simp
qed

lemma block_bound: "i < K \<Longrightarrow> j < K \<Longrightarrow> (i * K + j) * n + n \<le> n * K * K" for i j K n :: nat
proof -
  assume "i < K" "j < K"
  moreover have "(i + 1) * K \<le> K * K" if "i < K" using that by (intro mult_le_mono1) simp
  ultimately have "i * K + j + 1 \<le> i * K + K" "(i + 1) * K \<le> K * K" by simp_all
  then have "i * K + j + 1 \<le> K * K" by (simp add: algebra_simps)
  then have "(i * K + j + 1) * n \<le> (K * K) * n" by (rule mult_le_mono1)
  then show ?thesis by (simp add: algebra_simps)
qed

lemma block_unique:
  fixes i j i' j' K n c :: nat
  assumes "j < K" "j' < K" "c < n" "(i' * K + j') * n \<le> (i * K + j) * n + c" "(i * K + j) * n + c < (i' * K + j') * n + n"
  shows "i' = i \<and> j' = j"
proof -
  have n: "0 < n" using assms(3) by simp
  have "((i * K + j) * n + c) div n = i * K + j" using assms(3) by simp
  moreover have "((i * K + j) * n + c) div n = i' * K + j'"
  proof -
    obtain d where d: "(i * K + j) * n + c = (i' * K + j') * n + d" "d < n" using assms(4,5) by (metis le_iff_add nat_add_left_cancel_less)
    show ?thesis unfolding d(1) using d(2) by simp
  qed
  ultimately have e: "i * K + j = i' * K + j'" by simp
  have "(i * K + j) div K = i" "(i' * K + j') div K = i'" using assms(1,2) by simp_all
  then have "i = i'" using e by simp
  then show ?thesis using e by simp
qed

text \<open>Adding \<open>P i j k\<close> to the blocks, for all \<open>i\<close>, \<open>j\<close>, \<open>k\<close>.\<close>

lemma fold_sum_blocks:
  fixes V :: "'s \<Rightarrow> nat \<Rightarrow> gf2mat"
  assumes step: "\<And>i j k s. i < K \<Longrightarrow> j < K \<Longrightarrow> k < K \<Longrightarrow> I s \<Longrightarrow>
      I (g i j k s) \<and> (\<forall>x. V (g i j k s) x = V s x + (if (i * K + j) * L \<le> x \<and> x < (i * K + j) * L + L then P i j k (x - (i * K + j) * L) else 0))"
    and s: "I s" "\<And>x. V s x = 0"
  shows "I (fold (\<lambda>i s. fold (\<lambda>j s. fold (g i j) [0..<K] s) [0..<K] s) [0..<K] s)"
    "i < K \<Longrightarrow> j < K \<Longrightarrow> c < L \<Longrightarrow> V (fold (\<lambda>i s. fold (\<lambda>j s. fold (g i j) [0..<K] s) [0..<K] s) [0..<K] s) ((i * K + j) * L + c) = (\<Sum>k<K. P i j k c)"
proof -
  define D where "D i j k x = (if (i * K + j) * L \<le> x \<and> x < (i * K + j) * L + L then P i j k (x - (i * K + j) * L) else 0)" for i j k x
  have 1: "I (fold (g i j) [0..<K] s) \<and> (\<forall>x. V (fold (g i j) [0..<K] s) x = V s x + (\<Sum>k<K. D i j k x))" if "i < K" "j < K" "I s" for i j s
    by (rule fold_sum [where I = I and V = V]) (use step that in \<open>auto simp: D_def\<close>)
  have 2: "I (fold (\<lambda>j s. fold (g i j) [0..<K] s) [0..<K] s) \<and> (\<forall>x. V (fold (\<lambda>j s. fold (g i j) [0..<K] s) [0..<K] s) x = V s x + (\<Sum>j<K. \<Sum>k<K. D i j k x))"
    if "i < K" "I s" for i s by (rule fold_sum [where I = I and V = V]) (use 1 that in auto)
  have 3: "I (fold (\<lambda>i s. fold (\<lambda>j s. fold (g i j) [0..<K] s) [0..<K] s) [0..<K] s) \<and>
     (\<forall>x. V (fold (\<lambda>i s. fold (\<lambda>j s. fold (g i j) [0..<K] s) [0..<K] s) [0..<K] s) x = V s x + (\<Sum>i<K. \<Sum>j<K. \<Sum>k<K. D i j k x))"
    by (rule fold_sum [where I = I and V = V]) (use 2 s in auto)
  then show "I (fold (\<lambda>i s. fold (\<lambda>j s. fold (g i j) [0..<K] s) [0..<K] s) [0..<K] s)" by blast
  assume ij: "i < K" "j < K" "c < L"
  have z: "D i' j' k ((i * K + j) * L + c) = (if i' = i \<and> j' = j then P i j k c else 0)" if "j' < K" for i' j' k
    using block_unique [OF ij(2) that ij(3)] ij(3) by (auto simp: D_def)
  have "(\<Sum>i'<K. \<Sum>j'<K. \<Sum>k<K. D i' j' k ((i * K + j) * L + c)) = (\<Sum>i'<K. \<Sum>j'<K. if i' = i \<and> j' = j then (\<Sum>k<K. P i j k c) else 0)"
    by (intro sum.cong refl) (auto simp: z intro!: sum.neutral)
  also have "\<dots> = (\<Sum>i'<K. if i' = i then (\<Sum>j'<K. if j' = j then (\<Sum>k<K. P i j k c) else 0) else 0)" by (intro sum.cong) auto
  also have "\<dots> = (\<Sum>k<K. P i j k c)" using ij by simp
  finally show "V (fold (\<lambda>i s. fold (\<lambda>j s. fold (g i j) [0..<K] s) [0..<K] s) [0..<K] s) ((i * K + j) * L + c) = (\<Sum>k<K. P i j k c)"
    using 3 s(2) by simp
qed

lemma block_step:
  assumes "pol_ok r" "length r = L * K * K" "i < K" "j < K" "pol_ok p" "length p = L"
    "\<And>c. c < L \<Longrightarrow> coef p c = coef r ((i * K + j) * L + c) + Q c"
  shows "pol_ok (overwrite ((i * K + j) * L) p r)" "length (overwrite ((i * K + j) * L) p r) = L * K * K"
    "coef (overwrite ((i * K + j) * L) p r) x = coef r x + (if (i * K + j) * L \<le> x \<and> x < (i * K + j) * L + L then Q (x - (i * K + j) * L) else 0)"
proof -
  have b: "(i * K + j) * L + length p \<le> length r" using block_bound [OF assms(3,4), of L] assms(2,6) by simp
  note o = overwrite_ok [OF assms(1,5) b]
  show "pol_ok (overwrite ((i * K + j) * L) p r)" "length (overwrite ((i * K + j) * L) p r) = L * K * K" using o assms(2) by simp_all
  show "coef (overwrite ((i * K + j) * L) p r) x = coef r x + (if (i * K + j) * L \<le> x \<and> x < (i * K + j) * L + L then Q (x - (i * K + j) * L) else 0)"
    using o(3) [of x] assms(6) assms(7) [of "x - (i * K + j) * L"] by auto
qed

lemma coef_take: "c < n \<Longrightarrow> coef (take n p) c = coef p c"
  by (simp add: coef_def)

lemma cut_entry: "cut n (coef (drop ((i * K + k) * n) a)) = entry n K a i k"
  by (auto simp: entry_def fun_eq_iff cut_def)

definition block_ok :: "nat \<Rightarrow> nat \<Rightarrow> m64pol \<Rightarrow> bool" where
  "block_ok n K a \<longleftrightarrow> pol_ok a \<and> length a = n * K * K"

lemma block_room: "block_ok n K a \<Longrightarrow> i < K \<Longrightarrow> k < K \<Longrightarrow> n \<le> length (drop ((i * K + k) * n) a)"
  using block_bound [of i K k n] by (simp add: block_ok_def)

lemma m64polblock_mul_ok:
  assumes a: "block_ok n1 K a1" "block_ok n2 K a2" "0 < n1 + n2"
  shows "block_ok (n1 + n2 - 1) K (m64polblock_mul a1 a2 n1 n2 K)"
    "i < K \<Longrightarrow> j < K \<Longrightarrow> c < n1 + n2 - 1 \<Longrightarrow>
      entry (n1 + n2 - 1) K (m64polblock_mul a1 a2 n1 n2 K) i j c = (\<Sum>k<K. conv (entry n1 K a1 i k) (entry n2 K a2 k j) c)"
proof -
  define L where "L = n1 + n2 - 1"
  define g where "g = (\<lambda>i j k r. let pr = (i * K + j) * L
      in overwrite pr (m64pol_addmul (take L (drop pr r)) (drop ((i * K + k) * n1) a1) (drop ((k * K + j) * n2) a2) n1 n2) r)"
  have f: "m64polblock_mul a1 a2 n1 n2 K = fold (\<lambda>i s. fold (\<lambda>j s. fold (g i j) [0..<K] s) [0..<K] s) [0..<K] (replicate (L * K * K) zero64)"
    by (simp add: m64polblock_mul_def g_def L_def)
  have step: "block_ok L K (g i j k r) \<and> (\<forall>x. coef (g i j k r) x = coef r x
      + (if (i * K + j) * L \<le> x \<and> x < (i * K + j) * L + L then conv (entry n1 K a1 i k) (entry n2 K a2 k j) (x - (i * K + j) * L) else 0))"
    if "i < K" "j < K" "k < K" "block_ok L K r" for i j k r
  proof -
    let ?p = "m64pol_addmul (take L (drop ((i * K + j) * L) r)) (drop ((i * K + k) * n1) a1) (drop ((k * K + j) * n2) a2) n1 n2"
    have r: "pol_ok r" "length r = L * K * K" using that(4) by (simp_all add: block_ok_def)
    have len: "length (take L (drop ((i * K + j) * L) r)) = L" using block_bound [OF that(1,2), of L] r(2) by simp
    then have le: "n1 + n2 - 1 \<le> length (take L (drop ((i * K + j) * L) r))" by (simp only: L_def order_refl)
    have ok: "pol_ok (take L (drop ((i * K + j) * L) r))" "pol_ok (drop ((i * K + k) * n1) a1)" "pol_ok (drop ((k * K + j) * n2) a2)"
      using r(1) a(1,2) by (simp_all add: block_ok_def)
    note am = m64pol_addmul_ok [OF ok block_room [OF a(1) that(1,3)] block_room [OF a(2) that(3,2)] le, unfolded cut_entry]
    have p: "pol_ok ?p" "length ?p = L" by (simp_all only: am len)
    have "coef ?p c = coef r ((i * K + j) * L + c) + conv (entry n1 K a1 i k) (entry n2 K a2 k j) c" if "c < L" for c
      using am(3) [of c] coef_take [OF that] by (simp only: coef_simps(2))
    note p = p this
    show ?thesis using block_step [OF r that(1,2) p(1,2), of "conv (entry n1 K a1 i k) (entry n2 K a2 k j)"] p(3)
      by (simp add: g_def Let_def block_ok_def)
  qed
  note fs = fold_sum_blocks [where I = "block_ok L K" and V = coef and g = g and L = L
      and P = "\<lambda>i j k. conv (entry n1 K a1 i k) (entry n2 K a2 k j)" and s = "replicate (L * K * K) zero64", OF step]
  have z: "block_ok L K (replicate (L * K * K) zero64)" by (simp add: block_ok_def)
  show "block_ok (n1 + n2 - 1) K (m64polblock_mul a1 a2 n1 n2 K)" using fs(1) z by (simp add: f L_def)
  show "i < K \<Longrightarrow> j < K \<Longrightarrow> c < n1 + n2 - 1 \<Longrightarrow>
      entry (n1 + n2 - 1) K (m64polblock_mul a1 a2 n1 n2 K) i j c = (\<Sum>k<K. conv (entry n1 K a1 i k) (entry n2 K a2 k j) c)"
    using fs(2) z unfolding f L_def [symmetric] by (simp add: entry_def [of L] cut_def)
qed

section \<open>Karatsuba's product agrees\<close>

lemma m64pol_addmul_kara_eq:
  assumes "pol_ok r" "pol_ok a1" "pol_ok a2" "2 ^ e \<le> length a1" "2 ^ e \<le> length a2" "length r = 2 ^ e + 2 ^ e - 1"
  shows "m64pol_addmul_kara r a1 a2 (2 ^ e) (2 ^ e) = Some (m64pol_addmul r a1 a2 (2 ^ e) (2 ^ e))"
proof -
  obtain t where t: "m64pol_mul_kara a1 a2 (2 ^ e) (2 ^ e) = Some t" "pol_ok t" "length t = 2 * 2 ^ e - 1"
    "\<And>k. coef t k = conv (cut (2 ^ e) (coef a1)) (cut (2 ^ e) (coef a2)) k"
    using m64pol_mul_kara_ok [OF assms(2-5)] by blast
  have l: "length t = length r" using t(3) assms(6) by simp
  note s = m64pol_add_ok [OF assms(1) assms(1) t(2), of "length r"]
  have le: "2 ^ e + 2 ^ e - 1 \<le> length r" using assms(6) by simp
  note m = m64pol_addmul_ok [OF assms(1-5) le]
  have "m64pol_add r r t (length r) = m64pol_addmul r a1 a2 (2 ^ e) (2 ^ e)"
    by (rule coef_eqI) (simp_all add: s m l t(4))
  then show ?thesis using t(1) assms(6) by (simp add: m64pol_addmul_kara_def)
qed

lemma fold_some:
  assumes "\<And>x s. x \<in> set xs \<Longrightarrow> P s \<Longrightarrow> f x (Some s) = Some (g x s) \<and> P (g x s)" "P s"
  shows "fold f xs (Some s) = Some (fold g xs s)" "P (fold g xs s)"
  using assms by (induction xs arbitrary: s) auto

lemma m64polblock_mul_kara_eq:
  assumes a: "block_ok (2 ^ e) K a1" "block_ok (2 ^ e) K a2"
  shows "m64polblock_mul_kara a1 a2 (2 ^ e) (2 ^ e) K = Some (m64polblock_mul a1 a2 (2 ^ e) (2 ^ e) K)"
proof -
  define n where "n = (2 :: nat) ^ e"
  define L where "L = n + n - 1"
  define G where "G = (\<lambda>i j k r. overwrite ((i * K + j) * L)
      (m64pol_addmul (take L (drop ((i * K + j) * L) r)) (drop ((i * K + k) * n) a1) (drop ((k * K + j) * n) a2) n n) r)"
  define F where "F = (\<lambda>i j k ro. do { r \<leftarrow> ro;
         p \<leftarrow> m64pol_addmul_kara (take L (drop ((i * K + j) * L) r)) (drop ((i * K + k) * n) a1) (drop ((k * K + j) * n) a2) n n;
         Some (overwrite ((i * K + j) * L) p r) })"
  have ab: "block_ok n K a1" "block_ok n K a2" using a by (simp_all add: n_def)
  have step: "F i j k (Some r) = Some (G i j k r) \<and> block_ok L K (G i j k r)" if "i < K" "j < K" "k < K" "block_ok L K r" for i j k r
  proof -
    have r: "pol_ok r" "length r = L * K * K" using that(4) by (simp_all add: block_ok_def)
    have len: "length (take L (drop ((i * K + j) * L) r)) = n + n - 1" using block_bound [OF that(1,2), of L] r(2) by (simp add: L_def)
    then have le: "n + n - 1 \<le> length (take L (drop ((i * K + j) * L) r))" by simp
    have ok: "pol_ok (take L (drop ((i * K + j) * L) r))" "pol_ok (drop ((i * K + k) * n) a1)" "pol_ok (drop ((k * K + j) * n) a2)"
      using r(1) ab by (simp_all add: block_ok_def)
    note rooms = block_room [OF ab(1) that(1,3)] block_room [OF ab(2) that(3,2)]
    note am = m64pol_addmul_ok [OF ok rooms le]
    have "length (m64pol_addmul (take L (drop ((i * K + j) * L) r)) (drop ((i * K + k) * n) a1) (drop ((k * K + j) * n) a2) n n) = L"
      by (rule trans [OF am(2) len [folded L_def]])
    then have "block_ok L K (G i j k r)"
      using overwrite_ok [OF r(1) am(1), of "(i * K + j) * L"] block_bound [OF that(1,2), of L] r(2) by (simp add: G_def block_ok_def)
    moreover have "F i j k (Some r) = Some (G i j k r)"
      using m64pol_addmul_kara_eq [OF ok, of e] rooms len by (simp add: F_def G_def n_def)
    ultimately show ?thesis by blast
  qed
  have 1: "fold (F i j) [0..<K] (Some r) = Some (fold (G i j) [0..<K] r) \<and> block_ok L K (fold (G i j) [0..<K] r)"
    if "i < K" "j < K" "block_ok L K r" for i j r
    using fold_some [where P = "block_ok L K" and f = "F i j" and g = "G i j" and xs = "[0..<K]" and s = r] step that by auto
  have 2: "fold (\<lambda>j ro. fold (F i j) [0..<K] ro) [0..<K] (Some r) = Some (fold (\<lambda>j r. fold (G i j) [0..<K] r) [0..<K] r)
      \<and> block_ok L K (fold (\<lambda>j r. fold (G i j) [0..<K] r) [0..<K] r)" if "i < K" "block_ok L K r" for i r
    using fold_some [where P = "block_ok L K" and f = "\<lambda>j ro. fold (F i j) [0..<K] ro" and g = "\<lambda>j r. fold (G i j) [0..<K] r" and xs = "[0..<K]" and s = r]
      1 that by auto
  have z: "block_ok L K (replicate (L * K * K) zero64)" by (simp add: block_ok_def)
  have "fold (\<lambda>i ro. fold (\<lambda>j ro. fold (F i j) [0..<K] ro) [0..<K] ro) [0..<K] (Some (replicate (L * K * K) zero64))
      = Some (fold (\<lambda>i r. fold (\<lambda>j r. fold (G i j) [0..<K] r) [0..<K] r) [0..<K] (replicate (L * K * K) zero64))"
    by (rule fold_some(1) [where P = "block_ok L K"]) (use 2 z in auto)
  then show ?thesis unfolding m64polblock_mul_kara_def m64polblock_mul_def F_def G_def L_def n_def Let_def .
qed

section \<open>The products of polynomials\<close>

lemma and_pred_double: "0 < k \<Longrightarrow> (2 * k) AND (2 * k - 1) = 2 * (k AND (k - 1 :: nat))"
proof -
  assume k: "0 < k"
  have "odd (2 * k - 1)" "(2 * k - 1) div 2 = k - 1" using k by simp_all
  then show ?thesis by (subst and_nat_rec) simp
qed

lemma and_pred_zero: "0 < n \<Longrightarrow> n AND (n - 1) = 0 \<Longrightarrow> \<exists>e. n = (2 :: nat) ^ e"
proof (induction n rule: less_induct)
  case (less n)
  show ?case
  proof (cases "even n")
    case True
    then obtain k where k: "n = 2 * k" by blast
    then have "0 < k" "k AND (k - 1) = 0" using less.prems and_pred_double [of k] by auto
    then obtain e where "k = 2 ^ e" using less.IH [of k] k by auto
    then have "n = 2 ^ Suc e" using k by simp
    then show ?thesis by blast
  next
    case False
    then have "n - 1 = n AND (n - 1)" by (subst and_nat_rec) (auto elim!: oddE)
    then have "n = 2 ^ 0" using less.prems by simp
    then show ?thesis by blast
  qed
qed

text \<open>C10: Polynomials of matrices, of any lengths \<open>n1\<close> and \<open>n2\<close> that are not both 0.  \<open>m64pol_mul\<close> computes the product over the ring of matrices and
  \<open>m64pol_addmul\<close> adds it to the contents of \<open>r\<close>; neither writes beyond the \<open>n1 + n2 - 1\<close> coefficients.  Karatsuba's
  product returns the same matrices when the two lengths are the same power of two, and fails (its assertions, or for length 0 an
  endless recursion) in all other cases; so does the addition of it.\<close>

theorem m64pol_products:
  assumes "pol_ok r" and "pol_ok a1" and "pol_ok a2" and "n1 \<le> length a1" and "n2 \<le> length a2" and "0 < n1 + n2" and "length r = n1 + n2 - 1"
  shows "length (m64pol_mul a1 a2 n1 n2) = n1 + n2 - 1
    \<and> (\<forall>k. coef (m64pol_mul a1 a2 n1 n2) k = conv (cut n1 (coef a1)) (cut n2 (coef a2)) k)
    \<and> length (m64pol_addmul r a1 a2 n1 n2) = n1 + n2 - 1
    \<and> (\<forall>k. coef (m64pol_addmul r a1 a2 n1 n2) k = coef r k + conv (cut n1 (coef a1)) (cut n2 (coef a2)) k)
    \<and> m64pol_mul_kara a1 a2 n1 n2 = (if n1 = n2 \<and> (\<exists>e. n1 = 2 ^ e) then Some (m64pol_mul a1 a2 n1 n2) else None)
    \<and> m64pol_addmul_kara r a1 a2 n1 n2 = (if n1 = n2 \<and> (\<exists>e. n1 = 2 ^ e) then Some (m64pol_addmul r a1 a2 n1 n2) else None)"
proof -
  note m = m64pol_mul_ok [OF assms(2-5)] and am = m64pol_addmul_ok [OF assms(1-5) eq_refl [OF assms(7) [symmetric]]]
  have kara: "m64pol_mul_kara a1 a2 n1 n2 = (if n1 = n2 \<and> (\<exists>e. n1 = 2 ^ e) then Some (m64pol_mul a1 a2 n1 n2) else None)"
  proof (cases "n1 = n2 \<and> (\<exists>e. n1 = 2 ^ e)")
    case True
    then obtain e where e: "n1 = 2 ^ e" "n2 = 2 ^ e" by auto
    obtain p where p: "m64pol_mul_kara a1 a2 n1 n2 = Some p" "pol_ok p" "length p = 2 * 2 ^ e - 1"
      "\<And>k. coef p k = conv (cut n1 (coef a1)) (cut n2 (coef a2)) k"
      using m64pol_mul_kara_ok [OF assms(2,3), of e] assms(4,5) unfolding e by blast
    have "p = m64pol_mul a1 a2 n1 n2" by (rule coef_eqI [OF p(2) m(1)]) (simp_all add: m(2,3) [unfolded e] p(3,4) [unfolded e] e mult_2)
    then show ?thesis unfolding if_P [OF True] using p(1) by simp
  next
    case False
    then have "n1 \<noteq> n2 \<or> n1 AND (n1 - 1) \<noteq> 0 \<or> n1 = 0" using and_pred_zero [of n1] by auto
    then show ?thesis using False by (subst m64pol_mul_kara.simps) auto
  qed
  moreover have "m64pol_addmul_kara r a1 a2 n1 n2 = (if n1 = n2 \<and> (\<exists>e. n1 = 2 ^ e) then Some (m64pol_addmul r a1 a2 n1 n2) else None)"
  proof (cases "n1 = n2 \<and> (\<exists>e. n1 = 2 ^ e)")
    case True
    then obtain e where e: "n1 = 2 ^ e" "n2 = 2 ^ e" by auto
    have "m64pol_addmul_kara r a1 a2 n1 n2 = Some (m64pol_addmul r a1 a2 n1 n2)"
      using m64pol_addmul_kara_eq [OF assms(1-3), of e] assms(4,5,7) unfolding e by simp
    then show ?thesis unfolding if_P [OF True] .
  qed (use kara in \<open>simp add: m64pol_addmul_kara_def\<close>)
  ultimately show ?thesis using m(2,3) am(2,3) assms(7) by simp
qed

theorem m64pol_products_witness:
  "length (m64pol_mul [id64, id64] [id64] 2 1) = 2 \<and> coef (m64pol_mul [id64, id64] [id64] 2 1) 1 = conv (cut 2 (coef [id64, id64])) (cut 1 (coef [id64])) 1
    \<and> m64pol_mul_kara [id64, id64] [id64] 2 1 = None
    \<and> m64pol_mul_kara [id64, id64] [id64, id64] 2 2 = Some (m64pol_mul [id64, id64] [id64, id64] 2 2)"
proof -
  have e: "\<exists>e. (2 :: nat) = 2 ^ e" by (rule exI [of _ 1]) simp
  show ?thesis
    using m64pol_products [of "replicate 2 zero64" "[id64, id64]" "[id64]" 2 1] m64pol_products [of "replicate 3 zero64" "[id64, id64]" "[id64, id64]" 2 2] e
    by (simp add: pol_ok_def)
qed

text \<open>C25: Blocks of polynomials.  \<open>m64polblock_mul\<close> computes the product of two \<open>K\<close> times \<open>K\<close> matrices of polynomials of lengths \<open>n1\<close> and \<open>n2\<close>, which may
  differ, each stored by rows without aliasing, and \<open>m64polblock_mul_kara\<close> returns and computes the same when both lengths are the same power of two.\<close>

theorem m64polblock_products:
  assumes "block_ok n1 K a1" and "block_ok n2 K a2" and "0 < n1 + n2"
  shows "block_ok (n1 + n2 - 1) K (m64polblock_mul a1 a2 n1 n2 K)
    \<and> (\<forall>i < K. \<forall>j < K. \<forall>c < n1 + n2 - 1. entry (n1 + n2 - 1) K (m64polblock_mul a1 a2 n1 n2 K) i j c
          = (\<Sum>k<K. conv (entry n1 K a1 i k) (entry n2 K a2 k j) c))
    \<and> (\<forall>e. n1 = 2 ^ e \<and> n2 = 2 ^ e \<longrightarrow> m64polblock_mul_kara a1 a2 n1 n2 K = Some (m64polblock_mul a1 a2 n1 n2 K))"
  using m64polblock_mul_ok [OF assms] m64polblock_mul_kara_eq [of _ K a1 a2] assms(1,2) by auto

theorem m64polblock_products_witness:
  "entry 2 1 (m64polblock_mul [id64, id64] [id64] 2 1 1) 0 0 1 = conv (entry 2 1 [id64, id64] 0 0) (entry 1 1 [id64] 0 0) 1
    \<and> m64polblock_mul_kara [id64, id64] [id64, id64] 2 2 1 = Some (m64polblock_mul [id64, id64] [id64, id64] 2 2 1)"
proof -
  have e: "\<exists>e. 2 ^ e = (2 :: nat)" by (rule exI [of _ 1]) simp
  show ?thesis
    using e m64polblock_products [of 2 1 "[id64, id64]" 1 "[id64]"] m64polblock_products [of 2 1 "[id64, id64]" 2 "[id64, id64]"]
    by (simp add: block_ok_def pol_ok_def)
qed

end
