(* ===== verification/Matops_gauss.thy ===== *)
theory Matops_gauss
  imports Matops
begin

text \<open>
  Gaussian elimination on matrices of 64 rows and columns over GF(2), from \<open>src/linalg/bwc/matops.c\<close> (without SSE 4.1): the four
  eliminations, the permutations of the PLUQ decomposition and the check that the program makes of it.  The rank of a
  matrix is characterised by its left kernel, which has \<open>2 ^ (64 - r)\<close> elements.  The last section is \<open>PLUQ64_n\<close> on the two blocks of columns of \<open>PLUQ128\<close>.
\<close>

section \<open>Row operations\<close>

definition independent64 :: "mat64 \<Rightarrow> bool" where
  "independent64 l \<longleftrightarrow> length l = 64 \<and> (\<forall>x. vecmat x l = 0 \<longrightarrow> x = 0)"

definition left_kernel :: "mat64 \<Rightarrow> ul set" where
  "left_kernel a = {x. vecmat x a = 0}"

lemma independent_id64: "independent64 id64"
  by (simp add: independent64_def vecmat_id64)

lemma vecmat_update:
  assumes "k < length l" "k < 64"
  shows "vecmat x (l[k := l ! k XOR c]) = vecmat x l XOR (if bit x k then c else 0)"
  using assms
proof (induction l arbitrary: x k)
  case (Cons b l)
  show ?case
  proof (cases k)
    case 0
    then show ?thesis by (simp add: bit_0 ac_simps)
  next
    case (Suc k')
    have "bit (drop_bit 1 x) k' = bit x k" by (simp add: Suc bit_drop_bit_eq)
    then show ?thesis using Cons Suc by (simp add: ac_simps)
  qed
qed simp

lemma independent_add:
  assumes "independent64 l" "j < 64" "k < 64" "j \<noteq> k"
  shows "independent64 (l[k := l ! k XOR l ! j])"
  unfolding independent64_def
proof (intro conjI allI impI)
  have l: "length l = 64" using assms(1) by (simp add: independent64_def)
  then show "length (l[k := l ! k XOR l ! j]) = 64" by simp
  fix x assume "vecmat x (l[k := l ! k XOR l ! j]) = 0"
  then have "vecmat (x XOR (if bit x k then 2 ^ j else 0)) l = 0"
    using vecmat_update [of k l x "l ! j"] vecmat_unit [of j l] l assms(2,3) by (auto simp: vecmat_xor)
  then have e: "x XOR (if bit x k then 2 ^ j else 0) = 0" using assms(1) by (simp add: independent64_def)
  have "bit (x XOR (if bit x k then 2 ^ j else 0)) k = bit x k" using assms(3,4) by (auto simp: bit_xor_iff bit_exp_iff possible_bit_def)
  then have "\<not> bit x k" using e by simp
  then show "x = 0" using e by simp
qed

lemma vecmat_swap:
  assumes "j < k" "k < 64" "length l = 64"
  shows "vecmat x (l[j := l ! k, k := l ! j]) = vecmat (x XOR (if bit x j = bit x k then 0 else 2 ^ j XOR 2 ^ k)) l"
proof -
  have "l[j := l ! k, k := l ! j] = (l[j := l ! j XOR (l ! j XOR l ! k)])[k := l[j := l ! j XOR (l ! j XOR l ! k)] ! k XOR (l ! j XOR l ! k)]"
    using assms by (simp add: ac_simps)
  also have "vecmat x \<dots> = (vecmat x l XOR (if bit x j then l ! j XOR l ! k else 0)) XOR (if bit x k then l ! j XOR l ! k else 0)"
    using assms by (simp only: vecmat_update length_list_update)
  also have "\<dots> = vecmat (x XOR (if bit x j = bit x k then 0 else 2 ^ j XOR 2 ^ k)) l"
  proof (cases "bit x j = bit x k")
    case True
    then show ?thesis by (cases "bit x j") (simp_all add: xor.assoc)
  next
    case False
    then show ?thesis using assms by (cases "bit x j") (simp_all add: vecmat_xor vecmat_unit ac_simps)
  qed
  finally show ?thesis .
qed

lemma independent_swap:
  assumes "independent64 l" "j < 64" "k < 64"
  shows "independent64 (l[j := l ! k, k := l ! j])"
proof -
  have l: "length l = 64" using assms(1) by (simp add: independent64_def)
  have main: "independent64 (l[j := l ! k, k := l ! j])" if "j < k" "k < 64" for j k
    unfolding independent64_def
  proof (intro conjI allI impI)
    show "length (l[j := l ! k, k := l ! j]) = 64" using l by simp
    fix x assume "vecmat x (l[j := l ! k, k := l ! j]) = 0"
    then have e: "x XOR (if bit x j = bit x k then 0 else 2 ^ j XOR 2 ^ k) = 0"
      using vecmat_swap [OF that l] assms(1) by (simp add: independent64_def)
    have "bit (x XOR (2 ^ j XOR 2 ^ k)) j = (\<not> bit x j)" "bit (x XOR (2 ^ j XOR 2 ^ k)) k = (\<not> bit x k)"
      using that by (auto simp: bit_xor_iff bit_exp_iff possible_bit_def)
    then show "x = 0" using e by (cases "bit x j = bit x k") auto
  qed
  show ?thesis
  proof (cases j k rule: linorder_cases)
    case less
    then show ?thesis using main assms(3) by blast
  next
    case equal
    then show ?thesis using assms(1) by simp
  next
    case greater
    then have "l[j := l ! k, k := l ! j] = l[k := l ! j, j := l ! k]" by (simp add: list_update_swap)
    then show ?thesis using main [of k j] greater assms(2) by simp
  qed
qed

text \<open>\<open>u = l a\<close> with an invertible \<open>l\<close>: the kernels of \<open>a\<close> and \<open>u\<close> have the same number of elements.\<close>

definition reduces :: "mat64 \<Rightarrow> mat64 \<Rightarrow> mat64 \<Rightarrow> bool" where
  "reduces l u a \<longleftrightarrow> independent64 l \<and> length a = 64 \<and> u = matmul l a"

lemma reduces_init: "length a = 64 \<Longrightarrow> reduces id64 a a"
  by (simp add: reduces_def independent_id64)

lemma reduces_length: "reduces l u a \<Longrightarrow> length l = 64 \<and> length u = 64 \<and> length a = 64"
  by (auto simp: reduces_def independent64_def)

lemma reduces_add:
  assumes "reduces l u a" "j < 64" "k < 64" "j \<noteq> k"
  shows "reduces (l[k := l ! k XOR l ! j]) (u[k := u ! k XOR u ! j]) a"
proof -
  have l: "length l = 64" "u = matmul l a" using assms(1) by (auto simp: reduces_def independent64_def)
  have "u[k := u ! k XOR u ! j] = matmul (l[k := l ! k XOR l ! j]) a"
    using assms(2,3) l by (intro nth_equalityI) (auto simp: nth_list_update vecmat_xor)
  then show ?thesis using assms independent_add by (auto simp: reduces_def)
qed

lemma reduces_swap:
  assumes "reduces l u a" "j < 64" "k < 64"
  shows "reduces (l[j := l ! k, k := l ! j]) (u[j := u ! k, k := u ! j]) a"
proof -
  have l: "length l = 64" "u = matmul l a" using assms(1) by (auto simp: reduces_def independent64_def)
  have "u[j := u ! k, k := u ! j] = matmul (l[j := l ! k, k := l ! j]) a"
    using assms(2,3) l by (intro nth_equalityI) (auto simp: nth_list_update)
  then show ?thesis using assms independent_swap by (auto simp: reduces_def)
qed

lemma left_kernel_reduces:
  assumes "reduces l u a"
  shows "card (left_kernel a) = card (left_kernel u)"
proof -
  have l: "independent64 l" "u = matmul l a" using assms by (auto simp: reduces_def)
  have inj: "inj (\<lambda>x. vecmat x l)"
  proof (rule injI)
    fix x y assume "vecmat x l = vecmat y l"
    then have "vecmat (x XOR y) l = 0" by (simp add: vecmat_xor)
    then have "x XOR y = 0" using l(1) by (simp add: independent64_def)
    then have "(x XOR y) XOR y = y" by simp
    then show "x = y" by (simp add: xor.assoc)
  qed
  then have surj: "surj (\<lambda>x. vecmat x l)" by (simp add: finite_UNIV_inj_surj)
  have "left_kernel a = (\<lambda>x. vecmat x l) ` left_kernel u"
  proof -
    have "vecmat x u = vecmat (vecmat x l) a" for x by (simp add: l(2) vecmat_assoc)
    then show ?thesis using surj by (auto simp: left_kernel_def surj_def image_iff)
  qed
  then show ?thesis using card_image [OF inj_on_subset [OF inj subset_UNIV]] by metis
qed

section \<open>The rank\<close>

text \<open>
  The rows in \<open>P\<close> have pivots: row \<open>j\<close> has bit \<open>c j\<close>, and so has no row of \<open>P\<close> that comes later in the order of \<open>f\<close>.  The
  other rows are zero.
\<close>

definition staircase :: "mat64 \<Rightarrow> nat set \<Rightarrow> (nat \<Rightarrow> nat) \<Rightarrow> (nat \<Rightarrow> nat) \<Rightarrow> bool" where
  "staircase u P c f \<longleftrightarrow> P \<subseteq> {..<64} \<and> inj_on f P \<and> (\<forall>j \<in> P. bit (u ! j) (c j)) \<and> (\<forall>j < 64. j \<notin> P \<longrightarrow> u ! j = 0)
     \<and> (\<forall>i \<in> P. \<forall>j \<in> P. f j < f i \<longrightarrow> \<not> bit (u ! i) (c j))"

lemma parity_upto_one:
  assumes "k < n" "f k" "\<And>i. i < n \<Longrightarrow> i \<noteq> k \<Longrightarrow> \<not> f i"
  shows "parity_upto f n"
proof -
  have "parity_upto f n = parity_upto (\<lambda>i. i = k \<and> True) n" by (rule parity_upto_cong) (use assms in auto)
  then show ?thesis using assms(1) parity_upto_single [of k True n] by simp
qed

lemma staircase_kernel:
  assumes "staircase u P c f" "length u = 64"
  shows "left_kernel u = {x :: ul. \<forall>j \<in> P. \<not> bit x j}"
proof
  show "{x :: ul. \<forall>j \<in> P. \<not> bit x j} \<subseteq> left_kernel u"
  proof
    fix x :: ul assume "x \<in> {x. \<forall>j \<in> P. \<not> bit x j}"
    then have "bit (vecmat x u) b = parity_upto (\<lambda>_. False) 64" for b :: nat
      using assms unfolding bit_vecmat assms(2) by (intro parity_upto_cong) (auto simp: staircase_def)
    then show "x \<in> left_kernel u" by (auto simp: left_kernel_def intro: bit_word_eqI)
  qed
  show "left_kernel u \<subseteq> {x. \<forall>j \<in> P. \<not> bit x j}"
  proof
    fix x assume x: "x \<in> left_kernel u"
    have P: "P \<subseteq> {..<64}" "finite P" using assms(1) finite_subset [of P "{..<64}"] by (auto simp: staircase_def)
    show "x \<in> {x. \<forall>j \<in> P. \<not> bit x j}"
    proof (rule ccontr)
      assume "x \<notin> {x. \<forall>j \<in> P. \<not> bit x j}"
      then have ne: "{j \<in> P. bit x j} \<noteq> {}" by auto
      define j where "j = arg_min_on f {j \<in> P. bit x j}"
      have j: "j \<in> P" "bit x j" "\<And>i. i \<in> P \<Longrightarrow> bit x i \<Longrightarrow> f j \<le> f i"
        using arg_min_if_finite [of "{j \<in> P. bit x j}" f] P(2) ne by (auto simp: j_def not_less)
      have "bit (vecmat x u) (c j)"
        unfolding bit_vecmat assms(2)
      proof (rule parity_upto_one [of j])
        show "j < 64" using j(1) P(1) by auto
        show "bit x j \<and> bit (u ! j) (c j)" using j(1,2) assms(1) by (simp add: staircase_def)
        fix i assume i: "i < 64" "i \<noteq> j"
        show "\<not> (bit x i \<and> bit (u ! i) (c j))"
        proof (cases "i \<in> P \<and> bit x i")
          case True
          then have "f j < f i" using j(3) [of i] i(2) j(1) assms(1) by (metis inj_onD le_neq_trans staircase_def)
          then show ?thesis using True j(1) assms(1) by (simp add: staircase_def)
        next
          case False
          then show ?thesis using i(1) assms(1) by (auto simp: staircase_def)
        qed
      qed
      then show False using x by (simp add: left_kernel_def)
    qed
  qed
qed

lemma card_words_avoiding:
  assumes "P \<subseteq> {..<64}"
  shows "card {x :: ul. \<forall>j \<in> P. \<not> bit x j} = 2 ^ (64 - card P)"
proof -
  define S where "S = {x :: ul. \<forall>j \<in> P. \<not> bit x j}"
  define g where "g = (\<lambda>x :: ul. {i. i < 64 \<and> bit x i})"
  have inj: "inj_on g S"
  proof (rule inj_onI)
    fix x y assume "g x = g y"
    then show "x = y" by (intro bit_word_eqI) (auto simp: g_def set_eq_iff)
  qed
  have "g ` S = Pow ({..<64} - P)"
  proof
    show "g ` S \<subseteq> Pow ({..<64} - P)" by (auto simp: g_def S_def)
    show "Pow ({..<64} - P) \<subseteq> g ` S"
    proof
      fix X assume X: "X \<in> Pow ({..<64} - P)"
      define x :: ul where "x = word_of_int (horner_sum of_bool 2 (map (\<lambda>j. j \<in> X) [0..<64]))"
      have b: "bit x i = (i < 64 \<and> i \<in> X)" for i by (auto simp: x_def bit_word_of_int_iff bit_horner_sum_bit_iff)
      have "g x = X" "x \<in> S" using X b by (auto simp: g_def S_def)
      then show "X \<in> g ` S" by blast
    qed
  qed
  then have "card S = card (Pow ({..<64} - P))" using card_image [OF inj] by simp
  also have "\<dots> = 2 ^ (64 - card P)" using assms by (simp add: card_Pow card_Diff_subset finite_subset [OF assms])
  finally show ?thesis by (simp add: S_def)
qed

lemma reduces_rank:
  assumes "reduces l u a" "staircase u P c f"
  shows "card (left_kernel a) = 2 ^ (64 - card P)"
proof -
  have "P \<subseteq> {..<64}" using assms(2) by (simp add: staircase_def)
  then show ?thesis using left_kernel_reduces [OF assms(1)] staircase_kernel [OF assms(2)] reduces_length [OF assms(1)] card_words_avoiding by simp
qed

section \<open>Triangular elimination\<close>

definition mat64_is_uppertriangular :: "mat64 \<Rightarrow> bool" where
  "mat64_is_uppertriangular u = list_all (\<lambda>k. u ! k AND (push_bit k 1 - 1) = 0) [0..<64]"

definition mat64_is_lowertriangular :: "mat64 \<Rightarrow> bool" where
  "mat64_is_lowertriangular u = list_all (\<lambda>k. u ! k AND push_bit k (- 2) = 0) [0..<64]"

definition mat64_triangular_is_unit :: "mat64 \<Rightarrow> bool" where
  "mat64_triangular_is_unit u = list_all (\<lambda>k. u ! k AND push_bit k 1 \<noteq> 0) [0..<64]"

definition mat64_eq :: "mat64 \<Rightarrow> mat64 \<Rightarrow> bool" where
  "mat64_eq a b = list_all (\<lambda>k. a ! k = b ! k) [0..<64]"

definition mat64_set_identity :: "mat64 \<Rightarrow> mat64" where
  "mat64_set_identity m = fst (fold (\<lambda>j (m, msk). (m[j := msk], push_bit 1 msk)) [0..<64] (m, 1))"

definition low_bit :: "ul \<Rightarrow> ul" where
  "low_bit r = r XOR (r AND (r - 1))"

text \<open>The inner loop: row \<open>j\<close>, with the contents \<open>pr\<close> and \<open>er\<close>, is added to the rows below that have the bit \<open>v\<close>.\<close>

definition elim_rows :: "nat \<Rightarrow> ul \<Rightarrow> ul \<Rightarrow> ul \<Rightarrow> mat64 \<times> mat64 \<Rightarrow> mat64 \<times> mat64" where
  "elim_rows j v pr er ul =
     fold (\<lambda>k (u, l). let w = - of_bool (u ! k AND v \<noteq> 0)
                      in (u[k := u ! k XOR (pr AND w)], l[k := l ! k XOR (er AND w)])) [j + 1..<64] ul"

definition lup_row :: "nat \<Rightarrow> mat64 \<times> mat64 \<times> mat64 \<times> ul \<times> nat \<times> nat list \<Rightarrow> mat64 \<times> mat64 \<times> mat64 \<times> ul \<times> nat \<times> nat list" where
  "lup_row j = (\<lambda>(u, l, p, todo, r, store).
     let pr = u ! j in
     if pr AND todo = 0 then (u, l, p, todo, r, store @ [j])
     else let v = low_bit pr; (u', l') = elim_rows j v pr (l ! j) (u, l)
          in (u', l', p[j := v], todo XOR v, r + 1, store))"

text \<open>The columns that remain go to the rows in \<open>store\<close>; beyond the rows stored the array is not initialised.\<close>

fun lup_rest :: "ul \<Rightarrow> nat list \<Rightarrow> mat64 \<Rightarrow> mat64 option" where
  "lup_rest todo store p =
     (if todo = 0 then Some p
      else case store of [] \<Rightarrow> None | s # store \<Rightarrow> let vv = low_bit todo in lup_rest (todo XOR vv) store (p[s := vv]))"

declare lup_rest.simps [simp del]

text \<open>\<open>l\<close> and \<open>p\<close> are set to the identity first.\<close>

definition LUP64_imm :: "mat64 \<Rightarrow> (mat64 \<times> mat64 \<times> mat64 \<times> nat) option" where
  "LUP64_imm a =
     (let e = mat64_set_identity (replicate 64 0);
          (u, l, p, todo, r, store) = fold lup_row [0..<64] (a, e, e, NOT 0, 0, [])
      in do { p \<leftarrow> lup_rest todo store p; Some (l, u, p, r) })"

text \<open>\<open>bsfq\<close>: the index of the lowest bit set.\<close>

definition bsfq :: "ul \<Rightarrow> nat" where
  "bsfq r = length (takeWhile (\<lambda>i. \<not> bit r i) [0..<64])"

definition PLUQ64_row :: "int \<Rightarrow> nat \<Rightarrow> int list \<times> mat64 \<times> mat64 \<times> ul \<times> nat \<Rightarrow> int list \<times> mat64 \<times> mat64 \<times> ul \<times> nat" where
  "PLUQ64_row col_offset i = (\<lambda>(phi, u, l, todo, rank).
     let r = u ! i in
     if phi ! i \<ge> 0 then (phi, u, l, todo, rank)
     else if r AND todo = 0 then (phi, u, l, todo, rank)
     else let v = low_bit r; j = bsfq r; (u', l') = elim_rows i v r (l ! i) (u, l)
          in (phi[i := col_offset + int j], u', l', todo XOR v, rank + 1))"

definition PLUQ64_inner :: "int list option \<Rightarrow> mat64 \<Rightarrow> int \<Rightarrow> int list \<times> mat64 \<times> mat64 \<times> nat" where
  "PLUQ64_inner phi a col_offset =
     (let phi = (case phi of None \<Rightarrow> replicate 64 (- 1) | Some phi \<Rightarrow> phi);
          (phi, u, l, todo, rank) = fold (PLUQ64_row col_offset) [0..<64] (phi, a, mat64_set_identity (replicate 64 0), NOT 0, 0)
      in (phi, l, u, rank))"

lemma bsfq_props:
  assumes "r \<noteq> 0"
  shows "bsfq r < 64" "bit r (bsfq r)" "\<And>i. i < bsfq r \<Longrightarrow> \<not> bit r i"
proof -
  obtain k where "k < 64" "bit r k" using assms by (auto simp: bit_eq_iff dest: bit_imp_le_length)
  then have "takeWhile (\<lambda>i. \<not> bit r i) [0..<64] \<noteq> [0..<64]" by (metis atLeastLessThan_iff in_set_conv_nth set_takeWhileD set_upt zero_le)
  then have l: "bsfq r < 64" by (metis bsfq_def le_neq_implies_less length_takeWhile_le length_upt minus_nat.diff_0 takeWhile_eq_take take_all_iff order_refl)
  then show "bsfq r < 64" .
  have "bsfq r < length [0..<64]" using l by simp
  then show "bit r (bsfq r)" using nth_length_takeWhile [of "\<lambda>i. \<not> bit r i" "[0..<64]"] l by (simp add: bsfq_def)
  show "\<not> bit r i" if "i < bsfq r" for i
  proof -
    have "takeWhile (\<lambda>i. \<not> bit r i) [0..<64] ! i = [0..<64] ! i" using that by (simp add: bsfq_def takeWhile_nth)
    then have "i \<in> set (takeWhile (\<lambda>i. \<not> bit r i) [0..<64])" using that l by (metis add_0 bsfq_def diff_zero length_upt less_trans nth_mem nth_upt)
    then show ?thesis using set_takeWhileD by fast
  qed
qed

lemma low_bit_eq:
  assumes "r \<noteq> 0"
  shows "low_bit r = 2 ^ bsfq r"
proof -
  define c where "c = bsfq r"
  have c: "c < 64" "bit r c" "\<And>i. i < c \<Longrightarrow> \<not> bit r i" using bsfq_props [OF assms] by (simp_all add: c_def)
  define h where "h = r AND NOT (2 ^ c)"
  have disj: "h AND 2 ^ c = 0" by (rule bit_word_eqI) (auto simp: h_def bit_and_iff bit_not_iff)
  have r: "r = h + 2 ^ c"
  proof -
    have "r = h OR 2 ^ c" by (rule bit_word_eqI) (use c(2) in \<open>auto simp: h_def bit_or_iff bit_and_iff bit_not_iff bit_exp_iff\<close>)
    then show ?thesis using disjunctive_add_eq_or [OF disj] by simp
  qed
  have h: "\<not> bit h i" if "i \<le> c" for i
    using c(3) that by (cases "i = c") (auto simp: h_def bit_and_iff bit_not_iff bit_exp_iff possible_bit_def dest: bit_imp_le_length)
  have dm: "h AND mask c = 0" by (rule bit_word_eqI) (use h in \<open>auto simp: bit_and_iff bit_mask_iff\<close>)
  have "r - 1 = h + mask c" using r by (simp add: mask_eq_exp_minus_1)
  also have "\<dots> = h OR mask c" by (rule disjunctive_add_eq_or [OF dm])
  finally have r1: "r - 1 = h OR mask c" .
  show ?thesis unfolding c_def [symmetric]
    by (rule bit_word_eqI)
      (use h c in \<open>auto simp: low_bit_def r1 bit_xor_iff bit_and_iff bit_or_iff bit_mask_iff bit_exp_iff h_def bit_not_iff possible_bit_def\<close>)
qed

lemma and_bit_iff: "c < 64 \<Longrightarrow> (x :: ul) AND 2 ^ c \<noteq> 0 \<longleftrightarrow> bit x c"
proof -
  assume c: "c < 64"
  have "bit (2 ^ c :: ul) c" using c by (simp add: bit_exp_iff possible_bit_def)
  then have "2 ^ c \<noteq> (0 :: ul)" by (metis bit_0_eq bot_apply bot_bool_def)
  moreover have "x AND 2 ^ c = (if bit x c then 2 ^ c else 0)"
    by (rule bit_word_eqI) (auto simp: bit_and_iff bit_exp_iff possible_bit_def)
  ultimately show ?thesis by simp
qed

lemma and_bool_mask: "x AND - of_bool b = (if b then x else (0 :: ul))"
  by simp

lemma elim_rows_eq:
  assumes "length u = 64" "length l = 64" "c < 64"
  shows "elim_rows j (2 ^ c) pr er (u, l)
    = (map (\<lambda>k. if j < k \<and> bit (u ! k) c then u ! k XOR pr else u ! k) [0..<64],
       map (\<lambda>k. if j < k \<and> bit (u ! k) c then l ! k XOR er else l ! k) [0..<64])"
proof -
  let ?f = "\<lambda>k (u, l). let w = - of_bool (u ! k AND 2 ^ c \<noteq> 0) in (u[k := u ! k XOR (pr AND w)], l[k := l ! k XOR (er AND w)])"
  have "fold ?f [j + 1..<n] (u, l)
      = (map (\<lambda>k. if j < k \<and> k < n \<and> bit (u ! k) c then u ! k XOR pr else u ! k) [0..<64],
         map (\<lambda>k. if j < k \<and> k < n \<and> bit (u ! k) c then l ! k XOR er else l ! k) [0..<64])" if "n \<le> 64" for n
    using that
  proof (induction n)
    case 0
    then show ?case using assms map_nth [of u] map_nth [of l] by simp
  next
    case (Suc n)
    show ?case
    proof (cases "j < n")
      case True
      then have "[j + 1..<Suc n] = [j + 1..<n] @ [n]" by simp
      then show ?thesis using Suc True and_bit_iff [OF assms(3), of "u ! n"]
        by (simp add: map_upt_update Let_def)
    next
      case False
      then have "fold ?f [j + 1..<Suc n] (u, l) = (u, l)" by simp
      moreover have no: "\<not> (j < k \<and> k < Suc n \<and> bit (u ! k) c)" for k using False by auto
      ultimately show ?thesis unfolding if_not_P [OF no] using assms map_nth [of u] map_nth [of l] by simp
    qed
  qed
  from this [of 64] show ?thesis by (simp add: elim_rows_def cong: map_cong)
qed

section \<open>The invariant of the elimination\<close>

definition unit_lower :: "mat64 \<Rightarrow> bool" where
  "unit_lower l \<longleftrightarrow> length l = 64 \<and> (\<forall>k < 64. bit (l ! k) k \<and> (\<forall>b < 64. k < b \<longrightarrow> \<not> bit (l ! k) b))"

lemma unit_lower_id64: "unit_lower id64"
  by (simp add: unit_lower_def bit_exp_iff possible_bit_def)

lemma unit_lower_independent:
  assumes "unit_lower l"
  shows "independent64 l"
proof -
  have "staircase l {..<64} (\<lambda>j. j) (\<lambda>j. 63 - j)"
    using assms by (auto simp: staircase_def unit_lower_def inj_on_def)
  then have "left_kernel l = {x :: ul. \<forall>j \<in> {..<64}. \<not> bit x j}" using assms by (intro staircase_kernel) (simp_all add: unit_lower_def)
  then have "\<not> bit x j" if "vecmat x l = 0" "j < 64" for x :: ul and j using that by (auto simp: left_kernel_def set_eq_iff)
  then have "x = 0" if "vecmat x l = 0" for x :: ul using that by (intro bit_word_eqI) simp
  then show ?thesis using assms by (auto simp: independent64_def unit_lower_def)
qed

lemma mat64_set_identity_eq: "length m = 64 \<Longrightarrow> mat64_set_identity m = id64"
proof -
  assume m: "length m = 64"
  have "fold (\<lambda>j (m, msk). (m[j := msk], push_bit 1 msk)) [0..<n] (m, 1) = (map (\<lambda>i. if i < n then 2 ^ i else m ! i) [0..<64], 2 ^ n)"
    if "n \<le> 64" for n
    using that
  proof (induction n)
    case 0
    then show ?case using m map_nth [of m] by simp
  next
    case (Suc n)
    then show ?case by (simp add: map_upt_update less_Suc_eq)
  qed
  from this [of 64] show ?thesis by (auto simp: mat64_set_identity_def intro!: nth_equalityI)
qed

text \<open>
  Rows up to \<open>i\<close> are done, those in \<open>S\<close> are left out, those in \<open>P\<close> have pivots in the columns \<open>C\<close>, which the rows below do not
  have; \<open>todo\<close> has the other columns.
\<close>

definition elim_inv :: "mat64 \<Rightarrow> nat set \<Rightarrow> nat set \<Rightarrow> (nat \<Rightarrow> nat) \<Rightarrow> mat64 \<Rightarrow> mat64 \<Rightarrow> ul \<Rightarrow> nat \<Rightarrow> bool" where
  "elim_inv a S P C u l todo i \<longleftrightarrow> length a = 64 \<and> unit_lower l \<and> u = matmul l a \<and> P \<subseteq> {..<i} - S \<and> i \<le> 64
     \<and> inj_on C P \<and> C ` P \<subseteq> {..<64} \<and> (\<forall>b < 64. bit todo b = (b \<notin> C ` P))
     \<and> (\<forall>j \<in> P. bit (u ! j) (C j) \<and> (\<forall>k < 64. j < k \<longrightarrow> \<not> bit (u ! k) (C j))) \<and> (\<forall>j < i. j \<notin> P \<longrightarrow> j \<notin> S \<longrightarrow> u ! j = 0)"

lemma elim_invD:
  assumes "elim_inv a S P C u l todo i"
  shows "length a = 64" "unit_lower l" "u = matmul l a" "P \<subseteq> {..<i} - S" "inj_on C P" "C ` P \<subseteq> {..<64}" "b < 64 \<Longrightarrow> bit todo b = (b \<notin> C ` P)"
    "j \<in> P \<Longrightarrow> bit (u ! j) (C j)" "j \<in> P \<Longrightarrow> k < 64 \<Longrightarrow> j < k \<Longrightarrow> \<not> bit (u ! k) (C j)" "j < i \<Longrightarrow> j \<notin> P \<Longrightarrow> j \<notin> S \<Longrightarrow> u ! j = 0"
    "length u = 64" "length l = 64" "i \<le> 64"
  using assms unfolding elim_inv_def unit_lower_def by auto

lemma elim_inv_init: "length a = 64 \<Longrightarrow> elim_inv a S {} C a id64 (NOT 0) 0"
  by (simp add: elim_inv_def unit_lower_id64)

lemma elim_inv_skip: "elim_inv a S P C u l todo i \<Longrightarrow> i < 64 \<Longrightarrow> i \<in> S \<or> u ! i = 0 \<Longrightarrow> elim_inv a S P C u l todo (Suc i)"
  unfolding elim_inv_def by (auto simp: less_Suc_eq)

lemma elim_inv_row:
  assumes "elim_inv a S P C u l todo i" "i < 64" "bit (u ! i) b" "b < 64"
  shows "bit todo b"
  using elim_invD(4,7,9) [OF assms(1)] assms(2-4) by fastforce

lemma elim_inv_zero:
  assumes "elim_inv a S P C u l todo i" "i < 64" "u ! i AND todo = 0"
  shows "u ! i = 0"
proof (rule bit_word_eqI)
  fix b assume b: "b < LENGTH(64)"
  have "bit (u ! i AND todo) b = bit 0 b" using assms(3) by simp
  then show "bit (u ! i) b = bit 0 b" using elim_inv_row [OF assms(1,2)] b by (auto simp: bit_and_iff)
qed

lemma elim_inv_pivot:
  assumes inv: "elim_inv a S P C u l todo i" and i: "i < 64" "i \<notin> S" "u ! i \<noteq> 0"
    and e: "elim_rows i (low_bit (u ! i)) (u ! i) (l ! i) (u, l) = (u', l')"
  shows "elim_inv a S (insert i P) (C(i := bsfq (u ! i))) u' l' (todo XOR low_bit (u ! i)) (Suc i)"
    "bit todo (bsfq (u ! i))" "i \<notin> P" "\<And>j. j \<le> i \<Longrightarrow> u' ! j = u ! j"
proof -
  define c where "c = bsfq (u ! i)"
  have c: "c < 64" "bit (u ! i) c" "low_bit (u ! i) = 2 ^ c" using bsfq_props [OF i(3)] low_bit_eq [OF i(3)] by (simp_all add: c_def)
  note d = elim_invD [OF inv]
  have t: "bit todo c" using elim_inv_row [OF inv i(1) c(2,1)] .
  then have nc: "c \<notin> C ` P" using d(7) [OF c(1)] by simp
  show "bit todo (bsfq (u ! i))" using t by (simp add: c_def)
  show iP: "i \<notin> P" using d(4) by auto
  have u': "u' = map (\<lambda>k. if i < k \<and> bit (u ! k) c then u ! k XOR u ! i else u ! k) [0..<64]"
    and l': "l' = map (\<lambda>k. if i < k \<and> bit (u ! k) c then l ! k XOR l ! i else l ! k) [0..<64]"
    using e elim_rows_eq [OF d(11,12) c(1), of i "u ! i" "l ! i"] by (simp_all add: c(3))
  show keep: "u' ! j = u ! j" if "j \<le> i" for j using that i(1) by (simp add: u')
  have ul: "unit_lower l'" using d(2) i(1) by (auto simp: unit_lower_def l' bit_xor_iff)
  have mul: "u' = matmul l' a"
  proof (rule nth_equalityI)
    show "length u' = length (matmul l' a)" by (simp add: u' l')
    fix k assume "k < length u'"
    then have k: "k < 64" by (simp add: u')
    have m: "u ! k = vecmat (l ! k) a" "u ! i = vecmat (l ! i) a" using d(3,12) k i(1) by simp_all
    show "u' ! k = matmul l' a ! k" using k by (simp add: u' l' m vecmat_xor)
  qed
  have piv: "bit (u' ! j) ((C(i := c)) j) \<and> (\<forall>k < 64. j < k \<longrightarrow> \<not> bit (u' ! k) ((C(i := c)) j))" if "j \<in> insert i P" for j
  proof (cases "j = i")
    case True
    have "bit (u' ! i) c" using keep c(2) by simp
    moreover have "\<not> bit (u' ! k) c" if "k < 64" "i < k" for k using that c(2) by (auto simp: u' bit_xor_iff)
    ultimately show ?thesis using True by simp
  next
    case False
    then have j: "j \<in> P" "j < i" using that d(4) by auto
    have "bit (u' ! j) (C j)" using keep d(8) [OF j(1)] j(2) by simp
    moreover have "\<not> bit (u' ! k) (C j)" if "k < 64" "j < k" for k
      using that d(9) [OF j(1)] i(1) j(2) by (auto simp: u' bit_xor_iff)
    ultimately show ?thesis using False by simp
  qed
  have CP: "(C(i := c)) ` insert i P = insert c (C ` P)" using iP by auto
  have inj: "inj_on (C(i := c)) (insert i P)" using d(5) nc iP by (auto simp: inj_on_def)
  have todo: "bit (todo XOR 2 ^ c) b = (b \<notin> insert c (C ` P))" if "b < 64" for b
    using that d(7) [OF that] t c(1) nc by (auto simp: bit_xor_iff bit_exp_iff possible_bit_def)
  have rest: "u' ! j = 0" if "j < Suc i" "j \<notin> insert i P" "j \<notin> S" for j
    using that keep [of j] d(10) [of j] by auto
  have "elim_inv a S (insert i P) (C(i := c)) u' l' (todo XOR 2 ^ c) (Suc i)"
    unfolding elim_inv_def CP using d(1,4,6,13) ul mul inj todo piv rest c(1) i(1,2) by auto
  then show "elim_inv a S (insert i P) (C(i := bsfq (u ! i))) u' l' (todo XOR low_bit (u ! i)) (Suc i)" by (simp add: c_def [symmetric] c(3))
qed

lemma elim_inv_done:
  assumes "elim_inv a {} P C u l todo 64"
  shows "reduces l u a" "staircase u P C (\<lambda>j. j)" "card (left_kernel a) = 2 ^ (64 - card P)"
proof -
  note d = elim_invD [OF assms]
  show r: "reduces l u a" using d(1-3) unit_lower_independent by (auto simp: reduces_def)
  show s: "staircase u P C (\<lambda>j. j)" unfolding staircase_def using d(4,8,9,10) by auto
  show "card (left_kernel a) = 2 ^ (64 - card P)" by (rule reduces_rank [OF r s])
qed

lemma triangular_checks:
  assumes "unit_lower l"
  shows "mat64_is_lowertriangular l" "mat64_triangular_is_unit l"
proof -
  have b: "bit (- 2 :: ul) n = (0 < n)" if "n < 64" for n using that by (cases n) (simp_all add: bit_0 bit_minus_2_iff possible_bit_def)
  have "l ! k AND push_bit k (- 2) = 0" if "k < 64" for k
  proof (rule bit_word_eqI)
    fix n assume n: "n < LENGTH(64)"
    show "bit (l ! k AND push_bit k (- 2)) n = bit 0 n"
    proof (cases "k < n")
      case True
      then show ?thesis using assms n by (simp add: unit_lower_def bit_and_iff)
    next
      case False
      then show ?thesis using b [of "n - k"] n by (auto simp: bit_and_iff bit_push_bit_iff)
    qed
  qed
  then show "mat64_is_lowertriangular l" by (simp add: mat64_is_lowertriangular_def list_all_iff)
  have "l ! k AND 2 ^ k \<noteq> 0" if "k < 64" for k using assms that and_bit_iff by (simp add: unit_lower_def)
  then show "mat64_triangular_is_unit l" by (simp add: mat64_triangular_is_unit_def list_all_iff)
qed

section \<open>LUP\<close>

definition word_bits :: "ul \<Rightarrow> nat set" where
  "word_bits w = {b. b < 64 \<and> bit w b}"

lemma finite_word_bits: "finite (word_bits w)"
  by (rule finite_subset [of _ "{..<64}"]) (auto simp: word_bits_def)

lemma word_bits_empty: "word_bits w = {} \<longleftrightarrow> w = 0"
  by (auto simp: word_bits_def bit_eq_iff dest: bit_imp_le_length)

lemma word_bits_low:
  assumes "w \<noteq> 0"
  shows "bsfq w \<in> word_bits w" "word_bits (w XOR low_bit w) = word_bits w - {bsfq w}"
  using bsfq_props(1,2) [OF assms] by (auto simp: word_bits_def low_bit_eq [OF assms] bit_xor_iff bit_exp_iff possible_bit_def)

lemma lup_rest_ok:
  assumes "distinct store" "card (word_bits todo) = length store"
  shows "\<exists>f q. lup_rest todo store p = Some q \<and> bij_betw f (set store) (word_bits todo) \<and> length q = length p
    \<and> (\<forall>j < length p. q ! j = (if j \<in> set store then 2 ^ f j else p ! j))"
  using assms
proof (induction store arbitrary: todo p)
  case Nil
  then have "word_bits todo = {}" by (simp add: finite_word_bits)
  then have "todo = 0" "word_bits 0 = {}" by (simp_all only: word_bits_empty)
  then show ?case by (simp add: lup_rest.simps bij_betw_def)
next
  case (Cons s store)
  have ne: "todo \<noteq> 0"
  proof
    assume "todo = 0"
    then have "word_bits todo = {}" by (simp only: word_bits_empty)
    then show False using Cons.prems(2) by simp
  qed
  note low = word_bits_low [OF ne]
  have "card (word_bits (todo XOR low_bit todo)) = length store" using Cons.prems(2) low by (simp add: finite_word_bits)
  then obtain f q where fq: "lup_rest (todo XOR low_bit todo) store (p[s := low_bit todo]) = Some q"
    "bij_betw f (set store) (word_bits (todo XOR low_bit todo))" "length q = length p"
    "\<forall>j < length p. q ! j = (if j \<in> set store then 2 ^ f j else p[s := low_bit todo] ! j)"
    using Cons.IH [of "todo XOR low_bit todo" "p[s := low_bit todo]"] Cons.prems(1) by auto
  have s: "s \<notin> set store" using Cons.prems(1) by simp
  have "bij_betw (f(s := bsfq todo)) (insert s (set store)) (insert (bsfq todo) (word_bits todo - {bsfq todo}))"
    using fq(2) s unfolding low(2) by (auto simp: bij_betw_def inj_on_def)
  moreover have "insert (bsfq todo) (word_bits todo - {bsfq todo}) = word_bits todo" using low(1) by auto
  moreover have "lup_rest todo (s # store) p = Some q" using fq(1) ne by (simp add: lup_rest.simps [of todo] Let_def)
  moreover have "\<forall>j < length p. q ! j = (if j \<in> set (s # store) then 2 ^ (f(s := bsfq todo)) j else p ! j)"
    using fq(4) s low_bit_eq [OF ne] by (auto simp: nth_list_update)
  ultimately show ?case using fq(3) by (intro exI [of _ "f(s := bsfq todo)"] exI [of _ q]) (simp only: list.set simp_thms)
qed

text \<open>The state of the loop before row \<open>i\<close>: \<open>P\<close> has the pivot rows, \<open>C\<close> their columns.\<close>

definition lup_inv :: "mat64 \<Rightarrow> nat set \<Rightarrow> (nat \<Rightarrow> nat) \<Rightarrow> nat \<Rightarrow> mat64 \<times> mat64 \<times> mat64 \<times> ul \<times> nat \<times> nat list \<Rightarrow> bool" where
  "lup_inv a P C i = (\<lambda>(u, l, p, todo, r, store). elim_inv a {} P C u l todo i \<and> r = card P \<and> length p = 64
     \<and> (\<forall>j \<in> P. p ! j = 2 ^ C j) \<and> distinct store \<and> set store = {..<i} - P)"

lemma lup_row_inv:
  assumes "lup_inv a P C i st" "i < 64"
  shows "\<exists>P C. lup_inv a P C (Suc i) (lup_row i st)"
proof -
  obtain u l p todo r store where st: "st = (u, l, p, todo, r, store)" by (cases st)
  have inv: "elim_inv a {} P C u l todo i" and rest: "r = card P" "length p = 64" "\<forall>j \<in> P. p ! j = 2 ^ C j" "distinct store" "set store = {..<i} - P"
    using assms(1) by (simp_all add: lup_inv_def st)
  have P: "P \<subseteq> {..<i}" "finite P" using elim_invD(4) [OF inv] finite_subset [of P "{..<i}"] by auto
  show ?thesis
  proof (cases "u ! i AND todo = 0")
    case True
    then have "elim_inv a {} P C u l todo (Suc i)" using elim_inv_skip [OF inv assms(2)] elim_inv_zero [OF inv assms(2)] by blast
    moreover have "lup_row i st = (u, l, p, todo, r, store @ [i])" by (simp add: st lup_row_def True)
    moreover have "set (store @ [i]) = {..<Suc i} - P" "distinct (store @ [i])" using rest(4,5) P(1) by auto
    ultimately show ?thesis using rest by (auto simp: lup_inv_def)
  next
    case False
    then have nz: "u ! i \<noteq> 0" by auto
    obtain u' l' where e: "elim_rows i (low_bit (u ! i)) (u ! i) (l ! i) (u, l) = (u', l')" by force
    have "i \<notin> {}" by simp
    note piv = elim_inv_pivot [OF inv assms(2) this nz e]
    have "lup_row i st = (u', l', p[i := low_bit (u ! i)], todo XOR low_bit (u ! i), r + 1, store)"
      using False e by (simp add: st lup_row_def Let_def)
    moreover have "\<forall>j \<in> insert i P. p[i := low_bit (u ! i)] ! j = 2 ^ (C(i := bsfq (u ! i))) j"
    proof
      fix j assume "j \<in> insert i P"
      then show "p[i := low_bit (u ! i)] ! j = 2 ^ (C(i := bsfq (u ! i))) j"
        using rest(2,3) assms(2) low_bit_eq [OF nz] by (cases "j = i") simp_all
    qed
    moreover have "set store = {..<Suc i} - insert i P" unfolding rest(5) lessThan_Suc by blast
    moreover have "r + 1 = card (insert i P)" using rest(1) piv(3) P(2) by simp
    ultimately have "lup_inv a (insert i P) (C(i := bsfq (u ! i))) (Suc i) (lup_row i st)"
      unfolding lup_inv_def using piv(1) rest(2,4) by (simp only: split_conv length_list_update simp_thms)
    then show ?thesis by blast
  qed
qed

lemma lup_rows_inv:
  assumes "length a = 64" "n \<le> 64"
  shows "\<exists>P C. lup_inv a P C n (fold lup_row [0..<n] (a, id64, id64, NOT 0, 0, []))"
  using assms(2)
proof (induction n)
  case 0
  show ?case using elim_inv_init [OF assms(1), of "{}"] by (intro exI [of _ "{}"]) (auto simp: lup_inv_def)
next
  case (Suc n)
  then show ?case using lup_row_inv by fastforce
qed

lemma LUP64_imm_ok:
  assumes "length a = 64"
  shows "\<exists>l u p r \<pi> P. LUP64_imm a = Some (l, u, p, r) \<and> unit_lower l \<and> u = matmul l a \<and> card (left_kernel a) = 2 ^ (64 - r)
    \<and> bij_betw \<pi> {..<64} {..<64} \<and> p = map (\<lambda>j. 2 ^ \<pi> j) [0..<64] \<and> P \<subseteq> {..<64} \<and> r = card P
    \<and> (\<forall>j < 64. if j \<in> P then bit (u ! j) (\<pi> j) \<and> (\<forall>k < 64. j < k \<longrightarrow> \<not> bit (u ! k) (\<pi> j)) else u ! j = 0)"
proof -
  obtain u l p todo r store where st: "fold lup_row [0..<64] (a, id64, id64, NOT 0, 0, []) = (u, l, p, todo, r, store)"
    by (cases "fold lup_row [0..<64] (a, id64, id64, NOT 0, 0, [])") auto
  obtain P C where "lup_inv a P C 64 (u, l, p, todo, r, store)" using lup_rows_inv [OF assms, of 64] by (auto simp only: st)
  then have inv: "elim_inv a {} P C u l todo 64" and rest: "r = card P" "length p = 64" "\<forall>j \<in> P. p ! j = 2 ^ C j" "distinct store" "set store = {..<64} - P"
    by (simp_all add: lup_inv_def)
  note d = elim_invD [OF inv] and done' = elim_inv_done [OF inv]
  have P: "P \<subseteq> {..<64}" using d(4) by auto
  then have fP: "finite P" using finite_subset by blast
  have todo: "word_bits todo = {..<64} - C ` P" using d(7) by (auto simp: word_bits_def)
  have "card (word_bits todo) = 64 - card P"
    using todo d(5,6) fP by (simp add: card_Diff_subset card_image)
  also have "\<dots> = card (set store)" using rest(5) P fP by (simp add: card_Diff_subset)
  finally have "card (word_bits todo) = length store" using rest(4) by (simp add: distinct_card)
  from lup_rest_ok [OF rest(4) this, of p] obtain f q
    where q: "lup_rest todo store p = Some q" "bij_betw f ({..<64} - P) ({..<64} - C ` P)" "length q = 64"
    "\<forall>j < 64. q ! j = (if j \<in> {..<64} - P then 2 ^ f j else p ! j)"
    by (auto simp: rest(2,5) todo)
  define \<pi> where "\<pi> j = (if j \<in> P then C j else f j)" for j
  have "bij_betw \<pi> (P \<union> ({..<64} - P)) (C ` P \<union> ({..<64} - C ` P))"
    by (rule bij_betw_combine) (use d(5) q(2) in \<open>auto simp: \<pi>_def bij_betw_def inj_on_def\<close>)
  moreover have "P \<union> ({..<64} - P) = {..<64}" "C ` P \<union> ({..<64} - C ` P) = {..<64}" using P d(6) by auto
  ultimately have bij: "bij_betw \<pi> {..<64} {..<64}" by simp
  have pq: "q = map (\<lambda>j. 2 ^ \<pi> j) [0..<64]" by (rule nth_equalityI) (use q(3,4) rest(3) in \<open>auto simp: \<pi>_def\<close>)
  have rows: "\<forall>j < 64. if j \<in> P then bit (u ! j) (\<pi> j) \<and> (\<forall>k < 64. j < k \<longrightarrow> \<not> bit (u ! k) (\<pi> j)) else u ! j = 0"
    using d(8,9,10) by (simp add: \<pi>_def)
  have "LUP64_imm a = Some (l, u, q, r)" using q(1) by (simp only: LUP64_imm_def mat64_set_identity_eq length_replicate st Let_def split_conv) simp
  then show ?thesis using d(2,3) done'(3) bij pq P rest(1) rows by blast
qed

section \<open>Permutations\<close>

record pmat =
  pmat_n :: nat
  pmat_v :: "int list"

definition pmat_init :: "nat \<Rightarrow> pmat" where
  "pmat_init n = \<lparr>pmat_n = n, pmat_v = map int [0..<n]\<rparr>"

text \<open>Folding a step that may fail (an assertion, or an access out of bounds) over a list.\<close>

fun fold_opt :: "('a \<Rightarrow> 's \<Rightarrow> 's option) \<Rightarrow> 'a list \<Rightarrow> 's \<Rightarrow> 's option" where
  "fold_opt f [] s = Some s"
| "fold_opt f (x # xs) s = do { s \<leftarrow> f x s; fold_opt f xs s }"

lemma fold_opt_append: "fold_opt f (xs @ ys) s = do { s \<leftarrow> fold_opt f xs s; fold_opt f ys s }"
  by (induction xs arbitrary: s) (auto simp: Option.bind_assoc split: bind_splits)

text \<open>\<open>same\<close>: the two arguments are the same pointer.\<close>

definition pmat_transpose :: "bool \<Rightarrow> pmat \<Rightarrow> pmat \<Rightarrow> pmat option" where
  "pmat_transpose same x y =
     (let y = (if same then pmat_init (pmat_n y) else y) in
      if pmat_n x \<noteq> pmat_n y then None
      else do { v \<leftarrow> fold_opt (\<lambda>i v. if pmat_v y ! i \<ge> 0
                                   then if pmat_v y ! i < int (length v) then Some (v[nat (pmat_v y ! i) := int i]) else None
                                   else Some v) [0..<pmat_n x] (replicate (pmat_n x) (- 1));
                Some (x\<lparr>pmat_v := v\<rparr>) })"

text \<open>The matrix, in blocks of 64 rows and columns, stored by rows of blocks.\<close>

definition pmat_get_matrix :: "pmat \<Rightarrow> mat64 list option" where
  "pmat_get_matrix qp =
     (let n = pmat_n qp; nb = n div 64 in
      if n mod 64 \<noteq> 0 then None
      else do { qm \<leftarrow> fold_opt (\<lambda>k qm. let v = pmat_v qp ! k; i = k div 64 * (nb * 64) + k mod 64 + 64 * (nat v div 64) in
                                    if v < 0 \<or> i \<ge> length qm then None
                                    else Some (qm[i := push_bit (nat v mod 64) 1])) [0..<n] (replicate (n * nb) 0);
                Some (map (\<lambda>b. take 64 (drop (64 * b) qm)) [0..<nb * nb]) })"

lemma card_word_bits_low:
  assumes "w \<noteq> 0"
  shows "card (word_bits (w XOR low_bit w)) < card (word_bits w)"
  using card_Diff1_less [OF finite_word_bits word_bits_low(1) [OF assms]] by (simp only: word_bits_low(2) [OF assms])

text \<open>The indices of the bits of \<open>w\<close> go to \<open>phi\<close>, from \<open>i\<close> on.\<close>

function pmattab_word :: "nat \<Rightarrow> ul \<Rightarrow> int list \<times> nat \<Rightarrow> (int list \<times> nat) option" where
  "pmattab_word off w s =
     (if w = 0 then Some s
      else if snd s < length (fst s)
           then let z = low_bit w; j = bsfq w in pmattab_word off (w XOR z) ((fst s)[snd s := int (off + j)], snd s + 1)
           else None)"
  by auto

termination
  by (relation "measure (\<lambda>(off, w, s). card (word_bits w))") (simp_all add: card_word_bits_low)

declare pmattab_word.simps [simp del]

definition pmattab_complete :: "int list \<times> nat \<Rightarrow> ul list \<Rightarrow> nat \<Rightarrow> int list option" where
  "pmattab_complete phi bits nbits =
     (if nbits mod 64 \<noteq> 0 then None
      else map_option fst (fold_opt (\<lambda>b. pmattab_word (64 * b) (bits ! b)) [0..<nbits div 64] phi))"

definition toggle_bit :: "ul list \<Rightarrow> nat \<Rightarrow> ul list" where
  "toggle_bit ws k = ws[k div 64 := ws ! (k div 64) XOR push_bit (k mod 64) 1]"

definition pq_step :: "int list \<Rightarrow> nat \<Rightarrow> nat \<Rightarrow> int list \<times> int list \<times> nat \<times> nat \<times> ul list \<times> ul list
    \<Rightarrow> (int list \<times> int list \<times> nat \<times> nat \<times> ul list \<times> ul list) option" where
  "pq_step phi n k = (\<lambda>(p, q, ip, jq, ms, ns).
     let v = phi ! k in
     if v < 0 then Some (p, q, ip, jq, ms, ns)
     else if ip < length p \<and> jq < length q \<and> v < int n
          then Some (p[ip := int k], q[jq := v], ip + 1, jq + 1, toggle_bit ms k, toggle_bit ns (nat v))
          else None)"

definition pqperms_from_phi :: "pmat \<Rightarrow> pmat \<Rightarrow> int list \<Rightarrow> nat \<Rightarrow> nat \<Rightarrow> (pmat \<times> pmat) option" where
  "pqperms_from_phi p q phi m n =
     (if m mod 64 \<noteq> 0 \<or> pmat_n p \<noteq> m \<or> n mod 64 \<noteq> 0 \<or> pmat_n q \<noteq> n then None
      else do { (pv, qv, ip, jq, ms, ns) \<leftarrow> fold_opt (pq_step phi n) [0..<m]
                  (pmat_v p, pmat_v q, 0, 0, replicate (m div 64) (NOT 0), replicate (n div 64) (NOT 0));
                pv \<leftarrow> pmattab_complete (pv, ip) ms m;
                qv \<leftarrow> pmattab_complete (qv, jq) ns n;
                Some (p\<lparr>pmat_v := pv\<rparr>, q\<lparr>pmat_v := qv\<rparr>) })"

definition PLUQ64 :: "pmat \<Rightarrow> pmat \<Rightarrow> mat64 \<Rightarrow> (pmat \<times> mat64 \<times> mat64 \<times> pmat \<times> nat) option" where
  "PLUQ64 p q m =
     (let (phi, l, u, r) = PLUQ64_inner (Some (replicate 64 (- 1))) m 0
      in do { (p, q) \<leftarrow> pqperms_from_phi p q phi 64 64; Some (p, l, u, q, r) })"

text \<open>A block of a product: the first \<open>h i\<close> blocks of row \<open>i\<close> are used.\<close>

definition block_product :: "nat \<Rightarrow> (nat \<Rightarrow> nat) \<Rightarrow> mat64 list \<Rightarrow> mat64 list \<Rightarrow> mat64 list" where
  "block_product nb h a b =
     map (\<lambda>c. let i = c div nb; j = c mod nb in
              fold (\<lambda>k r. add_6464_6464 r r (mul_6464_6464 (a ! (i * nb + k)) (b ! (k * nb + j)))) [0..<h i] (replicate 64 0)) [0..<nb * nb]"

definition check_pluq :: "pmat \<Rightarrow> mat64 list \<Rightarrow> mat64 list \<Rightarrow> pmat \<Rightarrow> mat64 list \<Rightarrow> nat \<Rightarrow> unit option" where
  "check_pluq p l u q m n =
     (let nb = n div 64 in
      if pmat_n p \<noteq> n then None
      else do { pm \<leftarrow> pmat_get_matrix p;
                qt \<leftarrow> pmat_transpose False (pmat_init n) q;
                qmt \<leftarrow> pmat_get_matrix qt;
                let pu = block_product nb (\<lambda>_. nb) pm u;
                let puq = block_product nb (\<lambda>_. nb) pu qmt;
                let lm = block_product nb Suc l m;
                if list_all (\<lambda>i. mat64_is_lowertriangular (l ! (i * nb + i)) \<and> mat64_triangular_is_unit (l ! (i * nb + i))
                      \<and> list_all (\<lambda>j. mat64_eq (lm ! (i * nb + j)) (u ! (i * nb + j))) [0..<nb]) [0..<nb]
                   \<and> list_all (\<lambda>i. mat64_is_uppertriangular (puq ! (i * nb + i))) [0..<nb]
                then Some () else None })"

section \<open>The permutations of a decomposition\<close>

definition nth_bit :: "ul list \<Rightarrow> nat \<Rightarrow> bool" where
  "nth_bit ws j = bit (ws ! (j div 64)) (j mod 64)"

lemma nth_bit_toggle:
  assumes "k div 64 < length ws"
  shows "nth_bit (toggle_bit ws k) j = (if j = k then \<not> nth_bit ws k else nth_bit ws j)"
proof (cases "j div 64 = k div 64")
  case True
  have "j = k \<longleftrightarrow> j mod 64 = k mod 64" using True by (metis mod_div_mult_eq)
  then show ?thesis using assms True by (simp add: nth_bit_def toggle_bit_def bit_xor_iff push_bit_eq_mult bit_exp_iff possible_bit_def)
next
  case False
  then show ?thesis by (auto simp: nth_bit_def toggle_bit_def)
qed

lemma length_toggle_bit [simp]: "length (toggle_bit ws k) = length ws"
  by (simp add: toggle_bit_def)

lemma filter_upt_first:
  assumes "c < n" "P c" "\<And>i. i < c \<Longrightarrow> \<not> P i"
  shows "filter P [0..<n] = c # filter (\<lambda>i. P i \<and> i \<noteq> c) [0..<n]"
proof -
  have "[0..<n] = [0..<c] @ c # [Suc c..<n]" using assms(1) upt_add_eq_append [of 0 c "n - c"] upt_conv_Cons [of c n] by simp
  moreover have "filter (\<lambda>i. P i \<and> i \<noteq> c) [Suc c..<n] = filter P [Suc c..<n]" by (rule filter_cong) auto
  moreover have "filter P [0..<c] = []" "filter (\<lambda>i. P i \<and> i \<noteq> c) [0..<c] = []" using assms(3) by (simp_all add: filter_empty_conv)
  ultimately show ?thesis using assms(2) by simp
qed

lemma pmattab_word_ok:
  assumes "card (word_bits w) = k" "k \<le> length ys"
  shows "pmattab_word off w (xs @ ys, length xs)
    = Some (xs @ map (\<lambda>j. int (off + j)) (filter (bit w) [0..<64]) @ drop k ys, length xs + k)"
  using assms
proof (induction k arbitrary: w xs ys)
  case 0
  then have w: "w = 0" using finite_word_bits word_bits_empty by (metis card_0_eq)
  show ?case by (subst pmattab_word.simps) (simp add: w)
next
  case (Suc k)
  then have w: "w \<noteq> 0" using word_bits_empty by (metis card.empty nat.distinct(1))
  obtain y ys' where ys: "ys = y # ys'" using Suc.prems(2) by (cases ys) auto
  note low = word_bits_low [OF w]
  define w' where "w' = w XOR low_bit w"
  have "card (word_bits w') = k" using Suc.prems(1) low finite_word_bits [of w] by (simp add: w'_def)
  moreover have "k \<le> length ys'" using Suc.prems(2) by (simp add: ys)
  ultimately have IH: "pmattab_word off w' ((xs @ [int (off + bsfq w)]) @ ys', length (xs @ [int (off + bsfq w)]))
    = Some ((xs @ [int (off + bsfq w)]) @ map (\<lambda>j. int (off + j)) (filter (bit w') [0..<64]) @ drop k ys', length (xs @ [int (off + bsfq w)]) + k)"
    by (rule Suc.IH)
  have "filter (bit w) [0..<64] = bsfq w # filter (\<lambda>i. bit w i \<and> i \<noteq> bsfq w) [0..<64]"
    by (rule filter_upt_first) (use bsfq_props [OF w] in auto)
  moreover have "filter (\<lambda>i. bit w i \<and> i \<noteq> bsfq w) [0..<64] = filter (bit w') [0..<64]"
    by (rule filter_cong) (use low(2) in \<open>auto simp: word_bits_def w'_def set_eq_iff\<close>)
  moreover have "pmattab_word off w (xs @ ys, length xs) = pmattab_word off w' ((xs @ [int (off + bsfq w)]) @ ys', length (xs @ [int (off + bsfq w)]))"
    by (subst pmattab_word.simps) (simp add: w ys Let_def w'_def)
  ultimately show ?case using IH by (simp add: ys)
qed

lemma card_word_bits: "card (word_bits w) = length (filter (bit w) [0..<64])"
proof -
  have "word_bits w = set (filter (bit w) [0..<64])" by (auto simp: word_bits_def)
  then show ?thesis by (metis distinct_card distinct_filter distinct_upt)
qed

lemma filter_nth_bit_block:
  "filter (nth_bit ws) [0..<64 * Suc b] = filter (nth_bit ws) [0..<64 * b] @ map (\<lambda>j. 64 * b + j) (filter (bit (ws ! b)) [0..<64])"
proof -
  have "[0..<64 * Suc b] = [0..<64 * b] @ map (\<lambda>j. 64 * b + j) [0..<64]"
    using upt_add_eq_append [of 0 "64 * b" 64] map_add_upt [of "64 * b" 64] by (simp add: ac_simps)
  moreover have "filter (nth_bit ws) (map (\<lambda>j. 64 * b + j) [0..<64]) = map (\<lambda>j. 64 * b + j) (filter (bit (ws ! b)) [0..<64])"
    unfolding filter_map by (rule arg_cong [where f = "map _"], rule filter_cong) (auto simp: nth_bit_def)
  ultimately show ?thesis by (simp only: filter_append)
qed

lemma pmattab_complete_ok:
  assumes "length bits = nb" "length (filter (nth_bit bits) [0..<64 * nb]) \<le> length ys"
  shows "pmattab_complete (xs @ ys, length xs) bits (64 * nb)
    = Some (xs @ map int (filter (nth_bit bits) [0..<64 * nb]) @ drop (length (filter (nth_bit bits) [0..<64 * nb])) ys)"
proof -
  define F where "F b = filter (nth_bit bits) [0..<64 * b]" for b
  have F: "F (Suc b) = F b @ map (\<lambda>j. 64 * b + j) (filter (bit (bits ! b)) [0..<64])" for b
    unfolding F_def by (rule filter_nth_bit_block)
  have "fold_opt (\<lambda>b. pmattab_word (64 * b) (bits ! b)) [0..<b] (xs @ ys, length xs)
      = Some ((xs @ map int (F b)) @ drop (length (F b)) ys, length (xs @ map int (F b)))" if "length (F b) \<le> length ys" for b
    using that
  proof (induction b)
    case 0
    then show ?case by (simp add: F_def)
  next
    case (Suc b)
    have le: "length (F b) \<le> length ys" using Suc.prems by (simp add: F)
    have "pmattab_word (64 * b) (bits ! b) ((xs @ map int (F b)) @ drop (length (F b)) ys, length (xs @ map int (F b)))
      = Some ((xs @ map int (F b)) @ map (\<lambda>j. int (64 * b + j)) (filter (bit (bits ! b)) [0..<64])
            @ drop (card (word_bits (bits ! b))) (drop (length (F b)) ys), length (xs @ map int (F b)) + card (word_bits (bits ! b)))"
      by (rule pmattab_word_ok) (use Suc.prems in \<open>simp_all add: F card_word_bits\<close>)
    then show ?case using Suc.IH [OF le] by (simp add: fold_opt_append F card_word_bits ac_simps)
  qed
  from this [of nb] show ?thesis using assms by (simp add: pmattab_complete_def F_def)
qed

definition pivot_rows :: "int list \<Rightarrow> nat \<Rightarrow> nat list" where
  "pivot_rows phi m = filter (\<lambda>k. phi ! k \<ge> 0) [0..<m]"

definition phi_ok :: "int list \<Rightarrow> nat \<Rightarrow> nat \<Rightarrow> bool" where
  "phi_ok phi m n \<longleftrightarrow> inj_on (\<lambda>k. phi ! k) (set (pivot_rows phi m)) \<and> (\<forall>k < m. phi ! k < int n)"

lemma pivot_rows_Suc: "pivot_rows phi (Suc m) = pivot_rows phi m @ (if phi ! m \<ge> 0 then [m] else [])"
  by (simp add: pivot_rows_def)

lemma length_pivot_rows:
  assumes "phi_ok phi m n"
  shows "length (pivot_rows phi m) \<le> n" "length (pivot_rows phi m) \<le> m"
    "length (pivot_rows phi m) = card ((\<lambda>k. nat (phi ! k)) ` set (pivot_rows phi m))"
proof -
  have inj: "inj_on (\<lambda>k. nat (phi ! k)) (set (pivot_rows phi m))"
    using assms by (auto simp: phi_ok_def pivot_rows_def inj_on_def)
  have d: "distinct (pivot_rows phi m)" by (simp add: pivot_rows_def)
  show e: "length (pivot_rows phi m) = card ((\<lambda>k. nat (phi ! k)) ` set (pivot_rows phi m))"
    using card_image [OF inj] distinct_card [OF d] by simp
  have "(\<lambda>k. nat (phi ! k)) ` set (pivot_rows phi m) \<subseteq> {..<n}" using assms by (auto simp: phi_ok_def pivot_rows_def)
  then have "card ((\<lambda>k. nat (phi ! k)) ` set (pivot_rows phi m)) \<le> n" using card_mono [of "{..<n}"] by simp
  then show "length (pivot_rows phi m) \<le> n" using e by simp
  show "length (pivot_rows phi m) \<le> m" unfolding pivot_rows_def using length_filter_le [of _ "[0..<m]"] by (metis diff_zero length_upt)
qed

lemma list_update_append_drop: "length xs < length ys \<Longrightarrow> (xs @ drop (length xs) ys)[length xs := y] = (xs @ [y]) @ drop (Suc (length xs)) ys"
  by (metis Cons_nth_drop_Suc append_Cons append_Nil append_assoc list_update_length)

lemma pq_steps:
  assumes ok: "phi_ok phi m n" and l: "length pv = m" "length qv = n" "k \<le> m" "m \<le> 64 * length ms0" "n \<le> 64 * length ns0"
    and ones: "\<And>j. j < m \<Longrightarrow> nth_bit ms0 j" "\<And>j. j < n \<Longrightarrow> nth_bit ns0 j"
  shows "\<exists>ms ns. fold_opt (pq_step phi n) [0..<k] (pv, qv, 0, 0, ms0, ns0)
      = Some (map int (pivot_rows phi k) @ drop (length (pivot_rows phi k)) pv, map ((!) phi) (pivot_rows phi k) @ drop (length (pivot_rows phi k)) qv,
          length (pivot_rows phi k), length (pivot_rows phi k), ms, ns)
    \<and> length ms = length ms0 \<and> length ns = length ns0 \<and> (\<forall>j < m. nth_bit ms j = (j \<notin> set (pivot_rows phi k)))
    \<and> (\<forall>j < n. nth_bit ns j = (int j \<notin> (!) phi ` set (pivot_rows phi k)))"
  using l(3)
proof (induction k)
  case 0
  then show ?case using ones by (auto simp: pivot_rows_def)
next
  case (Suc k)
  let ?R = "pivot_rows phi k"
  obtain ms ns where IH: "fold_opt (pq_step phi n) [0..<k] (pv, qv, 0, 0, ms0, ns0)
      = Some (map int ?R @ drop (length ?R) pv, map ((!) phi) ?R @ drop (length ?R) qv, length ?R, length ?R, ms, ns)"
    "length ms = length ms0" "length ns = length ns0" "\<forall>j < m. nth_bit ms j = (j \<notin> set ?R)" "\<forall>j < n. nth_bit ns j = (int j \<notin> (!) phi ` set ?R)"
    using Suc by (metis Suc_leD)
  show ?case
  proof (cases "phi ! k < 0")
    case True
    then have "pq_step phi n k s = Some s" for s by (cases s) (simp add: pq_step_def Let_def)
    then show ?thesis using IH True by (simp add: fold_opt_append pivot_rows_Suc)
  next
    case False
    have okS: "phi_ok phi (Suc k) n" using ok Suc.prems by (auto simp: phi_ok_def pivot_rows_def inj_on_def)
    have len: "length ?R < n" "length ?R < m"
      using length_pivot_rows(1,2) [OF okS] False Suc.prems by (simp_all add: pivot_rows_Suc)
    have v: "nat (phi ! k) < n" using okS False by (auto simp: phi_ok_def)
    then have step: "pq_step phi n k (map int ?R @ drop (length ?R) pv, map ((!) phi) ?R @ drop (length ?R) qv, length ?R, length ?R, ms, ns)
      = Some (map int (?R @ [k]) @ drop (Suc (length ?R)) pv, map ((!) phi) (?R @ [k]) @ drop (Suc (length ?R)) qv,
          length ?R + 1, length ?R + 1, toggle_bit ms k, toggle_bit ns (nat (phi ! k)))"
      using False len l(1,2) list_update_append_drop [of "map int ?R" pv] list_update_append_drop [of "map ((!) phi) ?R" qv]
      by (auto simp: pq_step_def Let_def)
    have k: "k div 64 < length ms" using Suc.prems l(4) IH(2) by (simp add: less_mult_imp_div_less mult.commute)
    have n: "nat (phi ! k) div 64 < length ns" using v l(5) IH(3) by (simp add: less_mult_imp_div_less mult.commute)
    have kR: "k \<notin> set ?R" by (simp add: pivot_rows_def)
    have "phi ! k \<notin> (!) phi ` set ?R" using okS False kR by (auto simp: phi_ok_def pivot_rows_Suc)
    then have "\<forall>j < n. nth_bit (toggle_bit ns (nat (phi ! k))) j = (int j \<notin> (!) phi ` set (?R @ [k]))"
      using IH(5) v False unfolding nth_bit_toggle [OF n] by auto
    moreover have "\<forall>j < m. nth_bit (toggle_bit ms k) j = (j \<notin> set (?R @ [k]))"
      using IH(4) kR Suc.prems unfolding nth_bit_toggle [OF k] by auto
    ultimately show ?thesis using IH(1-3) step False by (simp add: fold_opt_append pivot_rows_Suc del: set_append)
  qed
qed

text \<open>The permutations list the pivots first, by rows.\<close>

definition p_order :: "int list \<Rightarrow> nat \<Rightarrow> nat list" where
  "p_order phi m = pivot_rows phi m @ filter (\<lambda>k. phi ! k < 0) [0..<m]"

definition q_order :: "int list \<Rightarrow> nat \<Rightarrow> nat \<Rightarrow> nat list" where
  "q_order phi m n = map (\<lambda>k. nat (phi ! k)) (pivot_rows phi m) @ filter (\<lambda>j. int j \<notin> (!) phi ` set (pivot_rows phi m)) [0..<n]"

lemma length_filter_not: "length (filter P xs) + length (filter (\<lambda>x. \<not> P x) xs) = length xs"
  by (induction xs) auto

lemma nat_phi_iff:
  assumes "phi_ok phi m n"
  shows "j \<in> (\<lambda>k. nat (phi ! k)) ` set (pivot_rows phi m) \<longleftrightarrow> int j \<in> (!) phi ` set (pivot_rows phi m)"
proof
  assume "int j \<in> (!) phi ` set (pivot_rows phi m)"
  then show "j \<in> (\<lambda>k. nat (phi ! k)) ` set (pivot_rows phi m)" by (metis (mono_tags, lifting) image_iff nat_int)
next
  assume "j \<in> (\<lambda>k. nat (phi ! k)) ` set (pivot_rows phi m)"
  then obtain k where "k \<in> set (pivot_rows phi m)" "j = nat (phi ! k)" by blast
  then show "int j \<in> (!) phi ` set (pivot_rows phi m)" by (auto simp: pivot_rows_def)
qed

lemma p_order_props: "length (p_order phi m) = m" "distinct (p_order phi m)" "set (p_order phi m) = {..<m}"
  using length_filter_not [of "\<lambda>k. phi ! k \<ge> 0" "[0..<m]"] by (auto simp: p_order_def pivot_rows_def not_le)

lemma q_order_props:
  assumes "phi_ok phi m n"
  shows "length (q_order phi m n) = n" "distinct (q_order phi m n)" "set (q_order phi m n) = {..<n}"
proof -
  have lt: "nat (phi ! k) < n" if "k \<in> set (pivot_rows phi m)" for k using that assms by (auto simp: phi_ok_def pivot_rows_def)
  show s: "set (q_order phi m n) = {..<n}"
    using lt nat_phi_iff [OF assms] by (auto simp: q_order_def)
  show d: "distinct (q_order phi m n)"
    using assms by (auto simp: q_order_def phi_ok_def pivot_rows_def distinct_map inj_on_def)
  show "length (q_order phi m n) = n" using distinct_card [OF d] by (simp add: s)
qed

lemma pqperms_ok:
  assumes ok: "phi_ok phi m n" and m: "m = 64 * mb" and n: "n = 64 * nb" and p: "pmat_n p = m" "length (pmat_v p) = m"
    and q: "pmat_n q = n" "length (pmat_v q) = n"
  shows "pqperms_from_phi p q phi m n = Some (p\<lparr>pmat_v := map int (p_order phi m)\<rparr>, q\<lparr>pmat_v := map int (q_order phi m n)\<rparr>)"
proof -
  let ?R = "pivot_rows phi m" and ?ones = "\<lambda>b. replicate b (NOT 0 :: ul)"
  have ones: "nth_bit (?ones b) j" if "j < 64 * b" for b j
    using that by (simp add: nth_bit_def less_mult_imp_div_less mult.commute)
  obtain ms ns where st: "fold_opt (pq_step phi n) [0..<m] (pmat_v p, pmat_v q, 0, 0, ?ones mb, ?ones nb)
      = Some (map int ?R @ drop (length ?R) (pmat_v p), map ((!) phi) ?R @ drop (length ?R) (pmat_v q), length ?R, length ?R, ms, ns)"
    "length ms = mb" "length ns = nb" "\<forall>j < m. nth_bit ms j = (j \<notin> set ?R)" "\<forall>j < n. nth_bit ns j = (int j \<notin> (!) phi ` set ?R)"
    using pq_steps [OF ok p(2) q(2) order_refl, of "?ones mb" "?ones nb"] ones m n by auto
  have fm: "filter (nth_bit ms) [0..<64 * mb] = filter (\<lambda>k. phi ! k < 0) [0..<m]"
    unfolding m [symmetric] by (rule filter_cong) (use st(4) in \<open>auto simp: pivot_rows_def\<close>)
  have fn: "filter (nth_bit ns) [0..<64 * nb] = filter (\<lambda>j. int j \<notin> (!) phi ` set ?R) [0..<n]"
    unfolding n [symmetric] by (rule filter_cong) (use st(5) in auto)
  have lm: "length ?R + length (filter (\<lambda>k. phi ! k < 0) [0..<m]) = m" using p_order_props(1) [of phi m] by (simp add: p_order_def)
  have ln: "length ?R + length (filter (\<lambda>j. int j \<notin> (!) phi ` set ?R) [0..<n]) = n" using q_order_props(1) [OF ok] by (simp add: q_order_def)
  have "pmattab_complete (map int ?R @ drop (length ?R) (pmat_v p), length (map int ?R)) ms (64 * mb)
    = Some (map int (p_order phi m))"
    by (subst pmattab_complete_ok) (use st(2) p(2) lm in \<open>simp_all add: fm p_order_def\<close>)
  moreover have "pmattab_complete (map ((!) phi) ?R @ drop (length ?R) (pmat_v q), length (map ((!) phi) ?R)) ns (64 * nb)
    = Some (map int (q_order phi m n))"
    by (subst pmattab_complete_ok) (use st(3) q(2) ln in \<open>simp_all add: fn q_order_def pivot_rows_def\<close>)
  ultimately show ?thesis using st(1) m n p(1) q(1) by (simp add: pqperms_from_phi_def)
qed

section \<open>PLUQ\<close>

definition pluq_inv :: "mat64 \<Rightarrow> int list \<Rightarrow> int \<Rightarrow> nat set \<Rightarrow> (nat \<Rightarrow> nat) \<Rightarrow> nat \<Rightarrow> int list \<times> mat64 \<times> mat64 \<times> ul \<times> nat \<Rightarrow> bool" where
  "pluq_inv a phi0 off P C i = (\<lambda>(phi, u, l, todo, rank). elim_inv a {k. phi0 ! k \<ge> 0} P C u l todo i \<and> rank = card P \<and> length phi = 64
     \<and> (\<forall>j < 64. phi ! j = (if j \<in> P then off + int (C j) else phi0 ! j)))"

lemma PLUQ64_row_inv:
  assumes "pluq_inv a phi0 off P C i st" "i < 64"
  shows "\<exists>P C. pluq_inv a phi0 off P C (Suc i) (PLUQ64_row off i st)"
proof -
  obtain phi u l todo rank where st: "st = (phi, u, l, todo, rank)" by (cases st)
  let ?S = "{k. phi0 ! k \<ge> 0}"
  have inv: "elim_inv a ?S P C u l todo i" and rest: "rank = card P" "length phi = 64" "\<forall>j < 64. phi ! j = (if j \<in> P then off + int (C j) else phi0 ! j)"
    using assms(1) by (simp_all add: pluq_inv_def st)
  have P: "P \<subseteq> {..<i}" using elim_invD(4) [OF inv] by blast
  then have fP: "finite P" "i \<notin> P" using finite_subset [of P "{..<i}"] by auto
  show ?thesis
  proof (cases "phi ! i \<ge> 0 \<or> u ! i AND todo = 0")
    case True
    then have "i \<in> ?S \<or> u ! i = 0" using rest(3) fP(2) assms(2) elim_inv_zero [OF inv assms(2)] by auto
    then have "elim_inv a ?S P C u l todo (Suc i)" using elim_inv_skip [OF inv assms(2)] by blast
    moreover have "PLUQ64_row off i st = st" using True by (auto simp: st PLUQ64_row_def Let_def)
    ultimately show ?thesis using rest by (auto simp: pluq_inv_def st)
  next
    case False
    then have nz: "u ! i \<noteq> 0" and iS: "i \<notin> ?S" using rest(3) fP(2) assms(2) by auto
    obtain u' l' where e: "elim_rows i (low_bit (u ! i)) (u ! i) (l ! i) (u, l) = (u', l')" by force
    note piv = elim_inv_pivot [OF inv assms(2) iS nz e]
    have "PLUQ64_row off i st = (phi[i := off + int (bsfq (u ! i))], u', l', todo XOR low_bit (u ! i), rank + 1)"
      using False e by (simp add: st PLUQ64_row_def Let_def)
    moreover have "\<forall>j < 64. phi[i := off + int (bsfq (u ! i))] ! j = (if j \<in> insert i P then off + int ((C(i := bsfq (u ! i))) j) else phi0 ! j)"
      using rest(2,3) assms(2) by (simp add: nth_list_update)
    moreover have "rank + 1 = card (insert i P)" using rest(1) fP by simp
    ultimately have "pluq_inv a phi0 off (insert i P) (C(i := bsfq (u ! i))) (Suc i) (PLUQ64_row off i st)"
      unfolding pluq_inv_def using piv(1) rest(2) by (simp only: split_conv length_list_update simp_thms)
    then show ?thesis by blast
  qed
qed

text \<open>The rows that have a pivot when an elimination starts are never added to others.\<close>

definition spares :: "(nat \<Rightarrow> bool) \<Rightarrow> mat64 \<Rightarrow> bool" where
  "spares S l \<longleftrightarrow> (\<forall>k < 64. \<forall>b < 64. bit (l ! k) b \<longrightarrow> b = k \<or> \<not> S b)"

lemma PLUQ64_row_spares:
  assumes "pluq_inv a phi0 off P C i (phi, u, l, todo, rank)" "i < 64" "spares (\<lambda>k. phi0 ! k \<ge> 0) l"
    and "PLUQ64_row off i (phi, u, l, todo, rank) = (phi', u', l', todo', rank')"
  shows "spares (\<lambda>k. phi0 ! k \<ge> 0) l'"
proof (cases "phi ! i \<ge> 0 \<or> u ! i AND todo = 0")
  case True
  then have "PLUQ64_row off i (phi, u, l, todo, rank) = (phi, u, l, todo, rank)" by (auto simp: PLUQ64_row_def Let_def)
  then show ?thesis using assms(3,4) by simp
next
  case False
  have inv: "elim_inv a {k. phi0 ! k \<ge> 0} P C u l todo i" and phi: "phi ! i = (if i \<in> P then off + int (C i) else phi0 ! i)"
    using assms(1,2) by (simp_all add: pluq_inv_def)
  note d = elim_invD [OF inv]
  have "i \<notin> P" using d(4) by auto
  then have iS: "\<not> phi0 ! i \<ge> 0" using False phi by simp
  have nz: "u ! i \<noteq> 0" using False by auto
  have c: "bsfq (u ! i) < 64" "low_bit (u ! i) = 2 ^ bsfq (u ! i)" using bsfq_props(1) [OF nz] low_bit_eq [OF nz] by simp_all
  have "l' = map (\<lambda>k. if i < k \<and> bit (u ! k) (bsfq (u ! i)) then l ! k XOR l ! i else l ! k) [0..<64]"
    using False assms(4) elim_rows_eq [OF d(11,12) c(1), of i "u ! i" "l ! i"] by (auto simp: PLUQ64_row_def Let_def c(2))
  then show ?thesis using assms(2,3) iS by (auto simp: spares_def bit_xor_iff)
qed

lemma PLUQ64_inner_spares:
  assumes "length a = 64" "length phi0 = 64"
  shows "\<exists>phi l u rank todo P C. PLUQ64_inner (Some phi0) a off = (phi, l, u, rank) \<and> pluq_inv a phi0 off P C 64 (phi, u, l, todo, rank)
     \<and> spares (\<lambda>k. phi0 ! k \<ge> 0) l"
proof -
  let ?s = "\<lambda>n. fold (PLUQ64_row off) [0..<n] (phi0, a, id64, NOT 0, 0)"
  have "\<exists>P C. pluq_inv a phi0 off P C n (?s n) \<and> spares (\<lambda>k. phi0 ! k \<ge> 0) (fst (snd (snd (?s n))))" if "n \<le> 64" for n
    using that
  proof (induction n)
    case 0
    have "spares (\<lambda>k. phi0 ! k \<ge> 0) id64" by (simp add: spares_def bit_exp_iff)
    then show ?case using elim_inv_init [OF assms(1), of "{k. phi0 ! k \<ge> 0}"] assms(2) by (intro exI [of _ "{}"]) (auto simp: pluq_inv_def)
  next
    case (Suc n)
    obtain phi u l todo rank where st: "?s n = (phi, u, l, todo, rank)" by (cases "?s n") auto
    obtain phi' u' l' todo' rank' where st': "PLUQ64_row off n (phi, u, l, todo, rank) = (phi', u', l', todo', rank')"
      by (cases "PLUQ64_row off n (phi, u, l, todo, rank)") auto
    have s: "?s (Suc n) = (phi', u', l', todo', rank')" using st st' by simp
    obtain P C where inv: "pluq_inv a phi0 off P C n (phi, u, l, todo, rank)" "spares (\<lambda>k. phi0 ! k \<ge> 0) l" using Suc st by auto
    have n: "n < 64" using Suc.prems by simp
    show ?case using PLUQ64_row_inv [OF inv(1) n] PLUQ64_row_spares [OF inv(1) n inv(2) st'] unfolding s st' by auto
  qed
  from this [of 64] obtain P C where inv: "pluq_inv a phi0 off P C 64 (?s 64)" "spares (\<lambda>k. phi0 ! k \<ge> 0) (fst (snd (snd (?s 64))))" by auto
  obtain phi u l todo rank where st: "?s 64 = (phi, u, l, todo, rank)" by (cases "?s 64") auto
  have "PLUQ64_inner (Some phi0) a off = (phi, l, u, rank)"
    by (simp only: PLUQ64_inner_def option.case mat64_set_identity_eq length_replicate Let_def st split_conv)
  then show ?thesis using inv unfolding st by auto
qed

lemma PLUQ64_inner_inv:
  assumes "length a = 64" "length phi0 = 64"
  shows "\<exists>phi l u rank todo P C. PLUQ64_inner (Some phi0) a off = (phi, l, u, rank) \<and> pluq_inv a phi0 off P C 64 (phi, u, l, todo, rank)"
  using PLUQ64_inner_spares [OF assms, of off] by blast

lemma PLUQ64_ok:
  assumes "length m = 64" and p: "pmat_n p = 64" "length (pmat_v p) = 64" "pmat_n q = 64" "length (pmat_v q) = 64"
  shows "\<exists>l u r \<sigma> \<tau>. PLUQ64 p q m = Some (p\<lparr>pmat_v := map int \<sigma>\<rparr>, l, u, q\<lparr>pmat_v := map int \<tau>\<rparr>, r) \<and> unit_lower l \<and> u = matmul l m
    \<and> card (left_kernel m) = 2 ^ (64 - r) \<and> length \<sigma> = 64 \<and> distinct \<sigma> \<and> set \<sigma> = {..<64} \<and> length \<tau> = 64 \<and> distinct \<tau> \<and> set \<tau> = {..<64}
    \<and> r \<le> 64 \<and> (\<forall>k < 64. if k < r then bit (u ! (\<sigma> ! k)) (\<tau> ! k) \<and> (\<forall>j < 64. k < j \<longrightarrow> \<not> bit (u ! (\<sigma> ! j)) (\<tau> ! k)) else u ! (\<sigma> ! k) = 0)"
proof -
  obtain phi l u r todo P C where st: "PLUQ64_inner (Some (replicate 64 (- 1))) m 0 = (phi, l, u, r)"
    and inv: "pluq_inv m (replicate 64 (- 1)) 0 P C 64 (phi, u, l, todo, r)"
    using PLUQ64_inner_inv [OF assms(1), of "replicate 64 (- 1)" 0] by auto
  let ?S = "{k. replicate 64 (- 1) ! k \<ge> (0 :: int)}"
  have e: "elim_inv m ?S P C u l todo 64" and rest: "r = card P" "\<forall>j < 64. phi ! j = (if j \<in> P then int (C j) else - 1)"
    using inv by (auto simp: pluq_inv_def)
  note d = elim_invD [OF e]
  have P: "P \<subseteq> {..<64}" using d(4) by blast
  have "elim_inv m {} P C u l todo 64" using e P by (auto simp: elim_inv_def)
  note done' = elim_inv_done [OF this]
  have R: "set (pivot_rows phi 64) = P" using rest(2) P by (auto simp: pivot_rows_def split: if_splits)
  have phiP: "phi ! j = int (C j)" if "j \<in> P" for j using that rest(2) P by auto
  have "phi ! j < 64" if "j < 64" for j using that rest(2) d(6) by (cases "j \<in> P") auto
  moreover have "inj_on (\<lambda>k. phi ! k) P" using d(5) by (simp add: inj_on_def phiP)
  ultimately have ok: "phi_ok phi 64 64" unfolding phi_ok_def R by simp
  have len: "length (pivot_rows phi 64) = r" using distinct_card [of "pivot_rows phi 64"] R rest(1) by (simp add: pivot_rows_def)
  let ?\<sigma> = "p_order phi 64" and ?\<tau> = "q_order phi 64 64"
  note s = p_order_props [of phi 64] and t = q_order_props [OF ok]
  have zero: "u ! (?\<sigma> ! j) = 0" if j: "j < 64" "\<not> j < r" for j
  proof -
    have "?\<sigma> ! j \<notin> P"
    proof
      assume "?\<sigma> ! j \<in> P"
      then obtain k' where "k' < r" "pivot_rows phi 64 ! k' = ?\<sigma> ! j" using R len by (metis in_set_conv_nth)
      then have "?\<sigma> ! k' = ?\<sigma> ! j" using len by (simp add: p_order_def nth_append)
      then show False using nth_eq_iff_index_eq [OF s(2), of k' j] \<open>k' < r\<close> j s(1) by simp
    qed
    moreover have "?\<sigma> ! j < 64" using s j(1) nth_mem [of j ?\<sigma>] by simp
    ultimately show ?thesis using d(10) [of "?\<sigma> ! j"] by simp
  qed
  have eq: "PLUQ64 p q m = Some (p\<lparr>pmat_v := map int ?\<sigma>\<rparr>, l, u, q\<lparr>pmat_v := map int ?\<tau>\<rparr>, r)"
    using pqperms_ok [OF ok, of 1 1 p q] p by (simp add: PLUQ64_def st)
  have rows: "if k < r then bit (u ! (?\<sigma> ! k)) (?\<tau> ! k) \<and> (\<forall>j < 64. k < j \<longrightarrow> \<not> bit (u ! (?\<sigma> ! j)) (?\<tau> ! k)) else u ! (?\<sigma> ! k) = 0"
    if k: "k < 64" for k
  proof (cases "k < r")
    case True
    define i where "i = ?\<sigma> ! k"
    have i: "i = pivot_rows phi 64 ! k" using True len by (simp add: i_def p_order_def nth_append)
    have iP: "i \<in> P" using True len R nth_mem [of k "pivot_rows phi 64"] by (simp add: i)
    then have i64: "i < 64" using P by blast
    have "?\<tau> ! k = nat (phi ! i)" using True len by (simp add: q_order_def nth_append i)
    then have tk: "?\<tau> ! k = C i" using rest(2) i64 iP by simp
    have "\<not> bit (u ! (?\<sigma> ! j)) (C i)" if j: "j < 64" "k < j" for j
    proof (cases "j < r")
      case True
      then have sj: "?\<sigma> ! j = pivot_rows phi 64 ! j" using len by (simp add: p_order_def nth_append)
      have "sorted_wrt (<) (pivot_rows phi 64)" by (simp add: pivot_rows_def sorted_wrt_filter)
      then have "i < ?\<sigma> ! j" using sorted_wrt_nth_less [of "(<)" "pivot_rows phi 64" k j] j(2) True len by (simp add: sj i)
      moreover have "?\<sigma> ! j < 64" using s j(1) nth_mem [of j ?\<sigma>] by simp
      ultimately show ?thesis using d(9) [OF iP] by simp
    next
      case False
      then show ?thesis using zero [OF j(1)] by simp
    qed
    then show ?thesis using True d(8) [OF iP] tk by (simp add: i_def)
  next
    case False
    then show ?thesis using zero [OF k] by simp
  qed
  have r64: "r \<le> 64" using P rest(1) card_mono [of "{..<64}" P] by simp
  show ?thesis
    by (intro exI conjI, rule eq, rule d(2), rule d(3)) (use done'(3) rest(1) s t r64 rows in simp_all)
qed

lemma pmat_get_matrix_64:
  assumes "pmat_n p = 64" "\<And>k. k < 64 \<Longrightarrow> 0 \<le> pmat_v p ! k \<and> pmat_v p ! k < 64"
  shows "pmat_get_matrix p = Some [map (\<lambda>k. 2 ^ nat (pmat_v p ! k)) [0..<64]]"
proof -
  let ?f = "\<lambda>k (qm :: ul list). let v = pmat_v p ! k; i = k div 64 * (1 * 64) + k mod 64 + 64 * (nat v div 64) in
    if v < 0 \<or> i \<ge> length qm then None else Some (qm[i := push_bit (nat v mod 64) 1])"
  have "fold_opt ?f [0..<k] (replicate 64 (0 :: ul)) = Some (map (\<lambda>i. if i < k then 2 ^ nat (pmat_v p ! i) else 0) [0..<64])" if "k \<le> 64" for k
    using that
  proof (induction k)
    case 0
    show ?case by (simp add: map_replicate_const)
  next
    case (Suc k)
    then have "nat (pmat_v p ! k) < 64" "0 \<le> pmat_v p ! k" using assms(2) [of k] by auto
    then have "?f k (map (\<lambda>i. if i < k then 2 ^ nat (pmat_v p ! i) else 0) [0..<64])
      = Some (map (\<lambda>i. if i < Suc k then 2 ^ nat (pmat_v p ! i) else 0) [0..<64])"
      using Suc.prems by (simp add: Let_def map_upt_update push_bit_eq_mult less_Suc_eq cong: map_cong)
    then show ?case using Suc by (simp add: fold_opt_append)
  qed
  from this [of 64] have "fold_opt ?f [0..<64] (replicate 64 0) = Some (map (\<lambda>k. 2 ^ nat (pmat_v p ! k)) [0..<64])" by (simp cong: map_cong)
  then show ?thesis by (simp add: pmat_get_matrix_def assms(1) Let_def)
qed

lemma pmat_transpose_64:
  assumes "pmat_n q = 64" "pmat_v q = map int \<tau>" "length \<tau> = 64" "distinct \<tau>" "set \<tau> = {..<64}"
  shows "\<exists>v. pmat_transpose False (pmat_init 64) q = Some (\<lparr>pmat_n = 64, pmat_v = v\<rparr>) \<and> length v = 64 \<and> (\<forall>i < 64. v ! (\<tau> ! i) = int i)"
proof -
  let ?f = "\<lambda>i v. if pmat_v q ! i \<ge> 0 then if pmat_v q ! i < int (length v) then Some (v[nat (pmat_v q ! i) := int i]) else None else Some v"
  have lt: "\<tau> ! i < 64" if "i < 64" for i using that assms(3,5) nth_mem [of i \<tau>] by simp
  have "\<exists>v. fold_opt ?f [0..<k] (replicate 64 (- 1)) = Some v \<and> length v = 64 \<and> (\<forall>i < k. v ! (\<tau> ! i) = int i)" if "k \<le> 64" for k
    using that
  proof (induction k)
    case (Suc k)
    then obtain v where v: "fold_opt ?f [0..<k] (replicate 64 (- 1)) = Some v" "length v = 64" "\<forall>i < k. v ! (\<tau> ! i) = int i" by auto
    have "fold_opt ?f [0..<Suc k] (replicate 64 (- 1)) = Some (v[\<tau> ! k := int k])"
      using v(1,2) lt [of k] Suc.prems assms(2,3) by (simp add: fold_opt_append)
    moreover have "v[\<tau> ! k := int k] ! (\<tau> ! i) = int i" if "i < Suc k" for i
    proof (cases "i = k")
      case False
      then have "\<tau> ! i \<noteq> \<tau> ! k" using that Suc.prems assms(3,4) by (simp add: nth_eq_iff_index_eq)
      then show ?thesis using False that v(3) by simp
    qed (use v(2) lt [of k] Suc.prems in simp)
    ultimately show ?case using v(2) by auto
  qed simp
  from this [of 64] show ?thesis using assms(1) by (auto simp: pmat_transpose_def pmat_init_def)
qed

lemma bit_vecmat_permutation:
  assumes "\<And>i. i < 64 \<Longrightarrow> v i < 64" "\<And>i. i < 64 \<Longrightarrow> v (\<tau> i) = i" "\<And>i. i < 64 \<Longrightarrow> \<tau> i < 64" "j < 64"
  shows "bit (vecmat x (map (\<lambda>k. 2 ^ v k) [0..<64])) j = bit x (\<tau> j)"
proof -
  have inj: "inj_on \<tau> {..<64}" by (rule inj_on_inverseI [of _ v]) (use assms(2) in simp)
  have "\<tau> ` {..<64} = {..<64}" by (rule endo_inj_surj [OF _ _ inj]) (use assms(3) in auto)
  then have onto: "\<exists>i. i < 64 \<and> k = \<tau> i" if "k < 64" for k using that by (metis image_iff lessThan_iff)
  have "(v k = j) = (k = \<tau> j)" if "k < 64" for k using onto [OF that] assms(2,4) by auto
  then have "bit x k \<and> bit (map (\<lambda>k. 2 ^ v k :: ul) [0..<64] ! k) j \<longleftrightarrow> k = \<tau> j \<and> bit x (\<tau> j)" if "k < 64" for k
    using that assms(1) [OF that] assms(2) [OF assms(4)] assms(4) by (cases "k = \<tau> j") (simp_all add: bit_exp_iff possible_bit_def eq_commute [of j])
  then have "bit (vecmat x (map (\<lambda>k. 2 ^ v k) [0..<64])) j = parity_upto (\<lambda>k. k = \<tau> j \<and> bit x (\<tau> j)) 64"
    unfolding bit_vecmat length_map length_upt diff_zero by (rule parity_upto_cong)
  then show ?thesis using assms(3,4) by (simp add: parity_upto_single)
qed

lemma block_product_64:
  assumes "length a = 64" "length b = 64" "h 0 = 1"
  shows "block_product 1 h [a] [b] = [matmul a b]"
  using assms by (auto simp: block_product_def mul_6464_6464_eq add_6464_6464_def add_6464_6464_C_eq matadd_def intro!: nth_equalityI)

lemma check_pluq_ok:
  assumes "length m = 64" "pmat_n p = 64" "pmat_v p = map int \<sigma>" "pmat_n q = 64" "pmat_v q = map int \<tau>"
    and s: "length \<sigma> = 64" "set \<sigma> = {..<64}" and t: "length \<tau> = 64" "distinct \<tau>" "set \<tau> = {..<64}"
    and l: "unit_lower l" "u = matmul l m" and tri: "\<And>k j. k < 64 \<Longrightarrow> j < k \<Longrightarrow> \<not> bit (u ! (\<sigma> ! k)) (\<tau> ! j)"
  shows "check_pluq p [l] [u] q [m] 64 = Some ()"
proof -
  have slt: "\<sigma> ! k < 64" if "k < 64" for k using that s nth_mem [of k \<sigma>] by simp
  have tlt: "\<tau> ! k < 64" if "k < 64" for k using that t nth_mem [of k \<tau>] by simp
  have len: "length l = 64" "length u = 64" using l by (simp_all add: unit_lower_def)
  obtain v where v: "pmat_transpose False (pmat_init 64) q = Some (\<lparr>pmat_n = 64, pmat_v = v\<rparr>)" "length v = 64" "\<forall>i < 64. v ! (\<tau> ! i) = int i"
    using pmat_transpose_64 [OF assms(4,5) t] by blast
  have vr: "0 \<le> v ! k \<and> v ! k < 64" if "k < 64" for k
  proof -
    have "k \<in> set \<tau>" using that t(3) by simp
    then obtain i where i: "i < 64" "\<tau> ! i = k" unfolding in_set_conv_nth t(1) by blast
    have "v ! (\<tau> ! i) = int i" using v(3) i(1) by blast
    then show ?thesis using i by simp
  qed
  define pm where "pm = map (\<lambda>k. 2 ^ (\<sigma> ! k) :: ul) [0..<64]"
  define qmt where "qmt = map (\<lambda>k. 2 ^ nat (v ! k) :: ul) [0..<64]"
  have "pmat_get_matrix p = Some [map (\<lambda>k. 2 ^ nat (pmat_v p ! k)) [0..<64]]"
    by (rule pmat_get_matrix_64) (use assms(2,3) s(1) slt in simp_all)
  moreover have "map (\<lambda>k. 2 ^ nat (pmat_v p ! k)) [0..<64] = pm" unfolding pm_def by (rule map_cong) (use assms(3) s(1) in simp_all)
  ultimately have gp: "pmat_get_matrix p = Some [pm]" by (simp only:)
  have gq: "pmat_get_matrix (\<lparr>pmat_n = 64, pmat_v = v\<rparr>) = Some [qmt]"
    unfolding qmt_def by (subst pmat_get_matrix_64) (use vr in simp_all)
  have "matmul (matmul pm u) qmt ! k AND (push_bit k 1 - 1) = 0" if k: "k < 64" for k
  proof (rule bit_word_eqI)
    fix j assume j: "j < LENGTH(64)"
    have row: "matmul (matmul pm u) qmt ! k = vecmat (u ! (\<sigma> ! k)) qmt" using k len slt [OF k] by (simp add: pm_def vecmat_unit)
    have "bit (vecmat (u ! (\<sigma> ! k)) qmt) j = bit (u ! (\<sigma> ! k)) (\<tau> ! j)"
      unfolding qmt_def by (rule bit_vecmat_permutation) (use vr v(3) tlt j in \<open>auto simp: nat_less_iff\<close>)
    moreover have "push_bit k 1 - 1 = (mask k :: ul)" by (simp add: push_bit_eq_mult mask_eq_exp_minus_1)
    ultimately show "bit (matmul (matmul pm u) qmt ! k AND (push_bit k 1 - 1)) j = bit 0 j"
      using tri [OF k, of j] by (auto simp: row bit_and_iff bit_mask_iff)
  qed
  then have up: "mat64_is_uppertriangular (matmul (matmul pm u) qmt)" by (simp only: mat64_is_uppertriangular_def list_all_iff) simp
  have "mat64_eq (matmul l m) u" using l(2) by (simp add: mat64_eq_def list_all_iff)
  moreover have "block_product (64 div 64) (\<lambda>_. 64 div 64) [pm] [u] = [matmul pm u]" "block_product (64 div 64) Suc [l] [m] = [matmul l m]"
    "block_product (64 div 64) (\<lambda>_. 64 div 64) [matmul pm u] [qmt] = [matmul (matmul pm u) qmt]"
    using block_product_64 len assms(1) by (simp_all add: pm_def qmt_def)
  ultimately show ?thesis using triangular_checks [OF l(1)] up
    unfolding check_pluq_def Let_def assms(2) gp v(1) bind.simps gq by simp
qed

section \<open>Echelon forms\<close>

text \<open>\<open>cancelled_cols\<close>, which is not used, is left out.\<close>

definition gauss_col :: "nat \<Rightarrow> mat64 \<times> mat64 \<times> ul \<times> ul \<times> nat \<Rightarrow> mat64 \<times> mat64 \<times> ul \<times> ul \<times> nat" where
  "gauss_col j = (\<lambda>(mm, e, msk, taken, r).
     case find (\<lambda>k. mm ! k AND msk \<noteq> 0 \<and> taken AND push_bit k 1 = 0) [0..<64] of
       None \<Rightarrow> (mm, e, push_bit 1 msk, taken, r)
     | Some k \<Rightarrow> let (mm', e') = elim_rows k msk (mm ! k) (e ! k) (mm, e) in (mm', e', push_bit 1 msk, taken OR push_bit k 1, r + 1))"

definition gauss_6464_imm :: "mat64 \<Rightarrow> mat64 \<times> mat64 \<times> nat" where
  "gauss_6464_imm m =
     (let (mm, e, msk, taken, r) = fold gauss_col [0..<64] (m, mat64_set_identity (replicate 64 0), 1, 0, 0) in (mm, e, r))"

definition elim_others :: "nat \<Rightarrow> ul \<Rightarrow> ul \<Rightarrow> ul \<Rightarrow> mat64 \<times> mat64 \<Rightarrow> mat64 \<times> mat64" where
  "elim_others j msk pr er s =
     fold (\<lambda>k (mm, e). if k = j then (mm, e)
                      else let w = - of_bool (mm ! k AND msk \<noteq> 0) in (mm[k := mm ! k XOR (pr AND w)], e[k := e ! k XOR (er AND w)])) [0..<64] s"

definition echelon_col :: "nat \<Rightarrow> mat64 \<times> mat64 \<times> ul \<times> nat \<Rightarrow> mat64 \<times> mat64 \<times> ul \<times> nat" where
  "echelon_col j = (\<lambda>(mm, e, msk, r).
     case find (\<lambda>k. mm ! k AND msk \<noteq> 0 \<and> mm ! k AND (msk - 1) = 0) [0..<64] of
       None \<Rightarrow> (mm, e, push_bit 1 msk, r)
     | Some k \<Rightarrow> let pr = mm ! k;
                     mm = mm[k := mm ! j, j := mm ! k];
                     e = e[k := e ! j, j := e ! k];
                     (mm, e) = elim_others j msk pr (e ! j) (mm, e)
                 in (mm, e, push_bit 1 msk, r + 1))"

definition full_echelon_6464_imm :: "mat64 \<Rightarrow> mat64 \<times> mat64 \<times> nat" where
  "full_echelon_6464_imm m =
     (let (mm, e, msk, r) = fold echelon_col [0..<64] (m, mat64_set_identity (replicate 64 0), 1, 0) in (mm, e, r))"

lemma find_upt_Some: "find P [0..<n] = Some k \<Longrightarrow> k < n \<and> P k \<and> (\<forall>i < k. \<not> P i)"
  by (auto simp: find_Some_iff)

lemma find_upt_None: "find P [0..<n] = None \<Longrightarrow> i < n \<Longrightarrow> \<not> P i"
  by (simp add: find_None_iff)

lemma elim_rows_unit_lower:
  assumes "unit_lower e" "mm = matmul e m" "k < 64" "c < 64" and e': "elim_rows k (2 ^ c) (mm ! k) (e ! k) (mm, e) = (mm', e')"
  shows "unit_lower e'" "mm' = matmul e' m" "\<And>i. i < 64 \<Longrightarrow> mm' ! i = (if k < i \<and> bit (mm ! i) c then mm ! i XOR mm ! k else mm ! i)"
proof -
  have len: "length mm = 64" "length e = 64" using assms(1,2) by (simp_all add: unit_lower_def)
  have eq: "mm' = map (\<lambda>i. if k < i \<and> bit (mm ! i) c then mm ! i XOR mm ! k else mm ! i) [0..<64]"
    "e' = map (\<lambda>i. if k < i \<and> bit (mm ! i) c then e ! i XOR e ! k else e ! i) [0..<64]"
    using e' elim_rows_eq [OF len assms(4), of k "mm ! k" "e ! k"] by simp_all
  show "unit_lower e'" using assms(1,3) by (auto simp: unit_lower_def eq(2) bit_xor_iff)
  show "mm' = matmul e' m"
  proof (rule nth_equalityI)
    show "length mm' = length (matmul e' m)" by (simp add: eq)
    fix i assume "i < length mm'"
    then show "mm' ! i = matmul e' m ! i" using assms(2,3) len(2) by (simp add: eq vecmat_xor)
  qed
  show "mm' ! i = (if k < i \<and> bit (mm ! i) c then mm ! i XOR mm ! k else mm ! i)" if "i < 64" for i using that by (simp add: eq(1))
qed

text \<open>The columns below \<open>j\<close> are done: the rows in \<open>P\<close> are taken, \<open>C\<close> gives their lowest bits, and the other rows are zero there.\<close>

definition gauss_inv :: "mat64 \<Rightarrow> nat set \<Rightarrow> (nat \<Rightarrow> nat) \<Rightarrow> nat \<Rightarrow> mat64 \<times> mat64 \<times> ul \<times> ul \<times> nat \<Rightarrow> bool" where
  "gauss_inv m P C j = (\<lambda>(mm, e, msk, taken, r). unit_lower e \<and> length m = 64 \<and> mm = matmul e m \<and> msk = 2 ^ j \<and> word_bits taken = P
     \<and> r = card P \<and> P \<subseteq> {..<64} \<and> inj_on C P \<and> (\<forall>i \<in> P. C i < j \<and> bit (mm ! i) (C i) \<and> (\<forall>b < C i. \<not> bit (mm ! i) b))
     \<and> (\<forall>i < 64. i \<notin> P \<longrightarrow> (\<forall>b < j. \<not> bit (mm ! i) b)))"

lemma word_bits_or: "k < 64 \<Longrightarrow> word_bits (t OR 2 ^ k) = insert k (word_bits t)"
  by (auto simp: word_bits_def bit_or_iff bit_exp_iff possible_bit_def)

lemma not_taken_iff: "k < 64 \<Longrightarrow> t AND 2 ^ k = 0 \<longleftrightarrow> k \<notin> word_bits t"
  using and_bit_iff [of k t] by (auto simp: word_bits_def)

lemma push_bit_mask: "push_bit 1 (2 ^ j :: ul) = 2 ^ Suc j" "push_bit k 1 = (2 ^ k :: ul)"
  by (simp_all add: push_bit_eq_mult)

lemma gauss_col_inv:
  assumes "gauss_inv m P C j st" "j < 64"
  shows "\<exists>P C. gauss_inv m P C (Suc j) (gauss_col j st)"
proof -
  obtain mm e msk taken r where st: "st = (mm, e, msk, taken, r)" by (cases st)
  have i: "unit_lower e" "length m = 64" "mm = matmul e m" "msk = 2 ^ j" "word_bits taken = P" "r = card P" "P \<subseteq> {..<64}" "inj_on C P"
    and p: "\<And>i. i \<in> P \<Longrightarrow> C i < j" "\<And>i. i \<in> P \<Longrightarrow> bit (mm ! i) (C i)" "\<And>i b. i \<in> P \<Longrightarrow> b < C i \<Longrightarrow> \<not> bit (mm ! i) b"
    and z: "\<And>i b. i < 64 \<Longrightarrow> i \<notin> P \<Longrightarrow> b < j \<Longrightarrow> \<not> bit (mm ! i) b"
    using assms(1) unfolding gauss_inv_def st split_conv by blast+
  have shift: "push_bit 1 msk = 2 ^ Suc j" by (simp only: i(4) push_bit_mask)
  let ?cand = "\<lambda>k. mm ! k AND msk \<noteq> 0 \<and> taken AND push_bit k 1 = 0"
  have cand: "?cand k \<longleftrightarrow> bit (mm ! k) j \<and> k \<notin> P" if "k < 64" for k
    using that assms(2) and_bit_iff not_taken_iff by (simp add: i(4) push_bit_mask i(5) [symmetric])
  show ?thesis
  proof (cases "find ?cand [0..<64]")
    case None
    have "\<not> bit (mm ! k) j" if "k < 64" "k \<notin> P" for k using find_upt_None [OF None that(1)] cand [OF that(1)] that(2) by blast
    then have "gauss_inv m P C (Suc j) (mm, e, push_bit 1 msk, taken, r)"
      unfolding gauss_inv_def split_conv shift using i p z by (auto simp: less_Suc_eq simp del: power_Suc)
    then show ?thesis using None by (auto simp: st gauss_col_def)
  next
    case (Some k)
    have f: "k < 64" "?cand k" "\<And>i. i < k \<Longrightarrow> \<not> ?cand i" using find_upt_Some [OF Some] by blast+
    then have k: "k < 64" "bit (mm ! k) j" "k \<notin> P" using cand by blast+
    have first: "\<not> bit (mm ! i) j" if "i < k" "i \<notin> P" for i using f(3) [OF that(1)] cand [of i] that k(1) less_trans by blast
    obtain mm' e' where e': "elim_rows k (2 ^ j) (mm ! k) (e ! k) (mm, e) = (mm', e')" by force
    note u = elim_rows_unit_lower [OF i(1,3) k(1) assms(2) e']
    have low: "bit (mm' ! i) b = bit (mm ! i) b" if "i < 64" "b < j" for i b
      using that z [OF k(1,3)] by (simp add: u(3) bit_xor_iff)
    have "\<not> bit (mm' ! i) b" if "i < 64" "i \<notin> insert k P" "b < Suc j" for i b
    proof (cases "b = j")
      case True
      show ?thesis
      proof (cases "k < i")
        case True
        then show ?thesis using \<open>b = j\<close> k(2) that(1) by (auto simp: u(3) bit_xor_iff)
      next
        case False
        then show ?thesis using \<open>b = j\<close> first [of i] that k(2,3) by (auto simp: u(3))
      qed
    next
      case False
      then show ?thesis using that low z by auto
    qed
    moreover have "bit (mm' ! k) j" "\<not> bit (mm' ! k) b" if "b < j" for b using k(1,2) z [OF k(1,3) that] by (simp_all add: u(3))
    moreover have "bit (mm' ! k) j" using k(1,2) by (simp add: u(3))
    moreover have "bit (mm' ! i) (C i)" "\<not> bit (mm' ! i) b" if "i \<in> P" "b < C i" for i b
      using p(1) [OF that(1)] p(2) [OF that(1)] p(3) [OF that] that i(7) low [of i] by (auto dest: less_trans)
    moreover have "bit (mm' ! i) (C i)" if "i \<in> P" for i using p(1,2) [OF that] that i(7) low [of i] by auto
    moreover have "inj_on (C(k := j)) (insert k P)" using i(8) k(3) p(1) by (auto simp: inj_on_def)
    moreover have "r + 1 = card (insert k P)" using i(6,7) k(3) finite_subset [of P "{..<64}"] by simp
    moreover have "word_bits (taken OR push_bit k 1) = insert k P" using k(1) i(5) by (simp add: push_bit_mask word_bits_or)
    ultimately have "gauss_inv m (insert k P) (C(k := j)) (Suc j) (mm', e', push_bit 1 msk, taken OR push_bit k 1, r + 1)"
      unfolding gauss_inv_def split_conv shift using u(1,2) i(2,4,7) k(1,3) p(1) by (auto simp: less_Suc_eq simp del: power_Suc)
    moreover have "gauss_col j st = (mm', e', push_bit 1 msk, taken OR push_bit k 1, r + 1)"
      using Some e' by (simp add: st gauss_col_def i(4))
    ultimately show ?thesis by auto
  qed
qed

lemma gauss_6464_imm_ok:
  assumes "length m = 64"
  shows "\<exists>mm e r P C. gauss_6464_imm m = (mm, e, r) \<and> unit_lower e \<and> mm = matmul e m \<and> card (left_kernel m) = 2 ^ (64 - r)
    \<and> P \<subseteq> {..<64} \<and> r = card P \<and> inj_on C P \<and> (\<forall>i < 64. if i \<in> P then bit (mm ! i) (C i) \<and> (\<forall>b < C i. \<not> bit (mm ! i) b) else mm ! i = 0)"
proof -
  have "\<exists>P C. gauss_inv m P C n (fold gauss_col [0..<n] (m, id64, 1, 0, 0))" if "n \<le> 64" for n
    using that
  proof (induction n)
    case 0
    have "word_bits 0 = {}" by (simp add: word_bits_def)
    then show ?case using assms by (intro exI [of _ "{}"]) (simp add: gauss_inv_def unit_lower_id64)
  next
    case (Suc n)
    then show ?case using gauss_col_inv by fastforce
  qed
  then obtain P C where inv: "gauss_inv m P C 64 (fold gauss_col [0..<64] (m, id64, 1, 0, 0))" by blast
  obtain mm e msk taken r where st: "fold gauss_col [0..<64] (m, id64, 1, 0, 0) = (mm, e, msk, taken, r)"
    by (cases "fold gauss_col [0..<64] (m, id64, 1, 0, 0)") auto
  have i: "unit_lower e" "mm = matmul e m" "r = card P" "P \<subseteq> {..<64}" "inj_on C P"
    and p: "\<And>i. i \<in> P \<Longrightarrow> C i < 64" "\<And>i. i \<in> P \<Longrightarrow> bit (mm ! i) (C i)" "\<And>i b. i \<in> P \<Longrightarrow> b < C i \<Longrightarrow> \<not> bit (mm ! i) b"
    and z: "\<And>i b. i < 64 \<Longrightarrow> i \<notin> P \<Longrightarrow> b < 64 \<Longrightarrow> \<not> bit (mm ! i) b"
    using inv unfolding gauss_inv_def st split_conv by blast+
  have zero: "mm ! i = 0" if "i < 64" "i \<notin> P" for i using z [OF that] by (intro bit_word_eqI) simp
  have red: "reduces e mm m" using i(1,2) assms unit_lower_independent by (simp add: reduces_def)
  have "staircase mm P C C" using i(4,5) p zero by (auto simp: staircase_def)
  then have rank: "card (left_kernel m) = 2 ^ (64 - r)" using reduces_rank [OF red] by (simp add: i(3))
  have eq: "gauss_6464_imm m = (mm, e, r)" by (simp only: gauss_6464_imm_def mat64_set_identity_eq length_replicate st Let_def split_conv)
  have rows: "\<forall>i < 64. if i \<in> P then bit (mm ! i) (C i) \<and> (\<forall>b < C i. \<not> bit (mm ! i) b) else mm ! i = 0" using p zero by simp
  show ?thesis by (intro exI conjI, rule eq, rule i(1), rule i(2)) (use rank i(3-5) rows in simp_all)
qed

lemma elim_others_ok:
  assumes "reduces e mm m" "j < 64" "c < 64" and e': "elim_others j (2 ^ c) (mm ! j) (e ! j) (mm, e) = (mm', e')"
  shows "reduces e' mm' m" "\<And>i. i < 64 \<Longrightarrow> mm' ! i = (if i \<noteq> j \<and> bit (mm ! i) c then mm ! i XOR mm ! j else mm ! i)"
proof -
  let ?f = "\<lambda>k (x, y). if k = j then (x, y)
    else let w = - of_bool (x ! k AND 2 ^ c \<noteq> 0) in (x[k := x ! k XOR (mm ! j AND w)], y[k := y ! k XOR (e ! j AND w)])"
  have "\<exists>x y. fold ?f [0..<n] (mm, e) = (x, y) \<and> reduces y x m \<and> y ! j = e ! j
      \<and> (\<forall>i < 64. x ! i = (if i < n \<and> i \<noteq> j \<and> bit (mm ! i) c then mm ! i XOR mm ! j else mm ! i))" if "n \<le> 64" for n
    using that
  proof (induction n)
    case 0
    show ?case using assms(1) by simp
  next
    case (Suc n)
    then obtain x y where IH: "fold ?f [0..<n] (mm, e) = (x, y)" "reduces y x m" "y ! j = e ! j"
      "\<And>i. i < 64 \<Longrightarrow> x ! i = (if i < n \<and> i \<noteq> j \<and> bit (mm ! i) c then mm ! i XOR mm ! j else mm ! i)" by auto
    have n: "n < 64" using Suc.prems by simp
    have xj: "x ! j = mm ! j" and xn: "x ! n = mm ! n" using IH(4) assms(2) n by simp_all
    have len: "length x = 64" "length y = 64" using reduces_length [OF IH(2)] by simp_all
    show ?case
    proof (cases "n \<noteq> j \<and> bit (mm ! n) c")
      case True
      have "reduces (y[n := y ! n XOR y ! j]) (x[n := x ! n XOR x ! j]) m" using reduces_add [OF IH(2) assms(2) n] True by blast
      moreover have "fold ?f [0..<Suc n] (mm, e) = (x[n := x ! n XOR x ! j], y[n := y ! n XOR y ! j])"
        using IH(1,3) True and_bit_iff [OF assms(3), of "x ! n"] by (simp add: Let_def xj xn)
      moreover have "x[n := x ! n XOR x ! j] ! i = (if i < Suc n \<and> i \<noteq> j \<and> bit (mm ! i) c then mm ! i XOR mm ! j else mm ! i)" if "i < 64" for i
        using IH(4) [OF that] True len that by (cases "i = n") (simp_all add: xj xn less_Suc_eq)
      ultimately show ?thesis using IH(3) True by simp
    next
      case False
      moreover have "x[n := mm ! n] = x" using list_update_id [of x n] by (simp only: xn)
      ultimately have "fold ?f [0..<Suc n] (mm, e) = (x, y)"
        using IH(1) and_bit_iff [OF assms(3), of "x ! n"] by (auto simp: Let_def xn)
      then show ?thesis using IH(2-4) False by (auto simp: less_Suc_eq)
    qed
  qed
  from this [of 64] obtain x y where "fold ?f [0..<64] (mm, e) = (x, y)" "reduces y x m"
    "\<forall>i < 64. x ! i = (if i \<noteq> j \<and> bit (mm ! i) c then mm ! i XOR mm ! j else mm ! i)" by auto
  then show "reduces e' mm' m" "\<And>i. i < 64 \<Longrightarrow> mm' ! i = (if i \<noteq> j \<and> bit (mm ! i) c then mm ! i XOR mm ! j else mm ! i)"
    using e' by (simp_all add: elim_others_def)
qed

text \<open>The columns below \<open>j\<close> are done: row \<open>i\<close> of \<open>P\<close> is the only one with bit \<open>i\<close>, which is its lowest.\<close>

definition echelon_inv :: "mat64 \<Rightarrow> nat set \<Rightarrow> nat \<Rightarrow> mat64 \<times> mat64 \<times> ul \<times> nat \<Rightarrow> bool" where
  "echelon_inv m P j = (\<lambda>(mm, e, msk, r). reduces e mm m \<and> msk = 2 ^ j \<and> P \<subseteq> {..<j} \<and> r = card P
     \<and> (\<forall>i \<in> P. bit (mm ! i) i \<and> (\<forall>b < i. \<not> bit (mm ! i) b) \<and> (\<forall>k < 64. k \<noteq> i \<longrightarrow> \<not> bit (mm ! k) i))
     \<and> (\<forall>i < 64. i \<notin> P \<longrightarrow> (\<forall>b < j. \<not> bit (mm ! i) b)))"

lemma below_mask_iff: "j < 64 \<Longrightarrow> (x :: ul) AND (2 ^ j - 1) = 0 \<longleftrightarrow> (\<forall>b < j. \<not> bit x b)"
proof -
  assume "j < 64"
  then have "b < 64" if "b < j" for b using that by simp
  then show ?thesis unfolding mask_eq_exp_minus_1 [symmetric] by (auto simp: bit_eq_iff bit_and_iff bit_mask_iff possible_bit_def)
qed

lemma echelon_col_inv:
  assumes "echelon_inv m P j st" "j < 64"
  shows "\<exists>P. echelon_inv m P (Suc j) (echelon_col j st)"
proof -
  obtain mm e msk r where st: "st = (mm, e, msk, r)" by (cases st)
  have i: "reduces e mm m" "msk = 2 ^ j" "P \<subseteq> {..<j}" "r = card P"
    and p: "\<And>i. i \<in> P \<Longrightarrow> bit (mm ! i) i" "\<And>i b. i \<in> P \<Longrightarrow> b < i \<Longrightarrow> \<not> bit (mm ! i) b" "\<And>i k. i \<in> P \<Longrightarrow> k < 64 \<Longrightarrow> k \<noteq> i \<Longrightarrow> \<not> bit (mm ! k) i"
    and z: "\<And>i b. i < 64 \<Longrightarrow> i \<notin> P \<Longrightarrow> b < j \<Longrightarrow> \<not> bit (mm ! i) b"
    using assms(1) unfolding echelon_inv_def st split_conv by blast+
  have shift: "push_bit 1 msk = 2 ^ Suc j" by (simp only: i(2) push_bit_mask)
  have jP: "j \<notin> P" "i < j" if "i \<in> P" for i using i(3) that by auto
  have jP': "j \<notin> P" using i(3) by auto
  have len: "length mm = 64" "length e = 64" using reduces_length [OF i(1)] by simp_all
  let ?cand = "\<lambda>k. mm ! k AND msk \<noteq> 0 \<and> mm ! k AND (msk - 1) = 0"
  have cand: "?cand k \<longleftrightarrow> bit (mm ! k) j \<and> k \<notin> P" if "k < 64" for k
    using and_bit_iff [OF assms(2), of "mm ! k"] below_mask_iff [OF assms(2), of "mm ! k"] that z [OF that] p(1) [of k] jP(2) [of k] unfolding i(2) by blast
  show ?thesis
  proof (cases "find ?cand [0..<64]")
    case None
    have "\<not> bit (mm ! k) j" if "k < 64" "k \<notin> P" for k using find_upt_None [OF None that(1)] cand [OF that(1)] that(2) by blast
    then have "echelon_inv m P (Suc j) (mm, e, push_bit 1 msk, r)"
      unfolding echelon_inv_def split_conv shift using i p z by (auto simp: less_Suc_eq simp del: power_Suc)
    then show ?thesis using None by (auto simp: st echelon_col_def)
  next
    case (Some k)
    have "k < 64" "?cand k" using find_upt_Some [OF Some] by blast+
    then have k: "k < 64" "bit (mm ! k) j" "k \<notin> P" using cand by blast+
    define x where "x = mm[k := mm ! j, j := mm ! k]"
    define y where "y = e[k := e ! j, j := e ! k]"
    have red: "reduces y x m" unfolding x_def y_def by (rule reduces_swap [OF i(1) k(1) assms(2)])
    have xj: "x ! j = mm ! k" "y ! j = e ! k" using len assms(2) by (simp_all add: x_def y_def)
    have xP: "x ! i = mm ! i" if "i \<in> P" for i
    proof -
      have "i \<noteq> k" "i \<noteq> j" using that k(3) jP' by auto
      then show ?thesis by (simp add: x_def)
    qed
    have xz: "\<not> bit (x ! i) b" if "i < 64" "i \<notin> P" "b < j" for i b
      using that z k(1,3) assms(2) jP' len by (auto simp: x_def nth_list_update)
    obtain mm' e' where e': "elim_others j (2 ^ j) (x ! j) (y ! j) (x, y) = (mm', e')" by force
    note u = elim_others_ok [OF red assms(2) assms(2) e']
    have low: "bit (mm' ! i) b = bit (x ! i) b" if "i < 64" "b < j" for i b
      using that xz [OF assms(2) jP'] by (simp add: u(2) bit_xor_iff)
    have uniq: "\<not> bit (mm' ! i) j" if "i < 64" "i \<noteq> j" for i
      using that k(2) by (auto simp: u(2) xj(1) bit_xor_iff)
    have jj: "bit (mm' ! j) j" "\<not> bit (mm' ! j) b" if "b < j" for b using assms(2) k(2) xz [OF assms(2) jP' that] by (simp_all add: u(2) xj(1))
    have jj': "bit (mm' ! j) j" using assms(2) k(2) by (simp add: u(2) xj(1))
    have colP: "\<not> bit (mm' ! k') i" if "i \<in> P" "k' < 64" "k' \<noteq> i" for i k'
    proof -
      have "\<not> bit (x ! k') i"
      proof (cases "k' \<in> P")
        case True
        then show ?thesis using p(3) [OF that] xP by simp
      next
        case False
        then show ?thesis using xz [OF that(2)] jP(2) [OF that(1)] by blast
      qed
      then show ?thesis using low [OF that(2) jP(2) [OF that(1)]] by simp
    qed
    have rowP: "bit (mm' ! i) i" "b < i \<Longrightarrow> \<not> bit (mm' ! i) b" if "i \<in> P" for i b
      using that p(1,2) [OF that] xP [OF that] low [of i] jP(2) [OF that] assms(2) by (auto dest: less_trans)
    have zero: "\<not> bit (mm' ! i) b" if "i < 64" "i \<notin> insert j P" "b < Suc j" for i b
      using that low [of i b] xz [of i b] uniq [of i] by (cases "b = j") auto
    have "card (insert j P) = r + 1" using i(3,4) jP' finite_subset [OF i(3)] by simp
    then have "echelon_inv m (insert j P) (Suc j) (mm', e', push_bit 1 msk, r + 1)"
      unfolding echelon_inv_def split_conv shift using u(1) i(3) jj jj' uniq colP rowP zero by (auto simp: less_Suc_eq simp del: power_Suc)
    moreover have "echelon_col j st = (mm', e', push_bit 1 msk, r + 1)"
      using Some e' by (simp add: st echelon_col_def i(2) Let_def x_def y_def xj [unfolded x_def y_def])
    ultimately show ?thesis by auto
  qed
qed

lemma full_echelon_6464_imm_ok:
  assumes "length m = 64"
  shows "\<exists>mm e r P. full_echelon_6464_imm m = (mm, e, r) \<and> reduces e mm m \<and> card (left_kernel m) = 2 ^ (64 - r)
    \<and> P \<subseteq> {..<64} \<and> r = card P
    \<and> (\<forall>i < 64. if i \<in> P then bit (mm ! i) i \<and> (\<forall>b < i. \<not> bit (mm ! i) b) \<and> (\<forall>k < 64. k \<noteq> i \<longrightarrow> \<not> bit (mm ! k) i) else mm ! i = 0)"
proof -
  have "\<exists>P. echelon_inv m P n (fold echelon_col [0..<n] (m, id64, 1, 0))" if "n \<le> 64" for n
    using that
  proof (induction n)
    case 0
    then show ?case using reduces_init [OF assms] by (intro exI [of _ "{}"]) (simp add: echelon_inv_def)
  next
    case (Suc n)
    then show ?case using echelon_col_inv by fastforce
  qed
  then obtain P where inv: "echelon_inv m P 64 (fold echelon_col [0..<64] (m, id64, 1, 0))" by blast
  obtain mm e msk r where st: "fold echelon_col [0..<64] (m, id64, 1, 0) = (mm, e, msk, r)"
    by (cases "fold echelon_col [0..<64] (m, id64, 1, 0)") auto
  have i: "reduces e mm m" "P \<subseteq> {..<64}" "r = card P"
    and p: "\<And>i. i \<in> P \<Longrightarrow> bit (mm ! i) i" "\<And>i b. i \<in> P \<Longrightarrow> b < i \<Longrightarrow> \<not> bit (mm ! i) b" "\<And>i k. i \<in> P \<Longrightarrow> k < 64 \<Longrightarrow> k \<noteq> i \<Longrightarrow> \<not> bit (mm ! k) i"
    and z: "\<And>i b. i < 64 \<Longrightarrow> i \<notin> P \<Longrightarrow> b < 64 \<Longrightarrow> \<not> bit (mm ! i) b"
    using inv unfolding echelon_inv_def st split_conv by blast+
  have zero: "mm ! i = 0" if "i < 64" "i \<notin> P" for i using z [OF that] by (intro bit_word_eqI) simp
  have "staircase mm P (\<lambda>i. i) (\<lambda>i. i)" using i(2) p zero by (auto simp: staircase_def)
  then have rank: "card (left_kernel m) = 2 ^ (64 - r)" using reduces_rank [OF i(1)] by (simp add: i(3))
  have eq: "full_echelon_6464_imm m = (mm, e, r)" by (simp only: full_echelon_6464_imm_def mat64_set_identity_eq length_replicate st Let_def split_conv)
  have rows: "\<forall>i < 64. if i \<in> P then bit (mm ! i) i \<and> (\<forall>b < i. \<not> bit (mm ! i) b) \<and> (\<forall>k < 64. k \<noteq> i \<longrightarrow> \<not> bit (mm ! k) i) else mm ! i = 0"
    using p zero by simp
  show ?thesis by (intro exI conjI, rule eq, rule i(1)) (use rank i(2,3) rows in simp_all)
qed

section \<open>Properties\<close>

lemma rank_unique: "(2 :: nat) ^ (64 - r) = 2 ^ (64 - r') \<Longrightarrow> r \<le> 64 \<Longrightarrow> r' \<le> 64 \<Longrightarrow> r = r'"
  by auto

lemma bit_permuted_columns:
  assumes "p = map (\<lambda>j. 2 ^ \<pi> j) [0..<64]" "j < 64" "\<pi> j < 64" "length u = 64" "k < 64"
  shows "bit (matmul u (transpose64 p) ! k) j = bit (u ! k) (\<pi> j)"
proof -
  have "bit (u ! k) i \<and> bit (transpose64 p ! i) j \<longleftrightarrow> i = \<pi> j \<and> bit (u ! k) (\<pi> j)" if "i < 64" for i
    using that assms(1-3) by (auto simp: bit_transpose64 bit_exp_iff possible_bit_def)
  then have "bit (vecmat (u ! k) (transpose64 p)) j = parity_upto (\<lambda>i. i = \<pi> j \<and> bit (u ! k) (\<pi> j)) 64"
    unfolding bit_vecmat length_mat by (rule parity_upto_cong)
  then show ?thesis using assms(3-5) by (simp add: parity_upto_single)
qed

text \<open>C8: \<open>PLUQ64\<close> returns for every matrix, and then every assertion of \<open>check_pluq\<close>, which the program calls next, holds: \<open>l\<close> is unit
  lower triangular, \<open>l m = u\<close>, and \<open>u\<close> with rows and columns permuted is upper triangular.  The number returned is the rank.\<close>

theorem PLUQ64_check:
  assumes "length m = 64" and "pmat_n p = 64" and "length (pmat_v p) = 64" and "pmat_n q = 64" and "length (pmat_v q) = 64"
  shows "\<exists>p' l u q' r. PLUQ64 p q m = Some (p', l, u, q', r) \<and> check_pluq p' [l] [u] q' [m] 64 = Some ()
    \<and> r \<le> 64 \<and> card (left_kernel m) = 2 ^ (64 - r)"
proof -
  obtain l u r \<sigma> \<tau> where o: "PLUQ64 p q m = Some (p\<lparr>pmat_v := map int \<sigma>\<rparr>, l, u, q\<lparr>pmat_v := map int \<tau>\<rparr>, r)" "unit_lower l" "u = matmul l m"
    "card (left_kernel m) = 2 ^ (64 - r)" "length \<sigma> = 64" "set \<sigma> = {..<64}" "length \<tau> = 64" "distinct \<tau>" "set \<tau> = {..<64}" "r \<le> 64"
    and rows: "\<And>k. k < 64 \<Longrightarrow> if k < r then bit (u ! (\<sigma> ! k)) (\<tau> ! k) \<and> (\<forall>j < 64. k < j \<longrightarrow> \<not> bit (u ! (\<sigma> ! j)) (\<tau> ! k)) else u ! (\<sigma> ! k) = 0"
    using PLUQ64_ok [OF assms] by blast
  have tri: "\<not> bit (u ! (\<sigma> ! k)) (\<tau> ! j)" if "k < 64" "j < k" for k j
    using rows [of j] rows [of k] that by (cases "j < r") auto
  have "check_pluq (p\<lparr>pmat_v := map int \<sigma>\<rparr>) [l] [u] (q\<lparr>pmat_v := map int \<tau>\<rparr>) [m] 64 = Some ()"
    by (rule check_pluq_ok [OF assms(1) _ _ _ _ o(5-9) o(2,3) tri]) (simp_all add: assms)
  then show ?thesis using o(1,4,10) by blast
qed

theorem PLUQ64_check_witness:
  "\<exists>p' l u q' r. PLUQ64 (pmat_init 64) (pmat_init 64) id64 = Some (p', l, u, q', r) \<and> check_pluq p' [l] [u] q' [id64] 64 = Some ()
    \<and> r \<le> 64 \<and> card (left_kernel id64) = 2 ^ (64 - r)"
  by (rule PLUQ64_check) (simp_all add: pmat_init_def)

text \<open>C9: \<open>LUP64_imm\<close> returns for every matrix \<open>a\<close>, never reading beyond the rows it stored: \<open>l\<close> is unit lower triangular, \<open>l a = u\<close>, \<open>p\<close> is
  a permutation matrix, and in \<open>up = u transpose(p)\<close> a row is zero exactly when its diagonal entry is; their number
  is the rank, and \<open>up\<close> is upper triangular when \<open>a\<close> is invertible.\<close>

theorem LUP64_imm_correct:
  assumes "length a = 64"
  shows "\<exists>l u p r \<pi>. LUP64_imm a = Some (l, u, p, r) \<and> mat64_is_lowertriangular l \<and> mat64_triangular_is_unit l \<and> mul_6464_6464 l a = u
    \<and> bij_betw \<pi> {..<64} {..<64} \<and> p = map (\<lambda>j. 2 ^ \<pi> j) [0..<64] \<and> r \<le> 64 \<and> card (left_kernel a) = 2 ^ (64 - r)
    \<and> (\<forall>k < 64. matmul u (transpose64 p) ! k = 0 \<longleftrightarrow> \<not> bit (matmul u (transpose64 p) ! k) k)
    \<and> r = card {k. k < 64 \<and> bit (matmul u (transpose64 p) ! k) k}
    \<and> (r = 64 \<longrightarrow> mat64_is_uppertriangular (matmul u (transpose64 p)))"
proof -
  obtain l u p r \<pi> P where o: "LUP64_imm a = Some (l, u, p, r)" "unit_lower l" "u = matmul l a" "card (left_kernel a) = 2 ^ (64 - r)"
    "bij_betw \<pi> {..<64} {..<64}" "p = map (\<lambda>j. 2 ^ \<pi> j) [0..<64]" "P \<subseteq> {..<64}" "r = card P"
    and rows: "\<And>j. j < 64 \<Longrightarrow> if j \<in> P then bit (u ! j) (\<pi> j) \<and> (\<forall>k < 64. j < k \<longrightarrow> \<not> bit (u ! k) (\<pi> j)) else u ! j = 0"
    using LUP64_imm_ok [OF assms] by blast
  let ?up = "matmul u (transpose64 p)"
  have l64: "length l = 64" "length u = 64" using o(2,3) by (simp_all add: unit_lower_def)
  have \<pi>: "\<pi> j < 64" if "j < 64" for j using bij_betwE [OF o(5)] that by blast
  have b: "bit (?up ! k) j = bit (u ! k) (\<pi> j)" if "k < 64" "j < 64" for k j
    by (rule bit_permuted_columns [OF o(6) that(2) \<pi> [OF that(2)] l64(2) that(1)])
  have diag: "bit (?up ! k) k \<longleftrightarrow> k \<in> P" if "k < 64" for k using b [OF that that] rows [OF that] by (cases "k \<in> P") auto
  have zero: "?up ! k = 0" if "k < 64" "k \<notin> P" for k using rows [OF that(1)] that l64 by simp
  have row: "?up ! k = 0 \<longleftrightarrow> \<not> bit (?up ! k) k" if "k < 64" for k using diag [OF that] zero [OF that] by (metis bit_0_eq bot_apply bot_bool_def)
  have "{k. k < 64 \<and> bit (?up ! k) k} = P" using diag o(7) by auto
  then have card: "r = card {k. k < 64 \<and> bit (?up ! k) k}" using o(8) by simp
  have r64: "r \<le> 64" using card_mono [OF finite_lessThan o(7)] o(8) by simp
  have up: "mat64_is_uppertriangular ?up" if r: "r = 64"
  proof -
    have P: "P = {..<64}" by (rule card_subset_eq) (use o(7,8) r in simp_all)
    have "?up ! k AND (push_bit k 1 - 1) = 0" if k: "k < 64" for k
      unfolding push_bit_mask below_mask_iff [OF k] using b [OF k] k rows P by auto
    then show ?thesis by (simp only: mat64_is_uppertriangular_def list_all_iff) simp
  qed
  have "mul_6464_6464 l a = u" using o(3) l64 assms by (simp add: mul_6464_6464_eq)
  then show ?thesis using o(1,4-6) triangular_checks [OF o(2)] row card r64 up by blast
qed

theorem LUP64_imm_correct_witness:
  "\<exists>l u p r \<pi>. LUP64_imm id64 = Some (l, u, p, r) \<and> mat64_is_lowertriangular l \<and> mat64_triangular_is_unit l \<and> mul_6464_6464 l id64 = u
    \<and> bij_betw \<pi> {..<64} {..<64} \<and> p = map (\<lambda>j. 2 ^ \<pi> j) [0..<64] \<and> r \<le> 64 \<and> card (left_kernel id64) = 2 ^ (64 - r)
    \<and> (\<forall>k < 64. matmul u (transpose64 p) ! k = 0 \<longleftrightarrow> \<not> bit (matmul u (transpose64 p) ! k) k)
    \<and> r = card {k. k < 64 \<and> bit (matmul u (transpose64 p) ! k) k}
    \<and> (r = 64 \<longrightarrow> mat64_is_uppertriangular (matmul u (transpose64 p)))"
  by (rule LUP64_imm_correct) simp

lemma lup_zero_rows:
  "(\<And>j. j \<in> set js \<Longrightarrow> u ! j = 0) \<Longrightarrow> fold lup_row js (u, l, p, todo, r, store) = (u, l, p, todo, r, store @ js)"
  by (induction js arbitrary: store) (auto simp: lup_row_def)

lemma lup_rest_step: "todo \<noteq> 0 \<Longrightarrow> lup_rest todo (s # ss) p = lup_rest (todo XOR low_bit todo) ss (p[s := low_bit todo])"
  by (subst lup_rest.simps) (simp add: Let_def)

lemma lup_rest_keeps: "lup_rest todo store p = Some q \<Longrightarrow> j \<notin> set store \<Longrightarrow> q ! j = p ! j"
proof (induction store arbitrary: todo p)
  case Nil
  then show ?case by (simp add: lup_rest.simps split: if_splits)
next
  case (Cons s store)
  show ?case
  proof (cases "todo = 0")
    case False
    then have "lup_rest (todo XOR low_bit todo) store (p[s := low_bit todo]) = Some q" using Cons.prems(1) by (simp add: lup_rest_step)
    then show ?thesis using Cons.IH Cons.prems(2) by auto
  qed (use Cons.prems in \<open>simp add: lup_rest.simps\<close>)
qed

lemma lup_second_row:
  fixes w :: ul
  assumes "w \<noteq> 0"
  shows "fold lup_row [0..<64] (0 # w # replicate 62 0, id64, id64, NOT 0, 0, [])
    = (0 # w # replicate 62 0, id64, id64[1 := low_bit w], NOT 0 XOR low_bit w, 1, 0 # [2..<64])"
proof -
  let ?u = "0 # w # replicate 62 0 :: mat64"
  have z: "?u ! k = 0" if "1 < k" "k < 64" for k using that by (simp add: nth_Cons')
  have c: "bsfq w < 64" "low_bit w = 2 ^ bsfq w" using bsfq_props(1) [OF assms] low_bit_eq [OF assms] by simp_all
  have "elim_rows 1 (low_bit w) w (id64 ! 1) (?u, id64) = (map ((!) ?u) [0..<64], map ((!) id64) [0..<64])"
    unfolding c(2) by (subst elim_rows_eq) (use c(1) z in \<open>auto simp del: nth_Cons_Suc\<close>)
  also have "\<dots> = (?u, id64)" using map_nth [of ?u] map_nth [of id64] by simp
  finally have e: "elim_rows (Suc 0) (low_bit w) w (id64 ! Suc 0) (?u, id64) = (?u, id64)" by simp
  have upt: "[0..<64] = 0 # 1 # [2..<64]" by (simp add: upt_rec numeral_2_eq_2)
  have 0: "lup_row 0 (?u, id64, id64, NOT 0, 0, []) = (?u, id64, id64, NOT 0, 0, [0])" by (simp add: lup_row_def)
  have 1: "lup_row 1 (?u, id64, id64, NOT 0, 0, [0]) = (?u, id64, id64[1 := low_bit w], NOT 0 XOR low_bit w, 1, [0])"
    using assms e by (simp add: lup_row_def Let_def)
  have "?u ! j = 0" if "j \<in> set [2..<64]" for j
  proof (rule z)
    have "2 \<le> j \<and> j < 64" using that unfolding set_upt by simp
    then show "1 < j" "j < 64" by simp_all
  qed
  from lup_zero_rows [OF this] show ?thesis unfolding upt fold_simps 0 1 by (simp only: append_Cons append_Nil)
qed

lemma vecmat_zeros: "vecmat x (replicate n 0) = 0"
  by (induction n arbitrary: x) auto

text \<open>The row without pivot gets the lowest column that is not the pivot of the other.\<close>

lemma LUP64_imm_zero_first:
  fixes w :: ul
  assumes "w \<noteq> 0" "LUP64_imm (0 # w # replicate 62 0) = Some (l, u, p, r)"
  shows "p ! 0 = 2 ^ (if bit w 0 then 1 else 0)" "u = 0 # w # replicate 62 0"
proof -
  have c: "bsfq w < 64" "bit w (bsfq w)" "\<And>i. i < bsfq w \<Longrightarrow> \<not> bit w i" "low_bit w = 2 ^ bsfq w" using bsfq_props [OF assms(1)] low_bit_eq [OF assms(1)] by simp_all
  let ?t = "NOT 0 XOR low_bit w"
  have t: "bit ?t b \<longleftrightarrow> b \<noteq> bsfq w" if "b < 64" for b using that by (auto simp: c(4) bit_xor_iff bit_not_iff bit_exp_iff possible_bit_def)
  define d where "d = (if bit w 0 then 1 else 0 :: nat)"
  have cd: "bsfq w = 0 \<longleftrightarrow> bit w 0" using c(2,3) by (cases "bsfq w") auto
  have nz: "?t \<noteq> 0" using t [of 0] t [of 1] by (cases "bsfq w = 0") auto
  have "bsfq ?t = d"
    using bsfq_props(2,3) [OF nz] t [of 0] t [of 1] cd unfolding d_def by (metis bot_nat_0.not_eq_extremum less_one linorder_neqE_nat one_less_numeral_iff semiring_norm(76) t zero_less_numeral)
  then have low: "low_bit ?t = 2 ^ d" using low_bit_eq [OF nz] by simp
  have "lup_rest ?t (0 # [2..<64]) (id64[1 := low_bit w]) = Some p" "u = (0 # w # replicate 62 0)"
    using assms(2) unfolding LUP64_imm_def mat64_set_identity_eq [OF length_replicate] Let_def lup_second_row [OF assms(1)] split_conv
    by (simp_all only: bind_eq_Some_conv option.inject prod.inject) blast+
  then have "lup_rest (?t XOR low_bit ?t) [2..<64] ((id64[1 := low_bit w])[0 := low_bit ?t]) = Some p" and u: "u = (0 # w # replicate 62 0)"
    by (simp_all only: lup_rest_step [OF nz])
  from lup_rest_keeps [OF this(1), of 0] have "p ! 0 = 2 ^ d" using low by simp
  then show "p ! 0 = 2 ^ (if bit w 0 then 1 else 0)" by (simp only: d_def)
  show "u = 0 # w # replicate 62 0" by (rule u)
qed

text \<open>C29: The comment of \<open>LUP64_imm\<close> says that \<open>up = u transpose(p)\<close> is upper triangular.  For a matrix with a zero row, then a row \<open>w\<close>,
  then zero rows, this holds exactly when \<open>w\<close> does not have both bits 0 and 1: the zero row is given the lowest column that is not the
  pivot of \<open>w\<close>.\<close>

theorem LUP64_imm_triangular_iff:
  "\<exists>l u p r. LUP64_imm (0 # w # replicate 62 0) = Some (l, u, p, r)
    \<and> (mat64_is_uppertriangular (matmul u (transpose64 p)) \<longleftrightarrow> \<not> (bit w 0 \<and> bit w 1))"
proof -
  let ?a = "0 # w # replicate 62 0 :: mat64"
  have a64: "length ?a = 64" by simp
  obtain l u p r \<pi> where o: "LUP64_imm ?a = Some (l, u, p, r)" "u = matmul l ?a" "unit_lower l" "bij_betw \<pi> {..<64} {..<64}" "p = map (\<lambda>j. 2 ^ \<pi> j) [0..<64]"
    using LUP64_imm_ok [OF a64] by (elim exE conjE)
  have u64: "length u = 64" using o(2,3) by (simp add: unit_lower_def)
  have pi: "\<pi> j < 64" if "j < 64" for j using bij_betwE [OF o(4)] that by simp
  let ?up = "matmul u (transpose64 p)"
  have upper: "mat64_is_uppertriangular ?up \<longleftrightarrow> (\<forall>k < 64. \<forall>j < k. \<not> bit (u ! k) (\<pi> j))"
  proof -
    have "?up ! k AND (push_bit k 1 - 1) = 0 \<longleftrightarrow> (\<forall>j < k. \<not> bit (u ! k) (\<pi> j))" if "k < 64" for k
      unfolding push_bit_mask below_mask_iff [OF that] using bit_permuted_columns [OF o(5) _ pi u64 that] that by simp
    then show ?thesis unfolding mat64_is_uppertriangular_def list_all_iff by (metis atLeastLessThan_iff atLeastLessThan_upt bot_nat_0.extremum)
  qed
  show ?thesis
  proof (cases "w = 0")
    case True
    then have "?a = replicate 64 0" by (simp add: numeral_eq_Suc)
    then have "u ! k = 0" if "k < 64" for k using o(2,3) that vecmat_zeros by (simp add: unit_lower_def)
    then show ?thesis using o(1) upper True by simp
  next
    case False
    define d where "d = (if bit w 0 then 1 else 0 :: nat)"
    have u: "u = ?a" and "p ! 0 = 2 ^ d" unfolding d_def using LUP64_imm_zero_first [OF False o(1)] by simp_all
    then have "(2 :: ul) ^ \<pi> 0 = 2 ^ d" using o(5) by simp
    then have "bit ((2 :: ul) ^ \<pi> 0) d" by (simp add: bit_exp_iff d_def)
    then have "\<pi> 0 = d" by (simp add: bit_exp_iff)
    moreover have "u ! k = 0" if "k < 64" "k \<noteq> 1" for k using that by (auto simp: u nth_Cons')
    ultimately have "mat64_is_uppertriangular ?up \<longleftrightarrow> \<not> bit w d" unfolding upper
      by (metis One_nat_def bit_0_eq bot_apply bot_bool_def less_one nth_Cons_0 nth_Cons_Suc one_less_numeral_iff semiring_norm(76) u)
    moreover have "bit w d \<longleftrightarrow> bit w 0 \<and> bit w 1" by (simp add: d_def)
    ultimately show ?thesis using o(1) by blast
  qed
qed

text \<open>C14: \<open>full_echelon_6464_imm\<close> multiplies the matrix by an invertible \<open>e\<close>, and its result is reduced: row \<open>i\<close> is zero, or it has bit \<open>i\<close>
  as its lowest and no other row has it.  The number returned counts the rows that are not zero and is the rank.\<close>

theorem full_echelon_6464_imm_correct:
  assumes "length m = 64"
  shows "\<exists>mm e r. full_echelon_6464_imm m = (mm, e, r) \<and> mul_6464_6464 e m = mm \<and> independent64 e
    \<and> (\<forall>i < 64. mm ! i = 0 \<or> bit (mm ! i) i \<and> (\<forall>b < i. \<not> bit (mm ! i) b) \<and> (\<forall>k < 64. k \<noteq> i \<longrightarrow> \<not> bit (mm ! k) i))
    \<and> r = card {i. i < 64 \<and> mm ! i \<noteq> 0} \<and> card (left_kernel m) = 2 ^ (64 - r)"
proof -
  obtain mm e r P where o: "full_echelon_6464_imm m = (mm, e, r)" "reduces e mm m" "card (left_kernel m) = 2 ^ (64 - r)" "P \<subseteq> {..<64}" "r = card P"
    and rows: "\<And>i. i < 64 \<Longrightarrow> if i \<in> P then bit (mm ! i) i \<and> (\<forall>b < i. \<not> bit (mm ! i) b) \<and> (\<forall>k < 64. k \<noteq> i \<longrightarrow> \<not> bit (mm ! k) i) else mm ! i = 0"
    using full_echelon_6464_imm_ok [OF assms] by blast
  have nz: "mm ! i \<noteq> 0 \<longleftrightarrow> i \<in> P" if "i < 64" for i using rows [OF that] by (metis bit_0_eq bot_apply bot_bool_def)
  then have "{i. i < 64 \<and> mm ! i \<noteq> 0} = P" using o(4) by auto
  moreover have "mul_6464_6464 e m = mm" using o(2) reduces_length [OF o(2)] by (simp add: mul_6464_6464_eq reduces_def)
  moreover have "independent64 e" using o(2) by (simp add: reduces_def)
  moreover have "mm ! i = 0 \<or> bit (mm ! i) i \<and> (\<forall>b < i. \<not> bit (mm ! i) b) \<and> (\<forall>k < 64. k \<noteq> i \<longrightarrow> \<not> bit (mm ! k) i)" if "i < 64" for i
    using rows [OF that] by (cases "i \<in> P") simp_all
  ultimately show ?thesis using o(1,3,5) by (intro exI [of _ mm] exI [of _ e] exI [of _ r]) simp
qed

theorem full_echelon_6464_imm_correct_witness:
  "\<exists>mm e r. full_echelon_6464_imm id64 = (mm, e, r) \<and> mul_6464_6464 e id64 = mm \<and> independent64 e
    \<and> (\<forall>i < 64. mm ! i = 0 \<or> bit (mm ! i) i \<and> (\<forall>b < i. \<not> bit (mm ! i) b) \<and> (\<forall>k < 64. k \<noteq> i \<longrightarrow> \<not> bit (mm ! k) i))
    \<and> r = card {i. i < 64 \<and> mm ! i \<noteq> 0} \<and> card (left_kernel id64) = 2 ^ (64 - r)"
  by (rule full_echelon_6464_imm_correct) simp

lemma card_le_64: "P \<subseteq> {..<64 :: nat} \<Longrightarrow> card P \<le> 64"
  using card_mono [of "{..<64}" P] by simp

lemma gauss_rank: "length m = 64 \<Longrightarrow> \<exists>mm e r. gauss_6464_imm m = (mm, e, r) \<and> r \<le> 64 \<and> card (left_kernel m) = 2 ^ (64 - r)"
  by (drule gauss_6464_imm_ok, elim exE conjE, intro exI conjI, assumption, simp add: card_le_64, assumption)

lemma echelon_rank: "length m = 64 \<Longrightarrow> \<exists>mm e r. full_echelon_6464_imm m = (mm, e, r) \<and> r \<le> 64 \<and> card (left_kernel m) = 2 ^ (64 - r)"
  by (drule full_echelon_6464_imm_ok, elim exE conjE, intro exI conjI, assumption, simp add: card_le_64, assumption)

lemma lup_rank: "length m = 64 \<Longrightarrow> \<exists>l u p r. LUP64_imm m = Some (l, u, p, r) \<and> r \<le> 64 \<and> card (left_kernel m) = 2 ^ (64 - r)"
  by (drule LUP64_imm_ok, elim exE conjE, intro exI conjI, assumption, simp add: card_le_64, assumption)

text \<open>C13: The four eliminations agree on the rank.\<close>

theorem eliminations_agree:
  assumes "length m = 64" and "pmat_n p = 64" and "length (pmat_v p) = 64" and "pmat_n q = 64" and "length (pmat_v q) = 64"
  shows "map_option (snd \<circ> snd \<circ> snd) (LUP64_imm m) = Some (snd (snd (gauss_6464_imm m)))
    \<and> snd (snd (full_echelon_6464_imm m)) = snd (snd (gauss_6464_imm m))
    \<and> map_option (snd \<circ> snd \<circ> snd \<circ> snd) (PLUQ64 p q m) = Some (snd (snd (gauss_6464_imm m)))"
proof -
  obtain mm e r where g: "gauss_6464_imm m = (mm, e, r)" "card (left_kernel m) = 2 ^ (64 - r)" "r \<le> 64"
    using gauss_rank [OF assms(1)] by blast
  obtain mm' e' r' where f: "full_echelon_6464_imm m = (mm', e', r')" "card (left_kernel m) = 2 ^ (64 - r')" "r' \<le> 64"
    using echelon_rank [OF assms(1)] by blast
  obtain l u lp k where s: "LUP64_imm m = Some (l, u, lp, k)" "card (left_kernel m) = 2 ^ (64 - k)" "k \<le> 64"
    using lup_rank [OF assms(1)] by blast
  obtain p' l' u' q' i where t: "PLUQ64 p q m = Some (p', l', u', q', i)" "card (left_kernel m) = 2 ^ (64 - i)" "i \<le> 64"
    using PLUQ64_ok [OF assms] by (elim exE conjE)
  have "r' = r" "k = r" "i = r" using rank_unique g f s t by metis+
  then show ?thesis using g(1) f(1) s(1) t(1) by simp
qed

theorem eliminations_agree_witness:
  "map_option (snd \<circ> snd \<circ> snd) (LUP64_imm id64) = Some (snd (snd (gauss_6464_imm id64)))
    \<and> snd (snd (full_echelon_6464_imm id64)) = snd (snd (gauss_6464_imm id64))
    \<and> map_option (snd \<circ> snd \<circ> snd \<circ> snd) (PLUQ64 (pmat_init 64) (pmat_init 64) id64) = Some (snd (snd (gauss_6464_imm id64)))"
  by (rule eliminations_agree) (simp_all add: pmat_init_def)

section \<open>Blocks of columns\<close>

text \<open>The array \<open>us\<close> is not initialised by the caller of \<open>PLUQ64_n\<close>.  The state holds \<open>l\<close>, \<open>phi\<close>, \<open>us\<close>, \<open>ls\<close>, \<open>tl\<close> and the rank; the
  loop returns early once the rank is 64.\<close>

fun PLUQ64_n_loop :: "mat64 list \<Rightarrow> nat list \<Rightarrow> mat64 \<times> int list \<times> mat64 list \<times> mat64 list \<times> mat64 \<times> nat
    \<Rightarrow> mat64 \<times> int list \<times> mat64 list \<times> mat64 list \<times> mat64 \<times> nat" where
  "PLUQ64_n_loop a [] st = st"
| "PLUQ64_n_loop a (b # bs) (l, phi, us, ls, tl', rank) =
     (if rank < 64
      then let ta = mul_6464_6464 l (a ! b); (phi, tl', u, k) = PLUQ64_inner (Some phi) ta (int (b * 64))
           in PLUQ64_n_loop a bs (mul_6464_6464 tl' l, phi, us[b := u], ls @ [tl'], tl', rank + k)
      else (l, phi, us, ls, tl', rank))"

definition PLUQ64_n :: "mat64 list \<Rightarrow> mat64 list \<Rightarrow> nat \<Rightarrow> (int list \<times> mat64 \<times> mat64 list \<times> nat) option" where
  "PLUQ64_n us a n =
     (if n mod 64 \<noteq> 0 then None
      else let nb = n div 64; e = mat64_set_identity (replicate 64 0);
               (l, phi, us, ls, tl', rank) = PLUQ64_n_loop a [0..<nb] (e, replicate 64 (- 1), us, [], e, 0);
               nspins = length ls;
               (us, tl') = fold (\<lambda>c (us, tl'). (us[c := mul_6464_6464 tl' (us ! c)], mul_6464_6464 (ls ! c) tl')) (rev [0..<nspins - 1]) (us, tl');
               us = fold (\<lambda>b us. us[b := mul_6464_6464 l (us ! b)]) [nspins..<nb] us
           in Some (phi, l, us, nspins * 64 + nb))"

lemma vecmat_zero_rows: "(\<And>b. b < length B \<Longrightarrow> bit y b \<Longrightarrow> B ! b = 0) \<Longrightarrow> vecmat y B = 0"
proof (rule bit_word_eqI)
  fix n assume z: "\<And>b. b < length B \<Longrightarrow> bit y b \<Longrightarrow> B ! b = 0"
  have "parity_upto (\<lambda>k. bit y k \<and> bit (B ! k) n) (length B) = parity_upto (\<lambda>_. False) (length B)"
    by (rule parity_upto_cong) (use z in auto)
  then show "bit (vecmat y B) n = bit 0 n" by (simp add: bit_vecmat)
qed

text \<open>Rows that are zero where other rows are added from do not change them.\<close>

lemma spares_matmul:
  assumes "unit_lower l" "spares S l" "length u = 64" "\<And>b. b < 64 \<Longrightarrow> \<not> S b \<Longrightarrow> u ! b = 0"
  shows "matmul l u = u"
proof (rule nth_equalityI)
  show "length (matmul l u) = length u" using assms(1,3) by (simp add: unit_lower_def)
  fix k assume "k < length (matmul l u)"
  then have k: "k < 64" "length l = 64" using assms(1) by (simp_all add: unit_lower_def)
  have b: "bit (l ! k) k" using assms(1) k by (simp add: unit_lower_def)
  have "u ! c = 0" if "c < length u" "bit (l ! k XOR 2 ^ k) c" for c
  proof -
    have "c \<noteq> k" using that(2) b k(1) by (auto simp: bit_xor_iff bit_exp_iff)
    then have "bit (l ! k) c" using that(2) by (auto simp: bit_xor_iff bit_exp_iff)
    then show ?thesis using assms(2,3,4) k(1) that(1) \<open>c \<noteq> k\<close> unfolding spares_def by metis
  qed
  then have "vecmat (l ! k XOR 2 ^ k) u = 0" by (rule vecmat_zero_rows)
  then have "vecmat (l ! k) u XOR u ! k = 0" using vecmat_unit [of k u] k(1) assms(3) by (simp add: vecmat_xor)
  then have "(vecmat (l ! k) u XOR u ! k) XOR u ! k = u ! k" by simp
  then have "vecmat (l ! k) u = u ! k" by (simp add: xor.assoc)
  then show "matmul l u ! k = u ! k" using k by simp
qed

lemma unit_lower_matmul:
  assumes "unit_lower l" "unit_lower l'"
  shows "unit_lower (matmul l' l)"
  unfolding unit_lower_def
proof (intro conjI allI impI)
  have len: "length l = 64" "length l' = 64" using assms by (simp_all add: unit_lower_def)
  then show "length (matmul l' l) = 64" by simp
  have row: "bit (matmul l' l ! k) b = parity_upto (\<lambda>j. bit (l' ! k) j \<and> bit (l ! j) b) 64" if "k < 64" for k b
    using that len by (simp add: bit_vecmat)
  show "bit (matmul l' l ! k) k" if k: "k < 64" for k
    unfolding row [OF k]
  proof (rule parity_upto_one [of k])
    show "bit (l' ! k) k \<and> bit (l ! k) k" using assms k by (simp add: unit_lower_def)
    fix i assume i: "i < 64" "i \<noteq> k"
    show "\<not> (bit (l' ! k) i \<and> bit (l ! i) k)" using assms i k by (cases "k < i") (auto simp: unit_lower_def)
  qed (rule k)
  show "\<not> bit (matmul l' l ! k) b" if k: "k < 64" "b < 64" "k < b" for k b
  proof -
    have "parity_upto (\<lambda>j. bit (l' ! k) j \<and> bit (l ! j) b) 64 = parity_upto (\<lambda>_. False) 64"
    proof (rule parity_upto_cong)
      fix i assume i: "i < (64 :: nat)"
      show "(bit (l' ! k) i \<and> bit (l ! i) b) = False" using assms i k by (cases "k < i") (auto simp: unit_lower_def)
    qed
    then show ?thesis unfolding row [OF k(1)] by simp
  qed
qed

lemma left_kernel_both:
  assumes "independent64 l" "length a0 = 64" "length a1 = 64"
  shows "card (left_kernel a0 \<inter> left_kernel a1) = card (left_kernel (matmul l a0) \<inter> left_kernel (matmul l a1))"
proof -
  have inj: "inj (\<lambda>x. vecmat x l)"
  proof (rule injI)
    fix x y assume "vecmat x l = vecmat y l"
    then have "vecmat (x XOR y) l = 0" by (simp add: vecmat_xor)
    then have "x XOR y = 0" using assms(1) by (simp add: independent64_def)
    then have "(x XOR y) XOR y = y" by simp
    then show "x = y" by (simp add: xor.assoc)
  qed
  then have surj: "surj (\<lambda>x. vecmat x l)" by (simp add: finite_UNIV_inj_surj)
  have "left_kernel a0 \<inter> left_kernel a1 = (\<lambda>x. vecmat x l) ` (left_kernel (matmul l a0) \<inter> left_kernel (matmul l a1))"
    using surj by (auto simp: left_kernel_def surj_def image_iff vecmat_assoc [symmetric])
  then show ?thesis using card_image [OF inj_on_subset [OF inj subset_UNIV]] by metis
qed

text \<open>
  The pivots of two blocks: row \<open>i\<close> has no pivot and is zero, or it has its pivot in column \<open>phi[i]\<close> of the 128 columns, where no later row has
  a bit, and is zero in the first block if that column is in the second; no two rows have the same pivot.
\<close>

definition pivots_ok :: "int list \<Rightarrow> mat64 \<Rightarrow> mat64 \<Rightarrow> bool" where
  "pivots_ok phi x0 x1 \<longleftrightarrow> length phi = 64 \<and> inj_on ((!) phi) {i. i < 64 \<and> 0 \<le> phi ! i}
     \<and> (\<forall>i < 64. phi ! i = - 1 \<and> x0 ! i = 0 \<and> x1 ! i = 0
          \<or> 0 \<le> phi ! i \<and> phi ! i < 64 \<and> bit (x0 ! i) (nat (phi ! i)) \<and> (\<forall>k < 64. i < k \<longrightarrow> \<not> bit (x0 ! k) (nat (phi ! i)))
          \<or> 64 \<le> phi ! i \<and> phi ! i < 128 \<and> x0 ! i = 0 \<and> bit (x1 ! i) (nat (phi ! i) - 64)
              \<and> (\<forall>k < 64. i < k \<longrightarrow> \<not> bit (x1 ! k) (nat (phi ! i) - 64)))"

lemma first_block:
  assumes "pluq_inv a0 (replicate 64 (- 1)) 0 P C 64 (phi, u, l, todo, r)"
  shows "elim_inv a0 {} P C u l todo 64" "r = card P" "r \<le> 64" "card (left_kernel a0) = 2 ^ (64 - r)" "length phi = 64" "P \<subseteq> {..<64}"
    "\<forall>j < 64. phi ! j = (if j \<in> P then int (C j) else - 1)" "{i. i < 64 \<and> 0 \<le> phi ! i \<and> phi ! i < 64} = P" "{i. i < 64 \<and> 0 \<le> phi ! i} = P"
proof -
  have e: "elim_inv a0 {k. replicate 64 (- 1) ! k \<ge> (0 :: int)} P C u l todo 64" and r: "r = card P" and p: "length phi = 64"
      "\<forall>j < 64. phi ! j = (if j \<in> P then int (C j) else - 1)" using assms by (auto simp: pluq_inv_def)
  then show "r = card P" "length phi = 64" "\<forall>j < 64. phi ! j = (if j \<in> P then int (C j) else - 1)" by simp_all
  note d = elim_invD [OF e]
  show P: "P \<subseteq> {..<64}" using d(4) by blast
  show e': "elim_inv a0 {} P C u l todo 64" using e P by (auto simp: elim_inv_def)
  show "r \<le> 64" using P r by (simp add: card_le_64)
  show "card (left_kernel a0) = 2 ^ (64 - r)" using elim_inv_done(3) [OF e'] r by simp
  have C: "C j < 64" if "j \<in> P" for j using d(6) that by auto
  show "{i. i < 64 \<and> 0 \<le> phi ! i \<and> phi ! i < 64} = P" "{i. i < 64 \<and> 0 \<le> phi ! i} = P" using p(2) P C by (auto split: if_splits)
qed

text \<open>The second block: its rows outside the pivots of the first are in echelon form.\<close>

lemma second_block:
  assumes "elim_inv a0 {} P C u l todo 64" "pluq_inv b phi off Q D 64 (phi', u', l', todo', r')" "P = {i. i < 64 \<and> 0 \<le> phi ! i}"
  shows "left_kernel u \<inter> left_kernel u' = {x. \<forall>j \<in> P \<union> Q. \<not> bit x j}" "Q \<subseteq> {..<64}" "P \<inter> Q = {}"
proof -
  have e: "elim_inv b {k. phi ! k \<ge> 0} Q D u' l' todo' 64" using assms(2) by (simp add: pluq_inv_def)
  note c = elim_invD [OF assms(1)] and d = elim_invD [OF e]
  show Q: "Q \<subseteq> {..<64}" "P \<inter> Q = {}" using d(4) assms(3) by auto
  define w where "w = map (\<lambda>k. if k \<in> P then 0 else u' ! k) [0..<64]"
  have nth: "w ! k = (if k \<in> P then 0 else u' ! k)" if "k < 64" for k using that by (simp add: w_def)
  have len: "length w = 64" by (simp add: w_def)
  have 1: "staircase u P C id" using c(4,8-10) by (auto simp: staircase_def subset_iff)
  have zero: "u' ! j = 0" if "j < 64" "j \<notin> P" "j \<notin> Q" for j by (rule d(10)) (use that assms(3) in auto)
  have Qb: "j < 64" "j \<notin> P" if "j \<in> Q" for j using Q that by auto
  have 2: "staircase w Q D id"
    unfolding staircase_def
  proof (intro conjI ballI allI impI)
    show "Q \<subseteq> {..<64}" "inj_on id Q" using Q by simp_all
    show "bit (w ! j) (D j)" if "j \<in> Q" for j using d(8) [OF that] Qb [OF that] by (simp add: nth)
    show "w ! j = 0" if "j < 64" "j \<notin> Q" for j using that zero by (simp add: nth)
    show "\<not> bit (w ! i) (D j)" if "i \<in> Q" "j \<in> Q" "id j < id i" for i j
      using d(9) [OF that(2), of i] Qb [OF that(1)] that(3) by (simp add: nth)
  qed
  have "vecmat x u' = vecmat x w" if "\<forall>j \<in> P. \<not> bit x j" for x
  proof (rule bit_word_eqI)
    fix n
    have "parity_upto (\<lambda>k. bit x k \<and> bit (u' ! k) n) 64 = parity_upto (\<lambda>k. bit x k \<and> bit (w ! k) n) 64"
      by (rule parity_upto_cong) (use that in \<open>auto simp: nth\<close>)
    then show "bit (vecmat x u') n = bit (vecmat x w) n" by (simp add: bit_vecmat len d(11))
  qed
  then have "x \<in> left_kernel u' \<longleftrightarrow> x \<in> left_kernel w" if "\<forall>j \<in> P. \<not> bit x j" for x using that by (simp add: left_kernel_def)
  then show "left_kernel u \<inter> left_kernel u' = {x. \<forall>j \<in> P \<union> Q. \<not> bit x j}"
    using staircase_kernel [OF 1 c(11)] staircase_kernel [OF 2 len] by auto
qed

lemma pivots_ok_blocks:
  assumes "elim_inv a0 {} P C u l todo 64" "\<forall>j < 64. phi ! j = (if j \<in> P then int (C j) else - 1)"
    and "pluq_inv b phi 64 Q D 64 (phi', u', l', todo', r')" "length phi = 64"
  shows "pivots_ok phi' u u'" "{i. i < 64 \<and> 0 \<le> phi' ! i \<and> phi' ! i < 64} = P" "{i. i < 64 \<and> 0 \<le> phi' ! i} = P \<union> Q"
proof -
  have e: "elim_inv b {k. phi ! k \<ge> 0} Q D u' l' todo' 64" and p: "length phi' = 64"
      "\<And>j. j < 64 \<Longrightarrow> phi' ! j = (if j \<in> Q then 64 + int (D j) else phi ! j)" using assms(3) by (auto simp: pluq_inv_def)
  note c = elim_invD [OF assms(1)] and d = elim_invD [OF e]
  have P: "P = {i. i < 64 \<and> 0 \<le> phi ! i}" using c(4) assms(2) by (auto split: if_splits)
  have Q: "Q \<subseteq> {..<64}" "P \<inter> Q = {}" using d(4) P by auto
  have Cb: "C j < 64" if "j \<in> P" for j using c(6) that by auto
  have Db: "D j < 64" if "j \<in> Q" for j using d(6) that by auto
  have v: "phi' ! j = (if j \<in> P then int (C j) else if j \<in> Q then 64 + int (D j) else - 1)" if "j < 64" for j
    using that p(2) assms(2) Q(2) by auto
  show r: "{i. i < 64 \<and> 0 \<le> phi' ! i \<and> phi' ! i < 64} = P" "{i. i < 64 \<and> 0 \<le> phi' ! i} = P \<union> Q"
    using v Q c(4) Cb by (auto split: if_splits)
  have "inj_on ((!) phi') (P \<union> Q)"
  proof (rule inj_onI)
    fix i j assume ij: "i \<in> P \<union> Q" "j \<in> P \<union> Q" "phi' ! i = phi' ! j"
    then have "i < 64" "j < 64" using Q c(4) by auto
    then show "i = j" using ij v Cb [of i] Cb [of j] Q(2) inj_onD [OF c(5), of i j] inj_onD [OF d(5), of i j] by (auto split: if_splits)
  qed
  moreover have "phi' ! i = - 1 \<and> u ! i = 0 \<and> u' ! i = 0
          \<or> 0 \<le> phi' ! i \<and> phi' ! i < 64 \<and> bit (u ! i) (nat (phi' ! i)) \<and> (\<forall>k < 64. i < k \<longrightarrow> \<not> bit (u ! k) (nat (phi' ! i)))
          \<or> 64 \<le> phi' ! i \<and> phi' ! i < 128 \<and> u ! i = 0 \<and> bit (u' ! i) (nat (phi' ! i) - 64)
              \<and> (\<forall>k < 64. i < k \<longrightarrow> \<not> bit (u' ! k) (nat (phi' ! i) - 64))" if i: "i < 64" for i
  proof -
    consider "i \<in> P" | "i \<notin> P" "i \<in> Q" | "i \<notin> P" "i \<notin> Q" by blast
    then show ?thesis
    proof cases
      case 1
      then show ?thesis using v [OF i] Cb c(8,9) by simp
    next
      case 2
      moreover have "nat (64 + int (D i)) - 64 = D i" by simp
      moreover have "u ! i = 0" using c(10) i 2 by simp
      ultimately show ?thesis using v [OF i] Db d(8,9) by simp
    next
      case 3
      then have "u' ! i = 0" using d(10) [OF i] P i by simp
      then show ?thesis using 3 v [OF i] c(10) [OF i] by simp
    qed
  qed
  ultimately show "pivots_ok phi' u u'" unfolding pivots_ok_def r(2) using p(1) by blast
qed

lemma both_blocks:
  assumes "elim_inv a0 {} P C u l todo 64" "\<forall>j < 64. phi ! j = (if j \<in> P then int (C j) else - 1)" "length phi = 64" "length a1 = 64"
    and "pluq_inv (matmul l a1) phi 64 Q D 64 (phi', u', l', todo', r')" "spares (\<lambda>k. phi ! k \<ge> 0) l'"
  shows "matmul l' u = u" "matmul (matmul l' l) a0 = u" "matmul (matmul l' l) a1 = u'" "unit_lower (matmul l' l)" "length l' = 64" "length u' = 64"
    "card (left_kernel a0 \<inter> left_kernel a1) = 2 ^ (64 - card {i. i < 64 \<and> 0 \<le> phi' ! i})"
proof -
  have "elim_inv (matmul l a1) {k. phi ! k \<ge> 0} Q D u' l' todo' 64" using assms(5) by (simp add: pluq_inv_def)
  note d = elim_invD [OF assms(1)] and d' = elim_invD [OF this]
  have P: "P \<subseteq> {..<64}" "P = {i. i < 64 \<and> 0 \<le> phi ! i}" using d(4) assms(2) by (auto split: if_splits)
  show keep: "matmul l' u = u" by (rule spares_matmul [OF d'(2) assms(6) d(11)]) (use d(10) P(2) in auto)
  show x: "matmul (matmul l' l) a0 = u" "matmul (matmul l' l) a1 = u'" using keep d(3) d'(3) d(12) d'(12) by (simp_all add: matmul_assoc)
  show "unit_lower (matmul l' l)" "length l' = 64" "length u' = 64" using unit_lower_matmul d(2) d'(2,11,12) by blast+
  then have "independent64 (matmul l' l)" by (simp add: unit_lower_independent)
  note k = left_kernel_both [OF this d(1) assms(4)] and s = second_block [OF assms(1,5) P(2)] and v = pivots_ok_blocks [OF assms(1,2,5,3)]
  show "card (left_kernel a0 \<inter> left_kernel a1) = 2 ^ (64 - card {i. i < 64 \<and> 0 \<le> phi' ! i})"
    unfolding k x s(1) v(3) by (simp only: card_words_avoiding P(1) s(2) Un_subset_iff simp_thms)
qed

lemma pivots_ok_single:
  assumes "elim_inv a0 {} P C u l todo 64" "\<forall>j < 64. phi ! j = (if j \<in> P then int (C j) else - 1)" "length phi = 64" "P = {..<64}"
  shows "pivots_ok phi u w"
proof -
  note c = elim_invD [OF assms(1)]
  have v: "phi ! j = int (C j)" "C j < 64" if "j < 64" for j using assms(2,4) c(6) that by auto
  have "inj_on ((!) phi) {i. i < 64 \<and> 0 \<le> phi ! i}" using c(5) v assms(4) by (auto simp: inj_on_def)
  then show ?thesis unfolding pivots_ok_def using assms(3,4) v c(8,9) by auto
qed

text \<open>C28: \<open>PLUQ64_n\<close> on two blocks of columns, the call in \<open>PLUQ128\<close>.  With \<open>l\<close> unit lower triangular, \<open>l a\<close> is in echelon form with the
  pivots listed in \<open>phi\<close>: \<open>r\<close> of them are in the first block and \<open>r\<close> is its rank.  If \<open>r < 64\<close> the number of pivots is the rank of the two
  blocks side by side.  If \<open>r = 64\<close> the loop stops, and the second block of the result is the product of \<open>l\<close> with the uninitialised memory
  of the result, not with the input.  The value returned is 130 or 66, and never the rank.\<close>

theorem PLUQ64_n_two_blocks:
  assumes "length a0 = 64" and "length a1 = 64" and "length u0 = 64" and "length u1 = 64"
  shows "\<exists>phi l x0 x1 r. PLUQ64_n [u0, u1] [a0, a1] 128 = Some (phi, l, [x0, x1], if r < 64 then 130 else 66)
    \<and> unit_lower l \<and> x0 = matmul l a0 \<and> x1 = matmul l (if r < 64 then a1 else u1) \<and> pivots_ok phi x0 x1
    \<and> r = card {i. i < 64 \<and> 0 \<le> phi ! i \<and> phi ! i < 64} \<and> card (left_kernel a0) = 2 ^ (64 - r)
    \<and> (r < 64 \<longrightarrow> card (left_kernel a0 \<inter> left_kernel a1) = 2 ^ (64 - card {i. i < 64 \<and> 0 \<le> phi ! i}))"
proof -
  have e: "mat64_set_identity (replicate 64 0) = id64" by (simp add: mat64_set_identity_eq)
  have upt: "[0..<128 div 64] = [0, Suc 0]" "[0..<2 :: nat] = [0, 1]" "[Suc 0..<2] = [1]" by (simp_all add: upt_rec)
  obtain phi l u r todo P C where 1: "PLUQ64_inner (Some (replicate 64 (- 1))) a0 0 = (phi, l, u, r)"
      "pluq_inv a0 (replicate 64 (- 1)) 0 P C 64 (phi, u, l, todo, r)"
    using PLUQ64_inner_spares [OF assms(1), of "replicate 64 (- 1)" 0] by auto
  note f = first_block [OF 1(2)]
  note d = elim_invD [OF f(1)]
  have first: "mul_6464_6464 id64 a0 = a0" "mul_6464_6464 l id64 = l" using assms(1) d(12) by (simp_all add: mul_6464_6464_eq)
  show ?thesis
  proof (cases "r < 64")
    case True
    have la1: "length (matmul l a1) = 64" using d(12) by simp
    obtain phi' l' u' r' todo' Q D where 2: "PLUQ64_inner (Some phi) (matmul l a1) 64 = (phi', l', u', r')"
        "pluq_inv (matmul l a1) phi 64 Q D 64 (phi', u', l', todo', r')" "spares (\<lambda>k. phi ! k \<ge> 0) l'"
      using PLUQ64_inner_spares [OF la1 f(5), of 64] by blast
    note b = both_blocks [OF f(1,7,5) assms(2) 2(2,3)] and v = pivots_ok_blocks [OF f(1,7) 2(2) f(5)]
    have "PLUQ64_n_loop [a0, a1] [0, Suc 0] (id64, replicate 64 (- 1), [u0, u1], [], id64, 0) = (matmul l' l, phi', [u, u'], [l, l'], l', r + r')"
      using True 1(1) 2(1) d(12) b(5) assms(2) by (simp add: first mul_6464_6464_eq)
    then have "PLUQ64_n [u0, u1] [a0, a1] 128 = Some (phi', matmul l' l, [u, u'], 130)"
      using d(11,12) b(1,5,6) by (simp add: PLUQ64_n_def e upt mul_6464_6464_eq)
    moreover have "r = card {i. i < 64 \<and> 0 \<le> phi' ! i \<and> phi' ! i < 64}" using f(2) v(2) by simp
    ultimately show ?thesis using True b(2-4,7) v(1) f(4) by (intro exI [of _ phi'] exI [of _ "matmul l' l"] exI [of _ u] exI [of _ u'] exI [of _ r]) simp
  next
    case False
    then have "P = {..<64}" using f(2,3,6) by (intro card_subset_eq) simp_all
    then have p: "pivots_ok phi u (matmul l u1)" using pivots_ok_single [OF f(1,7,5)] by blast
    have "PLUQ64_n_loop [a0, a1] [0, Suc 0] (id64, replicate 64 (- 1), [u0, u1], [], id64, 0) = (l, phi, [u, u1], [l], l, r)"
      using False 1(1) by (simp add: first)
    then have "PLUQ64_n [u0, u1] [a0, a1] 128 = Some (phi, l, [u, matmul l u1], 66)"
      using d(12) assms(4) by (simp add: PLUQ64_n_def e upt mul_6464_6464_eq)
    then show ?thesis using False p d(2,3) f(2,4,8) by (intro exI [of _ phi] exI [of _ l] exI [of _ u] exI [of _ "matmul l u1"] exI [of _ r]) simp
  qed
qed

theorem PLUQ64_n_two_blocks_witness:
  "\<exists>phi l x0 x1 r. PLUQ64_n [id64, id64] [replicate 64 0, id64] 128 = Some (phi, l, [x0, x1], if r < 64 then 130 else 66)
    \<and> unit_lower l \<and> x0 = matmul l (replicate 64 0) \<and> x1 = matmul l (if r < 64 then id64 else id64) \<and> pivots_ok phi x0 x1
    \<and> r = card {i. i < 64 \<and> 0 \<le> phi ! i \<and> phi ! i < 64} \<and> card (left_kernel (replicate 64 0)) = 2 ^ (64 - r)
    \<and> (r < 64 \<longrightarrow> card (left_kernel (replicate 64 0) \<inter> left_kernel id64) = 2 ^ (64 - card {i. i < 64 \<and> 0 \<le> phi ! i}))"
  by (rule PLUQ64_n_two_blocks) simp_all

end
