(* ===== verification/Spec2Isabelle.thy ===== *)
theory Spec2Isabelle
  imports Mod_inv Replay Filter_read Matops_pol Matops_gauss
begin

text \<open>
  \<^bold>\<open>Verification of cado-nfs\<close>

  CADO-NFS factors integers by the number field sieve: polynomial selection, sieving, filtering,
  linear algebra over GF(2), square root.  This development models three of its layers.

  \<^bold>\<open>The arithmetic layer\<close> (\<open>src/utils\<close>), on which sieving and cofactorisation rest.
  Machine words are 64-bit \<open>word\<close>s (type \<open>ul\<close>, \<open>unsigned long\<close> on x86_64), so every wrap-around of the C
  code is in the model.  Inline assembly is translated instruction by instruction over
  \<open>x86_add\<close>, \<open>x86_adc\<close>, \<open>x86_mul\<close>, ...; the C alternative has the same name with suffix \<open>_c\<close>.

  \<^item> \<open>Prelude\<close>: word lemmas, \<open>named_theorems\<close>, the instructions.  \<open>Number_facts\<close>: primes, Fermat,
    strong probable primes, Lucas sequences.
  \<^item> \<open>Ularith\<close>: \<open>ularith.h\<close>, the double-word operations: exactness of products, sums and
    differences with carry, shifts, bit counts, inverse modulo \<open>2^64\<close>.
  \<^item> \<open>Mod_ul\<close>, \<open>Modredc_ul\<close>: \<open>mod_ul.h\<close> and \<open>modredc_ul.h\<close>, residues in plain and in Montgomery
    representation: each operation is the ring operation modulo \<open>m\<close>, in range.
  \<^item> \<open>Mod_common\<close>, \<open>Mod_prime\<close>: \<open>mod_ul_common.c\<close>, which is compiled for both representations.  The
    operations it calls are the fields of the record \<open>mod_ops\<close>; the laws it needs are a locale,
    interpreted by \<open>modul_ops\<close> and \<open>modredcul_ops\<close>.  Powers, Lucas chains, divisions by small
    primes, gcd, Jacobi symbol, primality tests.
  \<^item> \<open>Mod_inv\<close>: the inverses of \<open>mod_ul.c\<close> and \<open>modredc_ul.c\<close> and the 64-bit gcds.

  \<^bold>\<open>The merge phase of filtering\<close> (\<open>src/filter\<close>), which shrinks the sparse matrix over GF(2)
  before linear algebra.

  \<^item> \<open>Sparse\<close>: \<open>sparse.c\<close>, rows as increasing lists of columns, their sum over GF(2).
  \<^item> \<open>Array_heap\<close>: the binary heap in an array that \<open>mst.c\<close> and \<open>markowitz.c\<close> contain, over a locale
    for the key.  \<open>Mst\<close>: \<open>mst.c\<close>, both edge queues (locale \<open>edge_queue\<close> with two interpretations) and
    Prim's algorithm, whose tree is shown minimal for either queue.
  \<^item> \<open>Dclist\<close>: \<open>dclist.c\<close>, doubly-chained lists in an explicit store of cells.
  \<^item> \<open>Filter_matrix\<close>: the matrix of \<open>filter_matrix.h\<close> with the column operations of
    \<open>filter_matrix.c\<close> and \<open>swar.c\<close>.  The invariant \<open>mat_ok\<close> says that the weights \<open>wt\<close>, the row lists
    \<open>R\<close>, the stacks \<open>S\<close> of columns by weight and the pointers \<open>A\<close> agree with the rows.
  \<^item> \<open>Merge_rows\<close>, \<open>Merge_mono\<close>: \<open>merge_mono.c\<close> and \<open>report.c\<close>, built without \<open>USE_MARKOWITZ\<close> and
    \<open>USE_MPI\<close> (the default): additions of rows that keep the invariant, the merge of a column along the
    best row or along a minimal spanning tree.
  \<^item> \<open>Merge_history\<close>: the history.  A line is specified as an operation on the table of rows; the merges
    report lines that describe them, and \<open>doAllAdds\<close> and \<open>resume\<close> implement the lines.
    Over GF(2) every row is a sum of initial rows and dependencies between rows lift to the initial rows.
  \<^item> \<open>Merge_drive\<close>: the loops of \<open>merge_mono.c\<close> and \<open>swar.c\<close> that remove columns (empty, of weight 1, heavy)
    and rows (heavy, useless, superfluous) and that choose merges.  \<open>reports\<close> relates the matrices and histories
    before and after; \<open>active\<close>, the number of columns in the stacks, decreases.
  \<^item> \<open>Merge_main\<close>: the driver \<open>mergeOneByOne\<close>: it ends, its history describes its result, dependencies lift.
  \<^item> \<open>Filter_read\<close>: \<open>initMat\<close>, \<open>filter_matrix_read_weights\<close>, \<open>initSWAR\<close>, \<open>fillmat\<close> and \<open>filter_matrix_read\<close>
    as the main program calls them: the matrix read from a purged file satisfies the invariant, and the reading
    succeeds exactly when the rows fit in its line buffer.
  \<^item> \<open>History_file\<close>: the history as text: the numbers and lines that the programs print and read, the
    parser of \<open>merge_mono.c\<close> and its function \<open>resume\<close>, which reads back what was printed.
  \<^item> \<open>Replay\<close>: \<open>replay.c\<close>, the program that runs after \<open>merge\<close>: it reads the history, computes the rows of the
    small matrix from the purged file, renumbers the columns and writes the matrix, weight and index files; it
    succeeds exactly when \<open>skip\<close> is between 0 and the number of columns.  Its
    theorems compose it with \<open>merge\<close>: both agree on the rows, and a merge can be resumed.

  \<^bold>\<open>The matrix kernels over GF(2)\<close> (\<open>src/linalg/bwc/matops.c\<close>), used by the linear algebra.  A row vector is a word, a
  matrix the list of its rows.

  \<^item> \<open>Matops\<close>: the products of vectors and matrices of 64 columns.  The specification is \<open>vecmat\<close>, the product of a
    row vector and a matrix; each kernel (bit by bit, with SSE registers, with tables filled in Gray order, with
    parities) is shown to compute it.  The kernels with tables work on a memory, because they are called in place.
  \<^item> \<open>Matops_pol\<close>: polynomials of matrices and blocks of them.  The matrices are made an instance of the class
    \<open>ring_1\<close>; the products, for any two lengths, are those of this ring; Karatsuba's recursion gives the same for powers of two.
  \<^item> \<open>Matops_gauss\<close>: \<open>gauss_6464_imm\<close>, \<open>full_echelon_6464_imm\<close>, \<open>LUP64_imm\<close>, \<open>PLUQ64\<close> with the permutations of the
    type \<open>pmat\<close>, and \<open>check_pluq\<close>.  The rank is specified by the number of elements of the left kernel; the results
    have the promised shape, the four ranks agree, and \<open>check_pluq\<close> accepts what \<open>PLUQ64\<close> returns.
    \<open>PLUQ64_n\<close> is shown to give the echelon form of two blocks of columns, if the first is singular.

  \<^bold>\<open>Conventions\<close>  A failed assertion, an exit, an access outside an array or through a freed pointer is
  \<open>None\<close>; the theorems show that the result is not \<open>None\<close>.  Loops that may not end are
  \<open>partial_function (option)\<close> with a proof that they return.  The recursion over a spanning tree has fuel
  257: a tree over \<open>m \<le> 256\<close> nodes has height below 256.  Uninitialised arrays are arguments with
  arbitrary contents of the declared length.  \<open>qsort\<close> is any function that sorts by the comparison \<open>cmp\<close> of \<open>sparse.c\<close>
  (\<open>cmp_sorts\<close>), or the function \<open>sort_cmp\<close>, which does.  \<open>int\<close> variables of the merge phase are unbounded integers;
  where sums of weights could overflow, the hypothesis that single weights are below \<open>2^23\<close> is stated and
  the bound on the sums is proved.

  \<^bold>\<open>Not modelled\<close>  Printing, timing and option parsing.  Of the merge phase: the driver \<open>merge\<close>, which
  the default build does not call, \<open>markowitz.c\<close> and the MPI version; of \<open>replay\<close>: slices; floating-point costs are parameters.  Of the arithmetic:
  the two-word residues \<open>modredc_15ul\<close>, \<open>modredc_2ul2\<close>.  Sieving and polynomial selection rest on
  floating-point logarithms and GMP, block Wiedemann on MPI and threads, the square root on GMP.  Of \<open>matops.c\<close>:
  \<open>PLUQ128\<close>, whose calls of \<open>PLUQ64_n\<close> do not return the rank, the branches for SSE 4.1, the wrappers of M4RI, timing;
  \<open>gf2x\<close> is a bundled library.
\<close>

end
